(* ===== verification/Gasnet_Prelude.thy ===== *)
theory Gasnet_Prelude
  imports Main "HOL-Library.Word"
begin

text \<open>
  Shared material of the development: names for the machine types of the C code, the theorem
  collections the component theories fill, and the generic lemmas on words, loops and modular
  distances that more than one component uses.
\<close>

unbundle bit_operations_syntax

section \<open>Machine types\<close>

type_synonym u8 = "8 word"
type_synonym u32 = "32 word"
type_synonym u64 = "64 word"

section \<open>Collections\<close>

named_theorems gasnet_ops \<open>unfolding equations of the modelled operations\<close>
named_theorems gasnet_inv \<open>introduction and preservation facts of the invariants\<close>

section \<open>C truth of a bit test\<close>

text \<open>
  The C test \<open>x & mask\<close> used as a condition.
\<close>

definition c_and :: "'a::len word \<Rightarrow> 'a word \<Rightarrow> bool" where
  "c_and x m \<longleftrightarrow> x AND m \<noteq> 0"

lemma c_and_or [simp]: "c_and (x OR y) m \<longleftrightarrow> c_and x m \<or> c_and y m"
proof -
  have "(x OR y) AND m = (x AND m) OR (y AND m)"
    by (rule bit.conj_disj_distrib2)
  then show ?thesis
    by (simp add: c_and_def or_eq_0_iff)
qed

section \<open>Rounds of doubling\<close>

text \<open>
  The loop \<open>for (i = 1; i < n; i *= 2) ++count\<close>, which the team code runs to size its peer
  lists: the number of doublings of \<open>i\<close> that reach \<open>n\<close>.
\<close>

function count_doublings :: "nat \<Rightarrow> nat \<Rightarrow> nat" where
  "count_doublings i n = (if 0 < i \<and> i < n then Suc (count_doublings (2 * i) n) else 0)"
  by pat_completeness auto
termination
  by (relation "measure (\<lambda>(i, n). n - i)") auto

declare count_doublings.simps [simp del]

lemma count_doublings_reach: "0 < i \<Longrightarrow> n \<le> i * 2 ^ count_doublings i n"
proof (induction i n rule: count_doublings.induct)
  case (1 i n)
  then show ?case
    by (cases "i < n") (auto simp: count_doublings.simps [of i n] algebra_simps)
qed

lemma count_doublings_minimal:
  "0 < i \<Longrightarrow> j < count_doublings i n \<Longrightarrow> i * 2 ^ j < n"
proof (induction i n arbitrary: j rule: count_doublings.induct)
  case (1 i n)
  show ?case
  proof (cases "i < n")
    case True
    with "1.prems" have j: "j < Suc (count_doublings (2 * i) n)"
      by (simp add: count_doublings.simps [of i n])
    show ?thesis
    proof (cases j)
      case 0
      with True show ?thesis by simp
    next
      case (Suc j')
      with j have "j' < count_doublings (2 * i) n" by simp
      with "1.IH" [of j'] True "1.prems"(1) have "2 * i * 2 ^ j' < n" by simp
      with Suc show ?thesis by (simp add: algebra_simps)
    qed
  next
    case False
    with "1.prems" show ?thesis by (simp add: count_doublings.simps [of i n])
  qed
qed

lemma count_doublings_pos: "1 < n \<Longrightarrow> 0 < count_doublings 1 n"
  by (subst count_doublings.simps) simp

text \<open>The number of rounds of a dissemination among \<open>n\<close> ranks.\<close>

definition rounds :: "nat \<Rightarrow> nat" where
  "rounds n = count_doublings 1 n"

lemma count_rounds [simp]: "count_doublings (Suc 0) n = rounds n"
  by (simp add: rounds_def)

lemma rounds_reach: "n \<le> 2 ^ rounds n"
  using count_doublings_reach [of 1 n] by simp

lemma rounds_minimal: "j < rounds n \<Longrightarrow> 2 ^ j < n"
  using count_doublings_minimal [of 1 j n] by simp

lemma rounds_pos: "1 < n \<Longrightarrow> 0 < rounds n"
  unfolding rounds_def by (rule count_doublings_pos)

section \<open>Distances on a ring of ranks\<close>

text \<open>Two-phase operation: the phase of a barrier is its number modulo 2.\<close>

lemma mod_two_Suc [simp]: "Suc n mod 2 \<noteq> n mod 2" "n mod 2 \<noteq> Suc n mod 2"
  by presburger+

lemma one_minus_mod_two: "Suc 0 - n mod 2 = Suc n mod 2"
  by presburger

lemma two_plus: "1 < N \<Longrightarrow> \<exists>n. N = n + (2::nat)"
  by (rule exI [of _ "N - 2"]) simp

lemma mod_add_cancel_nat:
  assumes "(a + n) mod N = (b + n) mod (N::nat)"
  shows "a mod N = b mod N"
proof -
  have "int ((a + n) mod N) = int ((b + n) mod N)" using assms by simp
  then have "int N dvd (int a + int n) - (int b + int n)"
    by (simp add: zmod_int mod_eq_dvd_iff)
  then have "int (a mod N) = int (b mod N)"
    by (simp add: zmod_int mod_eq_dvd_iff)
  then show ?thesis by simp
qed

text \<open>
  \<open>within N n d r\<close>: going at most \<open>n - 1\<close> ranks forward from \<open>r\<close>, modulo \<open>N\<close>, one reaches
  \<open>d\<close>. After the rounds \<open>0, \<dots>, j - 1\<close> of a dissemination a rank has heard, directly or not,
  from exactly the ranks within \<open>2 ^ j\<close>.
\<close>

definition within :: "nat \<Rightarrow> nat \<Rightarrow> nat \<Rightarrow> nat \<Rightarrow> bool" where
  "within N n d r \<longleftrightarrow> (\<exists>i<n. (r + i) mod N = d)"

lemma within_mono:
  assumes "within N m d r" and "m \<le> n"
  shows "within N n d r"
proof -
  from assms(1) obtain i where "i < m" "(r + i) mod N = d" by (auto simp: within_def)
  with assms(2) have "i < n" "(r + i) mod N = d" by simp_all
  then show ?thesis by (auto simp: within_def)
qed

lemma within_one [simp]: "r < N \<Longrightarrow> within N (Suc 0) d r \<longleftrightarrow> d = r"
  by (auto simp: within_def)

lemma within_all: "d < N \<Longrightarrow> r < N \<Longrightarrow> N \<le> n \<Longrightarrow> within N n d r"
proof -
  assume d: "d < N" and r: "r < N" and n: "N \<le> n"
  show ?thesis
  proof (cases "r \<le> d")
    case True
    with d n have "d - r < n" "(r + (d - r)) mod N = d" by auto
    then show ?thesis unfolding within_def by blast
  next
    case False
    with d r n have "N + d - r < n" "(r + (N + d - r)) mod N = d" by auto
    then show ?thesis unfolding within_def by blast
  qed
qed

lemma within_double:
  assumes w: "within N (2 * n) d r" and src: "src < N" "(src + n) mod N = d"
  shows "within N n d r \<or> within N n src r"
proof -
  from w obtain i where i: "i < 2 * n" "(r + i) mod N = d"
    by (auto simp: within_def)
  show ?thesis
  proof (cases "i < n")
    case True
    with i show ?thesis by (auto simp: within_def)
  next
    case False
    then have "((r + (i - n)) + n) mod N = (src + n) mod N"
      using i(2) src(2) by simp
    then have "(r + (i - n)) mod N = src mod N"
      by (rule mod_add_cancel_nat)
    then have "(r + (i - n)) mod N = src" using src(1) by simp
    moreover have "i - n < n" using False i(1) by simp
    ultimately show ?thesis by (auto simp: within_def)
  qed
qed

end
