(* ===== verification/Barrier_Match.thy ===== *)
theory Barrier_Match
  imports Gasnet_Prelude "HOL-Library.Multiset"
begin

text \<open>
  The name-matching rule of GASNet barriers. Every barrier of
  \<^verbatim>\<open>extended-ref/gasnet_extended_refbarrier.c\<close> combines a pair (flags, value) with the pair
  of another rank by the same three-way conditional; here it is written once, with the abstract
  outcome it computes and the laws the barriers rest on.
\<close>

section \<open>Flags and return codes\<close>

definition GASNET_BARRIERFLAG_ANONYMOUS :: u32 where
  "GASNET_BARRIERFLAG_ANONYMOUS = 1"

definition GASNET_BARRIERFLAG_MISMATCH :: u32 where
  "GASNET_BARRIERFLAG_MISMATCH = 2"

definition GASNET_BARRIERFLAG_UNNAMED :: u32 where
  "GASNET_BARRIERFLAG_UNNAMED = GASNET_BARRIERFLAG_ANONYMOUS OR 8"

text \<open>The return codes of \<open>gasnet_barrier_wait\<close> and \<open>gasnet_barrier_try\<close>.\<close>

datatype barrier_rc = GASNET_OK | GASNET_ERR_NOT_READY | GASNET_ERR_BARRIER_MISMATCH

type_synonym ballot = "u32 \<times> u32" \<comment> \<open>flags and value\<close>

abbreviation anon :: "u32 \<Rightarrow> bool" where
  "anon f \<equiv> c_and f GASNET_BARRIERFLAG_ANONYMOUS"

abbreviation mismatch :: "u32 \<Rightarrow> bool" where
  "mismatch f \<equiv> c_and f GASNET_BARRIERFLAG_MISMATCH"

lemma flag_tests [simp]:
  "anon GASNET_BARRIERFLAG_ANONYMOUS" "\<not> mismatch GASNET_BARRIERFLAG_ANONYMOUS"
  "mismatch GASNET_BARRIERFLAG_MISMATCH" "\<not> anon GASNET_BARRIERFLAG_MISMATCH"
  "\<not> anon 0" "\<not> mismatch 0"
  by (simp_all add: c_and_def GASNET_BARRIERFLAG_ANONYMOUS_def GASNET_BARRIERFLAG_MISMATCH_def)

section \<open>The matching rule\<close>

text \<open>
  The first argument is the accumulated pair (flags, value), the second the pair that arrives.
\<close>

definition barrier_match :: "ballot \<Rightarrow> ballot \<Rightarrow> ballot" where
  "barrier_match acc other =
     (let (recv_flags, recv_value) = acc; (flags, value) = other in
      if mismatch (recv_flags OR flags) then (GASNET_BARRIERFLAG_MISMATCH, recv_value)
      else if anon recv_flags then (flags, value)
      else if \<not> anon flags \<and> value \<noteq> recv_value then (GASNET_BARRIERFLAG_MISMATCH, recv_value)
      else (recv_flags, recv_value))"

text \<open>
  The value of a wait or a try: the consensus must not be a mismatch, and the arguments of the
  wait must match it when both are named.
\<close>

definition barrier_verdict :: "ballot \<Rightarrow> u32 \<Rightarrow> u32 \<Rightarrow> barrier_rc" where
  "barrier_verdict recv flags idv =
     (if mismatch (fst recv) then GASNET_ERR_BARRIER_MISMATCH
      else if \<not> anon (flags OR fst recv) \<and> idv \<noteq> snd recv then GASNET_ERR_BARRIER_MISMATCH
      else GASNET_OK)"

section \<open>Outcomes\<close>

text \<open>
  What a pair means: nobody named the barrier, everybody who named it agreed on a value, or there
  was a disagreement. Ordered by information, outcomes are a bounded semilattice.
\<close>

datatype outcome = OAnon | ONamed u32 | OMismatch

instantiation outcome :: bounded_semilattice_sup_bot
begin

definition bot_outcome :: outcome where
  "bot_outcome = OAnon"

fun sup_outcome :: "outcome \<Rightarrow> outcome \<Rightarrow> outcome" where
  "sup_outcome OAnon b = b"
| "sup_outcome a OAnon = a"
| "sup_outcome (ONamed v) (ONamed w) = (if v = w then ONamed v else OMismatch)"
| "sup_outcome _ _ = OMismatch"

definition less_eq_outcome :: "outcome \<Rightarrow> outcome \<Rightarrow> bool" where
  "less_eq_outcome a b \<longleftrightarrow> a = OAnon \<or> a = b \<or> b = OMismatch"

definition less_outcome :: "outcome \<Rightarrow> outcome \<Rightarrow> bool" where
  "less_outcome a b \<longleftrightarrow> a \<le> b \<and> a \<noteq> (b :: outcome)"

instance
proof
  fix x y z :: outcome
  show "(x < y) = (x \<le> y \<and> \<not> y \<le> x)"
    by (auto simp: less_outcome_def less_eq_outcome_def)
  show "x \<le> x" by (simp add: less_eq_outcome_def)
  show "x \<le> y \<Longrightarrow> y \<le> z \<Longrightarrow> x \<le> z" by (auto simp: less_eq_outcome_def)
  show "x \<le> y \<Longrightarrow> y \<le> x \<Longrightarrow> x = y" by (auto simp: less_eq_outcome_def)
  show "x \<le> sup x y" by (cases x; cases y) (auto simp: less_eq_outcome_def)
  show "y \<le> sup x y" by (cases x; cases y) (auto simp: less_eq_outcome_def)
  show "y \<le> x \<Longrightarrow> z \<le> x \<Longrightarrow> sup y z \<le> x"
    by (cases y; cases z) (auto simp: less_eq_outcome_def split: if_splits)
  show "bot \<le> x" by (simp add: less_eq_outcome_def bot_outcome_def)
qed

end

definition outcome_of :: "ballot \<Rightarrow> outcome" where
  "outcome_of b = (if mismatch (fst b) then OMismatch
                   else if anon (fst b) then OAnon else ONamed (snd b))"

lemma outcome_of_anon [simp]: "outcome_of (GASNET_BARRIERFLAG_ANONYMOUS, v) = bot"
  by (simp add: outcome_of_def bot_outcome_def)

text \<open>The matching rule computes the join of the outcomes.\<close>

lemma outcome_of_match [simp]:
  "outcome_of (barrier_match a b) = sup (outcome_of a) (outcome_of b)"
  by (cases a; cases b) (auto simp: barrier_match_def outcome_of_def)

text \<open>The verdict reads only the outcome of the consensus pair.\<close>

fun outcome_verdict :: "outcome \<Rightarrow> ballot \<Rightarrow> barrier_rc" where
  "outcome_verdict OMismatch b = GASNET_ERR_BARRIER_MISMATCH"
| "outcome_verdict OAnon b = GASNET_OK"
| "outcome_verdict (ONamed v) (flags, idv) =
     (if anon flags \<or> idv = v then GASNET_OK else GASNET_ERR_BARRIER_MISMATCH)"

lemma barrier_verdict_outcome:
  "barrier_verdict recv flags idv = outcome_verdict (outcome_of recv) (flags, idv)"
  by (auto simp: barrier_verdict_def outcome_of_def)

section \<open>Consensus of a set of ranks\<close>

text \<open>The join of the outcomes of ranks \<open>0, \<dots>, n - 1\<close>.\<close>

primrec consensus :: "(nat \<Rightarrow> outcome) \<Rightarrow> nat \<Rightarrow> outcome" where
  "consensus c 0 = OAnon"
| "consensus c (Suc n) = sup (consensus c n) (c n)"

lemma consensus_upper: "r < n \<Longrightarrow> c r \<le> consensus c n"
  by (induction n) (auto simp: less_Suc_eq intro: le_supI1)

lemma outcome_bot_le [simp]: "OAnon \<le> u"
  by (simp add: less_eq_outcome_def)

lemma consensus_least: "(\<And>r. r < n \<Longrightarrow> c r \<le> u) \<Longrightarrow> consensus c n \<le> u"
  by (induction n) auto

lemma consensus_eqI:
  assumes "\<And>r. r < n \<Longrightarrow> c r \<le> x" and "\<And>u. (\<And>r. r < n \<Longrightarrow> c r \<le> u) \<Longrightarrow> x \<le> u"
  shows "x = consensus c n"
  by (rule antisym) (auto intro: assms consensus_upper consensus_least)

lemma consensus_cong: "(\<And>r. r < n \<Longrightarrow> c r = d r) \<Longrightarrow> consensus c n = consensus d n"
  by (induction n) auto

lemma consensus_named:
  assumes "consensus c n = ONamed v" and "r < n"
  shows "c r = OAnon \<or> c r = ONamed v"
  using consensus_upper [OF assms(2), of c] assms(1) by (auto simp: less_eq_outcome_def)

lemma foldl_match_outcome:
  "outcome_of (foldl barrier_match a bs) = foldl sup (outcome_of a) (map outcome_of bs)"
  by (induction bs arbitrary: a) auto

lemma foldl_sup_le: "(foldl sup a xs \<le> u) \<longleftrightarrow> a \<le> u \<and> (\<forall>x\<in>set xs. x \<le> (u :: outcome))"
  by (induction xs arbitrary: a) auto

section \<open>Order of arrival\<close>

lemma foldl_sup_mset:
  assumes "mset xs = mset ys"
  shows "foldl sup a xs = foldl sup (a :: outcome) ys"
proof -
  have "set xs = set ys" using assms by (rule mset_eq_setD)
  then have "foldl sup a xs \<le> u \<longleftrightarrow> foldl sup a ys \<le> u" for u by (simp add: foldl_sup_le)
  then show ?thesis by (meson antisym order_refl)
qed

text \<open>
  The outcome of a barrier does not depend on the order in which the names of the other ranks
  arrive, nor on which of them a rank starts from.
\<close>

theorem barrier_match_order:
  assumes "mset (b # bs) = mset (c # cs)"
  shows "outcome_of (foldl barrier_match b bs) = outcome_of (foldl barrier_match c cs)"
proof -
  have "foldl sup bot (map outcome_of (b # bs)) = foldl sup bot (map outcome_of (c # cs))"
    using arg_cong [OF assms, of "image_mset outcome_of"]
    by (intro foldl_sup_mset) (simp only: mset_map)
  then show ?thesis by (simp add: foldl_match_outcome)
qed

theorem barrier_match_order_witness:
  "outcome_of (foldl barrier_match (0, 7) [(1, 0), (0, 7)]) =
   outcome_of (foldl barrier_match (1, 0) [(0, 7), (0, 7)])"
  by (rule barrier_match_order) simp

end
