(* ===== verification/Team_Base.thy ===== *)
theory Team_Base
  imports Gasnet_Prelude
begin

text \<open>
  The part of the team structure (\<^verbatim>\<open>struct gasnete_coll_team_t_\<close>,
  \<^verbatim>\<open>extended-ref/coll/gasnet_coll_internal.h\<close>) that the barriers use, and the peer lists that
  \<^verbatim>\<open>gasnete_barrier_init\<close> and \<^verbatim>\<open>gasnete_coll_team_alloc\<close> build. Ranks are natural
  numbers; the C sums \<open>myrank + total_ranks\<close> stay below \<open>2 ^ 32\<close> for every job size GASNet accepts.
\<close>

section \<open>Teams\<close>

datatype splitstate = OUTSIDE_BARRIER | INSIDE_BARRIER

record peer_list =
  peer_num :: nat
  peer_fwd :: "nat list"
  peer_bwd :: "nat list"

record 'b coll_team =
  team_id :: nat
  myrank :: nat
  total_ranks :: nat
  peers :: peer_list
  barrier_splitstate :: splitstate
  barrier_pf :: bool            \<comment> \<open>the team registered a progress function\<close>
  pf_enabled :: bool            \<comment> \<open>the progress function is currently enabled\<close>
  barrier_data :: 'b

text \<open>
  The violations that the nesting checks and assertions of a debug build report, and an access
  outside of an array.
\<close>

datatype barrier_error =
    NotifyTwice | WaitWithoutNotify | TryWithoutNotify | BarrierInside | ResultInside | AssertFailed
  | OutOfBounds

definition gasnete_barrier_pf_enable :: "'b coll_team \<Rightarrow> 'b coll_team" where
  "gasnete_barrier_pf_enable team = (if barrier_pf team then team\<lparr>pf_enabled := True\<rparr> else team)"

definition gasnete_barrier_pf_disable :: "'b coll_team \<Rightarrow> 'b coll_team" where
  "gasnete_barrier_pf_disable team = (if barrier_pf team then team\<lparr>pf_enabled := False\<rparr> else team)"

text \<open>
  The nesting checks: \<open>GASNETE_SPLITSTATE_NOTIFY_ENTER\<close>, \<open>GASNETE_SPLITSTATE_WAIT_LEAVE\<close> and the
  read-only checks of try, barrier and result.
\<close>

definition splitstate_notify_enter :: "'b coll_team \<Rightarrow> barrier_error + 'b coll_team" where
  "splitstate_notify_enter team =
     (if barrier_splitstate team = INSIDE_BARRIER then Inl NotifyTwice
      else Inr (team\<lparr>barrier_splitstate := INSIDE_BARRIER\<rparr>))"

definition splitstate_wait_leave :: "'b coll_team \<Rightarrow> barrier_error + 'b coll_team" where
  "splitstate_wait_leave team =
     (if barrier_splitstate team = OUTSIDE_BARRIER then Inl WaitWithoutNotify
      else Inr (team\<lparr>barrier_splitstate := OUTSIDE_BARRIER\<rparr>))"

lemma pf_frame [simp]:
  "barrier_data (gasnete_barrier_pf_enable t) = barrier_data t"
  "barrier_data (gasnete_barrier_pf_disable t) = barrier_data t"
  "barrier_splitstate (gasnete_barrier_pf_enable t) = barrier_splitstate t"
  "barrier_splitstate (gasnete_barrier_pf_disable t) = barrier_splitstate t"
  "myrank (gasnete_barrier_pf_enable t) = myrank t"
  "myrank (gasnete_barrier_pf_disable t) = myrank t"
  "total_ranks (gasnete_barrier_pf_enable t) = total_ranks t"
  "total_ranks (gasnete_barrier_pf_disable t) = total_ranks t"
  by (simp_all add: gasnete_barrier_pf_enable_def gasnete_barrier_pf_disable_def)

section \<open>Peer lists\<close>

text \<open>
  The members at distance plus and minus \<open>2 ^ i\<close>. \<open>gasnete_barrier_init\<close> numbers them by job
  rank; \<open>gasnete_coll_team_alloc\<close> translates them through the new team's \<open>rank_map\<close>.
\<close>

definition no_peers :: peer_list where
  "no_peers = \<lparr>peer_num = 0, peer_fwd = [], peer_bwd = []\<rparr>"

definition gasnete_barrier_init_peers :: "nat \<Rightarrow> nat \<Rightarrow> peer_list" where
  "gasnete_barrier_init_peers gasneti_mynode gasneti_nodes =
     (if gasneti_nodes > 1 then
        (let count = count_doublings 1 gasneti_nodes in
         \<lparr>peer_num = count,
          peer_fwd = map (\<lambda>i. (gasneti_mynode + 2 ^ i) mod gasneti_nodes) [0..<count],
          peer_bwd = map (\<lambda>i. (gasneti_mynode + gasneti_nodes - 2 ^ i) mod gasneti_nodes) [0..<count]\<rparr>)
      else no_peers)"

definition gasnete_coll_team_alloc_peers :: "nat \<Rightarrow> nat \<Rightarrow> nat list \<Rightarrow> peer_list" where
  "gasnete_coll_team_alloc_peers nranks rank rank_map =
     (if nranks > 1 then
        (let count = count_doublings 1 nranks in
         \<lparr>peer_num = count,
          peer_fwd = map (\<lambda>i. rank_map ! ((rank + 2 ^ i) mod nranks)) [0..<count],
          peer_bwd = map (\<lambda>i. rank_map ! ((rank + nranks - 2 ^ i) mod nranks)) [0..<count]\<rparr>)
      else no_peers)"

lemma init_peers_facts:
  assumes "1 < n"
  shows "peer_num (gasnete_barrier_init_peers r n) = rounds n"
    and "length (peer_fwd (gasnete_barrier_init_peers r n)) = rounds n"
    and "i < rounds n \<Longrightarrow> peer_fwd (gasnete_barrier_init_peers r n) ! i = (r + 2 ^ i) mod n"
  using assms by (simp_all add: gasnete_barrier_init_peers_def Let_def)

lemma peer_distance: "i < rounds n \<Longrightarrow> 2 ^ i < n"
  by (rule rounds_minimal)

text \<open>
  The forward and backward peer lists are inverse to each other: the \<open>i\<close>-th backward peer of
  my \<open>i\<close>-th forward peer is me.
\<close>

theorem fwd_bwd_inverse:
  assumes "1 < n" "r < n" "i < rounds n"
  shows "peer_bwd (gasnete_barrier_init_peers (peer_fwd (gasnete_barrier_init_peers r n) ! i) n) ! i = r"
proof -
  have d: "2 ^ i < n" using assms(3) by (rule peer_distance)
  let ?f = "(r + 2 ^ i) mod n"
  have "(?f + n - 2 ^ i) mod n = r"
  proof (cases "r + 2 ^ i < n")
    case True
    then show ?thesis using assms(2) d by simp
  next
    case False
    then have "?f = r + 2 ^ i - n" using assms(2) d by (simp add: mod_if)
    then show ?thesis using False assms(2) by simp
  qed
  then show ?thesis using assms by (simp add: gasnete_barrier_init_peers_def Let_def)
qed

theorem fwd_bwd_inverse_witness:
  "peer_bwd (gasnete_barrier_init_peers (peer_fwd (gasnete_barrier_init_peers 4 5) ! 1) 5) ! 1 = 4"
  by (rule fwd_bwd_inverse) (simp_all add: rounds_def count_doublings.simps del: count_rounds)

lemma team_alloc_peers_identity:
  "rank_map = [0..<n] \<Longrightarrow>
   gasnete_coll_team_alloc_peers n r rank_map = gasnete_barrier_init_peers r n"
  by (auto simp: gasnete_coll_team_alloc_peers_def gasnete_barrier_init_peers_def Let_def)

end
