(* ===== verification/Amd_Barrier.thy ===== *)
theory Amd_Barrier
  imports Barrier_Match Team_Base
begin

text \<open>
  The active-message dissemination barrier (\<open>amdbarrier\<close>) of
  \<^verbatim>\<open>extended-ref/gasnet_extended_refbarrier.c\<close>, one rank: its state and its operations. The
  build without the shared-memory stage (\<open>GASNETI_PSHM_BARRIER_HIER\<close> 0) is modelled, in a debug
  build. A critical section under \<open>amdbarrier_lock\<close> is one step, and a failed trylock is a kick
  that does not happen. The short requests an operation injects are returned as a list of
  messages; \<open>Amd_System\<close> delivers them.
\<close>

section \<open>State and messages\<close>

text \<open>The two-element arrays are indexed by the phase, 0 or 1.\<close>

record amdbarrier =
  amdbarrier_peers :: "nat list"
  amdbarrier_value :: u32
  amdbarrier_flags :: u32
  amdbarrier_step :: nat
  amdbarrier_size :: nat
  amdbarrier_phase :: nat
  amdbarrier_step_done :: "nat \<Rightarrow> nat \<Rightarrow> bool"
  amdbarrier_recv_value :: "nat \<Rightarrow> u32"
  amdbarrier_recv_flags :: "nat \<Rightarrow> u32"

type_synonym amd_team = "amdbarrier coll_team"

record amd_msg =
  msg_dst :: nat
  msg_phase :: nat
  msg_step :: nat
  msg_value :: u32
  msg_flags :: u32

abbreviation recv_pair :: "amdbarrier \<Rightarrow> nat \<Rightarrow> ballot" where
  "recv_pair bd p \<equiv> (amdbarrier_recv_flags bd p, amdbarrier_recv_value bd p)"

definition set_recv :: "nat \<Rightarrow> ballot \<Rightarrow> amdbarrier \<Rightarrow> amdbarrier" where
  "set_recv p b bd = bd\<lparr>amdbarrier_recv_flags := (amdbarrier_recv_flags bd)(p := fst b),
                        amdbarrier_recv_value := (amdbarrier_recv_value bd)(p := snd b)\<rparr>"

section \<open>The request handler\<close>

definition gasnete_amdbarrier_notify_reqh ::
  "amd_team \<Rightarrow> nat \<Rightarrow> nat \<Rightarrow> u32 \<Rightarrow> u32 \<Rightarrow> barrier_error + amd_team" where
  "gasnete_amdbarrier_notify_reqh team phase step v flags =
     (let bd = set_recv phase (barrier_match (recv_pair (barrier_data team) phase) (flags, v))
                 (barrier_data team)
      in if amdbarrier_step_done bd phase step then Inl AssertFailed
         else Inr (team\<lparr>barrier_data := bd\<lparr>amdbarrier_step_done :=
                (amdbarrier_step_done bd)(phase := (amdbarrier_step_done bd phase)(step := True))\<rparr>\<rparr>))"

section \<open>Sending\<close>

definition gasnete_amdbarrier_send :: "amd_team \<Rightarrow> nat \<Rightarrow> nat \<Rightarrow> u32 \<Rightarrow> u32 \<Rightarrow> amd_msg" where
  "gasnete_amdbarrier_send team phase step v flags =
     \<lparr>msg_dst = amdbarrier_peers (barrier_data team) ! step, msg_phase = phase, msg_step = step,
      msg_value = v, msg_flags = flags\<rparr>"

section \<open>Progress: kick\<close>

text \<open>
  The loop over consecutive completed steps: it clears the flags it consumes and returns the
  cursor it stops at.
\<close>

function amd_take_steps :: "(nat \<Rightarrow> bool) \<Rightarrow> nat \<Rightarrow> nat \<Rightarrow> nat \<times> (nat \<Rightarrow> bool)" where
  "amd_take_steps dn cursor sz =
     (if cursor < sz \<and> dn cursor then amd_take_steps (dn(cursor := False)) (Suc cursor) sz
      else (cursor, dn))"
  by pat_completeness auto
termination
  by (relation "measure (\<lambda>(d, c, n). n - c)") auto

declare amd_take_steps.simps [simp del]

definition gasnete_amdbarrier_kick :: "amd_team \<Rightarrow> amd_team \<times> amd_msg list" where
  "gasnete_amdbarrier_kick team =
     (let bd = barrier_data team; step = amdbarrier_step bd; sz = amdbarrier_size bd in
      if step = sz then (team, [])
      else
        let phase = amdbarrier_phase bd;
            (cursor, dn) = amd_take_steps (amdbarrier_step_done bd phase) step sz;
            numsteps = cursor - step
        in
          if numsteps = 0 then (team, [])
          else
            let recv = recv_pair bd phase;
                merged = (if step = 0 then barrier_match recv (amdbarrier_flags bd, amdbarrier_value bd)
                          else recv);
                bd' = (set_recv phase merged bd)
                        \<lparr>amdbarrier_step_done := (amdbarrier_step_done bd)(phase := dn),
                         amdbarrier_step := cursor\<rparr>;
                team' = (if cursor = sz then gasnete_barrier_pf_disable team else team)
                          \<lparr>barrier_data := bd'\<rparr>;
                sends = (if cursor = sz then numsteps - 1 else numsteps)
            in (team', map (\<lambda>i. gasnete_amdbarrier_send team' phase (step + 1 + i) (snd merged) (fst merged))
                         [0..<sends]))"

section \<open>Notify\<close>

definition gasnete_amdbarrier_notify ::
  "amd_team \<Rightarrow> u32 \<Rightarrow> u32 \<Rightarrow> barrier_error + amd_team \<times> amd_msg list" where
  "gasnete_amdbarrier_notify team idv flags =
     (case splitstate_notify_enter team of Inl e \<Rightarrow> Inl e | Inr team1 \<Rightarrow>
        let bd = barrier_data team1;
            phase = 1 - amdbarrier_phase bd;
            team2 = team1\<lparr>barrier_data := bd\<lparr>amdbarrier_value := idv, amdbarrier_flags := flags,
                          amdbarrier_step := 0, amdbarrier_phase := phase\<rparr>\<rparr>;
            team3 = gasnete_barrier_pf_enable team2
        in Inr (team3, [gasnete_amdbarrier_send team2 phase 0 idv flags]))"

definition gasnete_amdbarrier_notify_singleton ::
  "amd_team \<Rightarrow> u32 \<Rightarrow> u32 \<Rightarrow> barrier_error + amd_team" where
  "gasnete_amdbarrier_notify_singleton team idv flags =
     (case splitstate_notify_enter team of Inl e \<Rightarrow> Inl e | Inr team1 \<Rightarrow>
        let bd = barrier_data team1; phase = 1 - amdbarrier_phase bd
        in Inr (team1\<lparr>barrier_data := set_recv phase (flags, idv)
                 (bd\<lparr>amdbarrier_value := idv, amdbarrier_flags := flags, amdbarrier_phase := phase\<rparr>)\<rparr>))"

section \<open>Wait, try and result\<close>

text \<open>
  \<open>gasnete_amdbarrier_wait\<close> in two parts, because between them the code may block
  (\<open>GASNET_BLOCKUNTIL\<close>) while kicks and handlers run: the part before the completion test, and the
  part after it, entered when the step equals the size.
\<close>

definition amd_complete :: "amd_team \<Rightarrow> bool" where
  "amd_complete team \<longleftrightarrow> amdbarrier_step (barrier_data team) = amdbarrier_size (barrier_data team)"

definition gasnete_amdbarrier_wait_begin :: "amd_team \<Rightarrow> barrier_error + amd_team" where
  "gasnete_amdbarrier_wait_begin team =
     (case splitstate_wait_leave team of Inl e \<Rightarrow> Inl e | Inr team1 \<Rightarrow>
        Inr (if amd_complete team1 then team1 else gasnete_barrier_pf_disable team1))"

definition gasnete_amdbarrier_wait_end :: "amd_team \<Rightarrow> u32 \<Rightarrow> u32 \<Rightarrow> barrier_rc \<times> amd_team" where
  "gasnete_amdbarrier_wait_end team idv flags =
     (let bd = barrier_data team; phase = amdbarrier_phase bd;
          retval = barrier_verdict (recv_pair bd phase) flags idv
      in (retval, team\<lparr>barrier_data := bd\<lparr>amdbarrier_value := amdbarrier_recv_value bd phase,
            amdbarrier_flags := amdbarrier_recv_flags bd phase,
            amdbarrier_recv_flags := (amdbarrier_recv_flags bd)(phase := GASNET_BARRIERFLAG_ANONYMOUS)\<rparr>\<rparr>))"

text \<open>
  The polling before the kick (\<open>gasneti_AMPoll\<close>) delivers messages and is a step of the system.
\<close>

definition gasnete_amdbarrier_try ::
  "amd_team \<Rightarrow> u32 \<Rightarrow> u32 \<Rightarrow> barrier_error + barrier_rc \<times> amd_team \<times> amd_msg list" where
  "gasnete_amdbarrier_try team idv flags =
     (if barrier_splitstate team = OUTSIDE_BARRIER then Inl TryWithoutNotify
      else let (team1, msgs) = gasnete_amdbarrier_kick team in
        if amd_complete team1 then
          (case gasnete_amdbarrier_wait_begin team1 of Inl e \<Rightarrow> Inl e | Inr team2 \<Rightarrow>
             let (rc, team3) = gasnete_amdbarrier_wait_end team2 idv flags in Inr (rc, team3, msgs))
        else Inr (GASNET_ERR_NOT_READY, team1, msgs))"

definition gasnete_amdbarrier_result :: "amd_team \<Rightarrow> barrier_error + u32 \<times> bool" where
  "gasnete_amdbarrier_result team =
     (if barrier_splitstate team = INSIDE_BARRIER then Inl ResultInside
      else Inr (amdbarrier_value (barrier_data team), anon (amdbarrier_flags (barrier_data team))))"

section \<open>Initialisation\<close>

definition gasnete_amdbarrier_init :: "nat \<Rightarrow> nat \<Rightarrow> nat \<Rightarrow> peer_list \<Rightarrow> amd_team" where
  "gasnete_amdbarrier_init tid rank nranks pl =
     \<lparr>team_id = tid, myrank = rank, total_ranks = nranks, peers = pl,
      barrier_splitstate = OUTSIDE_BARRIER, barrier_pf = (tid = 0), pf_enabled = False,
      barrier_data =
        \<lparr>amdbarrier_peers = peer_fwd pl, amdbarrier_value = 0, amdbarrier_flags = 0,
         amdbarrier_step = 0, amdbarrier_size = peer_num pl, amdbarrier_phase = 0,
         amdbarrier_step_done = (\<lambda>_ _. False), amdbarrier_recv_value = (\<lambda>_. 0),
         amdbarrier_recv_flags = (\<lambda>_. GASNET_BARRIERFLAG_ANONYMOUS)\<rparr>\<rparr>"

section \<open>Facts about one rank\<close>

lemma take_steps_spec:
  assumes "amd_take_steps d c n = (c', d')" and "c \<le> n"
  shows "c \<le> c' \<and> c' \<le> n \<and> (\<forall>j. c \<le> j \<and> j < c' \<longrightarrow> d j) \<and>
         d' = (\<lambda>j. d j \<and> \<not> (c \<le> j \<and> j < c')) \<and> (c' < n \<longrightarrow> \<not> d c')"
  using assms
proof (induction d c n arbitrary: c' d' rule: amd_take_steps.induct)
  case (1 d c n)
  show ?case
  proof (cases "c < n \<and> d c")
    case True
    then have "amd_take_steps (d(c := False)) (Suc c) n = (c', d')"
      using "1.prems" by (simp add: amd_take_steps.simps [of d c n])
    moreover from True have "Suc c \<le> n" by simp
    ultimately have "Suc c \<le> c' \<and> c' \<le> n \<and> (\<forall>j. Suc c \<le> j \<and> j < c' \<longrightarrow> (d(c := False)) j) \<and>
      d' = (\<lambda>j. (d(c := False)) j \<and> \<not> (Suc c \<le> j \<and> j < c')) \<and> (c' < n \<longrightarrow> \<not> (d(c := False)) c')"
      using "1.IH" [OF True] by blast
    then have ih: "Suc c \<le> c'" "c' \<le> n" "\<forall>j. Suc c \<le> j \<and> j < c' \<longrightarrow> (d(c := False)) j"
      "d' = (\<lambda>j. (d(c := False)) j \<and> \<not> (Suc c \<le> j \<and> j < c'))" "c' < n \<longrightarrow> \<not> (d(c := False)) c'"
      by blast+
    have "d j" if "c \<le> j" "j < c'" for j
      using ih(3) [rule_format, of j] that True by (cases "j = c") auto
    moreover have "d' = (\<lambda>j. d j \<and> \<not> (c \<le> j \<and> j < c'))"
    proof
      fix j
      show "d' j = (d j \<and> \<not> (c \<le> j \<and> j < c'))"
        using ih(1) by (cases "j = c") (auto simp: ih(4))
    qed
    moreover have "c' < n \<longrightarrow> \<not> d c'"
      using ih(1,5) by auto
    ultimately show ?thesis using ih(1,2) by auto
  next
    case False
    then show ?thesis using "1.prems" by (auto simp: amd_take_steps.simps [of d c n] fun_eq_iff)
  qed
qed

lemma set_recv_simps [simp]:
  "amdbarrier_recv_flags (set_recv p b bd) = (amdbarrier_recv_flags bd)(p := fst b)"
  "amdbarrier_recv_value (set_recv p b bd) = (amdbarrier_recv_value bd)(p := snd b)"
  "amdbarrier_step (set_recv p b bd) = amdbarrier_step bd"
  "amdbarrier_size (set_recv p b bd) = amdbarrier_size bd"
  "amdbarrier_phase (set_recv p b bd) = amdbarrier_phase bd"
  "amdbarrier_peers (set_recv p b bd) = amdbarrier_peers bd"
  "amdbarrier_value (set_recv p b bd) = amdbarrier_value bd"
  "amdbarrier_flags (set_recv p b bd) = amdbarrier_flags bd"
  "amdbarrier_step_done (set_recv p b bd) = amdbarrier_step_done bd"
  by (simp_all add: set_recv_def)

end
