(* ===== verification/Barrier_Spec.thy ===== *)
theory Barrier_Spec
  imports Barrier_Match
begin

text \<open>
  The contract of a split-phase named barrier, as an abstract machine: each of \<open>N\<close> ranks enters
  and leaves in turn, a rank may leave its \<open>e\<close>-th barrier only when every rank has entered its
  \<open>e\<close>-th, and all ranks leave with the same outcome. A barrier mechanism meets the contract by a
  simulation, the locale \<open>split_barrier\<close>; the consequences for the clients of any mechanism are
  proved once, here.
\<close>

section \<open>Reachable states of a labelled machine\<close>

inductive reach :: "'s \<Rightarrow> ('s \<Rightarrow> 'e \<Rightarrow> 's \<Rightarrow> bool) \<Rightarrow> 's \<Rightarrow> bool"
  for start :: 's and step :: "'s \<Rightarrow> 'e \<Rightarrow> 's \<Rightarrow> bool" where
  reach_start: "reach start step start"
| reach_step: "reach start step s \<Longrightarrow> step s e t \<Longrightarrow> reach start step t"

section \<open>The abstract barrier\<close>

datatype bar_event = Enter nat outcome | Leave nat outcome | Internal

record bar =
  entered :: "nat \<Rightarrow> nat"              \<comment> \<open>how many barriers a rank has notified\<close>
  left :: "nat \<Rightarrow> nat"                 \<comment> \<open>how many it has completed\<close>
  votes :: "nat \<Rightarrow> nat \<Rightarrow> outcome"     \<comment> \<open>barrier number, rank, the name it gave\<close>

definition bar_init :: bar where
  "bar_init = \<lparr>entered = (\<lambda>_. 0), left = (\<lambda>_. 0), votes = (\<lambda>_ _. OAnon)\<rparr>"

definition bar_enter :: "nat \<Rightarrow> outcome \<Rightarrow> bar \<Rightarrow> bar" where
  "bar_enter r v a = (let e = Suc (entered a r) in
     a\<lparr>entered := (entered a)(r := e), votes := (votes a)(e := (votes a e)(r := v))\<rparr>)"

definition bar_leave :: "nat \<Rightarrow> bar \<Rightarrow> bar" where
  "bar_leave r a = a\<lparr>left := (left a)(r := entered a r)\<rparr>"

inductive bar_step :: "nat \<Rightarrow> bar \<Rightarrow> bar_event \<Rightarrow> bar \<Rightarrow> bool" for N :: nat where
  bar_enter: "r < N \<Longrightarrow> left a r = entered a r \<Longrightarrow> bar_step N a (Enter r v) (bar_enter r v a)"
| bar_leave: "r < N \<Longrightarrow> entered a r = Suc (left a r) \<Longrightarrow> \<forall>q<N. entered a r \<le> entered a q \<Longrightarrow>
     v = consensus (votes a (entered a r)) N \<Longrightarrow> bar_step N a (Leave r v) (bar_leave r a)"
| bar_internal: "bar_step N a Internal a"

inductive_cases bar_stepE: "bar_step N a ev b"
inductive_cases bar_LeaveE: "bar_step N a (Leave r v) b"

definition bar_inv :: "nat \<Rightarrow> bar \<Rightarrow> bool" where
  "bar_inv N a \<longleftrightarrow> (\<forall>r<N. (entered a r = left a r \<or> entered a r = Suc (left a r)) \<and>
     (\<forall>q<N. left a r \<le> entered a q))"

lemma bar_init_inv: "bar_inv N bar_init"
  by (simp add: bar_inv_def bar_init_def)

lemma bar_enter_inv: "bar_inv N a \<Longrightarrow> left a r = entered a r \<Longrightarrow> bar_inv N (bar_enter r v a)"
  by (fastforce simp: bar_inv_def bar_enter_def Let_def le_Suc_eq)

lemma bar_leave_inv:
  "bar_inv N a \<Longrightarrow> \<forall>q<N. entered a r \<le> entered a q \<Longrightarrow> bar_inv N (bar_leave r a)"
  by (auto simp: bar_inv_def bar_leave_def)

lemma bar_step_inv: "bar_step N a ev b \<Longrightarrow> bar_inv N a \<Longrightarrow> bar_inv N b"
  by (cases rule: bar_step.cases) (auto simp: bar_enter_inv bar_leave_inv)

lemma bar_reach_inv: "reach bar_init (bar_step N) a \<Longrightarrow> bar_inv N a"
  by (induction rule: reach.induct) (auto intro: bar_init_inv bar_step_inv)

text \<open>Votes are final: once a rank has entered a barrier no step changes its vote for it.\<close>

lemma bar_step_votes:
  "bar_step N a ev b \<Longrightarrow> e \<le> entered a r \<Longrightarrow> votes b e r = votes a e r \<and> e \<le> entered b r"
  by (erule bar_stepE) (auto simp: bar_enter_def bar_leave_def Let_def)

section \<open>Runs\<close>

text \<open>A run is a list of the events of consecutive steps.\<close>

inductive run :: "('s \<Rightarrow> 'e \<Rightarrow> 's \<Rightarrow> bool) \<Rightarrow> 's \<Rightarrow> 'e list \<Rightarrow> 's \<Rightarrow> bool"
  for step :: "'s \<Rightarrow> 'e \<Rightarrow> 's \<Rightarrow> bool" where
  run_Nil: "run step s [] s"
| run_Cons: "step s e t \<Longrightarrow> run step t es u \<Longrightarrow> run step s (e # es) u"

lemma run_single: "step s e t \<Longrightarrow> run step s [e] t"
  by (auto intro: run_Cons run_Nil)

lemma run_append: "run step s es t \<Longrightarrow> run step t fs u \<Longrightarrow> run step s (es @ fs) u"
  by (induction rule: run.induct) (auto intro: run_Cons)

lemma run_reach: "run step s es t \<Longrightarrow> reach start step s \<Longrightarrow> reach start step t"
  by (induction rule: run.induct) (auto intro: reach_step)

lemma bar_run_votes:
  "run (bar_step N) a es b \<Longrightarrow> e \<le> entered a r \<Longrightarrow> votes b e r = votes a e r \<and> e \<le> entered b r"
proof (induction rule: run.induct)
  case (run_Nil s)
  then show ?case by simp
next
  case (run_Cons s ev t es u)
  then show ?case using bar_step_votes [OF run_Cons.hyps(1)] by metis
qed

text \<open>
  Agreement: two ranks leaving the same barrier, at any two points of a run, leave with the same
  outcome.
\<close>

lemma bar_agreement:
  assumes "bar_step N a (Leave r v) a'" and "run (bar_step N) a' es b"
    and "bar_step N b (Leave q w) b'" and "entered a r = entered b q"
  shows "v = w"
proof -
  from assms(1) have all: "\<forall>x<N. entered a r \<le> entered a x"
    and v: "v = consensus (votes a (entered a r)) N"
    by (auto elim: bar_LeaveE)
  from assms(3) have w: "w = consensus (votes b (entered b q)) N"
    by (auto elim: bar_LeaveE)
  have "votes b (entered a r) x = votes a (entered a r) x" if "x < N" for x
  proof -
    have "entered a r \<le> entered a x" using all that by simp
    with bar_step_votes [OF assms(1)] bar_run_votes [OF assms(2)] show ?thesis by metis
  qed
  with v w assms(4) show ?thesis by (auto intro: consensus_cong)
qed

section \<open>The interface of a barrier mechanism\<close>

locale split_barrier =
  fixes N :: nat
    and start :: 's
    and step :: "'s \<Rightarrow> bar_event \<Rightarrow> 's \<Rightarrow> bool"
    and abs :: "'s \<Rightarrow> bar"
  assumes abs_start: "abs start = bar_init"
    and abs_step: "reach start step s \<Longrightarrow> step s ev t \<Longrightarrow> bar_step N (abs s) ev (abs t)"
begin

lemma abs_reach: "reach start step s \<Longrightarrow> reach bar_init (bar_step N) (abs s)"
proof (induction rule: reach.induct)
  case reach_start
  show ?case by (simp add: abs_start reach.reach_start)
next
  case (reach_step s e t)
  then show ?case by (blast intro: reach.reach_step abs_step)
qed

lemma abs_run: "run step s es t \<Longrightarrow> reach start step s \<Longrightarrow> run (bar_step N) (abs s) es (abs t)"
proof (induction rule: run.induct)
  case (run_Nil s)
  show ?case by (rule run.run_Nil)
next
  case (run_Cons s e t es u)
  then show ?case by (blast intro: run.run_Cons abs_step reach_step)
qed

lemma left_after_all_entered:
  "reach start step s \<Longrightarrow> r < N \<Longrightarrow> q < N \<Longrightarrow> left (abs s) r \<le> entered (abs s) q"
  using bar_reach_inv [OF abs_reach] by (auto simp: bar_inv_def)

lemma never_two_ahead:
  "reach start step s \<Longrightarrow> r < N \<Longrightarrow> q < N \<Longrightarrow> entered (abs s) r \<le> Suc (entered (abs s) q)"
  using bar_reach_inv [OF abs_reach, of s] unfolding bar_inv_def
  by (metis Suc_leD Suc_le_mono le_SucI)

lemma agreement:
  assumes "reach start step s" and "step s (Leave r v) s'" and "run step s' es t"
    and "step t (Leave q w) t'" and "entered (abs s) r = entered (abs t) q"
  shows "v = w"
proof -
  have s': "reach start step s'" using assms(1,2) by (rule reach_step)
  then have t: "reach start step t" using assms(3) by (auto intro: run_reach)
  show ?thesis
    using bar_agreement [OF abs_step [OF assms(1,2)] abs_run [OF assms(3) s']
        abs_step [OF t assms(4)] assms(5)] .
qed

end

section \<open>Machines that come to rest\<close>

text \<open>
  A mechanism makes progress when every reachable state that is not quiet has internal steps that
  decrease a measure; then internal steps alone lead to a quiet state. \<open>keep\<close> is what these
  steps do not change.
\<close>

locale settling =
  fixes start :: 's
    and step :: "'s \<Rightarrow> bar_event \<Rightarrow> 's \<Rightarrow> bool"
    and work :: "'s \<Rightarrow> nat"
    and quiet :: "'s \<Rightarrow> bool"
    and keep :: "'s \<Rightarrow> 'k"
  assumes progress: "reach start step s \<Longrightarrow> \<not> quiet s \<Longrightarrow>
    \<exists>es t. run step s es t \<and> set es \<subseteq> {Internal} \<and> work t < work s \<and> keep t = keep s"
begin

lemma settles:
  "reach start step s \<Longrightarrow>
   \<exists>es t. run step s es t \<and> set es \<subseteq> {Internal} \<and> keep t = keep s \<and> quiet t"
proof (induction "work s" arbitrary: s rule: less_induct)
  case less
  show ?case
  proof (cases "quiet s")
    case True
    then show ?thesis by (intro exI [of _ "[]"] exI [of _ s]) (auto intro: run_Nil)
  next
    case False
    with progress [OF less.prems] obtain es t where
      t: "run step s es t" "set es \<subseteq> {Internal}" "work t < work s" "keep t = keep s" by blast
    from less.hyps [OF t(3) run_reach [OF t(1) less.prems]] t(4) obtain fs u where
      "run step t fs u" "set fs \<subseteq> {Internal}" "keep u = keep s" "quiet u" by auto
    with t(1,2) show ?thesis
      by (intro exI [of _ "es @ fs"] exI [of _ u]) (auto intro: run_append)
  qed
qed

end

end
