(* ===== verification/Barrier_History.thy ===== *)
theory Barrier_History
  imports Barrier_Spec
begin

text \<open>
  The history a barrier system of \<open>N\<close> ranks keeps beside the state of the code: how many barriers
  each rank has notified and completed, the ballot of each notify, and the arguments of the wait in
  progress; and what a dissemination barrier's partial results say about it. The two
  dissemination barriers extend this record by their nodes and their network.
\<close>

section \<open>The history\<close>

record history =
  notified :: "nat \<Rightarrow> nat"
  completed :: "nat \<Rightarrow> nat"
  ballots :: "nat \<Rightarrow> nat \<Rightarrow> ballot"
  waiting :: "nat \<Rightarrow> ballot option"

abbreviation vote :: "'m history_scheme \<Rightarrow> nat \<Rightarrow> nat \<Rightarrow> outcome" where
  "vote s e r \<equiv> outcome_of (ballots s e r)"

text \<open>A rank is active between its notify and the end of its wait.\<close>

definition active :: "'m history_scheme \<Rightarrow> nat \<Rightarrow> bool" where
  "active s r \<longleftrightarrow> notified s r = Suc (completed s r)"

section \<open>Knowledge\<close>

text \<open>
  \<open>knows s N e d n x\<close>: every rank within \<open>n\<close> of \<open>d\<close> has notified barrier \<open>e\<close>, and its name is
  part of the outcome \<open>x\<close>. \<open>upper s N e x\<close>: nothing else is part of \<open>x\<close>.
\<close>

definition knows :: "'m history_scheme \<Rightarrow> nat \<Rightarrow> nat \<Rightarrow> nat \<Rightarrow> nat \<Rightarrow> outcome \<Rightarrow> bool" where
  "knows s N e d n x \<longleftrightarrow> (\<forall>r<N. within N n d r \<longrightarrow> e \<le> notified s r \<and> vote s e r \<le> x)"

definition upper :: "'m history_scheme \<Rightarrow> nat \<Rightarrow> nat \<Rightarrow> outcome \<Rightarrow> bool" where
  "upper s N e x \<longleftrightarrow> (\<forall>u. (\<forall>r<N. e \<le> notified s r \<longrightarrow> vote s e r \<le> u) \<longrightarrow> x \<le> u)"

definition extends :: "nat \<Rightarrow> 'm history_scheme \<Rightarrow> 'm history_scheme \<Rightarrow> bool" where
  "extends N s t \<longleftrightarrow> (\<forall>r<N. notified s r \<le> notified t r \<and>
     (\<forall>e \<le> notified s r. ballots t e r = ballots s e r))"

lemma knows_mono:
  assumes "knows s N e d n x" and "extends N s t" and "m \<le> n" and "x \<le> y"
  shows "knows t N e d m y"
  unfolding knows_def
proof (intro allI impI)
  fix r assume r: "r < N" "within N m d r"
  with assms(1,3) have *: "e \<le> notified s r" "vote s e r \<le> x"
    by (auto simp: knows_def dest: within_mono)
  with assms(2) r(1) have "e \<le> notified t r" "ballots t e r = ballots s e r"
    by (auto simp: extends_def intro: le_trans)
  with * assms(4) show "e \<le> notified t r \<and> vote t e r \<le> y" by auto
qed

lemma upper_mono:
  assumes "upper s N e x" and "extends N s t"
  shows "upper t N e x"
  unfolding upper_def
proof (intro allI impI)
  fix u assume u: "\<forall>r<N. e \<le> notified t r \<longrightarrow> vote t e r \<le> u"
  have "vote s e r \<le> u" if r: "r < N" "e \<le> notified s r" for r
  proof -
    from assms(2) r have "e \<le> notified t r" "ballots t e r = ballots s e r"
      by (auto simp: extends_def intro: le_trans)
    with u r show ?thesis by auto
  qed
  with assms(1) show "x \<le> u" by (auto simp: upper_def)
qed

lemma upper_sup: "upper s N e x \<Longrightarrow> upper s N e y \<Longrightarrow> upper s N e (sup x y)"
  by (auto simp: upper_def)

lemma upper_bot: "upper s N e bot"
  by (simp add: upper_def)

lemma upper_vote: "r < N \<Longrightarrow> e \<le> notified s r \<Longrightarrow> upper s N e (vote s e r)"
  by (auto simp: upper_def)

lemma knows_double:
  assumes "knows s N e d n x" "knows s N e src n x" "src < N" "(src + n) mod N = d"
  shows "knows s N e d (2 * n) x"
  using assms by (auto simp: knows_def dest!: within_double)

lemma knows_all:
  assumes "knows s N e d n x" "d < N" "N \<le> n" "r < N"
  shows "e \<le> notified s r \<and> vote s e r \<le> x"
  using assms by (auto simp: knows_def intro: within_all)

text \<open>A rank that knows everybody, and nothing else, holds the consensus.\<close>

lemma knows_consensus:
  assumes "knows s N e d n x" "upper s N e x" "d < N" "N \<le> n"
  shows "x = consensus (vote s e) N"
proof (rule consensus_eqI)
  show "\<And>r. r < N \<Longrightarrow> vote s e r \<le> x" using assms knows_all by blast
  show "\<And>u. (\<And>r. r < N \<Longrightarrow> vote s e r \<le> u) \<Longrightarrow> x \<le> u" using assms(2) by (auto simp: upper_def)
qed

lemma extends_refl: "notified t = notified s \<Longrightarrow> ballots t = ballots s \<Longrightarrow> extends N s t"
  by (simp add: extends_def)

section \<open>Abstraction\<close>

text \<open>The abstract barrier a system stands for: its history, without nodes and network.\<close>

definition history_abs :: "'m history_scheme \<Rightarrow> bar" where
  "history_abs s = \<lparr>entered = notified s, left = completed s, votes = vote s\<rparr>"

lemma history_abs_simps [simp]:
  "entered (history_abs s) = notified s" "left (history_abs s) = completed s"
  "votes (history_abs s) = vote s"
  by (simp_all add: history_abs_def)

end
