(* ===== verification/Amd_System.thy ===== *)
theory Amd_System
  imports Amd_Barrier Barrier_History "HOL-Library.Multiset"
begin

text \<open>
  All ranks of the active-message dissemination barrier together: every rank has the state of
  \<open>Amd_Barrier\<close>, the network is a multiset of undelivered short requests (reliable and unordered,
  as GASNet specifies active messages), and a step is one rank notifying, kicking, starting or
  finishing a wait, or one request reaching its handler. A request in the network carries its
  source and the number of the barrier it belongs to; no handler reads them.
\<close>

section \<open>The system\<close>

type_synonym packet = "nat \<times> nat \<times> amd_msg" \<comment> \<open>source, barrier number, request\<close>

record amd_sys = history +
  node :: "nat \<Rightarrow> amd_team"
  net :: "packet multiset"

definition amd_init :: "nat \<Rightarrow> amd_sys" where
  "amd_init N = \<lparr>notified = (\<lambda>_. 0), completed = (\<lambda>_. 0),
     ballots = (\<lambda>_ _. (GASNET_BARRIERFLAG_ANONYMOUS, 0)), waiting = (\<lambda>_. None),
     node = (\<lambda>r. gasnete_amdbarrier_init 0 r N (gasnete_barrier_init_peers r N)), net = {#}\<rparr>"

definition post :: "nat \<Rightarrow> nat \<Rightarrow> amd_team \<Rightarrow> amd_msg list \<Rightarrow> amd_sys \<Rightarrow> amd_sys" where
  "post r e t ms s = s\<lparr>node := (node s)(r := t), net := net s + mset (map (\<lambda>m. (r, e, m)) ms)\<rparr>"

inductive amd_step :: "nat \<Rightarrow> amd_sys \<Rightarrow> bar_event \<Rightarrow> amd_sys \<Rightarrow> bool" for N :: nat where
  amd_notify:
    "r < N \<Longrightarrow> waiting s r = None \<Longrightarrow>
     gasnete_amdbarrier_notify (node s r) idv flags = Inr (t, ms) \<Longrightarrow> e = Suc (notified s r) \<Longrightarrow>
     amd_step N s (Enter r (outcome_of (flags, idv)))
       ((post r e t ms s)\<lparr>notified := (notified s)(r := e),
          ballots := (ballots s)(e := (ballots s e)(r := (flags, idv)))\<rparr>)"
| amd_kick:
    "r < N \<Longrightarrow> gasnete_amdbarrier_kick (node s r) = (t, ms) \<Longrightarrow>
     amd_step N s Internal (post r (notified s r) t ms s)"
| amd_deliver:
    "(src, e, m) \<in># net s \<Longrightarrow> d = msg_dst m \<Longrightarrow>
     gasnete_amdbarrier_notify_reqh (node s d) (msg_phase m) (msg_step m) (msg_value m) (msg_flags m)
       = Inr t \<Longrightarrow>
     amd_step N s Internal (s\<lparr>node := (node s)(d := t), net := net s - {#(src, e, m)#}\<rparr>)"
| amd_wait_begin:
    "r < N \<Longrightarrow> waiting s r = None \<Longrightarrow> gasnete_amdbarrier_wait_begin (node s r) = Inr t \<Longrightarrow>
     amd_step N s Internal (s\<lparr>node := (node s)(r := t), waiting := (waiting s)(r := Some b)\<rparr>)"
| amd_wait_end:
    "r < N \<Longrightarrow> waiting s r = Some (flags, idv) \<Longrightarrow> amd_complete (node s r) \<Longrightarrow>
     gasnete_amdbarrier_wait_end (node s r) idv flags = (rc, t) \<Longrightarrow>
     b = recv_pair (barrier_data (node s r)) (amdbarrier_phase (barrier_data (node s r))) \<Longrightarrow>
     amd_step N s (Leave r (outcome_of b))
       (s\<lparr>node := (node s)(r := t), completed := (completed s)(r := notified s r),
          waiting := (waiting s)(r := None)\<rparr>)"

inductive_cases amd_stepE: "amd_step N s ev t"
inductive_cases amd_EnterE: "amd_step N s (Enter r v) t"
inductive_cases amd_LeaveE: "amd_step N s (Leave r v) t"

section \<open>Views of a state\<close>

abbreviation bd :: "amd_sys \<Rightarrow> nat \<Rightarrow> amdbarrier" where
  "bd s r \<equiv> barrier_data (node s r)"

abbreviation stp :: "amd_sys \<Rightarrow> nat \<Rightarrow> nat" where
  "stp s r \<equiv> amdbarrier_step (bd s r)"

abbreviation dn :: "amd_sys \<Rightarrow> nat \<Rightarrow> nat \<Rightarrow> nat \<Rightarrow> bool" where
  "dn s r \<equiv> amdbarrier_step_done (bd s r)"

abbreviation rcv :: "amd_sys \<Rightarrow> nat \<Rightarrow> nat \<Rightarrow> outcome" where
  "rcv s r e \<equiv> outcome_of (recv_pair (bd s r) (e mod 2))"

abbreviation msg_out :: "amd_msg \<Rightarrow> outcome" where
  "msg_out m \<equiv> outcome_of (msg_flags m, msg_value m)"

text \<open>Which requests have been sent, and which have run their handler.\<close>

definition sent :: "amd_sys \<Rightarrow> nat \<Rightarrow> nat \<Rightarrow> nat \<Rightarrow> bool" where
  "sent s e r j \<longleftrightarrow> 0 < e \<and> (e < notified s r \<or> e = notified s r \<and> j \<le> stp s r)"

definition recvd :: "amd_sys \<Rightarrow> nat \<Rightarrow> nat \<Rightarrow> nat \<Rightarrow> bool" where
  "recvd s e d j \<longleftrightarrow> 0 < e \<and> (e < notified s d \<or>
     e = notified s d \<and> (j < stp s d \<or> dn s d (e mod 2) j) \<or>
     e = Suc (notified s d) \<and> dn s d (e mod 2) j)"

section \<open>The invariant\<close>

definition rank_shape :: "nat \<Rightarrow> amd_sys \<Rightarrow> nat \<Rightarrow> bool" where
  "rank_shape N s r \<longleftrightarrow>
     amdbarrier_peers (bd s r) = map (\<lambda>i. (r + 2 ^ i) mod N) [0..<rounds N] \<and>
     amdbarrier_size (bd s r) = rounds N \<and>
     amdbarrier_phase (bd s r) = notified s r mod 2 \<and>
     stp s r \<le> rounds N \<and>
     (notified s r = completed s r \<or> active s r) \<and>
     (notified s r = 0 \<longrightarrow> stp s r = 0) \<and>
     (0 < notified s r \<and> \<not> active s r \<longrightarrow> stp s r = rounds N) \<and>
     (barrier_splitstate (node s r) = INSIDE_BARRIER \<longleftrightarrow> active s r \<and> waiting s r = None) \<and>
     (waiting s r \<noteq> None \<longrightarrow> active s r) \<and>
     (\<forall>p j. dn s r p j \<longrightarrow> p < 2 \<and> j < rounds N \<and>
        (p = notified s r mod 2 \<longrightarrow> active s r \<and> stp s r \<le> j))"

definition rank_data :: "nat \<Rightarrow> amd_sys \<Rightarrow> nat \<Rightarrow> bool" where
  "rank_data N s r \<longleftrightarrow>
     (active s r \<and> stp s r = 0 \<longrightarrow>
        (amdbarrier_flags (bd s r), amdbarrier_value (bd s r)) = ballots s (notified s r) r) \<and>
     (\<not> active s r \<longrightarrow> rcv s r (notified s r) = bot) \<and>
     (active s r \<and> 0 < stp s r \<longrightarrow> knows s N (notified s r) r (2 ^ stp s r) (rcv s r (notified s r))) \<and>
     (active s r \<longrightarrow> upper s N (notified s r) (rcv s r (notified s r))) \<and>
     upper s N (Suc (notified s r)) (rcv s r (Suc (notified s r))) \<and>
     (\<forall>e j src. (e = notified s r \<or> e = Suc (notified s r)) \<and> dn s r (e mod 2) j \<and> src < N \<and>
        (src + 2 ^ j) mod N = r \<longrightarrow> knows s N e src (2 ^ j) (rcv s r e))"

definition packet_ok :: "nat \<Rightarrow> amd_sys \<Rightarrow> packet \<Rightarrow> bool" where
  "packet_ok N s = (\<lambda>(src, e, m). src < N \<and> msg_step m < rounds N \<and>
     msg_dst m = (src + 2 ^ msg_step m) mod N \<and> msg_phase m = e mod 2 \<and>
     knows s N e src (2 ^ msg_step m) (msg_out m) \<and> upper s N e (msg_out m))"

definition key :: "packet \<Rightarrow> nat \<times> nat \<times> nat" where
  "key = (\<lambda>(src, e, m). (src, e, msg_step m))"

definition net_inv :: "nat \<Rightarrow> amd_sys \<Rightarrow> bool" where
  "net_inv N s \<longleftrightarrow> (\<forall>p\<in>#net s. packet_ok N s p) \<and>
     (\<forall>src<N. \<forall>j<rounds N. \<forall>e. count (image_mset key (net s)) (src, e, j) =
        (if sent s e src j \<and> \<not> recvd s e ((src + 2 ^ j) mod N) j then 1 else 0)) \<and>
     (\<forall>src<N. \<forall>j<rounds N. \<forall>e. recvd s e ((src + 2 ^ j) mod N) j \<longrightarrow> sent s e src j)"

definition amd_inv :: "nat \<Rightarrow> amd_sys \<Rightarrow> bool" where
  "amd_inv N s \<longleftrightarrow> (\<forall>r<N. rank_shape N s r \<and> rank_data N s r) \<and> net_inv N s \<and>
     (\<forall>r<N. \<forall>q<N. completed s r \<le> notified s q)"

text \<open>A rank that does not move keeps its part of the invariant.\<close>

lemma rank_frame:
  assumes "rank_shape N s q" "rank_data N s q" and ext: "extends N s t" and "q < N"
    and same: "node t q = node s q" "notified t q = notified s q" "completed t q = completed s q"
      "waiting t q = waiting s q"
  shows "rank_shape N t q \<and> rank_data N t q"
proof
  have act: "active t q = active s q" using same by (simp add: active_def)
  show "rank_shape N t q"
    using assms(1) act same by (simp add: rank_shape_def)
  have b: "ballots t (notified t q) q = ballots s (notified s q) q"
    using ext \<open>q < N\<close> same by (simp add: extends_def)
  note up = upper_mono [OF _ ext]
  have kn: "knows s N e d n x \<Longrightarrow> knows t N e d n x" for e d n x
    using knows_mono [OF _ ext order_refl order_refl] .
  show "rank_data N t q"
    using assms(2) act same b up kn unfolding rank_data_def by simp
qed

lemma packet_frame: "packet_ok N s p \<Longrightarrow> extends N s t \<Longrightarrow> packet_ok N t p"
  by (auto simp: packet_ok_def intro: upper_mono knows_mono)

section \<open>The initial state\<close>

lemma amd_init_inv: "1 < N \<Longrightarrow> amd_inv N (amd_init N)"
  by (auto simp: amd_inv_def rank_shape_def rank_data_def net_inv_def amd_init_def active_def
      gasnete_amdbarrier_init_def gasnete_barrier_init_peers_def Let_def sent_def recvd_def upper_bot)

end
