(* ===== verification/Amd_Safety.thy ===== *)
theory Amd_Safety
  imports Amd_System
begin

text \<open>
  Every step of the dissemination barrier keeps the invariant of \<open>Amd_System\<close>; the system then
  simulates the abstract barrier, and a quiet system is a finished one.
\<close>

section \<open>What the operations do\<close>

lemma notify_effect:
  assumes "gasnete_amdbarrier_notify t idv flags = Inr (t', ms)"
  shows "barrier_splitstate t = OUTSIDE_BARRIER \<and> barrier_splitstate t' = INSIDE_BARRIER \<and>
     barrier_data t' = (barrier_data t)\<lparr>amdbarrier_value := idv, amdbarrier_flags := flags,
        amdbarrier_step := 0, amdbarrier_phase := 1 - amdbarrier_phase (barrier_data t)\<rparr> \<and>
     ms = [\<lparr>msg_dst = amdbarrier_peers (barrier_data t) ! 0,
            msg_phase = 1 - amdbarrier_phase (barrier_data t), msg_step = 0,
            msg_value = idv, msg_flags = flags\<rparr>]"
  using assms
  by (cases "barrier_splitstate t")
     (auto simp: gasnete_amdbarrier_notify_def splitstate_notify_enter_def Let_def
        gasnete_amdbarrier_send_def)

lemma reqh_effect:
  assumes "gasnete_amdbarrier_notify_reqh t p j v f = Inr t'"
  shows "\<not> amdbarrier_step_done (barrier_data t) p j \<and>
     barrier_splitstate t' = barrier_splitstate t \<and>
     barrier_data t' = (set_recv p (barrier_match (recv_pair (barrier_data t) p) (f, v)) (barrier_data t))
       \<lparr>amdbarrier_step_done := (amdbarrier_step_done (barrier_data t))
          (p := (amdbarrier_step_done (barrier_data t) p)(j := True))\<rparr>"
  using assms by (auto simp: gasnete_amdbarrier_notify_reqh_def Let_def split: if_splits)

lemma wait_begin_effect:
  assumes "gasnete_amdbarrier_wait_begin t = Inr t'"
  shows "barrier_splitstate t = INSIDE_BARRIER \<and> barrier_splitstate t' = OUTSIDE_BARRIER \<and>
     barrier_data t' = barrier_data t"
  using assms
  by (cases "barrier_splitstate t")
     (auto simp: gasnete_amdbarrier_wait_begin_def splitstate_wait_leave_def Let_def)

lemma wait_end_effect:
  assumes "gasnete_amdbarrier_wait_end t idv flags = (rc, t')"
  shows "rc = barrier_verdict (recv_pair (barrier_data t) (amdbarrier_phase (barrier_data t))) flags idv \<and>
     barrier_splitstate t' = barrier_splitstate t \<and>
     barrier_data t' = (let b = barrier_data t; p = amdbarrier_phase b in
       b\<lparr>amdbarrier_value := amdbarrier_recv_value b p, amdbarrier_flags := amdbarrier_recv_flags b p,
          amdbarrier_recv_flags := (amdbarrier_recv_flags b)(p := GASNET_BARRIERFLAG_ANONYMOUS)\<rparr>)"
  using assms by (auto simp: gasnete_amdbarrier_wait_end_def Let_def)

text \<open>A kick does nothing, or it moves the step to a later cursor over received steps.\<close>

lemma map_Suc_shift: "map (\<lambda>i. f (Suc (n + i))) [0..<m] = map f [Suc n..<Suc (n + m)]"
  by (rule nth_equalityI) (simp_all del: upt_Suc)

lemma kick_effect:
  assumes "gasnete_amdbarrier_kick t = (t', ms)" and "b = barrier_data t" and "p = amdbarrier_phase b"
    and "amdbarrier_step b \<le> amdbarrier_size b"
  shows "(t' = t \<and> ms = [] \<and> (amdbarrier_step b < amdbarrier_size b \<longrightarrow>
            \<not> amdbarrier_step_done b p (amdbarrier_step b))) \<or>
     (\<exists>c merged. amdbarrier_step b < c \<and> c \<le> amdbarrier_size b \<and>
        (\<forall>j. amdbarrier_step b \<le> j \<and> j < c \<longrightarrow> amdbarrier_step_done b p j) \<and>
        merged = (if amdbarrier_step b = 0
                  then barrier_match (recv_pair b p) (amdbarrier_flags b, amdbarrier_value b)
                  else recv_pair b p) \<and>
        barrier_splitstate t' = barrier_splitstate t \<and>
        barrier_data t' = (set_recv p merged b)
          \<lparr>amdbarrier_step_done := (amdbarrier_step_done b)
             (p := (\<lambda>j. amdbarrier_step_done b p j \<and> \<not> (amdbarrier_step b \<le> j \<and> j < c))),
           amdbarrier_step := c\<rparr> \<and>
        ms = map (\<lambda>j. \<lparr>msg_dst = amdbarrier_peers b ! j, msg_phase = p, msg_step = j,
                        msg_value = snd merged, msg_flags = fst merged\<rparr>)
               [amdbarrier_step b + 1..<(if c = amdbarrier_size b then c else Suc c)])"
proof (cases "amdbarrier_step b = amdbarrier_size b")
  case True
  then show ?thesis using assms(1,2) by (simp add: gasnete_amdbarrier_kick_def Let_def)
next
  case False
  let ?st = "amdbarrier_step b" and ?n = "amdbarrier_size b"
  obtain c d where cd: "amd_take_steps (amdbarrier_step_done b p) ?st ?n = (c, d)"
    by (cases "amd_take_steps (amdbarrier_step_done b p) ?st ?n")
  from take_steps_spec [OF cd assms(4)]
  have sp: "?st \<le> c" "c \<le> ?n" "\<forall>j. ?st \<le> j \<and> j < c \<longrightarrow> amdbarrier_step_done b p j"
    "d = (\<lambda>j. amdbarrier_step_done b p j \<and> \<not> (?st \<le> j \<and> j < c))"
    "c < ?n \<longrightarrow> \<not> amdbarrier_step_done b p c"
    by blast+
  show ?thesis
  proof (cases "c = ?st")
    case True
    with False assms(1,2,3) cd sp(2,5) show ?thesis
      by (simp add: gasnete_amdbarrier_kick_def Let_def)
  next
    case neq: False
    define merged where "merged = (if ?st = 0
      then barrier_match (recv_pair b p) (amdbarrier_flags b, amdbarrier_value b) else recv_pair b p)"
    define sends where "sends = (if c = ?n then c - ?st - 1 else c - ?st)"
    define F where "F = (\<lambda>j. \<lparr>msg_dst = amdbarrier_peers b ! j, msg_phase = p, msg_step = j,
                        msg_value = snd merged, msg_flags = fst merged\<rparr>)"
    have k: "gasnete_amdbarrier_kick t =
      ((if c = ?n then gasnete_barrier_pf_disable t else t)\<lparr>barrier_data := (set_recv p merged b)
          \<lparr>amdbarrier_step_done := (amdbarrier_step_done b)(p := d), amdbarrier_step := c\<rparr>\<rparr>,
       map (\<lambda>i. F (Suc (?st + i))) [0..<sends])"
      using False neq assms(2,3) cd sp(1)
      by (simp add: gasnete_amdbarrier_kick_def Let_def gasnete_amdbarrier_send_def merged_def
          sends_def F_def)
    have "Suc (?st + sends) = (if c = ?n then c else Suc c)"
      using neq sp(1) by (auto simp: sends_def)
    then have "map (\<lambda>i. F (Suc (?st + i))) [0..<sends] = map F [?st + 1..<(if c = ?n then c else Suc c)]"
      using map_Suc_shift [of F ?st sends] by simp
    then have "ms = map F [?st + 1..<(if c = ?n then c else Suc c)]"
      using k assms(1) by simp
    moreover have "barrier_splitstate t' = barrier_splitstate t \<and>
        barrier_data t' = (set_recv p merged b)
          \<lparr>amdbarrier_step_done := (amdbarrier_step_done b)(p := d), amdbarrier_step := c\<rparr>"
      using k assms(1) by (auto split: if_splits)
    ultimately show ?thesis
      using neq sp(1,2,3) unfolding sp(4) merged_def F_def
      by (intro disjI2 exI [of _ c] exI conjI) auto
  qed
qed

section \<open>Notify\<close>

lemma notify_keeps:
  assumes inv: "amd_inv N s" and N: "1 < N" and r: "r < N" and w: "waiting s r = None"
    and op: "gasnete_amdbarrier_notify (node s r) idv flags = Inr (t, ms)"
    and e: "e = Suc (notified s r)"
    and s': "s' = (post r e t ms s)\<lparr>notified := (notified s)(r := e),
          ballots := (ballots s)(e := (ballots s e)(r := (flags, idv)))\<rparr>"
  shows "amd_inv N s'"
proof -
  note eff = notify_effect [OF op]
  from inv r have sh: "rank_shape N s r" and da: "rank_data N s r" and net: "net_inv N s"
    and done2: "\<forall>r<N. \<forall>q<N. completed s r \<le> notified s q"
    by (auto simp: amd_inv_def)
  have idle: "\<not> active s r" using sh eff w by (auto simp: rank_shape_def)
  with sh have c: "completed s r = notified s r" and ph: "amdbarrier_phase (bd s r) = notified s r mod 2"
    and k: "0 < notified s r \<Longrightarrow> stp s r = rounds N"
    by (auto simp: rank_shape_def)
  have nodn: "\<not> dn s r (notified s r mod 2) j" for j
    using sh idle unfolding rank_shape_def by blast
  have pos: "0 < rounds N" using N by (rule rounds_pos)
  have bd': "bd s' r = (bd s r)\<lparr>amdbarrier_value := idv, amdbarrier_flags := flags,
        amdbarrier_step := 0, amdbarrier_phase := e mod 2\<rparr>"
    using eff by (simp add: s' post_def ph e one_minus_mod_two)
  have ext: "extends N s s'"
    by (auto simp: extends_def s' post_def e)
  have act': "active s' r" using c by (simp add: active_def s' post_def e)
  have n': "notified s' r = e" by (simp add: s' post_def)
  have shape: "rank_shape N s' r"
    using sh eff w act' bd' n' by (auto simp: rank_shape_def s' post_def e)
  have data: "rank_data N s' r"
  proof -
    have u1: "upper s' N e (rcv s' r e)"
      using da upper_mono [OF _ ext] bd' by (simp add: rank_data_def e)
    have u2: "upper s' N (Suc e) (rcv s' r (Suc e))"
      using da idle bd' upper_bot by (simp add: rank_data_def e)
    have kd: "knows s' N e' src (2 ^ j) (rcv s' r e')"
      if "e' = e \<or> e' = Suc e" "dn s' r (e' mod 2) j" "src < N" "(src + 2 ^ j) mod N = r" for e' j src
    proof -
      have "e' = e" using that(1,2) nodn bd' by (auto simp: e)
      then have "knows s N e' src (2 ^ j) (rcv s r e')"
        using da that bd' by (auto simp: rank_data_def e)
      then show ?thesis using ext bd' by (auto intro: knows_mono)
    qed
    have "(amdbarrier_flags (bd s' r), amdbarrier_value (bd s' r)) = ballots s' e r"
      by (simp add: bd') (simp add: s' post_def)
    moreover have "stp s' r = 0" by (simp add: bd')
    ultimately show ?thesis using u1 u2 kd act' n' unfolding rank_data_def by auto
  qed
  have ranks: "rank_shape N s' q \<and> rank_data N s' q" if "q < N" for q
  proof (cases "q = r")
    case True
    with shape data show ?thesis by simp
  next
    case False
    with inv that ext show ?thesis
      by (intro rank_frame [where s = s]) (auto simp: amd_inv_def s' post_def)
  qed
  let ?m = "\<lparr>msg_dst = (r + 1) mod N, msg_phase = e mod 2, msg_step = 0,
            msg_value = idv, msg_flags = flags\<rparr>"
  have ms: "ms = [?m]"
    using eff sh pos by (simp add: rank_shape_def ph e one_minus_mod_two)
  have vote': "vote s' e r = outcome_of (flags, idv)" by (simp add: s' post_def)
  have pk: "packet_ok N s' (r, e, ?m)"
    using r pos n' vote' upper_vote [of r N e s'] by (auto simp: packet_ok_def knows_def within_one)
  have snt: "sent s' e' q j \<longleftrightarrow> sent s e' q j \<or> (q = r \<and> e' = e \<and> j = 0)"
    if "j < rounds N" for e' q j
    using that k bd' n' by (cases "q = r") (auto simp: sent_def e s' post_def)
  have rec: "recvd s' e' q j \<longleftrightarrow> recvd s e' q j" if "j < rounds N" for e' q j
  proof (cases "q = r")
    case True
    then show ?thesis using that k bd' n' nodn by (auto simp: recvd_def e)
  next
    case False
    then show ?thesis by (simp add: recvd_def s' post_def)
  qed
  have new: "\<not> sent s e r 0" by (simp add: sent_def e)
  have keys: "image_mset key (net s') = image_mset key (net s) + {#(r, e, 0)#}"
    by (simp add: s' post_def ms key_def)
  have cnt: "count (image_mset key (net s')) (src, e', j) =
        (if sent s' e' src j \<and> \<not> recvd s' e' ((src + 2 ^ j) mod N) j then 1 else 0)"
    if "src < N" "j < rounds N" for src e' j
    using that net new snt rec by (auto simp: net_inv_def keys)
  have "\<forall>p\<in>#net s'. packet_ok N s' p"
    using net ext pk by (auto simp: net_inv_def s' post_def ms [unfolded s' post_def] intro: packet_frame)
  with cnt net snt rec have "net_inv N s'" by (auto simp: net_inv_def)
  moreover have "\<forall>r<N. \<forall>q<N. completed s' r \<le> notified s' q"
    using done2 by (auto simp: s' post_def e intro: le_SucI)
  ultimately show ?thesis using ranks by (auto simp: amd_inv_def)
qed

section \<open>Deliver\<close>

lemma parity_unique:
  "e = n \<or> e = Suc n \<Longrightarrow> e' = n \<or> e' = Suc n \<Longrightarrow> e mod 2 = e' mod 2 \<Longrightarrow> e = (e'::nat)"
  by (elim disjE) (simp_all only: mod_two_Suc)

text \<open>
  A request in the network belongs to the barrier its destination is in or to the next one, has
  not been received, and its flag is clear there.
\<close>

lemma packet_position:
  assumes inv: "amd_inv N s" and p: "(src, e, m) \<in># net s" and d: "d = msg_dst m"
  shows "src < N \<and> d < N \<and> msg_step m < rounds N \<and> d = (src + 2 ^ msg_step m) mod N \<and>
    msg_phase m = e mod 2 \<and> (e = notified s d \<or> e = Suc (notified s d)) \<and>
    \<not> dn s d (e mod 2) (msg_step m) \<and> 0 < e \<and>
    (e = notified s d \<longrightarrow> active s d \<and> stp s d \<le> msg_step m) \<and>
    sent s e src (msg_step m) \<and> \<not> recvd s e d (msg_step m)"
proof -
  let ?j = "msg_step m"
  from inv p have ok: "packet_ok N s (src, e, m)"
    and cnt: "\<forall>src<N. \<forall>j<rounds N. \<forall>e. count (image_mset key (net s)) (src, e, j) =
        (if sent s e src j \<and> \<not> recvd s e ((src + 2 ^ j) mod N) j then 1 else 0)"
    by (auto simp: amd_inv_def net_inv_def)
  from ok d have b: "src < N" "?j < rounds N" "d = (src + 2 ^ ?j) mod N" "msg_phase m = e mod 2"
    by (auto simp: packet_ok_def)
  then have dN: "d < N" by auto
  have "(src, e, ?j) \<in># image_mset key (net s)"
    using p by (auto simp: key_def intro!: image_eqI [of _ _ "(src, e, m)"])
  then have "count (image_mset key (net s)) (src, e, ?j) \<noteq> 0" by simp
  with cnt b have sr: "sent s e src ?j" "\<not> recvd s e d ?j" by (auto split: if_splits)
  have "e \<le> notified s src" "0 < e" using sr(1) by (auto simp: sent_def)
  moreover have "rank_shape N s src" using inv b(1) by (simp add: amd_inv_def)
  then have "notified s src \<le> Suc (completed s src)"
    unfolding rank_shape_def active_def by linarith
  moreover have "completed s src \<le> notified s d"
    using inv b(1) dN by (simp add: amd_inv_def)
  moreover have "\<not> e < notified s d" using sr(2) \<open>0 < e\<close> by (auto simp: recvd_def)
  ultimately have e: "e = notified s d \<or> e = Suc (notified s d)" "0 < e" by auto
  moreover have "\<not> dn s d (e mod 2) ?j" using sr(2) e by (auto simp: recvd_def)
  moreover have "active s d \<and> stp s d \<le> ?j" if "e = notified s d"
  proof -
    have "stp s d \<le> ?j" using sr(2) e(2) that by (auto simp: recvd_def)
    moreover have "rank_shape N s d" using inv dN by (simp add: amd_inv_def)
    ultimately show ?thesis using b(2) e(2) that by (auto simp: rank_shape_def)
  qed
  ultimately show ?thesis using b dN sr by blast
qed

lemma deliver_keeps:
  assumes inv: "amd_inv N s" and p: "(src, e, m) \<in># net s" and d: "d = msg_dst m"
    and op: "gasnete_amdbarrier_notify_reqh (node s d) (msg_phase m) (msg_step m) (msg_value m) (msg_flags m)
       = Inr t"
    and s': "s' = s\<lparr>node := (node s)(d := t), net := net s - {#(src, e, m)#}\<rparr>"
  shows "amd_inv N s'"
proof -
  let ?j = "msg_step m"
  from packet_position [OF inv p d]
  have pos: "src < N" "d < N" "?j < rounds N" "d = (src + 2 ^ ?j) mod N" "msg_phase m = e mod 2"
    "e = notified s d \<or> e = Suc (notified s d)" "\<not> dn s d (e mod 2) ?j" "0 < e"
    "e = notified s d \<Longrightarrow> active s d \<and> stp s d \<le> ?j" "sent s e src ?j" "\<not> recvd s e d ?j"
    by blast+
  note eff = reqh_effect [OF op, unfolded pos(5)]
  from inv pos(2) have sh: "rank_shape N s d" and da: "rank_data N s d" and net: "net_inv N s"
    by (auto simp: amd_inv_def)
  have ok: "packet_ok N s (src, e, m)" using net p by (auto simp: net_inv_def)
  have bd': "bd s' d = (set_recv (e mod 2) (barrier_match (recv_pair (bd s d) (e mod 2)) (msg_flags m, msg_value m)) (bd s d))
       \<lparr>amdbarrier_step_done := (dn s d)(e mod 2 := (dn s d (e mod 2))(?j := True))\<rparr>"
    using eff by (simp add: s')
  have gh: "notified s' = notified s" "completed s' = completed s" "ballots s' = ballots s"
    "waiting s' = waiting s" and act: "active s' = active s"
    by (auto simp: s' active_def)
  have ext: "extends N s s'" by (rule extends_refl) (simp_all add: gh)
  have rcv': "rcv s' d e' = (if e' mod 2 = e mod 2 then sup (rcv s d e') (msg_out m) else rcv s d e')" for e'
    by (simp add: bd')
  have dn': "dn s' d p j \<longleftrightarrow> dn s d p j \<or> (p = e mod 2 \<and> j = ?j)" for p j
    by (auto simp: bd')
  have shape: "rank_shape N s' d"
  proof -
    have same: "amdbarrier_peers (bd s' d) = amdbarrier_peers (bd s d)"
      "amdbarrier_size (bd s' d) = amdbarrier_size (bd s d)"
      "amdbarrier_phase (bd s' d) = amdbarrier_phase (bd s d)" "stp s' d = stp s d"
      "barrier_splitstate (node s' d) = barrier_splitstate (node s d)"
      using eff by (simp_all add: bd') (simp add: s')
    have "p < 2 \<and> j < rounds N \<and> (p = notified s d mod 2 \<longrightarrow> active s d \<and> stp s d \<le> j)"
      if "dn s' d p j" for p j
    proof (cases "dn s d p j")
      case True
      then show ?thesis using sh unfolding rank_shape_def by blast
    next
      case False
      with that have *: "p = e mod 2" "j = ?j" by (simp_all add: dn')
      have "e = notified s d" if "p = notified s d mod 2"
        by (rule parity_unique [OF pos(6) disjI1 [OF refl]], rule trans [OF *(1) [symmetric] that])
      then have "p = notified s d mod 2 \<longrightarrow> active s d \<and> stp s d \<le> ?j" using pos(9) by blast
      moreover have "p < 2" unfolding * by simp
      ultimately show ?thesis unfolding *(2) using pos(3) by blast
    qed
    then have "\<forall>p j. dn s' d p j \<longrightarrow> p < 2 \<and> j < rounds N \<and>
        (p = notified s d mod 2 \<longrightarrow> active s d \<and> stp s d \<le> j)" by blast
    with sh show ?thesis unfolding rank_shape_def gh act same by (elim conjE, intro conjI) assumption+
  qed
  have le: "rcv s d e' \<le> rcv s' d e'" for e' by (simp add: rcv')
  note kn = knows_mono [OF _ ext order_refl] and up = upper_mono [OF _ ext]
  have mout: "knows s' N e src (2 ^ ?j) (msg_out m)" "upper s' N e (msg_out m)"
    using ok up kn [OF _ order_refl] by (auto simp: packet_ok_def)
  have upr: "upper s' N e' (rcv s' d e')"
    if "upper s N e' (rcv s d e')" "e' = notified s d \<or> e' = Suc (notified s d)" for e'
  proof (cases "e' mod 2 = e mod 2")
    case True
    then have "e' = e" using parity_unique [OF that(2) pos(6)] by simp
    then show ?thesis using that(1) up mout by (auto simp: rcv' intro: upper_sup)
  next
    case False
    then show ?thesis using that(1) up by (simp add: rcv')
  qed
  have kd: "knows s' N e' q (2 ^ j) (rcv s' d e')"
    if "e' = notified s d \<or> e' = Suc (notified s d)" "dn s' d (e' mod 2) j" "q < N" "(q + 2 ^ j) mod N = d" for e' j q
  proof (cases "dn s d (e' mod 2) j")
    case True
    then have "knows s N e' q (2 ^ j) (rcv s d e')" using da that by (auto simp: rank_data_def)
    then show ?thesis using le kn by blast
  next
    case False
    with that(2) have *: "e' mod 2 = e mod 2" "j = ?j" by (auto simp: dn')
    then have "e' = e" using parity_unique [OF that(1) pos(6)] by simp
    have "(q + 2 ^ ?j) mod N = (src + 2 ^ ?j) mod N"
      using that(4) pos(4) unfolding *(2) by (rule trans)
    then have "q mod N = src mod N" by (rule mod_add_cancel_nat)
    then have "q = src" using that(3) pos(1) by simp
    have "msg_out m \<le> rcv s' d e" by (simp add: rcv')
    then show ?thesis
      using knows_mono [OF mout(1) extends_refl [OF refl refl] order_refl] \<open>q = src\<close> \<open>e' = e\<close> * by blast
  qed
  have stp': "stp s' d = stp s d" by (simp add: bd')
  have data: "rank_data N s' d"
    unfolding rank_data_def gh act stp'
  proof (intro conjI allI impI)
    show "\<And>a. active s d \<and> stp s d = 0 \<Longrightarrow>
      (amdbarrier_flags (bd s' d), amdbarrier_value (bd s' d)) = ballots s (notified s d) d"
      using da by (simp add: rank_data_def bd')
    show "rcv s' d (notified s d) = bot" if "\<not> active s d"
    proof -
      have "e \<noteq> notified s d" using that pos(9) by blast
      then have "notified s d mod 2 \<noteq> e mod 2"
        using parity_unique [OF disjI1 [OF refl] pos(6)] by blast
      moreover have "rcv s d (notified s d) = bot"
        using da that unfolding rank_data_def by (elim conjE) (erule mp)
      ultimately show ?thesis unfolding rcv' by (simp only: if_False)
    qed
    show "active s d \<and> 0 < stp s d \<Longrightarrow> knows s' N (notified s d) d (2 ^ stp s d) (rcv s' d (notified s d))"
      using da le kn by (auto simp: rank_data_def)
    show "active s d \<Longrightarrow> upper s' N (notified s d) (rcv s' d (notified s d))"
      using da upr by (auto simp: rank_data_def)
    show "upper s' N (Suc (notified s d)) (rcv s' d (Suc (notified s d)))"
      using da upr by (auto simp: rank_data_def)
  qed (use kd in blast)
  have ranks: "rank_shape N s' q \<and> rank_data N s' q" if "q < N" for q
  proof (cases "q = d")
    case True
    with shape data show ?thesis by simp
  next
    case False
    with inv that ext show ?thesis
      by (intro rank_frame [where s = s]) (auto simp: amd_inv_def s')
  qed
  have snt: "sent s' e' q j = sent s e' q j" for e' q j
    using stp' by (cases "q = d") (simp_all add: sent_def gh, simp add: s')
  have rec: "recvd s' e' q j \<longleftrightarrow> recvd s e' q j \<or> (q = d \<and> e' = e \<and> j = ?j)" for e' q j
  proof (cases "q = d")
    case True
    have "(e' = notified s d \<or> e' = Suc (notified s d)) \<and> e' mod 2 = e mod 2 \<longleftrightarrow> e' = e"
      using parity_unique [of e' "notified s d" e] pos(6) by blast
    then have "recvd s' e' d j \<longleftrightarrow> recvd s e' d j \<or> (e' = e \<and> j = ?j)"
      using pos(6,8) unfolding recvd_def gh stp' dn' by auto
    with True show ?thesis by simp
  next
    case False
    then show ?thesis by (simp add: recvd_def s')
  qed
  have keys: "image_mset key (net s') = image_mset key (net s) - {#(src, e, ?j)#}"
    using p by (simp add: s' image_mset_Diff key_def)
  have cnt: "count (image_mset key (net s')) (q, e', j) =
        (if sent s' e' q j \<and> \<not> recvd s' e' ((q + 2 ^ j) mod N) j then 1 else 0)"
    if q: "q < N" "j < rounds N" for q e' j
  proof -
    have old: "count (image_mset key (net s)) (q, e', j) =
        (if sent s e' q j \<and> \<not> recvd s e' ((q + 2 ^ j) mod N) j then 1 else 0)"
      using net q by (simp add: net_inv_def)
    have same: "(q + 2 ^ j) mod N = d \<and> e' = e \<and> j = ?j \<longleftrightarrow> (q, e', j) = (src, e, ?j)"
      using pos(1,4) q(1) mod_add_cancel_nat [of q "2 ^ ?j" N src] by auto
    show ?thesis
      using old same pos(4,10,11) unfolding keys snt rec by auto
  qed
  have "\<forall>p\<in>#net s'. packet_ok N s' p"
    using net ext by (auto simp: net_inv_def s' intro: packet_frame dest: in_diffD)
  moreover have "\<forall>q<N. \<forall>j<rounds N. \<forall>e'. recvd s' e' ((q + 2 ^ j) mod N) j \<longrightarrow> sent s' e' q j"
  proof (intro allI impI)
    fix q j e' assume q: "q < N" "j < rounds N" "recvd s' e' ((q + 2 ^ j) mod N) j"
    show "sent s' e' q j"
    proof (cases "recvd s e' ((q + 2 ^ j) mod N) j")
      case True
      then show ?thesis using net q by (auto simp: net_inv_def snt)
    next
      case False
      with q(3) have *: "(q + 2 ^ j) mod N = d" "e' = e" "j = ?j" by (auto simp: rec)
      then have "(q + 2 ^ ?j) mod N = (src + 2 ^ ?j) mod N" using pos(4) by simp
      then have "q mod N = src mod N" by (rule mod_add_cancel_nat)
      then show ?thesis using * pos(1,10) q(1) by (simp add: snt)
    qed
  qed
  ultimately have "net_inv N s'" using cnt by (simp add: net_inv_def)
  moreover have "\<forall>r<N. \<forall>q<N. completed s' r \<le> notified s' q"
    using inv by (simp add: amd_inv_def gh)
  ultimately show ?thesis using ranks by (auto simp: amd_inv_def)
qed

end
