(* ===== verification/Amd_Progress.thy ===== *)
theory Amd_Progress
  imports Amd_Safety
begin

text \<open>
  The kick and the wait keep the invariant of \<open>Amd_System\<close>: a kick moves the step only over
  received steps, so that the names it merges and forwards are those of twice as many ranks per
  step, and a completed wait has heard of every rank.
\<close>

section \<open>Kick\<close>

lemma peer_behind:
  assumes "(r::nat) < N" shows "\<exists>q<N. (q + k) mod N = r"
proof (intro exI conjI)
  let ?q = "(r + (N - k mod N)) mod N"
  show "?q < N" using assms by simp
  have "(?q + k) mod N = (r + (N - k mod N) + k) mod N" by (simp add: mod_add_left_eq)
  also have "\<dots> = (r + (N - k mod N) + k mod N) mod N" by (simp add: mod_add_right_eq)
  also have "\<dots> = (r + N) mod N"
    using le_add_diff_inverse2 [OF less_imp_le [OF mod_less_divisor], of N k] assms by (simp only: add.assoc)
  also have "\<dots> = r" using assms by simp
  finally show "(?q + k) mod N = r" .
qed

text \<open>Received steps double what a rank knows, one after the other.\<close>

lemma knows_steps:
  assumes base: "knows s N e r (2 ^ st) x" and r: "r < N"
    and recv: "\<And>j src. st \<le> j \<Longrightarrow> j < c \<Longrightarrow> src < N \<Longrightarrow> (src + 2 ^ j) mod N = r \<Longrightarrow>
      knows s N e src (2 ^ j) x"
    and j: "st \<le> j" "j \<le> c"
  shows "knows s N e r (2 ^ j) x"
  using j
proof (induction j)
  case 0
  then show ?case using base by simp
next
  case (Suc j)
  show ?case
  proof (cases "st = Suc j")
    case True
    then show ?thesis using base by simp
  next
    case False
    with Suc.prems have le: "st \<le> j" "j < c" by simp_all
    obtain q where q: "q < N" "(q + 2 ^ j) mod N = r" using peer_behind [OF r] by blast
    have "knows s N e r (2 * 2 ^ j) x"
      using knows_double [OF Suc.IH recv [OF le q] q] le by simp
    then show ?thesis by simp
  qed
qed

lemma kick_keeps:
  assumes inv: "amd_inv N s" and r: "r < N"
    and op: "gasnete_amdbarrier_kick (node s r) = (t, ms)"
    and s': "s' = post r (notified s r) t ms s"
  shows "amd_inv N s'"
proof -
  let ?n = "notified s r" and ?p = "notified s r mod 2" and ?st = "stp s r"
  from inv r have sh: "rank_shape N s r" and da: "rank_data N s r" and net: "net_inv N s"
    by (auto simp: amd_inv_def)
  from sh have b: "amdbarrier_phase (bd s r) = ?p" "amdbarrier_size (bd s r) = rounds N"
    "?st \<le> rounds N" "amdbarrier_peers (bd s r) = map (\<lambda>i. (r + 2 ^ i) mod N) [0..<rounds N]"
    by (simp_all add: rank_shape_def)
  from kick_effect [OF op refl refl, unfolded b(1,2), OF b(3)] consider "t = node s r" "ms = []"
    | c merged where "?st < c" "c \<le> rounds N" "\<forall>j. ?st \<le> j \<and> j < c \<longrightarrow> dn s r ?p j"
        "merged = (if ?st = 0 then barrier_match (recv_pair (bd s r) ?p)
            (amdbarrier_flags (bd s r), amdbarrier_value (bd s r)) else recv_pair (bd s r) ?p)"
        "barrier_splitstate t = barrier_splitstate (node s r)"
        "barrier_data t = (set_recv ?p merged (bd s r))
          \<lparr>amdbarrier_step_done := (dn s r)
             (?p := (\<lambda>j. dn s r ?p j \<and> \<not> (?st \<le> j \<and> j < c))), amdbarrier_step := c\<rparr>"
        "ms = map (\<lambda>j. \<lparr>msg_dst = amdbarrier_peers (bd s r) ! j, msg_phase = ?p, msg_step = j,
                        msg_value = snd merged, msg_flags = fst merged\<rparr>)
               [?st + 1..<(if c = rounds N then c else Suc c)]"
    by blast
  then show ?thesis
  proof cases
    case 1
    then have "s' = s" by (simp add: s' post_def)
    with inv show ?thesis by simp
  next
    case 2
    note dones = 2(3)
    have dn0: "dn s r ?p ?st" using dones 2(1) by simp
    then have act: "active s r" using sh unfolding rank_shape_def by blast
    then have n0: "0 < ?n" by (simp add: active_def)
    have ext: "extends N s s'" by (rule extends_refl) (simp_all add: s' post_def)
    let ?mo = "outcome_of merged"
    have mo: "?mo = (if ?st = 0 then sup (rcv s r ?n) (vote s ?n r) else rcv s r ?n)"
      using da act by (auto simp: 2(4) rank_data_def)
    have le: "rcv s r ?n \<le> ?mo" by (simp add: mo)
    have gh: "notified s' = notified s" "completed s' = completed s" "ballots s' = ballots s"
      "waiting s' = waiting s" and act_eq: "active s' = active s"
      by (auto simp: s' post_def active_def)
    have bd': "bd s' r = (set_recv ?p merged (bd s r))
          \<lparr>amdbarrier_step_done := (dn s r)
             (?p := (\<lambda>j. dn s r ?p j \<and> \<not> (?st \<le> j \<and> j < c))), amdbarrier_step := c\<rparr>"
      and split': "barrier_splitstate (node s' r) = barrier_splitstate (node s r)"
      using 2(5,6) by (simp_all add: s' post_def)
    have stp': "stp s' r = c" by (simp add: bd')
    have dn': "dn s' r p j \<longleftrightarrow> dn s r p j \<and> \<not> (p = ?p \<and> ?st \<le> j \<and> j < c)" for p j
      by (auto simp: bd')
    have rcv': "rcv s' r e = (if e mod 2 = ?p then ?mo else rcv s r e)" for e
      by (simp add: bd')
    have kdn: "knows s N e src (2 ^ j) (rcv s r e)"
      if "e = ?n \<or> e = Suc ?n" "dn s r (e mod 2) j" "src < N" "(src + 2 ^ j) mod N = r" for e j src
      using da that unfolding rank_data_def by blast
    have base: "knows s N ?n r (2 ^ ?st) ?mo"
    proof (cases "?st = 0")
      case True
      then show ?thesis by (simp add: knows_def mo)
    next
      case False
      then show ?thesis using da act by (simp add: rank_data_def mo)
    qed
    have kn: "knows s N ?n r (2 ^ j) ?mo" if "?st \<le> j" "j \<le> c" for j
    proof (rule knows_steps [OF base r _ that])
      fix i src assume "?st \<le> i" "i < c" "src < N" "(src + 2 ^ i) mod N = r"
      then show "knows s N ?n src (2 ^ i) ?mo"
        using kdn [of ?n i src] dones knows_mono [OF _ extends_refl [OF refl refl] order_refl le] by blast
    qed
    have up: "upper s N ?n ?mo"
      using da act r by (auto simp: mo rank_data_def intro: upper_sup upper_vote)
    have mono: "knows s N e src m x \<Longrightarrow> x \<le> y \<Longrightarrow> knows s' N e src m y" for e src m x y
      using knows_mono [OF _ ext order_refl] .
    have shape: "rank_shape N s' r"
    proof -
      have "\<forall>p j. dn s' r p j \<longrightarrow> p < 2 \<and> j < rounds N \<and> (p = ?p \<longrightarrow> active s r \<and> c \<le> j)"
        using sh unfolding rank_shape_def dn' by fastforce
      moreover have "c = rounds N" if "stp s r = rounds N" using 2(1,2) that by simp
      moreover have "amdbarrier_peers (bd s' r) = amdbarrier_peers (bd s r)"
        "amdbarrier_size (bd s' r) = amdbarrier_size (bd s r)"
        "amdbarrier_phase (bd s' r) = amdbarrier_phase (bd s r)" by (simp_all add: bd')
      ultimately show ?thesis
        using sh act n0 2(2) unfolding rank_shape_def gh act_eq split' stp' by simp
    qed
    have data: "rank_data N s' r"
      unfolding rank_data_def gh act_eq stp'
    proof (intro conjI allI impI)
      show "knows s' N ?n r (2 ^ c) (rcv s' r ?n)"
        using mono [OF kn [of c] order_refl] 2(1) by (simp add: rcv')
      show "upper s' N ?n (rcv s' r ?n)" using upper_mono [OF up ext] by (simp add: rcv')
      show "upper s' N (Suc ?n) (rcv s' r (Suc ?n))"
        using da upper_mono [OF _ ext] by (simp add: rcv' rank_data_def)
      fix e j src
      assume "(e = ?n \<or> e = Suc ?n) \<and> dn s' r (e mod 2) j \<and> src < N \<and> (src + 2 ^ j) mod N = r"
      then have "knows s N e src (2 ^ j) (rcv s r e)" and e: "e = ?n \<or> e = Suc ?n"
        using kdn by (simp_all add: dn')
      moreover have "rcv s r e \<le> rcv s' r e" using e le by (auto simp: rcv')
      ultimately show "knows s' N e src (2 ^ j) (rcv s' r e)" using mono by blast
    qed (use act 2(1) in simp_all)
    have ranks: "rank_shape N s' q \<and> rank_data N s' q" if "q < N" for q
    proof (cases "q = r")
      case True
      with shape data show ?thesis by simp
    next
      case False
      with inv that ext show ?thesis
        by (intro rank_frame [where s = s]) (auto simp: amd_inv_def s' post_def)
    qed
    let ?js = "[?st + 1..<(if c = rounds N then c else Suc c)]"
    define pk where "pk j = (r, ?n, \<lparr>msg_dst = amdbarrier_peers (bd s r) ! j, msg_phase = ?p,
        msg_step = j, msg_value = snd merged, msg_flags = fst merged\<rparr>)" for j
    have net': "net s' = net s + mset (map pk ?js)"
      by (simp add: s' post_def 2(7) pk_def [abs_def] comp_def)
    have js: "j \<in> set ?js \<longleftrightarrow> ?st < j \<and> j \<le> c" if "j < rounds N" for j
      using that by auto
    have pkok: "packet_ok N s' (pk j)" if "j \<in> set ?js" for j
    proof -
      have j: "j < rounds N" using that 2(2) by (auto split: if_splits)
      then have "?st \<le> j" "j \<le> c" using js that by auto
      with mono [OF kn order_refl] upper_mono [OF up ext] j r b(4) show ?thesis
        by (simp add: packet_ok_def pk_def)
    qed
    have snt: "sent s' e q j \<longleftrightarrow> sent s e q j \<or> (q = r \<and> e = ?n \<and> ?st < j \<and> j \<le> c)" for e q j
    proof (cases "q = r")
      case True
      have "sent s' e r j \<longleftrightarrow> sent s e r j \<or> (e = ?n \<and> ?st < j \<and> j \<le> c)"
        using n0 2(1) unfolding sent_def gh stp' by auto
      with True show ?thesis by simp
    next
      case False
      then show ?thesis by (simp add: sent_def s' post_def)
    qed
    have rec: "recvd s' e q j \<longleftrightarrow> recvd s e q j" for e q j
    proof (cases "q = r")
      case True
      have "j < c \<Longrightarrow> j < ?st \<or> dn s r ?p j" using dones by (meson not_le)
      then have "recvd s' e r j \<longleftrightarrow> recvd s e r j"
        using 2(1) unfolding recvd_def gh stp' dn' by auto
      with True show ?thesis by simp
    next
      case False
      then show ?thesis by (simp add: recvd_def s' post_def)
    qed
    have keys: "image_mset key (net s') = image_mset key (net s) + mset (map (\<lambda>j. (r, ?n, j)) ?js)"
    proof -
      have "key \<circ> pk = (\<lambda>j. (r, ?n, j))" by (simp add: fun_eq_iff key_def pk_def)
      then show ?thesis by (simp only: net' image_mset_union mset_map [symmetric] map_map)
    qed
    have add: "count (mset (map (\<lambda>j. (r, ?n, j)) ?js)) (q, e, j) =
        (if q = r \<and> e = ?n \<and> j \<in> set ?js then 1 else 0)" for q e j
    proof -
      have "distinct (map (\<lambda>j. (r, ?n, j)) ?js)" by (simp add: distinct_map inj_on_def)
      then have "count (mset (map (\<lambda>j. (r, ?n, j)) ?js)) (q, e, j) =
          (if (q, e, j) \<in> set (map (\<lambda>j. (r, ?n, j)) ?js) then 1 else 0)"
        unfolding distinct_count_atmost_1 by blast
      then show ?thesis by auto
    qed
    have fresh: "\<not> sent s ?n r j" if "?st < j" for j using that by (simp add: sent_def)
    have cnt: "count (image_mset key (net s')) (q, e, j) =
        (if sent s' e q j \<and> \<not> recvd s' e ((q + 2 ^ j) mod N) j then 1 else 0)"
      if q: "q < N" "j < rounds N" for q e j
    proof -
      have old: "count (image_mset key (net s)) (q, e, j) =
        (if sent s e q j \<and> \<not> recvd s e ((q + 2 ^ j) mod N) j then 1 else 0)"
        and imp: "recvd s e ((q + 2 ^ j) mod N) j \<longrightarrow> sent s e q j"
        using net q by (simp_all add: net_inv_def)
      show ?thesis
        using old imp fresh js [OF q(2)] unfolding keys count_union add snt rec by auto
    qed
    have "\<forall>p\<in>#net s'. packet_ok N s' p"
      using net ext pkok unfolding net' by (auto simp: net_inv_def intro: packet_frame)
    with cnt net snt rec have "net_inv N s'" by (auto simp: net_inv_def)
    moreover have "\<forall>r<N. \<forall>q<N. completed s' r \<le> notified s' q"
      using inv by (simp add: amd_inv_def gh)
    ultimately show ?thesis using ranks by (auto simp: amd_inv_def)
  qed
qed

section \<open>Wait\<close>

lemma wait_begin_keeps:
  assumes inv: "amd_inv N s" and r: "r < N" and w: "waiting s r = None"
    and op: "gasnete_amdbarrier_wait_begin (node s r) = Inr t"
    and s': "s' = s\<lparr>node := (node s)(r := t), waiting := (waiting s)(r := Some b)\<rparr>"
  shows "amd_inv N s'"
proof -
  note eff = wait_begin_effect [OF op]
  have bd': "bd s' q = bd s q" for q using eff by (simp add: s')
  have gh: "notified s' = notified s" "completed s' = completed s" "ballots s' = ballots s"
    "net s' = net s" and act_eq: "active s' = active s"
    by (auto simp: s' active_def)
  have ext: "extends N s s'" by (rule extends_refl) (simp_all add: gh)
  have kn: "knows s' = knows s" and up: "upper s' = upper s"
    by (simp_all add: knows_def [abs_def] upper_def [abs_def] gh)
  have data: "rank_data N s' q = rank_data N s q" for q
    by (simp add: rank_data_def bd' gh act_eq kn up)
  have "rank_shape N s r" using inv r by (simp add: amd_inv_def)
  then have "rank_shape N s' r"
    using eff w unfolding rank_shape_def bd' gh act_eq by (simp add: s')
  moreover have "rank_shape N s' q" if "q \<noteq> r" "rank_shape N s q" for q
    using that unfolding rank_shape_def bd' gh act_eq by (simp add: s')
  ultimately have "\<forall>q<N. rank_shape N s' q \<and> rank_data N s' q"
    using inv data unfolding amd_inv_def by metis
  moreover have "net_inv N s'"
    using inv by (simp add: amd_inv_def net_inv_def packet_ok_def sent_def recvd_def bd' gh kn up)
  ultimately show ?thesis using inv by (simp add: amd_inv_def gh)
qed

text \<open>A rank whose step has reached the size holds the consensus of all ranks.\<close>

lemma complete_knows:
  assumes inv: "amd_inv N s" and r: "r < N" and N: "1 < N" and act: "active s r"
    and op: "amd_complete (node s r)"
  shows "stp s r = rounds N" and "\<forall>q<N. notified s r \<le> notified s q"
    and "rcv s r (notified s r) = consensus (vote s (notified s r)) N"
proof -
  from inv r have sh: "rank_shape N s r" and da: "rank_data N s r" by (auto simp: amd_inv_def)
  show st: "stp s r = rounds N" using op sh by (simp add: amd_complete_def rank_shape_def)
  then have kn: "knows s N (notified s r) r (2 ^ rounds N) (rcv s r (notified s r))"
    using da act rounds_pos [OF N] by (simp add: rank_data_def)
  show "\<forall>q<N. notified s r \<le> notified s q" using knows_all [OF kn r rounds_reach] by blast
  have "upper s N (notified s r) (rcv s r (notified s r))" using da act by (simp add: rank_data_def)
  then show "rcv s r (notified s r) = consensus (vote s (notified s r)) N"
    by (rule knows_consensus [OF kn _ r rounds_reach])
qed

lemma wait_end_keeps:
  assumes inv: "amd_inv N s" and N: "1 < N" and r: "r < N" and w: "waiting s r = Some b"
    and full: "amd_complete (node s r)"
    and op: "gasnete_amdbarrier_wait_end (node s r) idv flags = (rc, t)"
    and s': "s' = s\<lparr>node := (node s)(r := t), completed := (completed s)(r := notified s r),
          waiting := (waiting s)(r := None)\<rparr>"
  shows "amd_inv N s'"
proof -
  let ?n = "notified s r"
  from inv r have sh: "rank_shape N s r" and da: "rank_data N s r" and net: "net_inv N s"
    by (auto simp: amd_inv_def)
  have act: "active s r" using sh w by (simp add: rank_shape_def)
  note know = complete_knows [OF inv r N act full]
  have ph: "amdbarrier_phase (bd s r) = ?n mod 2" using sh by (simp add: rank_shape_def)
  have eff: "barrier_splitstate (node s' r) = barrier_splitstate (node s r)"
    "bd s' r = (bd s r)\<lparr>amdbarrier_value := amdbarrier_recv_value (bd s r) (?n mod 2),
       amdbarrier_flags := amdbarrier_recv_flags (bd s r) (?n mod 2),
       amdbarrier_recv_flags := (amdbarrier_recv_flags (bd s r))(?n mod 2 := GASNET_BARRIERFLAG_ANONYMOUS)\<rparr>"
    using wait_end_effect [OF op] by (simp_all add: s' ph Let_def)
  have gh: "notified s' = notified s" "ballots s' = ballots s" "net s' = net s"
    by (simp_all add: s')
  have ext: "extends N s s'" by (rule extends_refl) (simp_all add: gh)
  have kn: "knows s' = knows s" and up: "upper s' = upper s"
    by (simp_all add: knows_def [abs_def] upper_def [abs_def] gh)
  have idle: "\<not> active s' r" and c: "completed s' r = ?n" by (simp_all add: active_def s')
  have "j < rounds N \<and> stp s r \<le> j" if "dn s r (?n mod 2) j" for j
    using sh that unfolding rank_shape_def by blast
  then have nodn: "\<not> dn s r (?n mod 2) j" for j using know(1) by (metis leD)
  have same: "amdbarrier_peers (bd s' r) = amdbarrier_peers (bd s r)"
    "amdbarrier_size (bd s' r) = amdbarrier_size (bd s r)"
    "amdbarrier_phase (bd s' r) = amdbarrier_phase (bd s r)" "stp s' r = stp s r" "dn s' r = dn s r"
    by (simp_all add: eff)
  have dnlt: "\<forall>p j. dn s r p j \<longrightarrow> p < 2 \<and> j < rounds N \<and> p \<noteq> ?n mod 2"
    using sh nodn unfolding rank_shape_def by blast
  have rcv': "rcv s' r e = (if e mod 2 = ?n mod 2 then bot else rcv s r e)" for e
    by (simp add: eff(2))
  have out: "barrier_splitstate (node s r) \<noteq> INSIDE_BARRIER" using sh w by (simp add: rank_shape_def)
  have shape: "rank_shape N s' r"
    using sh dnlt out idle c know(1) unfolding rank_shape_def gh same eff(1) by (simp add: s')
  have data: "rank_data N s' r"
    using da nodn idle unfolding rank_data_def gh same kn up by (auto simp: rcv')
  have ranks: "rank_shape N s' q \<and> rank_data N s' q" if "q < N" for q
  proof (cases "q = r")
    case True
    with shape data show ?thesis by simp
  next
    case False
    with inv that ext show ?thesis
      by (intro rank_frame [where s = s]) (auto simp: amd_inv_def s')
  qed
  have snt: "sent s' = sent s" and rec: "recvd s' = recvd s"
  proof -
    have "stp s' q = stp s q" "dn s' q = dn s q" for q
      using same by (cases "q = r"; simp add: s')+
    then show "sent s' = sent s" "recvd s' = recvd s"
      by (simp_all add: sent_def [abs_def] recvd_def [abs_def] gh)
  qed
  have "net_inv N s'"
    using net by (simp add: net_inv_def packet_ok_def gh kn up snt rec)
  moreover have "\<forall>r<N. \<forall>q<N. completed s' r \<le> notified s' q"
    using inv know(2) by (simp add: amd_inv_def s')
  ultimately show ?thesis using ranks by (auto simp: amd_inv_def)
qed

section \<open>Every reachable state\<close>

lemma amd_step_inv: "amd_step N s ev t \<Longrightarrow> 1 < N \<Longrightarrow> amd_inv N s \<Longrightarrow> amd_inv N t"
proof (induction rule: amd_step.induct)
  case (amd_notify r s idv flags t ms e)
  then show ?case using notify_keeps [OF _ _ _ _ _ _ refl] by blast
next
  case (amd_kick r s t ms)
  then show ?case using kick_keeps [OF _ _ _ refl] by blast
next
  case (amd_deliver src e m s d t)
  then show ?case using deliver_keeps [OF _ _ _ _ refl] by blast
next
  case (amd_wait_begin r s t b)
  then show ?case using wait_begin_keeps [OF _ _ _ _ refl] by blast
next
  case (amd_wait_end r s flags idv rc t b)
  then show ?case using wait_end_keeps [OF _ _ _ _ _ _ refl] by blast
qed

lemma amd_reach_inv: "reach (amd_init N) (amd_step N) s \<Longrightarrow> 1 < N \<Longrightarrow> amd_inv N s"
  by (induction rule: reach.induct) (blast intro: amd_init_inv amd_step_inv)+

end
