(* ===== verification/Amd_Refinement.thy ===== *)
theory Amd_Refinement
  imports Amd_Progress
begin

text \<open>
  The dissemination barrier implements the abstract barrier of \<open>Barrier_Spec\<close>: the abstraction
  forgets the nodes and the network, and every step of the system is a step of the machine. The
  second half shows that the protocol cannot get stuck: deliveries and kicks terminate, and when
  none is left every rank of a barrier that all have notified is complete.
\<close>

section \<open>Simulation\<close>

definition amd_abs :: "amd_sys \<Rightarrow> bar" where
  "amd_abs s = \<lparr>entered = notified s, left = completed s, votes = vote s\<rparr>"

lemma amd_abs_start: "amd_abs (amd_init N) = bar_init"
  by (simp add: amd_abs_def amd_init_def bar_init_def fun_eq_iff bot_outcome_def)

lemma notify_idle:
  assumes "rank_shape N s r" and "waiting s r = None" and "barrier_splitstate (node s r) = OUTSIDE_BARRIER"
  shows "completed s r = notified s r"
  using assms by (auto simp: rank_shape_def)

lemma amd_simulates:
  assumes step: "amd_step N s ev t" and inv: "amd_inv N s" and N: "1 < N"
  shows "bar_step N (amd_abs s) ev (amd_abs t)"
  using step
proof cases
  case (amd_notify r idv flags u ms e)
  have "completed s r = notified s r"
    using notify_effect [OF amd_notify(5)] inv amd_notify(3,4)
    by (intro notify_idle [of N]) (auto simp: amd_inv_def)
  then have "bar_step N (amd_abs s) (Enter r (outcome_of (flags, idv)))
      (bar_enter r (outcome_of (flags, idv)) (amd_abs s))"
    using amd_notify(3) by (intro bar_enter) (simp_all add: amd_abs_def)
  also have "bar_enter r (outcome_of (flags, idv)) (amd_abs s) = amd_abs t"
    by (simp add: amd_notify(2,6) amd_abs_def bar_enter_def Let_def post_def fun_eq_iff)
  finally show ?thesis by (simp add: amd_notify(1))
next
  case (amd_kick r u ms)
  then show ?thesis by (simp add: amd_abs_def post_def bar_internal)
next
  case (amd_deliver src e m d u)
  then show ?thesis by (simp add: amd_abs_def bar_internal)
next
  case (amd_wait_begin r u b)
  then show ?thesis by (simp add: amd_abs_def bar_internal)
next
  case (amd_wait_end r flags idv rc u b)
  have sh: "rank_shape N s r" using inv amd_wait_end(3) by (simp add: amd_inv_def)
  then have act: "active s r" and ph: "amdbarrier_phase (bd s r) = notified s r mod 2"
    using amd_wait_end(4) by (simp_all add: rank_shape_def)
  note know = complete_knows [OF inv amd_wait_end(3) N act amd_wait_end(5)]
  have "outcome_of b = consensus (vote s (notified s r)) N"
    using know(3) by (simp add: amd_wait_end(7) ph)
  then have "bar_step N (amd_abs s) (Leave r (outcome_of b)) (bar_leave r (amd_abs s))"
    using amd_wait_end(3) know(2) act by (intro bar_leave) (simp_all add: amd_abs_def active_def)
  also have "bar_leave r (amd_abs s) = amd_abs t"
    by (simp add: amd_wait_end(2) amd_abs_def bar_leave_def)
  finally show ?thesis by (simp add: amd_wait_end(1))
qed

lemma amd_refines:
  "reach (amd_init (n + 2)) (amd_step (n + 2)) s \<Longrightarrow> amd_step (n + 2) s ev t \<Longrightarrow>
   bar_step (n + 2) (amd_abs s) ev (amd_abs t)"
  by (rule amd_simulates [OF _ amd_reach_inv]) simp_all

interpretation amd: split_barrier "n + 2" "amd_init (n + 2)" "amd_step (n + 2)" amd_abs for n
  by unfold_locales (rule amd_abs_start, rule amd_refines)

section \<open>Progress\<close>

text \<open>Work left for the handlers and the kicks: undelivered requests, and steps not yet taken.\<close>

definition amd_work :: "nat \<Rightarrow> amd_sys \<Rightarrow> nat" where
  "amd_work N s = size (net s) + (\<Sum>r<N. 2 * (rounds N - stp s r))"

lemma deliver_work:
  assumes p: "(src, e, m) \<in># net s" and d: "d = msg_dst m"
    and op: "gasnete_amdbarrier_notify_reqh (node s d) a j v f = Inr t"
  shows "amd_work N (s\<lparr>node := (node s)(d := t), net := net s - {#(src, e, m)#}\<rparr>) < amd_work N s"
proof -
  let ?t = "s\<lparr>node := (node s)(d := t), net := net s - {#(src, e, m)#}\<rparr>"
  have "stp ?t r = stp s r" for r using reqh_effect [OF op] by simp
  moreover have "size (net ?t) < size (net s)"
    using p by (simp add: size_Diff_singleton)
       (metis One_nat_def diff_less empty_iff nonempty_has_size set_mset_empty zero_less_one)
  ultimately show ?thesis by (simp add: amd_work_def)
qed

lemma kick_cases:
  assumes "gasnete_amdbarrier_kick t = (t', ms)"
    and "amdbarrier_step (barrier_data t) \<le> amdbarrier_size (barrier_data t)"
  obtains (still) "t' = t"
      "amdbarrier_step (barrier_data t) < amdbarrier_size (barrier_data t) \<Longrightarrow>
       \<not> amdbarrier_step_done (barrier_data t) (amdbarrier_phase (barrier_data t))
           (amdbarrier_step (barrier_data t))"
    | (moved) "amdbarrier_step (barrier_data t) < amdbarrier_step (barrier_data t')"
      "amdbarrier_step (barrier_data t') \<le> amdbarrier_size (barrier_data t)"
      "length ms \<le> amdbarrier_step (barrier_data t') - amdbarrier_step (barrier_data t)"
  using kick_effect [OF assms(1) refl refl assms(2)]
proof (elim disjE exE conjE)
  fix c merged
  assume c: "amdbarrier_step (barrier_data t) < c" "c \<le> amdbarrier_size (barrier_data t)"
    and t': "barrier_data t' = (set_recv (amdbarrier_phase (barrier_data t)) merged (barrier_data t))
      \<lparr>amdbarrier_step_done := (amdbarrier_step_done (barrier_data t))
         (amdbarrier_phase (barrier_data t) :=
            (\<lambda>j. amdbarrier_step_done (barrier_data t) (amdbarrier_phase (barrier_data t)) j \<and>
                 \<not> (amdbarrier_step (barrier_data t) \<le> j \<and> j < c))),
       amdbarrier_step := c\<rparr>"
    and ms: "ms = map (\<lambda>j. \<lparr>msg_dst = amdbarrier_peers (barrier_data t) ! j,
        msg_phase = amdbarrier_phase (barrier_data t), msg_step = j,
        msg_value = snd merged, msg_flags = fst merged\<rparr>)
      [amdbarrier_step (barrier_data t) + 1..<(if c = amdbarrier_size (barrier_data t) then c else Suc c)]"
  have "amdbarrier_step (barrier_data t') = c" by (simp add: t')
  moreover have "length ms \<le> c - amdbarrier_step (barrier_data t)" by (simp add: ms diff_le_mono2)
  ultimately show thesis using moved c by simp
qed (use still in blast)

lemma kick_work:
  assumes inv: "amd_inv N s" and r: "r < N" and op: "gasnete_amdbarrier_kick (node s r) = (t, ms)"
    and moved: "t \<noteq> node s r"
  shows "amd_work N (post r (notified s r) t ms s) < amd_work N s"
proof -
  let ?s = "post r (notified s r) t ms s"
  have le: "stp s r \<le> amdbarrier_size (bd s r)" and sz: "amdbarrier_size (bd s r) = rounds N"
    using inv r by (auto simp: amd_inv_def rank_shape_def)
  from kick_cases [OF op le] moved obtain c where
    c: "stp s r < c" "c \<le> rounds N" "amdbarrier_step (barrier_data t) = c" "length ms \<le> c - stp s r"
    unfolding sz by metis
  have "(\<Sum>q<N. 2 * (rounds N - stp s q)) = 2 * (rounds N - stp s r) + (\<Sum>q\<in>{..<N}-{r}. 2 * (rounds N - stp s q))"
    using r by (intro sum.remove) auto
  moreover have "(\<Sum>q<N. 2 * (rounds N - stp ?s q)) =
      2 * (rounds N - stp ?s r) + (\<Sum>q\<in>{..<N}-{r}. 2 * (rounds N - stp ?s q))"
    using r by (intro sum.remove) auto
  moreover have "(\<Sum>q\<in>{..<N}-{r}. 2 * (rounds N - stp ?s q)) = (\<Sum>q\<in>{..<N}-{r}. 2 * (rounds N - stp s q))"
    by (intro sum.cong) (auto simp: post_def)
  moreover have "stp ?s r = c" "size (net ?s) = size (net s) + length ms"
    using c(3) by (simp_all add: post_def)
  ultimately show ?thesis using c(1,2,4) unfolding amd_work_def by linarith
qed

text \<open>A quiet system: nothing to deliver and no kick has an effect.\<close>

definition quiet :: "nat \<Rightarrow> amd_sys \<Rightarrow> bool" where
  "quiet N s \<longleftrightarrow> net s = {#} \<and> (\<forall>r<N. fst (gasnete_amdbarrier_kick (node s r)) = node s r)"

lemma kick_moves:
  assumes "rank_shape N s r" and "stp s r < rounds N" and "dn s r (notified s r mod 2) (stp s r)"
  shows "fst (gasnete_amdbarrier_kick (node s r)) \<noteq> node s r"
proof
  assume eq: "fst (gasnete_amdbarrier_kick (node s r)) = node s r"
  obtain t ms where op: "gasnete_amdbarrier_kick (node s r) = (t, ms)"
    by (cases "gasnete_amdbarrier_kick (node s r)")
  from eq op have t: "t = node s r" by simp
  have b: "amdbarrier_size (bd s r) = rounds N" "amdbarrier_phase (bd s r) = notified s r mod 2"
    using assms(1) by (simp_all add: rank_shape_def)
  have "stp s r \<le> amdbarrier_size (bd s r)" using assms(2) b(1) by simp
  then show False
    by (rule kick_cases [OF op]) (use assms(2,3) b t in simp_all)
qed

lemma quiet_complete:
  assumes inv: "amd_inv N s" and q: "quiet N s" and r: "r < N" and e: "0 < e" "notified s r = e"
    and all: "\<forall>q<N. e \<le> notified s q"
  shows "stp s r = rounds N"
proof (rule ccontr)
  assume "stp s r \<noteq> rounds N"
  let ?lag = "\<lambda>q. q < N \<and> notified s q = e \<and> stp s q < rounds N"
  have sh: "rank_shape N s q" if "q < N" for q using inv that by (simp add: amd_inv_def)
  have "?lag r" using \<open>stp s r \<noteq> rounds N\<close> sh [OF r] r e by (auto simp: rank_shape_def)
  then obtain d where d: "?lag d" and least: "\<And>q. ?lag q \<Longrightarrow> stp s d \<le> stp s q"
    using ex_has_least_nat [of ?lag r "stp s"] by blast
  let ?j = "stp s d"
  obtain src where src: "src < N" "(src + 2 ^ ?j) mod N = d" using peer_behind d by blast
  have "stp s src \<le> rounds N" using sh [OF src(1)] by (simp add: rank_shape_def)
  then have "sent s e src ?j"
    using all src(1) e(1) d least [of src] by (auto simp: sent_def le_less)
  moreover have "\<not> recvd s e d ?j"
  proof
    assume "recvd s e d ?j"
    then have "dn s d (notified s d mod 2) ?j" using d by (auto simp: recvd_def)
    from kick_moves [OF sh _ this] d q show False by (auto simp: quiet_def)
  qed
  ultimately have "count (image_mset key (net s)) (src, e, ?j) = 1"
    using inv src d by (auto simp: amd_inv_def net_inv_def)
  with q show False by (simp add: quiet_def)
qed

lemma handler_accepts:
  assumes "amd_inv N s" and "(src, e, m) \<in># net s" and "d = msg_dst m"
  shows "\<exists>t. gasnete_amdbarrier_notify_reqh (node s d) (msg_phase m) (msg_step m) (msg_value m)
           (msg_flags m) = Inr t"
proof -
  from packet_position [OF assms] have "\<not> dn s d (e mod 2) (msg_step m)" "msg_phase m = e mod 2"
    by blast+
  then show ?thesis by (simp add: gasnete_amdbarrier_notify_reqh_def Let_def)
qed

text \<open>Deliveries and kicks lead from any reachable state to a quiet one.\<close>

lemma amd_progress:
  assumes "reach (amd_init N) (amd_step N) s" and N: "1 < N" and nq: "\<not> quiet N s"
  shows "\<exists>t. amd_step N s Internal t \<and> amd_work N t < amd_work N s \<and>
    (notified t, waiting t) = (notified s, waiting s)"
proof -
  have inv: "amd_inv N s" using assms(1) N by (rule amd_reach_inv)
  from nq consider src e m where "(src, e, m) \<in># net s"
    | r where "r < N" "fst (gasnete_amdbarrier_kick (node s r)) \<noteq> node s r"
    by (auto simp: quiet_def)
  then show ?thesis
  proof cases
    case 1
    from handler_accepts [OF inv 1 refl]
    obtain t where op: "gasnete_amdbarrier_notify_reqh (node s (msg_dst m)) (msg_phase m)
        (msg_step m) (msg_value m) (msg_flags m) = Inr t" ..
    show ?thesis
      by (intro exI conjI, rule amd_deliver [OF 1 refl op], rule deliver_work [OF 1 refl op]) simp
  next
    case (2 r)
    obtain t ms where op: "gasnete_amdbarrier_kick (node s r) = (t, ms)"
      by (cases "gasnete_amdbarrier_kick (node s r)")
    have moved: "t \<noteq> node s r" using 2(2) op by simp
    show ?thesis
      by (intro exI conjI, rule amd_kick [OF 2(1) op], rule kick_work [OF inv 2(1) op moved])
         (simp add: post_def)
  qed
qed

interpretation amd_rest: settling "amd_init (n + 2)" "amd_step (n + 2)" "amd_work (n + 2)"
    "quiet (n + 2)" "\<lambda>s. (notified s, waiting s)" for n
  by unfold_locales (use amd_progress in \<open>force intro: run_single\<close>)

end
