(* ===== verification/Amd_Properties.thy ===== *)
theory Amd_Properties
  imports Amd_Refinement
begin

text \<open>
  What the dissemination barrier promises its callers, and a scheduler that runs the system on a
  list of actions; a short schedule of two ranks shows that the hypotheses of the properties can
  hold.
\<close>

section \<open>A scheduler\<close>

datatype amd_action = ActNotify nat u32 u32 | ActKick nat | ActDeliver packet
  | ActWaitBegin nat ballot | ActWaitEnd nat

fun amd_do :: "nat \<Rightarrow> amd_action \<Rightarrow> amd_sys \<Rightarrow> (bar_event \<times> amd_sys) option" where
  "amd_do N (ActNotify r idv flags) s =
     (if r < N \<and> waiting s r = None
      then case gasnete_amdbarrier_notify (node s r) idv flags of Inl _ \<Rightarrow> None
        | Inr (t, ms) \<Rightarrow> let e = Suc (notified s r) in
            Some (Enter r (outcome_of (flags, idv)),
              (post r e t ms s)\<lparr>notified := (notified s)(r := e),
                 ballots := (ballots s)(e := (ballots s e)(r := (flags, idv)))\<rparr>)
      else None)"
| "amd_do N (ActKick r) s =
     (if r < N then let (t, ms) = gasnete_amdbarrier_kick (node s r) in
        Some (Internal, post r (notified s r) t ms s)
      else None)"
| "amd_do N (ActDeliver (src, e, m)) s =
     (if (src, e, m) \<in># net s
      then case gasnete_amdbarrier_notify_reqh (node s (msg_dst m)) (msg_phase m) (msg_step m)
                  (msg_value m) (msg_flags m) of Inl _ \<Rightarrow> None
        | Inr t \<Rightarrow> Some (Internal, s\<lparr>node := (node s)(msg_dst m := t), net := net s - {#(src, e, m)#}\<rparr>)
      else None)"
| "amd_do N (ActWaitBegin r b) s =
     (if r < N \<and> waiting s r = None
      then case gasnete_amdbarrier_wait_begin (node s r) of Inl _ \<Rightarrow> None
        | Inr t \<Rightarrow> Some (Internal, s\<lparr>node := (node s)(r := t), waiting := (waiting s)(r := Some b)\<rparr>)
      else None)"
| "amd_do N (ActWaitEnd r) s =
     (case waiting s r of None \<Rightarrow> None
      | Some (flags, idv) \<Rightarrow>
          if r < N \<and> amd_complete (node s r)
          then let (rc, t) = gasnete_amdbarrier_wait_end (node s r) idv flags in
            Some (Leave r (outcome_of (recv_pair (bd s r) (amdbarrier_phase (bd s r)))),
              s\<lparr>node := (node s)(r := t), completed := (completed s)(r := notified s r),
                waiting := (waiting s)(r := None)\<rparr>)
          else None)"

primrec amd_exec :: "nat \<Rightarrow> amd_action list \<Rightarrow> amd_sys \<Rightarrow> amd_sys option" where
  "amd_exec N [] s = Some s"
| "amd_exec N (a # as) s = (case amd_do N a s of None \<Rightarrow> None | Some (ev, t) \<Rightarrow> amd_exec N as t)"

lemma amd_do_step: "amd_do N a s = Some (ev, t) \<Longrightarrow> amd_step N s ev t"
  by (induction N a s rule: amd_do.induct)
     (auto split: if_splits sum.splits option.splits prod.splits simp: Let_def
        intro: amd_notify [OF _ _ _ refl] amd_kick amd_deliver [OF _ refl] amd_wait_begin
          amd_wait_end [OF _ _ _ _ refl])

lemma amd_exec_reach:
  "amd_exec N as s = Some t \<Longrightarrow> reach (amd_init N) (amd_step N) s \<Longrightarrow> reach (amd_init N) (amd_step N) t"
  by (induction as arbitrary: s)
     (auto split: option.splits prod.splits dest!: amd_do_step intro: reach_step)

lemma amd_exec_init: "amd_exec N as (amd_init N) = Some t \<Longrightarrow> reach (amd_init N) (amd_step N) t"
  by (rule amd_exec_reach) (auto intro: reach_start)

text \<open>Two ranks enter the barrier named 7 and both requests arrive; rank 0 is then in its wait.\<close>

definition demo_request :: "nat \<Rightarrow> packet" where
  "demo_request r = (r, 1, \<lparr>msg_dst = 1 - r, msg_phase = 1, msg_step = 0, msg_value = 7, msg_flags = 0\<rparr>)"

definition demo_enter :: "amd_action list" where
  "demo_enter = [ActNotify 0 7 0, ActNotify 1 7 0]"

definition demo_wait :: "amd_action list" where
  "demo_wait = demo_enter @ [ActDeliver (demo_request 0), ActDeliver (demo_request 1),
     ActKick 0, ActKick 1, ActWaitBegin 0 (0, 7)]"

lemma demo_enter_runs:
  "case amd_exec 2 demo_enter (amd_init 2) of None \<Rightarrow> False
   | Some s \<Rightarrow> demo_request 0 \<in># net s \<and> notified s 0 = 1 \<and> notified s 1 = 1"
  by code_simp

lemma demo_wait_runs:
  "case amd_exec 2 demo_wait (amd_init 2) of None \<Rightarrow> False
   | Some s \<Rightarrow> waiting s 0 = Some (0, 7) \<and> amd_complete (node s 0) \<and>
       notified s 0 = 1 \<and> ballots s 1 0 = (0, 7) \<and> ballots s 1 1 = (0, 7)"
  by code_simp

lemma demo_leave_runs:
  "case amd_exec 2 demo_wait (amd_init 2) of None \<Rightarrow> False
   | Some s \<Rightarrow> (case amd_do 2 (ActWaitEnd 0) s of None \<Rightarrow> False
     | Some (e1, s1) \<Rightarrow> (case amd_do 2 (ActWaitBegin 1 (0, 7)) s1 of None \<Rightarrow> False
       | Some (e2, s2) \<Rightarrow> (case amd_do 2 (ActWaitEnd 1) s2 of None \<Rightarrow> False
         | Some (e3, s3) \<Rightarrow> e1 = Leave 0 (ONamed 7) \<and> e2 = Internal \<and> notified s 0 = notified s2 1 \<and>
             (case e3 of Leave q w \<Rightarrow> q = 1 | _ \<Rightarrow> False))))"
  by code_simp

lemma case_some_pair:
  "(case x of None \<Rightarrow> False | Some (a, b) \<Rightarrow> P a b) \<longleftrightarrow> (\<exists>a b. x = Some (a, b) \<and> P a b)"
  by (auto split: option.splits)

lemma case_leave:
  "(case e of Leave q w \<Rightarrow> q = r | _ \<Rightarrow> False) \<longleftrightarrow> (\<exists>w. e = Leave r w)"
  by (auto split: bar_event.splits)

section \<open>Properties\<close>

text \<open>
  C1. No rank leaves a barrier before every rank has notified it: when a rank completes its wait for
  its \<open>e\<close>-th barrier, all ranks have executed their \<open>e\<close>-th notify, whatever the order in which
  requests were delivered and kicks ran.
\<close>

theorem amd_barrier_synchronizes:
  assumes "reach (amd_init N) (amd_step N) s" and "1 < N"
    and "amd_step N s (Leave r v) t" and "q < N"
  shows "notified s r \<le> notified s q \<and> completed t r = notified s r"
proof -
  note inv = amd_reach_inv [OF assms(1,2)]
  from amd_simulates [OF assms(3) inv assms(2)] assms(4) have "notified s r \<le> notified s q"
    by (auto elim!: bar_LeaveE simp: amd_abs_def)
  moreover from assms(3) have "completed t r = notified s r" by (auto elim!: amd_LeaveE)
  ultimately show ?thesis by simp
qed

theorem amd_barrier_synchronizes_witness:
  "case amd_exec 2 demo_wait (amd_init 2) of None \<Rightarrow> False
   | Some s \<Rightarrow> \<exists>v t. amd_step 2 s (Leave 0 v) t \<and> notified s 0 \<le> notified s 1 \<and>
       completed t 0 = notified s 0"
proof -
  obtain s where s: "amd_exec 2 demo_wait (amd_init 2) = Some s"
    and w: "waiting s 0 = Some (0, 7)" "amd_complete (node s 0)"
    using demo_wait_runs by (auto split: option.splits)
  obtain ev t where "amd_do 2 (ActWaitEnd 0) s = Some (ev, t) \<and> (\<exists>v. ev = Leave 0 v)"
    using w by (simp add: split_def)
  then obtain v where st: "amd_step 2 s (Leave 0 v) t" using amd_do_step by blast
  from amd_barrier_synchronizes [OF amd_exec_init [OF s] _ st, of 1] st s show ?thesis by auto
qed

lemma amd_wait_code:
  assumes "reach (amd_init N) (amd_step N) s" and "1 < N" and "r < N"
    and "waiting s r = Some (flags, idv)" and "amd_complete (node s r)"
    and "gasnete_amdbarrier_wait_end (node s r) idv flags = (rc, t)"
  shows "rc = outcome_verdict (consensus (\<lambda>q. outcome_of (ballots s (notified s r) q)) N) (flags, idv) \<and>
     outcome_of (amdbarrier_flags (barrier_data t), amdbarrier_value (barrier_data t)) =
       consensus (\<lambda>q. outcome_of (ballots s (notified s r) q)) N"
proof -
  note inv = amd_reach_inv [OF assms(1,2)]
  have "rank_shape N s r" using inv assms(3) by (simp add: amd_inv_def)
  then have act: "active s r" and ph: "amdbarrier_phase (bd s r) = notified s r mod 2"
    using assms(4) by (simp_all add: rank_shape_def)
  from complete_knows(3) [OF inv assms(3,2) act assms(5)] wait_end_effect [OF assms(6)] show ?thesis
    by (simp add: ph barrier_verdict_outcome Let_def)
qed

text \<open>
  C2. The return code and the stored name of a completed wait are those of the consensus of all
  ranks' notifies for that barrier: a mismatch if two ranks gave different names or one asked for a
  mismatch, an anonymous match if nobody gave a name, and otherwise the one name that was given,
  compared with the name passed to the wait.
\<close>

theorem amd_wait_reports_consensus:
  assumes "reach (amd_init N) (amd_step N) s" and "1 < N" and "r < N"
    and "waiting s r = Some (flags, idv)" and "amd_complete (node s r)"
    and "gasnete_amdbarrier_wait_end (node s r) idv flags = (rc, t)"
  shows "rc = outcome_verdict (consensus (\<lambda>q. outcome_of (ballots s (notified s r) q)) N) (flags, idv) \<and>
     outcome_of (amdbarrier_flags (barrier_data t), amdbarrier_value (barrier_data t)) =
       consensus (\<lambda>q. outcome_of (ballots s (notified s r) q)) N"
  using assms by (rule amd_wait_code)

theorem amd_wait_reports_consensus_witness:
  "case amd_exec 2 demo_wait (amd_init 2) of None \<Rightarrow> False
   | Some s \<Rightarrow> fst (gasnete_amdbarrier_wait_end (node s 0) 7 0) = GASNET_OK"
proof -
  obtain s where s: "amd_exec 2 demo_wait (amd_init 2) = Some s"
    and w: "waiting s 0 = Some (0, 7)" "amd_complete (node s 0)"
    and b: "notified s 0 = 1" "ballots s 1 0 = (0, 7)" "ballots s 1 1 = (0, 7)"
    using demo_wait_runs by (auto split: option.splits)
  have "consensus (\<lambda>q. outcome_of (ballots s (notified s 0) q)) 2 = ONamed 7"
    using b by (simp add: numeral_2_eq_2 outcome_of_def)
  with amd_wait_reports_consensus [OF amd_exec_init [OF s] _ _ w, of "fst (gasnete_amdbarrier_wait_end (node s 0) 7 0)"
      "snd (gasnete_amdbarrier_wait_end (node s 0) 7 0)"] s
  show ?thesis by simp
qed

text \<open>
  All ranks agree: two ranks that leave the same barrier, at any two points of an execution,
  leave with the same outcome.
\<close>

theorem amd_ranks_agree:
  assumes "reach (amd_init (n + 2)) (amd_step (n + 2)) s"
    and "amd_step (n + 2) s (Leave r v) s'" and "run (amd_step (n + 2)) s' es t"
    and "amd_step (n + 2) t (Leave q w) t'" and "notified s r = notified t q"
  shows "v = w"
  by (rule amd.agreement [OF assms(1-4)]) (simp add: amd_abs_def assms(5))

theorem amd_ranks_agree_witness:
  "case amd_exec 2 demo_wait (amd_init 2) of None \<Rightarrow> False
   | Some s \<Rightarrow> \<exists>s' t t' es v w. amd_step 2 s (Leave 0 v) s' \<and> run (amd_step 2) s' es t \<and>
       amd_step 2 t (Leave 1 w) t' \<and> v = w"
proof -
  from demo_leave_runs [unfolded case_some_pair case_leave] obtain s s1 s2 s3 w
    where s: "amd_exec 2 demo_wait (amd_init 2) = Some s"
    and d: "amd_do 2 (ActWaitEnd 0) s = Some (Leave 0 (ONamed 7), s1)"
      "amd_do 2 (ActWaitBegin 1 (0, 7)) s1 = Some (Internal, s2)"
      "amd_do 2 (ActWaitEnd 1) s2 = Some (Leave 1 w, s3)" and n: "notified s 0 = notified s2 1"
    by (auto simp del: amd_do.simps One_nat_def split: option.splits)
  note st = d [THEN amd_do_step]
  have "run (amd_step 2) s1 [Internal] s2" using st(2) by (auto intro: run.intros)
  moreover have "ONamed 7 = w"
    using amd_ranks_agree [of 0 s 0 "ONamed 7" s1 "[Internal]" s2 1 w s3, unfolded add_0]
      amd_exec_init [OF s] st(1,3) n calculation by simp
  ultimately show ?thesis using s st(1,3) by (simp only: option.case) blast
qed

text \<open>
  The two phases suffice: no rank is ever two barriers ahead of another, and a request always
  finds its flag clear, so the handler's assertion \<open>step_done == 0\<close> never fails.
\<close>

theorem amd_handler_never_asserts:
  assumes "reach (amd_init N) (amd_step N) s" and "1 < N" and "(src, e, m) \<in># net s"
  shows "\<exists>t. gasnete_amdbarrier_notify_reqh (node s (msg_dst m)) (msg_phase m) (msg_step m) (msg_value m)
           (msg_flags m) = Inr t"
  by (rule handler_accepts [OF amd_reach_inv [OF assms(1,2)] assms(3) refl])

theorem amd_handler_never_asserts_witness:
  "case amd_exec 2 demo_enter (amd_init 2) of None \<Rightarrow> False
   | Some s \<Rightarrow> \<exists>t. gasnete_amdbarrier_notify_reqh (node s 1) 1 0 7 0 = Inr t"
proof -
  obtain s where s: "amd_exec 2 demo_enter (amd_init 2) = Some s" and p: "demo_request 0 \<in># net s"
    using demo_enter_runs by (auto split: option.splits)
  from amd_handler_never_asserts [OF amd_exec_init [OF s] _ p [unfolded demo_request_def]] s
  show ?thesis by simp
qed

text \<open>
  C3. The barrier cannot get stuck: from every reachable state in which all ranks have notified the
  barrier a rank is in, deliveries and kicks alone lead to a state in which that rank's wait can
  complete.
\<close>

theorem amd_barrier_completes:
  assumes "reach (amd_init N) (amd_step N) s" and "1 < N" and "r < N"
    and "0 < notified s r" and "\<forall>q<N. notified s r \<le> notified s q"
  shows "\<exists>es t. run (amd_step N) s es t \<and> set es \<subseteq> {Internal} \<and> notified t = notified s \<and>
           waiting t = waiting s \<and> amd_complete (node t r)"
proof -
  obtain n where "N = n + 2" using two_plus [OF assms(2)] ..
  with assms(1) amd_rest.settles [of n s] obtain es t where
    t: "run (amd_step N) s es t" "set es \<subseteq> {Internal}" "notified t = notified s" "waiting t = waiting s"
    and q: "quiet N t" by auto
  have inv: "amd_inv N t" using run_reach [OF t(1) assms(1)] assms(2) by (rule amd_reach_inv)
  have "stp t r = rounds N"
    using assms(4,5) t(3) by (intro quiet_complete [OF inv q assms(3)]) simp_all
  then have "amd_complete (node t r)"
    using inv assms(3) by (simp add: amd_inv_def rank_shape_def amd_complete_def)
  with t show ?thesis by blast
qed

theorem amd_barrier_completes_witness:
  "case amd_exec 2 demo_enter (amd_init 2) of None \<Rightarrow> False
   | Some s \<Rightarrow> \<exists>es t. run (amd_step 2) s es t \<and> amd_complete (node t 1)"
proof -
  obtain s where s: "amd_exec 2 demo_enter (amd_init 2) = Some s"
    and n: "notified s 0 = 1" "notified s 1 = 1"
    using demo_enter_runs by (auto split: option.splits)
  have "\<forall>q<2. notified s 1 \<le> notified s q"
    using n by (auto simp: less_2_cases_iff)
  with amd_barrier_completes [OF amd_exec_init [OF s], of 1] n s show ?thesis by auto
qed

text \<open>
  In a team of one rank, notify followed by wait succeeds at once for the same name, without a
  message, unless the notify asked for a mismatch; the stored name is the notify's.
\<close>

theorem amd_singleton_barrier:
  assumes "barrier_splitstate team = OUTSIDE_BARRIER" and "amd_complete team"
    and "\<not> mismatch flags" and "\<not> mismatch wflags" and "anon wflags \<or> wid = idv"
  shows "\<exists>t1 t2 t3. gasnete_amdbarrier_notify_singleton team idv flags = Inr t1 \<and>
     gasnete_amdbarrier_wait_begin t1 = Inr t2 \<and>
     gasnete_amdbarrier_wait_end t2 wid wflags = (GASNET_OK, t3) \<and>
     gasnete_amdbarrier_result t3 = Inr (idv, anon flags)"
  using assms
  by (auto simp: gasnete_amdbarrier_notify_singleton_def splitstate_notify_enter_def Let_def
      gasnete_amdbarrier_wait_begin_def splitstate_wait_leave_def amd_complete_def set_recv_def
      gasnete_amdbarrier_wait_end_def gasnete_amdbarrier_result_def barrier_verdict_def)

theorem amd_singleton_barrier_witness:
  "\<exists>t1 t2 t3. gasnete_amdbarrier_notify_singleton
       (gasnete_amdbarrier_init 0 0 1 (gasnete_barrier_init_peers 0 1)) 5 0 = Inr t1 \<and>
     gasnete_amdbarrier_wait_begin t1 = Inr t2 \<and>
     gasnete_amdbarrier_wait_end t2 5 0 = (GASNET_OK, t3) \<and> gasnete_amdbarrier_result t3 = Inr (5, False)"
  using amd_singleton_barrier [of "gasnete_amdbarrier_init 0 0 1 (gasnete_barrier_init_peers 0 1)" 0 0 5 5]
  by (simp add: gasnete_amdbarrier_init_def amd_complete_def gasnete_barrier_init_peers_def no_peers_def)

end
