(* ===== verification/Amc_Barrier.thy ===== *)
theory Amc_Barrier
  imports Barrier_Match Team_Base
begin

text \<open>
  The centralised active-message barrier (\<open>amcbarrier\<close>) of
  \<^verbatim>\<open>extended-ref/gasnet_extended_refbarrier.c\<close>, one rank: every rank sends its name to
  the leader, the leader counts and matches, and a kick of the leader answers everybody. Critical
  sections under \<open>amcbarrier_lock\<close> are one step; the requests an operation injects are returned.
\<close>

section \<open>State and messages\<close>

record amcbarrier =
  amcbarrier_phase :: nat
  amcbarrier_response_done :: "nat \<Rightarrow> bool"
  amcbarrier_response_flags :: "nat \<Rightarrow> u32"
  amcbarrier_response_value :: "nat \<Rightarrow> u32"
  amcbarrier_max :: nat
  amcbarrier_leader :: nat
  amcbarrier_consensus_flags :: "nat \<Rightarrow> u32"
  amcbarrier_consensus_value :: "nat \<Rightarrow> u32"
  amcbarrier_count :: "nat \<Rightarrow> nat"

type_synonym amc_team = "amcbarrier coll_team"

datatype amc_msg =
    AmcNotify (amc_dst: nat) (amc_phase: nat) (amc_value: u32) (amc_flags: u32)
  | AmcDone (amc_dst: nat) (amc_phase: nat) (amc_flags: u32) (amc_value: u32)

abbreviation consensus_pair :: "amcbarrier \<Rightarrow> nat \<Rightarrow> ballot" where
  "consensus_pair bd p \<equiv> (amcbarrier_consensus_flags bd p, amcbarrier_consensus_value bd p)"

abbreviation response_pair :: "amcbarrier \<Rightarrow> nat \<Rightarrow> ballot" where
  "response_pair bd p \<equiv> (amcbarrier_response_flags bd p, amcbarrier_response_value bd p)"

section \<open>Request handlers\<close>

definition gasnete_amcbarrier_notify_reqh ::
  "amc_team \<Rightarrow> nat \<Rightarrow> u32 \<Rightarrow> u32 \<Rightarrow> barrier_error + amc_team" where
  "gasnete_amcbarrier_notify_reqh team phase v flags =
     (let bd = barrier_data team in
      if myrank team \<noteq> amcbarrier_leader bd then Inl AssertFailed
      else let (f, w) = barrier_match (consensus_pair bd phase) (flags, v) in
        Inr (team\<lparr>barrier_data := bd
          \<lparr>amcbarrier_consensus_flags := (amcbarrier_consensus_flags bd)(phase := f),
           amcbarrier_consensus_value := (amcbarrier_consensus_value bd)(phase := w),
           amcbarrier_count := (amcbarrier_count bd)(phase := Suc (amcbarrier_count bd phase))\<rparr>\<rparr>))"

definition amc_respond :: "nat \<Rightarrow> u32 \<Rightarrow> u32 \<Rightarrow> amcbarrier \<Rightarrow> amcbarrier" where
  "amc_respond phase flags v bd =
     bd\<lparr>amcbarrier_response_flags := (amcbarrier_response_flags bd)(phase := flags),
        amcbarrier_response_value := (amcbarrier_response_value bd)(phase := v),
        amcbarrier_response_done := (amcbarrier_response_done bd)(phase := True)\<rparr>"

definition gasnete_amcbarrier_done_reqh ::
  "amc_team \<Rightarrow> nat \<Rightarrow> u32 \<Rightarrow> u32 \<Rightarrow> barrier_error + amc_team" where
  "gasnete_amcbarrier_done_reqh team phase flags v =
     (if phase \<noteq> amcbarrier_phase (barrier_data team) then Inl AssertFailed
      else Inr (team\<lparr>barrier_data := amc_respond phase flags v (barrier_data team)\<rparr>))"

section \<open>Sending, kick and notify\<close>

definition gasnete_amcbarrier_send :: "amc_team \<Rightarrow> nat \<Rightarrow> u32 \<Rightarrow> u32 \<Rightarrow> amc_team \<times> amc_msg list" where
  "gasnete_amcbarrier_send team phase v flags =
     (let bd = barrier_data team;
          (team1, ms) = (if amcbarrier_max bd = 1
             then (team\<lparr>barrier_data := amc_respond phase flags v bd\<rparr>, [])
             else (team, [AmcNotify (amcbarrier_leader bd) phase v flags]))
      in (if myrank team = amcbarrier_leader bd then gasnete_barrier_pf_enable team1 else team1, ms))"

definition gasnete_amcbarrier_kick :: "amc_team \<Rightarrow> amc_team \<times> amc_msg list" where
  "gasnete_amcbarrier_kick team =
     (let bd = barrier_data team; phase = amcbarrier_phase bd in
      if myrank team \<noteq> amcbarrier_leader bd then (team, [])
      else if amcbarrier_count bd phase = amcbarrier_max bd then
        let flags = amcbarrier_consensus_flags bd phase; v = amcbarrier_consensus_value bd phase;
            bd' = bd\<lparr>amcbarrier_count := (amcbarrier_count bd)(phase := 0),
                     amcbarrier_consensus_flags :=
                       (amcbarrier_consensus_flags bd)(phase := GASNET_BARRIERFLAG_ANONYMOUS)\<rparr>
        in (gasnete_barrier_pf_disable (team\<lparr>barrier_data := bd'\<rparr>),
            map (\<lambda>rank. AmcDone rank phase flags v) [0..<amcbarrier_max bd])
      else (team, []))"

definition gasnete_amcbarrier_notify ::
  "amc_team \<Rightarrow> u32 \<Rightarrow> u32 \<Rightarrow> barrier_error + amc_team \<times> amc_msg list" where
  "gasnete_amcbarrier_notify team idv flags =
     (case splitstate_notify_enter team of Inl e \<Rightarrow> Inl e | Inr team1 \<Rightarrow>
        let phase = 1 - amcbarrier_phase (barrier_data team1)
        in Inr (gasnete_amcbarrier_send
             (team1\<lparr>barrier_data := (barrier_data team1)\<lparr>amcbarrier_phase := phase\<rparr>\<rparr>) phase idv flags))"

section \<open>Wait, try and result\<close>

text \<open>The wait is split around its \<open>GASNET_BLOCKUNTIL\<close>, as for the dissemination barrier.\<close>

definition amc_complete :: "amc_team \<Rightarrow> bool" where
  "amc_complete team =
     amcbarrier_response_done (barrier_data team) (amcbarrier_phase (barrier_data team))"

definition gasnete_amcbarrier_wait_begin :: "amc_team \<Rightarrow> barrier_error + amc_team" where
  "gasnete_amcbarrier_wait_begin team =
     (case splitstate_wait_leave team of Inl e \<Rightarrow> Inl e | Inr team1 \<Rightarrow>
        Inr (if amc_complete team1 then team1 else gasnete_barrier_pf_disable team1))"

definition gasnete_amcbarrier_wait_end :: "amc_team \<Rightarrow> u32 \<Rightarrow> u32 \<Rightarrow> barrier_rc \<times> amc_team" where
  "gasnete_amcbarrier_wait_end team idv flags =
     (let bd = barrier_data team; phase = amcbarrier_phase bd
      in (barrier_verdict (response_pair bd phase) flags idv,
          team\<lparr>barrier_data := bd
            \<lparr>amcbarrier_response_done := (amcbarrier_response_done bd)(phase := False)\<rparr>\<rparr>))"

definition gasnete_amcbarrier_try ::
  "amc_team \<Rightarrow> u32 \<Rightarrow> u32 \<Rightarrow> barrier_error + barrier_rc \<times> amc_team \<times> amc_msg list" where
  "gasnete_amcbarrier_try team idv flags =
     (if barrier_splitstate team = OUTSIDE_BARRIER then Inl TryWithoutNotify
      else let (team1, msgs) = gasnete_amcbarrier_kick team in
        if amc_complete team1 then
          (case gasnete_amcbarrier_wait_begin team1 of Inl e \<Rightarrow> Inl e | Inr team2 \<Rightarrow>
             let (rc, team3) = gasnete_amcbarrier_wait_end team2 idv flags in Inr (rc, team3, msgs))
        else Inr (GASNET_ERR_NOT_READY, team1, msgs))"

definition gasnete_amcbarrier_result :: "amc_team \<Rightarrow> barrier_error + u32 \<times> bool" where
  "gasnete_amcbarrier_result team =
     (if barrier_splitstate team = INSIDE_BARRIER then Inl ResultInside
      else let bd = barrier_data team; phase = amcbarrier_phase bd
        in Inr (amcbarrier_response_value bd phase, anon (amcbarrier_response_flags bd phase)))"

section \<open>Initialisation\<close>

definition gasnete_amcbarrier_init :: "nat \<Rightarrow> nat \<Rightarrow> nat \<Rightarrow> peer_list \<Rightarrow> amc_team" where
  "gasnete_amcbarrier_init tid rank nranks pl =
     \<lparr>team_id = tid, myrank = rank, total_ranks = nranks, peers = pl,
      barrier_splitstate = OUTSIDE_BARRIER, barrier_pf = (tid = 0 \<and> nranks > 1), pf_enabled = False,
      barrier_data =
        \<lparr>amcbarrier_phase = 0, amcbarrier_response_done = (\<lambda>_. False),
         amcbarrier_response_flags = (\<lambda>_. 0), amcbarrier_response_value = (\<lambda>_. 0),
         amcbarrier_max = nranks, amcbarrier_leader = 0,
         amcbarrier_consensus_flags = (\<lambda>_. GASNET_BARRIERFLAG_ANONYMOUS),
         amcbarrier_consensus_value = (\<lambda>_. 0), amcbarrier_count = (\<lambda>_. 0)\<rparr>\<rparr>"

section \<open>Effects\<close>

lemma amc_notify_effect:
  assumes "gasnete_amcbarrier_notify t idv flags = Inr (t', ms)" and "amcbarrier_max (barrier_data t) \<noteq> 1"
  shows "barrier_splitstate t = OUTSIDE_BARRIER \<and> barrier_splitstate t' = INSIDE_BARRIER \<and>
     myrank t' = myrank t \<and>
     barrier_data t' = (barrier_data t)\<lparr>amcbarrier_phase := 1 - amcbarrier_phase (barrier_data t)\<rparr> \<and>
     ms = [AmcNotify (amcbarrier_leader (barrier_data t)) (1 - amcbarrier_phase (barrier_data t)) idv flags]"
  using assms
  by (cases "barrier_splitstate t")
     (auto simp: gasnete_amcbarrier_notify_def splitstate_notify_enter_def Let_def
        gasnete_amcbarrier_send_def split: if_splits)

lemma amc_wait_begin_effect:
  assumes "gasnete_amcbarrier_wait_begin t = Inr t'"
  shows "barrier_splitstate t = INSIDE_BARRIER \<and> barrier_splitstate t' = OUTSIDE_BARRIER \<and>
     myrank t' = myrank t \<and> barrier_data t' = barrier_data t"
  using assms
  by (cases "barrier_splitstate t")
     (auto simp: gasnete_amcbarrier_wait_begin_def splitstate_wait_leave_def Let_def)

lemma amc_kick_effect:
  assumes "gasnete_amcbarrier_kick t = (t', ms)"
  obtains (still) "t' = t" "ms = []"
    | (release) "myrank t = amcbarrier_leader (barrier_data t)"
      "amcbarrier_count (barrier_data t) (amcbarrier_phase (barrier_data t)) = amcbarrier_max (barrier_data t)"
      "barrier_splitstate t' = barrier_splitstate t" "myrank t' = myrank t"
      "barrier_data t' = (let b = barrier_data t; p = amcbarrier_phase b in
         b\<lparr>amcbarrier_count := (amcbarrier_count b)(p := 0), amcbarrier_consensus_flags :=
            (amcbarrier_consensus_flags b)(p := GASNET_BARRIERFLAG_ANONYMOUS)\<rparr>)"
      "ms = (let b = barrier_data t; p = amcbarrier_phase b in
         map (\<lambda>r. AmcDone r p (amcbarrier_consensus_flags b p) (amcbarrier_consensus_value b p))
           [0..<amcbarrier_max b])"
  using assms by (auto simp: gasnete_amcbarrier_kick_def Let_def split: if_splits)

end
