(* ===== verification/Amc_System.thy ===== *)
theory Amc_System
  imports Amc_Barrier Barrier_Spec
begin

text \<open>
  All ranks of the centralised barrier together, with the same network and the same history
  counters as \<open>Amd_System\<close>; \<open>released\<close> counts the barriers the leader has answered, and
  \<open>arrived\<close> holds the ranks whose request for the next one has run its handler.
\<close>

section \<open>The system\<close>

record amc_sys =
  cnode :: "nat \<Rightarrow> amc_team"
  cnet :: "(nat \<times> amc_msg) multiset"      \<comment> \<open>source and request\<close>
  cnotified :: "nat \<Rightarrow> nat"
  ccompleted :: "nat \<Rightarrow> nat"
  cballots :: "nat \<Rightarrow> nat \<Rightarrow> ballot"
  cwaiting :: "nat \<Rightarrow> ballot option"
  released :: nat
  arrived :: "nat set"

definition amc_init :: "nat \<Rightarrow> amc_sys" where
  "amc_init N = \<lparr>cnode = (\<lambda>r. gasnete_amcbarrier_init 0 r N (gasnete_barrier_init_peers r N)),
     cnet = {#}, cnotified = (\<lambda>_. 0), ccompleted = (\<lambda>_. 0),
     cballots = (\<lambda>_ _. (GASNET_BARRIERFLAG_ANONYMOUS, 0)), cwaiting = (\<lambda>_. None),
     released = 0, arrived = {}\<rparr>"

definition cpost :: "nat \<Rightarrow> amc_team \<Rightarrow> amc_msg list \<Rightarrow> amc_sys \<Rightarrow> amc_sys" where
  "cpost r t ms s = s\<lparr>cnode := (cnode s)(r := t), cnet := cnet s + mset (map (Pair r) ms)\<rparr>"

inductive amc_step :: "nat \<Rightarrow> amc_sys \<Rightarrow> bar_event \<Rightarrow> amc_sys \<Rightarrow> bool" for N :: nat where
  amc_notify:
    "r < N \<Longrightarrow> cwaiting s r = None \<Longrightarrow>
     gasnete_amcbarrier_notify (cnode s r) idv flags = Inr (t, ms) \<Longrightarrow> e = Suc (cnotified s r) \<Longrightarrow>
     amc_step N s (Enter r (outcome_of (flags, idv)))
       ((cpost r t ms s)\<lparr>cnotified := (cnotified s)(r := e),
          cballots := (cballots s)(e := (cballots s e)(r := (flags, idv)))\<rparr>)"
| amc_kick:
    "r < N \<Longrightarrow> gasnete_amcbarrier_kick (cnode s r) = (t, ms) \<Longrightarrow>
     amc_step N s Internal ((cpost r t ms s)
       \<lparr>released := (if ms = [] then released s else Suc (released s)),
        arrived := (if ms = [] then arrived s else {})\<rparr>)"
| amc_deliver_notify:
    "(src, AmcNotify d p v f) \<in># cnet s \<Longrightarrow>
     gasnete_amcbarrier_notify_reqh (cnode s d) p v f = Inr t \<Longrightarrow>
     amc_step N s Internal (s\<lparr>cnode := (cnode s)(d := t),
       cnet := cnet s - {#(src, AmcNotify d p v f)#}, arrived := insert src (arrived s)\<rparr>)"
| amc_deliver_done:
    "(src, AmcDone d p f v) \<in># cnet s \<Longrightarrow>
     gasnete_amcbarrier_done_reqh (cnode s d) p f v = Inr t \<Longrightarrow>
     amc_step N s Internal (s\<lparr>cnode := (cnode s)(d := t), cnet := cnet s - {#(src, AmcDone d p f v)#}\<rparr>)"
| amc_wait_begin:
    "r < N \<Longrightarrow> cwaiting s r = None \<Longrightarrow> gasnete_amcbarrier_wait_begin (cnode s r) = Inr t \<Longrightarrow>
     amc_step N s Internal (s\<lparr>cnode := (cnode s)(r := t), cwaiting := (cwaiting s)(r := Some b)\<rparr>)"
| amc_wait_end:
    "r < N \<Longrightarrow> cwaiting s r = Some (flags, idv) \<Longrightarrow> amc_complete (cnode s r) \<Longrightarrow>
     gasnete_amcbarrier_wait_end (cnode s r) idv flags = (rc, t) \<Longrightarrow>
     b = response_pair (barrier_data (cnode s r)) (amcbarrier_phase (barrier_data (cnode s r))) \<Longrightarrow>
     amc_step N s (Leave r (outcome_of b))
       (s\<lparr>cnode := (cnode s)(r := t), ccompleted := (ccompleted s)(r := cnotified s r),
          cwaiting := (cwaiting s)(r := None)\<rparr>)"

inductive_cases amc_stepE: "amc_step N s ev t"
inductive_cases amc_LeaveE: "amc_step N s (Leave r v) t"

section \<open>The invariant\<close>

abbreviation cbd :: "amc_sys \<Rightarrow> nat \<Rightarrow> amcbarrier" where
  "cbd s r \<equiv> barrier_data (cnode s r)"

abbreviation cvote :: "amc_sys \<Rightarrow> nat \<Rightarrow> nat \<Rightarrow> outcome" where
  "cvote s e r \<equiv> outcome_of (cballots s e r)"

definition cactive :: "amc_sys \<Rightarrow> nat \<Rightarrow> bool" where
  "cactive s r \<longleftrightarrow> cnotified s r = Suc (ccompleted s r)"

text \<open>
  A rank has notified every released barrier and at most the next one; its response flag is set
  only between the leader's answer and the end of the wait, with the consensus beside it.
\<close>

definition crank_inv :: "nat \<Rightarrow> amc_sys \<Rightarrow> nat \<Rightarrow> bool" where
  "crank_inv N s r \<longleftrightarrow>
     myrank (cnode s r) = r \<and> amcbarrier_leader (cbd s r) = 0 \<and> amcbarrier_max (cbd s r) = N \<and>
     amcbarrier_phase (cbd s r) = cnotified s r mod 2 \<and>
     (cnotified s r = released s \<and> (ccompleted s r = released s \<or> Suc (ccompleted s r) = released s) \<or>
      cnotified s r = Suc (released s) \<and> ccompleted s r = released s) \<and>
     (barrier_splitstate (cnode s r) = INSIDE_BARRIER \<longleftrightarrow> cactive s r \<and> cwaiting s r = None) \<and>
     (cwaiting s r \<noteq> None \<longrightarrow> cactive s r) \<and>
     \<not> amcbarrier_response_done (cbd s r) (Suc (released s) mod 2) \<and>
     (amcbarrier_response_done (cbd s r) (released s mod 2) \<longrightarrow> ccompleted s r \<noteq> released s \<and>
        outcome_of (response_pair (cbd s r) (released s mod 2)) = consensus (cvote s (released s)) N)"

definition leader_inv :: "nat \<Rightarrow> amc_sys \<Rightarrow> bool" where
  "leader_inv N s \<longleftrightarrow>
     (\<forall>r\<in>arrived s. r < N \<and> cnotified s r = Suc (released s)) \<and>
     amcbarrier_count (cbd s 0) (Suc (released s) mod 2) = card (arrived s) \<and>
     amcbarrier_count (cbd s 0) (released s mod 2) = 0 \<and>
     (\<forall>u. outcome_of (consensus_pair (cbd s 0) (Suc (released s) mod 2)) \<le> u \<longleftrightarrow>
        (\<forall>r\<in>arrived s. cvote s (Suc (released s)) r \<le> u)) \<and>
     outcome_of (consensus_pair (cbd s 0) (released s mod 2)) = bot"

fun cpacket_ok :: "nat \<Rightarrow> amc_sys \<Rightarrow> nat \<times> amc_msg \<Rightarrow> bool" where
  "cpacket_ok N s (src, AmcNotify d p v f) \<longleftrightarrow> src < N \<and> d = 0 \<and> p = Suc (released s) mod 2 \<and>
     cnotified s src = Suc (released s) \<and> src \<notin> arrived s \<and> (f, v) = cballots s (Suc (released s)) src"
| "cpacket_ok N s (src, AmcDone d p f v) \<longleftrightarrow> d < N \<and> p = released s mod 2 \<and>
     ccompleted s d \<noteq> released s \<and> outcome_of (f, v) = consensus (cvote s (released s)) N"

fun ckey :: "nat \<times> amc_msg \<Rightarrow> nat + nat" where
  "ckey (src, AmcNotify d p v f) = Inl src"
| "ckey (src, AmcDone d p f v) = Inr d"

definition cnet_inv :: "nat \<Rightarrow> amc_sys \<Rightarrow> bool" where
  "cnet_inv N s \<longleftrightarrow> (\<forall>p\<in>#cnet s. cpacket_ok N s p) \<and>
     (\<forall>r<N. count (image_mset ckey (cnet s)) (Inl r) =
        (if cnotified s r = Suc (released s) \<and> r \<notin> arrived s then 1 else 0)) \<and>
     (\<forall>r<N. count (image_mset ckey (cnet s)) (Inr r) =
        (if ccompleted s r \<noteq> released s \<and> \<not> amcbarrier_response_done (cbd s r) (released s mod 2)
         then 1 else 0))"

definition amc_inv :: "nat \<Rightarrow> amc_sys \<Rightarrow> bool" where
  "amc_inv N s \<longleftrightarrow> (\<forall>r<N. crank_inv N s r) \<and> leader_inv N s \<and> cnet_inv N s"

lemma amc_invD:
  assumes "amc_inv N s"
  shows "\<And>r. r < N \<Longrightarrow> crank_inv N s r" and "leader_inv N s" and "cnet_inv N s"
  using assms by (auto simp: amc_inv_def)

lemma amc_init_inv: "amc_inv N (amc_init N)"
  by (auto simp: amc_inv_def crank_inv_def leader_inv_def cnet_inv_def amc_init_def cactive_def
      gasnete_amcbarrier_init_def bot_outcome_def [symmetric])

text \<open>A rank that does not move keeps its part of the invariant within one release.\<close>

lemma crank_frame:
  assumes "crank_inv N s q" and "released t = released s"
    and "\<And>x. x < N \<Longrightarrow> cballots t (released s) x = cballots s (released s) x"
    and "cnotified t q = cnotified s q" "ccompleted t q = ccompleted s q" "cwaiting t q = cwaiting s q"
    and "barrier_splitstate (cnode t q) = barrier_splitstate (cnode s q)"
    and "myrank (cnode t q) = myrank (cnode s q)"
    and "amcbarrier_leader (cbd t q) = amcbarrier_leader (cbd s q)"
    and "amcbarrier_max (cbd t q) = amcbarrier_max (cbd s q)"
    and "amcbarrier_phase (cbd t q) = amcbarrier_phase (cbd s q)"
    and "amcbarrier_response_done (cbd t q) = amcbarrier_response_done (cbd s q)"
    and "amcbarrier_response_flags (cbd t q) = amcbarrier_response_flags (cbd s q)"
    and "amcbarrier_response_value (cbd t q) = amcbarrier_response_value (cbd s q)"
  shows "crank_inv N t q"
proof -
  have "consensus (cvote t (released s)) N = consensus (cvote s (released s)) N"
    using assms(3) by (intro consensus_cong) simp
  then show ?thesis
    using assms(1) unfolding crank_inv_def cactive_def assms(2,4-14) by simp
qed

end
