(* ===== verification/Amc_Safety.thy ===== *)
theory Amc_Safety
  imports Amc_System
begin

text \<open>
  Every step of the centralised barrier keeps the invariant of \<open>Amc_System\<close>, which makes it an
  implementation of the abstract barrier; and it cannot get stuck.
\<close>

section \<open>Notify\<close>

lemma cnotify_keeps:
  assumes inv: "amc_inv N s" and N: "1 < N" and r: "r < N" and w: "cwaiting s r = None"
    and op: "gasnete_amcbarrier_notify (cnode s r) idv flags = Inr (t, ms)"
    and e: "e = Suc (cnotified s r)"
    and s': "s' = (cpost r t ms s)\<lparr>cnotified := (cnotified s)(r := e),
          cballots := (cballots s)(e := (cballots s e)(r := (flags, idv)))\<rparr>"
  shows "amc_inv N s'" and "ccompleted s r = cnotified s r"
proof -
  let ?G = "released s"
  note rk = amc_invD(1) [OF inv] and ld = amc_invD(2) [OF inv] and nt = amc_invD(3) [OF inv]
  from rk [OF r] have rr: "amcbarrier_max (cbd s r) = N" "amcbarrier_leader (cbd s r) = 0"
    "amcbarrier_phase (cbd s r) = cnotified s r mod 2" by (simp_all add: crank_inv_def)
  from amc_notify_effect [OF op] rr(1) N
  have eff: "barrier_splitstate (cnode s r) = OUTSIDE_BARRIER" "barrier_splitstate t = INSIDE_BARRIER"
    "myrank t = myrank (cnode s r)" "barrier_data t = (cbd s r)\<lparr>amcbarrier_phase := e mod 2\<rparr>"
    "ms = [AmcNotify 0 (e mod 2) idv flags]"
    by (simp_all add: rr e one_minus_mod_two)
  have "\<not> cactive s r" using rk [OF r] eff(1) w by (auto simp: crank_inv_def)
  with rk [OF r] have c: "cnotified s r = ?G" "ccompleted s r = ?G"
    by (auto simp: crank_inv_def cactive_def)
  then show "ccompleted s r = cnotified s r" by simp
  have e': "e = Suc ?G" by (simp add: e c)
  have rA: "r \<notin> arrived s" using ld c(1) by (auto simp: leader_inv_def)
  have gh: "released s' = ?G" "arrived s' = arrived s" "ccompleted s' = ccompleted s"
    "cwaiting s' = cwaiting s" by (simp_all add: s' cpost_def)
  have votes: "cballots s' ?G x = cballots s ?G x" "x \<noteq> r \<Longrightarrow> cballots s' (Suc ?G) x = cballots s (Suc ?G) x"
    "cballots s' (Suc ?G) r = (flags, idv)" for x by (simp_all add: s' cpost_def e')
  have data: "cbd s' q = (cbd s q)\<lparr>amcbarrier_phase := (if q = r then e mod 2 else amcbarrier_phase (cbd s q))\<rparr>" for q
    using eff(4) by (cases "q = r") (simp_all add: s' cpost_def)
  have "crank_inv N s' r"
  proof -
    have "consensus (cvote s' ?G) N = consensus (cvote s ?G) N"
      by (intro consensus_cong) (simp add: votes)
    moreover have "\<not> amcbarrier_response_done (cbd s r) (?G mod 2)"
      using rk [OF r] c by (simp add: crank_inv_def)
    ultimately show ?thesis
      using rk [OF r] w c eff(2,3) unfolding crank_inv_def data gh
      by (simp add: s' cpost_def e' cactive_def)
  qed
  moreover have "crank_inv N s' q" if "q < N" "q \<noteq> r" for q
    by (rule crank_frame [OF rk [OF that(1)] gh(1) votes(1)]) (use that in \<open>simp_all add: s' cpost_def\<close>)
  ultimately have ranks: "\<forall>q<N. crank_inv N s' q" by metis
  have "leader_inv N s'"
  proof -
    have "\<forall>q\<in>arrived s. cvote s' (Suc ?G) q = cvote s (Suc ?G) q"
      using rA votes(2) by (metis)
    then show ?thesis
      using ld rA unfolding leader_inv_def gh data by (auto simp: s' cpost_def e')
  qed
  moreover have "cnet_inv N s'"
  proof -
    have "cvote s' ?G = cvote s ?G" by (simp add: votes)
    then have "\<forall>p\<in>#cnet s. cpacket_ok N s' p"
    proof (intro ballI)
      fix p assume vs: "cvote s' ?G = cvote s ?G" and p: "p \<in># cnet s"
      then have ok: "cpacket_ok N s p" using nt by (simp add: cnet_inv_def)
      obtain src m where pm: "p = (src, m)" by (cases p)
      show "cpacket_ok N s' p"
      proof (cases m)
        case (AmcNotify d ph v f)
        then have "src \<noteq> r" using ok c pm by auto
        with ok show ?thesis unfolding pm AmcNotify by (simp add: gh votes) (simp add: s')
      next
        case (AmcDone d ph f v)
        with ok vs show ?thesis unfolding pm AmcDone by (simp add: gh)
      qed
    qed
    moreover have "cpacket_ok N s' (r, AmcNotify 0 (e mod 2) idv flags)"
      using r rA by (simp add: gh votes e') (simp add: s' e')
    moreover have net': "cnet s' = cnet s + {#(r, AmcNotify 0 (e mod 2) idv flags)#}"
      by (simp add: s' cpost_def eff(5))
    ultimately have "\<forall>p\<in>#cnet s'. cpacket_ok N s' p" by auto
    moreover have "\<forall>q<N. count (image_mset ckey (cnet s')) (Inl q) =
        (if cnotified s' q = Suc ?G \<and> q \<notin> arrived s then 1 else 0)"
    proof (intro allI impI)
      fix q assume "q < N"
      with nt have "count (image_mset ckey (cnet s)) (Inl q) =
          (if cnotified s q = Suc ?G \<and> q \<notin> arrived s then 1 else 0)" by (simp add: cnet_inv_def)
      then show "count (image_mset ckey (cnet s')) (Inl q) =
          (if cnotified s' q = Suc ?G \<and> q \<notin> arrived s then 1 else 0)"
        using c rA unfolding net' by (cases "q = r") (simp_all add: s' e')
    qed
    moreover have "\<forall>q<N. count (image_mset ckey (cnet s')) (Inr q) =
        (if ccompleted s q \<noteq> ?G \<and> \<not> amcbarrier_response_done (cbd s' q) (?G mod 2) then 1 else 0)"
      using nt unfolding net' data by (simp add: cnet_inv_def)
    ultimately show ?thesis unfolding cnet_inv_def gh by blast
  qed
  ultimately show "amc_inv N s'" using ranks by (simp add: amc_inv_def)
qed

section \<open>Kick\<close>

lemma ckick_keeps:
  assumes inv: "amc_inv N s" and N: "1 < N" and r: "r < N"
    and op: "gasnete_amcbarrier_kick (cnode s r) = (t, ms)"
    and s': "s' = (cpost r t ms s)
       \<lparr>released := (if ms = [] then released s else Suc (released s)),
        arrived := (if ms = [] then arrived s else {})\<rparr>"
  shows "amc_inv N s'"
  using op
proof (cases rule: amc_kick_effect)
  case still
  then have "s' = s" by (simp add: s' cpost_def)
  with inv show ?thesis by simp
next
  case release
  let ?G = "released s"
  note rk = amc_invD(1) [OF inv] and ld = amc_invD(2) [OF inv] and nt = amc_invD(3) [OF inv]
  have r0: "r = 0" using rk [OF r] release(1) by (simp add: crank_inv_def)
  have full: "amcbarrier_count (cbd s 0) (cnotified s 0 mod 2) = N"
    using rk [OF r] release(2) by (simp add: r0 crank_inv_def)
  have n0: "cnotified s 0 = Suc ?G"
    using rk [OF r] full ld N by (auto simp: r0 crank_inv_def leader_inv_def)
  with full ld have "card (arrived s) = N" by (simp add: leader_inv_def)
  moreover have sub: "arrived s \<subseteq> {..<N}" using ld by (auto simp: leader_inv_def)
  ultimately have all: "arrived s = {..<N}" by (intro card_subset_eq) auto
  then have n: "cnotified s q = Suc ?G" if "q < N" for q using ld that by (auto simp: leader_inv_def)
  have c: "ccompleted s q = ?G" if "q < N" for q using rk [OF that] n [OF that] by (simp add: crank_inv_def)
  have nodone: "\<not> amcbarrier_response_done (cbd s q) p" if "q < N" "p = ?G mod 2 \<or> p = Suc ?G mod 2" for q p
    using rk [OF that(1)] c [OF that(1)] that(2) by (auto simp: crank_inv_def)
  have empty: "cnet s = {#}"
  proof (rule ccontr)
    assume "cnet s \<noteq> {#}"
    then obtain src m where p: "(src, m) \<in># cnet s" by (metis multiset_nonemptyE surj_pair)
    with nt have "cpacket_ok N s (src, m)" by (simp add: cnet_inv_def)
    then show False using all c by (cases m) auto
  qed
  have ph: "amcbarrier_phase (cbd s 0) = Suc ?G mod 2" using rk [OF r] n0 by (simp add: r0 crank_inv_def)
  let ?f = "amcbarrier_consensus_flags (cbd s 0) (Suc ?G mod 2)"
  let ?v = "amcbarrier_consensus_value (cbd s 0) (Suc ?G mod 2)"
  have ms: "ms = map (\<lambda>q. AmcDone q (Suc ?G mod 2) ?f ?v) [0..<N]"
    using release(6) rk [OF r] by (simp add: r0 Let_def ph crank_inv_def)
  have con: "outcome_of (?f, ?v) = consensus (cvote s (Suc ?G)) N"
  proof (rule consensus_eqI)
    have lub: "outcome_of (?f, ?v) \<le> u \<longleftrightarrow> (\<forall>q<N. cvote s (Suc ?G) q \<le> u)" for u
      using ld unfolding leader_inv_def all by blast
    then show "\<And>q. q < N \<Longrightarrow> cvote s (Suc ?G) q \<le> outcome_of (?f, ?v)" by blast
    show "\<And>u. (\<And>q. q < N \<Longrightarrow> cvote s (Suc ?G) q \<le> u) \<Longrightarrow> outcome_of (?f, ?v) \<le> u"
      using lub by blast
  qed
  have gh: "released s' = Suc ?G" "arrived s' = {}" "cnotified s' = cnotified s"
    "ccompleted s' = ccompleted s" "cwaiting s' = cwaiting s" "cballots s' = cballots s"
    using ms N by (auto simp: s' cpost_def)
  have data: "cbd s' q = (if q = 0 then (cbd s 0)
      \<lparr>amcbarrier_count := (amcbarrier_count (cbd s 0))(Suc ?G mod 2 := 0), amcbarrier_consensus_flags :=
         (amcbarrier_consensus_flags (cbd s 0))(Suc ?G mod 2 := GASNET_BARRIERFLAG_ANONYMOUS)\<rparr>
      else cbd s q)" for q
    using release(5) by (simp add: s' cpost_def r0 Let_def ph)
  have two: "Suc (Suc ?G) mod 2 = ?G mod 2" by simp
  have "crank_inv N s' q" if "q < N" for q
    using rk [OF that] n [OF that] c [OF that] nodone [OF that] release(3,4)
    unfolding crank_inv_def gh cactive_def two data by (cases "q = 0") (simp_all add: s' cpost_def r0)
  moreover have "leader_inv N s'"
    using ld by (simp add: leader_inv_def gh two data bot_outcome_def)
  moreover have "cnet_inv N s'"
  proof -
    have net': "cnet s' = mset (map (\<lambda>q. (0, AmcDone q (Suc ?G mod 2) ?f ?v)) [0..<N])"
      by (simp add: s' cpost_def empty ms r0 comp_def)
    have keys: "image_mset ckey (cnet s') = mset (map Inr [0..<N])"
      unfolding net' mset_map [symmetric] by (simp add: comp_def)
    have "count (mset (map Inr [0..<N])) (Inr q :: nat + nat) = 1" if "q < N" for q
      using that distinct_count_atmost_1 [of "map Inr [0..<N] :: (nat + nat) list"]
      by (simp add: distinct_map inj_on_def)
    moreover have "count (mset (map Inr [0..<N])) (Inl q :: nat + nat) = 0" for q
      by (auto simp: count_eq_zero_iff simp del: mset_map)
    moreover have "\<forall>p\<in>#cnet s'. cpacket_ok N s' p"
      using c con unfolding net' by (auto simp: gh)
    ultimately show ?thesis
      using n c nodone nodone [of 0 "Suc ?G mod 2"] r unfolding cnet_inv_def gh keys data
      by (auto simp: r0)
  qed
  ultimately show ?thesis by (simp add: amc_inv_def)
qed

section \<open>Deliver\<close>

lemma cdeliver_notify_keeps:
  assumes inv: "amc_inv N s" and N: "1 < N" and p: "(src, AmcNotify d ph v f) \<in># cnet s"
    and op: "gasnete_amcbarrier_notify_reqh (cnode s d) ph v f = Inr t"
    and s': "s' = s\<lparr>cnode := (cnode s)(d := t),
       cnet := cnet s - {#(src, AmcNotify d ph v f)#}, arrived := insert src (arrived s)\<rparr>"
  shows "amc_inv N s'"
proof -
  let ?G = "released s" and ?p = "Suc (released s) mod 2"
  note rk = amc_invD(1) [OF inv] and ld = amc_invD(2) [OF inv] and nt = amc_invD(3) [OF inv]
  from nt p have "cpacket_ok N s (src, AmcNotify d ph v f)" unfolding cnet_inv_def by blast
  then have ok: "src < N" "d = 0" "ph = ?p" "cnotified s src = Suc ?G" "src \<notin> arrived s"
    "cballots s (Suc ?G) src = (f, v)" by auto
  define acc where "acc = barrier_match (consensus_pair (cbd s 0) ?p) (f, v)"
  have t: "barrier_splitstate t = barrier_splitstate (cnode s 0)" "myrank t = myrank (cnode s 0)"
    "barrier_data t = (cbd s 0)
       \<lparr>amcbarrier_consensus_flags := (amcbarrier_consensus_flags (cbd s 0))(?p := fst acc),
        amcbarrier_consensus_value := (amcbarrier_consensus_value (cbd s 0))(?p := snd acc),
        amcbarrier_count := (amcbarrier_count (cbd s 0))(?p := Suc (amcbarrier_count (cbd s 0) ?p))\<rparr>"
    using op by (auto simp: gasnete_amcbarrier_notify_reqh_def Let_def ok(2,3) acc_def
        split: if_splits prod.splits)
  have gh: "released s' = ?G" "arrived s' = insert src (arrived s)" "cnotified s' = cnotified s"
    "ccompleted s' = ccompleted s" "cwaiting s' = cwaiting s" "cballots s' = cballots s"
    by (simp_all add: s')
  have data: "cbd s' q = (if q = 0 then barrier_data t else cbd s q)" for q by (simp add: s' ok(2))
  have rd: "amcbarrier_response_done (cbd s' q) = amcbarrier_response_done (cbd s q)" for q
    by (simp add: data t(3))
  have "crank_inv N s' q" if "q < N" for q
    by (rule crank_frame [OF rk [OF that] gh(1)]) (simp_all add: gh data t(3), simp_all add: s' ok(2) t)
  moreover have "leader_inv N s'"
  proof -
    have fin: "finite (arrived s)"
      by (rule finite_subset [of _ "{..<N}"]) (use ld in \<open>auto simp: leader_inv_def\<close>)
    have "outcome_of (fst acc, snd acc) = sup (outcome_of (consensus_pair (cbd s 0) ?p)) (outcome_of (f, v))"
      by (simp add: acc_def)
    then show ?thesis
      using ld ok(1,4,5,6) fin unfolding leader_inv_def gh data
      by (simp add: t(3) card_insert_disjoint conj_commute)
  qed
  moreover have "cnet_inv N s'"
  proof -
    have keys: "image_mset ckey (cnet s') = image_mset ckey (cnet s) - {#Inl src#}"
      using p by (simp add: s' image_mset_Diff)
    have "cpacket_ok N s' q" if q: "q \<in># cnet s'" for q
    proof -
      have old: "cpacket_ok N s q" using q nt by (auto simp: cnet_inv_def s' dest: in_diffD)
      obtain x m where qm: "q = (x, m)" by (cases q)
      show ?thesis
      proof (cases m)
        case (AmcNotify d' ph' v' f')
        have "x \<noteq> src"
        proof
          assume "x = src"
          then have "ckey q = Inl src" by (simp add: qm AmcNotify)
          then have "Inl src \<in># image_mset ckey (cnet s')" using q by force
          then have "0 < count (image_mset ckey (cnet s')) (Inl src)" by simp
          moreover have "count (image_mset ckey (cnet s)) (Inl src) = 1"
            using nt ok by (simp add: cnet_inv_def)
          ultimately show False unfolding keys by simp
        qed
        with old show ?thesis by (simp add: qm AmcNotify gh)
      next
        case (AmcDone d' ph' f' v')
        with old show ?thesis by (simp add: qm gh)
      qed
    qed
    then show ?thesis
      using nt ok unfolding cnet_inv_def gh keys rd by auto
  qed
  ultimately show ?thesis by (simp add: amc_inv_def)
qed

lemma cdeliver_done_keeps:
  assumes inv: "amc_inv N s" and p: "(src, AmcDone d ph f v) \<in># cnet s"
    and op: "gasnete_amcbarrier_done_reqh (cnode s d) ph f v = Inr t"
    and s': "s' = s\<lparr>cnode := (cnode s)(d := t), cnet := cnet s - {#(src, AmcDone d ph f v)#}\<rparr>"
  shows "amc_inv N s'"
proof -
  let ?G = "released s" and ?p = "released s mod 2"
  note rk = amc_invD(1) [OF inv] and ld = amc_invD(2) [OF inv] and nt = amc_invD(3) [OF inv]
  from nt p have "cpacket_ok N s (src, AmcDone d ph f v)" unfolding cnet_inv_def by blast
  then have ok: "d < N" "ph = ?p" "ccompleted s d \<noteq> ?G" "outcome_of (f, v) = consensus (cvote s ?G) N"
    by auto
  have keyin: "Inr d \<in># image_mset ckey (cnet s)" using p by force
  then have nodone: "\<not> amcbarrier_response_done (cbd s d) ?p"
    using nt ok(1) by (auto simp: cnet_inv_def split: if_splits dest!: spec [of _ d])
  have t: "barrier_splitstate t = barrier_splitstate (cnode s d)" "myrank t = myrank (cnode s d)"
    "barrier_data t = amc_respond ?p f v (cbd s d)"
    using op by (auto simp: gasnete_amcbarrier_done_reqh_def ok(2) split: if_splits)
  have gh: "released s' = ?G" "arrived s' = arrived s" "cnotified s' = cnotified s"
    "ccompleted s' = ccompleted s" "cwaiting s' = cwaiting s" "cballots s' = cballots s"
    by (simp_all add: s')
  have data: "cbd s' q = (if q = d then barrier_data t else cbd s q)" for q by (simp add: s')
  have "crank_inv N s' d"
    using rk [OF ok(1)] ok(3,4) unfolding crank_inv_def cactive_def gh data
    by (simp add: t(3) amc_respond_def) (simp add: s' t)
  moreover have "crank_inv N s' q" if "q < N" "q \<noteq> d" for q
    by (rule crank_frame [OF rk [OF that(1)] gh(1)]) (use that in \<open>simp_all add: s'\<close>)
  ultimately have ranks: "\<forall>q<N. crank_inv N s' q" by metis
  have "leader_inv N s'"
    using ld unfolding leader_inv_def gh data by (simp add: t(3) amc_respond_def)
  moreover have "cnet_inv N s'"
  proof -
    have keys: "image_mset ckey (cnet s') = image_mset ckey (cnet s) - {#Inr d#}"
      using p by (simp add: s' image_mset_Diff)
    have "cpacket_ok N s' q" if q: "q \<in># cnet s'" for q
    proof -
      have old: "cpacket_ok N s q" using q nt by (auto simp: cnet_inv_def s' dest: in_diffD)
      obtain x m where qm: "q = (x, m)" by (cases q)
      from old show ?thesis unfolding qm by (cases m) (simp_all add: gh)
    qed
    then show ?thesis
      using nt ok nodone unfolding cnet_inv_def gh keys data
      by (auto simp: t(3) amc_respond_def)
  qed
  ultimately show ?thesis using ranks by (simp add: amc_inv_def)
qed

section \<open>Wait\<close>

lemma cwait_begin_keeps:
  assumes inv: "amc_inv N s" and r: "r < N" and w: "cwaiting s r = None"
    and op: "gasnete_amcbarrier_wait_begin (cnode s r) = Inr t"
    and s': "s' = s\<lparr>cnode := (cnode s)(r := t), cwaiting := (cwaiting s)(r := Some b)\<rparr>"
  shows "amc_inv N s'"
proof -
  note rk = amc_invD(1) [OF inv] and eff = amc_wait_begin_effect [OF op]
  have gh: "released s' = released s" "arrived s' = arrived s" "cnotified s' = cnotified s"
    "ccompleted s' = ccompleted s" "cballots s' = cballots s" "cnet s' = cnet s"
    by (simp_all add: s')
  have data: "cbd s' q = cbd s q" for q using eff by (simp add: s')
  have "crank_inv N s' r"
    using rk [OF r] eff w unfolding crank_inv_def cactive_def gh data by (auto simp: s')
  moreover have "crank_inv N s' q" if "q < N" "q \<noteq> r" for q
    by (rule crank_frame [OF rk [OF that(1)] gh(1)]) (use that in \<open>simp_all add: s'\<close>)
  moreover have "cpacket_ok N s' = cpacket_ok N s"
    by (rule ext, rename_tac p, case_tac "(N, s, p)" rule: cpacket_ok.cases) (simp_all add: gh)
  ultimately show ?thesis
    using inv by (auto simp: amc_inv_def leader_inv_def cnet_inv_def gh data)
qed

lemma ccomplete_knows:
  assumes inv: "amc_inv N s" and r: "r < N" and act: "cactive s r" and full: "amc_complete (cnode s r)"
  shows "cnotified s r = released s" and "\<forall>q<N. cnotified s r \<le> cnotified s q"
    and "outcome_of (response_pair (cbd s r) (amcbarrier_phase (cbd s r))) =
           consensus (cvote s (cnotified s r)) N"
proof -
  note rk = amc_invD(1) [OF inv]
  have rdone: "amcbarrier_response_done (cbd s r) (cnotified s r mod 2)"
    and ph: "amcbarrier_phase (cbd s r) = cnotified s r mod 2"
    using full rk [OF r] by (simp_all add: amc_complete_def crank_inv_def)
  show n: "cnotified s r = released s" using rdone rk [OF r] by (auto simp: crank_inv_def)
  show "\<forall>q<N. cnotified s r \<le> cnotified s q" using rk n by (fastforce simp: crank_inv_def)
  show "outcome_of (response_pair (cbd s r) (amcbarrier_phase (cbd s r))) =
           consensus (cvote s (cnotified s r)) N"
    using rdone rk [OF r] n ph by (simp add: crank_inv_def)
qed

lemma cwait_end_keeps:
  assumes inv: "amc_inv N s" and r: "r < N" and w: "cwaiting s r = Some b"
    and full: "amc_complete (cnode s r)"
    and op: "gasnete_amcbarrier_wait_end (cnode s r) idv flags = (rc, t)"
    and s': "s' = s\<lparr>cnode := (cnode s)(r := t), ccompleted := (ccompleted s)(r := cnotified s r),
          cwaiting := (cwaiting s)(r := None)\<rparr>"
  shows "amc_inv N s'"
proof -
  note rk = amc_invD(1) [OF inv] and ld = amc_invD(2) [OF inv] and nt = amc_invD(3) [OF inv]
  let ?G = "released s"
  have act: "cactive s r" using rk [OF r] w by (simp add: crank_inv_def)
  note n = ccomplete_knows(1) [OF inv r act full]
  have ph: "amcbarrier_phase (cbd s r) = ?G mod 2" using rk [OF r] n by (simp add: crank_inv_def)
  have eff: "barrier_splitstate t = barrier_splitstate (cnode s r)" "myrank t = myrank (cnode s r)"
    "barrier_data t = (cbd s r)\<lparr>amcbarrier_response_done :=
       (amcbarrier_response_done (cbd s r))(?G mod 2 := False)\<rparr>"
    using op by (auto simp: gasnete_amcbarrier_wait_end_def Let_def ph)
  have was: "amcbarrier_response_done (cbd s r) (?G mod 2)" using full by (simp add: amc_complete_def ph)
  have gh: "released s' = ?G" "arrived s' = arrived s" "cnotified s' = cnotified s"
    "cballots s' = cballots s" "cnet s' = cnet s" by (simp_all add: s')
  have data: "cbd s' q = (if q = r then barrier_data t else cbd s q)" for q by (simp add: s')
  have "Suc ?G mod 2 = ccompleted s r mod 2" using n act by (simp add: cactive_def)
  then have off: "\<not> amcbarrier_response_done (cbd s r) (ccompleted s r mod 2)"
    using rk [OF r] by (simp add: crank_inv_def)
  have "crank_inv N s' r"
    using off rk [OF r] w n eff(1,2) unfolding crank_inv_def cactive_def gh data
    by (simp add: eff(3)) (simp add: s')
  moreover have "crank_inv N s' q" if "q < N" "q \<noteq> r" for q
    by (rule crank_frame [OF rk [OF that(1)] gh(1)]) (use that in \<open>simp_all add: s'\<close>)
  ultimately have ranks: "\<forall>q<N. crank_inv N s' q" by metis
  moreover have "leader_inv N s'"
    using ld unfolding leader_inv_def gh data by (simp add: eff(3))
  moreover have "cnet_inv N s'"
  proof -
    have zero: "count (image_mset ckey (cnet s)) (Inr r) = 0"
      using nt r was unfolding cnet_inv_def by simp
    have "cpacket_ok N s' q" if q: "q \<in># cnet s" for q
    proof -
      have old: "cpacket_ok N s q" using q nt unfolding cnet_inv_def by blast
      obtain x m where qm: "q = (x, m)" by (cases q)
      show ?thesis
      proof (cases m)
        case (AmcNotify d' ph' v' f')
        with old show ?thesis by (simp add: qm gh)
      next
        case (AmcDone d' ph' f' v')
        have "d' \<noteq> r"
        proof
          assume "d' = r"
          then have "Inr r \<in># image_mset ckey (cnet s)" using q qm AmcDone by force
          with zero show False unfolding count_eq_zero_iff by blast
        qed
        with old show ?thesis by (simp add: qm AmcDone gh) (simp add: s')
      qed
    qed
    moreover have "count (image_mset ckey (cnet s)) (Inr q) =
        (if ccompleted s' q \<noteq> ?G \<and> \<not> amcbarrier_response_done (cbd s' q) (?G mod 2) then 1 else 0)"
      if "q < N" for q
    proof (cases "q = r")
      case True
      with zero n show ?thesis by (simp add: s')
    next
      case False
      with nt that show ?thesis unfolding cnet_inv_def data by (simp add: s')
    qed
    ultimately show ?thesis using nt unfolding cnet_inv_def gh by blast
  qed
  ultimately show ?thesis by (simp add: amc_inv_def)
qed

section \<open>Every reachable state\<close>

lemma amc_step_inv: "amc_step N s ev t \<Longrightarrow> 1 < N \<Longrightarrow> amc_inv N s \<Longrightarrow> amc_inv N t"
proof (induction rule: amc_step.induct)
  case (amc_notify r s idv flags t ms e)
  then show ?case using cnotify_keeps(1) [OF _ _ _ _ _ _ refl] by blast
next
  case (amc_kick r s t ms)
  then show ?case using ckick_keeps [OF _ _ _ _ refl] by blast
next
  case (amc_deliver_notify src d p v f s t)
  then show ?case using cdeliver_notify_keeps [OF _ _ _ _ refl] by blast
next
  case (amc_deliver_done src d p f v s t)
  then show ?case using cdeliver_done_keeps [OF _ _ _ refl] by blast
next
  case (amc_wait_begin r s t b)
  then show ?case using cwait_begin_keeps [OF _ _ _ _ refl] by blast
next
  case (amc_wait_end r s flags idv rc t b)
  then show ?case using cwait_end_keeps [OF _ _ _ _ _ refl] by blast
qed

lemma amc_reach_inv: "reach (amc_init N) (amc_step N) s \<Longrightarrow> 1 < N \<Longrightarrow> amc_inv N s"
  by (induction rule: reach.induct) (blast intro: amc_init_inv amc_step_inv)+

end
