(* ===== verification/Amc_Properties.thy ===== *)
theory Amc_Properties
  imports Amc_Safety
begin

text \<open>
  The centralised barrier implements the abstract barrier of \<open>Barrier_Spec\<close>, never fails an
  assertion and never gets stuck.
\<close>

section \<open>Simulation\<close>

definition amc_abs :: "amc_sys \<Rightarrow> bar" where
  "amc_abs s = \<lparr>entered = cnotified s, left = ccompleted s, votes = cvote s\<rparr>"

lemma amc_abs_start: "amc_abs (amc_init N) = bar_init"
  by (simp add: amc_abs_def amc_init_def bar_init_def fun_eq_iff bot_outcome_def)

lemma amc_simulates:
  assumes step: "amc_step N s ev t" and inv: "amc_inv N s" and N: "1 < N"
  shows "bar_step N (amc_abs s) ev (amc_abs t)"
  using step
proof cases
  case (amc_notify r idv flags u ms e)
  have "ccompleted s r = cnotified s r"
    by (rule cnotify_keeps(2) [OF inv N amc_notify(3,4,5,6) refl])
  then have "bar_step N (amc_abs s) (Enter r (outcome_of (flags, idv)))
      (bar_enter r (outcome_of (flags, idv)) (amc_abs s))"
    using amc_notify(3) by (intro bar_enter) (simp_all add: amc_abs_def)
  also have "bar_enter r (outcome_of (flags, idv)) (amc_abs s) = amc_abs t"
    by (simp add: amc_notify(2,6) amc_abs_def bar_enter_def Let_def cpost_def fun_eq_iff)
  finally show ?thesis by (simp add: amc_notify(1))
next
  case (amc_kick r u ms)
  then show ?thesis by (simp add: amc_abs_def cpost_def bar_internal)
next
  case (amc_deliver_notify src d p v f u)
  then show ?thesis by (simp add: amc_abs_def bar_internal)
next
  case (amc_deliver_done src d p f v u)
  then show ?thesis by (simp add: amc_abs_def bar_internal)
next
  case (amc_wait_begin r u b)
  then show ?thesis by (simp add: amc_abs_def bar_internal)
next
  case (amc_wait_end r flags idv rc u b)
  have act: "cactive s r" using amc_invD(1) [OF inv amc_wait_end(3)] amc_wait_end(4)
    by (simp add: crank_inv_def)
  note know = ccomplete_knows [OF inv amc_wait_end(3) act amc_wait_end(5)]
  have "bar_step N (amc_abs s) (Leave r (outcome_of b)) (bar_leave r (amc_abs s))"
    using amc_wait_end(3) know(2,3) act
    by (intro bar_leave) (simp_all add: amc_abs_def cactive_def amc_wait_end(7))
  also have "bar_leave r (amc_abs s) = amc_abs t"
    by (simp add: amc_wait_end(2) amc_abs_def bar_leave_def)
  finally show ?thesis by (simp add: amc_wait_end(1))
qed

lemma amc_refines_step:
  "reach (amc_init (n + 2)) (amc_step (n + 2)) s \<Longrightarrow> amc_step (n + 2) s ev t \<Longrightarrow>
   bar_step (n + 2) (amc_abs s) ev (amc_abs t)"
  by (rule amc_simulates [OF _ amc_reach_inv]) simp_all

interpretation amc: split_barrier "n + 2" "amc_init (n + 2)" "amc_step (n + 2)" amc_abs for n
  by unfold_locales (rule amc_abs_start, rule amc_refines_step)

section \<open>Progress\<close>

definition amc_work :: "nat \<Rightarrow> amc_sys \<Rightarrow> nat" where
  "amc_work N s = size (cnet s) + 2 * (\<Sum>r<N. cnotified s r - released s)"

definition cquiet :: "nat \<Rightarrow> amc_sys \<Rightarrow> bool" where
  "cquiet N s \<longleftrightarrow> cnet s = {#} \<and> (\<forall>r<N. snd (gasnete_amcbarrier_kick (cnode s r)) = [])"

lemma chandler_accepts:
  assumes inv: "amc_inv N s" and p: "(src, m) \<in># cnet s"
  shows "case m of
      AmcNotify d ph v f \<Rightarrow> \<exists>t. gasnete_amcbarrier_notify_reqh (cnode s d) ph v f = Inr t
    | AmcDone d ph f v \<Rightarrow> \<exists>t. gasnete_amcbarrier_done_reqh (cnode s d) ph f v = Inr t"
proof -
  note rk = amc_invD(1) [OF inv]
  have ok: "cpacket_ok N s (src, m)" using p inv unfolding amc_inv_def cnet_inv_def by blast
  show ?thesis
  proof (cases m)
    case (AmcNotify d ph v f)
    with ok have "d = 0" "0 < N" by auto
    with rk [of 0] show ?thesis
      by (simp add: AmcNotify gasnete_amcbarrier_notify_reqh_def Let_def crank_inv_def split_def)
  next
    case (AmcDone d ph f v)
    with ok have "d < N" "ccompleted s d \<noteq> released s" "ph = released s mod 2" by auto
    with rk [of d] show ?thesis
      by (auto simp: AmcDone gasnete_amcbarrier_done_reqh_def crank_inv_def)
  qed
qed

lemma size_take_out: "x \<in># M \<Longrightarrow> size (M - {#x#}) < size M"
  by (metis insert_DiffM lessI size_add_mset)

lemma release_work:
  assumes inv: "amc_inv N s" and N: "1 < N" and r: "r < N"
    and op: "gasnete_amcbarrier_kick (cnode s r) = (t, ms)" and ms: "ms \<noteq> []"
  shows "amc_work N ((cpost r t ms s)\<lparr>released := Suc (released s), arrived := A\<rparr>) < amc_work N s"
  using op
proof (cases rule: amc_kick_effect)
  case still
  with ms show ?thesis by simp
next
  case release
  note rk = amc_invD(1) [OF inv] and ld = amc_invD(2) [OF inv]
  have r0: "r = 0" and len: "length ms = N"
    using rk [OF r] release(1,6) by (simp_all add: crank_inv_def Let_def)
  have full: "amcbarrier_count (cbd s 0) (cnotified s 0 mod 2) = N"
    using rk [OF r] release(2) by (simp add: r0 crank_inv_def)
  then have "card (arrived s) = N"
    using rk [OF r] ld N by (auto simp: r0 crank_inv_def leader_inv_def)
  moreover have "arrived s \<subseteq> {..<N}" using ld by (auto simp: leader_inv_def)
  ultimately have "arrived s = {..<N}" by (intro card_subset_eq) auto
  then have n: "cnotified s q = Suc (released s)" if "q < N" for q using ld that by (auto simp: leader_inv_def)
  have "(\<Sum>q<N. cnotified s q - released s) = N" "(\<Sum>q<N. cnotified s q - Suc (released s)) = 0"
    using n by simp_all
  with len N show ?thesis by (simp add: amc_work_def cpost_def)
qed

lemma amc_progress:
  assumes "reach (amc_init N) (amc_step N) s" and N: "1 < N" and nq: "\<not> cquiet N s"
  shows "\<exists>t. amc_step N s Internal t \<and> amc_work N t < amc_work N s \<and>
    (cnotified t, ccompleted t, cwaiting t) = (cnotified s, ccompleted s, cwaiting s)"
proof -
  have inv: "amc_inv N s" using assms(1) N by (rule amc_reach_inv)
  from nq consider src m where "(src, m) \<in># cnet s"
    | r where "r < N" "snd (gasnete_amcbarrier_kick (cnode s r)) \<noteq> []"
    by (auto simp: cquiet_def)
  then show ?thesis
  proof cases
    case (1 src m)
    note acc = chandler_accepts [OF inv 1] and smaller = size_take_out [OF 1]
    show ?thesis
    proof (cases m)
      case (AmcNotify d ph v f)
      with acc obtain t where "gasnete_amcbarrier_notify_reqh (cnode s d) ph v f = Inr t" by auto
      from amc_deliver_notify [OF 1 [unfolded AmcNotify] this] smaller show ?thesis
        unfolding AmcNotify by - (rule exI, intro conjI, assumption, simp_all add: amc_work_def)
    next
      case (AmcDone d ph f v)
      with acc obtain t where "gasnete_amcbarrier_done_reqh (cnode s d) ph f v = Inr t" by auto
      from amc_deliver_done [OF 1 [unfolded AmcDone] this] smaller show ?thesis
        unfolding AmcDone by - (rule exI, intro conjI, assumption, simp_all add: amc_work_def)
    qed
  next
    case (2 r)
    obtain t ms where op: "gasnete_amcbarrier_kick (cnode s r) = (t, ms)"
      by (cases "gasnete_amcbarrier_kick (cnode s r)")
    have ms: "ms \<noteq> []" using 2(2) op by simp
    from amc_kick [OF 2(1) op] release_work [OF inv N 2(1) op ms] ms show ?thesis
      by - (rule exI, intro conjI, assumption, simp_all add: cpost_def)
  qed
qed

interpretation amc_rest: settling "amc_init (n + 2)" "amc_step (n + 2)" "amc_work (n + 2)"
    "cquiet (n + 2)" "\<lambda>s. (cnotified s, ccompleted s, cwaiting s)" for n
  by unfold_locales (use amc_progress in \<open>force intro: run_single\<close>)

lemma cquiet_complete:
  assumes inv: "amc_inv N s" and q: "cquiet N s" and N: "1 < N" and r: "r < N" and act: "cactive s r"
    and all: "\<forall>q<N. cnotified s r \<le> cnotified s q"
  shows "amc_complete (cnode s r)"
proof -
  note rk = amc_invD(1) [OF inv] and ld = amc_invD(2) [OF inv] and nt = amc_invD(3) [OF inv]
  have empty: "cnet s = {#}" using q by (simp add: cquiet_def)
  show ?thesis
  proof (cases "cnotified s r = Suc (released s)")
    case True
    have N0: "0 < N" using N by simp
    have n: "cnotified s x = Suc (released s)" if "x < N" for x
      using rk [OF that] all [rule_format, OF that] True by (auto simp: crank_inv_def)
    then have "x \<in> arrived s" if "x < N" for x
      using nt that unfolding cnet_inv_def empty by (auto split: if_splits)
    then have "arrived s = {..<N}" using ld by (auto simp: leader_inv_def)
    then have "amcbarrier_count (cbd s 0) (amcbarrier_phase (cbd s 0)) = N"
      using ld rk [OF N0] n [OF N0] by (simp add: leader_inv_def crank_inv_def)
    then have "snd (gasnete_amcbarrier_kick (cnode s 0)) \<noteq> []"
      using rk [OF N0] N0 by (simp add: gasnete_amcbarrier_kick_def Let_def crank_inv_def)
    with q N0 show ?thesis by (simp add: cquiet_def)
  next
    case False
    with rk [OF r] act have n: "cnotified s r = released s" "ccompleted s r \<noteq> released s"
      by (auto simp: crank_inv_def cactive_def)
    with nt r have "amcbarrier_response_done (cbd s r) (released s mod 2)"
      unfolding cnet_inv_def empty by (auto split: if_splits)
    then show ?thesis using rk [OF r] n by (simp add: amc_complete_def crank_inv_def)
  qed
qed

section \<open>A scheduler\<close>

datatype amc_action = CNotify nat u32 u32 | CKick nat | CDeliver "nat \<times> amc_msg"
  | CWaitBegin nat ballot | CWaitEnd nat

fun amc_do :: "nat \<Rightarrow> amc_action \<Rightarrow> amc_sys \<Rightarrow> (bar_event \<times> amc_sys) option" where
  "amc_do N (CNotify r idv flags) s =
     (if r < N \<and> cwaiting s r = None
      then case gasnete_amcbarrier_notify (cnode s r) idv flags of Inl _ \<Rightarrow> None
        | Inr (t, ms) \<Rightarrow> let e = Suc (cnotified s r) in
            Some (Enter r (outcome_of (flags, idv)),
              (cpost r t ms s)\<lparr>cnotified := (cnotified s)(r := e),
                 cballots := (cballots s)(e := (cballots s e)(r := (flags, idv)))\<rparr>)
      else None)"
| "amc_do N (CKick r) s =
     (if r < N then let (t, ms) = gasnete_amcbarrier_kick (cnode s r) in
        Some (Internal, (cpost r t ms s)
          \<lparr>released := (if ms = [] then released s else Suc (released s)),
           arrived := (if ms = [] then arrived s else {})\<rparr>)
      else None)"
| "amc_do N (CDeliver (src, AmcNotify d p v f)) s =
     (if (src, AmcNotify d p v f) \<in># cnet s
      then case gasnete_amcbarrier_notify_reqh (cnode s d) p v f of Inl _ \<Rightarrow> None
        | Inr t \<Rightarrow> Some (Internal, s\<lparr>cnode := (cnode s)(d := t),
            cnet := cnet s - {#(src, AmcNotify d p v f)#}, arrived := insert src (arrived s)\<rparr>)
      else None)"
| "amc_do N (CDeliver (src, AmcDone d p f v)) s =
     (if (src, AmcDone d p f v) \<in># cnet s
      then case gasnete_amcbarrier_done_reqh (cnode s d) p f v of Inl _ \<Rightarrow> None
        | Inr t \<Rightarrow> Some (Internal, s\<lparr>cnode := (cnode s)(d := t),
            cnet := cnet s - {#(src, AmcDone d p f v)#}\<rparr>)
      else None)"
| "amc_do N (CWaitBegin r b) s =
     (if r < N \<and> cwaiting s r = None
      then case gasnete_amcbarrier_wait_begin (cnode s r) of Inl _ \<Rightarrow> None
        | Inr t \<Rightarrow> Some (Internal, s\<lparr>cnode := (cnode s)(r := t), cwaiting := (cwaiting s)(r := Some b)\<rparr>)
      else None)"
| "amc_do N (CWaitEnd r) s =
     (case cwaiting s r of None \<Rightarrow> None
      | Some (flags, idv) \<Rightarrow>
          if r < N \<and> amc_complete (cnode s r)
          then let (rc, t) = gasnete_amcbarrier_wait_end (cnode s r) idv flags in
            Some (Leave r (outcome_of (response_pair (cbd s r) (amcbarrier_phase (cbd s r)))),
              s\<lparr>cnode := (cnode s)(r := t), ccompleted := (ccompleted s)(r := cnotified s r),
                cwaiting := (cwaiting s)(r := None)\<rparr>)
          else None)"

primrec amc_exec :: "nat \<Rightarrow> amc_action list \<Rightarrow> amc_sys \<Rightarrow> amc_sys option" where
  "amc_exec N [] s = Some s"
| "amc_exec N (a # as) s = (case amc_do N a s of None \<Rightarrow> None | Some (ev, t) \<Rightarrow> amc_exec N as t)"

lemma amc_kick_still:
  "r < N \<Longrightarrow> gasnete_amcbarrier_kick (cnode s r) = (t, []) \<Longrightarrow>
   amc_step N s Internal ((cpost r t [] s)\<lparr>released := released s, arrived := arrived s\<rparr>)"
  using amc_kick [of r N s t "[]"] by simp

lemma amc_kick_release:
  "r < N \<Longrightarrow> gasnete_amcbarrier_kick (cnode s r) = (t, ms) \<Longrightarrow> ms \<noteq> [] \<Longrightarrow>
   amc_step N s Internal ((cpost r t ms s)\<lparr>released := Suc (released s), arrived := {}\<rparr>)"
  using amc_kick [of r N s t ms] by simp

lemma amc_do_step: "amc_do N a s = Some (ev, t) \<Longrightarrow> amc_step N s ev t"
  by (induction N a s rule: amc_do.induct)
     (auto split: if_splits sum.splits option.splits prod.splits simp: Let_def
        intro: amc_notify [OF _ _ _ refl] amc_deliver_notify amc_deliver_done amc_wait_begin
          amc_wait_end [OF _ _ _ _ refl] amc_kick_still amc_kick_release)

lemma amc_exec_reach:
  "amc_exec N as s = Some t \<Longrightarrow> reach (amc_init N) (amc_step N) s \<Longrightarrow> reach (amc_init N) (amc_step N) t"
  by (induction as arbitrary: s)
     (auto split: option.splits prod.splits dest!: amc_do_step intro: reach_step)

lemma amc_exec_init: "amc_exec N as (amc_init N) = Some t \<Longrightarrow> reach (amc_init N) (amc_step N) t"
  by (rule amc_exec_reach) (auto intro: reach_start)

text \<open>Two ranks enter: rank 0 without a name, rank 1 with the name 5; rank 1 then waits.\<close>

definition cdemo_enter :: "amc_action list" where
  "cdemo_enter = [CNotify 0 0 1, CNotify 1 5 0]"

definition cdemo_wait :: "amc_action list" where
  "cdemo_wait = cdemo_enter @ [CDeliver (0, AmcNotify 0 1 0 1), CDeliver (1, AmcNotify 0 1 5 0),
     CKick 0, CDeliver (0, AmcDone 1 1 0 5), CWaitBegin 1 (0, 5)]"

lemma cdemo_enter_runs:
  "case amc_exec 2 cdemo_enter (amc_init 2) of None \<Rightarrow> False
   | Some s \<Rightarrow> (1, AmcNotify 0 1 5 0) \<in># cnet s \<and> cnotified s 0 = 1 \<and> cnotified s 1 = 1 \<and>
       ccompleted s 1 = 0"
  by code_simp

lemma cdemo_wait_runs:
  "case amc_exec 2 cdemo_wait (amc_init 2) of None \<Rightarrow> False
   | Some s \<Rightarrow> cwaiting s 1 = Some (0, 5) \<and> amc_complete (cnode s 1) \<and>
       cnotified s 1 = 1 \<and> cballots s 1 0 = (1, 0) \<and> cballots s 1 1 = (0, 5)"
  by code_simp

section \<open>Properties\<close>

text \<open>
  C4. The centralised barrier implements the abstract split-phase barrier: every step of every
  reachable state is a step of the abstract machine. So a rank leaves its \<open>e\<close>-th barrier only after
  every rank has entered its \<open>e\<close>-th, and with the consensus of all names.
\<close>

theorem amc_refines_barrier:
  assumes "reach (amc_init N) (amc_step N) s" and "1 < N" and "amc_step N s ev t"
  shows "bar_step N (amc_abs s) ev (amc_abs t)"
  by (rule amc_simulates [OF assms(3) amc_reach_inv [OF assms(1,2)] assms(2)])

theorem amc_refines_barrier_witness:
  "case amc_exec 2 cdemo_wait (amc_init 2) of None \<Rightarrow> False
   | Some s \<Rightarrow> \<exists>v t. amc_step 2 s (Leave 1 v) t \<and> bar_step 2 (amc_abs s) (Leave 1 v) (amc_abs t)"
proof -
  obtain s where s: "amc_exec 2 cdemo_wait (amc_init 2) = Some s"
    and w: "cwaiting s 1 = Some (0, 5)" "amc_complete (cnode s 1)"
    using cdemo_wait_runs by (auto split: option.splits)
  obtain ev t where "amc_do 2 (CWaitEnd 1) s = Some (ev, t) \<and> (\<exists>v. ev = Leave 1 v)"
    using w by (simp add: split_def)
  then obtain v where st: "amc_step 2 s (Leave 1 v) t" using amc_do_step by blast
  from amc_refines_barrier [OF amc_exec_init [OF s] _ st] st s show ?thesis by auto
qed

lemma amc_wait_code:
  assumes "reach (amc_init N) (amc_step N) s" and "1 < N" and "r < N"
    and "cwaiting s r = Some (flags, idv)" and "amc_complete (cnode s r)"
  shows "fst (gasnete_amcbarrier_wait_end (cnode s r) idv flags) =
     outcome_verdict (consensus (\<lambda>q. outcome_of (cballots s (cnotified s r) q)) N) (flags, idv)"
proof -
  note inv = amc_reach_inv [OF assms(1,2)]
  have act: "cactive s r" using amc_invD(1) [OF inv assms(3)] assms(4) by (simp add: crank_inv_def)
  show ?thesis
    using ccomplete_knows(3) [OF inv assms(3) act assms(5)]
    by (simp add: gasnete_amcbarrier_wait_end_def Let_def barrier_verdict_outcome)
qed

text \<open>
  The return code of a completed wait of the centralised barrier is decided by the consensus of
  all ranks' notifies.
\<close>

theorem amc_wait_reports_consensus:
  assumes "reach (amc_init N) (amc_step N) s" and "1 < N" and "r < N"
    and "cwaiting s r = Some (flags, idv)" and "amc_complete (cnode s r)"
  shows "fst (gasnete_amcbarrier_wait_end (cnode s r) idv flags) =
     outcome_verdict (consensus (\<lambda>q. outcome_of (cballots s (cnotified s r) q)) N) (flags, idv)"
  using assms by (rule amc_wait_code)

theorem amc_wait_reports_consensus_witness:
  "case amc_exec 2 cdemo_wait (amc_init 2) of None \<Rightarrow> False
   | Some s \<Rightarrow> fst (gasnete_amcbarrier_wait_end (cnode s 1) 5 0) = GASNET_OK"
proof -
  obtain s where s: "amc_exec 2 cdemo_wait (amc_init 2) = Some s"
    and w: "cwaiting s 1 = Some (0, 5)" "amc_complete (cnode s 1)"
    and b: "cnotified s 1 = 1" "cballots s 1 0 = (1, 0)" "cballots s 1 1 = (0, 5)"
    using cdemo_wait_runs by (auto split: option.splits)
  have "outcome_of (1, 0) = OAnon"
    by (simp add: outcome_of_def c_and_def GASNET_BARRIERFLAG_ANONYMOUS_def GASNET_BARRIERFLAG_MISMATCH_def)
  then have "consensus (\<lambda>q. outcome_of (cballots s (cnotified s 1) q)) 2 = ONamed 5"
    using b by (simp add: numeral_2_eq_2) (simp add: outcome_of_def)
  with amc_wait_reports_consensus [OF amc_exec_init [OF s] _ _ w] s show ?thesis by simp
qed

text \<open>
  The assertions of both request handlers hold: a notify request only reaches the leader, and a
  done request finds its receiver in the phase it answers.
\<close>

theorem amc_handlers_never_assert:
  assumes "reach (amc_init N) (amc_step N) s" and "1 < N" and "(src, m) \<in># cnet s"
  shows "case m of
      AmcNotify d ph v f \<Rightarrow> \<exists>t. gasnete_amcbarrier_notify_reqh (cnode s d) ph v f = Inr t
    | AmcDone d ph f v \<Rightarrow> \<exists>t. gasnete_amcbarrier_done_reqh (cnode s d) ph f v = Inr t"
  by (rule chandler_accepts [OF amc_reach_inv [OF assms(1,2)] assms(3)])

theorem amc_handlers_never_assert_witness:
  "case amc_exec 2 cdemo_enter (amc_init 2) of None \<Rightarrow> False
   | Some s \<Rightarrow> \<exists>t. gasnete_amcbarrier_notify_reqh (cnode s 0) 1 5 0 = Inr t"
proof -
  obtain s where s: "amc_exec 2 cdemo_enter (amc_init 2) = Some s" and p: "(1, AmcNotify 0 1 5 0) \<in># cnet s"
    using cdemo_enter_runs by (auto split: option.splits)
  from amc_handlers_never_assert [OF amc_exec_init [OF s] _ p] s show ?thesis by simp
qed

text \<open>
  C5. The centralised barrier cannot get stuck: once every rank has notified the barrier a rank is in,
  deliveries and kicks alone lead to a state in which its wait can complete.
\<close>

theorem amc_barrier_completes:
  assumes "reach (amc_init N) (amc_step N) s" and "1 < N" and "r < N"
    and "cnotified s r = Suc (ccompleted s r)" and "\<forall>q<N. cnotified s r \<le> cnotified s q"
  shows "\<exists>es t. run (amc_step N) s es t \<and> set es \<subseteq> {Internal} \<and> cnotified t = cnotified s \<and>
           cwaiting t = cwaiting s \<and> amc_complete (cnode t r)"
proof -
  obtain n where "N = n + 2" using two_plus [OF assms(2)] ..
  with assms(1) amc_rest.settles [of n s] obtain es t where
    t: "run (amc_step N) s es t" "set es \<subseteq> {Internal}" "cnotified t = cnotified s"
       "ccompleted t = ccompleted s" "cwaiting t = cwaiting s" and q: "cquiet N t"
    by auto
  have inv: "amc_inv N t" using run_reach [OF t(1) assms(1)] assms(2) by (rule amc_reach_inv)
  have "cactive t r" using assms(4) t(3,4) by (simp add: cactive_def)
  then have "amc_complete (cnode t r)"
    using cquiet_complete [OF inv q assms(2,3)] t(3) assms(5) by simp
  with t show ?thesis by blast
qed

theorem amc_barrier_completes_witness:
  "case amc_exec 2 cdemo_enter (amc_init 2) of None \<Rightarrow> False
   | Some s \<Rightarrow> \<exists>es t. run (amc_step 2) s es t \<and> amc_complete (cnode t 1)"
proof -
  obtain s where s: "amc_exec 2 cdemo_enter (amc_init 2) = Some s"
    and n: "cnotified s 0 = 1" "cnotified s 1 = 1" "ccompleted s 1 = 0"
    using cdemo_enter_runs by (auto split: option.splits)
  have "\<forall>q<2. cnotified s 1 \<le> cnotified s q"
    using n by (auto simp: less_2_cases_iff)
  with amc_barrier_completes [OF amc_exec_init [OF s], of 1] n s show ?thesis by auto
qed

end
