(* ===== verification/Rmd_Barrier.thy ===== *)
theory Rmd_Barrier
  imports Barrier_Match Team_Base
begin

text \<open>
  The RDMA dissemination barrier (\<open>rmdbarrier\<close>) of
  \<^verbatim>\<open>extended-ref/gasnet_extended_refbarrier.c\<close>, one rank, in a debug build without the
  shared-memory stage. Ranks signal each other by writing into inboxes, an array indexed by step
  and by one of four phases; the kick polls them. The puts an operation issues are returned as a
  list; \<open>Rmd_System\<close> performs their writes, in pieces and in any order.
\<close>

section \<open>State\<close>

definition GASNETE_RMD_PHASES :: nat where
  "GASNETE_RMD_PHASES = 4"

definition GASNETE_RMD_ONE_STEP :: nat where
  "GASNETE_RMD_ONE_STEP = GASNETE_RMD_PHASES"

record rmd_inbox =
  ib_flags :: u32
  ib_value :: u32
  ib_value2 :: u32
  ib_flags2 :: u32

text \<open>
  The state is a step, counted from 1, times the number of phases, plus the phase. The inboxes are
  indexed by the state less one step; entry 0 of the peers is never used.
\<close>

record rmdbarrier =
  rmd_state :: nat
  rmd_value :: u32
  rmd_flags :: u32
  rmd_peers :: "nat list"
  rmd_size :: nat
  rmd_goal :: nat
  rmd_inboxes :: "nat \<Rightarrow> rmd_inbox"

type_synonym rmd_team = "rmdbarrier coll_team"

record rmd_put =
  put_dst :: nat
  put_slot :: nat
  put_payload :: rmd_inbox

definition empty_inbox :: rmd_inbox where
  "empty_inbox = \<lparr>ib_flags = 0, ib_value = 0, ib_value2 = 0, ib_flags2 = 0\<rparr>"

section \<open>Sending\<close>

definition rmd_payload :: "u32 \<Rightarrow> u32 \<Rightarrow> rmd_inbox" where
  "rmd_payload value flags =
     \<lparr>ib_flags = flags, ib_value = value, ib_value2 = NOT value, ib_flags2 = NOT flags\<rparr>"

definition gasnete_rmdbarrier_send :: "rmdbarrier \<Rightarrow> nat \<Rightarrow> nat \<Rightarrow> u32 \<Rightarrow> u32 \<Rightarrow> rmd_put list" where
  "gasnete_rmdbarrier_send bd numsteps state value flags =
     (let step = state div GASNETE_RMD_PHASES in
      map (\<lambda>i. \<lparr>put_dst = rmd_peers bd ! (step + i),
                put_slot = state + i * GASNETE_RMD_ONE_STEP - GASNETE_RMD_ONE_STEP,
                put_payload = rmd_payload value flags\<rparr>) [0..<numsteps])"

section \<open>Progress: poll and kick\<close>

definition gasnete_rmdbarrier_poll :: "rmd_inbox \<Rightarrow> bool" where
  "gasnete_rmdbarrier_poll inbox \<longleftrightarrow>
     ib_value inbox = NOT (ib_value2 inbox) \<and> ib_flags inbox = NOT (ib_flags2 inbox)"

text \<open>The loop: it consumes arrived steps and resets the inboxes two phases away.\<close>

function rmd_take ::
  "(nat \<Rightarrow> rmd_inbox) \<Rightarrow> nat \<Rightarrow> nat \<Rightarrow> nat \<Rightarrow> ballot \<Rightarrow> (nat \<Rightarrow> rmd_inbox) \<times> nat \<times> ballot" where
  "rmd_take boxes goal new_state alt acc =
     (let inbox = boxes (new_state - GASNETE_RMD_ONE_STEP) in
      if new_state < goal \<and> gasnete_rmdbarrier_poll inbox
      then rmd_take (boxes(alt - GASNETE_RMD_ONE_STEP := empty_inbox)) goal
             (new_state + GASNETE_RMD_ONE_STEP) (alt + GASNETE_RMD_ONE_STEP)
             (barrier_match acc (ib_flags inbox, ib_value inbox))
      else (boxes, new_state, acc))"
  by pat_completeness auto
termination
  by (relation "measure (\<lambda>(b, g, n, a, c). g - n)")
     (auto simp: GASNETE_RMD_ONE_STEP_def GASNETE_RMD_PHASES_def)

declare rmd_take.simps [simp del]

definition gasnete_rmdbarrier_kick :: "rmd_team \<Rightarrow> barrier_error + rmd_team \<times> rmd_put list" where
  "gasnete_rmdbarrier_kick team =
     (let bd = barrier_data team; state = rmd_state bd in
      if state \<ge> rmd_goal bd then Inr (team, [])
      else if \<not> total_ranks team > 1 then Inl AssertFailed
      else if state < GASNETE_RMD_ONE_STEP then Inl OutOfBounds
      else
        let alt_state = state - state mod GASNETE_RMD_PHASES + (state + 2) mod GASNETE_RMD_PHASES;
            (boxes, new_state, (flags, value)) =
               rmd_take (rmd_inboxes bd) (rmd_goal bd) state alt_state (rmd_flags bd, rmd_value bd);
            numsteps = (new_state - state) div GASNETE_RMD_ONE_STEP
        in
          if numsteps = 0 then Inr (team\<lparr>barrier_data := bd\<lparr>rmd_inboxes := boxes\<rparr>\<rparr>, [])
          else
            let last = (new_state \<ge> rmd_goal bd);
                bd' = bd\<lparr>rmd_inboxes := boxes, rmd_flags := flags, rmd_value := value,
                         rmd_state := new_state\<rparr>;
                team' = (if last then gasnete_barrier_pf_disable team else team)\<lparr>barrier_data := bd'\<rparr>
            in Inr (team', gasnete_rmdbarrier_send bd' (if last then numsteps - 1 else numsteps)
                             (state + GASNETE_RMD_ONE_STEP) value flags))"

section \<open>Notify\<close>

definition gasnete_rmdbarrier_notify ::
  "rmd_team \<Rightarrow> u32 \<Rightarrow> u32 \<Rightarrow> barrier_error + rmd_team \<times> rmd_put list" where
  "gasnete_rmdbarrier_notify team idv flags =
     (let next_phase = (rmd_state (barrier_data team) + 1) mod GASNETE_RMD_PHASES;
          state = GASNETE_RMD_ONE_STEP + next_phase in
      case splitstate_notify_enter team of Inl e \<Rightarrow> Inl e | Inr team1 \<Rightarrow>
        let bd = (barrier_data team1)\<lparr>rmd_value := idv, rmd_flags := flags, rmd_state := state\<rparr>
        in Inr (gasnete_barrier_pf_enable (team1\<lparr>barrier_data := bd\<rparr>),
                gasnete_rmdbarrier_send bd 1 state idv flags))"

definition gasnete_rmdbarrier_notify_singleton ::
  "rmd_team \<Rightarrow> u32 \<Rightarrow> u32 \<Rightarrow> barrier_error + rmd_team" where
  "gasnete_rmdbarrier_notify_singleton team idv flags =
     (case splitstate_notify_enter team of Inl e \<Rightarrow> Inl e | Inr team1 \<Rightarrow>
        Inr (team1\<lparr>barrier_data := (barrier_data team1)\<lparr>rmd_value := idv, rmd_flags := flags\<rparr>\<rparr>))"

section \<open>Wait, try and result\<close>

text \<open>The wait in two parts, around its loop of polls and kicks.\<close>

definition rmd_complete :: "rmd_team \<Rightarrow> bool" where
  "rmd_complete team \<longleftrightarrow> rmd_state (barrier_data team) \<ge> rmd_goal (barrier_data team)"

definition gasnete_rmdbarrier_wait_begin :: "rmd_team \<Rightarrow> barrier_error + rmd_team" where
  "gasnete_rmdbarrier_wait_begin team = splitstate_wait_leave team"

definition gasnete_rmdbarrier_wait_end :: "rmd_team \<Rightarrow> u32 \<Rightarrow> u32 \<Rightarrow> barrier_rc" where
  "gasnete_rmdbarrier_wait_end team idv flags =
     barrier_verdict (rmd_flags (barrier_data team), rmd_value (barrier_data team)) flags idv"

definition gasnete_rmdbarrier_try ::
  "rmd_team \<Rightarrow> u32 \<Rightarrow> u32 \<Rightarrow> barrier_error + barrier_rc \<times> rmd_team \<times> rmd_put list" where
  "gasnete_rmdbarrier_try team idv flags =
     (if barrier_splitstate team = OUTSIDE_BARRIER then Inl TryWithoutNotify
      else case gasnete_rmdbarrier_kick team of Inl e \<Rightarrow> Inl e | Inr (team1, puts) \<Rightarrow>
        if rmd_complete team1 then
          (case gasnete_rmdbarrier_wait_begin team1 of Inl e \<Rightarrow> Inl e | Inr team2 \<Rightarrow>
             Inr (gasnete_rmdbarrier_wait_end team2 idv flags, team2, puts))
        else Inr (GASNET_ERR_NOT_READY, team1, puts))"

definition gasnete_rmdbarrier_result :: "rmd_team \<Rightarrow> barrier_error + u32 \<times> bool" where
  "gasnete_rmdbarrier_result team =
     (if barrier_splitstate team = INSIDE_BARRIER then Inl ResultInside
      else Inr (rmd_value (barrier_data team), anon (rmd_flags (barrier_data team))))"

section \<open>Initialisation\<close>

text \<open>The auxiliary segment that holds the inboxes is zero-filled, as freshly mapped memory is.\<close>

definition gasnete_rmdbarrier_init :: "nat \<Rightarrow> nat \<Rightarrow> nat \<Rightarrow> peer_list \<Rightarrow> barrier_error + rmd_team" where
  "gasnete_rmdbarrier_init tid rank nranks pl =
     (if tid \<noteq> 0 then Inl AssertFailed
      else let steps = peer_num pl; goal = (1 + steps) * GASNETE_RMD_PHASES in
        Inr \<lparr>team_id = tid, myrank = rank, total_ranks = nranks, peers = pl,
          barrier_splitstate = OUTSIDE_BARRIER, barrier_pf = True, pf_enabled = False,
          barrier_data = \<lparr>rmd_state = (if steps > 0 then 0 else goal), rmd_value = 0, rmd_flags = 0,
            rmd_peers = 0 # take steps (peer_fwd pl), rmd_size = steps, rmd_goal = goal,
            rmd_inboxes = (\<lambda>_. empty_inbox)\<rparr>\<rparr>)"

section \<open>Partly written inboxes\<close>

text \<open>
  \<open>arrived pl box\<close>: every bit of the box is 0 or the bit of the payload, as in a cleared inbox
  into which parts of the payload have been written. Such a box polls true only when it holds the
  payload, although each copy alone may be torn.
\<close>

definition arrived :: "rmd_inbox \<Rightarrow> rmd_inbox \<Rightarrow> bool" where
  "arrived pl box \<longleftrightarrow> (\<exists>a b c d. box = \<lparr>ib_flags = ib_flags pl AND a, ib_value = ib_value pl AND b,
     ib_value2 = ib_value2 pl AND c, ib_flags2 = ib_flags2 pl AND d\<rparr>)"

lemma arrived_empty: "arrived pl empty_inbox"
  unfolding arrived_def empty_inbox_def by (intro exI [of _ 0]) simp

lemma torn_copy:
  fixes v :: u32
  assumes "v AND a = NOT (NOT v AND b)"
  shows "v AND a = v"
proof (rule bit_word_eqI)
  fix i assume i: "i < LENGTH(32)"
  from assms have "bit (v AND a) i = bit (NOT (NOT v AND b)) i" by simp
  with i show "bit (v AND a) i = bit v i"
    by (auto simp: bit_and_iff bit_or_iff bit_not_iff)
qed

lemma poll_complete:
  assumes "arrived (rmd_payload v f) box" and "gasnete_rmdbarrier_poll box"
  shows "box = rmd_payload v f"
proof -
  from assms(1) obtain a b c d where box: "box = \<lparr>ib_flags = f AND a, ib_value = v AND b,
     ib_value2 = NOT v AND c, ib_flags2 = NOT f AND d\<rparr>"
    by (auto simp: arrived_def rmd_payload_def)
  with assms(2) have p: "v AND b = NOT (NOT v AND c)" "f AND a = NOT (NOT f AND d)"
    by (simp_all add: gasnete_rmdbarrier_poll_def)
  from p(1) have "NOT v AND c = NOT (v AND b)" by simp
  moreover from p(2) have "NOT f AND d = NOT (f AND a)" by simp
  ultimately show ?thesis
    using torn_copy [OF p(1)] torn_copy [OF p(2)] by (simp add: box rmd_payload_def)
qed

lemma poll_payload [simp]: "gasnete_rmdbarrier_poll (rmd_payload v f)"
  by (simp add: gasnete_rmdbarrier_poll_def rmd_payload_def)

lemma poll_empty [simp]: "\<not> gasnete_rmdbarrier_poll empty_inbox"
  by (simp add: gasnete_rmdbarrier_poll_def empty_inbox_def)

end
