(* ===== verification/Rmd_System.thy ===== *)
theory Rmd_System
  imports Rmd_Barrier Barrier_History
begin

text \<open>
  All ranks of the RDMA dissemination barrier together. A put stays in the list of issued puts: its
  bits may be written into the target's inbox in any order, in any number of pieces, and more than
  once (the rewritten bytes that the code's comment on bug 4427 speaks of). The one assumption on
  the network is the one the comment on the reset of old inboxes states, as the guard of the write
  step: no bit of a put for barrier \<open>e\<close> is written after its target has notified barrier
  \<open>e + 2\<close>.
\<close>

section \<open>The system\<close>

record rmd_sys = history +
  rnode :: "nat \<Rightarrow> rmd_team"
  rputs :: "(nat \<times> nat \<times> rmd_put) list"    \<comment> \<open>barrier number, source, put\<close>

definition rmd_init :: "nat \<Rightarrow> rmd_sys" where
  "rmd_init N = \<lparr>notified = (\<lambda>_. 0), completed = (\<lambda>_. 0),
     ballots = (\<lambda>_ _. (GASNET_BARRIERFLAG_ANONYMOUS, 0)), waiting = (\<lambda>_. None),
     rnode = (\<lambda>r. projr (gasnete_rmdbarrier_init 0 r N (gasnete_barrier_init_peers r N))), rputs = []\<rparr>"

definition rpost :: "nat \<Rightarrow> nat \<Rightarrow> rmd_team \<Rightarrow> rmd_put list \<Rightarrow> rmd_sys \<Rightarrow> rmd_sys" where
  "rpost r e t ps s = s\<lparr>rnode := (rnode s)(r := t), rputs := rputs s @ map (\<lambda>p. (e, r, p)) ps\<rparr>"

datatype inbox_word = WFlags | WValue | WValue2 | WFlags2

text \<open>The bits selected by the mask are written, the others keep their value.\<close>

fun write_word :: "inbox_word \<Rightarrow> u32 \<Rightarrow> rmd_inbox \<Rightarrow> rmd_inbox \<Rightarrow> rmd_inbox" where
  "write_word WFlags m pl b = b\<lparr>ib_flags := (ib_flags b AND NOT m) OR (ib_flags pl AND m)\<rparr>"
| "write_word WValue m pl b = b\<lparr>ib_value := (ib_value b AND NOT m) OR (ib_value pl AND m)\<rparr>"
| "write_word WValue2 m pl b = b\<lparr>ib_value2 := (ib_value2 b AND NOT m) OR (ib_value2 pl AND m)\<rparr>"
| "write_word WFlags2 m pl b = b\<lparr>ib_flags2 := (ib_flags2 b AND NOT m) OR (ib_flags2 pl AND m)\<rparr>"

definition rwrite :: "inbox_word \<Rightarrow> u32 \<Rightarrow> rmd_put \<Rightarrow> rmd_team \<Rightarrow> rmd_team" where
  "rwrite w m p t = t\<lparr>barrier_data := (barrier_data t)\<lparr>rmd_inboxes := (rmd_inboxes (barrier_data t))
     (put_slot p := write_word w m (put_payload p) (rmd_inboxes (barrier_data t) (put_slot p)))\<rparr>\<rparr>"

text \<open>
  A kick runs from the progress function, which notify enables, or from a try or wait, so not
  before the first notify.
\<close>

inductive rmd_step :: "nat \<Rightarrow> rmd_sys \<Rightarrow> bar_event \<Rightarrow> rmd_sys \<Rightarrow> bool" for N :: nat where
  rmd_notify:
    "r < N \<Longrightarrow> waiting s r = None \<Longrightarrow>
     gasnete_rmdbarrier_notify (rnode s r) idv flags = Inr (t, ps) \<Longrightarrow> e = Suc (notified s r) \<Longrightarrow>
     rmd_step N s (Enter r (outcome_of (flags, idv)))
       ((rpost r e t ps s)\<lparr>notified := (notified s)(r := e),
          ballots := (ballots s)(e := (ballots s e)(r := (flags, idv)))\<rparr>)"
| rmd_kick:
    "r < N \<Longrightarrow> 0 < notified s r \<Longrightarrow> gasnete_rmdbarrier_kick (rnode s r) = Inr (t, ps) \<Longrightarrow>
     rmd_step N s Internal (rpost r (notified s r) t ps s)"
| rmd_write:
    "(e, src, p) \<in> set (rputs s) \<Longrightarrow> d = put_dst p \<Longrightarrow> notified s d \<le> Suc e \<Longrightarrow>
     rmd_step N s Internal (s\<lparr>rnode := (rnode s)(d := rwrite w m p (rnode s d))\<rparr>)"
| rmd_wait_begin:
    "r < N \<Longrightarrow> waiting s r = None \<Longrightarrow> gasnete_rmdbarrier_wait_begin (rnode s r) = Inr t \<Longrightarrow>
     rmd_step N s Internal (s\<lparr>rnode := (rnode s)(r := t), waiting := (waiting s)(r := Some b)\<rparr>)"
| rmd_wait_end:
    "r < N \<Longrightarrow> waiting s r = Some (flags, idv) \<Longrightarrow> rmd_complete (rnode s r) \<Longrightarrow>
     b = (rmd_flags (barrier_data (rnode s r)), rmd_value (barrier_data (rnode s r))) \<Longrightarrow>
     rmd_step N s (Leave r (outcome_of b))
       (s\<lparr>completed := (completed s)(r := notified s r), waiting := (waiting s)(r := None)\<rparr>)"

inductive_cases rmd_LeaveE: "rmd_step N s (Leave r v) t"

section \<open>Views of a state\<close>

abbreviation rbd :: "rmd_sys \<Rightarrow> nat \<Rightarrow> rmdbarrier" where
  "rbd s r \<equiv> barrier_data (rnode s r)"

abbreviation racc :: "rmd_sys \<Rightarrow> nat \<Rightarrow> ballot" where
  "racc s r \<equiv> (rmd_flags (rbd s r), rmd_value (rbd s r))"

text \<open>Steps completed, counted from 0, in the barrier notified last.\<close>

definition rstp :: "rmd_sys \<Rightarrow> nat \<Rightarrow> nat" where
  "rstp s r = rmd_state (rbd s r) div 4 - 1"

definition slot :: "nat \<Rightarrow> nat \<Rightarrow> nat" where
  "slot e j = j * 4 + e mod 4"

lemma slot_eq [simp]: "slot e j = slot e' j' \<longleftrightarrow> j = j' \<and> e mod 4 = e' mod 4"
proof
  assume eq: "slot e j = slot e' j'"
  have "slot e j div 4 = j" "slot e' j' div 4 = j'" by (simp_all add: slot_def)
  with eq show "j = j' \<and> e mod 4 = e' mod 4" by (simp add: slot_def)
qed (simp add: slot_def)

definition rsent :: "rmd_sys \<Rightarrow> nat \<Rightarrow> nat \<Rightarrow> nat \<Rightarrow> bool" where
  "rsent s e r j \<longleftrightarrow> 0 < e \<and> (e < notified s r \<or> e = notified s r \<and> j \<le> rstp s r)"

definition mkput :: "nat \<Rightarrow> nat \<Rightarrow> nat \<Rightarrow> ballot \<Rightarrow> nat \<Rightarrow> rmd_put" where
  "mkput N r e b j = \<lparr>put_dst = (r + 2 ^ j) mod N, put_slot = slot e j,
     put_payload = rmd_payload (snd b) (fst b)\<rparr>"

section \<open>The invariant\<close>

definition rshape :: "nat \<Rightarrow> rmd_sys \<Rightarrow> nat \<Rightarrow> bool" where
  "rshape N s r \<longleftrightarrow>
     rmd_peers (rbd s r) = 0 # map (\<lambda>i. (r + 2 ^ i) mod N) [0..<rounds N] \<and>
     rmd_goal (rbd s r) = (1 + rounds N) * 4 \<and> total_ranks (rnode s r) = N \<and>
     (if notified s r = 0 then rmd_state (rbd s r) = 0
      else rmd_state (rbd s r) = slot (notified s r) (Suc (rstp s r)) \<and> rstp s r \<le> rounds N) \<and>
     (notified s r = completed s r \<or> active s r) \<and>
     (0 < notified s r \<and> \<not> active s r \<longrightarrow> rstp s r = rounds N) \<and>
     (barrier_splitstate (rnode s r) = INSIDE_BARRIER \<longleftrightarrow> active s r \<and> waiting s r = None) \<and>
     (waiting s r \<noteq> None \<longrightarrow> active s r)"

definition learned :: "nat \<Rightarrow> rmd_sys \<Rightarrow> nat \<Rightarrow> nat \<Rightarrow> ballot \<Rightarrow> bool" where
  "learned N s r j b \<longleftrightarrow> knows s N (notified s r) r (2 ^ j) (outcome_of b) \<and>
     upper s N (notified s r) (outcome_of b)"

definition box_ok :: "(nat \<times> nat \<times> rmd_put) list \<Rightarrow> nat \<Rightarrow> nat \<Rightarrow> nat \<Rightarrow> rmd_inbox \<Rightarrow> bool" where
  "box_ok puts d e j box \<longleftrightarrow> box = empty_inbox \<or>
     (\<exists>src p. (e, src, p) \<in> set puts \<and> put_dst p = d \<and> put_slot p = slot e j \<and>
        arrived (put_payload p) box)"

text \<open>The inboxes of the current and the next barrier, and those of the barrier after next.\<close>

definition boxes_ok :: "nat \<Rightarrow> rmd_sys \<Rightarrow> nat \<Rightarrow> nat \<Rightarrow> (nat \<Rightarrow> rmd_inbox) \<Rightarrow> bool" where
  "boxes_ok N s d j bx \<longleftrightarrow> (\<forall>i < rounds N.
     box_ok (rputs s) d (notified s d) i (bx (slot (notified s d) i)) \<and>
     box_ok (rputs s) d (notified s d + 1) i (bx (slot (notified s d + 1) i)) \<and>
     (i < j \<or> notified s d = 0 \<longrightarrow> bx (slot (notified s d + 2) i) = empty_inbox))"

definition put_ok :: "nat \<Rightarrow> rmd_sys \<Rightarrow> nat \<Rightarrow> nat \<Rightarrow> rmd_put \<Rightarrow> bool" where
  "put_ok N s e src p \<longleftrightarrow> src < N \<and> (\<exists>j b. j < rounds N \<and> p = mkput N src e b j \<and>
     rsent s e src j \<and> knows s N e src (2 ^ j) (outcome_of b) \<and> upper s N e (outcome_of b))"

definition puts_inv :: "nat \<Rightarrow> rmd_sys \<Rightarrow> bool" where
  "puts_inv N s \<longleftrightarrow>
     (\<forall>e src p. (e, src, p) \<in> set (rputs s) \<longrightarrow> put_ok N s e src p) \<and>
     (\<forall>e src p q. (e, src, p) \<in> set (rputs s) \<and> (e, src, q) \<in> set (rputs s) \<and> put_slot p = put_slot q \<longrightarrow> p = q) \<and>
     (\<forall>e src j. src < N \<and> j < rounds N \<and> rsent s e src j \<longrightarrow>
        (\<exists>p. (e, src, p) \<in> set (rputs s) \<and> put_slot p = slot e j))"

definition rmd_inv :: "nat \<Rightarrow> rmd_sys \<Rightarrow> bool" where
  "rmd_inv N s \<longleftrightarrow>
     (\<forall>r<N. rshape N s r \<and> (0 < notified s r \<longrightarrow> learned N s r (rstp s r) (racc s r)) \<and>
        boxes_ok N s r (rstp s r) (rmd_inboxes (rbd s r))) \<and>
     puts_inv N s \<and> (\<forall>r<N. \<forall>q<N. completed s r \<le> notified s q)"

lemma rmd_at_most_one_ahead:
  "rmd_inv N s \<Longrightarrow> r < N \<Longrightarrow> q < N \<Longrightarrow> notified s r \<le> Suc (notified s q)"
  unfolding rmd_inv_def rshape_def active_def by (metis Suc_le_mono le_SucI)

lemma rmd_init_inv: "1 < N \<Longrightarrow> rmd_inv N (rmd_init N)"
  by (auto simp: rmd_inv_def rshape_def boxes_ok_def puts_inv_def rmd_init_def active_def rsent_def
      gasnete_rmdbarrier_init_def gasnete_barrier_init_peers_def Let_def box_ok_def rounds_pos
      GASNETE_RMD_PHASES_def)

section \<open>Frames\<close>

lemma box_ok_mono: "box_ok ps d e j b \<Longrightarrow> set ps \<subseteq> set qs \<Longrightarrow> box_ok qs d e j b"
  unfolding box_ok_def by blast

lemma learned_mono:
  "learned N s r j b \<Longrightarrow> extends N s t \<Longrightarrow> notified t r = notified s r \<Longrightarrow> learned N t r j b"
  unfolding learned_def by (auto intro: knows_mono upper_mono)

text \<open>A rank that does not move keeps its part of the invariant.\<close>

lemma rmd_frame:
  assumes "rshape N s q" "0 < notified s q \<longrightarrow> learned N s q (rstp s q) (racc s q)"
    and "boxes_ok N s q (rstp s q) (rmd_inboxes (rbd s q))"
    and ext: "extends N s t" and puts: "set (rputs s) \<subseteq> set (rputs t)"
    and same: "rnode t q = rnode s q" "notified t q = notified s q" "completed t q = completed s q"
      "waiting t q = waiting s q"
  shows "rshape N t q \<and> (0 < notified t q \<longrightarrow> learned N t q (rstp t q) (racc t q)) \<and>
     boxes_ok N t q (rstp t q) (rmd_inboxes (rbd t q))"
proof (intro conjI impI)
  have stp: "rstp t q = rstp s q" and act: "active t q = active s q"
    using same by (simp_all add: rstp_def active_def)
  show "rshape N t q" using assms(1) same stp act by (simp add: rshape_def)
  show "learned N t q (rstp t q) (racc t q)" if "0 < notified t q"
    using learned_mono [OF _ ext same(2)] assms(2) that same stp by simp
  show "boxes_ok N t q (rstp t q) (rmd_inboxes (rbd t q))"
    using assms(3) puts same stp unfolding boxes_ok_def by (auto intro: box_ok_mono)
qed

end
