(* ===== verification/Rmd_Safety.thy ===== *)
theory Rmd_Safety
  imports Rmd_System
begin

text \<open>
  The invariant of the RDMA barrier is preserved by every step. The heart is the loop of the kick:
  an inbox that polls true holds the whole payload of the put its peer issued for this step, and
  consuming it doubles the set of ranks this one has heard from.
\<close>

section \<open>The loop of the kick\<close>

definition loop_inv :: "nat \<Rightarrow> rmd_sys \<Rightarrow> nat \<Rightarrow> nat \<Rightarrow> (nat \<Rightarrow> rmd_inbox) \<Rightarrow> ballot \<Rightarrow> bool" where
  "loop_inv N s d j bx b \<longleftrightarrow> learned N s d j b \<and> boxes_ok N s d j bx"

lemma peer_unique:
  assumes "(a + 2 ^ j) mod N = d" "(b + 2 ^ j) mod N = d" "a < N" "b < (N::nat)"
  shows "a = b"
  using mod_add_cancel_nat [of a "2 ^ j" N b] assms by simp

lemma polled_payload:
  assumes inv: "puts_inv N s" and box: "box_ok (rputs s) d e j bx" and p: "gasnete_rmdbarrier_poll bx"
  obtains src b where "src < N" "(src + 2 ^ j) mod N = d" "bx = rmd_payload (snd b) (fst b)"
    "knows s N e src (2 ^ j) (outcome_of b)" "upper s N e (outcome_of b)"
proof -
  from box p obtain src q where q: "(e, src, q) \<in> set (rputs s)" "put_dst q = d" "put_slot q = slot e j"
    "arrived (put_payload q) bx" by (auto simp: box_ok_def)
  from inv q(1) have "put_ok N s e src q" by (auto simp: puts_inv_def)
  then obtain j' b where b: "src < N" "q = mkput N src e b j'" "knows s N e src (2 ^ j') (outcome_of b)"
    "upper s N e (outcome_of b)" by (auto simp: put_ok_def)
  with q(2,3) have j': "j' = j" "(src + 2 ^ j) mod N = d" by (auto simp: mkput_def)
  from q(4) b(2) have "arrived (rmd_payload (snd b) (fst b)) bx" by (simp add: mkput_def)
  from poll_complete [OF this p] show thesis using that b j' by blast
qed

lemma learned_step:
  assumes "learned N s d j b" and "src < N" "(src + 2 ^ j) mod N = d"
    and "knows s N (notified s d) src (2 ^ j) (outcome_of c)" "upper s N (notified s d) (outcome_of c)"
  shows "learned N s d (Suc j) (barrier_match b c)"
proof -
  have ext: "extends N s s" by (simp add: extends_def)
  have "knows s N (notified s d) d (2 ^ j) (sup (outcome_of b) (outcome_of c))"
    using assms(1) knows_mono [OF _ ext order_refl sup_ge1] by (simp add: learned_def)
  moreover have "knows s N (notified s d) src (2 ^ j) (sup (outcome_of b) (outcome_of c))"
    using assms(4) knows_mono [OF _ ext order_refl sup_ge2] by blast
  ultimately have "knows s N (notified s d) d (2 * 2 ^ j) (sup (outcome_of b) (outcome_of c))"
    using assms(2,3) by (rule knows_double)
  then show ?thesis using assms(1,5) by (simp add: learned_def upper_sup)
qed

lemma boxes_reset:
  assumes "boxes_ok N s d j bx"
  shows "boxes_ok N s d (Suc j) (bx(slot (notified s d + 2) j := empty_inbox))"
proof -
  have "notified s d mod 4 \<noteq> (notified s d + 2) mod 4" "(notified s d + 1) mod 4 \<noteq> (notified s d + 2) mod 4"
    by presburger+
  then show ?thesis using assms by (auto simp: boxes_ok_def less_Suc_eq)
qed

lemma slot_less: "slot e j < Suc n * 4 \<longleftrightarrow> j \<le> n"
  unfolding slot_def by presburger

lemma slot_Suc: "slot e j + 4 = slot e (Suc j)"
  by (simp add: slot_def)

lemma slot_pred: "slot e (Suc j) - 4 = slot e j"
  by (simp add: slot_def)

lemma take_inv:
  assumes "rmd_take bx g st alt b = (bx', st', b')"
    and "st = slot n (Suc j)" "alt = slot (n + 2) (Suc j)" "g = Suc (rounds N) * 4"
    and "j \<le> rounds N" "loop_inv N s d j bx b" "puts_inv N s" "n = notified s d"
  shows "\<exists>j'. st' = slot n (Suc j') \<and> j \<le> j' \<and> j' \<le> rounds N \<and> loop_inv N s d j' bx' b' \<and>
     (j' < rounds N \<longrightarrow> \<not> gasnete_rmdbarrier_poll (bx' (slot n j'))) \<and> (j' = j \<longrightarrow> bx' = bx \<and> b' = b)"
  using assms
proof (induction bx g st alt b arbitrary: j rule: rmd_take.induct)
  case (1 bx g st alt b)
  let ?inbox = "bx (st - GASNETE_RMD_ONE_STEP)"
  have one: "GASNETE_RMD_ONE_STEP = 4" by (simp add: GASNETE_RMD_ONE_STEP_def GASNETE_RMD_PHASES_def)
  have inbox: "?inbox = bx (slot n j)" using "1.prems"(2) by (simp add: one slot_pred)
  have lt: "st < g \<longleftrightarrow> j < rounds N"
    using slot_less [of n "Suc j" "rounds N"] unfolding "1.prems"(2,4) by (simp only: Suc_le_eq)
  show ?case
  proof (cases "st < g \<and> gasnete_rmdbarrier_poll ?inbox")
    case False
    then have "bx' = bx" "st' = st" "b' = b"
      using "1.prems"(1) by (simp_all only: rmd_take.simps [of bx g st] Let_def if_False prod.inject)
    then show ?thesis using "1.prems" False inbox lt by auto
  next
    case True
    then have j: "j < rounds N" and poll: "gasnete_rmdbarrier_poll (bx (slot n j))"
      using lt inbox by auto
    have rec: "rmd_take (bx(alt - GASNETE_RMD_ONE_STEP := empty_inbox)) g (st + GASNETE_RMD_ONE_STEP)
        (alt + GASNETE_RMD_ONE_STEP) (barrier_match b (ib_flags ?inbox, ib_value ?inbox)) = (bx', st', b')"
      using "1.prems"(1) True by (simp only: rmd_take.simps [of bx g st] Let_def if_True simp_thms)
    have alt: "alt - GASNETE_RMD_ONE_STEP = slot (n + 2) j" using "1.prems"(3) by (simp add: one slot_pred)
    have "box_ok (rputs s) d n j (bx (slot n j))"
      using "1.prems"(6,8) j by (auto simp: loop_inv_def boxes_ok_def)
    from polled_payload [OF "1.prems"(7) this poll] obtain src c where
      c: "src < N" "(src + 2 ^ j) mod N = d" "bx (slot n j) = rmd_payload (snd c) (fst c)"
        "knows s N n src (2 ^ j) (outcome_of c)" "upper s N n (outcome_of c)" by blast
    have "(ib_flags ?inbox, ib_value ?inbox) = c" unfolding inbox by (simp add: c(3) rmd_payload_def)
    then have "loop_inv N s d (Suc j) (bx(alt - GASNETE_RMD_ONE_STEP := empty_inbox))
        (barrier_match b (ib_flags ?inbox, ib_value ?inbox))"
      using "1.prems"(6,8) learned_step [OF _ c(1,2)] c(4,5) boxes_reset
      unfolding loop_inv_def alt by metis
    from "1.IH" [OF refl True rec _ _ "1.prems"(4) _ this "1.prems"(7,8)] "1.prems"(2,3) j
    show ?thesis by (auto simp: one slot_Suc)
  qed
qed

section \<open>Effects of the operations\<close>

lemma first_step: "(4 + x mod 4) div 4 = Suc (0::nat)"
  by simp

lemma notify_puts:
  assumes "gasnete_rmdbarrier_notify t idv flags = Inr (t', ps)"
  shows "barrier_splitstate t = OUTSIDE_BARRIER \<and> barrier_splitstate t' = INSIDE_BARRIER \<and>
     total_ranks t' = total_ranks t \<and>
     barrier_data t' = (barrier_data t)\<lparr>rmd_value := idv, rmd_flags := flags,
       rmd_state := slot (rmd_state (barrier_data t) + 1) 1\<rparr> \<and>
     ps = [\<lparr>put_dst = rmd_peers (barrier_data t) ! 1, put_slot = slot (rmd_state (barrier_data t) + 1) 0,
            put_payload = rmd_payload idv flags\<rparr>]"
  using assms
  by (cases "barrier_splitstate t")
     (auto simp: gasnete_rmdbarrier_notify_def splitstate_notify_enter_def Let_def slot_def
        gasnete_rmdbarrier_send_def GASNETE_RMD_ONE_STEP_def GASNETE_RMD_PHASES_def first_step)

lemma send_puts:
  assumes "rmd_peers bd = 0 # map (\<lambda>i. (r + 2 ^ i) mod N) [0..<rounds N]" and "j + k \<le> rounds N"
  shows "gasnete_rmdbarrier_send bd k (slot n (Suc j)) v f = map (mkput N r n (f, v)) [j..<j + k]"
proof (rule nth_equalityI)
  show "length (gasnete_rmdbarrier_send bd k (slot n (Suc j)) v f) = length (map (mkput N r n (f, v)) [j..<j + k])"
    by (simp add: gasnete_rmdbarrier_send_def Let_def)
  fix i assume "i < length (gasnete_rmdbarrier_send bd k (slot n (Suc j)) v f)"
  then have i: "i < k" by (simp add: gasnete_rmdbarrier_send_def Let_def)
  have "slot n (Suc j) div 4 = Suc j" by (simp add: slot_def)
  moreover have "slot n (Suc j) + i * 4 - 4 = slot n (j + i)" by (simp add: slot_def)
  ultimately show "gasnete_rmdbarrier_send bd k (slot n (Suc j)) v f ! i = map (mkput N r n (f, v)) [j..<j + k] ! i"
    using i assms by (simp add: gasnete_rmdbarrier_send_def Let_def mkput_def
        GASNETE_RMD_ONE_STEP_def GASNETE_RMD_PHASES_def)
qed

lemma alt_slot:
  "slot n (Suc j) - slot n (Suc j) mod 4 + (slot n (Suc j) + 2) mod 4 = slot (n + 2) (Suc j)"
proof -
  have m: "slot n (Suc j) mod 4 = n mod 4" by (simp add: slot_def del: mult_Suc)
  have "(slot n (Suc j) + 2) mod 4 = (slot n (Suc j) mod 4 + 2) mod 4" by (simp only: mod_add_left_eq)
  also have "\<dots> = (n + 2) mod 4" unfolding m by (simp only: mod_add_left_eq)
  finally have "(slot n (Suc j) + 2) mod 4 = (n + 2) mod 4" .
  then show ?thesis unfolding m by (simp add: slot_def del: mult_Suc)
qed

text \<open>A kick of a rank that has notified: the new number of steps, and the puts it issues.\<close>

lemma rkick_effect:
  assumes op: "gasnete_rmdbarrier_kick (rnode s d) = Inr (t, ps)" and sh: "rshape N s d"
    and n: "0 < notified s d" and inv: "puts_inv N s"
    and li: "loop_inv N s d (rstp s d) (rmd_inboxes (rbd s d)) (racc s d)"
  shows "\<exists>j bx b. rstp s d \<le> j \<and> j \<le> rounds N \<and> loop_inv N s d j bx b \<and>
     barrier_splitstate t = barrier_splitstate (rnode s d) \<and> total_ranks t = total_ranks (rnode s d) \<and>
     barrier_data t = (rbd s d)\<lparr>rmd_inboxes := bx, rmd_flags := fst b, rmd_value := snd b,
       rmd_state := slot (notified s d) (Suc j)\<rparr> \<and>
     (j < rounds N \<longrightarrow> \<not> gasnete_rmdbarrier_poll (bx (slot (notified s d) j))) \<and>
     (j = rstp s d \<longrightarrow> bx = rmd_inboxes (rbd s d)) \<and>
     ps = map (mkput N d (notified s d) b) [Suc (rstp s d)..<min (Suc j) (rounds N)]"
proof -
  let ?n = "notified s d" and ?k = "rstp s d"
  have four: "GASNETE_RMD_ONE_STEP = 4" "GASNETE_RMD_PHASES = 4"
    by (simp_all add: GASNETE_RMD_ONE_STEP_def GASNETE_RMD_PHASES_def)
  have st: "rmd_state (rbd s d) = slot ?n (Suc ?k)" "?k \<le> rounds N" "rmd_goal (rbd s d) = Suc (rounds N) * 4"
    "total_ranks (rnode s d) = N"
    and peers: "rmd_peers (rbd s d) = 0 # map (\<lambda>i. (d + 2 ^ i) mod N) [0..<rounds N]"
    using sh n by (simp_all add: rshape_def)
  have done': "rmd_goal (rbd s d) \<le> rmd_state (rbd s d) \<longleftrightarrow> ?k = rounds N"
    using slot_less [of ?n "Suc ?k" "rounds N"] st(1-3) by auto
  show ?thesis
  proof (cases "?k = rounds N")
    case True
    then have "t = rnode s d" "ps = []"
      using op done' by (simp_all add: gasnete_rmdbarrier_kick_def Let_def)
    then show ?thesis using True li st(1)
      by (intro exI [of _ ?k] exI [of _ "rmd_inboxes (rbd s d)"] exI [of _ "racc s d"]) simp
  next
    case False
    obtain bx st' f v where take: "rmd_take (rmd_inboxes (rbd s d)) (rmd_goal (rbd s d)) (rmd_state (rbd s d))
        (slot (?n + 2) (Suc ?k)) (racc s d) = (bx, st', (f, v))" by (metis prod_cases3)
    from take_inv [OF take st(1) refl st(3,2) li inv refl] obtain j where
      j: "st' = slot ?n (Suc j)" "?k \<le> j" "j \<le> rounds N" "loop_inv N s d j bx (f, v)"
        "j < rounds N \<longrightarrow> \<not> gasnete_rmdbarrier_poll (bx (slot ?n j))"
        "j = ?k \<longrightarrow> bx = rmd_inboxes (rbd s d) \<and> (f, v) = racc s d" by blast
    have num: "(st' - rmd_state (rbd s d)) div 4 = j - ?k"
      unfolding j(1) st(1) by (simp add: slot_def diff_mult_distrib [symmetric])
    have last: "rmd_goal (rbd s d) \<le> st' \<longleftrightarrow> j = rounds N"
      using slot_less [of ?n "Suc j" "rounds N"] j(1,3) st(3) by auto
    have low: "\<not> rmd_state (rbd s d) < 4" by (simp add: st(1) slot_def)
    have N: "1 < N"
    proof (rule ccontr)
      assume "\<not> 1 < N"
      then have "rounds N = 0" by (simp add: rounds_def count_doublings.simps del: count_rounds)
      with False st(2) show False by simp
    qed
    have take': "rmd_take (rmd_inboxes (rbd s d)) (rmd_goal (rbd s d)) (rmd_state (rbd s d))
        (rmd_state (rbd s d) - rmd_state (rbd s d) mod 4 + (rmd_state (rbd s d) + 2) mod 4) (racc s d) = (bx, st', (f, v))"
      using take by (simp only: st(1) alt_slot)
    have ng: "\<not> rmd_goal (rbd s d) \<le> rmd_state (rbd s d)" using False done' by simp
    let ?bd = "(rbd s d)\<lparr>rmd_inboxes := bx, rmd_flags := f, rmd_value := v, rmd_state := st'\<rparr>"
    have kick: "gasnete_rmdbarrier_kick (rnode s d) =
        (if j - ?k = 0 then Inr ((rnode s d)\<lparr>barrier_data := (rbd s d)\<lparr>rmd_inboxes := bx\<rparr>\<rparr>, [])
         else Inr ((if j = rounds N then gasnete_barrier_pf_disable (rnode s d) else rnode s d)\<lparr>barrier_data := ?bd\<rparr>,
           gasnete_rmdbarrier_send ?bd (if j = rounds N then j - ?k - 1 else j - ?k) (rmd_state (rbd s d) + 4) v f))"
      unfolding gasnete_rmdbarrier_kick_def Let_def four take' prod.case num last
      using ng low N st(4) by simp
    show ?thesis
    proof (cases "j = ?k")
      case True
      then have "st' = rmd_state (rbd s d)" "bx = rmd_inboxes (rbd s d)" using j(1,6) st(1) by simp_all
      then have "t = rnode s d" "ps = []" using op kick True by simp_all
      then show ?thesis using True j st(1) False
        by (intro exI [of _ ?k] exI [of _ bx] exI [of _ "(f, v)"]) auto
    next
      case neq: False
      have pos: "j - ?k \<noteq> 0" using neq j(2) by simp
      have send: "gasnete_rmdbarrier_send ?bd (if j = rounds N then j - ?k - 1 else j - ?k)
          (rmd_state (rbd s d) + 4) v f = map (mkput N d ?n (f, v)) [Suc ?k..<min (Suc j) (rounds N)]"
      proof -
        let ?m = "if j = rounds N then j - ?k - 1 else j - ?k"
        have st4: "rmd_state (rbd s d) + 4 = slot ?n (Suc (Suc ?k))" by (simp only: st(1) slot_Suc)
        have m: "Suc ?k + ?m = min (Suc j) (rounds N)" using j(2,3) pos by auto
        then have "Suc ?k + ?m \<le> rounds N" by simp
        moreover have "rmd_peers ?bd = 0 # map (\<lambda>i. (d + 2 ^ i) mod N) [0..<rounds N]" by (simp add: peers)
        ultimately show ?thesis
          unfolding st4 m [symmetric] by (intro send_puts)
      qed
      from kick op pos have ps: "ps = gasnete_rmdbarrier_send ?bd (if j = rounds N then j - ?k - 1 else j - ?k)
            (rmd_state (rbd s d) + 4) v f"
        and t: "t = (if j = rounds N then gasnete_barrier_pf_disable (rnode s d) else rnode s d)\<lparr>barrier_data := ?bd\<rparr>"
        by (simp_all only: if_False sum.inject prod.inject)
      show ?thesis
        using j t ps send
        by (intro exI [of _ j] exI [of _ bx] exI [of _ "(f, v)"]) simp
    qed
  qed
qed

end
