(* ===== verification/Rmd_Refinement.thy ===== *)
theory Rmd_Refinement
  imports Rmd_Safety
begin

text \<open>
  Every step of the RDMA barrier keeps the invariant and is a step of the abstract barrier, and
  writes and kicks alone complete every barrier that all ranks have notified.
\<close>

section \<open>Issuing puts\<close>

text \<open>A rank issues the puts of the steps from \<open>a\<close> below \<open>c\<close> of barrier \<open>e\<close>.\<close>

lemma issue_puts:
  assumes inv: "puts_inv N s" and r: "r < N" and ext: "extends N s t" and c: "c \<le> rounds N"
    and puts: "rputs t = rputs s @ map (\<lambda>j. (e, r, mkput N r e b j)) [a..<c]"
    and others: "\<And>q e' j. q < N \<Longrightarrow> j < rounds N \<Longrightarrow> q \<noteq> r \<or> e' \<noteq> e \<Longrightarrow> rsent t e' q j = rsent s e' q j"
    and mine: "\<And>j. j < rounds N \<Longrightarrow> rsent t e r j \<longleftrightarrow> rsent s e r j \<or> a \<le> j \<and> j < c"
    and fresh: "\<And>j. a \<le> j \<Longrightarrow> j < c \<Longrightarrow> \<not> rsent s e r j"
    and content: "\<And>j. a \<le> j \<Longrightarrow> j < c \<Longrightarrow> knows t N e r (2 ^ j) (outcome_of b)" "upper t N e (outcome_of b)"
  shows "puts_inv N t"
proof -
  have old: "put_ok N s e' q p" if "(e', q, p) \<in> set (rputs s)" for e' q p
    using inv that by (auto simp: puts_inv_def)
  have keep: "rsent t e' q j" if "rsent s e' q j" "q < N" "j < rounds N" for e' q j
    using others [OF that(2,3)] mine [OF that(3)] that by (cases "q = r \<and> e' = e") auto
  have mem: "(e', q, p) \<in> set (rputs t) \<longleftrightarrow> (e', q, p) \<in> set (rputs s) \<or>
      (e' = e \<and> q = r \<and> (\<exists>j. a \<le> j \<and> j < c \<and> p = mkput N r e b j))" for e' q p
    by (auto simp: puts)
  have ok: "put_ok N t e' q p" if "(e', q, p) \<in> set (rputs t)" for e' q p
    using that unfolding mem
  proof
    assume "(e', q, p) \<in> set (rputs s)"
    from old [OF this] obtain j b' where j: "q < N" "j < rounds N" "p = mkput N q e' b' j" "rsent s e' q j"
      "knows s N e' q (2 ^ j) (outcome_of b')" "upper s N e' (outcome_of b')"
      unfolding put_ok_def by blast
    then show ?thesis
      unfolding put_ok_def using keep [OF j(4,1,2)] knows_mono [OF j(5) ext order_refl order_refl]
        upper_mono [OF j(6) ext] by blast
  next
    assume "e' = e \<and> q = r \<and> (\<exists>j. a \<le> j \<and> j < c \<and> p = mkput N r e b j)"
    then obtain j where j: "e' = e" "q = r" "a \<le> j" "j < c" "p = mkput N r e b j" by blast
    then have "j < rounds N" using c by simp
    with j mine [OF this] content r show ?thesis
      unfolding put_ok_def by (intro conjI exI [of _ j] exI [of _ b]) auto
  qed
  have new_old: False if p: "(e, r, p) \<in> set (rputs s)" and j: "a \<le> j" "j < c" "put_slot p = slot e j" for p j
  proof -
    from old [OF p] j(3) have "rsent s e r j" by (auto simp: put_ok_def mkput_def)
    with fresh [OF j(1,2)] show False ..
  qed
  have slot_new: "put_slot (mkput N r e b j) = slot e j" for j by (simp add: mkput_def)
  have uniq: "p = q" if p1: "(e', x, p) \<in> set (rputs t)" and p2: "(e', x, q) \<in> set (rputs t)"
      and eq: "put_slot p = put_slot q" for e' x p q
  proof -
    have old_eq: "p = q" if "(e', x, p) \<in> set (rputs s)" "(e', x, q) \<in> set (rputs s)"
      using inv that eq unfolding puts_inv_def by blast
    have new: "(e', x, y) \<in> set (rputs s) \<or> (e' = e \<and> x = r \<and> (\<exists>j. a \<le> j \<and> j < c \<and> y = mkput N r e b j))"
      if "(e', x, y) \<in> set (rputs t)" for y using that unfolding mem .
    show ?thesis
    proof (cases "(e', x, p) \<in> set (rputs s)")
      case True
      then have "(e', x, q) \<in> set (rputs s)"
        using new [OF p2] new_old [of p] eq by (auto simp: slot_new)
      with True show ?thesis by (rule old_eq)
    next
      case False
      then obtain j where j: "e' = e" "x = r" "a \<le> j" "j < c" "p = mkput N r e b j"
        using new [OF p1] by blast
      have "(e', x, q) \<notin> set (rputs s)"
        using new_old [of q j] j eq by (auto simp: slot_new)
      then obtain i where "q = mkput N r e b i" using new [OF p2] by blast
      then show ?thesis using j(5) eq by (simp add: slot_new)
    qed
  qed
  have complete: "\<exists>p. (e', q, p) \<in> set (rputs t) \<and> put_slot p = slot e' j"
    if "q < N" "j < rounds N" "rsent t e' q j" for e' q j
  proof (cases "rsent s e' q j")
    case True
    then show ?thesis using inv that(1,2) unfolding puts_inv_def mem by blast
  next
    case False
    then have q: "q = r \<and> e' = e" using others [OF that(1,2)] that(3) by blast
    with False mine [OF that(2)] that(3) have "a \<le> j" "j < c" by simp_all
    with q have "q = r" "e' = e" "a \<le> j" "j < c" by simp_all
    then show ?thesis unfolding mem by (intro exI [of _ "mkput N r e b j"]) (auto simp: slot_new)
  qed
  show ?thesis unfolding puts_inv_def using ok uniq complete by blast
qed

section \<open>Preservation\<close>

lemma rnotify_inv:
  assumes inv: "rmd_inv N s" and N: "1 < N" and r: "r < N" and w: "waiting s r = None"
    and op: "gasnete_rmdbarrier_notify (rnode s r) idv flags = Inr (t, ps)"
    and u: "u = (rpost r (Suc (notified s r)) t ps s)\<lparr>notified := (notified s)(r := Suc (notified s r)),
       ballots := (ballots s)(Suc (notified s r) := (ballots s (Suc (notified s r)))(r := (flags, idv)))\<rparr>"
  shows "rmd_inv N u \<and> completed s r = notified s r"
proof -
  let ?n = "notified s r" and ?b = "(flags, idv)"
  note ne = notify_puts [OF op]
  have sh: "rshape N s r" and bx: "boxes_ok N s r (rstp s r) (rmd_inboxes (rbd s r))" and pi: "puts_inv N s"
    using inv r by (auto simp: rmd_inv_def)
  have idle: "completed s r = ?n" "\<not> active s r"
    using sh ne w by (auto simp: rshape_def active_def)
  have full: "0 < ?n \<Longrightarrow> rstp s r = rounds N" using sh idle by (auto simp: rshape_def)
  have ph: "(rmd_state (rbd s r) + 1) mod 4 = Suc ?n mod 4"
  proof (cases "?n = 0")
    case True
    then show ?thesis using sh by (simp add: rshape_def)
  next
    case False
    then have "rmd_state (rbd s r) mod 4 = ?n mod 4" using sh by (simp add: rshape_def slot_def del: mult_Suc)
    then have "(rmd_state (rbd s r) mod 4 + 1) mod 4 = (?n mod 4 + 1) mod 4" by (simp only:)
    then show ?thesis by (simp only: mod_add_left_eq Suc_eq_plus1)
  qed
  have sl: "slot (rmd_state (rbd s r) + 1) j = slot (Suc ?n) j" for j using ph by simp
  have bd: "rbd u r = (rbd s r)\<lparr>rmd_value := idv, rmd_flags := flags, rmd_state := slot (Suc ?n) 1\<rparr>"
    using ne sl by (simp add: u rpost_def)
  then have stp: "rstp u r = 0" by (simp add: rstp_def slot_def)
  have nt: "notified u = (notified s)(r := Suc ?n)" "completed u = completed s" "waiting u = waiting s"
    by (simp_all add: u rpost_def)
  have "rmd_peers (rbd s r) ! 1 = (r + 2 ^ 0) mod N"
    using sh rounds_pos [OF N] by (simp add: rshape_def)
  then have ps: "ps = [mkput N r (Suc ?n) ?b 0]" using ne sl by (simp add: mkput_def)
  have puts: "rputs u = rputs s @ map (\<lambda>j. (Suc ?n, r, mkput N r (Suc ?n) ?b j)) [0..<1]"
    by (simp add: u rpost_def ps)
  have ext: "extends N s u" by (auto simp: extends_def u rpost_def)
  have vote: "vote u (Suc ?n) r = outcome_of ?b" by (simp add: u)
  have know: "knows u N (Suc ?n) r (2 ^ 0) (outcome_of ?b)"
    using r vote by (simp add: knows_def nt)
  have up: "upper u N (Suc ?n) (outcome_of ?b)"
    using upper_vote [OF r, of "Suc ?n" u] vote by (simp add: nt)
  have pi': "puts_inv N u"
  proof (rule issue_puts [OF pi r ext _ puts _ _ _ _ up])
    show "1 \<le> rounds N" using rounds_pos [OF N] by simp
    show "rsent u e' q j = rsent s e' q j" if "q < N" "j < rounds N" "q \<noteq> r \<or> e' \<noteq> Suc ?n" for q e' j
      using that stp full by (auto simp: rsent_def nt rstp_def u rpost_def)
    show "rsent u (Suc ?n) r j \<longleftrightarrow> rsent s (Suc ?n) r j \<or> 0 \<le> j \<and> j < 1" for j
      by (auto simp: rsent_def nt stp)
    show "\<not> rsent s (Suc ?n) r j" for j by (simp add: rsent_def)
    show "knows u N (Suc ?n) r (2 ^ j) (outcome_of ?b)" if "j < 1" for j using know that by simp
  qed
  have sub: "set (rputs s) \<subseteq> set (rputs u)" by (auto simp: puts)
  have shape: "rshape N u r"
    using sh ne idle w stp bd by (auto simp: rshape_def nt active_def u rpost_def)
  have zero: "rmd_inboxes (rbd s r) (slot (?n + 2) i) = empty_inbox" if "i < rounds N" for i
    using bx full that by (cases "?n = 0") (auto simp: boxes_ok_def)
  have boxes: "boxes_ok N u r (rstp u r) (rmd_inboxes (rbd u r))"
    unfolding boxes_ok_def
  proof (intro allI impI conjI)
    fix i assume i: "i < rounds N"
    show "box_ok (rputs u) r (notified u r) i (rmd_inboxes (rbd u r) (slot (notified u r) i))"
      using bx i box_ok_mono [OF _ sub] by (simp add: boxes_ok_def nt bd)
    show "box_ok (rputs u) r (notified u r + 1) i (rmd_inboxes (rbd u r) (slot (notified u r + 1) i))"
      using zero [OF i] by (simp add: box_ok_def nt bd)
    show "rmd_inboxes (rbd u r) (slot (notified u r + 2) i) = empty_inbox" if "i < rstp u r \<or> notified u r = 0"
      using that by (simp add: stp nt)
  qed
  have learned: "learned N u r (rstp u r) (racc u r)"
    using know up by (simp add: learned_def stp bd nt)
  have "rshape N u q \<and> (0 < notified u q \<longrightarrow> learned N u q (rstp u q) (racc u q)) \<and>
      boxes_ok N u q (rstp u q) (rmd_inboxes (rbd u q))" if q: "q < N" for q
  proof (cases "q = r")
    case True
    then show ?thesis using shape boxes learned by simp
  next
    case False
    then show ?thesis using inv q
      by (intro rmd_frame [OF _ _ _ ext sub]) (auto simp: rmd_inv_def u rpost_def)
  qed
  moreover have "\<forall>x<N. \<forall>q<N. completed u x \<le> notified u q"
    using inv by (auto simp: rmd_inv_def nt intro: le_SucI)
  ultimately show ?thesis using pi' idle by (simp add: rmd_inv_def)
qed

lemma rkick_inv:
  assumes inv: "rmd_inv N s" and N: "1 < N" and r: "r < N" and n: "0 < notified s r"
    and op: "gasnete_rmdbarrier_kick (rnode s r) = Inr (t, ps)" and u: "u = rpost r (notified s r) t ps s"
  shows "rmd_inv N u \<and> rstp s r \<le> rstp u r \<and>
     (rstp u r < rounds N \<longrightarrow> \<not> gasnete_rmdbarrier_poll (rmd_inboxes (rbd u r) (slot (notified s r) (rstp u r)))) \<and>
     (rstp u r = rstp s r \<longrightarrow> rmd_inboxes (rbd u r) = rmd_inboxes (rbd s r))"
proof -
  let ?n = "notified s r" and ?k = "rstp s r"
  have sh: "rshape N s r" and pi: "puts_inv N s" and li: "loop_inv N s r ?k (rmd_inboxes (rbd s r)) (racc s r)"
    using inv r n by (auto simp: rmd_inv_def loop_inv_def)
  from rkick_effect [OF op sh n pi li] obtain j bx b where
    j: "?k \<le> j" "j \<le> rounds N" "loop_inv N s r j bx b"
    and t: "barrier_splitstate t = barrier_splitstate (rnode s r)" "total_ranks t = total_ranks (rnode s r)"
      "barrier_data t = (rbd s r)\<lparr>rmd_inboxes := bx, rmd_flags := fst b, rmd_value := snd b,
        rmd_state := slot ?n (Suc j)\<rparr>"
    and still: "j < rounds N \<longrightarrow> \<not> gasnete_rmdbarrier_poll (bx (slot ?n j))"
      "j = ?k \<longrightarrow> bx = rmd_inboxes (rbd s r)"
    and ps: "ps = map (mkput N r ?n b) [Suc ?k..<min (Suc j) (rounds N)]" by blast
  have nt: "notified u = notified s" "completed u = completed s" "waiting u = waiting s" "ballots u = ballots s"
    by (simp_all add: u rpost_def)
  have ext: "extends N s u" using nt by (simp add: extends_def)
  have bd: "rbd u r = barrier_data t" by (simp add: u rpost_def)
  have stp: "rstp u r = j" by (simp add: rstp_def bd t(3) slot_def del: mult_Suc)
  have stpq: "rstp u q = rstp s q" if "q \<noteq> r" for q using that by (simp add: rstp_def u rpost_def)
  have puts: "rputs u = rputs s @ map (\<lambda>i. (?n, r, mkput N r ?n b i)) [Suc ?k..<min (Suc j) (rounds N)]"
    by (simp add: u rpost_def ps)
  have lu: "learned N u r j b"
    using j(3) ext nt by (auto simp: loop_inv_def intro: learned_mono)
  have pi': "puts_inv N u"
  proof (rule issue_puts [OF pi r ext _ puts])
    show "rsent u e' q i = rsent s e' q i" if "q \<noteq> r \<or> e' \<noteq> ?n" for q e' i
      using that stpq by (cases "q = r") (auto simp: rsent_def nt)
    show "rsent u ?n r i \<longleftrightarrow> rsent s ?n r i \<or> Suc ?k \<le> i \<and> i < min (Suc j) (rounds N)" if "i < rounds N" for i
      using that n j(1) by (auto simp: rsent_def nt stp)
    show "\<not> rsent s ?n r i" if "Suc ?k \<le> i" for i using that by (simp add: rsent_def)
    show "knows u N ?n r (2 ^ i) (outcome_of b)" if "i < min (Suc j) (rounds N)" for i
      using lu that by (auto simp: learned_def nt extends_def intro: knows_mono)
    show "upper u N ?n (outcome_of b)" using lu by (simp add: learned_def nt)
  qed simp
  have sub: "set (rputs s) \<subseteq> set (rputs u)" by (auto simp: puts)
  have shape: "rshape N u r"
    using sh n t stp j(2) by (auto simp: rshape_def nt active_def bd u rpost_def)
      (metis le_antisym j(1))+
  have boxes: "boxes_ok N u r j (rmd_inboxes (rbd u r))"
    using j(3) sub by (auto simp: loop_inv_def boxes_ok_def bd t(3) nt intro: box_ok_mono)
  have "rshape N u q \<and> (0 < notified u q \<longrightarrow> learned N u q (rstp u q) (racc u q)) \<and>
      boxes_ok N u q (rstp u q) (rmd_inboxes (rbd u q))" if q: "q < N" for q
  proof (cases "q = r")
    case True
    then show ?thesis using shape boxes lu by (simp add: stp bd t(3))
  next
    case False
    then show ?thesis using inv q
      by (intro rmd_frame [OF _ _ _ ext sub]) (auto simp: rmd_inv_def u rpost_def)
  qed
  moreover have "\<forall>x<N. \<forall>q<N. completed u x \<le> notified u q"
    using inv by (simp add: rmd_inv_def nt)
  ultimately show ?thesis using pi' j(1) still by (simp add: rmd_inv_def stp bd t(3))
qed

lemma arrived_write:
  assumes "arrived pl b"
  shows "arrived pl (write_word w m pl b)"
proof -
  have merge: "((x AND a) AND NOT m) OR (x AND m) = x AND ((a AND NOT m) OR m)" for x a :: u32
    by (simp add: bit.conj_disj_distrib ac_simps)
  from assms obtain a b' c d where "b = \<lparr>ib_flags = ib_flags pl AND a, ib_value = ib_value pl AND b',
     ib_value2 = ib_value2 pl AND c, ib_flags2 = ib_flags2 pl AND d\<rparr>" by (auto simp: arrived_def)
  then show ?thesis by (cases w) (auto simp: arrived_def merge)
qed

lemma four_phases:
  "(n::nat) mod 4 \<noteq> Suc n mod 4" "Suc (Suc n) mod 4 \<noteq> n mod 4" "Suc (Suc n) mod 4 \<noteq> Suc n mod 4"
  "Suc n mod 4 \<noteq> n mod 4" "Suc (Suc (Suc n)) mod 4 \<noteq> n mod 4"
  by presburger+

lemma rwrite_inv:
  assumes inv: "rmd_inv N s" and p: "(e, src, p) \<in> set (rputs s)" and d: "d = put_dst p"
    and window: "notified s d \<le> Suc e"
    and u: "u = s\<lparr>rnode := (rnode s)(d := rwrite w m p (rnode s d))\<rparr>"
  shows "rmd_inv N u \<and> d < N \<and> (\<forall>q. rstp u q = rstp s q)"
proof -
  let ?n = "notified s d"
  have pi: "puts_inv N s" using inv by (simp add: rmd_inv_def)
  with p have "put_ok N s e src p" by (auto simp: puts_inv_def)
  then obtain j b where j: "src < N" "j < rounds N" "p = mkput N src e b j" "rsent s e src j"
    unfolding put_ok_def by blast
  have d': "(src + 2 ^ j) mod N = d" and sl: "put_slot p = slot e j" using d j(3) by (simp_all add: mkput_def)
  then have dN: "d < N" using j(1) by auto
  have "e \<le> Suc ?n" using j(4) rmd_at_most_one_ahead [OF inv j(1) dN] by (auto simp: rsent_def)
  with window have e: "e = ?n \<or> e = Suc ?n \<or> Suc e = ?n" by auto
  have nt: "notified u = notified s" "completed u = completed s" "waiting u = waiting s"
    "rputs u = rputs s" "ballots u = ballots s" by (simp_all add: u)
  have bd: "rbd u d = (rbd s d)\<lparr>rmd_inboxes := (rmd_inboxes (rbd s d))
     (slot e j := write_word w m (put_payload p) (rmd_inboxes (rbd s d) (slot e j)))\<rparr>"
    by (simp add: u rwrite_def sl)
  have stp: "rstp u q = rstp s q" for q by (simp add: rstp_def u rwrite_def)
  have ext: "extends N s u" using nt by (simp add: extends_def)
  have box: "box_ok (rputs s) d e' i (rmd_inboxes (rbd u d) (slot e' i))"
    if old: "box_ok (rputs s) d e' i (rmd_inboxes (rbd s d) (slot e' i))"
      and e': "slot e' i = slot e j \<Longrightarrow> e' = e" for e' i
  proof (cases "slot e' i = slot e j")
    case False
    then have "rmd_inboxes (rbd u d) (slot e' i) = rmd_inboxes (rbd s d) (slot e' i)"
      by (simp add: bd del: slot_eq)
    then show ?thesis using old by simp
  next
    case True
    then have eq: "e' = e" "i = j" using e' by auto
    have "arrived (put_payload p) (rmd_inboxes (rbd s d) (slot e j))"
    proof (cases "rmd_inboxes (rbd s d) (slot e j) = empty_inbox")
      case True
      then show ?thesis by (simp add: arrived_empty)
    next
      case False
      with old eq obtain src' q where q: "(e, src', q) \<in> set (rputs s)" "put_dst q = d"
        "put_slot q = slot e j" "arrived (put_payload q) (rmd_inboxes (rbd s d) (slot e j))"
        by (auto simp: box_ok_def)
      from pi q(1) have "put_ok N s e src' q" by (auto simp: puts_inv_def)
      with q(2,3) have "src' < N" "(src' + 2 ^ j) mod N = d" by (auto simp: put_ok_def mkput_def)
      then have "src' = src" using peer_unique d' j(1) by blast
      moreover have "put_slot p = put_slot q" using sl q(3) by simp
      ultimately have "q = p" using pi p q(1) unfolding puts_inv_def by blast
      with q(4) show ?thesis by simp
    qed
    then have "arrived (put_payload p) (rmd_inboxes (rbd u d) (slot e j))"
      by (simp add: bd arrived_write)
    then show ?thesis unfolding box_ok_def eq using p d sl by blast
  qed
  have m4: "?n mod 4 \<noteq> Suc ?n mod 4" "Suc (Suc ?n) mod 4 \<noteq> ?n mod 4" "Suc (Suc ?n) mod 4 \<noteq> Suc ?n mod 4"
    by (rule four_phases)+
  have m4': "Suc e = ?n \<Longrightarrow> ?n mod 4 \<noteq> e mod 4 \<and> Suc ?n mod 4 \<noteq> e mod 4 \<and> Suc (Suc ?n) mod 4 \<noteq> e mod 4"
    using four_phases [of e] by auto
  have boxes: "boxes_ok N u d (rstp u d) (rmd_inboxes (rbd u d))"
    unfolding boxes_ok_def nt stp
  proof (intro allI impI conjI)
    fix i assume i: "i < rounds N"
    have old: "box_ok (rputs s) d ?n i (rmd_inboxes (rbd s d) (slot ?n i))"
      "box_ok (rputs s) d (?n + 1) i (rmd_inboxes (rbd s d) (slot (?n + 1) i))"
      "i < rstp s d \<or> ?n = 0 \<Longrightarrow> rmd_inboxes (rbd s d) (slot (?n + 2) i) = empty_inbox"
      using inv dN i by (auto simp: rmd_inv_def boxes_ok_def)
    show "box_ok (rputs s) d ?n i (rmd_inboxes (rbd u d) (slot ?n i))"
      by (rule box [OF old(1)]) (use e m4 m4' in auto)
    show "box_ok (rputs s) d (?n + 1) i (rmd_inboxes (rbd u d) (slot (?n + 1) i))"
      by (rule box [OF old(2)]) (use e m4 m4' in auto)
    have "slot (?n + 2) i \<noteq> slot e j" using e m4 m4' by auto
    then show "rmd_inboxes (rbd u d) (slot (?n + 2) i) = empty_inbox" if "i < rstp s d \<or> ?n = 0"
      using old(3) [OF that] by (simp add: bd del: slot_eq)
  qed
  have "rshape N u q \<and> (0 < notified u q \<longrightarrow> learned N u q (rstp u q) (racc u q)) \<and>
      boxes_ok N u q (rstp u q) (rmd_inboxes (rbd u q))" if q: "q < N" for q
  proof (cases "q = d")
    case True
    have "rshape N u d"
    proof -
      have "rshape N s d" using inv dN by (simp add: rmd_inv_def)
      moreover have "total_ranks (rnode u d) = total_ranks (rnode s d)"
        "barrier_splitstate (rnode u d) = barrier_splitstate (rnode s d)"
        by (simp_all add: u rwrite_def)
      ultimately show ?thesis unfolding rshape_def stp nt active_def by (simp add: bd)
    qed
    moreover have "0 < notified u d \<longrightarrow> learned N u d (rstp u d) (racc u d)"
      using inv dN ext by (auto simp: rmd_inv_def stp nt bd intro: learned_mono)
    ultimately show ?thesis using True boxes by simp
  next
    case False
    then show ?thesis using inv q
      by (intro rmd_frame [OF _ _ _ ext]) (auto simp: rmd_inv_def u)
  qed
  moreover have "puts_inv N u"
  proof -
    have "put_ok N u e' x q" if "put_ok N s e' x q" for e' x q
    proof -
      from that obtain j b where j: "x < N" "j < rounds N" "q = mkput N x e' b j" "rsent s e' x j"
        "knows s N e' x (2 ^ j) (outcome_of b)" "upper s N e' (outcome_of b)"
        unfolding put_ok_def by blast
      have "rsent u e' x j" using j(4) by (simp add: rsent_def stp nt)
      with j(1-3) show ?thesis
        unfolding put_ok_def using knows_mono [OF j(5) ext order_refl order_refl]
          upper_mono [OF j(6) ext] by blast
    qed
    then show ?thesis using pi unfolding puts_inv_def nt(4) by (auto simp: rsent_def stp nt(1))
  qed
  moreover have "\<forall>x<N. \<forall>q<N. completed u x \<le> notified u q" using inv by (simp add: rmd_inv_def nt)
  ultimately show ?thesis using dN stp by (simp add: rmd_inv_def)
qed

lemma rwait_begin_inv:
  assumes inv: "rmd_inv N s" and r: "r < N" and w: "waiting s r = None"
    and op: "gasnete_rmdbarrier_wait_begin (rnode s r) = Inr t"
    and u: "u = s\<lparr>rnode := (rnode s)(r := t), waiting := (waiting s)(r := Some b)\<rparr>"
  shows "rmd_inv N u"
proof -
  have "t = (rnode s r)\<lparr>barrier_splitstate := OUTSIDE_BARRIER\<rparr> \<and> barrier_splitstate (rnode s r) = INSIDE_BARRIER"
    using op by (cases "barrier_splitstate (rnode s r)")
      (simp_all add: gasnete_rmdbarrier_wait_begin_def splitstate_wait_leave_def)
  then have t: "t = (rnode s r)\<lparr>barrier_splitstate := OUTSIDE_BARRIER\<rparr>"
    "barrier_splitstate (rnode s r) = INSIDE_BARRIER" by simp_all
  have bd: "rbd u q = rbd s q" for q by (simp add: u t)
  have stp: "rstp u q = rstp s q" for q by (simp add: rstp_def bd)
  have ext: "extends N s u" by (simp add: extends_def u)
  have nt: "notified u = notified s" "completed u = completed s" "rputs u = rputs s" by (simp_all add: u)
  have rn: "total_ranks (rnode u q) = total_ranks (rnode s q)"
    "barrier_splitstate (rnode u q) = (if q = r then OUTSIDE_BARRIER else barrier_splitstate (rnode s q))"
    "waiting u q = (if q = r then Some b else waiting s q)" for q by (simp_all add: u t)
  have kn: "knows u = knows s" "upper u = upper s"
    by (intro HOL.ext, simp add: knows_def upper_def u)+
  have "rshape N u q" if "q < N" for q
  proof -
    have "rshape N s q" "rshape N s r" using inv that r by (simp_all add: rmd_inv_def)
    then show ?thesis
      using w t(2) unfolding rshape_def stp bd active_def nt rn by (cases "q = r") simp_all
  qed
  moreover have "learned N u q (rstp u q) (racc u q)" if "q < N" "0 < notified u q" for q
    using inv that ext by (auto simp: rmd_inv_def stp bd nt intro: learned_mono)
  moreover have "boxes_ok N u q (rstp u q) (rmd_inboxes (rbd u q))" if "q < N" for q
    using inv that by (auto simp: rmd_inv_def boxes_ok_def stp bd nt)
  moreover have "puts_inv N u"
    using inv unfolding rmd_inv_def puts_inv_def put_ok_def rsent_def stp nt kn by blast
  ultimately show ?thesis using inv by (simp add: rmd_inv_def nt)
qed

lemma rcomplete_knows:
  assumes inv: "rmd_inv N s" and r: "r < N" and n: "0 < notified s r" and c: "rmd_complete (rnode s r)"
  shows "rstp s r = rounds N" "\<forall>q<N. notified s r \<le> notified s q"
    "outcome_of (racc s r) = consensus (vote s (notified s r)) N"
proof -
  have sh: "rshape N s r" and l: "learned N s r (rstp s r) (racc s r)" using inv r n by (auto simp: rmd_inv_def)
  show k: "rstp s r = rounds N"
    using sh n c slot_less [of "notified s r" "Suc (rstp s r)" "rounds N"]
    by (auto simp: rshape_def rmd_complete_def)
  have kn: "knows s N (notified s r) r (2 ^ rounds N) (outcome_of (racc s r))"
    and up: "upper s N (notified s r) (outcome_of (racc s r))"
    using l k by (simp_all add: learned_def)
  show "\<forall>q<N. notified s r \<le> notified s q" using knows_all [OF kn r rounds_reach] by blast
  show "outcome_of (racc s r) = consensus (vote s (notified s r)) N"
    by (rule knows_consensus [OF kn up r rounds_reach])
qed

lemma rwait_end_inv:
  assumes inv: "rmd_inv N s" and r: "r < N" and w: "waiting s r \<noteq> None" and c: "rmd_complete (rnode s r)"
    and u: "u = s\<lparr>completed := (completed s)(r := notified s r), waiting := (waiting s)(r := None)\<rparr>"
  shows "rmd_inv N u"
proof -
  have act: "active s r" using inv r w by (simp add: rmd_inv_def rshape_def)
  then have n: "0 < notified s r" by (simp add: active_def)
  note k = rcomplete_knows [OF inv r n c]
  have stp: "rstp u q = rstp s q" for q by (simp add: rstp_def u)
  have ext: "extends N s u" by (simp add: extends_def u)
  have nt: "notified u = notified s" "rputs u = rputs s" "rnode u = rnode s" by (simp_all add: u)
  have cw: "completed u q = (if q = r then notified s r else completed s q)"
    "waiting u q = (if q = r then None else waiting s q)" for q by (simp_all add: u)
  have kn: "knows u = knows s" "upper u = upper s"
    by (intro HOL.ext, simp add: knows_def upper_def u)+
  have "rshape N u q" if "q < N" for q
  proof -
    have "rshape N s q" "rshape N s r" using inv that r by (simp_all add: rmd_inv_def)
    then show ?thesis
      using w k(1) n unfolding rshape_def stp active_def nt cw by (cases "q = r") auto
  qed
  moreover have "learned N u q (rstp u q) (racc u q)" if "q < N" "0 < notified u q" for q
    using inv that ext by (auto simp: rmd_inv_def stp nt intro: learned_mono)
  moreover have "boxes_ok N u q (rstp u q) (rmd_inboxes (rbd u q))" if "q < N" for q
    using inv that by (auto simp: rmd_inv_def boxes_ok_def stp nt)
  moreover have "puts_inv N u"
    using inv unfolding rmd_inv_def puts_inv_def put_ok_def rsent_def stp nt kn by blast
  moreover have "\<forall>x<N. \<forall>q<N. completed u x \<le> notified u q" using inv k(2) by (auto simp: rmd_inv_def u)
  ultimately show ?thesis by (simp add: rmd_inv_def)
qed

lemma rmd_step_inv: "rmd_step N s ev t \<Longrightarrow> rmd_inv N s \<Longrightarrow> 1 < N \<Longrightarrow> rmd_inv N t"
proof (induction rule: rmd_step.induct)
  case (rmd_notify r s idv flags t ps e)
  then show ?case using rnotify_inv [OF rmd_notify.prems rmd_notify.hyps(1-3) refl] by simp
next
  case (rmd_kick r s t ps)
  then show ?case using rkick_inv [OF rmd_kick.prems rmd_kick.hyps refl] by blast
next
  case (rmd_write e src p s d w m)
  then show ?case using rwrite_inv [OF rmd_write.prems(1) rmd_write.hyps refl] by blast
next
  case (rmd_wait_begin r s t b)
  then show ?case using rwait_begin_inv [OF _ rmd_wait_begin.hyps refl] by blast
next
  case (rmd_wait_end r s flags idv b)
  then show ?case using rwait_end_inv [OF _ rmd_wait_end.hyps(1) _ rmd_wait_end.hyps(3) refl] by simp
qed

lemma rmd_reach_inv: "reach (rmd_init N) (rmd_step N) s \<Longrightarrow> 1 < N \<Longrightarrow> rmd_inv N s"
  by (induction rule: reach.induct) (auto intro: rmd_init_inv rmd_step_inv)

section \<open>Simulation of the abstract barrier\<close>

lemma rmd_simulates:
  assumes step: "rmd_step N s ev t" and inv: "rmd_inv N s" and N: "1 < N"
  shows "bar_step N (history_abs s) ev (history_abs t)"
  using step
proof cases
  case (rmd_notify r idv flags u ps e)
  have "completed s r = notified s r"
    using rnotify_inv [OF inv N rmd_notify(3-5) refl] by simp
  then have "bar_step N (history_abs s) (Enter r (outcome_of (flags, idv)))
      (bar_enter r (outcome_of (flags, idv)) (history_abs s))"
    using rmd_notify(3) by (intro bar_enter) simp_all
  also have "bar_enter r (outcome_of (flags, idv)) (history_abs s) = history_abs t"
    by (simp add: rmd_notify(2,6) history_abs_def bar_enter_def Let_def rpost_def fun_eq_iff)
  finally show ?thesis by (simp add: rmd_notify(1))
next
  case (rmd_wait_end r flags idv b)
  have act: "active s r" using inv rmd_wait_end(3,4) by (simp add: rmd_inv_def rshape_def)
  then have n: "0 < notified s r" by (simp add: active_def)
  note know = rcomplete_knows [OF inv rmd_wait_end(3) n rmd_wait_end(5)]
  have "bar_step N (history_abs s) (Leave r (outcome_of b)) (bar_leave r (history_abs s))"
    using rmd_wait_end(3,6) know(2,3) act by (intro bar_leave) (simp_all add: active_def)
  also have "bar_leave r (history_abs s) = history_abs t"
    by (simp add: rmd_wait_end(2) history_abs_def bar_leave_def)
  finally show ?thesis by (simp add: rmd_wait_end(1))
qed (simp_all add: history_abs_def rpost_def bar_internal)

interpretation rmd: split_barrier "n + 2" "rmd_init (n + 2)" "rmd_step (n + 2)" history_abs for n
  by unfold_locales
     (simp add: history_abs_def rmd_init_def bar_init_def fun_eq_iff bot_outcome_def,
      rule rmd_simulates [OF _ rmd_reach_inv], simp_all)

end
