(* ===== verification/Rmd_Properties.thy ===== *)
theory Rmd_Properties
  imports Rmd_Refinement
begin

text \<open>
  Progress of the RDMA barrier, a scheduler with a short schedule of two ranks, and what the barrier
  promises its callers.
\<close>

section \<open>Progress\<close>

lemma kick_ok:
  assumes "rshape N s r" and "0 < notified s r" and "1 < N"
  shows "\<exists>t ps. gasnete_rmdbarrier_kick (rnode s r) = Inr (t, ps)"
proof -
  have "rmd_state (rbd s r) = slot (notified s r) (Suc (rstp s r))" "total_ranks (rnode s r) = N"
    using assms by (simp_all add: rshape_def)
  then have "\<not> rmd_state (rbd s r) < GASNETE_RMD_ONE_STEP" "1 < total_ranks (rnode s r)"
    using assms(3) by (simp_all add: slot_def GASNETE_RMD_ONE_STEP_def GASNETE_RMD_PHASES_def)
  then show ?thesis
    unfolding gasnete_rmdbarrier_kick_def Let_def by (simp split: prod.split)
qed

definition rmd_work :: "nat \<Rightarrow> rmd_sys \<Rightarrow> nat" where
  "rmd_work N s = (\<Sum>r<N. rounds N - rstp s r)"

text \<open>Quiet: no rank has a step left whose put was issued.\<close>

definition rquiet :: "nat \<Rightarrow> rmd_sys \<Rightarrow> bool" where
  "rquiet N s \<longleftrightarrow> (\<forall>(e, src, p) \<in> set (rputs s). let d = put_dst p in
     \<not> (e = notified s d \<and> rstp s d < rounds N \<and> put_slot p = slot e (rstp s d)))"

lemma write_run:
  assumes "reach (rmd_init N) (rmd_step N) s" and "(e, src, p) \<in> set (rputs s)"
    and "notified s (put_dst p) \<le> Suc e" and "1 < N"
  shows "run (rmd_step N) s [Internal] (s\<lparr>rnode := (rnode s)(put_dst p := rwrite w m p (rnode s (put_dst p)))\<rparr>) \<and>
     reach (rmd_init N) (rmd_step N) (s\<lparr>rnode := (rnode s)(put_dst p := rwrite w m p (rnode s (put_dst p)))\<rparr>)"
  using rmd_write [OF assms(2) refl assms(3), of N w m] assms(1)
  by (auto intro: run_single reach_step)

text \<open>Writing all four words fills the inbox.\<close>

lemma write_all:
  "write_word WFlags2 (- 1) pl (write_word WValue2 (- 1) pl (write_word WValue (- 1) pl
     (write_word WFlags (- 1) pl b))) = pl"
  by simp

definition wr :: "inbox_word \<Rightarrow> rmd_put \<Rightarrow> rmd_sys \<Rightarrow> rmd_sys" where
  "wr w p s = s\<lparr>rnode := (rnode s)(put_dst p := rwrite w (- 1) p (rnode s (put_dst p)))\<rparr>"

lemma wr_frame [simp]:
  "notified (wr w p s) = notified s" "completed (wr w p s) = completed s" "waiting (wr w p s) = waiting s"
  "rputs (wr w p s) = rputs s" "rmd_state (rbd (wr w p s) r) = rmd_state (rbd s r)" "rstp (wr w p s) r = rstp s r"
  by (simp_all add: wr_def rwrite_def rstp_def)

lemma wr_box:
  "rmd_inboxes (rbd (wr w p s) (put_dst p)) (put_slot p) =
     write_word w (- 1) (put_payload p) (rmd_inboxes (rbd s (put_dst p)) (put_slot p))"
  by (simp add: wr_def rwrite_def)

definition wr_all :: "rmd_put \<Rightarrow> rmd_sys \<Rightarrow> rmd_sys" where
  "wr_all p s = wr WFlags2 p (wr WValue2 p (wr WValue p (wr WFlags p s)))"

lemma wr_all_frame:
  "notified (wr_all p s) = notified s" "waiting (wr_all p s) = waiting s" "rstp (wr_all p s) r = rstp s r"
  "rputs (wr_all p s) = rputs s"
  by (simp_all add: wr_all_def)

lemma wr_all_box: "rmd_inboxes (rbd (wr_all p s) (put_dst p)) (put_slot p) = put_payload p"
  unfolding wr_all_def wr_box by (rule write_all)

lemma wr_all_run:
  assumes "reach (rmd_init N) (rmd_step N) s" and p: "(e, src, p) \<in> set (rputs s)"
    and w: "notified s (put_dst p) \<le> Suc e" and "1 < N"
  shows "run (rmd_step N) s [Internal, Internal, Internal, Internal] (wr_all p s) \<and>
     reach (rmd_init N) (rmd_step N) (wr_all p s)"
proof -
  have one: "rmd_step N u Internal (wr x p u)" if "rputs u = rputs s" "notified u = notified s" for x u
    unfolding wr_def using rmd_write [of e src p u, OF _ refl] p w that by simp
  have "run (rmd_step N) s [Internal, Internal, Internal, Internal] (wr_all p s)"
    unfolding wr_all_def
    by (rule run_Cons [of "rmd_step N", OF one], simp, simp)+ (rule run_Nil)
  with assms(1) show ?thesis by (blast intro: run_reach)
qed

lemma rmd_progress:
  assumes rs: "reach (rmd_init N) (rmd_step N) s" and N: "1 < N" and nq: "\<not> rquiet N s"
  shows "\<exists>es t. run (rmd_step N) s es t \<and> set es \<subseteq> {Internal} \<and> rmd_work N t < rmd_work N s \<and>
    (notified t, waiting t) = (notified s, waiting s)"
proof -
  from nq obtain e src p where p: "(e, src, p) \<in> set (rputs s)" "e = notified s (put_dst p)"
    "rstp s (put_dst p) < rounds N" "put_slot p = slot e (rstp s (put_dst p))"
    by (auto simp: rquiet_def Let_def)
  let ?d = "put_dst p" and ?u = "wr_all p s"
  have inv: "rmd_inv N s" using rs N by (rule rmd_reach_inv)
  then have ok: "put_ok N s e src p" using p(1) by (auto simp: rmd_inv_def puts_inv_def)
  then obtain j b where j: "src < N" "p = mkput N src e b j" "rsent s e src j" unfolding put_ok_def by blast
  then have d: "?d < N" and e: "0 < e" by (auto simp: mkput_def rsent_def)
  have "notified s ?d \<le> Suc e" using p(2) by simp
  with wr_all_run [OF rs p(1) _ N] have wr: "run (rmd_step N) s [Internal, Internal, Internal, Internal] ?u"
    "reach (rmd_init N) (rmd_step N) ?u" by blast+
  have iu: "rmd_inv N ?u" using wr(2) N by (rule rmd_reach_inv)
  have nu: "0 < notified ?u ?d" using e p(2) by (simp add: wr_all_frame)
  with kick_ok [of N ?u ?d] iu d N obtain t ps where k: "gasnete_rmdbarrier_kick (rnode ?u ?d) = Inr (t, ps)"
    by (auto simp: rmd_inv_def)
  let ?v = "rpost ?d (notified ?u ?d) t ps ?u"
  note ki = rkick_inv [OF iu N d nu k refl]
  have "gasnete_rmdbarrier_poll (rmd_inboxes (rbd ?u ?d) (slot (notified ?u ?d) (rstp ?u ?d)))"
  proof -
    have "rmd_inboxes (rbd ?u ?d) (slot (notified ?u ?d) (rstp ?u ?d)) = put_payload p"
      using wr_all_box [of p s] by (simp only: wr_all_frame p(2,4) [symmetric])
    then show ?thesis using j(2) by (simp add: mkput_def)
  qed
  then have "rstp ?v ?d \<noteq> rstp ?u ?d" using ki p(3) by (auto simp: wr_all_frame)
  then have more: "rstp s ?d < rstp ?v ?d" using ki by (simp add: wr_all_frame)
  have other: "rstp ?v q = rstp s q" if "q \<noteq> ?d" for q
  proof -
    have "rstp ?v q = rstp ?u q" using that by (simp add: rstp_def rpost_def)
    then show ?thesis by (simp add: wr_all_frame)
  qed
  have "rmd_work N ?v < rmd_work N s"
    unfolding rmd_work_def
  proof (rule sum_strict_mono_ex1)
    show "\<forall>q\<in>{..<N}. rounds N - rstp ?v q \<le> rounds N - rstp s q"
      using more other by (metis diff_le_mono2 le_refl less_imp_le_nat)
    show "\<exists>q\<in>{..<N}. rounds N - rstp ?v q < rounds N - rstp s q"
      using d more p(3) by (intro bexI [of _ ?d]) auto
  qed simp
  moreover have "run (rmd_step N) s ([Internal, Internal, Internal, Internal] @ [Internal]) ?v"
    by (rule run_append [OF wr(1) run_single]) (rule rmd_kick [OF d nu k])
  ultimately show ?thesis
    by (intro exI [of _ "[Internal, Internal, Internal, Internal] @ [Internal]"] exI [of _ ?v])
       (simp add: wr_all_frame rpost_def)
qed

interpretation rmd_rest: settling "rmd_init (n + 2)" "rmd_step (n + 2)" "rmd_work (n + 2)"
    "rquiet (n + 2)" "\<lambda>s. (notified s, waiting s)" for n
  by unfold_locales (rule rmd_progress, assumption, simp, assumption)

lemma rquiet_complete:
  assumes inv: "rmd_inv N s" and q: "rquiet N s" and r: "r < N" and e: "0 < e" "notified s r = e"
    and all: "\<forall>q<N. e \<le> notified s q"
  shows "rstp s r = rounds N"
proof (rule ccontr)
  assume "rstp s r \<noteq> rounds N"
  let ?lag = "\<lambda>q. q < N \<and> notified s q = e \<and> rstp s q < rounds N"
  have sh: "rstp s q \<le> rounds N" if "q < N" "0 < notified s q" for q
    using inv that by (auto simp: rmd_inv_def rshape_def)
  have "?lag r" using \<open>rstp s r \<noteq> rounds N\<close> sh [OF r] r e by auto
  then obtain d where d: "?lag d" and least: "\<And>q. ?lag q \<Longrightarrow> rstp s d \<le> rstp s q"
    using ex_has_least_nat [of ?lag r "rstp s"] by blast
  let ?j = "rstp s d"
  define src where "src = (d + (N - 2 ^ ?j)) mod N"
  have dist: "2 ^ ?j < N" using d rounds_minimal by blast
  then have src: "src < N" "(src + 2 ^ ?j) mod N = d"
    using d by (auto simp: src_def mod_add_left_eq add.assoc)
  have "rsent s e src ?j"
  proof (cases "notified s src = e")
    case True
    then have "?j \<le> rstp s src"
      using least [of src] sh [OF src(1)] src(1) d e(1) by (cases "rstp s src < rounds N") auto
    then show ?thesis using True e(1) by (simp add: rsent_def)
  next
    case False
    then have "e < notified s src" using all src(1) by (simp add: le_neq_implies_less)
    then show ?thesis using e(1) by (simp add: rsent_def)
  qed
  then obtain p where p: "(e, src, p) \<in> set (rputs s)" "put_slot p = slot e ?j"
    using inv src(1) d unfolding rmd_inv_def puts_inv_def by blast
  moreover have "put_dst p = d"
  proof -
    have "put_ok N s e src p" using inv p(1) by (auto simp: rmd_inv_def puts_inv_def)
    then show ?thesis using p(2) src(2) by (auto simp: put_ok_def mkput_def)
  qed
  ultimately show False using q d by (auto simp: rquiet_def Let_def)
qed

section \<open>A scheduler\<close>

text \<open>A write action names the put by its place in the list of issued puts.\<close>

datatype rmd_action = RNotify nat u32 u32 | RKick nat | RWrite nat inbox_word u32
  | RWaitBegin nat ballot | RWaitEnd nat

fun rmd_do :: "nat \<Rightarrow> rmd_action \<Rightarrow> rmd_sys \<Rightarrow> (bar_event \<times> rmd_sys) option" where
  "rmd_do N (RNotify r idv flags) s =
     (if r < N \<and> waiting s r = None
      then case gasnete_rmdbarrier_notify (rnode s r) idv flags of Inl _ \<Rightarrow> None
        | Inr (t, ps) \<Rightarrow> let e = Suc (notified s r) in
            Some (Enter r (outcome_of (flags, idv)),
              (rpost r e t ps s)\<lparr>notified := (notified s)(r := e),
                 ballots := (ballots s)(e := (ballots s e)(r := (flags, idv)))\<rparr>)
      else None)"
| "rmd_do N (RKick r) s =
     (if r < N \<and> 0 < notified s r then case gasnete_rmdbarrier_kick (rnode s r) of Inl _ \<Rightarrow> None
        | Inr (t, ps) \<Rightarrow> Some (Internal, rpost r (notified s r) t ps s)
      else None)"
| "rmd_do N (RWrite i w m) s =
     (if i < length (rputs s)
      then case rputs s ! i of (e, src, p) \<Rightarrow> let d = put_dst p in
        if notified s d \<le> Suc e then Some (Internal, s\<lparr>rnode := (rnode s)(d := rwrite w m p (rnode s d))\<rparr>)
        else None
      else None)"
| "rmd_do N (RWaitBegin r b) s =
     (if r < N \<and> waiting s r = None
      then case gasnete_rmdbarrier_wait_begin (rnode s r) of Inl _ \<Rightarrow> None
        | Inr t \<Rightarrow> Some (Internal, s\<lparr>rnode := (rnode s)(r := t), waiting := (waiting s)(r := Some b)\<rparr>)
      else None)"
| "rmd_do N (RWaitEnd r) s =
     (case waiting s r of None \<Rightarrow> None
      | Some (flags, idv) \<Rightarrow>
          if r < N \<and> rmd_complete (rnode s r)
          then Some (Leave r (outcome_of (racc s r)),
              s\<lparr>completed := (completed s)(r := notified s r), waiting := (waiting s)(r := None)\<rparr>)
          else None)"

primrec rmd_exec :: "nat \<Rightarrow> rmd_action list \<Rightarrow> rmd_sys \<Rightarrow> rmd_sys option" where
  "rmd_exec N [] s = Some s"
| "rmd_exec N (a # as) s = (case rmd_do N a s of None \<Rightarrow> None | Some (ev, t) \<Rightarrow> rmd_exec N as t)"

lemma write_at:
  "i < length (rputs s) \<Longrightarrow> rputs s ! i = (e, src, p) \<Longrightarrow> notified s (put_dst p) \<le> Suc e \<Longrightarrow>
   rmd_step N s Internal (s\<lparr>rnode := (rnode s)(put_dst p := rwrite w m p (rnode s (put_dst p)))\<rparr>)"
  by (rule rmd_write [OF _ refl]) (auto simp: in_set_conv_nth)

lemma rmd_do_step: "rmd_do N a s = Some (ev, t) \<Longrightarrow> rmd_step N s ev t"
  by (induction N a s rule: rmd_do.induct)
     (auto split: if_splits sum.splits option.splits prod.splits simp: Let_def
        intro: rmd_notify [OF _ _ _ refl] rmd_kick write_at rmd_wait_begin
          rmd_wait_end [OF _ _ _ refl])

lemma rmd_exec_init: "rmd_exec N as (rmd_init N) = Some t \<Longrightarrow> reach (rmd_init N) (rmd_step N) t"
proof -
  have "rmd_exec N as s = Some t \<Longrightarrow> reach (rmd_init N) (rmd_step N) s \<Longrightarrow> reach (rmd_init N) (rmd_step N) t" for s
    by (induction as arbitrary: s) (auto split: option.splits prod.splits dest!: rmd_do_step intro: reach_step)
  then show "rmd_exec N as (rmd_init N) = Some t \<Longrightarrow> reach (rmd_init N) (rmd_step N) t"
    by (simp add: reach_start)
qed

text \<open>
  Two ranks enter a barrier named 7; the put of rank 1 reaches rank 0 word by word, one of them in
  two halves and the flags twice, with a kick in between that finds the inbox torn.
\<close>

definition rdemo_enter :: "rmd_action list" where
  "rdemo_enter = [RNotify 0 7 0, RNotify 1 7 0, RWrite 1 WValue2 0xFFFF, RWrite 1 WValue (- 1), RKick 0]"

definition rdemo_wait :: "rmd_action list" where
  "rdemo_wait = rdemo_enter @ [RWrite 1 WFlags2 (- 1), RWrite 1 WFlags (- 1), RWrite 1 WValue2 0xFFFF0000,
     RKick 0, RWrite 1 WFlags (- 1), RWaitBegin 0 (0, 7)]"

lemma rdemo_enter_runs:
  "case rmd_exec 2 rdemo_enter (rmd_init 2) of None \<Rightarrow> False
   | Some s \<Rightarrow> notified s 0 = 1 \<and> notified s 1 = 1 \<and> \<not> rmd_complete (rnode s 0)"
  by code_simp

lemma rdemo_wait_runs:
  "case rmd_exec 2 rdemo_wait (rmd_init 2) of None \<Rightarrow> False
   | Some s \<Rightarrow> waiting s 0 = Some (0, 7) \<and> rmd_complete (rnode s 0) \<and>
       notified s 0 = 1 \<and> ballots s 1 0 = (0, 7) \<and> ballots s 1 1 = (0, 7)"
  by code_simp

section \<open>Properties\<close>

text \<open>
  C12. No rank leaves an RDMA barrier before every rank has notified it, whatever the order, the
  granularity and the repetition of the writes of the puts: when a rank completes its wait for its
  \<open>e\<close>-th barrier, all ranks have executed their \<open>e\<close>-th notify.
\<close>

theorem rmd_barrier_synchronizes:
  assumes "reach (rmd_init N) (rmd_step N) s" and "1 < N"
    and "rmd_step N s (Leave r v) t" and "q < N"
  shows "notified s r \<le> notified s q \<and> completed t r = notified s r"
proof -
  note inv = rmd_reach_inv [OF assms(1,2)]
  from rmd_simulates [OF assms(3) inv assms(2)] assms(4) have "notified s r \<le> notified s q"
    by (auto elim!: bar_LeaveE)
  moreover from assms(3) have "completed t r = notified s r" by (auto elim!: rmd_LeaveE)
  ultimately show ?thesis by simp
qed

theorem rmd_barrier_synchronizes_witness:
  "case rmd_exec 2 rdemo_wait (rmd_init 2) of None \<Rightarrow> False
   | Some s \<Rightarrow> \<exists>v t. rmd_step 2 s (Leave 0 v) t \<and> notified s 0 \<le> notified s 1 \<and>
       completed t 0 = notified s 0"
proof -
  obtain s where s: "rmd_exec 2 rdemo_wait (rmd_init 2) = Some s"
    and w: "waiting s 0 = Some (0, 7)" "rmd_complete (rnode s 0)"
    using rdemo_wait_runs by (auto split: option.splits)
  obtain ev t where "rmd_do 2 (RWaitEnd 0) s = Some (ev, t) \<and> (\<exists>v. ev = Leave 0 v)"
    using w by simp
  then obtain v where st: "rmd_step 2 s (Leave 0 v) t" using rmd_do_step by blast
  from rmd_barrier_synchronizes [OF rmd_exec_init [OF s] _ st, of 1] st s show ?thesis by auto
qed

lemma rmd_wait_code:
  assumes "reach (rmd_init N) (rmd_step N) s" and "1 < N" and "r < N"
    and "waiting s r = Some (flags, idv)" and "rmd_complete (rnode s r)"
  shows "gasnete_rmdbarrier_wait_end (rnode s r) idv flags =
       outcome_verdict (consensus (\<lambda>q. outcome_of (ballots s (notified s r) q)) N) (flags, idv) \<and>
     outcome_of (racc s r) = consensus (\<lambda>q. outcome_of (ballots s (notified s r) q)) N"
proof -
  note inv = rmd_reach_inv [OF assms(1,2)]
  have "active s r" using inv assms(3,4) by (simp add: rmd_inv_def rshape_def)
  then have "0 < notified s r" by (simp add: active_def)
  from rcomplete_knows(3) [OF inv assms(3) this assms(5)] show ?thesis
    by (simp add: gasnete_rmdbarrier_wait_end_def barrier_verdict_outcome)
qed

text \<open>
  The return code of a completed RDMA barrier wait is the verdict on the consensus of all ranks'
  notifies for that barrier, and the stored name is that consensus.
\<close>

theorem rmd_wait_reports_consensus:
  assumes "reach (rmd_init N) (rmd_step N) s" and "1 < N" and "r < N"
    and "waiting s r = Some (flags, idv)" and "rmd_complete (rnode s r)"
  shows "gasnete_rmdbarrier_wait_end (rnode s r) idv flags =
       outcome_verdict (consensus (\<lambda>q. outcome_of (ballots s (notified s r) q)) N) (flags, idv) \<and>
     outcome_of (racc s r) = consensus (\<lambda>q. outcome_of (ballots s (notified s r) q)) N"
  using assms by (rule rmd_wait_code)

theorem rmd_wait_reports_consensus_witness:
  "case rmd_exec 2 rdemo_wait (rmd_init 2) of None \<Rightarrow> False
   | Some s \<Rightarrow> gasnete_rmdbarrier_wait_end (rnode s 0) 7 0 = GASNET_OK"
proof -
  obtain s where s: "rmd_exec 2 rdemo_wait (rmd_init 2) = Some s"
    and w: "waiting s 0 = Some (0, 7)" "rmd_complete (rnode s 0)"
    and b: "notified s 0 = 1" "ballots s 1 0 = (0, 7)" "ballots s 1 1 = (0, 7)"
    using rdemo_wait_runs by (auto split: option.splits)
  have "consensus (\<lambda>q. outcome_of (ballots s (notified s 0) q)) 2 = ONamed 7"
    using b by (simp add: numeral_2_eq_2 outcome_of_def)
  with rmd_wait_reports_consensus [OF rmd_exec_init [OF s] _ _ w] s show ?thesis by simp
qed

text \<open>
  C11. A kick never consumes a torn or stale inbox: in every reachable state, the inbox of the step a
  rank is in polls true only if it holds the whole payload of the put that the peer \<open>2 ^ j\<close> behind
  issued for this step of this barrier.
\<close>

theorem rmd_polls_whole_puts:
  assumes "reach (rmd_init N) (rmd_step N) s" and "1 < N" and "d < N"
    and "j = rstp s d" and "j < rounds N"
    and "gasnete_rmdbarrier_poll (rmd_inboxes (rbd s d) (slot (notified s d) j))"
  shows "\<exists>src p. (notified s d, src, p) \<in> set (rputs s) \<and> src < N \<and> (src + 2 ^ j) mod N = d \<and>
     put_dst p = d \<and> put_slot p = slot (notified s d) j \<and>
     rmd_inboxes (rbd s d) (slot (notified s d) j) = put_payload p"
proof -
  have inv: "rmd_inv N s" by (rule rmd_reach_inv [OF assms(1,2)])
  then have box: "box_ok (rputs s) d (notified s d) j (rmd_inboxes (rbd s d) (slot (notified s d) j))"
    using assms(3,5) by (auto simp: rmd_inv_def boxes_ok_def)
  with assms(6) obtain src p where p: "(notified s d, src, p) \<in> set (rputs s)" "put_dst p = d"
    "put_slot p = slot (notified s d) j" "arrived (put_payload p) (rmd_inboxes (rbd s d) (slot (notified s d) j))"
    by (auto simp: box_ok_def)
  have "put_ok N s (notified s d) src p" using inv p(1) by (auto simp: rmd_inv_def puts_inv_def)
  then obtain b where b: "src < N" "p = mkput N src (notified s d) b j"
    using p(3) by (auto simp: put_ok_def mkput_def)
  have "arrived (rmd_payload (snd b) (fst b)) (rmd_inboxes (rbd s d) (slot (notified s d) j))"
    using p(4) b(2) by (simp add: mkput_def)
  from poll_complete [OF this assms(6)] have
    "rmd_inboxes (rbd s d) (slot (notified s d) j) = put_payload p" using b(2) by (simp add: mkput_def)
  with p b show ?thesis by (auto simp: mkput_def intro!: exI [of _ src] exI [of _ p])
qed

definition rdemo_arrived :: "rmd_action list" where
  "rdemo_arrived = rdemo_enter @ [RWrite 1 WFlags2 (- 1), RWrite 1 WFlags (- 1), RWrite 1 WValue2 0xFFFF0000]"

lemma rdemo_arrived_runs:
  "case rmd_exec 2 rdemo_arrived (rmd_init 2) of None \<Rightarrow> False
   | Some s \<Rightarrow> gasnete_rmdbarrier_poll (rmd_inboxes (rbd s 0) (slot (notified s 0) 0)) \<and> rstp s 0 = 0"
  by code_simp

theorem rmd_polls_whole_puts_witness:
  "case rmd_exec 2 rdemo_arrived (rmd_init 2) of None \<Rightarrow> False
   | Some s \<Rightarrow> \<exists>p. (notified s 0, 1, p) \<in> set (rputs s) \<and>
       rmd_inboxes (rbd s 0) (slot (notified s 0) 0) = put_payload p"
proof -
  obtain s where s: "rmd_exec 2 rdemo_arrived (rmd_init 2) = Some s"
    and w: "gasnete_rmdbarrier_poll (rmd_inboxes (rbd s 0) (slot (notified s 0) 0))" "0 = rstp s 0"
    using rdemo_arrived_runs by (auto split: option.splits)
  have "(0::nat) < rounds 2" by (rule rounds_pos) simp
  from rmd_polls_whole_puts [OF rmd_exec_init [OF s] _ _ w(2) this w(1)] obtain src p where
    p: "(notified s 0, src, p) \<in> set (rputs s)" "src < 2" "(src + 2 ^ 0) mod 2 = 0"
      "rmd_inboxes (rbd s 0) (slot (notified s 0) 0) = put_payload p" by auto
  from p(2,3) have "src = 1" by (auto simp: less_2_cases_iff)
  with p s show ?thesis by auto
qed



end
