(* ===== verification/Pshm_Barrier.thy ===== *)
theory Pshm_Barrier
  imports Barrier_Match Team_Base
begin

unbundle bit_operations_syntax

text \<open>
  The shared-memory barrier of the processes of one node (\<open>pshmbarrier\<close>) of
  \<^verbatim>\<open>extended-ref/gasnet_extended_refbarrier.c\<close>, as the SMP conduit uses it on a 64-bit
  machine (\<open>GASNETE_PSHM_BARR_U64\<close> 1, \<open>GASNETI_PSHM_BARRIER_HIER\<close> 0). Every process owns one word
  of the shared memory, which its parent in a tree polls; the root publishes the result. A
  process reads its children's words one after the other while they run, so a kick takes the words
  it reads as an argument.
\<close>

section \<open>Words and state\<close>

definition GASNETI_MAKEWORD :: "u32 \<Rightarrow> u32 \<Rightarrow> u64" where
  "GASNETI_MAKEWORD hi lo = push_bit 32 (ucast hi) OR ucast lo"

definition GASNETE_PSHM_BARR_PACK :: "u32 \<Rightarrow> u32 \<Rightarrow> u32 \<Rightarrow> u64" where
  "GASNETE_PSHM_BARR_PACK value flags phase = GASNETI_MAKEWORD (flags OR push_bit 16 phase) value"

definition GASNETE_PSHM_BARR_FLAGS :: "u64 \<Rightarrow> u32" where
  "GASNETE_PSHM_BARR_FLAGS w = ucast (drop_bit 32 w)"

definition GASNETE_PSHM_BARR_VALUE :: "u64 \<Rightarrow> u32" where
  "GASNETE_PSHM_BARR_VALUE w = ucast w"

record pshm_child =
  ch_node :: nat
  ch_u64 :: u64

record pshm_private =
  pr_rank :: nat
  pr_children :: "pshm_child list"
  pr_remain :: nat
  pr_value :: u32
  pr_flags :: u32
  pr_two_to_phase :: u32

type_synonym pshm_team = "pshm_private coll_team"

record pshm_shared =
  sh_state :: u32
  sh_ready :: nat
  sh_size :: nat
  sh_flags :: u32
  sh_value :: u32
  sh_node :: "nat \<Rightarrow> u64"

text \<open>The return codes as the integers that are stored in the state word.\<close>

fun rc_code :: "barrier_rc \<Rightarrow> u32" where
  "rc_code GASNET_OK = 0"
| "rc_code GASNET_ERR_NOT_READY = 10004"
| "rc_code GASNET_ERR_BARRIER_MISMATCH = 10005"

definition PSHM_BSTATE_DONE_BITS :: nat where
  "PSHM_BSTATE_DONE_BITS = 2"

definition PSHM_BSTATE_TO_RESULT :: "u32 \<Rightarrow> u32" where
  "PSHM_BSTATE_TO_RESULT state = drop_bit PSHM_BSTATE_DONE_BITS state"

definition PSHM_BSTATE_SIGNAL :: "u32 \<Rightarrow> u32 \<Rightarrow> pshm_shared \<Rightarrow> pshm_shared" where
  "PSHM_BSTATE_SIGNAL result two_to_phase sh =
     sh\<lparr>sh_state := push_bit PSHM_BSTATE_DONE_BITS result OR two_to_phase\<rparr>"

section \<open>Arrival and kick\<close>

definition gasnete_pshmbarrier_arrive :: "pshm_private \<Rightarrow> u32 \<Rightarrow> u32 \<Rightarrow> u32 \<Rightarrow> pshm_shared \<Rightarrow> pshm_shared" where
  "gasnete_pshmbarrier_arrive pr value flags two_to_phase sh =
     (let sh1 = sh\<lparr>sh_node := (sh_node sh)(pr_rank pr := GASNETE_PSHM_BARR_PACK value flags two_to_phase)\<rparr> in
      if pr_rank pr = 0 then
        PSHM_BSTATE_SIGNAL (rc_code (if mismatch flags then GASNET_ERR_BARRIER_MISMATCH else GASNET_OK))
          two_to_phase (sh1\<lparr>sh_value := value, sh_flags := flags\<rparr>)
      else sh1)"

text \<open>The scan that moves the children which have arrived to the end of the list.\<close>

function pshm_scan :: "u64 \<Rightarrow> pshm_child list \<Rightarrow> nat \<Rightarrow> nat \<Rightarrow> pshm_child list \<times> nat" where
  "pshm_scan goal children i n =
     (if i < n then
        (if goal AND ch_u64 (children ! i) \<noteq> 0
         then pshm_scan goal (children[n - 1 := children ! i, i := children ! (n - 1)]) i (n - 1)
         else pshm_scan goal children (i + 1) n)
      else (children, n))"
  by pat_completeness auto
termination
  by (relation "measure (\<lambda>(g, c, i, n). n - i)") auto

declare pshm_scan.simps [simp del]

definition pshm_match :: "pshm_child list \<Rightarrow> ballot \<Rightarrow> ballot" where
  "pshm_match arrived acc = foldl (\<lambda>a c. barrier_match a
     (GASNETE_PSHM_BARR_FLAGS (ch_u64 c), GASNETE_PSHM_BARR_VALUE (ch_u64 c))) acc arrived"

text \<open>\<open>reads i\<close> is the word that the fetch of the \<open>i\<close>-th outstanding child returns.\<close>

definition gasnete_pshmbarrier_kick ::
  "(nat \<Rightarrow> u64) \<Rightarrow> pshm_private \<Rightarrow> pshm_shared \<Rightarrow> bool \<times> pshm_private \<times> pshm_shared" where
  "gasnete_pshmbarrier_kick reads pr sh =
     (let n = pr_remain pr in
      if n \<noteq> 0 then
        let two_to_phase = pr_two_to_phase pr;
            goal = GASNETE_PSHM_BARR_PACK 0 0 two_to_phase;
            fetched = map (\<lambda>i. if i < n then (pr_children pr ! i)\<lparr>ch_u64 := reads i\<rparr> else pr_children pr ! i)
                        [0..<length (pr_children pr)];
            (children, m) = pshm_scan goal fetched 0 n;
            arrivals = n - m;
            (flags, value) = pshm_match (map (\<lambda>i. children ! (m + i)) [0..<arrivals]) (pr_flags pr, pr_value pr);
            pr1 = pr\<lparr>pr_children := children, pr_remain := m\<rparr>
        in if m \<noteq> 0 then (False, pr1\<lparr>pr_value := value, pr_flags := flags\<rparr>, sh)
           else (True, pr1, gasnete_pshmbarrier_arrive pr1 value flags two_to_phase sh)
      else (True, pr, sh))"

section \<open>Notify, wait, try and result\<close>

definition gasnete_pshmbarrier_notify_inner ::
  "(nat \<Rightarrow> u64) \<Rightarrow> u32 \<Rightarrow> u32 \<Rightarrow> pshm_private \<Rightarrow> pshm_shared \<Rightarrow> bool \<times> pshm_private \<times> pshm_shared" where
  "gasnete_pshmbarrier_notify_inner reads value flags pr sh =
     (let two_to_phase = pr_two_to_phase pr XOR 3;
          pr1 = pr\<lparr>pr_two_to_phase := two_to_phase\<rparr>;
          num_children = length (pr_children pr1) in
      if num_children \<noteq> 0
      then gasnete_pshmbarrier_kick reads
             (pr1\<lparr>pr_remain := num_children, pr_value := value, pr_flags := flags\<rparr>) sh
      else (True, pr1, gasnete_pshmbarrier_arrive pr1 value flags two_to_phase sh))"

definition finish_pshm_barrier :: "pshm_shared \<Rightarrow> u32 \<Rightarrow> u32 \<Rightarrow> u32 \<Rightarrow> u32" where
  "finish_pshm_barrier sh idv flags state =
     (if \<not> anon (flags OR sh_flags sh) \<and> idv \<noteq> sh_value sh then rc_code GASNET_ERR_BARRIER_MISMATCH
      else PSHM_BSTATE_TO_RESULT state)"

definition pshm_done :: "pshm_private \<Rightarrow> pshm_shared \<Rightarrow> bool" where
  "pshm_done pr sh \<longleftrightarrow> pr_two_to_phase pr AND sh_state sh \<noteq> 0"

definition gasnete_pshmbarrier_notify ::
  "(nat \<Rightarrow> u64) \<Rightarrow> pshm_team \<Rightarrow> u32 \<Rightarrow> u32 \<Rightarrow> pshm_shared \<Rightarrow> barrier_error + pshm_team \<times> pshm_shared" where
  "gasnete_pshmbarrier_notify reads team idv flags sh =
     (case splitstate_notify_enter team of Inl e \<Rightarrow> Inl e | Inr team1 \<Rightarrow>
        let (_, pr, sh1) = gasnete_pshmbarrier_notify_inner reads idv flags (barrier_data team1) sh
        in Inr (team1\<lparr>barrier_data := pr\<rparr>, sh1))"

text \<open>The wait in two parts, around its loop of kicks; the second is entered when the done bit is set.\<close>

definition gasnete_pshmbarrier_wait_begin :: "pshm_team \<Rightarrow> barrier_error + pshm_team" where
  "gasnete_pshmbarrier_wait_begin team = splitstate_wait_leave team"

definition gasnete_pshmbarrier_wait_end :: "u32 \<Rightarrow> u32 \<Rightarrow> pshm_shared \<Rightarrow> u32" where
  "gasnete_pshmbarrier_wait_end idv flags sh = finish_pshm_barrier sh idv flags (sh_state sh)"

definition gasnete_pshmbarrier_try_inner ::
  "(nat \<Rightarrow> u64) \<Rightarrow> pshm_private \<Rightarrow> pshm_shared \<Rightarrow> u32 \<times> pshm_private \<times> pshm_shared" where
  "gasnete_pshmbarrier_try_inner reads pr sh =
     (let (_, pr1, sh1) = gasnete_pshmbarrier_kick reads pr sh
      in (if pshm_done pr1 sh1 then sh_state sh1 else 0, pr1, sh1))"

definition gasnete_pshmbarrier_try ::
  "(nat \<Rightarrow> u64) \<Rightarrow> pshm_team \<Rightarrow> u32 \<Rightarrow> u32 \<Rightarrow> pshm_shared \<Rightarrow> barrier_error + u32 \<times> pshm_team \<times> pshm_shared" where
  "gasnete_pshmbarrier_try reads team idv flags sh =
     (if barrier_splitstate team = OUTSIDE_BARRIER then Inl TryWithoutNotify
      else let (state, pr, sh1) = gasnete_pshmbarrier_try_inner reads (barrier_data team) sh in
        if state \<noteq> 0
        then Inr (finish_pshm_barrier sh1 idv flags state,
               team\<lparr>barrier_splitstate := OUTSIDE_BARRIER, barrier_data := pr\<rparr>, sh1)
        else Inr (rc_code GASNET_ERR_NOT_READY, team\<lparr>barrier_data := pr\<rparr>, sh1))"

definition gasnete_pshmbarrier_result :: "pshm_team \<Rightarrow> pshm_shared \<Rightarrow> barrier_error + u32 \<times> bool" where
  "gasnete_pshmbarrier_result team sh =
     (if barrier_splitstate team = INSIDE_BARRIER then Inl ResultInside
      else Inr (sh_value sh, anon (sh_flags sh)))"

section \<open>The tree\<close>

text \<open>The loop \<open>for (i = from; i < size; i += radix)\<close>.\<close>

function pshm_every :: "nat \<Rightarrow> nat \<Rightarrow> nat \<Rightarrow> nat list" where
  "pshm_every i sz radix = (if i < sz \<and> 0 < radix then i # pshm_every (i + radix) sz radix else [])"
  by pat_completeness auto
termination
  by (relation "measure (\<lambda>(i, n, r). n - i)") auto

declare pshm_every.simps [simp del]

definition pshm_children :: "int \<Rightarrow> nat \<Rightarrow> nat \<Rightarrow> nat list" where
  "pshm_children env_radix sz rank =
     (let radix = (if env_radix = 0 then int sz - 1 else env_radix) in
      if sz = 1 then []
      else if radix < 0 then
        let cell = nat (- radix) in
        if rank = 0 then [1..<Suc (min sz cell - 1)] @ pshm_every cell sz cell
        else if rank mod cell = 0 then
          let last = min sz (rank + cell) - 1 in map (\<lambda>i. rank + 1 + i) [0..<last - rank]
        else []
      else
        let first = nat radix * rank + 1; last = min sz (first + nat radix) - 1
        in map (\<lambda>i. first + i) [0..<1 + last - first])"

definition gasnete_pshmbarrier_init_private :: "int \<Rightarrow> nat \<Rightarrow> nat \<Rightarrow> pshm_private" where
  "gasnete_pshmbarrier_init_private env_radix sz rank =
     \<lparr>pr_rank = rank, pr_children = map (\<lambda>c. \<lparr>ch_node = c, ch_u64 = 0\<rparr>) (pshm_children env_radix sz rank),
      pr_remain = 0, pr_value = 0, pr_flags = 0, pr_two_to_phase = 1\<rparr>"

text \<open>The part that rank 0 does while the others wait in the bootstrap barrier.\<close>

definition gasnete_pshmbarrier_init_shared :: "nat \<Rightarrow> pshm_shared \<Rightarrow> pshm_shared" where
  "gasnete_pshmbarrier_init_shared sz sh =
     sh\<lparr>sh_node := (\<lambda>i. if i < sz then GASNETE_PSHM_BARR_PACK 0 0 1 else sh_node sh i),
        sh_state := 0, sh_size := sz, sh_ready := sz\<rparr>"

definition gasnete_pshmbarrier_init :: "int \<Rightarrow> nat \<Rightarrow> nat \<Rightarrow> pshm_team" where
  "gasnete_pshmbarrier_init env_radix sz rank =
     \<lparr>team_id = 0, myrank = rank, total_ranks = sz, peers = no_peers,
      barrier_splitstate = OUTSIDE_BARRIER, barrier_pf = False, pf_enabled = False,
      barrier_data = gasnete_pshmbarrier_init_private env_radix sz rank\<rparr>"

end
