(* ===== verification/Pshm_Facts.thy ===== *)
theory Pshm_Facts
  imports Pshm_Barrier "HOL-Library.Multiset"
begin

text \<open>
  Facts on the parts of the shared-memory barrier: the packed words, the scan, and the tree that the
  initialisation builds.
\<close>

unbundle bit_operations_syntax

section \<open>Packed words\<close>

text \<open>The phase bit of the \<open>e\<close>-th barrier, as \<open>two_to_phase\<close> holds it after \<open>e\<close> notifies.\<close>

definition ph :: "nat \<Rightarrow> u32" where
  "ph e = (if even e then 1 else 2)"

lemma ph_Suc: "ph e XOR 3 = ph (Suc e)"
  by (simp add: ph_def)

text \<open>Flags that do not carry the phase bit of the other phase.\<close>

definition clean :: "nat \<Rightarrow> u32 \<Rightarrow> bool" where
  "clean e f \<longleftrightarrow> \<not> bit f (if even e then 17 else 16)"

lemma ph_bit: "bit (ph e) i \<longleftrightarrow> i = (if even e then 0 else 1)"
proof -
  have "ph e = push_bit (if even e then 0 else 1) 1" by (simp add: ph_def)
  then show ?thesis by (auto simp: bit_simps)
qed

lemma pack_flags: "GASNETE_PSHM_BARR_FLAGS (GASNETE_PSHM_BARR_PACK v f p) = f OR push_bit 16 p"
proof (rule bit_word_eqI)
  fix i assume "i < LENGTH(32)"
  then show "bit (GASNETE_PSHM_BARR_FLAGS (GASNETE_PSHM_BARR_PACK v f p)) i = bit (f OR push_bit 16 p) i"
    by (auto simp: GASNETE_PSHM_BARR_FLAGS_def GASNETE_PSHM_BARR_PACK_def GASNETI_MAKEWORD_def
        bit_simps dest: bit_imp_le_length)
qed

lemma pack_value: "GASNETE_PSHM_BARR_VALUE (GASNETE_PSHM_BARR_PACK v f p) = v"
proof (rule bit_word_eqI)
  fix i assume "i < LENGTH(32)"
  then show "bit (GASNETE_PSHM_BARR_VALUE (GASNETE_PSHM_BARR_PACK v f p)) i = bit v i"
    by (auto simp: GASNETE_PSHM_BARR_VALUE_def GASNETE_PSHM_BARR_PACK_def GASNETI_MAKEWORD_def bit_simps)
qed

lemma goal_mask: "GASNETE_PSHM_BARR_PACK 0 0 (ph e) = push_bit (if even e then 48 else 49) 1"
  by (simp add: ph_def GASNETE_PSHM_BARR_PACK_def GASNETI_MAKEWORD_def)

lemma mask_test: "push_bit k 1 AND w \<noteq> 0 \<longleftrightarrow> bit w k" if "k < 64" for w :: u64
proof
  assume "bit w k"
  then have "bit (push_bit k 1 AND w) k" using that by (simp add: bit_simps)
  then show "push_bit k 1 AND w \<noteq> 0" by auto
next
  assume "push_bit k 1 AND w \<noteq> 0"
  then obtain i where "bit (push_bit k 1 AND w) i" by (metis bit_eq_iff bit_0_eq bot_apply bot_bool_def)
  then have "i = k" "bit w i" by (auto simp: bit_simps)
  then show "bit w k" by simp
qed

lemma goal_test:
  assumes "clean e f"
  shows "GASNETE_PSHM_BARR_PACK 0 0 (ph d) AND GASNETE_PSHM_BARR_PACK v f (ph e) \<noteq> 0 \<longleftrightarrow> even d = even e"
proof -
  have b: "bit (GASNETE_PSHM_BARR_PACK v f (ph e)) (48 + i) \<longleftrightarrow> bit f (16 + i) \<or> i = (if even e then 0 else 1)"
    if "i < 2" for i
    using that by (auto simp: GASNETE_PSHM_BARR_PACK_def GASNETI_MAKEWORD_def bit_simps ph_bit
        dest: bit_imp_le_length)
  have "GASNETE_PSHM_BARR_PACK 0 0 (ph d) AND w \<noteq> 0 \<longleftrightarrow> bit w (if even d then 48 else 49)" for w
    unfolding goal_mask by (rule mask_test) simp
  then show ?thesis
    using assms b [of 0] b [of 1] by (auto simp: clean_def split: if_splits)
qed

lemma phase_bits_low: "anon (f OR push_bit 16 (ph e)) \<longleftrightarrow> anon f" "mismatch (f OR push_bit 16 (ph e)) \<longleftrightarrow> mismatch f"
  by (simp_all add: GASNET_BARRIERFLAG_ANONYMOUS_def GASNET_BARRIERFLAG_MISMATCH_def ph_def)
     (simp_all add: c_and_def)

lemma pack_outcome:
  "outcome_of (GASNETE_PSHM_BARR_FLAGS (GASNETE_PSHM_BARR_PACK v f (ph e)),
     GASNETE_PSHM_BARR_VALUE (GASNETE_PSHM_BARR_PACK v f (ph e))) = outcome_of (f, v)"
  by (simp only: pack_flags pack_value outcome_of_def fst_conv snd_conv phase_bits_low)

lemma clean_pack: "clean e f \<Longrightarrow> clean e (GASNETE_PSHM_BARR_FLAGS (GASNETE_PSHM_BARR_PACK v f (ph e)))"
  by (auto simp: clean_def pack_flags bit_simps ph_bit)

lemma clean_match: "clean e (fst a) \<Longrightarrow> clean e (fst b) \<Longrightarrow> clean e (fst (barrier_match a b))"
  by (auto simp: barrier_match_def clean_def GASNET_BARRIERFLAG_MISMATCH_def split: prod.splits)

text \<open>The state word.\<close>

definition state_word :: "barrier_rc \<Rightarrow> nat \<Rightarrow> u32" where
  "state_word rc e = push_bit PSHM_BSTATE_DONE_BITS (rc_code rc) OR ph e"

lemma state_done: "ph d AND state_word rc e \<noteq> 0 \<longleftrightarrow> even d = even e"
  by (cases rc) (simp_all add: state_word_def ph_def PSHM_BSTATE_DONE_BITS_def)

lemma state_result: "PSHM_BSTATE_TO_RESULT (state_word rc e) = rc_code rc"
  by (cases rc) (simp_all add: state_word_def ph_def PSHM_BSTATE_DONE_BITS_def PSHM_BSTATE_TO_RESULT_def)

section \<open>The scan\<close>

lemma pshm_scan_spec:
  assumes "pshm_scan goal cs i n = (cs', m)" and "i \<le> n" "n \<le> length cs"
    and "\<forall>k<i. \<not> (goal AND ch_u64 (cs ! k) \<noteq> 0)"
  shows "mset cs' = mset cs \<and> drop n cs' = drop n cs \<and> m \<le> n \<and>
     (\<forall>k<m. goal AND ch_u64 (cs' ! k) = 0) \<and> (\<forall>k. m \<le> k \<and> k < n \<longrightarrow> goal AND ch_u64 (cs' ! k) \<noteq> 0)"
  using assms
proof (induction goal cs i n rule: pshm_scan.induct)
  case (1 goal cs i n)
  show ?case
  proof (cases "i < n")
    case False
    then have "pshm_scan goal cs i n = (cs, n)" by (subst pshm_scan.simps) simp
    then have "cs' = cs" "m = n" "i = n" using "1.prems"(1,2) False by simp_all
    then show ?thesis using "1.prems"(4) by auto
  next
    case True
    show ?thesis
    proof (cases "goal AND ch_u64 (cs ! i) \<noteq> 0")
      case False
      then have "pshm_scan goal cs (i + 1) n = (cs', m)" using "1.prems"(1) True
        by (simp add: pshm_scan.simps [of goal cs i n])
      from "1.IH"(2) [OF True False this] True False "1.prems"(3,4) show ?thesis by (auto simp: less_Suc_eq)
    next
      case ready: True
      let ?ds = "cs[n - 1 := cs ! i, i := cs ! (n - 1)]"
      have rec: "pshm_scan goal ?ds i (n - 1) = (cs', m)" using "1.prems"(1) True ready
        by (simp add: pshm_scan.simps [of goal cs i n])
      have ix: "i < length cs" "n - 1 < length cs" using True "1.prems"(3) by auto
      have "\<forall>k<i. \<not> (goal AND ch_u64 (?ds ! k) \<noteq> 0)" using "1.prems"(4) True by (auto simp: nth_list_update)
      with "1.IH"(1) [OF True ready rec] True "1.prems"(3) have
        ih: "mset cs' = mset ?ds" "drop (n - 1) cs' = drop (n - 1) ?ds" "m \<le> n - 1"
          "\<forall>k<m. goal AND ch_u64 (cs' ! k) = 0" "\<forall>k. m \<le> k \<and> k < n - 1 \<longrightarrow> goal AND ch_u64 (cs' ! k) \<noteq> 0"
        by auto
      have len: "length cs' = length cs" using ih(1) mset_eq_length by fastforce
      have "mset cs' = mset cs" using ih(1) mset_swap [OF ix] by simp
      moreover have "drop n cs' = drop n cs"
      proof -
        have "drop 1 (drop (n - 1) cs') = drop 1 (drop (n - 1) ?ds)" using ih(2) by simp
        then show ?thesis using True by (simp add: drop_update_cancel)
      qed
      moreover have "goal AND ch_u64 (cs' ! (n - 1)) \<noteq> 0"
      proof -
        have "cs' ! (n - 1) = ?ds ! (n - 1)"
          using ih(2) ix(2) len by (metis hd_drop_conv_nth length_list_update)
        also have "\<dots> = cs ! i" using ix True by (cases "i = n - 1") (simp_all add: nth_list_update)
        finally show ?thesis using ready by simp
      qed
      ultimately show ?thesis using ih(3-5) True by (auto simp: less_Suc_eq) (metis One_nat_def Suc_pred le_neq_implies_less less_Suc_eq_le less_nat_zero_code neq0_conv)
    qed
  qed
qed

section \<open>The tree\<close>

lemma every_set: "0 < k \<Longrightarrow> x \<in> set (pshm_every i n k) \<longleftrightarrow> (\<exists>j. x = i + j * k) \<and> x < n"
proof (induction i n k rule: pshm_every.induct)
  case (1 i n k)
  show ?case
  proof (cases "i < n")
    case True
    have "(\<exists>j. x = i + j * k) \<longleftrightarrow> x = i \<or> (\<exists>j. x = i + k + j * k)"
    proof
      assume "\<exists>j. x = i + j * k"
      then obtain j where "x = i + j * k" ..
      then show "x = i \<or> (\<exists>j. x = i + k + j * k)" by (cases j) (auto simp: add.assoc)
    next
      assume "x = i \<or> (\<exists>j. x = i + k + j * k)"
      then show "\<exists>j. x = i + j * k"
        by (metis add.assoc add.commute add_cancel_right_left mult_Suc mult_is_0)
    qed
    then show ?thesis using 1 True by (auto simp: pshm_every.simps [of i n k])
  qed (use "1.prems" in \<open>auto simp: pshm_every.simps [of i n k]\<close>)
qed

lemma child_bounds:
  assumes "c \<in> set (pshm_children env n r)" and "r < n"
  shows "r < c \<and> c < n"
proof (cases "(if env = 0 then int n - 1 else env) < 0 \<and> n \<noteq> 1")
  case True
  then show ?thesis using assms
    by (auto simp: pshm_children_def Let_def every_set split: if_splits)
next
  case False
  let ?r = "nat (if env = 0 then int n - 1 else env)"
  have n: "n \<noteq> 1" using assms(1) by (auto simp: pshm_children_def)
  then obtain i where i: "c = ?r * r + 1 + i" "i < 1 + (min n (?r * r + 1 + ?r) - 1) - (?r * r + 1)"
    using assms(1) False by (auto simp: pshm_children_def Let_def)
  then have "0 < ?r" by (cases "?r = 0") auto
  then have "1 * r \<le> ?r * r" by (intro mult_le_mono1) (simp only: One_nat_def Suc_le_eq)
  with i show ?thesis by linarith
qed

lemma cell_base:
  assumes "0 < k" and "c mod k \<noteq> 0" and "k \<le> (c::nat)"
  shows "c - c mod k < c \<and> c - c mod k \<noteq> 0 \<and> (c - c mod k) mod k = 0 \<and> c < c - c mod k + k"
proof -
  have "0 < c div k" using assms(1,3) by (simp add: div_greater_zero_iff)
  then have "0 < k * (c div k)" using assms(1) by simp
  moreover have "c - c mod k = k * (c div k)" by (rule minus_mod_eq_mult_div)
  moreover have "c mod k < k" "c = k * (c div k) + c mod k" using assms(1) by simp_all
  ultimately show ?thesis using assms(2) by (metis add.commute add_less_cancel_left add_cancel_right_left
        add_gr_0 le_add1 less_add_same_cancel1 mod_mult_self1_is_0 neq0_conv)
qed

lemma cell_member:
  "p < c \<Longrightarrow> c < n \<Longrightarrow> c < p + k \<Longrightarrow> c \<in> set (map (\<lambda>i. p + 1 + i) [0..<(min n (p + k) - 1) - (p::nat)])"
  by (auto intro!: image_eqI [of _ _ "c - p - 1"])

lemma nary_member:
  "f \<le> c \<Longrightarrow> c < n \<Longrightarrow> c < f + k \<Longrightarrow> c \<in> set (map (\<lambda>i. f + i) [0..<1 + (min n (f + k) - 1) - (f::nat)])"
  by (auto intro!: image_eqI [of _ _ "c - f"])

lemma nary_parent:
  assumes "0 < r" and "0 < (c::nat)"
  shows "r * ((c - 1) div r) + 1 \<le> c \<and> c \<le> r * ((c - 1) div r) + r"
proof -
  have "c - 1 = r * ((c - 1) div r) + (c - 1) mod r" "(c - 1) mod r < r" using assms(1) by simp_all
  with assms(2) show ?thesis by linarith
qed

lemma has_parent:
  assumes "0 < c" and "c < n"
  shows "\<exists>r<c. c \<in> set (pshm_children env n r)"
proof -
  let ?radix = "if env = 0 then int n - 1 else env"
  have n: "n \<noteq> 1" using assms by simp
  show ?thesis
  proof (cases "?radix < 0")
    case True
    let ?cell = "nat (- ?radix)"
    have cell: "0 < ?cell" using True by simp
    have root: "set (pshm_children env n 0) =
        set [1..<Suc (min n ?cell - 1)] \<union> set (pshm_every ?cell n ?cell)"
      using True n by (simp add: pshm_children_def Let_def)
    show ?thesis
    proof (cases "c mod ?cell = 0")
      case True
      then have "?cell dvd c" by (simp add: dvd_eq_mod_eq_0)
      then obtain k where k: "c = ?cell * k" by (rule dvdE)
      then obtain j where "k = Suc j" using assms(1) by (cases k) auto
      then have "c = ?cell + j * ?cell" using k by simp
      then have "c \<in> set (pshm_every ?cell n ?cell)" using every_set [OF cell] assms(2) by blast
      then show ?thesis using assms(1) root by blast
    next
      case False
      show ?thesis
      proof (cases "c < ?cell")
        case True
        then have "c \<in> set [1..<Suc (min n ?cell - 1)]" using assms by auto
        then show ?thesis using assms(1) root by blast
      next
        case big: False
        let ?p = "c - c mod ?cell"
        have "?cell \<le> c" using big by simp
        then have p: "?p < c" "?p \<noteq> 0" "?p mod ?cell = 0" "c < ?p + ?cell"
          using cell_base [OF cell False] by blast+
        have "c \<in> set (map (\<lambda>i. ?p + 1 + i) [0..<(min n (?p + ?cell) - 1) - ?p])"
          by (rule cell_member [OF p(1) assms(2) p(4)])
        moreover have "pshm_children env n ?p = map (\<lambda>i. ?p + 1 + i) [0..<(min n (?p + ?cell) - 1) - ?p]"
          using \<open>?radix < 0\<close> n p(2,3) by (simp only: pshm_children_def Let_def if_True if_False simp_thms)
        ultimately show ?thesis using p(1) by metis
      qed
    qed
  next
    case False
    let ?r = "nat ?radix"
    have r: "0 < ?r" using False assms by auto
    let ?p = "(c - 1) div ?r"
    have p: "?r * ?p + 1 \<le> c" "c \<le> ?r * ?p + ?r" using nary_parent [OF r assms(1)] by blast+
    have "c - 1 < c" using assms(1) by simp
    then have "?p < c" by (rule le_less_trans [OF div_le_dividend])
    moreover have "pshm_children env n ?p = map (\<lambda>i. ?r * ?p + 1 + i) [0..<1 + (min n (?r * ?p + 1 + ?r) - 1) - (?r * ?p + 1)]"
      using False n by (simp only: pshm_children_def Let_def if_False)
    moreover have "c \<in> set (map (\<lambda>i. ?r * ?p + 1 + i) [0..<1 + (min n (?r * ?p + 1 + ?r) - 1) - (?r * ?p + 1)])"
      using p assms(2) by (intro nary_member) auto
    ultimately show ?thesis by metis
  qed
qed

text \<open>\<open>below env n r q\<close>: the rank \<open>q\<close> is in the subtree of \<open>r\<close>.\<close>

inductive below :: "int \<Rightarrow> nat \<Rightarrow> nat \<Rightarrow> nat \<Rightarrow> bool" for env :: int and n :: nat where
  below_refl: "below env n r r"
| below_child: "below env n r p \<Longrightarrow> c \<in> set (pshm_children env n p) \<Longrightarrow> below env n r c"

lemma below_head: "c \<in> set (pshm_children env n r) \<Longrightarrow> below env n c q \<Longrightarrow> below env n r q"
  by (rotate_tac 1, induction rule: below.induct) (auto intro: below.intros)

lemma below_cases:
  "below env n r q \<Longrightarrow> q = r \<or> (\<exists>c \<in> set (pshm_children env n r). below env n c q)"
  by (induction rule: below.induct) (auto intro: below.intros)

lemma root_below: "q < n \<Longrightarrow> below env n 0 q"
proof (induction q rule: less_induct)
  case (less q)
  show ?case
  proof (cases "q = 0")
    case False
    then obtain r where r: "r < q" "q \<in> set (pshm_children env n r)" using has_parent less.prems by blast
    then have "below env n 0 r" using less by simp
    then show ?thesis using r(2) by (rule below_child)
  qed (simp add: below_refl)
qed

lemma below_bound: "below env n r q \<Longrightarrow> r < n \<Longrightarrow> q < n"
  by (induction rule: below.induct) (auto dest: child_bounds)

end
