(* ===== verification/Pshm_System.thy ===== *)
theory Pshm_System
  imports Pshm_Facts Barrier_History
begin

unbundle bit_operations_syntax

text \<open>
  All processes of one node in the shared-memory barrier: the shared structure, the private part of
  each process, and the steps of the code. A kick reads its children's words at different times;
  here each word it reads is either the current one or one that does not show an arrival, which is
  what an earlier read in the same kick may have returned. Client flags leave bits 16 and 17, which
  carry the phase in a packed word, clear.
\<close>

section \<open>The system\<close>

record pshm_sys = history +
  shm :: pshm_shared
  pteam :: "nat \<Rightarrow> pshm_team"

definition pshm_init :: "int \<Rightarrow> nat \<Rightarrow> pshm_sys" where
  "pshm_init env N = \<lparr>notified = (\<lambda>_. 0), completed = (\<lambda>_. 0),
     ballots = (\<lambda>_ _. (GASNET_BARRIERFLAG_ANONYMOUS, 0)), waiting = (\<lambda>_. None),
     shm = gasnete_pshmbarrier_init_shared N
       \<lparr>sh_state = 0, sh_ready = 0, sh_size = 0, sh_flags = 0, sh_value = 0, sh_node = (\<lambda>_. 0)\<rparr>,
     pteam = gasnete_pshmbarrier_init env N\<rparr>"

definition fetches :: "u64 \<Rightarrow> pshm_child list \<Rightarrow> nat \<Rightarrow> pshm_shared \<Rightarrow> (nat \<Rightarrow> u64) \<Rightarrow> bool" where
  "fetches goal children n sh reads \<longleftrightarrow>
     (\<forall>i<n. reads i = sh_node sh (ch_node (children ! i)) \<or> goal AND reads i = 0)"

inductive pshm_step :: "int \<Rightarrow> nat \<Rightarrow> pshm_sys \<Rightarrow> bar_event \<Rightarrow> pshm_sys \<Rightarrow> bool" for env :: int and N :: nat where
  pshm_notify:
    "r < N \<Longrightarrow> waiting s r = None \<Longrightarrow> pr = barrier_data (pteam s r) \<Longrightarrow> flags AND 0x30000 = 0 \<Longrightarrow>
     fetches (GASNETE_PSHM_BARR_PACK 0 0 (pr_two_to_phase pr XOR 3)) (pr_children pr)
       (length (pr_children pr)) (shm s) reads \<Longrightarrow>
     gasnete_pshmbarrier_notify reads (pteam s r) idv flags (shm s) = Inr (t, sh) \<Longrightarrow>
     e = Suc (notified s r) \<Longrightarrow>
     pshm_step env N s (Enter r (outcome_of (flags, idv)))
       (s\<lparr>shm := sh, pteam := (pteam s)(r := t), notified := (notified s)(r := e),
          ballots := (ballots s)(e := (ballots s e)(r := (flags, idv)))\<rparr>)"
| pshm_kick:
    "r < N \<Longrightarrow> pr = barrier_data (pteam s r) \<Longrightarrow>
     fetches (GASNETE_PSHM_BARR_PACK 0 0 (pr_two_to_phase pr)) (pr_children pr) (pr_remain pr) (shm s) reads \<Longrightarrow>
     gasnete_pshmbarrier_kick reads pr (shm s) = (d, pr1, sh) \<Longrightarrow>
     pshm_step env N s Internal (s\<lparr>shm := sh, pteam := (pteam s)(r := (pteam s r)\<lparr>barrier_data := pr1\<rparr>)\<rparr>)"
| pshm_wait_begin:
    "r < N \<Longrightarrow> waiting s r = None \<Longrightarrow> gasnete_pshmbarrier_wait_begin (pteam s r) = Inr t \<Longrightarrow>
     pshm_step env N s Internal (s\<lparr>pteam := (pteam s)(r := t), waiting := (waiting s)(r := Some b)\<rparr>)"
| pshm_wait_end:
    "r < N \<Longrightarrow> waiting s r = Some (flags, idv) \<Longrightarrow> pshm_done (barrier_data (pteam s r)) (shm s) \<Longrightarrow>
     pshm_step env N s (Leave r (outcome_of (sh_flags (shm s), sh_value (shm s))))
       (s\<lparr>completed := (completed s)(r := notified s r), waiting := (waiting s)(r := None)\<rparr>)"

inductive_cases pshm_LeaveE: "pshm_step env N s (Leave r v) t"

section \<open>Views of a state\<close>

abbreviation prv :: "pshm_sys \<Rightarrow> nat \<Rightarrow> pshm_private" where
  "prv s r \<equiv> barrier_data (pteam s r)"

text \<open>The last barrier at which a rank has signalled its arrival to its parent.\<close>

definition arr :: "pshm_sys \<Rightarrow> nat \<Rightarrow> nat" where
  "arr s r = (if 0 < pr_remain (prv s r) then notified s r - 1 else notified s r)"

text \<open>
  The ballot combines, and only combines, notifies of barrier \<open>e\<close>, those of all ranks in the set
  among them.
\<close>

definition covers :: "nat \<Rightarrow> pshm_sys \<Rightarrow> nat \<Rightarrow> (nat \<Rightarrow> bool) \<Rightarrow> ballot \<Rightarrow> bool" where
  "covers N s e S b \<longleftrightarrow> (\<forall>q<N. S q \<longrightarrow> e \<le> notified s q \<and> vote s e q \<le> outcome_of b) \<and>
     upper s N e (outcome_of b) \<and> clean e (fst b)"

lemma covers_mono: "covers N s e S b \<Longrightarrow> extends N s t \<Longrightarrow> covers N t e S b"
  unfolding covers_def by (auto simp: extends_def intro: le_trans upper_mono [unfolded extends_def])

lemma covers_match:
  "covers N s e S a \<Longrightarrow> covers N s e T b \<Longrightarrow> covers N s e (\<lambda>q. S q \<or> T q) (barrier_match a b)"
  unfolding covers_def by (auto simp: upper_sup intro: clean_match le_supI1 le_supI2)

section \<open>The invariant\<close>

definition pshape :: "int \<Rightarrow> nat \<Rightarrow> pshm_sys \<Rightarrow> nat \<Rightarrow> bool" where
  "pshape env N s r \<longleftrightarrow> pr_rank (prv s r) = r \<and>
     set (map ch_node (pr_children (prv s r))) = set (pshm_children env N r) \<and>
     pr_two_to_phase (prv s r) = ph (notified s r) \<and>
     pr_remain (prv s r) \<le> length (pr_children (prv s r)) \<and>
     (notified s r = completed s r \<or> active s r) \<and>
     (0 < pr_remain (prv s r) \<longrightarrow> active s r) \<and>
     (barrier_splitstate (pteam s r) = INSIDE_BARRIER \<longleftrightarrow> active s r \<and> waiting s r = None) \<and>
     (waiting s r \<noteq> None \<longrightarrow> active s r)"

definition heard :: "pshm_sys \<Rightarrow> nat \<Rightarrow> nat set" where
  "heard s r = set (drop (pr_remain (prv s r)) (map ch_node (pr_children (prv s r))))"

definition partial_ok :: "int \<Rightarrow> nat \<Rightarrow> pshm_sys \<Rightarrow> nat \<Rightarrow> bool" where
  "partial_ok env N s r \<longleftrightarrow> (0 < pr_remain (prv s r) \<longrightarrow>
     covers N s (notified s r) (\<lambda>q. q = r \<or> (\<exists>c\<in>heard s r. below env N c q))
       (pr_flags (prv s r), pr_value (prv s r)) \<and>
     (\<forall>c\<in>heard s r. notified s r \<le> arr s c))"

definition word_ok :: "int \<Rightarrow> nat \<Rightarrow> pshm_sys \<Rightarrow> nat \<Rightarrow> bool" where
  "word_ok env N s r \<longleftrightarrow> (\<exists>f v. sh_node (shm s) r = GASNETE_PSHM_BARR_PACK v f (ph (arr s r)) \<and>
     clean (arr s r) f \<and> (0 < arr s r \<longrightarrow> covers N s (arr s r) (below env N r) (f, v)))"

definition root_ok :: "nat \<Rightarrow> pshm_sys \<Rightarrow> bool" where
  "root_ok N s \<longleftrightarrow> (if arr s 0 = 0 then sh_state (shm s) = 0
     else sh_state (shm s) = state_word (if mismatch (sh_flags (shm s)) then GASNET_ERR_BARRIER_MISMATCH
            else GASNET_OK) (arr s 0) \<and>
       covers N s (arr s 0) (\<lambda>_. True) (sh_flags (shm s), sh_value (shm s)))"

definition pinv :: "int \<Rightarrow> nat \<Rightarrow> pshm_sys \<Rightarrow> bool" where
  "pinv env N s \<longleftrightarrow> 0 < N \<and> (\<forall>r<N. pshape env N s r \<and> partial_ok env N s r \<and> word_ok env N s r) \<and>
     (\<forall>r<N. \<forall>c\<in>set (pshm_children env N r). arr s r \<le> arr s c) \<and>
     root_ok N s \<and> (\<forall>r<N. completed s r \<le> arr s 0)"

lemma pshm_init_inv: "0 < N \<Longrightarrow> pinv env N (pshm_init env N)"
  by (auto simp: pinv_def pshape_def partial_ok_def word_ok_def root_ok_def arr_def pshm_init_def
      gasnete_pshmbarrier_init_def gasnete_pshmbarrier_init_private_def
      gasnete_pshmbarrier_init_shared_def active_def ph_def clean_def o_def
      intro!: exI [of _ 0])

lemma arr_below: "below env N r q \<Longrightarrow> pinv env N s \<Longrightarrow> r < N \<Longrightarrow> arr s r \<le> arr s q"
proof (induction rule: below.induct)
  case (below_child r p c)
  then have "arr s p \<le> arr s c" using below_bound by (auto simp: pinv_def)
  with below_child show ?case by simp
qed simp

lemma arr_bounds:
  assumes "pinv env N s" and "r < N"
  shows "arr s 0 \<le> arr s r" "arr s r \<le> notified s r" "notified s r \<le> Suc (arr s 0)"
proof -
  show "arr s 0 \<le> arr s r" using arr_below [OF root_below] assms by (auto simp: pinv_def)
  show "arr s r \<le> notified s r" by (simp add: arr_def)
  have "pshape env N s r" "completed s r \<le> arr s 0" using assms by (auto simp: pinv_def)
  then show "notified s r \<le> Suc (arr s 0)" by (auto simp: pshape_def active_def)
qed

text \<open>A child of a rank that still waits is at most one arrival ahead, so its phase bit decides.\<close>

lemma child_arrived:
  assumes inv: "pinv env N s" and r: "r < N" "0 < pr_remain (prv s r)" and c: "c \<in> set (pshm_children env N r)"
    and ready: "GASNETE_PSHM_BARR_PACK 0 0 (ph (notified s r)) AND sh_node (shm s) c \<noteq> 0"
  shows "arr s c = notified s r"
proof -
  have cN: "c < N" using child_bounds [OF c r(1)] by simp
  have "word_ok env N s c" using inv cN by (simp add: pinv_def)
  then obtain f v where w: "sh_node (shm s) c = GASNETE_PSHM_BARR_PACK v f (ph (arr s c))" "clean (arr s c) f"
    by (auto simp: word_ok_def)
  have even: "even (notified s r) = even (arr s c)" using ready goal_test [OF w(2)] by (simp add: w(1))
  have "active s r" using inv r by (auto simp: pinv_def pshape_def)
  then have n: "notified s r = Suc (arr s r)" using r(2) by (simp add: arr_def active_def)
  have "arr s r \<le> arr s c" using inv r(1) c by (auto simp: pinv_def)
  moreover have "arr s c \<le> Suc (arr s r)"
    using arr_bounds [OF inv cN] arr_bounds [OF inv r(1)] by linarith
  ultimately show ?thesis using even n by (cases "arr s c = arr s r") auto
qed

end
