(* ===== verification/Pshm_Safety.thy ===== *)
theory Pshm_Safety
  imports Pshm_System
begin

text \<open>The steps of the shared-memory barrier keep its invariant.\<close>

unbundle bit_operations_syntax

section \<open>Arrivals\<close>

lemma outcome_pair: "covers N s e S (f, v) \<Longrightarrow> clean e f"
  by (simp add: covers_def)

lemma word_frame:
  assumes "word_ok env N s q" and "extends N s u"
    and "sh_node (shm u) q = sh_node (shm s) q" and "arr u q = arr s q"
  shows "word_ok env N u q"
proof -
  from assms(1) obtain f v where w: "sh_node (shm s) q = GASNETE_PSHM_BARR_PACK v f (ph (arr s q))"
    "clean (arr s q) f" "0 < arr s q \<longrightarrow> covers N s (arr s q) (below env N q) (f, v)"
    unfolding word_ok_def by (elim exE conjE) (rule that)
  from w(3) have "0 < arr s q \<longrightarrow> covers N u (arr s q) (below env N q) (f, v)"
    using covers_mono [OF _ assms(2)] by blast
  with w(1,2) have "sh_node (shm s) q = GASNETE_PSHM_BARR_PACK v f (ph (arr s q)) \<and> clean (arr s q) f \<and>
      (0 < arr s q \<longrightarrow> covers N u (arr s q) (below env N q) (f, v))" by (intro conjI)
  then show ?thesis unfolding word_ok_def assms(3,4) by (intro exI)
qed

lemma root_frame:
  assumes "root_ok N s" and "extends N s u" and "arr u 0 = arr s 0"
    and "sh_state (shm u) = sh_state (shm s)" "sh_flags (shm u) = sh_flags (shm s)" "sh_value (shm u) = sh_value (shm s)"
  shows "root_ok N u"
  using assms(1) covers_mono [OF _ assms(2)] unfolding root_ok_def assms(3-6) by (auto split: if_splits)

text \<open>A rank signals its arrival at barrier \<open>e\<close> with the combined ballot of its subtree.\<close>

lemma arrive_inv:
  assumes inv: "pinv env N s" and r: "r < N" and e: "e = Suc (arr s r)"
    and sh: "shm u = gasnete_pshmbarrier_arrive pr v f (ph e) (shm s)" "pr_rank pr = r"
    and teams: "\<And>q. q \<noteq> r \<Longrightarrow> pteam u q = pteam s q" and ext: "extends N s u"
    and hist: "\<And>q. q \<noteq> r \<Longrightarrow> notified u q = notified s q" "completed u = completed s" "waiting u = waiting s"
    and arrived: "arr u r = e" "pr_remain (prv u r) = 0" and shape: "pshape env N u r"
    and cov: "covers N u e (below env N r) (f, v)"
    and kids: "\<And>c. c \<in> set (pshm_children env N r) \<Longrightarrow> e \<le> arr s c"
  shows "pinv env N u"
proof -
  have N: "0 < N" using inv by (simp add: pinv_def)
  have arr: "arr u q = (if q = r then e else arr s q)" for q
    using teams hist arrived(1) by (cases "q = r") (simp_all add: arr_def)
  then have le: "arr s q \<le> arr u q" for q by (simp add: e)
  have nodes: "sh_node (shm u) = (sh_node (shm s))(r := GASNETE_PSHM_BARR_PACK v f (ph e))"
    by (simp add: sh gasnete_pshmbarrier_arrive_def Let_def PSHM_BSTATE_SIGNAL_def)
  have "pshape env N u q \<and> partial_ok env N u q \<and> word_ok env N u q" if q: "q < N" for q
  proof (cases "q = r")
    case True
    have "word_ok env N u r"
      using cov outcome_pair [OF cov] unfolding word_ok_def arr nodes by auto
    then show ?thesis using True shape arrived(2) by (simp add: partial_ok_def)
  next
    case False
    have s: "pshape env N s q" "partial_ok env N s q" "word_ok env N s q" using inv q by (auto simp: pinv_def)
    have same: "pteam u q = pteam s q" "notified u q = notified s q" "heard u q = heard s q"
      using False teams hist by (simp_all add: heard_def)
    have "pshape env N u q" using s(1) same hist(2,3) by (simp add: pshape_def active_def)
    moreover have "partial_ok env N u q"
      using s(2) same covers_mono [OF _ ext] le by (auto simp: partial_ok_def intro: le_trans)
    moreover have "word_ok env N u q"
      using False by (intro word_frame [OF s(3) ext]) (simp_all add: nodes arr)
    ultimately show ?thesis by simp
  qed
  moreover have "arr u q \<le> arr u c" if "q < N" "c \<in> set (pshm_children env N q)" for q c
  proof (cases "q = r")
    case True
    then have "c \<noteq> r" using child_bounds [OF that(2,1)] by simp
    then show ?thesis using True kids that(2) by (simp add: arr)
  next
    case False
    have "arr s q \<le> arr s c" using inv that by (auto simp: pinv_def)
    then show ?thesis using False le [of c] by (simp add: arr)
  qed
  moreover have "root_ok N u"
  proof (cases "r = 0")
    case True
    have "covers N u e (\<lambda>_. True) (f, v)"
      using cov root_below True by (simp add: covers_def)
    moreover have "sh_flags (shm u) = f" "sh_value (shm u) = v"
      "sh_state (shm u) = state_word (if mismatch f then GASNET_ERR_BARRIER_MISMATCH else GASNET_OK) e"
      using True by (simp_all add: sh gasnete_pshmbarrier_arrive_def Let_def PSHM_BSTATE_SIGNAL_def state_word_def)
    ultimately show ?thesis using True e by (simp add: root_ok_def arr)
  next
    case False
    then have "sh_state (shm u) = sh_state (shm s)" "sh_flags (shm u) = sh_flags (shm s)"
      "sh_value (shm u) = sh_value (shm s)" using sh by (simp_all add: gasnete_pshmbarrier_arrive_def Let_def)
    then show ?thesis using inv False by (intro root_frame [OF _ ext]) (simp_all add: pinv_def arr)
  qed
  moreover have "completed u q \<le> arr u 0" if "q < N" for q
    using inv that le [of 0] by (auto simp: pinv_def hist intro: le_trans)
  ultimately show ?thesis using N by (simp add: pinv_def)
qed

section \<open>Matching the arrived children\<close>

lemma match_covers:
  assumes "covers N s e S acc"
    and "\<forall>c\<in>set L. covers N s e (T (ch_node c)) (GASNETE_PSHM_BARR_FLAGS (ch_u64 c), GASNETE_PSHM_BARR_VALUE (ch_u64 c))"
  shows "covers N s e (\<lambda>q. S q \<or> (\<exists>c\<in>ch_node ` set L. T c q)) (pshm_match L acc)"
  using assms
proof (induction L arbitrary: S acc)
  case (Cons c L)
  let ?b = "(GASNETE_PSHM_BARR_FLAGS (ch_u64 c), GASNETE_PSHM_BARR_VALUE (ch_u64 c))"
  have "covers N s e (\<lambda>q. S q \<or> T (ch_node c) q) (barrier_match acc ?b)"
    using Cons.prems by (intro covers_match) auto
  from Cons.IH [OF this] Cons.prems(2)
  have "covers N s e (\<lambda>q. (S q \<or> T (ch_node c) q) \<or> (\<exists>c\<in>ch_node ` set L. T c q)) (pshm_match L (barrier_match acc ?b))"
    by simp
  then show ?case by (simp add: pshm_match_def disj_assoc)
qed (simp add: pshm_match_def)

lemma word_covers:
  assumes "word_ok env N s c" and "0 < arr s c"
  shows "covers N s (arr s c) (below env N c)
     (GASNETE_PSHM_BARR_FLAGS (sh_node (shm s) c), GASNETE_PSHM_BARR_VALUE (sh_node (shm s) c))"
proof -
  obtain f v where w: "sh_node (shm s) c = GASNETE_PSHM_BARR_PACK v f (ph (arr s c))"
    "covers N s (arr s c) (below env N c) (f, v)" using assms by (auto simp: word_ok_def)
  then show ?thesis
    unfolding w(1) covers_def pack_outcome by (simp add: clean_pack)
qed

section \<open>Kick\<close>

text \<open>What the fetch and the scan of a kick do to the list of children.\<close>

lemma kick_children:
  assumes n: "n = pr_remain pr" "0 < n" "n \<le> length (pr_children pr)"
    and fetched: "fetched = map (\<lambda>i. if i < n then (pr_children pr ! i)\<lparr>ch_u64 := reads i\<rparr> else pr_children pr ! i)
        [0..<length (pr_children pr)]"
    and scan: "pshm_scan goal fetched 0 n = (children, m)"
    and reads: "fetches goal (pr_children pr) n sh reads"
  shows "m \<le> n" "set (map ch_node children) = set (map ch_node (pr_children pr))"
    "length children = length (pr_children pr)"
    "set (drop m (map ch_node children)) =
       set (drop n (map ch_node (pr_children pr))) \<union> ch_node ` set (map (\<lambda>i. children ! (m + i)) [0..<n - m])"
    "\<And>c. c \<in> set (map (\<lambda>i. children ! (m + i)) [0..<n - m]) \<Longrightarrow>
       ch_node c \<in> set (map ch_node (pr_children pr)) \<and> ch_u64 c = sh_node sh (ch_node c) \<and> goal AND sh_node sh (ch_node c) \<noteq> 0"
    "m = n \<Longrightarrow> i < n \<Longrightarrow> goal AND reads i = 0"
proof -
  have len: "length fetched = length (pr_children pr)" by (simp add: fetched)
  from pshm_scan_spec [OF scan] n(3) len have sp: "mset children = mset fetched" "drop n children = drop n fetched"
    "m \<le> n" "\<forall>k<m. goal AND ch_u64 (children ! k) = 0"
    "\<forall>k. m \<le> k \<and> k < n \<longrightarrow> goal AND ch_u64 (children ! k) \<noteq> 0" by auto
  show "m \<le> n" by (rule sp(3))
  show lc: "length children = length (pr_children pr)" using sp(1) len mset_eq_length by metis
  have names: "map ch_node fetched = map ch_node (pr_children pr)"
    by (rule nth_equalityI) (simp_all add: fetched)
  show set_eq: "set (map ch_node children) = set (map ch_node (pr_children pr))"
    using sp(1) names by (metis list.set_map mset_eq_setD)
  have "mset (take n children) + mset (drop n children) = mset (take n fetched) + mset (drop n fetched)"
    using sp(1) by (metis append_take_drop_id mset_append)
  then have "mset (take n children) = mset (take n fetched)" unfolding sp(2) by (rule add_right_imp_eq)
  then have take: "set (take n children) = set (take n fetched)" by (rule mset_eq_setD)
  have from_fetched: "\<exists>i<n. children ! k = fetched ! i" if k: "k < n" for k
  proof -
    have "children ! k \<in> set (take n children)" using k n(3) lc by (auto simp: in_set_conv_nth intro!: exI [of _ k])
    then show ?thesis unfolding take using n(3) len by (auto simp: in_set_conv_nth)
  qed
  show "goal AND reads i = 0" if "m = n" "i < n"
  proof -
    have "fetched ! i \<in> set (take n fetched)" using that(2) n(3) len by (auto simp: in_set_conv_nth intro!: exI [of _ i])
    then obtain k where k: "k < n" "children ! k = fetched ! i"
      unfolding take [symmetric] using n(3) lc by (auto simp: in_set_conv_nth)
    then have "goal AND ch_u64 (fetched ! i) = 0" using sp(4) that(1) by metis
    then show ?thesis using that(2) n(3) by (simp add: fetched)
  qed
  have mid: "map (\<lambda>i. children ! (m + i)) [0..<n - m] = take (n - m) (drop m children)"
    by (rule nth_equalityI) (use n(3) lc sp(3) in auto)
  have "drop m children = take (n - m) (drop m children) @ drop n children"
  proof -
    have "drop (n - m) (drop m children) = drop n children" using sp(3) by simp
    then show ?thesis using append_take_drop_id [of "n - m" "drop m children"] by simp
  qed
  then have "set (drop m children) = set (take (n - m) (drop m children)) \<union> set (drop n fetched)"
    using sp(2) by (metis set_append)
  then have "ch_node ` set (drop m children) =
      ch_node ` set (take (n - m) (drop m children)) \<union> ch_node ` set (drop n fetched)" by (simp add: image_Un)
  moreover have "ch_node ` set (drop n fetched) = set (drop n (map ch_node (pr_children pr)))"
    using names by (metis drop_map list.set_map)
  ultimately show "set (drop m (map ch_node children)) =
      set (drop n (map ch_node (pr_children pr))) \<union> ch_node ` set (map (\<lambda>i. children ! (m + i)) [0..<n - m])"
    unfolding mid by (simp add: drop_map Un_commute)
  fix c assume "c \<in> set (map (\<lambda>i. children ! (m + i)) [0..<n - m])"
  then obtain x where x: "x < n - m" "c = children ! (m + x)" by auto
  define k where "k = m + x"
  have k: "m \<le> k" "k < n" "c = children ! k" using x by (simp_all add: k_def)
  from from_fetched [OF k(2)] k(3) obtain i where i: "i < n" "c = fetched ! i" by blast
  then have c: "c = (pr_children pr ! i)\<lparr>ch_u64 := reads i\<rparr>" using n(3) by (simp add: fetched)
  have "goal AND ch_u64 c \<noteq> 0" unfolding k(3) using sp(5) k(1,2) by blast
  then have "goal AND reads i \<noteq> 0" by (simp add: c)
  then have "reads i = sh_node sh (ch_node c)" using reads i(1) c by (auto simp: fetches_def)
  moreover have "ch_node c \<in> set (map ch_node (pr_children pr))"
    using i(1) n(3) unfolding c by (simp add: nth_mem)
  moreover have "ch_u64 c = reads i" by (simp add: c)
  ultimately show "ch_node c \<in> set (map ch_node (pr_children pr)) \<and>
      ch_u64 c = sh_node sh (ch_node c) \<and> goal AND sh_node sh (ch_node c) \<noteq> 0"
    using \<open>goal AND reads i \<noteq> 0\<close> by metis
qed

text \<open>A kick of a rank that waits for \<open>n\<close> children: what is left, and the ballot it has combined.\<close>

lemma pkick_result:
  assumes inv: "pinv env N s" and r: "r < N" and rem: "0 < pr_remain (prv s r)"
    and reads: "fetches (GASNETE_PSHM_BARR_PACK 0 0 (pr_two_to_phase (prv s r))) (pr_children (prv s r))
       (pr_remain (prv s r)) (shm s) reads"
    and op: "gasnete_pshmbarrier_kick reads (prv s r) (shm s) = (d, pr1, sh)"
  shows "\<exists>children m f v. m \<le> pr_remain (prv s r) \<and>
     set (map ch_node children) = set (pshm_children env N r) \<and> length children = length (pr_children (prv s r)) \<and>
     covers N s (notified s r) (\<lambda>q. q = r \<or> (\<exists>c\<in>set (drop m (map ch_node children)). below env N c q)) (f, v) \<and>
     (\<forall>c\<in>set (drop m (map ch_node children)). notified s r \<le> arr s c) \<and>
     (if m \<noteq> 0 then pr1 = (prv s r)\<lparr>pr_children := children, pr_remain := m, pr_value := v, pr_flags := f\<rparr> \<and> sh = shm s
      else pr1 = (prv s r)\<lparr>pr_children := children, pr_remain := 0\<rparr> \<and>
        sh = gasnete_pshmbarrier_arrive pr1 v f (ph (notified s r)) (shm s)) \<and>
     (m = pr_remain (prv s r) \<longrightarrow> (\<forall>i<m. GASNETE_PSHM_BARR_PACK 0 0 (ph (notified s r)) AND reads i = 0))"
proof -
  let ?pr = "prv s r" and ?n = "pr_remain (prv s r)" and ?e = "notified s r"
  let ?goal = "GASNETE_PSHM_BARR_PACK 0 0 (pr_two_to_phase ?pr)"
  let ?fetched = "map (\<lambda>i. if i < ?n then (pr_children ?pr ! i)\<lparr>ch_u64 := reads i\<rparr> else pr_children ?pr ! i)
        [0..<length (pr_children ?pr)]"
  have sh: "pshape env N s r" "partial_ok env N s r" using inv r by (auto simp: pinv_def)
  then have tp: "pr_two_to_phase ?pr = ph ?e" and len: "?n \<le> length (pr_children ?pr)"
    and kids: "set (map ch_node (pr_children ?pr)) = set (pshm_children env N r)" by (auto simp: pshape_def)
  obtain children m where scan: "pshm_scan ?goal ?fetched 0 ?n = (children, m)" by fastforce
  note kc = kick_children [OF refl rem len refl scan reads]
  let ?L = "map (\<lambda>i. children ! (m + i)) [0..<?n - m]"
  obtain f v where match: "pshm_match ?L (pr_flags ?pr, pr_value ?pr) = (f, v)" by fastforce
  have new: "arr s (ch_node c) = ?e \<and> ch_u64 c = sh_node (shm s) (ch_node c) \<and> ch_node c < N" if "c \<in> set ?L" for c
    using kc(5) [OF that] kids tp child_arrived [OF inv r rem] child_bounds [OF _ r] by auto
  have e: "0 < ?e" using sh(1) rem by (auto simp: pshape_def active_def)
  have "covers N s ?e (\<lambda>q. (q = r \<or> (\<exists>c\<in>heard s r. below env N c q)) \<or> (\<exists>c\<in>ch_node ` set ?L. below env N c q))
      (pshm_match ?L (pr_flags ?pr, pr_value ?pr))"
  proof (rule match_covers)
    show "covers N s ?e (\<lambda>q. q = r \<or> (\<exists>c\<in>heard s r. below env N c q)) (pr_flags ?pr, pr_value ?pr)"
      using sh(2) rem by (simp add: partial_ok_def)
    show "\<forall>c\<in>set ?L. covers N s ?e (below env N (ch_node c)) (GASNETE_PSHM_BARR_FLAGS (ch_u64 c), GASNETE_PSHM_BARR_VALUE (ch_u64 c))"
    proof
      fix c assume c: "c \<in> set ?L"
      with new have "word_ok env N s (ch_node c)" using inv by (auto simp: pinv_def)
      from word_covers [OF this] new [OF c] e
      show "covers N s ?e (below env N (ch_node c)) (GASNETE_PSHM_BARR_FLAGS (ch_u64 c), GASNETE_PSHM_BARR_VALUE (ch_u64 c))"
        by simp
    qed
  qed
  moreover have dm: "set (drop m (map ch_node children)) = heard s r \<union> ch_node ` set ?L"
    using kc(4) by (simp add: heard_def)
  ultimately have cov: "covers N s ?e (\<lambda>q. q = r \<or> (\<exists>c\<in>set (drop m (map ch_node children)). below env N c q)) (f, v)"
    unfolding match dm by (simp add: bex_Un disj_assoc)
  have ahead: "\<forall>c\<in>set (drop m (map ch_node children)). ?e \<le> arr s c"
  proof
    fix c assume "c \<in> set (drop m (map ch_node children))"
    then consider "c \<in> heard s r" | x where "x \<in> set ?L" "c = ch_node x" unfolding dm by blast
    then show "?e \<le> arr s c"
    proof cases
      case 1
      then show ?thesis using sh(2) rem by (simp add: partial_ok_def)
    next
      case 2
      then show ?thesis using new by simp
    qed
  qed
  have "gasnete_pshmbarrier_kick reads ?pr (shm s) =
      (if m \<noteq> 0 then (False, ?pr\<lparr>pr_children := children, pr_remain := m, pr_value := v, pr_flags := f\<rparr>, shm s)
       else (True, ?pr\<lparr>pr_children := children, pr_remain := m\<rparr>,
         gasnete_pshmbarrier_arrive (?pr\<lparr>pr_children := children, pr_remain := m\<rparr>) v f (pr_two_to_phase ?pr) (shm s)))"
    using rem unfolding gasnete_pshmbarrier_kick_def Let_def scan prod.case match by simp
  with op tp have res: "if m \<noteq> 0 then pr1 = ?pr\<lparr>pr_children := children, pr_remain := m, pr_value := v, pr_flags := f\<rparr> \<and> sh = shm s
      else pr1 = ?pr\<lparr>pr_children := children, pr_remain := 0\<rparr> \<and> sh = gasnete_pshmbarrier_arrive pr1 v f (ph ?e) (shm s)"
    by (auto split: if_splits)
  have rest: "m = ?n \<longrightarrow> (\<forall>i<m. ?goal AND reads i = 0)" using kc(6) by blast
  show ?thesis
    using kc(1-3) kids cov ahead res rest tp by (intro exI [of _ children] exI [of _ m] exI [of _ f] exI [of _ v]) simp
qed

lemma below_children:
  "(\<lambda>q. q = r \<or> (\<exists>c\<in>set (pshm_children env N r). below env N c q)) = below env N r"
  by (intro ext) (auto intro: below_refl below_head dest: below_cases)

lemma pkick_inv:
  assumes inv: "pinv env N s" and r: "r < N"
    and reads: "fetches (GASNETE_PSHM_BARR_PACK 0 0 (pr_two_to_phase (prv s r))) (pr_children (prv s r))
       (pr_remain (prv s r)) (shm s) reads"
    and op: "gasnete_pshmbarrier_kick reads (prv s r) (shm s) = (d, pr1, sh)"
    and u: "u = s\<lparr>shm := sh, pteam := (pteam s)(r := (pteam s r)\<lparr>barrier_data := pr1\<rparr>)\<rparr>"
  shows "pinv env N u"
proof (cases "pr_remain (prv s r) = 0")
  case True
  then have "pr1 = prv s r" "sh = shm s" using op by (simp_all add: gasnete_pshmbarrier_kick_def)
  then have "u = s" by (simp add: u)
  then show ?thesis using inv by simp
next
  case False
  then have rem: "0 < pr_remain (prv s r)" by simp
  let ?e = "notified s r"
  have sp: "pshape env N s r" using inv r by (simp add: pinv_def)
  from pkick_result [OF inv r rem reads op] obtain children m f v where
    m: "m \<le> pr_remain (prv s r)" "set (map ch_node children) = set (pshm_children env N r)"
      "length children = length (pr_children (prv s r))"
    and cov: "covers N s ?e (\<lambda>q. q = r \<or> (\<exists>c\<in>set (drop m (map ch_node children)). below env N c q)) (f, v)"
    and ahead: "\<forall>c\<in>set (drop m (map ch_node children)). ?e \<le> arr s c"
    and res: "if m \<noteq> 0 then pr1 = (prv s r)\<lparr>pr_children := children, pr_remain := m, pr_value := v, pr_flags := f\<rparr> \<and> sh = shm s
      else pr1 = (prv s r)\<lparr>pr_children := children, pr_remain := 0\<rparr> \<and>
        sh = gasnete_pshmbarrier_arrive pr1 v f (ph ?e) (shm s)" by blast
  have pu: "prv u r = pr1" "pteam u r = (pteam s r)\<lparr>barrier_data := pr1\<rparr>" by (simp_all add: u)
  have nt: "notified u = notified s" "completed u = completed s" "waiting u = waiting s" "ballots u = ballots s"
    by (simp_all add: u)
  have ext: "extends N s u" using nt by (simp add: extends_def)
  have act: "notified s r = Suc (completed s r)" using sp rem by (simp add: pshape_def active_def)
  have ar: "arr s r = ?e - 1" using rem by (simp add: arr_def)
  show ?thesis
  proof (cases "m = 0")
    case True
    then have p1: "pr1 = (prv s r)\<lparr>pr_children := children, pr_remain := 0\<rparr>"
      "sh = gasnete_pshmbarrier_arrive pr1 v f (ph ?e) (shm s)" using res by auto
    show ?thesis
    proof (rule arrive_inv [OF inv r, of ?e u pr1 v f])
      show "?e = Suc (arr s r)" using ar act by simp
      show "shm u = gasnete_pshmbarrier_arrive pr1 v f (ph ?e) (shm s)" by (simp add: u p1(2))
      show "pr_rank pr1 = r" using sp by (simp add: p1(1) pshape_def)
      show "pshape env N u r" using sp m(2) unfolding pshape_def nt active_def pu
        by (simp add: p1(1))
      show "arr u r = ?e" by (simp add: arr_def pu nt p1(1))
      show "pr_remain (prv u r) = 0" by (simp add: pu p1(1))
      show "covers N u ?e (below env N r) (f, v)"
        using covers_mono [OF cov ext] True m(2) below_children [where r=r and env=env and N=N]
        by (simp del: set_map)
      show "?e \<le> arr s c" if "c \<in> set (pshm_children env N r)" for c
        using ahead that True m(2) by (metis drop_0)
    qed (use ext nt in \<open>simp_all add: u\<close>)
  next
    case False
    then have p1: "pr1 = (prv s r)\<lparr>pr_children := children, pr_remain := m, pr_value := v, pr_flags := f\<rparr>" "sh = shm s"
      using res by auto
    have arr: "arr u q = arr s q" for q using False rem by (simp add: arr_def u p1)
    have "pshape env N u q \<and> partial_ok env N u q \<and> word_ok env N u q" if q: "q < N" for q
    proof (cases "q = r")
      case True
      have "pshape env N u r" using sp m False rem unfolding pshape_def nt active_def pu by (simp add: p1(1))
      moreover have "heard u r = set (drop m (map ch_node children))" by (simp add: heard_def pu p1(1))
      then have "partial_ok env N u r"
        using covers_mono [OF cov ext] ahead by (simp add: partial_ok_def nt arr pu p1(1))
      moreover have "word_ok env N s r" using inv r by (simp add: pinv_def)
      then have "word_ok env N u r"
        by (rule word_frame [OF _ ext]) (simp_all add: arr, simp add: u p1(2))
      ultimately show ?thesis using True by simp
    next
      case neq: False
      have s: "pshape env N s q" "partial_ok env N s q" "word_ok env N s q" using inv q by (auto simp: pinv_def)
      have same: "pteam u q = pteam s q" "heard u q = heard s q" using neq by (simp_all add: u heard_def)
      have "pshape env N u q" using s(1) same nt by (simp add: pshape_def active_def)
      moreover have "partial_ok env N u q"
        using s(2) same nt covers_mono [OF _ ext] arr by (auto simp: partial_ok_def)
      moreover have "word_ok env N u q"
        by (rule word_frame [OF s(3) ext]) (simp_all add: arr, simp add: u p1(2))
      ultimately show ?thesis by simp
    qed
    moreover have "root_ok N u"
      using inv by (intro root_frame [OF _ ext]) (simp_all add: pinv_def arr, simp_all add: u p1(2))
    ultimately show ?thesis using inv by (auto simp: pinv_def arr nt)
  qed
qed

section \<open>Notify and wait\<close>

text \<open>A notify starts by recording the ballot of the rank and counting its children.\<close>

definition opened :: "nat \<Rightarrow> ballot \<Rightarrow> nat \<Rightarrow> pshm_sys \<Rightarrow> pshm_sys" where
  "opened r b k s = (let e = Suc (notified s r) in
     s\<lparr>pteam := (pteam s)(r := (pteam s r)\<lparr>barrier_splitstate := INSIDE_BARRIER, barrier_data :=
         (prv s r)\<lparr>pr_two_to_phase := pr_two_to_phase (prv s r) XOR 3, pr_remain := k,
            pr_value := snd b, pr_flags := fst b\<rparr>\<rparr>),
       notified := (notified s)(r := e), ballots := (ballots s)(e := (ballots s e)(r := b))\<rparr>)"

lemma opened_frame:
  "shm (opened r b k s) = shm s" "completed (opened r b k s) = completed s" "waiting (opened r b k s) = waiting s"
  "notified (opened r b k s) = (notified s)(r := Suc (notified s r))"
  "q \<noteq> r \<Longrightarrow> pteam (opened r b k s) q = pteam s q"
  "prv (opened r b k s) r = (prv s r)\<lparr>pr_two_to_phase := pr_two_to_phase (prv s r) XOR 3, pr_remain := k,
     pr_value := snd b, pr_flags := fst b\<rparr>"
  "barrier_splitstate (pteam (opened r b k s) r) = INSIDE_BARRIER"
  "vote (opened r b k s) (Suc (notified s r)) r = outcome_of b"
  by (simp_all add: opened_def Let_def)

lemma opened_extends: "extends N s (opened r b k s)"
  by (auto simp: extends_def opened_def Let_def)

lemma opened_covers:
  assumes "r < N" and "clean (Suc (notified s r)) (fst b)"
  shows "covers N (opened r b k s) (Suc (notified s r)) (\<lambda>q. q = r) b"
proof -
  have "upper (opened r b k s) N (Suc (notified s r)) (vote (opened r b k s) (Suc (notified s r)) r)"
    using assms(1) by (intro upper_vote) (simp_all add: opened_frame)
  then have "upper (opened r b k s) N (Suc (notified s r)) (outcome_of b)" unfolding opened_frame(8) .
  moreover have "Suc (notified s r) \<le> notified (opened r b k s) r" by (simp add: opened_frame)
  ultimately show ?thesis using assms(2) opened_frame(8) [of r b k s] by (auto simp: covers_def)
qed

lemma user_clean: "f AND 0x30000 = 0 \<Longrightarrow> clean e f" for f :: u32
proof -
  assume a: "f AND 0x30000 = 0"
  have m: "(0x30000 :: u32) = push_bit 16 1 OR push_bit 17 1" by simp
  have "\<not> bit f i" if "i = 16 \<or> i = 17" for i
  proof
    assume b: "bit f i"
    have "bit (0x30000 :: u32) i" unfolding m using that by (auto simp: bit_simps)
    with b have "bit (f AND 0x30000) i" by (simp add: bit_simps)
    then show False by (simp add: a)
  qed
  then show ?thesis by (simp add: clean_def)
qed

text \<open>What the guards of a notify say of the state before it.\<close>

lemma pnotify_idle:
  assumes "pinv env N s" and "r < N" and "waiting s r = None" and "barrier_splitstate (pteam s r) = OUTSIDE_BARRIER"
  shows "notified s r = completed s r" "pr_remain (prv s r) = 0" "arr s r = notified s r"
proof -
  have "pshape env N s r" using assms(1,2) by (simp add: pinv_def)
  with assms(3,4) have "notified s r = completed s r \<and> pr_remain (prv s r) = 0"
    by (auto simp: pshape_def)
  then show "notified s r = completed s r" "pr_remain (prv s r) = 0" by simp_all
  then show "arr s r = notified s r" by (simp add: arr_def)
qed

lemma opened_shape:
  assumes inv: "pinv env N s" and r: "r < N" and idle: "waiting s r = None" "barrier_splitstate (pteam s r) = OUTSIDE_BARRIER"
    and k: "k \<le> length (pr_children (prv s r))"
  shows "pshape env N (opened r b k s) r"
proof -
  have "pshape env N s r" using inv r by (simp add: pinv_def)
  then show ?thesis using pnotify_idle [OF inv r idle] k idle
    unfolding pshape_def active_def opened_frame by (simp add: opened_frame ph_Suc)
qed

lemma opened_inv:
  assumes inv: "pinv env N s" and r: "r < N" and idle: "waiting s r = None" "barrier_splitstate (pteam s r) = OUTSIDE_BARRIER"
    and k: "k = length (pr_children (prv s r))" "0 < k" and b: "clean (Suc (notified s r)) (fst b)"
  shows "pinv env N (opened r b k s)"
proof -
  let ?u = "opened r b k s"
  note ni = pnotify_idle [OF inv r idle] and ext = opened_extends [of N s r b k]
  have arr: "arr ?u q = arr s q" for q
    using ni(3) k(2) by (cases "q = r") (simp_all add: arr_def opened_frame)
  have "pshape env N ?u q \<and> partial_ok env N ?u q \<and> word_ok env N ?u q" if q: "q < N" for q
  proof (cases "q = r")
    case True
    have "pshape env N ?u r" using k(1) by (intro opened_shape [OF inv r idle]) simp
    moreover have "heard ?u r = {}" using k(1) by (simp add: heard_def opened_frame)
    then have "partial_ok env N ?u r"
      using opened_covers [of r N s b k, OF r b] by (simp add: partial_ok_def opened_frame)
    moreover have "word_ok env N s r" using inv r by (simp add: pinv_def)
    then have "word_ok env N ?u r" by (rule word_frame [OF _ ext]) (simp_all add: arr opened_frame)
    ultimately show ?thesis using True by simp
  next
    case neq: False
    have s: "pshape env N s q" "partial_ok env N s q" "word_ok env N s q" using inv q by (auto simp: pinv_def)
    have same: "pteam ?u q = pteam s q" "heard ?u q = heard s q" "notified ?u q = notified s q"
      using neq by (simp_all add: opened_frame heard_def)
    have "pshape env N ?u q" using s(1) same by (simp add: pshape_def active_def opened_frame)
    moreover have "partial_ok env N ?u q"
      using s(2) same covers_mono [OF _ ext] arr by (auto simp: partial_ok_def)
    moreover have "word_ok env N ?u q" by (rule word_frame [OF s(3) ext]) (simp_all add: arr opened_frame)
    ultimately show ?thesis by simp
  qed
  moreover have "root_ok N ?u"
    using inv by (intro root_frame [OF _ ext]) (simp_all add: pinv_def arr opened_frame)
  ultimately show ?thesis using inv by (auto simp: pinv_def arr opened_frame)
qed

end
