(* ===== verification/Pshm_Refinement.thy ===== *)
theory Pshm_Refinement
  imports Pshm_Safety
begin

text \<open>
  Every step of the shared-memory barrier keeps the invariant, and the system simulates the abstract
  barrier; it is a \<open>split_barrier\<close>.
\<close>

unbundle bit_operations_syntax

section \<open>The notify\<close>

lemma notify_enter_ok:
  "gasnete_pshmbarrier_notify reads team idv flags sh = Inr x \<Longrightarrow> barrier_splitstate team = OUTSIDE_BARRIER"
  by (cases "barrier_splitstate team") (auto simp: gasnete_pshmbarrier_notify_def splitstate_notify_enter_def)

text \<open>
  A notify of a rank with children is the opening of its barrier and a kick; a notify of a leaf
  signals the arrival.
\<close>

lemma notify_parent:
  assumes op: "gasnete_pshmbarrier_notify reads (pteam s r) idv flags (shm s) = Inr (t, sh)"
    and k: "k = length (pr_children (prv s r))" "0 < k"
  shows "\<exists>d pr1. gasnete_pshmbarrier_kick reads (prv (opened r (flags, idv) k s) r) (shm (opened r (flags, idv) k s)) = (d, pr1, sh) \<and>
     t = (pteam (opened r (flags, idv) k s) r)\<lparr>barrier_data := pr1\<rparr>"
proof -
  have out: "barrier_splitstate (pteam s r) = OUTSIDE_BARRIER" by (rule notify_enter_ok [OF op])
  obtain d pr1 sh1 where kick: "gasnete_pshmbarrier_kick reads (prv (opened r (flags, idv) k s) r) (shm s) = (d, pr1, sh1)"
    by (metis prod_cases3)
  then have "gasnete_pshmbarrier_notify_inner reads idv flags (prv s r) (shm s) = (d, pr1, sh1)"
    using k unfolding gasnete_pshmbarrier_notify_inner_def Let_def opened_frame(6) by simp
  then have "sh1 = sh \<and> t = (pteam s r)\<lparr>barrier_splitstate := INSIDE_BARRIER, barrier_data := pr1\<rparr>"
    using op out by (simp add: gasnete_pshmbarrier_notify_def splitstate_notify_enter_def)
  with kick show ?thesis by (simp add: opened_frame(1)) (simp add: opened_def Let_def)
qed

lemma notify_leaf:
  assumes op: "gasnete_pshmbarrier_notify reads (pteam s r) idv flags (shm s) = Inr (t, sh)"
    and leaf: "pr_children (prv s r) = []"
  shows "t = (pteam s r)\<lparr>barrier_splitstate := INSIDE_BARRIER, barrier_data :=
        (prv s r)\<lparr>pr_two_to_phase := pr_two_to_phase (prv s r) XOR 3\<rparr>\<rparr>"
    and "sh = gasnete_pshmbarrier_arrive (barrier_data t) idv flags (pr_two_to_phase (prv s r) XOR 3) (shm s)"
proof -
  have out: "barrier_splitstate (pteam s r) = OUTSIDE_BARRIER" by (rule notify_enter_ok [OF op])
  then show "t = (pteam s r)\<lparr>barrier_splitstate := INSIDE_BARRIER, barrier_data :=
        (prv s r)\<lparr>pr_two_to_phase := pr_two_to_phase (prv s r) XOR 3\<rparr>\<rparr>"
    and "sh = gasnete_pshmbarrier_arrive (barrier_data t) idv flags (pr_two_to_phase (prv s r) XOR 3) (shm s)"
    using op leaf by (auto simp: gasnete_pshmbarrier_notify_def gasnete_pshmbarrier_notify_inner_def
        splitstate_notify_enter_def Let_def)
qed

lemma pnotify_inv:
  assumes inv: "pinv env N s" and r: "r < N" "waiting s r = None" and user: "flags AND 0x30000 = 0"
    and reads: "fetches (GASNETE_PSHM_BARR_PACK 0 0 (pr_two_to_phase (prv s r) XOR 3)) (pr_children (prv s r))
       (length (pr_children (prv s r))) (shm s) reads"
    and op: "gasnete_pshmbarrier_notify reads (pteam s r) idv flags (shm s) = Inr (t, sh)"
    and e: "e = Suc (notified s r)"
    and u: "u = s\<lparr>shm := sh, pteam := (pteam s)(r := t), notified := (notified s)(r := e),
          ballots := (ballots s)(e := (ballots s e)(r := (flags, idv)))\<rparr>"
  shows "pinv env N u \<and> completed s r = notified s r"
proof
  have out: "barrier_splitstate (pteam s r) = OUTSIDE_BARRIER" by (rule notify_enter_ok [OF op])
  note ni = pnotify_idle [OF inv r out]
  show "completed s r = notified s r" using ni(1) by simp
  have cl: "clean (Suc (notified s r)) (fst (flags, idv))" using user_clean [OF user] by simp
  show "pinv env N u"
  proof (cases "pr_children (prv s r) = []")
    case False
    define k where "k = length (pr_children (prv s r))"
    let ?o = "opened r (flags, idv) k s"
    have k: "0 < k" using False by (simp add: k_def)
    obtain d pr1 where kick: "gasnete_pshmbarrier_kick reads (prv ?o r) (shm ?o) = (d, pr1, sh)"
      "t = (pteam ?o r)\<lparr>barrier_data := pr1\<rparr>" using notify_parent [OF op k_def k] by blast
    have uo: "u = ?o\<lparr>shm := sh, pteam := (pteam ?o)(r := (pteam ?o r)\<lparr>barrier_data := pr1\<rparr>)\<rparr>"
      unfolding u e kick(2) opened_def Let_def by (simp add: fun_eq_iff)
    show ?thesis
    proof (rule pkick_inv [OF opened_inv [OF inv r out k_def k cl] r(1) _ kick(1) uo])
      show "fetches (GASNETE_PSHM_BARR_PACK 0 0 (pr_two_to_phase (prv ?o r))) (pr_children (prv ?o r))
         (pr_remain (prv ?o r)) (shm ?o) reads"
        using reads by (simp add: opened_frame k_def)
    qed
  next
    case True
    let ?o = "opened r (flags, idv) 0 s"
    note tl = notify_leaf [OF op True]
    have tp: "pr_two_to_phase (prv s r) = ph (notified s r)" "pr_rank (prv s r) = r"
      and nokids: "set (pshm_children env N r) = {}"
      using inv r(1) True by (auto simp: pinv_def pshape_def)
    have pu: "prv u r = (prv s r)\<lparr>pr_two_to_phase := ph e\<rparr>" "pteam u r = t" "shm u = sh"
      "notified u r = e" "completed u = completed s" "waiting u = waiting s"
      using tp(1) by (simp_all add: u tl(1) e ph_Suc)
    have same: "notified u = notified ?o" "ballots u = ballots ?o"
      unfolding u e opened_def Let_def by simp_all
    have ext: "extends N s u" using opened_extends [of N s r "(flags, idv)" 0] unfolding extends_def same .
    have leafb: "below env N r = (\<lambda>q. q = r)" using below_children [of r env N] nokids by simp
    have "covers N ?o e (\<lambda>q. q = r) (flags, idv)" using opened_covers [OF r(1) cl] by (simp add: e)
    then have cov: "covers N u e (below env N r) (flags, idv)" unfolding leafb covers_def upper_def same .
    show ?thesis
    proof (rule arrive_inv [OF inv r(1) _ _ _ _ ext _ _ _ _ _ _ cov])
      show "e = Suc (arr s r)" using ni(3) by (simp add: e)
      show "shm u = gasnete_pshmbarrier_arrive (barrier_data t) idv flags (ph e) (shm s)"
        by (simp add: pu(3) tl(2) tp(1) e ph_Suc)
      show "pr_rank (barrier_data t) = r" using tp(2) by (simp add: tl(1))
      show "pr_remain (prv u r) = 0" using ni(2) by (simp add: pu(1))
      show "arr u r = e" using ni(2) by (simp add: arr_def pu(1,4))
      have "pshape env N s r" using inv r(1) by (simp add: pinv_def)
      then show "pshape env N u r"
        using ni r out unfolding pshape_def active_def pu by (simp add: tl(1) e ph_Suc)
      show "\<And>c. c \<in> set (pshm_children env N r) \<Longrightarrow> e \<le> arr s c" using nokids by simp
    qed (simp_all add: u)
  qed
qed

section \<open>The wait\<close>

text \<open>Frame for the steps that change neither the private parts nor the shared structure.\<close>

lemma pinv_frame:
  assumes inv: "pinv env N s" and same: "\<And>q. prv u q = prv s q" "shm u = shm s" "notified u = notified s" "ballots u = ballots s"
    and shape: "\<And>q. q < N \<Longrightarrow> pshape env N u q" and comp: "\<And>q. q < N \<Longrightarrow> completed u q \<le> arr s 0"
  shows "pinv env N u"
proof -
  have ext: "extends N s u" using same by (simp add: extends_def)
  have arr: "arr u q = arr s q" for q by (simp add: arr_def same)
  have "partial_ok env N u q \<and> word_ok env N u q" if q: "q < N" for q
  proof -
    have s: "partial_ok env N s q" "word_ok env N s q" using inv q by (auto simp: pinv_def)
    have "heard u q = heard s q" by (simp add: heard_def same)
    then have "partial_ok env N u q"
      using s(1) covers_mono [OF _ ext] by (auto simp: partial_ok_def same arr)
    moreover have "word_ok env N u q" by (rule word_frame [OF s(2) ext]) (simp_all add: same arr)
    ultimately show ?thesis by simp
  qed
  moreover have "root_ok N u"
    using inv by (intro root_frame [OF _ ext]) (simp_all add: pinv_def arr same)
  ultimately show ?thesis using inv shape comp by (auto simp: pinv_def arr)
qed

lemma pwait_begin_inv:
  assumes inv: "pinv env N s" and r: "r < N" "waiting s r = None"
    and op: "gasnete_pshmbarrier_wait_begin (pteam s r) = Inr t"
    and u: "u = s\<lparr>pteam := (pteam s)(r := t), waiting := (waiting s)(r := Some b)\<rparr>"
  shows "pinv env N u"
proof -
  have t: "barrier_splitstate (pteam s r) = INSIDE_BARRIER" "t = (pteam s r)\<lparr>barrier_splitstate := OUTSIDE_BARRIER\<rparr>"
    using op by (cases "barrier_splitstate (pteam s r)";
        simp add: gasnete_pshmbarrier_wait_begin_def splitstate_wait_leave_def)+
  show ?thesis
  proof (rule pinv_frame [OF inv])
    show "prv u q = prv s q" for q by (simp add: u t(2))
    show "pshape env N u q" if "q < N" for q
    proof -
      have "pshape env N s q" using inv that by (simp add: pinv_def)
      then show ?thesis using t(1) r(2) by (cases "q = r") (simp_all add: pshape_def active_def u t(2))
    qed
    show "completed u q \<le> arr s 0" if "q < N" for q using inv that by (simp add: pinv_def u)
  qed (simp_all add: u)
qed

text \<open>The done bit of a rank is set exactly when the root has arrived at the rank's barrier.\<close>

lemma done_arrived:
  assumes inv: "pinv env N s" and r: "r < N" and act: "active s r"
  shows "pshm_done (prv s r) (shm s) \<longleftrightarrow> arr s 0 = notified s r"
proof -
  have tp: "pr_two_to_phase (prv s r) = ph (notified s r)" and root: "root_ok N s" and c: "completed s r \<le> arr s 0"
    using inv r by (auto simp: pinv_def pshape_def)
  have n: "notified s r = Suc (completed s r)" using act by (simp add: active_def)
  have b: "arr s 0 \<le> notified s r" using arr_bounds [OF inv r] by linarith
  show ?thesis
  proof (cases "arr s 0 = 0")
    case True
    then show ?thesis using root n by (simp add: pshm_done_def root_ok_def)
  next
    case False
    then obtain rc where "sh_state (shm s) = state_word rc (arr s 0)" using root by (auto simp: root_ok_def)
    then have "pshm_done (prv s r) (shm s) \<longleftrightarrow> even (notified s r) = even (arr s 0)"
      by (simp add: pshm_done_def tp state_done)
    moreover have "arr s 0 = notified s r \<or> Suc (arr s 0) = notified s r" using b c n by linarith
    ultimately show ?thesis by (metis even_Suc n_not_Suc_n)
  qed
qed

text \<open>What the root publishes when it has arrived.\<close>

lemma root_consensus:
  assumes inv: "pinv env N s" and e: "arr s 0 = e" "0 < e"
  shows "\<forall>q<N. e \<le> notified s q"
    "outcome_of (sh_flags (shm s), sh_value (shm s)) = consensus (vote s e) N"
    "sh_state (shm s) = state_word (if mismatch (sh_flags (shm s)) then GASNET_ERR_BARRIER_MISMATCH else GASNET_OK) e"
proof -
  have "root_ok N s" using inv by (simp add: pinv_def)
  then have c: "covers N s e (\<lambda>_. True) (sh_flags (shm s), sh_value (shm s))"
    and st: "sh_state (shm s) = state_word (if mismatch (sh_flags (shm s)) then GASNET_ERR_BARRIER_MISMATCH else GASNET_OK) e"
    using e by (simp_all add: root_ok_def)
  show "sh_state (shm s) = state_word (if mismatch (sh_flags (shm s)) then GASNET_ERR_BARRIER_MISMATCH else GASNET_OK) e"
    by (rule st)
  have all: "e \<le> notified s q" "vote s e q \<le> outcome_of (sh_flags (shm s), sh_value (shm s))" if "q < N" for q
    using c that by (auto simp: covers_def)
  then show "\<forall>q<N. e \<le> notified s q" by blast
  show "outcome_of (sh_flags (shm s), sh_value (shm s)) = consensus (vote s e) N"
  proof (rule consensus_eqI)
    show "outcome_of (sh_flags (shm s), sh_value (shm s)) \<le> w" if "\<And>q. q < N \<Longrightarrow> vote s e q \<le> w" for w
      using c that by (auto simp: covers_def upper_def)
  qed (rule all)
qed

lemma pwait_end_inv:
  assumes inv: "pinv env N s" and r: "r < N" "waiting s r \<noteq> None" and dn: "pshm_done (prv s r) (shm s)"
    and u: "u = s\<lparr>completed := (completed s)(r := notified s r), waiting := (waiting s)(r := None)\<rparr>"
  shows "pinv env N u"
proof -
  have act: "active s r" using inv r by (auto simp: pinv_def pshape_def)
  have a0: "arr s 0 = notified s r" using done_arrived [OF inv r(1) act] dn by simp
  have "arr s r = notified s r" using a0 arr_bounds [OF inv r(1)] by simp
  then have rem: "pr_remain (prv s r) = 0" using act by (simp add: arr_def active_def split: if_splits)
  show ?thesis
  proof (rule pinv_frame [OF inv])
    show "pshape env N u q" if "q < N" for q
    proof -
      have "pshape env N s q" using inv that by (simp add: pinv_def)
      then show ?thesis using r(2) rem by (cases "q = r") (auto simp: pshape_def active_def u)
    qed
    show "completed u q \<le> arr s 0" if "q < N" for q using inv that a0 by (simp add: pinv_def u)
  qed (simp_all add: u)
qed

section \<open>All steps\<close>

lemma pshm_step_inv: "pshm_step env N s ev t \<Longrightarrow> pinv env N s \<Longrightarrow> pinv env N t"
proof (induction rule: pshm_step.induct)
  case (pshm_notify r s pr flags reads idv t sh e)
  then show ?case using pnotify_inv [OF pshm_notify.prems pshm_notify.hyps(1,2,4) _ pshm_notify.hyps(6,7) refl]
    by simp
next
  case (pshm_kick r pr s reads d pr1 sh)
  then show ?case using pkick_inv [OF pshm_kick.prems pshm_kick.hyps(1) _ _ refl] by simp
next
  case (pshm_wait_begin r s t b)
  then show ?case using pwait_begin_inv [OF _ pshm_wait_begin.hyps refl] by blast
next
  case (pshm_wait_end r s flags idv)
  then show ?case using pwait_end_inv [OF _ pshm_wait_end.hyps(1) _ pshm_wait_end.hyps(3) refl] by simp
qed

lemma pshm_reach_inv: "reach (pshm_init env N) (pshm_step env N) s \<Longrightarrow> 0 < N \<Longrightarrow> pinv env N s"
  by (induction rule: reach.induct) (auto intro: pshm_init_inv pshm_step_inv)

section \<open>Simulation of the abstract barrier\<close>

lemma pshm_simulates:
  assumes step: "pshm_step env N s ev t" and inv: "pinv env N s"
  shows "bar_step N (history_abs s) ev (history_abs t)"
  using step
proof cases
  case (pshm_notify r pr flags reads idv w sh e)
  have "completed s r = notified s r"
    using pnotify_inv [OF inv pshm_notify(3,4,6) _ pshm_notify(8,9) refl] pshm_notify(5,7) by simp
  then have "bar_step N (history_abs s) (Enter r (outcome_of (flags, idv)))
      (bar_enter r (outcome_of (flags, idv)) (history_abs s))"
    using pshm_notify(3) by (intro bar_enter) simp_all
  also have "bar_enter r (outcome_of (flags, idv)) (history_abs s) = history_abs t"
    by (simp add: pshm_notify(2,9) history_abs_def bar_enter_def Let_def fun_eq_iff)
  finally show ?thesis by (simp add: pshm_notify(1))
next
  case (pshm_wait_end r flags idv)
  have act: "active s r" using inv pshm_wait_end(3,4) by (auto simp: pinv_def pshape_def)
  then have n: "0 < notified s r" by (simp add: active_def)
  have a0: "arr s 0 = notified s r" using done_arrived [OF inv pshm_wait_end(3) act] pshm_wait_end(5) by simp
  note know = root_consensus [OF inv a0 n]
  have "bar_step N (history_abs s) (Leave r (outcome_of (sh_flags (shm s), sh_value (shm s)))) (bar_leave r (history_abs s))"
    using pshm_wait_end(3) know(1,2) act by (intro bar_leave) (simp_all add: active_def)
  also have "bar_leave r (history_abs s) = history_abs t"
    by (simp add: pshm_wait_end(2) history_abs_def bar_leave_def)
  finally show ?thesis by (simp add: pshm_wait_end(1))
qed (simp_all add: history_abs_def bar_internal)

interpretation pshm: split_barrier "Suc n" "pshm_init env (Suc n)" "pshm_step env (Suc n)" history_abs for env n
  by unfold_locales
     (simp add: history_abs_def pshm_init_def bar_init_def fun_eq_iff bot_outcome_def,
      rule pshm_simulates [OF _ pshm_reach_inv], simp_all)

end
