(* ===== verification/Pshm_Properties.thy ===== *)
theory Pshm_Properties
  imports Pshm_Refinement
begin

text \<open>
  Progress of the shared-memory barrier, a scheduler with a schedule of four ranks, and what the
  barrier promises its callers.
\<close>

unbundle bit_operations_syntax

section \<open>Progress\<close>

definition pshm_work :: "nat \<Rightarrow> pshm_sys \<Rightarrow> nat" where
  "pshm_work N s = (\<Sum>r<N. pr_remain (prv s r))"

text \<open>Quiet: no rank has an outstanding child whose word shows the arrival.\<close>

definition pquiet :: "nat \<Rightarrow> pshm_sys \<Rightarrow> bool" where
  "pquiet N s \<longleftrightarrow> (\<forall>r<N. \<forall>i<pr_remain (prv s r).
     GASNETE_PSHM_BARR_PACK 0 0 (pr_two_to_phase (prv s r)) AND
       sh_node (shm s) (ch_node (pr_children (prv s r) ! i)) = 0)"

lemma pshm_progress:
  assumes rs: "reach (pshm_init env N) (pshm_step env N) s" and N: "0 < N" and nq: "\<not> pquiet N s"
  shows "\<exists>es t. run (pshm_step env N) s es t \<and> set es \<subseteq> {Internal} \<and> pshm_work N t < pshm_work N s \<and>
    (notified t, waiting t) = (notified s, waiting s)"
proof -
  from nq obtain r i where r: "r < N" and i: "i < pr_remain (prv s r)"
    "GASNETE_PSHM_BARR_PACK 0 0 (pr_two_to_phase (prv s r)) AND
       sh_node (shm s) (ch_node (pr_children (prv s r) ! i)) \<noteq> 0" by (auto simp: pquiet_def)
  have inv: "pinv env N s" using rs N by (rule pshm_reach_inv)
  then have tp: "pr_two_to_phase (prv s r) = ph (notified s r)" using r by (simp add: pinv_def pshape_def)
  define reads where "reads = (\<lambda>i. sh_node (shm s) (ch_node (pr_children (prv s r) ! i)))"
  have f: "fetches (GASNETE_PSHM_BARR_PACK 0 0 (pr_two_to_phase (prv s r))) (pr_children (prv s r))
      (pr_remain (prv s r)) (shm s) reads" by (simp add: fetches_def reads_def)
  obtain d pr1 sh where kick: "gasnete_pshmbarrier_kick reads (prv s r) (shm s) = (d, pr1, sh)" by (metis prod_cases3)
  let ?t = "s\<lparr>shm := sh, pteam := (pteam s)(r := (pteam s r)\<lparr>barrier_data := pr1\<rparr>)\<rparr>"
  have rem: "0 < pr_remain (prv s r)" using i(1) by simp
  from pkick_result [OF inv r rem f kick] obtain m where m: "m \<le> pr_remain (prv s r)" "pr_remain pr1 = m"
    "m = pr_remain (prv s r) \<longrightarrow> (\<forall>i<m. GASNETE_PSHM_BARR_PACK 0 0 (ph (notified s r)) AND reads i = 0)"
    by (auto split: if_splits)
  have "m \<noteq> pr_remain (prv s r)" using m(3) i tp by (auto simp: reads_def)
  then have less: "pr_remain pr1 < pr_remain (prv s r)" using m by simp
  have "pshm_work N ?t < pshm_work N s"
    unfolding pshm_work_def
  proof (rule sum_strict_mono_ex1)
    show "\<forall>q\<in>{..<N}. pr_remain (prv ?t q) \<le> pr_remain (prv s q)" using less by auto
    show "\<exists>q\<in>{..<N}. pr_remain (prv ?t q) < pr_remain (prv s q)" using less r by (intro bexI [of _ r]) auto
  qed simp
  moreover have "run (pshm_step env N) s [Internal] ?t" by (rule run_single) (rule pshm_kick [OF r refl f kick])
  ultimately show ?thesis by (intro exI [of _ "[Internal]"] exI [of _ ?t]) simp
qed

interpretation pshm_rest: settling "pshm_init env (Suc n)" "pshm_step env (Suc n)" "pshm_work (Suc n)"
    "pquiet (Suc n)" "\<lambda>s. (notified s, waiting s)" for env n
  by unfold_locales (rule pshm_progress, assumption, simp, assumption)

lemma pquiet_arrived:
  assumes inv: "pinv env N s" and q: "pquiet N s" and all: "\<forall>q<N. e \<le> notified s q"
  shows "r < N \<Longrightarrow> e \<le> arr s r"
proof (induction "N - r" arbitrary: r rule: less_induct)
  case less
  note r = less.prems
  show ?case
  proof (rule ccontr)
    assume "\<not> e \<le> arr s r"
    then have lag: "arr s r < e" by simp
    have sp: "pshape env N s r" using inv r by (simp add: pinv_def)
    have en: "e \<le> notified s r" using all r by simp
    then have rem: "0 < pr_remain (prv s r)" using lag by (cases "pr_remain (prv s r)") (simp_all add: arr_def)
    then have ar: "arr s r = notified s r - 1" by (simp add: arr_def)
    with lag en have ne: "notified s r = e" by linarith
    define c where "c = ch_node (pr_children (prv s r) ! 0)"
    have len: "0 < length (pr_children (prv s r))" using sp rem by (auto simp: pshape_def)
    then have "c \<in> set (map ch_node (pr_children (prv s r)))" by (simp add: c_def)
    then have c: "c \<in> set (pshm_children env N r)" using sp by (simp only: pshape_def)
    then have cN: "r < c" "c < N" using child_bounds r by blast+
    then have up: "e \<le> arr s c" using less.hyps [of c] r by simp
    have "arr s c \<le> e" using arr_bounds [OF inv cN(2)] arr_bounds [OF inv r] lag by linarith
    with up have ac: "arr s c = e" by simp
    have "word_ok env N s c" using inv cN by (simp add: pinv_def)
    then obtain f v where "sh_node (shm s) c = GASNETE_PSHM_BARR_PACK v f (ph (arr s c))" "clean (arr s c) f"
      by (auto simp: word_ok_def)
    then have "GASNETE_PSHM_BARR_PACK 0 0 (ph (notified s r)) AND sh_node (shm s) c \<noteq> 0"
      by (simp add: goal_test ne ac)
    then show False using q r rem sp by (auto simp: pquiet_def c_def pshape_def)
  qed
qed

section \<open>A scheduler\<close>

text \<open>A kick names the outstanding children whose words it read too early to see an arrival.\<close>

datatype pshm_action = PNotify nat "nat list" u32 u32 | PKick nat "nat list"
  | PWaitBegin nat ballot | PWaitEnd nat

definition pshm_reads :: "nat list \<Rightarrow> pshm_private \<Rightarrow> pshm_shared \<Rightarrow> nat \<Rightarrow> u64" where
  "pshm_reads stale pr sh i = (if i \<in> set stale then 0 else sh_node sh (ch_node (pr_children pr ! i)))"

lemma fetches_reads: "fetches goal (pr_children pr) n sh (pshm_reads stale pr sh)"
  by (simp add: fetches_def pshm_reads_def)

fun pshm_do :: "nat \<Rightarrow> pshm_action \<Rightarrow> pshm_sys \<Rightarrow> (bar_event \<times> pshm_sys) option" where
  "pshm_do N (PNotify r stale idv flags) s =
     (if r < N \<and> waiting s r = None \<and> flags AND 0x30000 = 0
      then case gasnete_pshmbarrier_notify (pshm_reads stale (prv s r) (shm s)) (pteam s r) idv flags (shm s) of
          Inl _ \<Rightarrow> None
        | Inr (t, sh) \<Rightarrow> let e = Suc (notified s r) in
            Some (Enter r (outcome_of (flags, idv)),
              s\<lparr>shm := sh, pteam := (pteam s)(r := t), notified := (notified s)(r := e),
                ballots := (ballots s)(e := (ballots s e)(r := (flags, idv)))\<rparr>)
      else None)"
| "pshm_do N (PKick r stale) s =
     (if r < N then case gasnete_pshmbarrier_kick (pshm_reads stale (prv s r) (shm s)) (prv s r) (shm s) of
        (d, pr1, sh) \<Rightarrow>
          Some (Internal, s\<lparr>shm := sh, pteam := (pteam s)(r := (pteam s r)\<lparr>barrier_data := pr1\<rparr>)\<rparr>)
      else None)"
| "pshm_do N (PWaitBegin r b) s =
     (if r < N \<and> waiting s r = None
      then case gasnete_pshmbarrier_wait_begin (pteam s r) of Inl _ \<Rightarrow> None
        | Inr t \<Rightarrow> Some (Internal, s\<lparr>pteam := (pteam s)(r := t), waiting := (waiting s)(r := Some b)\<rparr>)
      else None)"
| "pshm_do N (PWaitEnd r) s =
     (case waiting s r of None \<Rightarrow> None
      | Some (flags, idv) \<Rightarrow>
          if r < N \<and> pshm_done (prv s r) (shm s)
          then Some (Leave r (outcome_of (sh_flags (shm s), sh_value (shm s))),
              s\<lparr>completed := (completed s)(r := notified s r), waiting := (waiting s)(r := None)\<rparr>)
          else None)"

primrec pshm_exec :: "nat \<Rightarrow> pshm_action list \<Rightarrow> pshm_sys \<Rightarrow> pshm_sys option" where
  "pshm_exec N [] s = Some s"
| "pshm_exec N (a # as) s = (case pshm_do N a s of None \<Rightarrow> None | Some (ev, t) \<Rightarrow> pshm_exec N as t)"

lemma pshm_do_step: "pshm_do N a s = Some (ev, t) \<Longrightarrow> pshm_step env N s ev t"
  by (induction N a s rule: pshm_do.induct)
     (auto split: if_splits sum.splits option.splits prod.splits simp: Let_def
        intro: pshm_notify [OF _ _ refl _ fetches_reads _ refl] pshm_kick [OF _ refl fetches_reads]
          pshm_wait_begin pshm_wait_end)

lemma pshm_exec_init:
  "pshm_exec N as (pshm_init env N) = Some t \<Longrightarrow> reach (pshm_init env N) (pshm_step env N) t"
proof -
  have "pshm_exec N as s = Some t \<Longrightarrow> reach (pshm_init env N) (pshm_step env N) s \<Longrightarrow>
      reach (pshm_init env N) (pshm_step env N) t" for s
    by (induction as arbitrary: s)
       (auto split: option.splits prod.splits dest!: pshm_do_step [where env = env] intro: reach_step)
  then show "pshm_exec N as (pshm_init env N) = Some t \<Longrightarrow> reach (pshm_init env N) (pshm_step env N) t"
    by (simp add: reach_start)
qed

text \<open>
  Four ranks in a binary tree (the radix is 2: rank 0 has the children 1 and 2, rank 1 the child 3)
  enter a barrier which two of them name 7; rank 0 kicks once and sees only rank 2, the second time
  it reads the word of rank 1 too early.
\<close>

definition pdemo_enter :: "pshm_action list" where
  "pdemo_enter = [PNotify 2 [] 0 1, PNotify 0 [] 7 0, PNotify 1 [] 0 1, PNotify 3 [] 7 0, PKick 1 [], PKick 0 [0]]"

definition pdemo_wait :: "pshm_action list" where
  "pdemo_wait = pdemo_enter @ [PKick 0 [], PWaitBegin 3 (0, 7)]"

lemma pdemo_enter_runs:
  "case pshm_exec 4 pdemo_enter (pshm_init 2 4) of None \<Rightarrow> False
   | Some s \<Rightarrow> notified s 0 = 1 \<and> notified s 1 = 1 \<and> notified s 2 = 1 \<and> notified s 3 = 1 \<and>
       \<not> pshm_done (prv s 3) (shm s)"
  by code_simp

lemma pdemo_wait_runs:
  "case pshm_exec 4 pdemo_wait (pshm_init 2 4) of None \<Rightarrow> False
   | Some s \<Rightarrow> waiting s 3 = Some (0, 7) \<and> pshm_done (prv s 3) (shm s) \<and> notified s 3 = 1 \<and>
       ballots s 1 0 = (0, 7) \<and> ballots s 1 1 = (1, 0) \<and> ballots s 1 2 = (1, 0) \<and> ballots s 1 3 = (0, 7)"
  by code_simp

section \<open>Properties\<close>

text \<open>
  C14. No rank leaves a shared-memory barrier before every rank has notified it: when a rank completes
  its wait for its \<open>e\<close>-th barrier, all ranks have executed their \<open>e\<close>-th notify. This holds for
  every shape of the tree, and when kicks read the words of their children at different times.
\<close>

theorem pshm_barrier_synchronizes:
  assumes "reach (pshm_init env N) (pshm_step env N) s" and "0 < N"
    and "pshm_step env N s (Leave r v) t" and "q < N"
  shows "notified s r \<le> notified s q \<and> completed t r = notified s r"
proof -
  note inv = pshm_reach_inv [OF assms(1,2)]
  from pshm_simulates [OF assms(3) inv] assms(4) have "notified s r \<le> notified s q"
    by (auto elim!: bar_LeaveE)
  moreover from assms(3) have "completed t r = notified s r" by (auto elim!: pshm_LeaveE)
  ultimately show ?thesis by simp
qed

theorem pshm_barrier_synchronizes_witness:
  "case pshm_exec 4 pdemo_wait (pshm_init 2 4) of None \<Rightarrow> False
   | Some s \<Rightarrow> \<exists>v t. pshm_step 2 4 s (Leave 3 v) t \<and> notified s 3 \<le> notified s 1 \<and>
       completed t 3 = notified s 3"
proof -
  obtain s where s: "pshm_exec 4 pdemo_wait (pshm_init 2 4) = Some s"
    and w: "waiting s 3 = Some (0, 7)" "pshm_done (prv s 3) (shm s)"
    using pdemo_wait_runs by (auto split: option.splits)
  obtain ev t where "pshm_do 4 (PWaitEnd 3) s = Some (ev, t) \<and> (\<exists>v. ev = Leave 3 v)"
    using w by simp
  then obtain v where st: "pshm_step 2 4 s (Leave 3 v) t" using pshm_do_step by blast
  from pshm_barrier_synchronizes [OF pshm_exec_init [OF s] _ st, of 1] s st show ?thesis by auto
qed

lemma pshm_wait_code:
  assumes "reach (pshm_init env N) (pshm_step env N) s" and "0 < N" and "r < N"
    and "waiting s r = Some (flags, idv)" and "pshm_done (barrier_data (pteam s r)) (shm s)"
  shows "gasnete_pshmbarrier_wait_end idv flags (shm s) =
     rc_code (outcome_verdict (consensus (\<lambda>q. outcome_of (ballots s (notified s r) q)) N) (flags, idv))"
proof -
  note inv = pshm_reach_inv [OF assms(1,2)]
  have act: "active s r" using inv assms(3,4) by (auto simp: pinv_def pshape_def)
  then have n: "0 < notified s r" by (simp add: active_def)
  have "arr s 0 = notified s r" using done_arrived [OF inv assms(3) act] assms(5) by simp
  note rc = root_consensus(2,3) [OF inv this n]
  have "gasnete_pshmbarrier_wait_end idv flags (shm s) =
      rc_code (barrier_verdict (sh_flags (shm s), sh_value (shm s)) flags idv)"
    unfolding gasnete_pshmbarrier_wait_end_def finish_pshm_barrier_def rc(2) state_result barrier_verdict_def
    by simp
  then show ?thesis unfolding barrier_verdict_outcome rc(1) .
qed

text \<open>
  The result of a wait of the shared-memory barrier, read from the state word and the published
  flags and value, is the verdict of the consensus of the ballots of all ranks.
\<close>

theorem pshm_wait_reports_consensus:
  assumes "reach (pshm_init env N) (pshm_step env N) s" and "0 < N" and "r < N"
    and "waiting s r = Some (flags, idv)" and "pshm_done (barrier_data (pteam s r)) (shm s)"
  shows "gasnete_pshmbarrier_wait_end idv flags (shm s) =
     rc_code (outcome_verdict (consensus (\<lambda>q. outcome_of (ballots s (notified s r) q)) N) (flags, idv))"
  using assms by (rule pshm_wait_code)

theorem pshm_wait_reports_consensus_witness:
  "case pshm_exec 4 pdemo_wait (pshm_init 2 4) of None \<Rightarrow> False
   | Some s \<Rightarrow> gasnete_pshmbarrier_wait_end 7 0 (shm s) = 0"
proof -
  obtain s where s: "pshm_exec 4 pdemo_wait (pshm_init 2 4) = Some s"
    and w: "waiting s 3 = Some (0, 7)" "pshm_done (prv s 3) (shm s)"
    and b: "notified s 3 = 1" "ballots s 1 0 = (0, 7)" "ballots s 1 1 = (1, 0)" "ballots s 1 2 = (1, 0)" "ballots s 1 3 = (0, 7)"
    using pdemo_wait_runs by (auto split: option.splits)
  have "consensus (\<lambda>q. outcome_of (ballots s (notified s 3) q)) 4 = ONamed 7"
    using b by (simp add: eval_nat_numeral outcome_of_def c_and_def GASNET_BARRIERFLAG_MISMATCH_def
        GASNET_BARRIERFLAG_ANONYMOUS_def)
  with pshm_wait_reports_consensus [OF pshm_exec_init [OF s] _ _ w] s show ?thesis by simp
qed

text \<open>
  C15. The shared-memory barrier cannot get stuck: from every reachable state in which all ranks have
  notified the barrier a rank is in, kicks alone lead to a state in which that rank's wait can
  complete.
\<close>

theorem pshm_barrier_completes:
  assumes "reach (pshm_init env N) (pshm_step env N) s" and "r < N"
    and "0 < notified s r" and "\<forall>q<N. notified s r \<le> notified s q"
  shows "\<exists>es t. run (pshm_step env N) s es t \<and> set es \<subseteq> {Internal} \<and> notified t = notified s \<and>
     waiting t = waiting s \<and> pshm_done (barrier_data (pteam t r)) (shm t)"
proof -
  obtain n where n: "N = Suc n" using assms(2) by (cases N) auto
  from assms(1) pshm_rest.settles [of env n s] obtain es t where
    t: "run (pshm_step env N) s es t" "set es \<subseteq> {Internal}" "notified t = notified s" "waiting t = waiting s"
    and q: "pquiet N t" unfolding n by auto
  have inv: "pinv env N t" using run_reach [OF t(1) assms(1)] assms(2) by (intro pshm_reach_inv) auto
  have "notified s r \<le> arr t 0"
    using assms(2,4) t(3) by (intro pquiet_arrived [OF inv q]) auto
  then have a0: "arr t 0 = notified t r" using arr_bounds [OF inv assms(2)] t(3) by simp
  have "pr_two_to_phase (prv t r) = ph (notified t r)" using inv assms(2) by (simp add: pinv_def pshape_def)
  then have "pshm_done (prv t r) (shm t)"
    using root_consensus(3) [OF inv a0] assms(3) t(3) by (simp add: pshm_done_def state_done)
  with t show ?thesis by blast
qed

theorem pshm_barrier_completes_witness:
  "case pshm_exec 4 pdemo_enter (pshm_init 2 4) of None \<Rightarrow> False
   | Some s \<Rightarrow> \<exists>es t. run (pshm_step 2 4) s es t \<and> pshm_done (prv t 3) (shm t)"
proof -
  obtain s where s: "pshm_exec 4 pdemo_enter (pshm_init 2 4) = Some s"
    and n: "notified s 0 = 1" "notified s 1 = 1" "notified s 2 = 1" "notified s 3 = 1"
    using pdemo_enter_runs by (auto split: option.splits)
  have "\<forall>q<4. notified s 3 \<le> notified s q"
    using n by (auto simp: eval_nat_numeral less_Suc_eq)
  with pshm_barrier_completes [OF pshm_exec_init [OF s], of 3] n s show ?thesis by auto
qed

section \<open>The shape of the tree\<close>

definition pshm_parent :: "int \<Rightarrow> nat \<Rightarrow> nat \<Rightarrow> nat" where
  "pshm_parent env n c = (let radix = (if env = 0 then int n - 1 else env) in
     if radix < 0 then if c mod nat (- radix) = 0 then 0 else c - c mod nat (- radix)
     else (c - 1) div nat radix)"

lemma cell_parent:
  assumes "r mod k = 0" and "r < c" and "c < r + (k :: nat)"
  shows "c mod k \<noteq> 0 \<and> c - c mod k = r"
proof -
  obtain j where j: "r = k * j" using assms(1) by blast
  have "c = (c - r) + k * j" using j assms(2) by simp
  then have "c mod k = (c - r) mod k" by (metis mod_mult_self2)
  then have "c mod k = c - r" using assms(2,3) by simp
  then show ?thesis using assms(2) by simp
qed

lemma child_parent:
  assumes c: "c \<in> set (pshm_children env n r)"
  shows "r = pshm_parent env n c"
proof (cases "(if env = 0 then int n - 1 else env) < 0")
  case True
  let ?k = "nat (- (if env = 0 then int n - 1 else env))"
  have k: "0 < ?k" using True by simp
  have n: "n \<noteq> 1" using c by (auto simp: pshm_children_def)
  have par: "pshm_parent env n c = (if c mod ?k = 0 then 0 else c - c mod ?k)"
    using True by (simp only: pshm_parent_def Let_def if_True)
  show ?thesis
  proof (cases "r = 0")
    case root: True
    have "pshm_children env n r = [1..<Suc (min n ?k - 1)] @ pshm_every ?k n ?k"
      using True n root by (simp only: pshm_children_def Let_def if_True if_False simp_thms)
    then have "c \<in> set [1..<Suc (min n ?k - 1)] \<or> c \<in> set (pshm_every ?k n ?k)" using c by (metis Un_iff set_append)
    then have "0 < c \<and> c < ?k \<or> (\<exists>j. c = ?k + j * ?k)"
    proof
      assume "c \<in> set [1..<Suc (min n ?k - 1)]"
      then have "0 < c \<and> c < ?k" by (simp only: set_upt atLeastLessThan_iff) linarith
      then show ?thesis by blast
    qed (use every_set [OF k] in blast)
    then have "c mod ?k = 0 \<or> c - c mod ?k = 0" by (elim disjE exE) (simp, simp only: mod_add_self1 mod_mult_self2_is_0 simp_thms)
    then have "(if c mod ?k = 0 then 0 else c - c mod ?k) = 0" by metis
    then show ?thesis using root unfolding par by metis
  next
    case False
    then have "r mod ?k = 0" using c True n by (simp add: pshm_children_def Let_def split: if_splits)
    then have "pshm_children env n r = map (\<lambda>i. r + 1 + i) [0..<(min n (r + ?k) - 1) - r]"
      using True n False by (simp only: pshm_children_def Let_def if_True if_False simp_thms)
    then obtain i where "c = r + 1 + i" "i < (min n (r + ?k) - 1) - r" using c by auto
    then have "r < c" "c < r + ?k" by linarith+
    from cell_parent [OF \<open>r mod ?k = 0\<close> this] show ?thesis unfolding par by simp
  qed
next
  case False
  let ?k = "nat (if env = 0 then int n - 1 else env)"
  have n: "n \<noteq> 1" using c by (auto simp: pshm_children_def)
  have "pshm_children env n r = map (\<lambda>i. ?k * r + 1 + i) [0..<1 + (min n (?k * r + 1 + ?k) - 1) - (?k * r + 1)]"
    using False n by (simp only: pshm_children_def Let_def if_False)
  then obtain i where i: "c = ?k * r + 1 + i" "i < 1 + (min n (?k * r + 1 + ?k) - 1) - (?k * r + 1)" using c by auto
  then have "i < ?k" by linarith
  then have "(c - 1) div ?k = r" using i(1) by simp
  moreover have "pshm_parent env n c = (c - 1) div ?k" using False by (simp only: pshm_parent_def Let_def if_False)
  ultimately show ?thesis by simp
qed

lemma every_distinct: "distinct (pshm_every i n k)"
proof (induction i n k rule: pshm_every.induct)
  case (1 i n k)
  show ?case
  proof (cases "i < n \<and> 0 < k")
    case True
    then have "i \<notin> set (pshm_every (i + k) n k)" using every_set [of k i "i + k" n] by auto
    then show ?thesis using True 1 by (simp add: pshm_every.simps [of i n k])
  next
    case False
    then have "pshm_every i n k = []" by (subst pshm_every.simps) simp
    then show ?thesis by (simp only: distinct.simps)
  qed
qed

lemma children_distinct: "distinct (pshm_children env n r)"
proof -
  have "x \<notin> set (pshm_every k n k)" if "x < k" for x k using every_set [of k x k n] that by auto
  then show ?thesis
    by (auto simp: pshm_children_def Let_def distinct_map every_distinct inj_on_def)
qed



end
