(* ===== verification/Dictionary.thy ===== *)
theory Dictionary
  imports Gasnet_Prelude
begin

text \<open>
  The contract of the two hash tables of the library (\<open>Hashtable\<close>, \<open>Firehose_Hash\<close>) as their
  clients use them: keys are added when they are not present, and every operation acts on the
  finite map of the entries. An operation that would fail an assertion returns \<open>None\<close>.
\<close>

section \<open>The interface\<close>

locale dictionary =
  fixes good :: "'t \<Rightarrow> bool"
    and find :: "'t \<Rightarrow> 'k \<Rightarrow> 'v option"
    and add :: "'k \<Rightarrow> 'v \<Rightarrow> 't \<Rightarrow> 't option"
    and del :: "'k \<Rightarrow> 't \<Rightarrow> 't option"
  assumes find_add: "good t \<Longrightarrow> find t k = None \<Longrightarrow> add k v t = Some t' \<Longrightarrow>
      good t' \<and> find t' = (find t)(k \<mapsto> v)"
    and find_del: "good t \<Longrightarrow> del k t = Some t' \<Longrightarrow> good t' \<and> find t' = (find t)(k := None)"
    and del_total: "good t \<Longrightarrow> \<exists>t'. del k t = Some t'"
begin

text \<open>A client's history: additions and deletions, an addition only of a key that is absent.\<close>

definition apply_op :: "'k \<times> 'v option \<Rightarrow> 't \<Rightarrow> 't option" where
  "apply_op op t = (case op of
     (k, Some v) \<Rightarrow> if find t k = None then add k v t else None
   | (k, None) \<Rightarrow> del k t)"

primrec apply_ops :: "('k \<times> 'v option) list \<Rightarrow> 't \<Rightarrow> 't option" where
  "apply_ops [] t = Some t"
| "apply_ops (op # ops) t = (case apply_op op t of None \<Rightarrow> None | Some t' \<Rightarrow> apply_ops ops t')"

lemma apply_op_map:
  "good t \<Longrightarrow> apply_op (k, w) t = Some t' \<Longrightarrow> good t' \<and> find t' = (find t)(k := w)"
  by (auto simp: apply_op_def dest: find_add find_del split: option.splits if_splits)

text \<open>The table is the map its history describes.\<close>

lemma apply_ops_map:
  "good t \<Longrightarrow> apply_ops ops t = Some t' \<Longrightarrow>
   good t' \<and> find t' = foldl (\<lambda>m (k, w). m(k := w)) (find t) ops"
proof (induction ops arbitrary: t)
  case Nil
  then show ?case by simp
next
  case (Cons op ops)
  obtain k w where op: "op = (k, w)" by (cases op)
  with Cons.prems(2) obtain u where u: "apply_op (k, w) t = Some u" "apply_ops ops u = Some t'"
    by (auto split: option.splits)
  from apply_op_map [OF Cons.prems(1) u(1)] Cons.IH [OF _ u(2)] show ?case by (simp add: op)
qed

lemma add_del_restores:
  assumes "good t" "find t k = None" "add k v t = Some t'" "del k t' = Some u"
  shows "good u \<and> find u = find t"
  using find_add [OF assms(1-3)] find_del [OF _ assms(4)] assms(2) by (auto simp: fun_eq_iff)

lemma find_after_del: "good t \<Longrightarrow> del k t = Some t' \<Longrightarrow> find t' k = None"
  using find_del by fastforce

end

end
