(* ===== verification/Hashtable.thy ===== *)
theory Hashtable
  imports Dictionary "HOL-Library.Multiset"
begin

text \<open>
  The hash table of the team directory: \<^verbatim>\<open>extended-ref/coll/gasnet_hashtable.c\<close> and its
  header. A bucket is a growing array of items (\<open>gasnete_table\<close>); slots that were allocated and
  not yet written are \<open>None\<close>. Assertion failures return \<open>None\<close>, the \<open>uint32_t\<close> return codes are
  numbers, and pointers to items are the items.
\<close>

section \<open>Tables\<close>

record 'a table_item =
  item_key :: u32
  item_data :: 'a

record 'a gasnete_table =
  slots :: "'a table_item option list"
  table_size :: nat
  table_num :: nat

definition gasnete_table_create :: "nat \<Rightarrow> 'a gasnete_table option" where
  "gasnete_table_create sz =
     (if sz > 0 then Some \<lparr>slots = replicate sz None, table_size = sz, table_num = 0\<rparr> else None)"

text \<open>The loop of search and remove: the first index below \<open>n\<close>, from \<open>i\<close> on, that holds the key.\<close>

function table_scan :: "u32 \<Rightarrow> 'a table_item option list \<Rightarrow> nat \<Rightarrow> nat \<Rightarrow> (nat \<times> 'a table_item) option" where
  "table_scan k sl i n =
     (if i < n then
        (case sl ! i of
           Some it \<Rightarrow> if k = item_key it then Some (i, it) else table_scan k sl (Suc i) n
         | None \<Rightarrow> table_scan k sl (Suc i) n)
      else None)"
  by pat_completeness auto
termination
  by (relation "measure (\<lambda>(k, sl, i, n). n - i)") auto

declare table_scan.simps [simp del]

definition gasnete_table_search :: "'a gasnete_table \<Rightarrow> u32 \<Rightarrow> 'a table_item option" where
  "gasnete_table_search table k = map_option snd (table_scan k (slots table) 0 (table_num table))"

definition gasnete_table_insert :: "'a gasnete_table \<Rightarrow> 'a table_item \<Rightarrow> nat \<times> 'a gasnete_table" where
  "gasnete_table_insert table item =
     (if table_num table \<ge> table_size table then (1, table)
      else (0, table\<lparr>slots := (slots table)[table_num table := Some item],
                     table_num := Suc (table_num table)\<rparr>))"

definition gasnete_table_remove ::
  "'a gasnete_table \<Rightarrow> u32 \<Rightarrow> nat \<times> 'a table_item option \<times> 'a gasnete_table" where
  "gasnete_table_remove table k =
     (case table_scan k (slots table) 0 (table_num table) of
        Some (i, item) \<Rightarrow>
          (0, Some item, table\<lparr>slots := (if i < table_num table - 1
                 then (slots table)[i := slots table ! (table_num table - 1)] else slots table),
               table_num := table_num table - 1\<rparr>)
      | None \<Rightarrow> (1, None, table))"

definition gasnete_table_copy :: "'a gasnete_table \<Rightarrow> 'a gasnete_table \<Rightarrow> 'a gasnete_table option" where
  "gasnete_table_copy src dst =
     (if table_size dst \<ge> table_num src
      then Some (dst\<lparr>slots := take (table_num src) (slots src) @ drop (table_num src) (slots dst),
                     table_num := table_num src\<rparr>)
      else None)"

section \<open>Hash tables\<close>

definition TABLE_INIT_SIZE :: nat where
  "TABLE_INIT_SIZE = 10"

record 'a gasnete_hashtable =
  buckets :: "'a gasnete_table list"
  ht_size :: nat
  ht_num :: u32

definition gasnete_hashtable_hash :: "'a gasnete_hashtable \<Rightarrow> u32 \<Rightarrow> nat" where
  "gasnete_hashtable_hash ht k = unat k mod ht_size ht"

definition gasnete_hashtable_create :: "nat \<Rightarrow> 'a gasnete_hashtable option" where
  "gasnete_hashtable_create sz =
     (if sz > 0 then
        (case gasnete_table_create TABLE_INIT_SIZE of None \<Rightarrow> None
         | Some t \<Rightarrow> Some \<lparr>buckets = replicate sz t, ht_size = sz, ht_num = 0\<rparr>)
      else None)"

definition gasnete_hashtable_search :: "'a gasnete_hashtable \<Rightarrow> u32 \<Rightarrow> nat \<times> 'a option" where
  "gasnete_hashtable_search ht k =
     (case gasnete_table_search (buckets ht ! gasnete_hashtable_hash ht k) k of
        None \<Rightarrow> (1, None)
      | Some item \<Rightarrow> (0, Some (item_data item)))"

text \<open>The bucket doubles when it is full; the new size is a \<open>uint32_t\<close>.\<close>

definition gasnete_hashtable_insert ::
  "'a gasnete_hashtable \<Rightarrow> u32 \<Rightarrow> 'a \<Rightarrow> (nat \<times> 'a gasnete_hashtable) option" where
  "gasnete_hashtable_insert ht k d =
     (let item = \<lparr>item_key = k, item_data = d\<rparr>;
          i = gasnete_hashtable_hash ht k;
          table = buckets ht ! i;
          grown = (if table_num table = table_size table
                   then (case gasnete_table_create (table_size table * 2 mod 2 ^ 32) of None \<Rightarrow> None
                         | Some new_table \<Rightarrow> gasnete_table_copy table new_table)
                   else Some table)
      in case grown of None \<Rightarrow> None
         | Some t \<Rightarrow> let (rc, t') = gasnete_table_insert t item in
             Some (rc, ht\<lparr>buckets := (buckets ht)[i := t'], ht_num := ht_num ht + 1\<rparr>))"

definition gasnete_hashtable_remove ::
  "'a gasnete_hashtable \<Rightarrow> u32 \<Rightarrow> nat \<times> 'a option \<times> 'a gasnete_hashtable" where
  "gasnete_hashtable_remove ht k =
     (let i = gasnete_hashtable_hash ht k;
          (rv, item, t') = gasnete_table_remove (buckets ht ! i) k
      in (rv, if rv = 0 then map_option item_data item else None,
          ht\<lparr>buckets := (buckets ht)[i := t'], ht_num := ht_num ht - 1\<rparr>))"

section \<open>Tables as maps\<close>

text \<open>The items of a table, and what makes it well formed.\<close>

definition table_items :: "'a gasnete_table \<Rightarrow> 'a table_item list" where
  "table_items t = map the (take (table_num t) (slots t))"

abbreviation entry :: "'a table_item \<Rightarrow> u32 \<times> 'a" where
  "entry it \<equiv> (item_key it, item_data it)"

definition table_map :: "'a gasnete_table \<Rightarrow> u32 \<Rightarrow> 'a option" where
  "table_map t = map_of (map entry (table_items t))"

definition table_ok :: "'a gasnete_table \<Rightarrow> bool" where
  "table_ok t \<longleftrightarrow> 0 < table_size t \<and> length (slots t) = table_size t \<and> table_num t \<le> table_size t \<and>
     None \<notin> set (take (table_num t) (slots t)) \<and> distinct (map item_key (table_items t))"

lemma table_items_nth:
  assumes "table_ok t" "i < table_num t"
  shows "slots t ! i = Some (table_items t ! i)" and "i < length (table_items t)"
proof -
  have len: "i < length (slots t)" using assms by (simp add: table_ok_def)
  then have "slots t ! i \<in> set (take (table_num t) (slots t))"
    using assms(2) by (auto simp: in_set_conv_nth intro!: exI [of _ i])
  with assms(1) have "slots t ! i \<noteq> None" unfolding table_ok_def by metis
  then show "slots t ! i = Some (table_items t ! i)" using len assms(2) by (simp add: table_items_def)
  show "i < length (table_items t)" using len assms(2) by (simp add: table_items_def)
qed

lemma length_table_items: "table_ok t \<Longrightarrow> length (table_items t) = table_num t"
  by (simp add: table_ok_def table_items_def)

lemma scan_spec:
  assumes "table_ok t" "i \<le> table_num t" "n = table_num t"
  shows "table_scan k (slots t) i n = None \<and> (\<forall>j. i \<le> j \<and> j < n \<longrightarrow> item_key (table_items t ! j) \<noteq> k) \<or>
    (\<exists>j<n. i \<le> j \<and> table_scan k (slots t) i n = Some (j, table_items t ! j) \<and> item_key (table_items t ! j) = k)"
  using assms
proof (induction "n - i" arbitrary: i)
  case 0
  then show ?case by (auto simp: table_scan.simps [of k "slots t" i])
next
  case (Suc m)
  then have i: "i < n" by simp
  have it: "slots t ! i = Some (table_items t ! i)" using Suc.prems i by (auto intro: table_items_nth)
  show ?case
  proof (cases "k = item_key (table_items t ! i)")
    case True
    then have "table_scan k (slots t) i n = Some (i, table_items t ! i)"
      by (subst table_scan.simps) (use i it in simp)
    with i True show ?thesis by auto
  next
    case False
    have step: "table_scan k (slots t) i n = table_scan k (slots t) (Suc i) n"
      using i it False by (simp add: table_scan.simps [of k "slots t" i])
    have "m = n - Suc i" "Suc i \<le> table_num t" using Suc.hyps(2) Suc.prems i by auto
    from Suc.hyps(1) [OF this(1) Suc.prems(1) this(2) Suc.prems(3)] show ?thesis
      unfolding step using False by (metis Suc_leD Suc_leI le_neq_implies_less)
  qed
qed

lemma table_search_map:
  assumes "table_ok t"
  shows "map_option item_data (gasnete_table_search t k) = table_map t k"
proof -
  have dist: "distinct (map fst (map entry (table_items t)))"
    using assms by (simp add: table_ok_def comp_def)
  note len = length_table_items [OF assms]
  from scan_spec [OF assms le0 refl, of k] show ?thesis
  proof (elim disjE exE conjE)
    assume none: "table_scan k (slots t) 0 (table_num t) = None"
      and *: "\<forall>j. 0 \<le> j \<and> j < table_num t \<longrightarrow> item_key (table_items t ! j) \<noteq> k"
    then have "k \<notin> item_key ` set (table_items t)" using len by (auto simp: in_set_conv_nth)
    then have "table_map t k = None"
      by (auto simp: table_map_def map_of_eq_None_iff image_iff)
    with none show ?thesis by (simp add: gasnete_table_search_def)
  next
    fix j assume j: "j < table_num t" "table_scan k (slots t) 0 (table_num t) = Some (j, table_items t ! j)"
      "item_key (table_items t ! j) = k"
    then have "(k, item_data (table_items t ! j)) \<in> set (map entry (table_items t))"
      using len by (force simp: in_set_conv_nth)
    then have "table_map t k = Some (item_data (table_items t ! j))"
      unfolding table_map_def using dist by (simp add: map_of_eq_Some_iff del: set_map)
    with j show ?thesis by (simp add: gasnete_table_search_def)
  qed
qed

section \<open>Tables implement maps\<close>

lemma table_map_Some:
  assumes "table_ok t"
  shows "table_map t k = Some d \<longleftrightarrow> (k, d) \<in> entry ` set (table_items t)"
proof -
  have "distinct (map fst (map entry (table_items t)))"
    using assms by (simp add: table_ok_def comp_def)
  then have "table_map t k = Some d \<longleftrightarrow> (k, d) \<in> set (map entry (table_items t))"
    unfolding table_map_def by (rule map_of_eq_Some_iff)
  then show ?thesis by simp
qed

lemma table_create_ok:
  "gasnete_table_create n = Some t \<Longrightarrow>
   table_ok t \<and> table_items t = [] \<and> table_size t = n \<and> table_num t = 0"
  by (auto simp: gasnete_table_create_def table_ok_def table_items_def split: if_splits)

lemma table_insert_ok:
  assumes "table_ok t" "table_num t < table_size t" "table_map t (item_key it) = None"
    and "gasnete_table_insert t it = (rc, t')"
  shows "rc = 0 \<and> table_ok t' \<and> table_items t' = table_items t @ [it]"
proof -
  have t': "t' = t\<lparr>slots := (slots t)[table_num t := Some it], table_num := Suc (table_num t)\<rparr>" "rc = 0"
    using assms(2,4) by (auto simp: gasnete_table_insert_def)
  have len: "table_num t < length (slots t)" using assms(1,2) by (simp add: table_ok_def)
  have tk: "take (table_num t') (slots t') = take (table_num t) (slots t) @ [Some it]"
    using len by (simp add: t' take_Suc_conv_app_nth)
  then have items: "table_items t' = table_items t @ [it]" by (simp add: table_items_def)
  have "item_key it \<notin> item_key ` set (table_items t)"
    using assms(3) by (auto simp: table_map_def map_of_eq_None_iff image_image)
  then have "table_ok t'"
    using assms(1,2) tk items by (auto simp: table_ok_def t' table_items_def)
  with items t' show ?thesis by simp
qed

lemma table_copy_ok:
  assumes "table_ok src" "table_ok dst" "gasnete_table_copy src dst = Some t"
  shows "table_ok t \<and> table_items t = table_items src \<and> table_num t = table_num src \<and>
         table_size t = table_size dst"
proof -
  have t: "t = dst\<lparr>slots := take (table_num src) (slots src) @ drop (table_num src) (slots dst),
                 table_num := table_num src\<rparr>" and le: "table_num src \<le> table_size dst"
    using assms(3) by (auto simp: gasnete_table_copy_def split: if_splits)
  have len: "length (take (table_num src) (slots src)) = table_num src"
    using assms(1) by (simp add: table_ok_def)
  then have tk: "take (table_num t) (slots t) = take (table_num src) (slots src)" by (simp add: t)
  then have items: "table_items t = table_items src" by (simp add: table_items_def t)
  have "table_ok t" using assms(1,2) le tk items by (auto simp: table_ok_def t)
  with items show ?thesis by (simp add: t)
qed

text \<open>Removing an item moves the last one into its slot.\<close>

lemma take_swap_last:
  assumes "i < n" "n \<le> length xs"
  shows "mset (take (n - 1) (if i < n - 1 then xs[i := xs ! (n - 1)] else xs)) + {#xs ! i#} = mset (take n xs)"
proof -
  have n: "take n xs = take (n - 1) xs @ [xs ! (n - 1)]"
    using assms take_Suc_conv_app_nth [of "n - 1" xs] by simp
  show ?thesis
  proof (cases "i < n - 1")
    case True
    let ?ys = "take (n - 1) xs"
    have i: "i < length ?ys" "?ys ! i = xs ! i" using True assms by simp_all
    then have mem: "xs ! i \<in># mset ?ys" using nth_mem [OF i(1)] by simp
    have "mset (take (n - 1) (xs[i := xs ! (n - 1)])) = mset (?ys[i := xs ! (n - 1)])"
      by (simp add: take_update_swap)
    also have "\<dots> = add_mset (xs ! (n - 1)) (mset ?ys - {#xs ! i#})"
      using mset_update [OF i(1)] by (simp only: i(2))
    finally have "mset (take (n - 1) (xs[i := xs ! (n - 1)])) + {#xs ! i#} =
        add_mset (xs ! (n - 1)) (mset ?ys)"
      using mem by simp
    with True n show ?thesis by simp
  next
    case False
    with assms have "i = n - 1" by simp
    with n show ?thesis by simp
  qed
qed

lemma table_remove_ok:
  assumes ok: "table_ok t" and op: "gasnete_table_remove t k = (rc, it, t')"
  shows "table_ok t' \<and> table_map t' = (table_map t)(k := None) \<and>
     (rc = 0 \<longleftrightarrow> table_map t k \<noteq> None) \<and> map_option item_data it = table_map t k"
proof (cases "table_scan k (slots t) 0 (table_num t)")
  case None
  then have "rc = 1" "it = None" "t' = t" using op by (simp_all add: gasnete_table_remove_def)
  moreover have "table_map t k = None"
    using table_search_map [OF ok, of k] None by (simp add: gasnete_table_search_def)
  ultimately show ?thesis using ok by auto
next
  case (Some p)
  from scan_spec [OF ok le0 refl, of k] Some obtain i where
    i: "i < table_num t" "item_key (table_items t ! i) = k" and p: "p = (i, table_items t ! i)" by auto
  let ?n = "table_num t" and ?sl = "slots t"
  have t': "t' = t\<lparr>slots := (if i < ?n - 1 then ?sl[i := ?sl ! (?n - 1)] else ?sl), table_num := ?n - 1\<rparr>"
    "rc = 0" "it = Some (table_items t ! i)"
    using op Some p by (simp_all add: gasnete_table_remove_def)
  have len: "?n \<le> length ?sl" using ok by (simp add: table_ok_def)
  have ms: "mset (take (table_num t') (slots t')) + {#?sl ! i#} = mset (take ?n ?sl)"
    using take_swap_last [OF i(1) len] by (simp add: t')
  have "mset (map the (take (table_num t') (slots t'))) + {#the (?sl ! i)#} = mset (map the (take ?n ?sl))"
    using arg_cong [OF ms, of "image_mset the"] by simp
  then have items: "mset (table_items t') + {#table_items t ! i#} = mset (table_items t)"
    by (simp only: table_items_nth(1) [OF ok i(1)] option.sel table_items_def [symmetric])
  then have keys: "mset (map item_key (table_items t')) + {#k#} = mset (map item_key (table_items t))"
    unfolding mset_map items [symmetric] using i(2) by simp
  have dist: "distinct (map item_key (table_items t))" using ok by (simp add: table_ok_def)
  have "mset (k # map item_key (table_items t')) = mset (map item_key (table_items t))"
    using keys by simp
  from mset_eq_imp_distinct_iff [OF this] dist have dist': "distinct (k # map item_key (table_items t'))"
    by blast
  have "None \<notin># mset (take ?n ?sl)" using ok by (simp add: table_ok_def)
  then have "None \<notin> set (take (table_num t') (slots t'))"
    unfolding ms [symmetric] by simp
  moreover have "table_size t' = table_size t" "length (slots t') = length (slots t)"
    "table_num t' \<le> table_num t" by (simp_all add: t'(1))
  ultimately have ok': "table_ok t'"
    using ok dist' unfolding table_ok_def by (metis distinct.simps(2) le_trans)
  have set': "set (table_items t) = insert (table_items t ! i) (set (table_items t'))"
    using arg_cong [OF items, of set_mset] by simp
  have "table_map t' x = ((table_map t)(k := None)) x" for x
  proof (cases "x = k")
    case True
    with dist' have "x \<notin> item_key ` set (table_items t')" by simp
    with True show ?thesis by (auto simp: table_map_def map_of_eq_None_iff image_image)
  next
    case False
    have "table_map t' x = Some d \<longleftrightarrow> table_map t x = Some d" for d
      using False i(2) unfolding table_map_Some [OF ok'] table_map_Some [OF ok] set' by auto
    with False show ?thesis by (metis fun_upd_other not_None_eq)
  qed
  moreover have "table_map t k = Some (item_data (table_items t ! i))"
    unfolding table_map_Some [OF ok] set' using i(2) by auto
  ultimately show ?thesis using ok' t' by auto
qed

section \<open>The hash table implements the dictionary contract\<close>

definition ht_map :: "'a gasnete_hashtable \<Rightarrow> u32 \<Rightarrow> 'a option" where
  "ht_map ht k = table_map (buckets ht ! gasnete_hashtable_hash ht k) k"

definition ht_ok :: "'a gasnete_hashtable \<Rightarrow> bool" where
  "ht_ok ht \<longleftrightarrow> 0 < ht_size ht \<and> length (buckets ht) = ht_size ht \<and> (\<forall>t\<in>set (buckets ht). table_ok t)"

lemma hash_bound: "ht_ok ht \<Longrightarrow> gasnete_hashtable_hash ht k < length (buckets ht)"
  by (simp add: ht_ok_def gasnete_hashtable_hash_def)

lemma bucket_ok: "ht_ok ht \<Longrightarrow> table_ok (buckets ht ! gasnete_hashtable_hash ht k)"
  using hash_bound [of ht k] by (simp add: ht_ok_def)

lemma ht_create_ok:
  "gasnete_hashtable_create n = Some ht \<Longrightarrow>
   0 < n \<and> ht_ok ht \<and> ht_map ht = (\<lambda>_. None) \<and> ht_num ht = 0"
  by (auto simp: gasnete_hashtable_create_def gasnete_table_create_def TABLE_INIT_SIZE_def ht_ok_def
      table_ok_def table_items_def ht_map_def table_map_def gasnete_hashtable_hash_def fun_eq_iff
      split: if_splits)

lemma ht_create_eq:
  "0 < n \<Longrightarrow> gasnete_hashtable_create n = Some \<lparr>buckets = replicate n
     \<lparr>slots = replicate 10 None, table_size = 10, table_num = 0\<rparr>, ht_size = n, ht_num = 0\<rparr>"
  by (simp add: gasnete_hashtable_create_def gasnete_table_create_def TABLE_INIT_SIZE_def)

lemma ht_search_map:
  "ht_ok ht \<Longrightarrow> gasnete_hashtable_search ht k = (case ht_map ht k of None \<Rightarrow> (1, None) | Some d \<Rightarrow> (0, Some d))"
  using table_search_map [OF bucket_ok, of ht k k, symmetric]
  by (simp add: gasnete_hashtable_search_def ht_map_def split: option.split)

text \<open>Replacing the bucket of a key changes the map of that bucket only.\<close>

lemma ht_map_update:
  assumes ok: "ht_ok ht" and i: "i = gasnete_hashtable_hash ht k"
    and t: "table_ok t" "table_map t = (table_map (buckets ht ! i))(k := w)"
    and ht': "buckets ht' = (buckets ht)[i := t]" "ht_size ht' = ht_size ht"
  shows "ht_ok ht' \<and> ht_map ht' = (ht_map ht)(k := w)"
proof
  have len: "i < length (buckets ht)" using hash_bound [OF ok] i by simp
  show "ht_ok ht'" using ok t(1) set_update_subset_insert [of "buckets ht" i t]
    unfolding ht_ok_def ht' by auto
  have h: "gasnete_hashtable_hash ht' = gasnete_hashtable_hash ht"
    by (simp add: gasnete_hashtable_hash_def ht' fun_eq_iff)
  show "ht_map ht' = (ht_map ht)(k := w)"
  proof
    fix x
    show "ht_map ht' x = ((ht_map ht)(k := w)) x"
      using len t(2) i by (cases "gasnete_hashtable_hash ht x = i") (auto simp: ht_map_def h ht'(1))
  qed
qed

lemma double_mod_fixed: "x * 2 mod m = x \<Longrightarrow> 0 < m \<Longrightarrow> x = (0::nat)"
proof -
  assume *: "x * 2 mod m = x" "0 < m"
  then have "x < m" by (metis mod_less_divisor)
  with * show ?thesis using le_mod_geq [of m "x * 2"] by (cases "x * 2 < m") simp_all
qed

lemma ht_insert_ok:
  assumes ok: "ht_ok ht" and new: "ht_map ht k = None"
    and op: "gasnete_hashtable_insert ht k d = Some (rc, ht')"
  shows "rc = 0 \<and> ht_ok ht' \<and> ht_map ht' = (ht_map ht)(k \<mapsto> d) \<and> ht_num ht' = ht_num ht + 1"
proof -
  let ?i = "gasnete_hashtable_hash ht k"
  let ?b = "buckets ht ! ?i" and ?it = "\<lparr>item_key = k, item_data = d\<rparr>"
  have bok: "table_ok ?b" by (rule bucket_ok [OF ok])
  then have le: "table_num ?b \<le> table_size ?b" by (simp add: table_ok_def)
  obtain t where t: "(if table_num ?b = table_size ?b
       then (case gasnete_table_create (table_size ?b * 2 mod 2 ^ 32) of None \<Rightarrow> None
             | Some new_table \<Rightarrow> gasnete_table_copy ?b new_table) else Some ?b) = Some t"
    using op unfolding gasnete_hashtable_insert_def Let_def by (auto split: option.splits)
  obtain rc' t' where ins: "gasnete_table_insert t ?it = (rc', t')"
    by (cases "gasnete_table_insert t ?it")
  have ht': "rc = rc'" "ht' = ht\<lparr>buckets := (buckets ht)[?i := t'], ht_num := ht_num ht + 1\<rparr>"
    using op unfolding gasnete_hashtable_insert_def Let_def t by (simp_all add: ins)
  have tok: "table_ok t \<and> table_items t = table_items ?b \<and> table_num t < table_size t"
  proof (cases "table_num ?b = table_size ?b")
    case True
    with t obtain n where n: "gasnete_table_create (table_size ?b * 2 mod 2 ^ 32) = Some n"
      "gasnete_table_copy ?b n = Some t" by (auto split: option.splits)
    note nok = table_create_ok [OF n(1)]
    have "table_ok n" using nok by blast
    from table_copy_ok [OF bok this n(2)] nok
    have *: "table_ok t" "table_items t = table_items ?b" "table_num t = table_num ?b"
      "table_size t = table_size ?b * 2 mod 2 ^ 32" by simp_all
    have "table_num t \<le> table_size t" using *(1) by (simp add: table_ok_def)
    moreover have "table_num t \<noteq> table_size t"
    proof
      assume "table_num t = table_size t"
      with * True have "table_size ?b * 2 mod 2 ^ 32 = table_size ?b" by simp
      then have "table_size ?b = 0" by (rule double_mod_fixed) simp
      with bok show False by (simp add: table_ok_def)
    qed
    ultimately show ?thesis using * by simp
  next
    case False
    with t le bok show ?thesis by simp
  qed
  then have new': "table_map t (item_key ?it) = None" using new by (simp add: table_map_def ht_map_def)
  from table_insert_ok [OF _ _ new' ins] tok
  have t': "rc' = 0" "table_ok t'" "table_items t' = table_items ?b @ [?it]" by auto
  have "table_map t' = (table_map ?b)(k := Some d)"
  proof
    fix x
    show "table_map t' x = ((table_map ?b)(k := Some d)) x"
      using new unfolding table_map_def t'(3) ht_map_def by (auto simp: map_add_def split: option.splits)
  qed
  from ht_map_update [OF ok refl t'(2) this, of ht'] ht' t'(1) show ?thesis by simp
qed

text \<open>An insertion succeeds while the bucket can still double within 32 bits.\<close>

lemma ht_insert_total:
  assumes ok: "ht_ok ht" and room: "table_size (buckets ht ! gasnete_hashtable_hash ht k) < 2 ^ 31"
  shows "\<exists>rc ht'. gasnete_hashtable_insert ht k d = Some (rc, ht')"
proof -
  let ?b = "buckets ht ! gasnete_hashtable_hash ht k"
  have "table_ok ?b" by (rule bucket_ok [OF ok])
  then have "0 < table_size ?b" by (simp add: table_ok_def)
  moreover have "table_size ?b * 2 mod 2 ^ 32 = table_size ?b * 2" using room by simp
  ultimately show ?thesis
    by (auto simp: gasnete_hashtable_insert_def Let_def gasnete_table_create_def gasnete_table_copy_def
        split_def)
qed

lemma ht_remove_ok:
  assumes ok: "ht_ok ht" and op: "gasnete_hashtable_remove ht k = (rc, d, ht')"
  shows "ht_ok ht' \<and> ht_map ht' = (ht_map ht)(k := None) \<and> (rc = 0 \<longleftrightarrow> ht_map ht k \<noteq> None) \<and>
     d = ht_map ht k \<and> ht_num ht' = ht_num ht - 1"
proof -
  let ?i = "gasnete_hashtable_hash ht k"
  obtain rv it t' where rem: "gasnete_table_remove (buckets ht ! ?i) k = (rv, it, t')"
    by (cases "gasnete_table_remove (buckets ht ! ?i) k")
  note r = table_remove_ok [OF bucket_ok [OF ok] rem]
  have o: "rc = rv" "d = (if rv = 0 then map_option item_data it else None)"
    "ht' = ht\<lparr>buckets := (buckets ht)[?i := t'], ht_num := ht_num ht - 1\<rparr>"
    using op by (auto simp: gasnete_hashtable_remove_def Let_def rem)
  have "ht_ok ht' \<and> ht_map ht' = (ht_map ht)(k := None)"
    by (rule ht_map_update [OF ok refl]) (use r o in auto)
  with r o show ?thesis by (auto simp: ht_map_def)
qed

definition ht_add :: "u32 \<Rightarrow> 'a \<Rightarrow> 'a gasnete_hashtable \<Rightarrow> 'a gasnete_hashtable option" where
  "ht_add k d ht = map_option snd (gasnete_hashtable_insert ht k d)"

definition ht_del :: "u32 \<Rightarrow> 'a gasnete_hashtable \<Rightarrow> 'a gasnete_hashtable option" where
  "ht_del k ht = Some (snd (snd (gasnete_hashtable_remove ht k)))"

definition ht_find :: "'a gasnete_hashtable \<Rightarrow> u32 \<Rightarrow> 'a option" where
  "ht_find ht k = snd (gasnete_hashtable_search ht k)"

lemma ht_find_map: "ht_ok ht \<Longrightarrow> ht_find ht = ht_map ht"
  by (auto simp: ht_find_def ht_search_map fun_eq_iff split: option.splits)

interpretation ht: dictionary ht_ok ht_find ht_add ht_del
proof
  fix t t' :: "'a gasnete_hashtable" and k v
  assume *: "ht_ok t" "ht_find t k = None" "ht_add k v t = Some t'"
  then obtain rc where "gasnete_hashtable_insert t k v = Some (rc, t')" by (auto simp: ht_add_def)
  from ht_insert_ok [OF *(1) _ this] * show "ht_ok t' \<and> ht_find t' = (ht_find t)(k \<mapsto> v)"
    by (simp add: ht_find_map)
next
  fix t t' :: "'a gasnete_hashtable" and k
  assume *: "ht_ok t" "ht_del k t = Some t'"
  obtain rc d u where "gasnete_hashtable_remove t k = (rc, d, u)"
    by (cases "gasnete_hashtable_remove t k")
  with ht_remove_ok [OF *(1) this] * show "ht_ok t' \<and> ht_find t' = (ht_find t)(k := None)"
    by (auto simp: ht_del_def ht_find_map)
qed (simp add: ht_del_def)

section \<open>Properties\<close>



text \<open>
  Insertion of an absent key succeeds, with return code 0, as long as its bucket holds fewer than
  \<open>2 ^ 31\<close> slots, and the key is found afterwards.
\<close>

theorem hashtable_insert_then_search:
  assumes "ht_ok ht" and "gasnete_hashtable_search ht k = (1, None)"
    and "table_size (buckets ht ! gasnete_hashtable_hash ht k) < 2 ^ 31"
  shows "\<exists>ht'. gasnete_hashtable_insert ht k d = Some (0, ht') \<and> ht_ok ht' \<and>
     gasnete_hashtable_search ht' k = (0, Some d) \<and>
     (\<forall>x. x \<noteq> k \<longrightarrow> gasnete_hashtable_search ht' x = gasnete_hashtable_search ht x)"
proof -
  obtain rc ht' where op: "gasnete_hashtable_insert ht k d = Some (rc, ht')"
    using ht_insert_total [OF assms(1,3)] by blast
  have "ht_map ht k = None" using assms(1,2) by (simp add: ht_search_map split: option.splits)
  from ht_insert_ok [OF assms(1) this op] op assms(1) show ?thesis by (auto simp: ht_search_map)
qed

theorem hashtable_insert_then_search_witness:
  "\<exists>ht ht'. gasnete_hashtable_create 3 = Some ht \<and> gasnete_hashtable_insert ht 7 ''team'' = Some (0, ht') \<and>
     gasnete_hashtable_search ht' 7 = (0, Some ''team'')"
proof -
  let ?ht = "\<lparr>buckets = replicate 3 \<lparr>slots = replicate 10 None, table_size = 10, table_num = 0\<rparr>,
    ht_size = 3, ht_num = 0\<rparr> :: string gasnete_hashtable"
  have ht: "gasnete_hashtable_create 3 = Some ?ht" by (rule ht_create_eq) simp
  note ok = ht_create_ok [OF ht]
  have "gasnete_hashtable_hash ?ht 7 < 3" by (simp add: gasnete_hashtable_hash_def)
  then have "table_size (buckets ?ht ! gasnete_hashtable_hash ?ht 7) < 2 ^ 31" by simp
  moreover have "gasnete_hashtable_search ?ht 7 = (1, None)" using ok by (simp add: ht_search_map)
  ultimately have "\<exists>ht'. gasnete_hashtable_insert ?ht 7 ''team'' = Some (0, ht') \<and>
      gasnete_hashtable_search ht' 7 = (0, Some ''team'')"
    using hashtable_insert_then_search [of ?ht 7 "''team''"] ok by blast
  with ht show ?thesis by blast
qed

text \<open>
  C8. The element count is also decremented by a removal that finds nothing: after it \<open>num\<close> is one
  less although the table still holds the same entries; on an empty table it wraps to
  \<open>2 ^ 32 - 1\<close>.
\<close>

theorem hashtable_failed_remove_counts:
  assumes "ht_ok ht" and "gasnete_hashtable_search ht k = (1, None)"
    and "gasnete_hashtable_remove ht k = (rc, d, ht')"
  shows "rc \<noteq> 0 \<and> (\<forall>x. gasnete_hashtable_search ht' x = gasnete_hashtable_search ht x) \<and>
     ht_num ht' = ht_num ht - 1"
proof -
  have "ht_map ht k = None" using assms(1,2) by (simp add: ht_search_map split: option.splits)
  with ht_remove_ok [OF assms(1,3)] assms(1) show ?thesis by (auto simp: ht_search_map)
qed

theorem hashtable_failed_remove_counts_witness:
  "\<exists>ht. gasnete_hashtable_create 1 = Some (ht :: bool gasnete_hashtable) \<and> ht_num ht = 0 \<and>
     ht_num (snd (snd (gasnete_hashtable_remove ht 9))) = 2 ^ 32 - 1"
proof -
  let ?ht = "\<lparr>buckets = replicate 1 \<lparr>slots = replicate 10 None, table_size = 10, table_num = 0\<rparr>,
    ht_size = 1, ht_num = 0\<rparr> :: bool gasnete_hashtable"
  have ht: "gasnete_hashtable_create 1 = Some ?ht" by (rule ht_create_eq) simp
  note ok = ht_create_ok [OF ht]
  obtain rc d ht' where rem: "gasnete_hashtable_remove ?ht 9 = (rc, d, ht')"
    by (cases "gasnete_hashtable_remove ?ht 9")
  have "gasnete_hashtable_search ?ht 9 = (1, None)" using ok by (simp add: ht_search_map)
  with hashtable_failed_remove_counts [OF _ this rem] ok have "ht_num ht' = 2 ^ 32 - 1" by simp
  with rem have "ht_num (snd (snd (gasnete_hashtable_remove ?ht 9))) = 2 ^ 32 - 1" by simp
  with ht ok show ?thesis by blast
qed

end
