(* ===== verification/Firehose_Hash.thy ===== *)
theory Firehose_Hash
  imports Dictionary
begin

text \<open>
  The intrusive hash table of firehose (\<^verbatim>\<open>other/firehose/firehose_hash.c\<close>): the entries
  are objects of the caller, linked through their \<open>hash_next\<close> fields. The memory that holds them
  is an explicit store, pointers are 64-bit words and NULL is \<open>None\<close>. The configuration modelled is
  the one the sources select (\<open>FH_HASH_KNUTH\<close> and \<open>FH_HASH_STATS\<close> undefined, packed keys), on a
  64-bit machine, where \<open>>>\<close> on \<open>intptr_t\<close> shifts arithmetically.
\<close>

section \<open>State\<close>

record fh_entry =
  hash_key :: u64
  hash_next :: "u64 option"

type_synonym fh_mem = "u64 \<Rightarrow> fh_entry"

record fh_hash =
  fh_table :: "u64 option list"
  fh_entries :: nat
  fh_mask :: u32

definition IS_POWER_OF_2 :: "u64 \<Rightarrow> bool" where
  "IS_POWER_OF_2 x \<longleftrightarrow> x AND (x - 1) = 0"

text \<open>Thomas Wang's mix of a 64-bit key.\<close>

definition inthash :: "u64 \<Rightarrow> u32" where
  "inthash full_key =
     (let key = full_key;
          key = key + NOT (push_bit 32 key);
          key = key XOR signed_drop_bit 22 key;
          key = key + NOT (push_bit 13 key);
          key = key XOR signed_drop_bit 8 key;
          key = key + push_bit 3 key;
          key = key XOR signed_drop_bit 15 key;
          key = key + NOT (push_bit 27 key);
          key = key XOR signed_drop_bit 31 key
      in ucast key)"

definition KEYHASH :: "u64 \<Rightarrow> fh_hash \<Rightarrow> nat" where
  "KEYHASH key hash = unat (inthash key AND fh_mask hash)"

text \<open>\<open>None\<close> is the fatal error for a size that is not a power of two.\<close>

definition fh_hash_create :: "u64 \<Rightarrow> fh_hash option" where
  "fh_hash_create entries =
     (if \<not> IS_POWER_OF_2 entries then None
      else Some \<lparr>fh_table = replicate (unat entries) None, fh_entries = unat entries,
                 fh_mask = ucast (entries - 1)\<rparr>)"

section \<open>Operations\<close>

text \<open>The walks along a chain; a walk that does not end is \<open>None\<close>.\<close>

partial_function (option) chain_find :: "fh_mem \<Rightarrow> u64 \<Rightarrow> u64 option \<Rightarrow> u64 option option" where
  "chain_find m key val = (case val of
     None \<Rightarrow> Some None
   | Some p \<Rightarrow> if key = hash_key (m p) then Some (Some p) else chain_find m key (hash_next (m p)))"

definition fh_hash_find :: "fh_mem \<Rightarrow> fh_hash \<Rightarrow> u64 \<Rightarrow> u64 option option" where
  "fh_hash_find m hash key = chain_find m key (fh_table hash ! KEYHASH key hash)"

partial_function (option) delete_find ::
  "fh_mem \<Rightarrow> u64 \<Rightarrow> u64 option \<Rightarrow> u64 option \<Rightarrow> (u64 option \<times> u64) option option" where
  "delete_find m key prev cur =
     (if cur = None then Some None
      else if hash_key (m (the cur)) = key then Some (Some (prev, the cur))
      else delete_find m key cur (hash_next (m (the cur))))"

abbreviation set_next :: "u64 \<Rightarrow> u64 option \<Rightarrow> fh_mem \<Rightarrow> fh_mem" where
  "set_next p q m \<equiv> m(p := (m p)\<lparr>hash_next := q\<rparr>)"

text \<open>The result is the returned pointer, the memory and the table.\<close>

definition fh_hash_insert ::
  "fh_mem \<Rightarrow> fh_hash \<Rightarrow> u64 \<Rightarrow> u64 option \<Rightarrow> (u64 option \<times> fh_mem \<times> fh_hash) option" where
  "fh_hash_insert m hash key newval =
     (let keyhash = KEYHASH key hash; val = fh_table hash ! keyhash in
      case newval of
        None \<Rightarrow>
          (case delete_find m key None val of None \<Rightarrow> None
           | Some None \<Rightarrow> Some (None, m, hash)
           | Some (Some (prev, cur)) \<Rightarrow>
               (case prev of
                  None \<Rightarrow> Some (Some cur, m,
                    hash\<lparr>fh_table := (fh_table hash)[keyhash := hash_next (m cur)]\<rparr>)
                | Some p \<Rightarrow> Some (Some cur, set_next p (hash_next (m cur)) m, hash)))
      | Some nv \<Rightarrow>
          (case val of
             None \<Rightarrow> Some (Some nv, set_next nv None m, hash\<lparr>fh_table := (fh_table hash)[keyhash := Some nv]\<rparr>)
           | Some _ \<Rightarrow> Some (Some nv, set_next nv val m, hash\<lparr>fh_table := (fh_table hash)[keyhash := Some nv]\<rparr>)))"

partial_function (option) next_find :: "fh_mem \<Rightarrow> u64 \<Rightarrow> u64 \<Rightarrow> u64 option option" where
  "next_find m key val = (case hash_next (m val) of
     None \<Rightarrow> Some None
   | Some p \<Rightarrow> if key = hash_key (m p) then Some (Some p) else next_find m key p)"

definition fh_hash_next :: "fh_mem \<Rightarrow> u64 \<Rightarrow> u64 option option" where
  "fh_hash_next m val = next_find m (hash_key (m val)) val"

partial_function (option) replace_find :: "fh_mem \<Rightarrow> u64 \<Rightarrow> u64 option \<Rightarrow> u64 option option" where
  "replace_find m val cur = (case cur of
     None \<Rightarrow> Some None
   | Some c \<Rightarrow> if hash_next (m c) = Some val then Some (Some c)
               else replace_find m val (hash_next (m c)))"

definition fh_hash_replace ::
  "fh_mem \<Rightarrow> fh_hash \<Rightarrow> u64 \<Rightarrow> u64 option \<Rightarrow> (fh_mem \<times> fh_hash) option" where
  "fh_hash_replace m hash val newval =
     (let keyhash = KEYHASH (hash_key (m val)) hash; cur = fh_table hash ! keyhash in
      if cur = Some val then
        (case newval of
           None \<Rightarrow> Some (m, hash\<lparr>fh_table := (fh_table hash)[keyhash := hash_next (m val)]\<rparr>)
         | Some nv \<Rightarrow> Some (set_next nv (hash_next (m val)) m,
                            hash\<lparr>fh_table := (fh_table hash)[keyhash := Some nv]\<rparr>))
      else
        (case replace_find m val cur of None \<Rightarrow> None
         | Some None \<Rightarrow> Some (m, hash)
         | Some (Some c) \<Rightarrow>
             (case newval of
                None \<Rightarrow> Some (set_next c (hash_next (m val)) m, hash)
              | Some nv \<Rightarrow>
                  let m' = set_next c (Some nv) m in Some (set_next nv (hash_next (m' val)) m', hash))))"

text \<open>
  Applying a function to all entries: \<open>next\<close> is read before the call. The function may change the
  memory, the table and its own state.
\<close>

type_synonym 's fh_callback = "u64 \<Rightarrow> fh_mem \<times> fh_hash \<times> 's \<Rightarrow> fh_mem \<times> fh_hash \<times> 's"

partial_function (option) apply_chain ::
  "'s fh_callback \<Rightarrow> u64 option \<Rightarrow> fh_mem \<times> fh_hash \<times> 's \<Rightarrow> (fh_mem \<times> fh_hash \<times> 's) option" where
  "apply_chain fn val st = (case val of
     None \<Rightarrow> Some st
   | Some p \<Rightarrow> apply_chain fn (hash_next (fst st p)) (fn p st))"

primrec apply_buckets ::
  "'s fh_callback \<Rightarrow> nat list \<Rightarrow> fh_mem \<times> fh_hash \<times> 's \<Rightarrow> (fh_mem \<times> fh_hash \<times> 's) option" where
  "apply_buckets fn [] st = Some st"
| "apply_buckets fn (i # is) st =
     (case apply_chain fn (fh_table (fst (snd st)) ! i) st of None \<Rightarrow> None
      | Some st' \<Rightarrow> apply_buckets fn is st')"

definition fh_hash_apply ::
  "'s fh_callback \<Rightarrow> fh_mem \<times> fh_hash \<times> 's \<Rightarrow> (fh_mem \<times> fh_hash \<times> 's) option" where
  "fh_hash_apply fn st = apply_buckets fn [0..<fh_entries (fst (snd st))] st"

section \<open>Chains\<close>

text \<open>\<open>chain m p xs\<close>: the entries reached from \<open>p\<close> are \<open>xs\<close>, in this order, and the chain ends.\<close>

fun chain :: "fh_mem \<Rightarrow> u64 option \<Rightarrow> u64 list \<Rightarrow> bool" where
  "chain m p [] \<longleftrightarrow> p = None"
| "chain m p (x # xs) \<longleftrightarrow> p = Some x \<and> chain m (hash_next (m x)) xs"

lemma chain_frame: "(\<And>x. x \<in> set xs \<Longrightarrow> hash_next (m' x) = hash_next (m x)) \<Longrightarrow> chain m' p xs = chain m p xs"
  by (induction xs arbitrary: p) auto

lemma chain_upd [simp]: "q \<notin> set xs \<Longrightarrow> chain (m(q := e)) p xs = chain m p xs"
  by (rule chain_frame) auto

lemma chain_find_spec:
  "chain m p xs \<Longrightarrow> chain_find m k p = Some (List.find (\<lambda>x. hash_key (m x) = k) xs)"
proof (induction xs arbitrary: p)
  case Nil
  then show ?case by (simp add: chain_find.simps)
next
  case (Cons x xs)
  then show ?case by (subst chain_find.simps) auto
qed

lemma delete_find_spec:
  "chain m p xs \<Longrightarrow> delete_find m k prev p = Some (case List.find (\<lambda>x. hash_key (m x) = k) xs of
      None \<Rightarrow> None
    | Some c \<Rightarrow> Some (case takeWhile (\<lambda>x. hash_key (m x) \<noteq> k) xs of [] \<Rightarrow> prev | y # ys \<Rightarrow> Some (last (y # ys)), c))"
proof (induction xs arbitrary: p prev)
  case Nil
  then show ?case by (simp add: delete_find.simps)
next
  case (Cons x xs)
  then show ?case
    by (subst delete_find.simps) (auto split: option.splits list.splits)
qed

text \<open>Unlinking an entry in the middle of a chain.\<close>

lemma chain_unlink:
  "chain m p (xs @ y # c # zs) \<Longrightarrow> distinct (xs @ y # c # zs) \<Longrightarrow>
   chain (set_next y (hash_next (m c)) m) p (xs @ y # zs)"
  by (induction xs arbitrary: p) auto

lemma chain_relink:
  "chain m p (xs @ y # c # zs) \<Longrightarrow> distinct (xs @ y # c # zs) \<Longrightarrow> n \<notin> set (xs @ y # c # zs) \<Longrightarrow>
   chain (set_next n (hash_next (m c)) (set_next y (Some n) m)) p (xs @ y # n # zs)"
  by (induction xs arbitrary: p) auto

lemma chain_next:
  "chain m p (xs @ y # zs) \<Longrightarrow> hash_next (m y) = (case zs of [] \<Rightarrow> None | z # _ \<Rightarrow> Some z)"
  by (induction xs arbitrary: p) (auto split: list.splits)

lemma chain_suffix: "chain m p (xs @ y # zs) \<Longrightarrow> chain m (hash_next (m y)) zs"
  by (induction xs arbitrary: p) auto

lemma chain_suffix': "chain m p (xs @ zs) \<Longrightarrow> \<exists>q. chain m q zs"
  by (induction xs arbitrary: p) auto

lemma chain_head: "chain m p (y # zs) \<Longrightarrow> p = Some y"
  by simp

section \<open>Representation\<close>

text \<open>
  A table in memory represents the family \<open>B\<close> of its chains: bucket \<open>i\<close> holds the entries
  \<open>B i\<close>, each with a key that hashes to \<open>i\<close>.
\<close>

definition fh_rep :: "fh_mem \<Rightarrow> fh_hash \<Rightarrow> (nat \<Rightarrow> u64 list) \<Rightarrow> bool" where
  "fh_rep m h B \<longleftrightarrow> length (fh_table h) = fh_entries h \<and> fh_entries h = Suc (unat (fh_mask h)) \<and>
     (\<forall>i<fh_entries h. chain m (fh_table h ! i) (B i) \<and> distinct (B i) \<and>
        (\<forall>x\<in>set (B i). KEYHASH (hash_key (m x)) h = i))"

lemma keyhash_bound: "fh_rep m h B \<Longrightarrow> KEYHASH k h < fh_entries h"
  using word_and_le1 [of "inthash k" "fh_mask h"]
  by (simp add: fh_rep_def KEYHASH_def word_le_nat_alt less_Suc_eq_le)

lemma fh_rep_bucket:
  assumes "fh_rep m h B" "i < fh_entries h"
  shows "chain m (fh_table h ! i) (B i)" "distinct (B i)"
    "\<And>x. x \<in> set (B i) \<Longrightarrow> KEYHASH (hash_key (m x)) h = i"
  using assms by (auto simp: fh_rep_def)

lemma keyhash_table [simp]: "KEYHASH k (h\<lparr>fh_table := t\<rparr>) = KEYHASH k h"
  by (simp add: KEYHASH_def)

text \<open>Changing one bucket, and the memory only at entries that no other bucket links.\<close>

lemma fh_rep_update:
  assumes rep: "fh_rep m h B" and i: "i < fh_entries h"
    and mem: "\<And>j x. j < fh_entries h \<Longrightarrow> j \<noteq> i \<Longrightarrow> x \<in> set (B j) \<Longrightarrow> m' x = m x"
    and keys: "\<And>x. x \<in> set xs \<Longrightarrow> KEYHASH (hash_key (m' x)) h = i"
    and h': "h' = h\<lparr>fh_table := (fh_table h)[i := q]\<rparr>" and ch: "chain m' q xs" "distinct xs"
  shows "fh_rep m' h' (B(i := xs))"
proof -
  have len: "length (fh_table h) = fh_entries h" using rep by (simp add: fh_rep_def)
  have "chain m' (fh_table h' ! j) ((B(i := xs)) j) \<and> distinct ((B(i := xs)) j) \<and>
      (\<forall>x\<in>set ((B(i := xs)) j). KEYHASH (hash_key (m' x)) h' = j)" if j: "j < fh_entries h" for j
  proof (cases "j = i")
    case True
    then show ?thesis using keys ch i len by (simp add: h')
  next
    case False
    have "chain m' (fh_table h ! j) (B j) = chain m (fh_table h ! j) (B j)"
      by (rule chain_frame) (simp add: mem [OF j False])
    then show ?thesis using False fh_rep_bucket [OF rep j] mem [OF j False] by (simp add: h')
  qed
  then show ?thesis using rep unfolding fh_rep_def by (simp add: h')
qed

lemma fh_rep_other_bucket:
  assumes "fh_rep m h B" "i < fh_entries h" "j < fh_entries h" "x \<in> set (B i)" "x \<in> set (B j)"
  shows "i = j"
  using fh_rep_bucket(3) [OF assms(1,2,4)] fh_rep_bucket(3) [OF assms(1,3,5)] by simp

lemma find_spec:
  "fh_rep m h B \<Longrightarrow>
   fh_hash_find m h k = Some (List.find (\<lambda>x. hash_key (m x) = k) (B (KEYHASH k h)))"
  unfolding fh_hash_find_def by (rule chain_find_spec [OF fh_rep_bucket(1) [OF _ keyhash_bound]])

lemma insert_spec:
  assumes rep: "fh_rep m h B" and fresh: "\<And>i. i < fh_entries h \<Longrightarrow> nv \<notin> set (B i)"
    and k: "hash_key (m nv) = k"
  shows "\<exists>m' h'. fh_hash_insert m h k (Some nv) = Some (Some nv, m', h') \<and>
     fh_rep m' h' (B(KEYHASH k h := nv # B (KEYHASH k h))) \<and>
     (\<forall>x. hash_key (m' x) = hash_key (m x)) \<and> fh_mask h' = fh_mask h \<and> fh_entries h' = fh_entries h"
proof -
  let ?i = "KEYHASH k h"
  let ?m = "set_next nv (fh_table h ! ?i) m" and ?h = "h\<lparr>fh_table := (fh_table h)[?i := Some nv]\<rparr>"
  have i: "?i < fh_entries h" by (rule keyhash_bound [OF rep])
  have op: "fh_hash_insert m h k (Some nv) = Some (Some nv, ?m, ?h)"
    by (simp add: fh_hash_insert_def Let_def split: option.split)
  have "fh_rep ?m ?h (B(?i := nv # B ?i))"
  proof (rule fh_rep_update [OF rep i])
    show "?m x = m x" if "j < fh_entries h" "x \<in> set (B j)" for j x using fresh that by auto
    show "KEYHASH (hash_key (?m x)) h = ?i" if "x \<in> set (nv # B ?i)" for x
      using that k fh_rep_bucket(3) [OF rep i] by auto
    show "chain ?m (Some nv) (nv # B ?i)" using fh_rep_bucket(1) [OF rep i] fresh [OF i] by simp
    show "distinct (nv # B ?i)" using fh_rep_bucket(2) [OF rep i] fresh [OF i] by simp
  qed simp
  with op show ?thesis by auto
qed

lemma find_split:
  "List.find P xs = Some c \<Longrightarrow> \<exists>ys zs. xs = ys @ c # zs \<and> P c \<and> takeWhile (\<lambda>x. \<not> P x) xs = ys"
proof (induction xs)
  case Nil
  then show ?case by simp
next
  case (Cons x xs)
  show ?case
  proof (cases "P x")
    case True
    with Cons.prems show ?thesis by simp
  next
    case False
    with Cons obtain ys zs where "xs = ys @ c # zs" "P c" "takeWhile (\<lambda>x. \<not> P x) xs = ys" by auto
    with False show ?thesis by (intro exI [of _ "x # ys"] exI [of _ zs]) simp
  qed
qed

lemma delete_spec:
  assumes rep: "fh_rep m h B" and hit: "List.find (\<lambda>x. hash_key (m x) = k) (B (KEYHASH k h)) = Some c"
  shows "\<exists>m' h'. fh_hash_insert m h k None = Some (Some c, m', h') \<and>
     fh_rep m' h' (B(KEYHASH k h := remove1 c (B (KEYHASH k h)))) \<and>
     (\<forall>x. hash_key (m' x) = hash_key (m x)) \<and> fh_mask h' = fh_mask h \<and> fh_entries h' = fh_entries h"
proof -
  let ?i = "KEYHASH k h"
  have i: "?i < fh_entries h" by (rule keyhash_bound [OF rep])
  note b = fh_rep_bucket [OF rep i]
  from find_split [OF hit] obtain ys zs where
    sp: "B ?i = ys @ c # zs" "takeWhile (\<lambda>x. hash_key (m x) \<noteq> k) (B ?i) = ys" by auto
  have rm: "remove1 c (B ?i) = ys @ zs" using b(2) by (simp add: sp(1) remove1_append)
  have walk: "delete_find m k None (fh_table h ! ?i) =
      Some (Some (case ys of [] \<Rightarrow> None | y # us \<Rightarrow> Some (last (y # us)), c))"
    using delete_find_spec [OF b(1)] by (simp only: hit sp(2) option.case)
  have keys: "KEYHASH (hash_key (m x)) h = ?i" if "x \<in> set (ys @ zs)" for x
    using b(3) that by (auto simp: sp(1))
  show ?thesis
  proof (cases ys rule: rev_cases)
    case Nil
    let ?h = "h\<lparr>fh_table := (fh_table h)[?i := hash_next (m c)]\<rparr>"
    have "fh_hash_insert m h k None = Some (Some c, m, ?h)"
      using walk by (simp add: fh_hash_insert_def Let_def Nil)
    moreover have "fh_rep m ?h (B(?i := ys @ zs))"
      by (rule fh_rep_update [OF rep i]) (use b(1,2) keys in \<open>auto simp: sp(1) Nil\<close>)
    ultimately show ?thesis by (auto simp: rm)
  next
    case (snoc us y)
    let ?m = "set_next y (hash_next (m c)) m"
    have "fh_hash_insert m h k None = Some (Some c, ?m, h)"
      using walk by (cases us) (simp_all add: fh_hash_insert_def Let_def snoc)
    moreover have "fh_rep ?m (h\<lparr>fh_table := (fh_table h)[?i := fh_table h ! ?i]\<rparr>) (B(?i := ys @ zs))"
    proof (rule fh_rep_update [OF rep i])
      show "?m x = m x" if "j < fh_entries h" "j \<noteq> ?i" "x \<in> set (B j)" for j x
        using fh_rep_other_bucket [OF rep i that(1) _ that(3)] that(2) by (auto simp: sp(1) snoc)
      show "chain ?m (fh_table h ! ?i) (ys @ zs)"
        using chain_unlink [of m _ us y c zs] b(1,2) by (simp add: sp(1) snoc)
    qed (use keys b(2) in \<open>auto simp: sp(1)\<close>)
    ultimately show ?thesis by (auto simp: rm)
  qed
qed

lemma delete_miss:
  assumes "fh_rep m h B" "List.find (\<lambda>x. hash_key (m x) = k) (B (KEYHASH k h)) = None"
  shows "fh_hash_insert m h k None = Some (None, m, h)"
  using delete_find_spec [OF fh_rep_bucket(1) [OF assms(1) keyhash_bound [OF assms(1)]]] assms(2)
  by (simp add: fh_hash_insert_def Let_def)

section \<open>Next and replace\<close>

lemma next_find_spec:
  "chain m p (xs @ y # zs) \<Longrightarrow> next_find m k y = Some (List.find (\<lambda>x. hash_key (m x) = k) zs)"
proof (induction zs arbitrary: xs y)
  case Nil
  then have "hash_next (m y) = None" using chain_next [of m p xs y "[]"] by simp
  then show ?case by (subst next_find.simps) simp
next
  case (Cons z zs)
  have "next_find m k z = Some (List.find (\<lambda>x. hash_key (m x) = k) zs)"
    by (rule Cons.IH [of "xs @ [y]"]) (use Cons.prems in simp)
  moreover have "hash_next (m y) = Some z" using chain_next [of m p xs y "z # zs"] Cons.prems by simp
  ultimately show ?case by (subst next_find.simps) auto
qed

lemma replace_find_spec:
  "chain m p (ys @ y # v # zs) \<Longrightarrow> distinct (ys @ y # v # zs) \<Longrightarrow> replace_find m v p = Some (Some y)"
proof (induction ys arbitrary: p)
  case Nil
  then show ?case by (subst replace_find.simps) auto
next
  case (Cons a ys)
  have "hash_next (m a) \<noteq> Some v"
    using chain_next [of m p "[]" a "ys @ y # v # zs"] Cons.prems by (cases ys) auto
  with Cons show ?case by (subst replace_find.simps) auto
qed

definition swap_out :: "u64 \<Rightarrow> u64 option \<Rightarrow> u64 list \<Rightarrow> u64 list" where
  "swap_out v nv xs = concat (map (\<lambda>x. if x = v then (case nv of None \<Rightarrow> [] | Some n \<Rightarrow> [n]) else [x]) xs)"

lemma swap_out_absent: "v \<notin> set xs \<Longrightarrow> swap_out v nv xs = xs"
  by (induction xs) (auto simp: swap_out_def)

lemma swap_out_split:
  "v \<notin> set ys \<Longrightarrow> v \<notin> set zs \<Longrightarrow>
   swap_out v nv (ys @ v # zs) = ys @ (case nv of None \<Rightarrow> [] | Some n \<Rightarrow> [n]) @ zs"
  using swap_out_absent [of v ys nv] swap_out_absent [of v zs nv] by (simp add: swap_out_def)

lemma replace_spec:
  assumes rep: "fh_rep m h B" and i: "i < fh_entries h" and v: "v \<in> set (B i)"
    and nv: "\<And>n. nv = Some n \<Longrightarrow> (\<forall>j<fh_entries h. n \<notin> set (B j)) \<and> KEYHASH (hash_key (m n)) h = i"
  shows "\<exists>m' h'. fh_hash_replace m h v nv = Some (m', h') \<and> fh_rep m' h' (B(i := swap_out v nv (B i))) \<and>
     (\<forall>x. hash_key (m' x) = hash_key (m x))"
proof -
  note b = fh_rep_bucket [OF rep i]
  have kv: "KEYHASH (hash_key (m v)) h = i" by (rule b(3) [OF v])
  obtain ys zs where sp: "B i = ys @ v # zs" using split_list [OF v] by blast
  let ?n = "case nv of None \<Rightarrow> [] | Some n \<Rightarrow> [n]"
  have so: "swap_out v nv (B i) = ys @ ?n @ zs" using b(2) by (simp add: sp swap_out_split)
  have keys: "KEYHASH (hash_key (m x)) h = i" if "x \<in> set (ys @ ?n @ zs)" for x
    using b(3) that nv by (auto simp: sp split: option.splits)
  have fresh: "n \<notin> set (B j)" if "nv = Some n" "j < fh_entries h" for n j using nv that by blast
  have dist: "distinct (ys @ ?n @ zs)"
    using b(2) fresh [OF _ i] unfolding sp by (cases nv) auto
  have other: "x \<notin> set (B j)" if "j < fh_entries h" "j \<noteq> i" "x \<in> set (B i)" for j x
    using fh_rep_other_bucket [OF rep i that(1,3)] that(2) by blast
  have hn: "hash_next (m v) = (case zs of [] \<Rightarrow> None | z # _ \<Rightarrow> Some z)"
    using chain_next [of m _ ys v zs] b(1) by (simp add: sp)
  show ?thesis
  proof (cases ys rule: rev_cases)
    case Nil
    then have head: "fh_table h ! i = Some v" using b(1) by (simp add: sp)
    have tail: "chain m (hash_next (m v)) zs" using b(1) by (simp add: sp Nil)
    show ?thesis
    proof (cases nv)
      case None
      let ?h = "h\<lparr>fh_table := (fh_table h)[i := hash_next (m v)]\<rparr>"
      have "fh_rep m ?h (B(i := ys @ ?n @ zs))"
        by (rule fh_rep_update [OF rep i]) (use keys dist tail None Nil in auto)
      then show ?thesis by (simp add: fh_hash_replace_def Let_def kv head None so [unfolded None])
    next
      case (Some n)
      let ?h = "h\<lparr>fh_table := (fh_table h)[i := Some n]\<rparr>" and ?m = "set_next n (hash_next (m v)) m"
      have "n \<notin> set zs" using fresh [OF Some i] by (simp add: sp)
      then have "chain ?m (Some n) (ys @ ?n @ zs)" using tail by (simp add: Some Nil)
      then have "fh_rep ?m ?h (B(i := ys @ ?n @ zs))"
        by (intro fh_rep_update [OF rep i]) (use keys dist fresh [OF Some] in auto)
      then show ?thesis by (simp add: fh_hash_replace_def Let_def kv head Some so [unfolded Some])
    qed
  next
    case (snoc us y)
    have d: "distinct (us @ y # v # zs)" and c: "chain m (fh_table h ! i) (us @ y # v # zs)"
      using b(1,2) by (simp_all add: sp snoc)
    have nhead: "fh_table h ! i \<noteq> Some v" using c d by (cases us) auto
    note walk = replace_find_spec [OF c d]
    have yB: "y \<in> set (B i)" by (simp add: sp snoc)
    have same: "h\<lparr>fh_table := (fh_table h)[i := fh_table h ! i]\<rparr> = h" by simp
    show ?thesis
    proof (cases nv)
      case None
      let ?m = "set_next y (hash_next (m v)) m"
      have "fh_rep ?m (h\<lparr>fh_table := (fh_table h)[i := fh_table h ! i]\<rparr>) (B(i := ys @ ?n @ zs))"
        by (rule fh_rep_update [OF rep i])
           (use keys dist chain_unlink [OF c d] other yB None snoc in auto)
      then show ?thesis
        unfolding same by (simp add: fh_hash_replace_def Let_def kv nhead walk None so [unfolded None])
    next
      case (Some n)
      let ?m1 = "set_next y (Some n) m"
      let ?m = "set_next n (hash_next (m v)) ?m1"
      have nB: "n \<notin> set (us @ y # v # zs)" using fresh [OF Some i] by (simp add: sp snoc)
      have "fh_rep ?m (h\<lparr>fh_table := (fh_table h)[i := fh_table h ! i]\<rparr>) (B(i := ys @ ?n @ zs))"
      proof (rule fh_rep_update [OF rep i])
        show "?m x = m x" if "j < fh_entries h" "j \<noteq> i" "x \<in> set (B j)" for j x
          using fresh [OF Some that(1)] other [OF that(1,2) yB] that(3) by auto
        show "KEYHASH (hash_key (?m x)) h = i" if "x \<in> set (ys @ ?n @ zs)" for x
          using keys [OF that] by auto
        show "chain ?m (fh_table h ! i) (ys @ ?n @ zs)"
          using chain_relink [OF c d nB] by (simp add: Some snoc)
      qed (use dist in simp_all)
      moreover have "v \<noteq> y" using d by auto
      ultimately show ?thesis
        unfolding same by (simp add: fh_hash_replace_def Let_def kv nhead walk Some so [unfolded Some])
    qed
  qed
qed

section \<open>Apply\<close>

text \<open>A rule for walks with a callback: \<open>I zs st\<close> holds when the entries \<open>zs\<close> are still to visit.\<close>

lemma apply_chain_rule:
  assumes step: "\<And>x zs st. I (x # zs) st \<Longrightarrow>
      chain (fst st) (Some x) (x # zs) \<Longrightarrow> I zs (fn x st) \<and> chain (fst (fn x st)) (hash_next (fst st x)) zs"
  shows "chain (fst st) p xs \<Longrightarrow> I xs st \<Longrightarrow> \<exists>st'. apply_chain fn p st = Some st' \<and> I [] st'"
proof (induction xs arbitrary: p st)
  case Nil
  then show ?case by (subst apply_chain.simps) simp
next
  case (Cons x xs)
  then have p: "p = Some x" by simp
  from step [OF Cons.prems(2)] Cons.prems(1)
  have "I xs (fn x st)" "chain (fst (fn x st)) (hash_next (fst st x)) xs" by (auto simp: p)
  from Cons.IH [OF this(2,1)] show ?case by (subst apply_chain.simps) (simp add: p)
qed

text \<open>
  A callback that records each entry and removes from the table, by its key, each one it chooses.
\<close>

definition sweep :: "(u64 \<Rightarrow> bool) \<Rightarrow> u64 list fh_callback" where
  "sweep D x = (\<lambda>(m, h, log).
     if D x then (case fh_hash_insert m h (hash_key (m x)) None of
                    Some (_, m', h') \<Rightarrow> (m', h', log @ [x]) | None \<Rightarrow> (m, h, log @ [x]))
     else (m, h, log @ [x]))"

definition unique_keys :: "fh_mem \<Rightarrow> nat \<Rightarrow> (nat \<Rightarrow> u64 list) \<Rightarrow> bool" where
  "unique_keys m n B \<longleftrightarrow> (\<forall>i<n. \<forall>j<n. \<forall>x\<in>set (B i). \<forall>y\<in>set (B j). hash_key (m x) = hash_key (m y) \<longrightarrow> x = y)"

lemma unique_keys_mono:
  assumes "unique_keys m n B" and "\<And>j. set (B' j) \<subseteq> set (B j)" and "\<And>x. hash_key (m' x) = hash_key (m x)"
  shows "unique_keys m' n B'"
  unfolding unique_keys_def assms(3)
proof (intro allI impI ballI)
  fix i j x y assume "i < n" "j < n" "x \<in> set (B' i)" "y \<in> set (B' j)" "hash_key (m x) = hash_key (m y)"
  with assms(2) [of i] assms(2) [of j] assms(1) show "x = y"
    unfolding unique_keys_def by (meson subsetD)
qed

lemma unique_find:
  assumes "unique_keys m n B" "i < n" "x \<in> set (B i)"
  shows "List.find (\<lambda>y. hash_key (m y) = hash_key (m x)) (B i) = Some x"
proof -
  have "List.find (\<lambda>y. hash_key (m y) = hash_key (m x)) (B i) \<noteq> None"
    using assms(3) by (auto simp: find_None_iff)
  then obtain y where y: "List.find (\<lambda>y. hash_key (m y) = hash_key (m x)) (B i) = Some y" by auto
  then have "y \<in> set (B i)" "hash_key (m y) = hash_key (m x)" by (auto simp: find_Some_iff)
  with assms have "y = x" by (auto simp: unique_keys_def)
  with y show ?thesis by simp
qed

lemma sweep_bucket:
  assumes rep: "fh_rep m h B" and un: "unique_keys m (fh_entries h) B" and i: "i < fh_entries h"
  shows "\<exists>m' h'. apply_chain (sweep D) (fh_table h ! i) (m, h, log) = Some (m', h', log @ B i) \<and>
    fh_rep m' h' (B(i := filter (\<lambda>x. \<not> D x) (B i))) \<and> (\<forall>x. hash_key (m' x) = hash_key (m x)) \<and>
    fh_entries h' = fh_entries h"
proof -
  define I where "I zs st \<longleftrightarrow> (\<exists>ys m' h'. st = (m', h', log @ ys) \<and> B i = ys @ zs \<and>
     fh_rep m' h' (B(i := filter (\<lambda>x. \<not> D x) ys @ zs)) \<and> (\<forall>x. hash_key (m' x) = hash_key (m x)) \<and>
     fh_entries h' = fh_entries h)" for zs st
  have dist: "distinct (B i)" by (rule fh_rep_bucket(2) [OF rep i])
  have "\<exists>st'. apply_chain (sweep D) (fh_table h ! i) (m, h, log) = Some st' \<and> I [] st'"
  proof (rule apply_chain_rule [of I])
    show "chain (fst (m, h, log)) (fh_table h ! i) (B i)" using fh_rep_bucket(1) [OF rep i] by simp
    show "I (B i) (m, h, log)" unfolding I_def using rep by (intro exI [of _ "[]"]) simp
  next
    fix x zs st assume I: "I (x # zs) st"
    then obtain ys m' h' where st: "st = (m', h', log @ ys)" and B: "B i = ys @ x # zs"
      and rep': "fh_rep m' h' (B(i := filter (\<lambda>x. \<not> D x) ys @ x # zs))"
      and keys: "\<forall>x. hash_key (m' x) = hash_key (m x)" and n: "fh_entries h' = fh_entries h"
      by (auto simp: I_def)
    let ?B = "B(i := filter (\<lambda>x. \<not> D x) ys @ x # zs)"
    have i': "i < fh_entries h'" using i n by simp
    have tail: "chain m' (hash_next (m' x)) zs"
      using fh_rep_bucket(1) [OF rep' i'] by (auto dest: chain_suffix)
    show "I zs (sweep D x st) \<and> chain (fst (sweep D x st)) (hash_next (fst st x)) zs"
    proof (cases "D x")
      case False
      then have "sweep D x st = (m', h', log @ ys @ [x])" by (simp add: sweep_def st)
      moreover have "I zs (m', h', log @ ys @ [x])"
        unfolding I_def using rep' keys n False B
        by (intro exI [of _ "ys @ [x]"] exI [of _ m'] exI [of _ h']) simp
      ultimately show ?thesis using tail by (simp add: st)
    next
      case True
      have un': "unique_keys m' (fh_entries h') ?B"
        unfolding n by (rule unique_keys_mono [OF un]) (auto simp: B keys)
      have kx: "KEYHASH (hash_key (m' x)) h' = i" by (rule fh_rep_bucket(3) [OF rep' i']) simp
      have hit: "List.find (\<lambda>y. hash_key (m' y) = hash_key (m' x)) (?B (KEYHASH (hash_key (m' x)) h')) = Some x"
        unfolding kx by (rule unique_find [OF un' i']) simp
      from delete_spec [OF rep' hit] obtain m2 h2 where
        op: "fh_hash_insert m' h' (hash_key (m' x)) None = Some (Some x, m2, h2)"
        and rep2: "fh_rep m2 h2 (?B(i := remove1 x (?B i)))"
        and keys2: "\<forall>x. hash_key (m2 x) = hash_key (m' x)" and n2: "fh_entries h2 = fh_entries h'"
        unfolding kx by blast
      have rm: "remove1 x (?B i) = filter (\<lambda>x. \<not> D x) ys @ zs"
        using dist True by (simp add: B remove1_append)
      have sw: "sweep D x st = (m2, h2, log @ ys @ [x])" by (simp add: sweep_def st True op)
      have "I zs (m2, h2, log @ ys @ [x])"
        unfolding I_def using rep2 [unfolded rm] keys keys2 n n2 True B
        by (intro exI [of _ "ys @ [x]"] exI [of _ m2] exI [of _ h2]) simp
      moreover have "chain m2 (hash_next (m' x)) zs"
      proof -
        have "chain m2 (fh_table h2 ! i) (filter (\<lambda>x. \<not> D x) ys @ zs)"
          using fh_rep_bucket(1) [OF rep2 [unfolded rm], of i] i' n2 by simp
        then obtain q where q: "chain m2 q zs" by (auto dest: chain_suffix')
        have "hash_next (m' x) = (case zs of [] \<Rightarrow> None | z # _ \<Rightarrow> Some z)"
          using fh_rep_bucket(1) [OF rep' i'] by (intro chain_next [of m' "fh_table h' ! i"]) simp
        with q show ?thesis by (cases zs) auto
      qed
      ultimately show ?thesis unfolding sw by (simp add: st)
    qed
  qed
  then show ?thesis by (auto simp: I_def)
qed

lemma sweep_all:
  assumes "fh_rep m h B" and "unique_keys m (fh_entries h) B" and "set is \<subseteq> {..<fh_entries h}" and "distinct is"
  shows "\<exists>m' h'. apply_buckets (sweep D) is (m, h, log) = Some (m', h', log @ concat (map B is)) \<and>
    fh_rep m' h' (\<lambda>i. if i \<in> set is then filter (\<lambda>x. \<not> D x) (B i) else B i) \<and>
    (\<forall>x. hash_key (m' x) = hash_key (m x))"
  using assms
proof (induction "is" arbitrary: m h B log)
  case Nil
  then show ?case by simp
next
  case (Cons i "is")
  have i: "i < fh_entries h" using Cons.prems(3) by simp
  obtain m1 h1 where s1: "apply_chain (sweep D) (fh_table h ! i) (m, h, log) = Some (m1, h1, log @ B i)"
    "fh_rep m1 h1 (B(i := filter (\<lambda>x. \<not> D x) (B i)))" "\<forall>x. hash_key (m1 x) = hash_key (m x)"
    "fh_entries h1 = fh_entries h"
    using sweep_bucket [OF Cons.prems(1,2) i] by blast
  let ?B = "B(i := filter (\<lambda>x. \<not> D x) (B i))"
  have "unique_keys m1 (fh_entries h1) ?B"
    unfolding s1(4) by (rule unique_keys_mono [OF Cons.prems(2)]) (auto simp: s1(3))
  moreover have "set is \<subseteq> {..<fh_entries h1}" "distinct is" using Cons.prems(3,4) s1(4) by auto
  ultimately obtain m2 h2 where
    s2: "apply_buckets (sweep D) is (m1, h1, log @ B i) = Some (m2, h2, (log @ B i) @ concat (map ?B is))"
    "fh_rep m2 h2 (\<lambda>j. if j \<in> set is then filter (\<lambda>x. \<not> D x) (?B j) else ?B j)"
    "\<forall>x. hash_key (m2 x) = hash_key (m1 x)"
    using Cons.IH [OF s1(2), where log = "log @ B i"] by blast
  have "map ?B is = map B is" using Cons.prems(4) by auto
  note s2(1) [unfolded this]
  moreover have "(\<lambda>j. if j \<in> set is then filter (\<lambda>x. \<not> D x) (?B j) else ?B j) =
      (\<lambda>j. if j \<in> set (i # is) then filter (\<lambda>x. \<not> D x) (B j) else B j)"
    using Cons.prems(4) by (auto simp: fun_eq_iff)
  ultimately show ?case
    using s1(1,3) s2(2,3) by (intro exI [of _ m2] exI [of _ h2]) simp
qed

section \<open>The dictionary contract\<close>

text \<open>
  The page tables of firehose map a key to its entry: an addition sets the entry's key and links
  it; adding an entry that is linked already is refused.
\<close>

type_synonym fh_state = "fh_mem \<times> fh_hash"

definition fh_good :: "fh_state \<Rightarrow> bool" where
  "fh_good t \<longleftrightarrow> (\<exists>B. fh_rep (fst t) (snd t) B \<and> unique_keys (fst t) (fh_entries (snd t)) B)"

definition fh_find :: "fh_state \<Rightarrow> u64 \<Rightarrow> u64 option" where
  "fh_find t k = (case fh_hash_find (fst t) (snd t) k of None \<Rightarrow> None | Some r \<Rightarrow> r)"

definition fh_add :: "u64 \<Rightarrow> u64 \<Rightarrow> fh_state \<Rightarrow> fh_state option" where
  "fh_add k p t =
     (if fh_find t (hash_key (fst t p)) = Some p then None
      else map_option snd (fh_hash_insert ((fst t)(p := (fst t p)\<lparr>hash_key := k\<rparr>)) (snd t) k (Some p)))"

definition fh_del :: "u64 \<Rightarrow> fh_state \<Rightarrow> fh_state option" where
  "fh_del k t = map_option snd (fh_hash_insert (fst t) (snd t) k None)"

lemma find_iff:
  assumes "fh_rep m h B" "unique_keys m (fh_entries h) B"
  shows "fh_find (m, h) k = Some p \<longleftrightarrow> (\<exists>i<fh_entries h. p \<in> set (B i)) \<and> hash_key (m p) = k"
proof -
  have i: "KEYHASH k h < fh_entries h" by (rule keyhash_bound [OF assms(1)])
  have f: "fh_find (m, h) k = List.find (\<lambda>x. hash_key (m x) = k) (B (KEYHASH k h))"
    by (simp add: fh_find_def find_spec [OF assms(1)])
  show ?thesis
  proof
    assume "fh_find (m, h) k = Some p"
    then have "p \<in> set (B (KEYHASH k h))" "hash_key (m p) = k"
      unfolding f by (auto simp: find_Some_iff)
    with i show "(\<exists>i<fh_entries h. p \<in> set (B i)) \<and> hash_key (m p) = k" by blast
  next
    assume "(\<exists>i<fh_entries h. p \<in> set (B i)) \<and> hash_key (m p) = k"
    then obtain j where j: "j < fh_entries h" "p \<in> set (B j)" "hash_key (m p) = k" by blast
    then have "KEYHASH k h = j" using fh_rep_bucket(3) [OF assms(1)] by blast
    with unique_find [OF assms(2) j(1,2)] j(3) show "fh_find (m, h) k = Some p" by (simp add: f)
  qed
qed

lemma ex_bucket_upd:
  assumes "i < n"
  shows "(\<exists>j<n. x \<in> set ((B(i := xs)) j)) \<longleftrightarrow> x \<in> set xs \<or> (\<exists>j<n. j \<noteq> i \<and> x \<in> set (B j))"
  using assms by (auto split: if_splits)

lemma fh_find_add:
  assumes good: "fh_good t" and none: "fh_find t k = None" and op: "fh_add k p t = Some t'"
  shows "fh_good t' \<and> fh_find t' = (fh_find t)(k \<mapsto> p)"
proof -
  obtain m h where t: "t = (m, h)" by (cases t)
  from good t obtain B where rep: "fh_rep m h B" and un: "unique_keys m (fh_entries h) B"
    by (auto simp: fh_good_def)
  note fi = find_iff [OF rep un]
  have "fh_find (m, h) (hash_key (m p)) \<noteq> Some p" using op by (auto simp: fh_add_def t split: if_splits)
  then have fresh: "p \<notin> set (B i)" if "i < fh_entries h" for i using that by (auto simp: fi)
  let ?m = "m(p := (m p)\<lparr>hash_key := k\<rparr>)"
  have rep1: "fh_rep ?m h B"
    using rep fresh unfolding fh_rep_def by (auto simp: chain_upd)
  from insert_spec [OF rep1 fresh, of k] obtain m' h' where
    ins: "fh_hash_insert ?m h k (Some p) = Some (Some p, m', h')"
    and rep': "fh_rep m' h' (B(KEYHASH k h := p # B (KEYHASH k h)))"
    and keys: "\<forall>x. hash_key (m' x) = hash_key (?m x)" and n: "fh_entries h' = fh_entries h" by auto
  have t': "t' = (m', h')" using op ins by (auto simp: fh_add_def t split: if_splits)
  let ?B = "B(KEYHASH k h := p # B (KEYHASH k h))"
  have kb: "KEYHASH k h < fh_entries h" by (rule keyhash_bound [OF rep])
  have mem: "(\<exists>i<fh_entries h. x \<in> set (?B i)) \<longleftrightarrow> x = p \<or> (\<exists>i<fh_entries h. x \<in> set (B i))" for x
    unfolding ex_bucket_upd [OF kb] using kb by auto
  have nokey: "hash_key (m x) \<noteq> k" if "i < fh_entries h" "x \<in> set (B i)" for i x
  proof
    assume "hash_key (m x) = k"
    then have "fh_find (m, h) k = Some x" using that by (auto simp: fi)
    with none show False by (simp add: t)
  qed
  have un': "unique_keys m' (fh_entries h') ?B"
    unfolding unique_keys_def n
  proof (intro allI impI ballI)
    fix i j x y
    assume *: "i < fh_entries h" "j < fh_entries h" "x \<in> set (?B i)" "y \<in> set (?B j)"
      "hash_key (m' x) = hash_key (m' y)"
    then have "x = p \<or> (\<exists>i<fh_entries h. x \<in> set (B i))" "y = p \<or> (\<exists>i<fh_entries h. y \<in> set (B i))"
      using mem by blast+
    then show "x = y"
      using *(5) keys nokey un by (auto simp: unique_keys_def split: if_splits)
  qed
  have "fh_find (m', h') x = ((fh_find (m, h))(k \<mapsto> p)) x" for x
  proof -
    have "fh_find (m', h') x = Some q \<longleftrightarrow> ((fh_find (m, h))(k \<mapsto> p)) x = Some q" for q
      unfolding find_iff [OF rep' un'] n mem using nokey fresh keys
      by (cases "q = p"; cases "x = k") (auto simp: fi)
    then show ?thesis by (metis not_None_eq)
  qed
  with rep' un' show ?thesis by (auto simp: fh_good_def t t' fun_eq_iff)
qed

lemma fh_find_del:
  assumes good: "fh_good t"
  shows "\<exists>t'. fh_del k t = Some t' \<and> fh_good t' \<and> fh_find t' = (fh_find t)(k := None)"
proof -
  obtain m h where t: "t = (m, h)" by (cases t)
  from good t obtain B where rep: "fh_rep m h B" and un: "unique_keys m (fh_entries h) B"
    by (auto simp: fh_good_def)
  note fi = find_iff [OF rep un]
  let ?i = "KEYHASH k h"
  have kb: "?i < fh_entries h" by (rule keyhash_bound [OF rep])
  have f: "fh_find (m, h) k = List.find (\<lambda>x. hash_key (m x) = k) (B ?i)"
    by (simp add: fh_find_def find_spec [OF rep])
  show ?thesis
  proof (cases "fh_find (m, h) k")
    case None
    then have "fh_del k t = Some t" using delete_miss [OF rep] by (simp add: fh_del_def t f)
    with None good show ?thesis by (auto simp: t)
  next
    case (Some c)
    from delete_spec [OF rep Some [unfolded f]] obtain m' h' where
      op: "fh_hash_insert m h k None = Some (Some c, m', h')"
      and rep': "fh_rep m' h' (B(?i := remove1 c (B ?i)))"
      and keys: "\<forall>x. hash_key (m' x) = hash_key (m x)" and n: "fh_entries h' = fh_entries h" by auto
    let ?B = "B(?i := remove1 c (B ?i))"
    have c: "c \<in> set (B ?i)" "hash_key (m c) = k" using Some by (auto simp: f find_Some_iff)
    have sub: "set (?B j) \<subseteq> set (B j)" for j
      using set_remove1_subset [of c "B ?i"] by auto
    have un': "unique_keys m' (fh_entries h') ?B"
      unfolding n by (rule unique_keys_mono [OF un sub]) (simp add: keys)
    have "set (remove1 c (B ?i)) = set (B ?i) - {c}"
      by (rule set_remove1_eq [OF fh_rep_bucket(2) [OF rep kb]])
    then have mem: "(\<exists>j<fh_entries h. x \<in> set (?B j)) \<longleftrightarrow> x \<noteq> c \<and> (\<exists>j<fh_entries h. x \<in> set (B j))" for x
      unfolding ex_bucket_upd [OF kb] using fh_rep_other_bucket [OF rep kb _ c(1)] kb by auto
    have "fh_find (m', h') x = ((fh_find (m, h))(k := None)) x" for x
    proof -
      have "fh_find (m', h') x = Some q \<longleftrightarrow> ((fh_find (m, h))(k := None)) x = Some q" for q
        unfolding find_iff [OF rep' un'] n mem using c un kb
        by (cases "x = k") (auto simp: fi keys unique_keys_def)
      then show ?thesis by (metis not_None_eq)
    qed
    moreover have "fh_del k t = Some (m', h')" by (simp add: fh_del_def t op)
    ultimately show ?thesis using rep' un' by (auto simp: fh_good_def t fun_eq_iff)
  qed
qed

interpretation fh: dictionary fh_good fh_find fh_add fh_del
proof
  fix t t' k v
  assume "fh_good t" "fh_find t k = None" "fh_add k v t = Some t'"
  then show "fh_good t' \<and> fh_find t' = (fh_find t)(k \<mapsto> v)" by (rule fh_find_add)
next
  fix t t' k
  assume "fh_good t" "fh_del k t = Some t'"
  then show "fh_good t' \<and> fh_find t' = (fh_find t)(k := None)" using fh_find_del [of t k] by auto
next
  fix t k
  assume "fh_good t"
  then show "\<exists>t'. fh_del k t = Some t'" using fh_find_del [of t k] by blast
qed

lemma fh_create_good:
  assumes "fh_hash_create n = Some h" and "0 < unat n" and "unat n \<le> 2 ^ 32"
  shows "fh_rep m h (\<lambda>_. [])" and "fh_good (m, h)" and "fh_find (m, h) = (\<lambda>_. None)"
proof -
  have h: "h = \<lparr>fh_table = replicate (unat n) None, fh_entries = unat n, fh_mask = ucast (n - 1)\<rparr>"
    using assms(1) by (simp add: fh_hash_create_def split: if_splits)
  have "unat (n - 1) = unat n - 1" using assms(2) by (intro unat_minus_one) auto
  moreover have "unat (ucast (n - 1) :: u32) = unat (n - 1) mod 2 ^ 32"
    by (simp add: unsigned_ucast_eq take_bit_eq_mod)
  ultimately have mask: "unat (ucast (n - 1) :: u32) = unat n - 1" using assms(2,3) by simp
  show rep: "fh_rep m h (\<lambda>_. [])" using assms(2) by (simp add: fh_rep_def h mask)
  then show "fh_good (m, h)" unfolding fh_good_def by (intro exI [of _ "\<lambda>_. []"]) (simp add: unique_keys_def)
  show "fh_find (m, h) = (\<lambda>_. None)" by (simp add: fun_eq_iff fh_find_def find_spec [OF rep])
qed

text \<open>A table of one bucket with two entries.\<close>

definition demo_mem :: fh_mem where
  "demo_mem = (\<lambda>_. \<lparr>hash_key = 0, hash_next = None\<rparr>)(5 := \<lparr>hash_key = 1, hash_next = Some 9\<rparr>,
     9 := \<lparr>hash_key = 2, hash_next = None\<rparr>)"

definition demo_hash :: fh_hash where
  "demo_hash = \<lparr>fh_table = [Some 5], fh_entries = 1, fh_mask = 0\<rparr>"

lemma demo_rep: "fh_rep demo_mem demo_hash (\<lambda>_. [5, 9])"
  by (simp add: fh_rep_def demo_mem_def demo_hash_def KEYHASH_def)

section \<open>Properties\<close>



text \<open>
  Applying a function to all entries visits every entry exactly once, bucket by bucket, also when
  the function deletes entries it is called on; the table then holds the entries it kept.
\<close>

theorem fh_apply_visits_all:
  assumes "fh_rep m h B" and "unique_keys m (fh_entries h) B"
  shows "\<exists>m' h'. fh_hash_apply (sweep D) (m, h, []) = Some (m', h', concat (map B [0..<fh_entries h])) \<and>
    fh_rep m' h' (\<lambda>i. if i < fh_entries h then filter (\<lambda>x. \<not> D x) (B i) else B i)"
proof -
  have "set [0..<fh_entries h] \<subseteq> {..<fh_entries h}" by auto
  from sweep_all [OF assms this, of D "[]"] show ?thesis by (auto simp: fh_hash_apply_def)
qed

theorem fh_apply_visits_all_witness:
  "\<exists>m' h'. fh_hash_apply (sweep (\<lambda>x. x = 5)) (demo_mem, demo_hash, []) = Some (m', h', [5, 9]) \<and>
    fh_rep m' h' (\<lambda>i. if i < 1 then [9] else [5, 9])"
  using fh_apply_visits_all [OF demo_rep, of "\<lambda>x. x = 5"]
  by (simp add: unique_keys_def demo_mem_def demo_hash_def cong: if_cong)

text \<open>
  Replacing an entry by address puts the new entry into its place in the chain, or unlinks it when
  the replacement is NULL, and leaves every other chain as it was.
\<close>

theorem fh_replace_in_place:
  assumes "fh_rep m h B" and "i < fh_entries h" and "v \<in> set (B i)"
    and "\<And>n. nv = Some n \<Longrightarrow> (\<forall>j<fh_entries h. n \<notin> set (B j)) \<and> KEYHASH (hash_key (m n)) h = i"
  shows "\<exists>m' h'. fh_hash_replace m h v nv = Some (m', h') \<and> fh_rep m' h' (B(i := swap_out v nv (B i)))"
  using replace_spec [OF assms] by blast

theorem fh_replace_in_place_witness:
  "\<exists>m' h'. fh_hash_replace demo_mem demo_hash 9 (Some 7) = Some (m', h') \<and>
     fh_rep m' h' ((\<lambda>_. [5, 9])(0 := [5, 7]))"
  using fh_replace_in_place [OF demo_rep, of 0 9 "Some 7"]
  by (simp add: demo_hash_def KEYHASH_def swap_out_def)

text \<open>
  From an entry of a table, \<open>fh_hash_next\<close> returns the next entry behind it in its chain with the
  same key, or NULL when there is none.
\<close>

theorem fh_next_same_key:
  assumes "fh_rep m h B" and "i < fh_entries h" and "B i = ys @ v # zs"
  shows "fh_hash_next m v = Some (List.find (\<lambda>x. hash_key (m x) = hash_key (m v)) zs)"
  using next_find_spec [of m "fh_table h ! i" ys v zs] fh_rep_bucket(1) [OF assms(1,2)] assms(3)
  by (simp add: fh_hash_next_def)

theorem fh_next_same_key_witness: "fh_hash_next demo_mem 5 = Some None"
  using fh_next_same_key [OF demo_rep, of 0 "[]" 5 "[9]"] by (simp add: demo_hash_def demo_mem_def)

end
