(* ===== verification/Trees.thy ===== *)
theory Trees
  imports Gasnet_Prelude
begin

text \<open>
  The communication trees of the collectives: the node structure and the tree builders of
  \<^verbatim>\<open>extended-ref/coll/gasnet_trees.c\<close>. The C code links an array of nodes through child
  arrays; each node is linked below at most one parent, so a tree is a value here and a builder
  maps the list of nodes it is given to the tree it roots at the first of them. Ranks and counts
  are natural numbers: the products the builders form stay within 32 bits for every team whose size
  times the radix does.
\<close>

section \<open>Nodes\<close>

datatype tree_node =
  TreeNode (tn_id: nat) (tn_reversed: bool) (tn_children: "tree_node list")

definition allocate_nodes :: "nat \<Rightarrow> nat \<Rightarrow> tree_node list" where
  "allocate_nodes total_ranks rootrank =
     map (\<lambda>i. TreeNode ((i + rootrank) mod total_ranks) False []) [0..<total_ranks]"

definition preappend_children :: "tree_node \<Rightarrow> tree_node list \<Rightarrow> tree_node" where
  "preappend_children main child_nodes =
     (if length child_nodes > 0
      then TreeNode (tn_id main) (tn_reversed main) (child_nodes @ tn_children main) else main)"

definition set_reversed :: "tree_node \<Rightarrow> tree_node" where
  "set_reversed t = TreeNode (tn_id t) True (tn_children t)"

section \<open>Flat, chain and fork trees\<close>

definition make_flat_tree :: "tree_node list \<Rightarrow> nat \<Rightarrow> tree_node" where
  "make_flat_tree nodes num_nodes =
     preappend_children (nodes ! 0) (take (num_nodes - 1) (drop 1 nodes))"

fun make_chain_tree :: "tree_node list \<Rightarrow> nat \<Rightarrow> tree_node" where
  "make_chain_tree nodes num_nodes =
     (if num_nodes > 1
      then preappend_children (nodes ! 0) [make_chain_tree (drop 1 nodes) (num_nodes - 1)]
      else nodes ! 0)"

declare make_chain_tree.simps [simp del]

primrec multarr :: "nat list \<Rightarrow> nat" where
  "multarr [] = 1"
| "multarr (d # ds) = d * multarr ds"

text \<open>\<open>None\<close> is a failed assertion: no dimensions, or a product that is not the number of nodes.\<close>

fun fork_tree :: "tree_node list \<Rightarrow> nat list \<Rightarrow> tree_node" where
  "fork_tree nodes [] = nodes ! 0"
| "fork_tree nodes [d] = set_reversed (make_chain_tree nodes d)"
| "fork_tree nodes (d # ds) =
     (let stride = multarr ds;
          temp_nodes = map (\<lambda>i. fork_tree (drop (stride * i) nodes) ds) [0..<d]
      in set_reversed (make_chain_tree temp_nodes d))"

definition make_fork_tree :: "tree_node list \<Rightarrow> nat \<Rightarrow> nat list \<Rightarrow> tree_node option" where
  "make_fork_tree nodes num_nodes dims =
     (if dims \<noteq> [] \<and> multarr dims = num_nodes then Some (fork_tree nodes dims) else None)"

section \<open>Knomial, recursive and n-ary trees\<close>

text \<open>
  The blocks of nodes below the root, as pairs of offset and length, in the order the loops visit
  them. The knomial loops: \<open>r\<close> runs over the multiples of \<open>stride\<close>, which grows by the radix.
\<close>

function knomial_blocks :: "nat \<Rightarrow> nat \<Rightarrow> nat \<Rightarrow> nat \<Rightarrow> nat \<Rightarrow> (nat \<times> nat) list" where
  "knomial_blocks n radix num_proc stride r =
     (if num_proc < n \<and> 0 < stride \<and> 1 < radix then
        (if r < stride * radix then
           (r, min stride (n - num_proc)) #
             knomial_blocks n radix (num_proc + min stride (n - num_proc)) stride (r + stride)
         else knomial_blocks n radix num_proc (stride * radix) (stride * radix))
      else [])"
  by pat_completeness auto
termination
  by (relation "measures [\<lambda>(n, radix, np, st, r). n - np, \<lambda>(n, radix, np, st, r). (if r < st * radix then 0 else 1)]")
     auto

declare knomial_blocks.simps [simp del]

function recursive_blocks :: "nat \<Rightarrow> nat \<Rightarrow> nat \<Rightarrow> (nat \<times> nat) list" where
  "recursive_blocks n radix i =
     (if 0 < i \<and> i < n \<and> 1 < radix
      then (i, min n (i * radix) - i) # recursive_blocks n radix (i * radix) else [])"
  by pat_completeness auto
termination
  by (relation "measure (\<lambda>(n, radix, i). n - i)") (auto intro: diff_less_mono2 n_less_n_mult_m)

declare recursive_blocks.simps [simp del]

definition MYCEIL :: "nat \<Rightarrow> nat \<Rightarrow> nat" where
  "MYCEIL A B = (if A mod B \<noteq> 0 then A div B + 1 else A div B)"

definition nary_block :: "nat \<Rightarrow> nat \<Rightarrow> nat \<Rightarrow> (nat \<times> nat) list" where
  "nary_block n radix j =
     (let start = (if j = 0 then 1 else min n (j * MYCEIL n radix));
          end' = min n ((j + 1) * MYCEIL n radix)
      in if start = end' then [] else [(start, end' - start)])"

definition nary_blocks :: "nat \<Rightarrow> nat \<Rightarrow> (nat \<times> nat) list" where
  "nary_blocks n radix = concat (map (nary_block n radix) [0..<radix])"

text \<open>
  \<open>tiles bs m n\<close>: the blocks cover \<open>m, \<dots>, n - 1\<close> without gap or overlap and in order.
\<close>

fun tiles :: "(nat \<times> nat) list \<Rightarrow> nat \<Rightarrow> nat \<Rightarrow> bool" where
  "tiles [] m n \<longleftrightarrow> m = n"
| "tiles ((s, l) # bs) m n \<longleftrightarrow> s = m \<and> 0 < l \<and> tiles bs (m + l) n"

lemma tiles_le: "tiles bs m n \<Longrightarrow> m \<le> n"
  by (induction bs m n rule: tiles.induct) auto

lemma tiles_append: "tiles as m k \<Longrightarrow> tiles bs k n \<Longrightarrow> tiles (as @ bs) m n"
  by (induction as m k rule: tiles.induct) auto

lemma tiles_bound: "tiles bs m n \<Longrightarrow> (s, l) \<in> set bs \<Longrightarrow> m \<le> s \<and> 0 < l \<and> s + l \<le> n"
  by (induction bs m n rule: tiles.induct) (use tiles_le in fastforce)+

lemma upt_split: "m \<le> k \<Longrightarrow> k \<le> n \<Longrightarrow> [m..<n] = [m..<k] @ [k..<n]"
  by (metis le_add_diff_inverse upt_add_eq_append)

lemma tiles_flatten: "tiles bs m n \<Longrightarrow> concat (map (\<lambda>(s, l). [s..<s + l]) bs) = [m..<n]"
proof (induction bs m n rule: tiles.induct)
  case (2 s l bs m n)
  then have "tiles bs (m + l) n" "s = m" by auto
  with 2 tiles_le [of bs "m + l" n] upt_split [of m "m + l" n] show ?case by simp
qed simp

lemma knomial_tiles:
  "num_proc = r \<or> num_proc = n \<Longrightarrow> num_proc \<le> n \<Longrightarrow> 0 < stride \<Longrightarrow> 1 < radix \<Longrightarrow>
   r \<le> stride * radix \<Longrightarrow> stride dvd r \<Longrightarrow>
   tiles (knomial_blocks n radix num_proc stride r) num_proc n"
proof (induction n radix num_proc stride r rule: knomial_blocks.induct)
  case (1 n radix num_proc stride r)
  show ?case
  proof (cases "num_proc < n")
    case False
    then show ?thesis using "1.prems" by (subst knomial_blocks.simps) simp
  next
    case True
    with "1.prems" have np: "num_proc = r" by simp
    show ?thesis
    proof (cases "r < stride * radix")
      case True
      let ?l = "min stride (n - num_proc)"
      have "stride dvd stride * radix - r" using "1.prems"(6) by (simp add: dvd_diff_nat)
      then have "stride \<le> stride * radix - r" using True by (simp add: dvd_imp_le)
      then have "r + stride \<le> stride * radix" using True by simp
      moreover have "num_proc + ?l = r + stride \<or> num_proc + ?l = n"
        using \<open>num_proc < n\<close> unfolding np by (cases "stride \<le> n - r") simp_all
      ultimately have "tiles (knomial_blocks n radix (num_proc + ?l) stride (r + stride)) (num_proc + ?l) n"
        using "1.IH"(1) \<open>num_proc < n\<close> True "1.prems" by simp
      then show ?thesis
        using \<open>num_proc < n\<close> True "1.prems" np by (subst knomial_blocks.simps) simp
    next
      case False
      with "1.prems" have "r = stride * radix" by simp
      then show ?thesis
        using "1.IH"(2) \<open>num_proc < n\<close> False "1.prems" np
        by (subst knomial_blocks.simps) simp
    qed
  qed
qed

lemma recursive_tiles: "0 < i \<Longrightarrow> i \<le> n \<Longrightarrow> 1 < radix \<Longrightarrow> tiles (recursive_blocks n radix i) i n"
proof (induction n radix i rule: recursive_blocks.induct)
  case (1 n radix i)
  show ?case
  proof (cases "i < n")
    case False
    then show ?thesis using "1.prems" by (subst recursive_blocks.simps) simp
  next
    case True
    show ?thesis
    proof (cases "i * radix \<le> n")
      case le: True
      have "i < i * radix" using "1.prems" by simp
      then show ?thesis
        using 1 True le min.absorb2 [OF le] by (simp add: recursive_blocks.simps [of n radix i])
    next
      case False
      then have "recursive_blocks n radix (i * radix) = []"
        by (simp add: recursive_blocks.simps [of n radix "i * radix"])
      then show ?thesis
        using "1.prems" True False by (simp add: recursive_blocks.simps [of n radix i] min_def)
    qed
  qed
qed

lemma MYCEIL_reach: "0 < b \<Longrightarrow> a \<le> b * MYCEIL a b"
proof -
  assume "0 < b"
  have "b * (a div b) + a mod b = a" by simp
  moreover have "a mod b < b" using \<open>0 < b\<close> by simp
  ultimately have "a \<le> b * (a div b) + b" "a mod b = 0 \<Longrightarrow> a = b * (a div b)" by linarith+
  then show ?thesis by (auto simp: MYCEIL_def)
qed

lemma MYCEIL_pos: "0 < b \<Longrightarrow> 0 < a \<Longrightarrow> 0 < MYCEIL a b"
  using MYCEIL_reach [of b a] by (cases "MYCEIL a b") auto

lemma nary_tiles:
  assumes "0 < radix" "1 \<le> n"
  shows "tiles (nary_blocks n radix) 1 n"
proof -
  let ?c = "MYCEIL n radix"
  have c: "0 < ?c" using assms by (intro MYCEIL_pos) auto
  have "0 < k \<Longrightarrow> tiles (concat (map (nary_block n radix) [0..<k])) 1 (min n (k * ?c))" for k
  proof (induction k)
    case (Suc k)
    have one: "tiles (nary_block n radix k) (if k = 0 then 1 else min n (k * ?c)) (min n (Suc k * ?c))"
    proof -
      have "(if k = 0 then 1 else min n (k * ?c)) \<le> min n (Suc k * ?c)"
        using c assms(2) by (auto simp: min_def)
      then show ?thesis by (auto simp: nary_block_def Let_def)
    qed
    show ?case
    proof (cases "k = 0")
      case True
      with one show ?thesis by simp
    next
      case False
      then have "tiles (concat (map (nary_block n radix) [0..<k])) 1 (min n (k * ?c))"
        using Suc.IH by simp
      from tiles_append [OF this] one False show ?thesis by simp
    qed
  qed simp
  from this [of radix] MYCEIL_reach [of radix n] assms(1) show ?thesis
    by (simp add: nary_blocks_def min_def)
qed

section \<open>The builders\<close>

text \<open>
  A knomial, recursive or n-ary tree attaches the trees of its blocks below the first node, last
  block first, and marks the node as reversed.
\<close>

definition attach :: "tree_node list \<Rightarrow> tree_node list \<Rightarrow> tree_node" where
  "attach nodes built = preappend_children (set_reversed (nodes ! 0)) (rev built)"

function knomial_tree :: "tree_node list \<Rightarrow> nat \<Rightarrow> nat \<Rightarrow> tree_node" where
  "knomial_tree nodes n radix =
     (if n > 1 \<and> radix > 1
      then attach nodes (map (\<lambda>(s, l). knomial_tree (drop s nodes) l radix) (knomial_blocks n radix 1 1 1))
      else nodes ! 0)"
  by pat_completeness auto
termination
proof (relation "measure (\<lambda>(nodes, n, radix). n)", goal_cases)
  case (2 nodes n radix x s l)
  then have "tiles (knomial_blocks n radix 1 1 1) 1 n" by (intro knomial_tiles) auto
  with 2 show ?case by (auto dest: tiles_bound)
qed simp

declare knomial_tree.simps [simp del]

text \<open>The assertion \<open>radix > 1\<close> of the debug build.\<close>

definition make_knomial_tree :: "tree_node list \<Rightarrow> nat \<Rightarrow> nat \<Rightarrow> tree_node option" where
  "make_knomial_tree nodes num_nodes radix =
     (if radix > 1 then Some (knomial_tree nodes num_nodes radix) else None)"

function recursive_tree :: "tree_node list \<Rightarrow> nat \<Rightarrow> nat \<Rightarrow> tree_node" where
  "recursive_tree nodes n radix =
     (if n > 1 \<and> radix > 1
      then attach nodes (map (\<lambda>(s, l). recursive_tree (drop s nodes) l radix) (recursive_blocks n radix 1))
      else nodes ! 0)"
  by pat_completeness auto
termination
proof (relation "measure (\<lambda>(nodes, n, radix). n)", goal_cases)
  case (2 nodes n radix x s l)
  then have "tiles (recursive_blocks n radix 1) 1 n" by (intro recursive_tiles) auto
  with 2 show ?case by (auto dest: tiles_bound)
qed simp

declare recursive_tree.simps [simp del]

definition make_recursive_tree :: "tree_node list \<Rightarrow> nat \<Rightarrow> nat \<Rightarrow> tree_node option" where
  "make_recursive_tree nodes num_nodes radix =
     (if num_nodes > 1 \<and> radix \<le> 1 then None else Some (recursive_tree nodes num_nodes radix))"

function make_nary_tree :: "tree_node list \<Rightarrow> nat \<Rightarrow> nat \<Rightarrow> tree_node" where
  "make_nary_tree nodes n radix =
     (if n > 1 \<and> nary_blocks n radix \<noteq> []
      then attach nodes (map (\<lambda>(s, l). make_nary_tree (drop s nodes) l radix) (nary_blocks n radix))
      else nodes ! 0)"
  by pat_completeness auto
termination
proof (relation "measure (\<lambda>(nodes, n, radix). n)", goal_cases)
  case (2 nodes n radix x s l)
  then have "0 < radix" by (cases radix) (auto simp: nary_blocks_def)
  with 2 have "tiles (nary_blocks n radix) 1 n" by (intro nary_tiles) auto
  with 2 show ?case by (auto dest: tiles_bound)
qed simp

declare make_nary_tree.simps [simp del]

section \<open>Depth-first order\<close>

text \<open>
  The order in which a traversal meets the ranks: a node, then the subtrees of its children, in
  reverse when the node is marked.
\<close>

fun dfs :: "tree_node \<Rightarrow> nat list" where
  "dfs (TreeNode i b cs) = i # concat (if b then rev (map dfs cs) else map dfs cs)"

definition leaves :: "tree_node list \<Rightarrow> bool" where
  "leaves nodes \<longleftrightarrow> (\<forall>t\<in>set nodes. tn_children t = [] \<and> \<not> tn_reversed t)"

lemma leaves_drop [simp]: "leaves nodes \<Longrightarrow> leaves (drop k nodes)"
  by (auto simp: leaves_def dest: in_set_dropD)

lemma leaf_node: "leaves nodes \<Longrightarrow> i < length nodes \<Longrightarrow> nodes ! i = TreeNode (tn_id (nodes ! i)) False []"
  by (simp add: leaves_def) (metis nth_mem tree_node.collapse)

lemma dfs_childless: "tn_children t = [] \<Longrightarrow> dfs t = [tn_id t]"
  by (cases t) simp

lemma dfs_childless_list: "\<forall>t\<in>set ts. tn_children t = [] \<Longrightarrow> concat (map dfs ts) = map tn_id ts"
  by (induction ts) (simp_all add: dfs_childless)

lemma dfs_leaf: "leaves nodes \<Longrightarrow> i < length nodes \<Longrightarrow> dfs (nodes ! i) = [tn_id (nodes ! i)]"
  using leaf_node [of nodes i] by (cases "nodes ! i") simp

lemma dfs_attach:
  assumes "leaves nodes" "nodes \<noteq> []" "built \<noteq> []"
  shows "dfs (attach nodes built) = tn_id (nodes ! 0) # concat (map dfs built)"
  using leaf_node [OF assms(1), of 0] assms(2,3)
  by (cases "nodes ! 0") (simp add: attach_def preappend_children_def set_reversed_def rev_map)

section \<open>Builders by blocks\<close>

text \<open>
  The interface of a builder that splits the nodes below the root into blocks: its trees list the
  nodes they were given in depth-first order.
\<close>

locale block_builder =
  fixes build :: "tree_node list \<Rightarrow> nat \<Rightarrow> nat \<Rightarrow> tree_node"
    and blocks :: "nat \<Rightarrow> nat \<Rightarrow> (nat \<times> nat) list"
    and valid :: "nat \<Rightarrow> bool"
  assumes blocks_tile: "valid radix \<Longrightarrow> 1 < n \<Longrightarrow> tiles (blocks n radix) 1 n"
    and build_small: "n \<le> 1 \<Longrightarrow> build nodes n radix = nodes ! 0"
    and build_large: "valid radix \<Longrightarrow> 1 < n \<Longrightarrow> build nodes n radix =
      attach nodes (map (\<lambda>(s, l). build (drop s nodes) l radix) (blocks n radix))"
begin

lemma dfs_build:
  "valid radix \<Longrightarrow> leaves nodes \<Longrightarrow> 0 < n \<Longrightarrow> n \<le> length nodes \<Longrightarrow>
   dfs (build nodes n radix) = map tn_id (take n nodes)"
proof (induction n arbitrary: nodes rule: less_induct)
  case (less n)
  show ?case
  proof (cases "n = 1")
    case True
    have "dfs (nodes ! 0) = [tn_id (nodes ! 0)]"
      using less.prems by (intro dfs_leaf) auto
    with True less.prems show ?thesis by (cases nodes) (simp_all add: build_small)
  next
    case False
    with less.prems have n: "1 < n" by simp
    note tile = blocks_tile [OF less.prems(1) n]
    have sub: "dfs (build (drop s nodes) l radix) = map (\<lambda>i. tn_id (nodes ! i)) [s..<s + l]"
      if "(s, l) \<in> set (blocks n radix)" for s l
    proof -
      from tiles_bound [OF tile that] have b: "1 \<le> s" "0 < l" "s + l \<le> n" by auto
      then have "dfs (build (drop s nodes) l radix) = map tn_id (take l (drop s nodes))"
        using less by (intro less.IH) auto
      also have "\<dots> = map (\<lambda>i. tn_id (nodes ! i)) [s..<s + l]"
        using b less.prems(4) by (simp add: list_eq_iff_nth_eq)
      finally show ?thesis .
    qed
    have ne: "blocks n radix \<noteq> []" using tile n by auto
    have "nodes \<noteq> []" using less.prems n by auto
    then have "dfs (build nodes n radix) = tn_id (nodes ! 0) #
        concat (map (\<lambda>(s, l). map (\<lambda>i. tn_id (nodes ! i)) [s..<s + l]) (blocks n radix))"
    proof -
      let ?built = "map (\<lambda>(s, l). build (drop s nodes) l radix) (blocks n radix)"
      have built: "map dfs ?built =
          map (\<lambda>(s, l). map (\<lambda>i. tn_id (nodes ! i)) [s..<s + l]) (blocks n radix)"
        unfolding map_map
      proof (rule map_cong [OF refl])
        fix p assume p: "p \<in> set (blocks n radix)"
        obtain s l where "p = (s, l)" by (cases p)
        with sub [of s l] p show "(dfs \<circ> (\<lambda>(s, l). build (drop s nodes) l radix)) p =
            (\<lambda>(s, l). map (\<lambda>i. tn_id (nodes ! i)) [s..<s + l]) p" by (simp only: o_apply prod.case)
      qed
      have "?built \<noteq> []" using ne by simp
      from dfs_attach [OF less.prems(2) \<open>nodes \<noteq> []\<close> this] show ?thesis
        unfolding build_large [OF less.prems(1) n] built .
    qed
    also have "concat (map (\<lambda>(s, l). map (\<lambda>i. tn_id (nodes ! i)) [s..<s + l]) (blocks n radix)) =
        map (\<lambda>i. tn_id (nodes ! i)) (concat (map (\<lambda>(s, l). [s..<s + l]) (blocks n radix)))"
      by (simp add: map_concat comp_def split_def)
    also have "\<dots> = map (\<lambda>i. tn_id (nodes ! i)) [1..<n]" by (simp only: tiles_flatten [OF tile])
    also have "tn_id (nodes ! 0) # map (\<lambda>i. tn_id (nodes ! i)) [1..<n] = map (\<lambda>i. tn_id (nodes ! i)) [0..<n]"
      using n by (subst (2) upt_conv_Cons) simp_all
    also have "\<dots> = map tn_id (take n nodes)" using less.prems(4) by (intro nth_equalityI) auto
    finally show ?thesis .
  qed
qed

end

interpretation knomial: block_builder knomial_tree "\<lambda>n radix. knomial_blocks n radix 1 1 1" "\<lambda>radix. 1 < radix"
proof
  fix n radix :: nat and nodes
  show "1 < radix \<Longrightarrow> 1 < n \<Longrightarrow> tiles (knomial_blocks n radix 1 1 1) 1 n" by (intro knomial_tiles) auto
  show "n \<le> 1 \<Longrightarrow> knomial_tree nodes n radix = nodes ! 0" by (simp add: knomial_tree.simps [of nodes])
  show "1 < radix \<Longrightarrow> 1 < n \<Longrightarrow> knomial_tree nodes n radix =
      attach nodes (map (\<lambda>(s, l). knomial_tree (drop s nodes) l radix) (knomial_blocks n radix 1 1 1))"
    by (subst knomial_tree.simps) simp
qed

interpretation recursive: block_builder recursive_tree "\<lambda>n radix. recursive_blocks n radix 1" "\<lambda>radix. 1 < radix"
proof
  fix n radix :: nat and nodes
  show "1 < radix \<Longrightarrow> 1 < n \<Longrightarrow> tiles (recursive_blocks n radix 1) 1 n" by (intro recursive_tiles) auto
  show "n \<le> 1 \<Longrightarrow> recursive_tree nodes n radix = nodes ! 0" by (simp add: recursive_tree.simps [of nodes])
  show "1 < radix \<Longrightarrow> 1 < n \<Longrightarrow> recursive_tree nodes n radix =
      attach nodes (map (\<lambda>(s, l). recursive_tree (drop s nodes) l radix) (recursive_blocks n radix 1))"
    by (subst recursive_tree.simps) simp
qed

interpretation nary: block_builder make_nary_tree nary_blocks "\<lambda>radix. 0 < radix"
proof
  fix n radix :: nat and nodes
  show t: "0 < radix \<Longrightarrow> 1 < n \<Longrightarrow> tiles (nary_blocks n radix) 1 n" by (intro nary_tiles) auto
  show "n \<le> 1 \<Longrightarrow> make_nary_tree nodes n radix = nodes ! 0" by (simp add: make_nary_tree.simps [of nodes])
  show "0 < radix \<Longrightarrow> 1 < n \<Longrightarrow> make_nary_tree nodes n radix =
      attach nodes (map (\<lambda>(s, l). make_nary_tree (drop s nodes) l radix) (nary_blocks n radix))"
    using t by (subst make_nary_tree.simps) auto
qed

section \<open>Flat and fork trees in depth-first order\<close>

lemma dfs_flat:
  assumes "leaves nodes" "0 < n" "n \<le> length nodes"
  shows "dfs (make_flat_tree nodes n) = map tn_id (take n nodes)"
proof (cases nodes)
  case Nil
  with assms show ?thesis by simp
next
  case (Cons x xs)
  have "\<forall>t\<in>set (take (n - 1) xs). tn_children t = []"
    using assms(1) Cons by (auto simp: leaves_def dest: in_set_takeD)
  then have "concat (map dfs (take (n - 1) xs)) = map tn_id (take (n - 1) xs)" by (rule dfs_childless_list)
  moreover have "dfs (make_flat_tree nodes n) = tn_id x # concat (map dfs (take (n - 1) xs))"
  proof -
    have "tn_children x = []" "\<not> tn_reversed x" using assms(1) Cons by (simp_all add: leaves_def)
    then show ?thesis
      using Cons by (cases x) (auto simp: make_flat_tree_def preappend_children_def)
  qed
  ultimately show ?thesis using assms(2) Cons by (cases n) simp_all
qed

text \<open>
  A node that may get one more child in front of its own: it has at most one child, or it is marked
  as reversed.
\<close>

definition open_front :: "tree_node \<Rightarrow> bool" where
  "open_front t \<longleftrightarrow> tn_reversed t \<or> tn_children t = []"

lemma dfs_prepend:
  "open_front t \<Longrightarrow> dfs (preappend_children t [c]) = dfs t @ dfs c"
  by (cases t) (auto simp: open_front_def preappend_children_def)

lemma dfs_set_reversed:
  "tn_reversed t \<or> length (tn_children t) \<le> 1 \<Longrightarrow> dfs (set_reversed t) = dfs t"
  by (cases t; cases "tn_children t") (auto simp: set_reversed_def)

lemma chain_root:
  "0 < n \<Longrightarrow> n \<le> length nodes \<Longrightarrow>
   tn_reversed (make_chain_tree nodes n) = tn_reversed (nodes ! 0) \<and>
   length (tn_children (make_chain_tree nodes n)) =
     length (tn_children (nodes ! 0)) + (if n > 1 then 1 else 0)"
  by (subst (1 2) make_chain_tree.simps) (simp add: preappend_children_def)

lemma dfs_chain:
  "0 < n \<Longrightarrow> n \<le> length nodes \<Longrightarrow> \<forall>t\<in>set nodes. open_front t \<Longrightarrow>
   dfs (make_chain_tree nodes n) = concat (map dfs (take n nodes))"
proof (induction nodes n rule: make_chain_tree.induct)
  case (1 nodes n)
  obtain x xs where nodes: "nodes = x # xs" using "1.prems" by (cases nodes) auto
  show ?case
  proof (cases "n > 1")
    case True
    then have "dfs (make_chain_tree xs (n - 1)) = concat (map dfs (take (n - 1) xs))"
      using "1.IH" [OF True] "1.prems" nodes by auto
    moreover have "open_front x" using "1.prems"(3) nodes by simp
    ultimately show ?thesis
      using True nodes by (subst make_chain_tree.simps) (cases n; simp add: dfs_prepend)
  next
    case False
    with "1.prems" have "n = 1" by simp
    then show ?thesis using nodes by (subst make_chain_tree.simps) simp
  qed
qed

lemma take_blocks:
  "d * k \<le> length xs \<Longrightarrow> concat (map (\<lambda>i. take k (drop (k * i) xs)) [0..<d]) = take (d * k) xs"
proof (induction d)
  case (Suc d)
  then have "take (Suc d * k) xs = take (d * k) xs @ take k (drop (k * d) xs)"
    using take_add [of "d * k" k xs] by (simp add: mult.commute add.commute)
  with Suc show ?case by simp
qed simp

lemma fork_root:
  "leaves nodes \<Longrightarrow> dims \<noteq> [] \<Longrightarrow> tn_reversed (fork_tree nodes dims)"
  by (cases "(nodes, dims)" rule: fork_tree.cases) (auto simp: set_reversed_def Let_def)

lemma dfs_fork:
  "leaves nodes \<Longrightarrow> dims \<noteq> [] \<Longrightarrow> 0 < multarr dims \<Longrightarrow> multarr dims \<le> length nodes \<Longrightarrow>
   dfs (fork_tree nodes dims) = map tn_id (take (multarr dims) nodes)"
proof (induction nodes dims rule: fork_tree.induct)
  case (1 nodes)
  then show ?case by simp
next
  case (2 nodes d)
  have lf: "open_front t \<and> dfs t = [tn_id t] \<and> tn_children t = []" if "t \<in> set nodes" for t
    using that "2.prems"(1) dfs_childless [of t] by (simp add: leaves_def open_front_def)
  have "length (tn_children (make_chain_tree nodes d)) \<le> 1"
    using chain_root [of d nodes] "2.prems" lf [of "nodes ! 0"] by (cases nodes) auto
  then have "dfs (fork_tree nodes [d]) = concat (map dfs (take d nodes))"
    using "2.prems" lf by (simp add: dfs_set_reversed dfs_chain)
  also have "\<dots> = map tn_id (take d nodes)"
    using lf by (intro dfs_childless_list) (auto dest: in_set_takeD)
  finally show ?case by simp
next
  case (3 nodes d e ds)
  let ?k = "multarr (e # ds)"
  let ?t = "map (\<lambda>i. fork_tree (drop (?k * i) nodes) (e # ds)) [0..<d]"
  have d: "0 < d" "0 < ?k" "d * ?k \<le> length nodes" using "3.prems" by simp_all
  have sub: "dfs (fork_tree (drop (?k * i) nodes) (e # ds)) = map tn_id (take ?k (drop (?k * i) nodes))"
    if "i < d" for i
  proof (rule "3.IH" [OF refl])
    have "?k * i + ?k \<le> d * ?k" using that mult_le_mono1 [of "Suc i" d ?k] by (simp add: mult.commute)
    then show "?k \<le> length (drop (?k * i) nodes)" using d(3) by simp
  qed (use that "3.prems" d in auto)
  have rev: "tn_reversed t" if "t \<in> set ?t" for t using that "3.prems"(1) by (auto intro: fork_root)
  have "?t ! 0 \<in> set ?t" using d(1) by (intro nth_mem) simp
  then have "tn_reversed (?t ! 0)" by (rule rev)
  then have "tn_reversed (make_chain_tree ?t d)" using chain_root [of d ?t] d(1) by simp
  then have "dfs (fork_tree nodes (d # e # ds)) = dfs (make_chain_tree ?t d)"
    by (simp add: Let_def dfs_set_reversed)
  also have "\<dots> = concat (map dfs ?t)" using dfs_chain [of d ?t] rev d(1) by (auto simp: open_front_def)
  also have "map dfs ?t = map (map tn_id) (map (\<lambda>i. take ?k (drop (?k * i) nodes)) [0..<d])"
    unfolding map_map by (rule map_cong [OF refl]) (use sub in simp)
  also have "concat \<dots> = map tn_id (concat (map (\<lambda>i. take ?k (drop (?k * i) nodes)) [0..<d]))"
    by (simp only: map_concat)
  also have "\<dots> = map tn_id (take (d * ?k) nodes)" by (simp only: take_blocks [OF d(3)])
  finally show ?case by simp
qed

end
