(* ===== verification/Tree_Geometry.thy ===== *)
theory Tree_Geometry
  imports Trees
begin

text \<open>
  The local view of a communication tree: parent links, sizes, the search for a rank's node and
  \<open>gasnete_coll_tree_geom_create_local\<close> of \<^verbatim>\<open>extended-ref/coll/gasnet_trees.c\<close>.
  A fatal error or a failed assertion is \<open>None\<close>; the parameters of a tree
  type, C integers, are integers.
\<close>

section \<open>Tree types\<close>

datatype gasnete_coll_tree_class = GASNETE_COLL_FLAT_TREE | GASNETE_COLL_KNOMIAL_TREE
  | GASNETE_COLL_NARY_TREE | GASNETE_COLL_RECURSIVE_TREE | GASNETE_COLL_FORK_TREE
  | GASNETE_COLL_HIERARCHICAL_TREE

record gasnete_coll_tree_type =
  tree_class :: gasnete_coll_tree_class
  params :: "int list"

definition gasnete_coll_make_tree_type ::
  "gasnete_coll_tree_class \<Rightarrow> int list \<Rightarrow> nat \<Rightarrow> gasnete_coll_tree_type" where
  "gasnete_coll_make_tree_type cls ps num_params = \<lparr>tree_class = cls, params = take num_params ps\<rparr>"

text \<open>The loop over the parameters; a null type is \<open>None\<close>.\<close>

fun params_equal :: "int list \<Rightarrow> int list \<Rightarrow> nat \<Rightarrow> bool" where
  "params_equal as bs 0 = True"
| "params_equal (a # as) (b # bs) (Suc n) = (if a \<noteq> b then False else params_equal as bs n)"
| "params_equal as bs (Suc n) = False"

definition gasnete_coll_compare_tree_types ::
  "gasnete_coll_tree_type option \<Rightarrow> gasnete_coll_tree_type option \<Rightarrow> bool" where
  "gasnete_coll_compare_tree_types a b =
     (case (a, b) of
        (None, None) \<Rightarrow> True
      | (Some s, Some t) \<Rightarrow>
          tree_class s = tree_class t \<and> length (params s) = length (params t) \<and>
          params_equal (params s) (params t) (length (params s))
      | _ \<Rightarrow> False)"

section \<open>Functions on trees\<close>

text \<open>
  \<open>setparents\<close> stores in every node a pointer to its parent; here the links are a list, node by
  node, keyed by the node's id.
\<close>

fun setparentshelper :: "tree_node \<Rightarrow> tree_node option \<Rightarrow> (nat \<times> tree_node option) list" where
  "setparentshelper (TreeNode i b cs) parent =
     (i, parent) # concat (map (\<lambda>c. setparentshelper c (Some (TreeNode i b cs))) cs)"

definition setparents :: "tree_node \<Rightarrow> (nat \<times> tree_node option) list" where
  "setparents t = setparentshelper t None"

fun treesize :: "tree_node \<Rightarrow> nat" where
  "treesize (TreeNode i b cs) = 1 + sum_list (map treesize cs)"

text \<open>For the null pointer the size is 0.\<close>

definition treesize_opt :: "tree_node option \<Rightarrow> nat" where
  "treesize_opt t = (case t of None \<Rightarrow> 0 | Some n \<Rightarrow> treesize n)"

fun maxradix :: "tree_node \<Rightarrow> nat" where
  "maxradix (TreeNode i b cs) = fold max (map maxradix cs) (length cs)"

fun find_node :: "tree_node \<Rightarrow> nat \<Rightarrow> tree_node option"
  and find_in :: "tree_node list \<Rightarrow> nat \<Rightarrow> tree_node option" where
  "find_node (TreeNode i b cs) x = (if i = x then Some (TreeNode i b cs) else find_in cs x)"
| "find_in [] x = None"
| "find_in (c # cs) x = (case find_node c x of Some t \<Rightarrow> Some t | None \<Rightarrow> find_in cs x)"

section \<open>Building the local view\<close>

record gasnete_coll_local_tree_geom =
  geom_root :: nat
  geom_parent :: "nat option"                  \<comment> \<open>\<open>GEX_RANK_INVALID\<close> is \<open>None\<close>\<close>
  child_count :: nat
  child_list :: "nat list"
  subtree_sizes :: "nat list"
  child_offset :: "nat list"
  mysubtree_size :: nat
  geom_children_reversed :: bool
  parent_subtree_size :: nat
  max_radix :: nat
  num_siblings :: nat
  sibling_id :: int
  sibling_offset :: nat
  rotation_points :: "nat list"
  num_non_leaf_children :: nat
  num_leaf_children :: nat

definition build_tree :: "gasnete_coll_tree_type \<Rightarrow> nat \<Rightarrow> nat \<Rightarrow> tree_node option" where
  "build_tree in_type rootrank total_ranks =
     (let allnodes = allocate_nodes total_ranks rootrank; ps = params in_type; radix = nat (ps ! 0) in
      case tree_class in_type of
        GASNETE_COLL_NARY_TREE \<Rightarrow>
          if length ps = 1 then Some (make_nary_tree allnodes total_ranks radix) else None
      | GASNETE_COLL_KNOMIAL_TREE \<Rightarrow>
          if length ps = 1 then make_knomial_tree allnodes total_ranks radix else None
      | GASNETE_COLL_FLAT_TREE \<Rightarrow> Some (make_flat_tree allnodes total_ranks)
      | GASNETE_COLL_RECURSIVE_TREE \<Rightarrow>
          if length ps = 1 then make_recursive_tree allnodes total_ranks radix else None
      | GASNETE_COLL_FORK_TREE \<Rightarrow> make_fork_tree allnodes total_ranks (map nat ps)
      | GASNETE_COLL_HIERARCHICAL_TREE \<Rightarrow> None)"

text \<open>
  The search for this rank among its parent's children, in the order a traversal visits them: the
  first component is the index found (-1 if none), the second the sizes of the subtrees before it.
\<close>

function sibling_scan :: "tree_node list \<Rightarrow> bool \<Rightarrow> nat \<Rightarrow> nat \<Rightarrow> nat \<Rightarrow> int \<times> nat" where
  "sibling_scan cs rev' me i off =
     (if i < length cs then
        let tmp_id = (if rev' then length cs - 1 - i else i) in
        if tn_id (cs ! tmp_id) = me then (int tmp_id, off)
        else sibling_scan cs rev' me (Suc i) (off + treesize (cs ! tmp_id))
      else (- 1, off))"
  by pat_completeness auto
termination
  by (relation "measure (\<lambda>(cs, rev', me, i, off). length cs - i)") auto

declare sibling_scan.simps [simp del]

text \<open>The offsets of the children, filled from the last or from the first child on.\<close>

definition offsets_up :: "nat list \<Rightarrow> nat list" where
  "offsets_up sizes = map (\<lambda>i. sum_list (take i sizes)) [0..<length sizes]"

definition offsets_down :: "nat list \<Rightarrow> nat list" where
  "offsets_down sizes = map (\<lambda>i. sum_list (drop (Suc i) sizes)) [0..<length sizes]"

definition gasnete_coll_tree_geom_create_local ::
  "gasnete_coll_tree_type \<Rightarrow> nat \<Rightarrow> nat \<Rightarrow> nat \<Rightarrow> gasnete_coll_local_tree_geom option" where
  "gasnete_coll_tree_geom_create_local in_type rootrank total_ranks myrank =
     (if rootrank < total_ranks then
        case build_tree in_type rootrank total_ranks of None \<Rightarrow> None
        | Some rootnode \<Rightarrow>
            (case find_node rootnode myrank of None \<Rightarrow> None
             | Some mynode \<Rightarrow>
                 let links = setparents rootnode;
                     parent = (case map_of links (tn_id mynode) of None \<Rightarrow> None | Some p \<Rightarrow> p);
                     cs = tn_children mynode;
                     sizes = map treesize cs;
                     (sib_n, sib_id, sib_off) =
                       (if rootrank \<noteq> myrank
                        then (case parent of None \<Rightarrow> (0, - 1, 0)
                              | Some p \<Rightarrow> let (i, off) = sibling_scan (tn_children p) (tn_reversed p) myrank 0 0
                                          in (length (tn_children p), i, off))
                        else (0, 0, 0))
                 in Some \<lparr>geom_root = rootrank, geom_parent = map_option tn_id parent,
                      child_count = length cs, child_list = map tn_id cs, subtree_sizes = sizes,
                      child_offset = (if tn_reversed mynode then offsets_down sizes else offsets_up sizes),
                      mysubtree_size = treesize mynode, geom_children_reversed = tn_reversed mynode,
                      parent_subtree_size = treesize_opt parent, max_radix = maxradix rootnode,
                      num_siblings = sib_n, sibling_id = sib_id, sibling_offset = sib_off,
                      rotation_points = [rootrank],
                      num_non_leaf_children = length (filter (\<lambda>s. s > 1) sizes),
                      num_leaf_children = length (filter (\<lambda>s. \<not> s > 1) sizes)\<rparr>)
      else None)"

section \<open>Trees and their depth-first lists\<close>

lemma treesize_dfs: "treesize t = length (dfs t)"
proof (induction t)
  case (TreeNode i b cs)
  then have "map treesize cs = map (length \<circ> dfs) cs" by simp
  then have "sum_list (map treesize cs) = length (concat (map dfs cs))"
    by (simp only: length_concat map_map)
  moreover have "length (concat (rev (map dfs cs))) = length (concat (map dfs cs))"
    by (simp add: length_concat rev_map [symmetric] del: rev_map)
  ultimately show ?case by simp
qed

lemma set_dfs: "set (dfs t) = insert (tn_id t) (\<Union>c\<in>set (tn_children t). set (dfs c))"
  by (cases t) auto

text \<open>Occurrence of a subtree, as a relation.\<close>

inductive subtree :: "tree_node \<Rightarrow> tree_node \<Rightarrow> bool" where
  subtree_refl: "subtree t t"
| subtree_child: "c \<in> set (tn_children t) \<Longrightarrow> subtree s c \<Longrightarrow> subtree s t"

text \<open>Children in the order a traversal visits them.\<close>

definition visit :: "tree_node \<Rightarrow> tree_node list" where
  "visit t = (if tn_reversed t then rev (tn_children t) else tn_children t)"

lemma dfs_visit: "dfs t = tn_id t # concat (map dfs (visit t))"
  by (cases t) (simp add: visit_def rev_map)

lemma dfs_child_at:
  assumes "visit t = as @ c # bs"
  shows "dfs t = (tn_id t # concat (map dfs as)) @ dfs c @ concat (map dfs bs)"
  by (simp add: dfs_visit [of t] assms)

lemma subtree_segment: "subtree s t \<Longrightarrow> \<exists>pre post. dfs t = pre @ dfs s @ post"
proof (induction rule: subtree.induct)
  case (subtree_refl t)
  show ?case by (intro exI [of _ "[]"]) simp
next
  case (subtree_child c t s)
  then have "c \<in> set (visit t)" by (simp add: visit_def)
  then obtain as bs where "visit t = as @ c # bs" by (auto dest: split_list)
  from dfs_child_at [OF this] subtree_child.IH show ?case
    by (metis append.assoc)
qed

lemma find_node_subtree:
  "find_node t x = Some s \<Longrightarrow> subtree s t \<and> tn_id s = x"
  "find_in cs x = Some s \<Longrightarrow> \<exists>c\<in>set cs. subtree s c \<and> tn_id s = x"
  by (induction t x and cs x rule: find_node_find_in.induct)
     (auto split: if_splits option.splits intro: subtree_refl subtree_child)

lemma find_node_None:
  "find_node t x = None \<Longrightarrow> x \<notin> set (dfs t)"
  "find_in cs x = None \<Longrightarrow> \<forall>c\<in>set cs. x \<notin> set (dfs c)"
  by (induction t x and cs x rule: find_node_find_in.induct)
     (auto split: if_splits option.splits)

section \<open>Distinct ids\<close>

lemma distinct_child:
  assumes "distinct (dfs t)" "c \<in> set (tn_children t)"
  shows "distinct (dfs c)" and "tn_id t \<notin> set (dfs c)"
proof -
  have "c \<in> set (visit t)" using assms(2) by (simp add: visit_def)
  then obtain as bs where "visit t = as @ c # bs" by (auto dest: split_list)
  from dfs_child_at [OF this] assms(1) show "distinct (dfs c)" "tn_id t \<notin> set (dfs c)" by auto
qed

lemma distinct_children:
  assumes "distinct (dfs t)" "c \<in> set (tn_children t)" "c' \<in> set (tn_children t)"
    and "x \<in> set (dfs c)" "x \<in> set (dfs c')"
  shows "c = c'"
proof -
  have d: "distinct (concat (map dfs (visit t)))" using assms(1) by (simp add: dfs_visit [of t])
  have "c \<in> set (visit t)" "c' \<in> set (visit t)" using assms(2,3) by (simp_all add: visit_def)
  then obtain as bs where v: "visit t = as @ c # bs" by (auto dest: split_list)
  show ?thesis
  proof (rule ccontr)
    assume "c \<noteq> c'"
    with v \<open>c' \<in> set (visit t)\<close> have "c' \<in> set as \<or> c' \<in> set bs" by auto
    with d v assms(4,5) show False by auto
  qed
qed

lemma id_in_dfs: "tn_id t \<in> set (dfs t)"
  by (cases t) simp

lemma subtree_dfs: "subtree s t \<Longrightarrow> set (dfs s) \<subseteq> set (dfs t)"
  using subtree_segment by fastforce

lemma subtree_cases:
  assumes "subtree s t"
  obtains "s = t" | c where "c \<in> set (tn_children t)" "subtree s c"
  using assms by (cases rule: subtree.cases) auto

lemma subtree_unique:
  "distinct (dfs t) \<Longrightarrow> subtree s t \<Longrightarrow> subtree s' t \<Longrightarrow> tn_id s = tn_id s' \<Longrightarrow> s = s'"
proof (induction t)
  case (TreeNode i b cs)
  let ?t = "TreeNode i b cs"
  have out: "tn_id u \<noteq> i" if "c \<in> set cs" "subtree u c" for u c
    using distinct_child(2) [OF TreeNode.prems(1), of c] that subtree_dfs id_in_dfs by fastforce
  from TreeNode.prems(2) show ?case
  proof (cases rule: subtree_cases)
    case 1
    from TreeNode.prems(3) show ?thesis
      by (cases rule: subtree_cases) (use 1 out TreeNode.prems(4) in auto)
  next
    case (2 c)
    from TreeNode.prems(3) show ?thesis
    proof (cases rule: subtree_cases)
      case 1
      with 2 out TreeNode.prems(4) show ?thesis by auto
    next
      case (2 c')
      have "tn_id s \<in> set (dfs c)" "tn_id s \<in> set (dfs c')"
        using subtree_dfs [OF \<open>subtree s c\<close>] subtree_dfs [OF 2(2)] id_in_dfs [of s] id_in_dfs [of s']
          TreeNode.prems(4) by auto
      from distinct_children [OF TreeNode.prems(1) \<open>c \<in> set (tn_children ?t)\<close> 2(1) this] have "c = c'" .
      with 2 \<open>c \<in> set (tn_children ?t)\<close> \<open>subtree s c\<close> show ?thesis
        using TreeNode.IH [of c] distinct_child(1) [OF TreeNode.prems(1)] TreeNode.prems(4) by auto
    qed
  qed
qed

lemma subtree_trans: "subtree s t \<Longrightarrow> subtree u s \<Longrightarrow> subtree u t"
  by (induction rule: subtree.induct) (auto intro: subtree_child)

lemma child_subtree: "subtree p t \<Longrightarrow> c \<in> set (tn_children p) \<Longrightarrow> subtree c t"
  by (erule subtree_trans) (auto intro: subtree_child subtree_refl)

lemma segment_position:
  "distinct xs \<Longrightarrow> xs = as @ y # bs \<Longrightarrow> xs = as' @ y # bs' \<Longrightarrow> as = as'"
  by (metis append_eq_append_conv_if append_eq_conv_conj distinct_append not_distinct_conv_prefix
      append_Cons_eq_iff distinct.simps(2) Un_iff set_append)

text \<open>A child has one parent.\<close>

lemma parent_unique:
  "distinct (dfs t) \<Longrightarrow> subtree p t \<Longrightarrow> subtree p' t \<Longrightarrow> c \<in> set (tn_children p) \<Longrightarrow>
   c \<in> set (tn_children p') \<Longrightarrow> p = p'"
proof (induction t)
  case (TreeNode i b cs)
  let ?t = "TreeNode i b cs"
  have deep: False if "d \<in> set cs" "subtree q d" "c \<in> set (tn_children q)" "c \<in> set cs" for d q
  proof -
    have "subtree c d" using that(2,3) by (rule child_subtree)
    then have *: "tn_id c \<in> set (dfs d)" using subtree_dfs id_in_dfs by blast
    then have "c = d"
      using distinct_children [OF TreeNode.prems(1), of c d "tn_id c"] that(1,4) id_in_dfs by simp
    with that(2,3) have "subtree c q" "subtree q c" by (auto intro: subtree_child subtree_refl)
    have "distinct (dfs c)" using distinct_child(1) [OF TreeNode.prems(1)] that(4) by simp
    moreover have "set (dfs q) \<subseteq> set (dfs c)" using \<open>subtree q c\<close> by (rule subtree_dfs)
    ultimately show False
      using distinct_child(2) [of q c] that(3) \<open>subtree q c\<close> id_in_dfs [of q] subtree_segment [OF \<open>subtree q c\<close>]
      by (metis distinct_append subsetD)
  qed
  from TreeNode.prems(2) show ?case
  proof (cases rule: subtree_cases)
    case 1
    from TreeNode.prems(3) show ?thesis
      by (cases rule: subtree_cases) (use 1 deep TreeNode.prems(4,5) in auto)
  next
    case (2 d)
    from TreeNode.prems(3) show ?thesis
    proof (cases rule: subtree_cases)
      case 1
      with 2 deep TreeNode.prems(4,5) show ?thesis by auto
    next
      case (2 d')
      have "subtree c d" "subtree c d'"
        using \<open>subtree p d\<close> 2(2) TreeNode.prems(4,5) by (auto intro: child_subtree)
      then have "tn_id c \<in> set (dfs d)" "tn_id c \<in> set (dfs d')" using subtree_dfs id_in_dfs by blast+
      from distinct_children [OF TreeNode.prems(1) \<open>d \<in> set (tn_children ?t)\<close> 2(1) this] have "d = d'" .
      with 2 \<open>d \<in> set (tn_children ?t)\<close> \<open>subtree p d\<close> show ?thesis
        using TreeNode.IH [of d] distinct_child(1) [OF TreeNode.prems(1)] TreeNode.prems(4,5) by auto
    qed
  qed
qed

section \<open>Parent links and siblings\<close>

lemma links_sound:
  "(x, w) \<in> set (setparentshelper t par) \<Longrightarrow>
   x = tn_id t \<and> w = par \<or> (\<exists>p c. w = Some p \<and> subtree p t \<and> c \<in> set (tn_children p) \<and> tn_id c = x)"
proof (induction t arbitrary: par)
  case (TreeNode i b cs)
  let ?t = "TreeNode i b cs"
  from TreeNode.prems consider "x = i" "w = par"
    | c where "c \<in> set cs" "(x, w) \<in> set (setparentshelper c (Some ?t))" by auto
  then show ?case
  proof cases
    case 1
    then show ?thesis by simp
  next
    case (2 c)
    have c: "c \<in> set (tn_children ?t)" using 2(1) by simp
    from TreeNode.IH [OF 2] show ?thesis
      using c subtree_refl [of ?t] subtree_child [OF c] by metis
  qed
qed

lemma links_complete: "x \<in> set (dfs t) \<Longrightarrow> \<exists>w. (x, w) \<in> set (setparentshelper t par)"
  by (induction t arbitrary: par) (fastforce split: if_splits)

lemma root_link: "map_of (setparents t) (tn_id t) = Some None"
  by (cases t) (simp add: setparents_def)

lemma parent_link:
  assumes "distinct (dfs t)" "subtree s t" "tn_id s \<noteq> tn_id t"
  obtains p where "map_of (setparents t) (tn_id s) = Some (Some p)" "subtree p t" "s \<in> set (tn_children p)"
proof -
  have "tn_id s \<in> set (dfs t)" using subtree_dfs [OF assms(2)] id_in_dfs by blast
  then obtain w where "(tn_id s, w) \<in> set (setparents t)"
    unfolding setparents_def using links_complete by blast
  then have "map_of (setparents t) (tn_id s) \<noteq> None"
    by (simp add: map_of_eq_None_iff) (metis fst_conv imageI)
  then obtain w where w: "map_of (setparents t) (tn_id s) = Some w" by auto
  then have "(tn_id s, w) \<in> set (setparentshelper t None)" unfolding setparents_def by (rule map_of_SomeD)
  from links_sound [OF this] assms(3) obtain p c where
    p: "w = Some p" "subtree p t" "c \<in> set (tn_children p)" "tn_id c = tn_id s" by auto
  have "c = s" using subtree_unique [OF assms(1) child_subtree [OF p(2,3)] assms(2) p(4)] .
  with p w that show thesis by blast
qed

lemma sibling_scan_skip:
  assumes vs: "vs = (if rv then rev cs else cs)"
    and k: "k < length cs" "tn_id (vs ! k) = me" "\<And>j. j < k \<Longrightarrow> tn_id (vs ! j) \<noteq> me"
  shows "i \<le> k \<Longrightarrow> sibling_scan cs rv me i off =
     (int (if rv then length cs - 1 - k else k), off + sum_list (map treesize (drop i (take k vs))))"
proof (induction "k - i" arbitrary: i off)
  case 0
  then have "i = k" by simp
  moreover have "cs ! (if rv then length cs - 1 - k else k) = vs ! k"
    using k(1) by (simp add: vs rev_nth)
  ultimately show ?case using k(1,2) by (cases rv; subst sibling_scan.simps; simp add: Let_def)
next
  case (Suc n)
  then have i: "i < k" by simp
  have at: "cs ! (if rv then length cs - 1 - i else i) = vs ! i"
    using k(1) i by (simp add: vs rev_nth)
  have "drop i (take k vs) = vs ! i # drop (Suc i) (take k vs)"
    using i k(1) by (subst Cons_nth_drop_Suc [symmetric]) (auto simp: vs)
  moreover have "sibling_scan cs rv me (Suc i) (off + treesize (vs ! i)) =
      (int (if rv then length cs - 1 - k else k),
       off + treesize (vs ! i) + sum_list (map treesize (drop (Suc i) (take k vs))))"
    using Suc i by (intro Suc.hyps(1)) auto
  ultimately show ?case
    using k(1) i k(3) [OF i] at by (subst sibling_scan.simps) (simp add: Let_def)
qed

lemma distinct_visit_ids:
  assumes "distinct (dfs p)" "visit p = as @ c # bs"
  shows "tn_id c \<notin> tn_id ` set as"
proof
  assume "tn_id c \<in> tn_id ` set as"
  then obtain a where a: "a \<in> set as" "tn_id a = tn_id c" by auto
  then have "tn_id c \<in> set (concat (map dfs as))" using id_in_dfs [of a] by auto
  with dfs_child_at [OF assms(2)] assms(1) id_in_dfs [of c] show False by auto
qed

lemma sibling_scan_visit:
  assumes "distinct (dfs p)" "visit p = as @ c # bs"
  shows "\<exists>i. sibling_scan (tn_children p) (tn_reversed p) (tn_id c) 0 0 = (i, sum_list (map treesize as)) \<and>
     0 \<le> i \<and> nat i < length (tn_children p) \<and> tn_children p ! nat i = c"
proof -
  let ?vs = "if tn_reversed p then rev (tn_children p) else tn_children p"
  let ?k = "length as"
  have vs: "?vs = as @ c # bs" using assms(2) by (simp add: visit_def)
  then have len: "?k < length (tn_children p)" by (metis length_append length_rev list.size(4)
      less_add_Suc1 add_Suc_right)
  have "tn_id (?vs ! ?k) = tn_id c" by (simp add: vs)
  moreover have "tn_id (?vs ! j) \<noteq> tn_id c" if "j < ?k" for j
  proof
    assume "tn_id (?vs ! j) = tn_id c"
    moreover have "?vs ! j = as ! j" using that by (simp add: vs nth_append)
    ultimately have "tn_id c \<in> tn_id ` set as" using that by (metis image_eqI nth_mem)
    with distinct_visit_ids [OF assms] show False by simp
  qed
  ultimately have "sibling_scan (tn_children p) (tn_reversed p) (tn_id c) 0 0 =
      (int (if tn_reversed p then length (tn_children p) - 1 - ?k else ?k),
       0 + sum_list (map treesize (drop 0 (take ?k ?vs))))"
    by (intro sibling_scan_skip [OF refl len]) auto
  moreover have "take ?k ?vs = as" by (simp add: vs)
  moreover have "tn_children p ! (if tn_reversed p then length (tn_children p) - 1 - ?k else ?k) = c"
  proof -
    have "?vs ! ?k = c" by (simp add: vs)
    then show ?thesis using len by (auto simp: rev_nth split: if_splits)
  qed
  ultimately show ?thesis using len by auto
qed

section \<open>Building the rotated list\<close>

definition valid_type :: "gasnete_coll_tree_type \<Rightarrow> nat \<Rightarrow> bool" where
  "valid_type ty n \<longleftrightarrow> (case tree_class ty of
     GASNETE_COLL_NARY_TREE \<Rightarrow> length (params ty) = 1 \<and> params ty ! 0 \<ge> 1
   | GASNETE_COLL_KNOMIAL_TREE \<Rightarrow> length (params ty) = 1 \<and> params ty ! 0 \<ge> 2
   | GASNETE_COLL_RECURSIVE_TREE \<Rightarrow> length (params ty) = 1 \<and> params ty ! 0 \<ge> 2
   | GASNETE_COLL_FLAT_TREE \<Rightarrow> True
   | GASNETE_COLL_FORK_TREE \<Rightarrow> params ty \<noteq> [] \<and> multarr (map nat (params ty)) = n
   | GASNETE_COLL_HIERARCHICAL_TREE \<Rightarrow> False)"

lemma allocate_leaves [simp]: "leaves (allocate_nodes n r)" "length (allocate_nodes n r) = n"
  by (auto simp: leaves_def allocate_nodes_def)

lemma build_tree_dfs:
  assumes "valid_type ty n" "root < n"
  shows "\<exists>t. build_tree ty root n = Some t \<and> dfs t = map (\<lambda>i. (i + root) mod n) [0..<n]"
proof -
  let ?nodes = "allocate_nodes n root"
  have ids: "map tn_id (take n ?nodes) = map (\<lambda>i. (i + root) mod n) [0..<n]"
    by (simp add: allocate_nodes_def)
  have n: "0 < n" using assms(2) by simp
  show ?thesis
  proof (cases "tree_class ty")
    case GASNETE_COLL_FLAT_TREE
    with ids n dfs_flat [of ?nodes n] show ?thesis by (simp add: build_tree_def Let_def)
  next
    case GASNETE_COLL_KNOMIAL_TREE
    with assms(1) have "1 < nat (params ty ! 0)" "length (params ty) = 1" by (auto simp: valid_type_def)
    with ids n GASNETE_COLL_KNOMIAL_TREE knomial.dfs_build [of "nat (params ty ! 0)" ?nodes n] show ?thesis
      by (simp add: build_tree_def Let_def make_knomial_tree_def)
  next
    case GASNETE_COLL_NARY_TREE
    with assms(1) have "0 < nat (params ty ! 0)" "length (params ty) = 1" by (auto simp: valid_type_def)
    with ids n GASNETE_COLL_NARY_TREE nary.dfs_build [of "nat (params ty ! 0)" ?nodes n] show ?thesis
      by (simp add: build_tree_def Let_def)
  next
    case GASNETE_COLL_RECURSIVE_TREE
    with assms(1) have "1 < nat (params ty ! 0)" "\<not> nat (params ty ! 0) \<le> 1" "length (params ty) = 1"
      by (auto simp: valid_type_def)
    with ids n GASNETE_COLL_RECURSIVE_TREE recursive.dfs_build [of "nat (params ty ! 0)" ?nodes n] show ?thesis
      by (simp add: build_tree_def Let_def make_recursive_tree_def)
  next
    case GASNETE_COLL_FORK_TREE
    with assms(1) have "map nat (params ty) \<noteq> []" "multarr (map nat (params ty)) = n"
      by (auto simp: valid_type_def)
    with ids n GASNETE_COLL_FORK_TREE dfs_fork [of ?nodes "map nat (params ty)"] show ?thesis
      by (simp add: build_tree_def Let_def make_fork_tree_def)
  next
    case GASNETE_COLL_HIERARCHICAL_TREE
    with assms(1) show ?thesis by (simp add: valid_type_def)
  qed
qed

text \<open>Positions in the rotated list: the rank at position \<open>k\<close>, and back.\<close>

definition rel_rank :: "nat \<Rightarrow> nat \<Rightarrow> nat \<Rightarrow> nat" where
  "rel_rank n root r = (r + n - root) mod n"

lemma rotated_position:
  assumes "map (\<lambda>i. (i + root) mod n) [0..<n] = pre @ x # post" "root < n"
  shows "x < n" and "rel_rank n root x = length pre"
proof -
  have len: "length pre < n" using arg_cong [OF assms(1), of length] by simp
  then have x: "x = (length pre + root) mod n"
    using arg_cong [OF assms(1), of "\<lambda>l. l ! length pre"] by simp
  show "x < n" using x assms(2) by simp
  show "rel_rank n root x = length pre"
  proof (cases "length pre + root < n")
    case True
    then show ?thesis using x assms(2) len by (simp add: rel_rank_def)
  next
    case False
    then have "x = length pre + root - n" using x len assms(2) by (simp add: mod_if)
    then show ?thesis using False len assms(2) by (simp add: rel_rank_def)
  qed
qed

lemma rotated_set: "root < n \<Longrightarrow> set (map (\<lambda>i. (i + root) mod n) [0..<n]) = {..<n}"
proof
  assume r: "root < n"
  then show "set (map (\<lambda>i. (i + root) mod n) [0..<n]) \<subseteq> {..<n}" by auto
  show "{..<n} \<subseteq> set (map (\<lambda>i. (i + root) mod n) [0..<n])"
  proof
    fix x assume "x \<in> {..<n}"
    then have "x = (rel_rank n root x + root) mod n" "rel_rank n root x < n"
      using r by (simp_all add: rel_rank_def mod_add_left_eq)
    then show "x \<in> set (map (\<lambda>i. (i + root) mod n) [0..<n])" by auto
  qed
qed

lemma rotated_distinct: "root < n \<Longrightarrow> distinct (map (\<lambda>i. (i + root) mod n) [0..<n])"
  by (rule card_distinct) (simp add: rotated_set del: set_map)

section \<open>The local views are consistent\<close>

text \<open>What the local view of a rank says, in terms of the tree.\<close>

lemma geom_of_node:
  assumes ty: "valid_type ty n" and root: "root < n" and r: "r < n"
    and t: "build_tree ty root n = Some t"
  obtains g s where "gasnete_coll_tree_geom_create_local ty root n r = Some g"
    and "subtree s t" "tn_id s = r" "child_list g = map tn_id (tn_children s)"
    and "subtree_sizes g = map treesize (tn_children s)" "mysubtree_size g = treesize s"
    and "child_offset g = (if tn_reversed s then offsets_down else offsets_up) (map treesize (tn_children s))"
    and "r = root \<Longrightarrow> geom_parent g = None \<and> sibling_offset g = 0"
    and "r \<noteq> root \<Longrightarrow> \<exists>p as bs. geom_parent g = Some (tn_id p) \<and> subtree p t \<and> visit p = as @ s # bs \<and>
           sibling_offset g = sum_list (map treesize as) \<and> num_siblings g = length (tn_children p) \<and>
           parent_subtree_size g = treesize p \<and> 0 \<le> sibling_id g \<and>
           nat (sibling_id g) < length (tn_children p) \<and> tn_children p ! nat (sibling_id g) = s"
proof -
  have dfs: "dfs t = map (\<lambda>i. (i + root) mod n) [0..<n]" using build_tree_dfs [OF ty root] t by simp
  have dist: "distinct (dfs t)" unfolding dfs by (rule rotated_distinct [OF root])
  have "r \<in> set (dfs t)" unfolding dfs rotated_set [OF root] using r by simp
  then have "find_node t r \<noteq> None" using find_node_None(1) by blast
  then obtain s where s: "find_node t r = Some s" by auto
  from find_node_subtree(1) [OF s] have sub: "subtree s t" "tn_id s = r" by auto
  have "hd (dfs t) = root" using root by (simp add: dfs hd_map)
  then have tid: "tn_id t = root" by (simp add: dfs_visit [of t])
  let ?g = "gasnete_coll_tree_geom_create_local ty root n r"
  show thesis
  proof (cases "r = root")
    case True
    then have "map_of (setparents t) (tn_id s) = Some None" using root_link [of t] sub(2) tid by simp
    with s t root True show thesis
      by (intro that [of "the ?g" s])
         (simp_all add: gasnete_coll_tree_geom_create_local_def Let_def sub treesize_opt_def)
  next
    case False
    then obtain p where p: "map_of (setparents t) (tn_id s) = Some (Some p)" "subtree p t" "s \<in> set (tn_children p)"
      using parent_link [OF dist sub(1)] sub(2) tid by metis
    have "s \<in> set (visit p)" using p(3) by (simp add: visit_def)
    then obtain as bs where v: "visit p = as @ s # bs" by (auto dest: split_list)
    obtain pre post where "dfs t = pre @ dfs p @ post" using subtree_segment [OF p(2)] by blast
    then have "distinct (dfs p)" using dist by simp
    from sibling_scan_visit [OF this v] obtain i where
      i: "sibling_scan (tn_children p) (tn_reversed p) r 0 0 = (i, sum_list (map treesize as))"
      "0 \<le> i" "nat i < length (tn_children p)" "tn_children p ! nat i = s" by (auto simp: sub(2))
    with s t root False p v show thesis
      by (intro that [of "the ?g" s])
         (auto simp: gasnete_coll_tree_geom_create_local_def Let_def sub treesize_opt_def)
  qed
qed

lemma sizes_concat: "sum_list (map treesize ts) = length (concat (map dfs ts))"
  by (induction ts) (simp_all add: treesize_dfs)

text \<open>The offset of a child is the size of the subtrees visited before it.\<close>

lemma child_offset_visit:
  assumes "i < length (tn_children s)"
  shows "\<exists>as bs. visit s = as @ tn_children s ! i # bs \<and>
    (if tn_reversed s then offsets_down else offsets_up) (map treesize (tn_children s)) ! i =
      sum_list (map treesize as)"
proof (cases "tn_reversed s")
  case True
  let ?cs = "tn_children s"
  have "?cs = take i ?cs @ ?cs ! i # drop (Suc i) ?cs" using assms by (simp add: id_take_nth_drop)
  then have "rev ?cs = rev (drop (Suc i) ?cs) @ ?cs ! i # rev (take i ?cs)"
    by (metis append_Cons append_Nil append_assoc rev.simps(2) rev_append)
  then have "visit s = rev (drop (Suc i) ?cs) @ ?cs ! i # rev (take i ?cs)"
    using True by (simp add: visit_def)
  moreover have "offsets_down (map treesize ?cs) ! i = sum_list (map treesize (rev (drop (Suc i) ?cs)))"
    using assms by (simp add: offsets_down_def drop_map rev_map [symmetric] sum_list_rev del: rev_map)
  ultimately show ?thesis using True by auto
next
  case False
  let ?cs = "tn_children s"
  have "visit s = take i ?cs @ ?cs ! i # drop (Suc i) ?cs"
    using False assms by (simp add: visit_def id_take_nth_drop)
  moreover have "offsets_up (map treesize ?cs) ! i = sum_list (map treesize (take i ?cs))"
    using assms by (simp add: offsets_up_def take_map)
  ultimately show ?thesis using False by auto
qed

text \<open>The position of a subtree among the rotated ranks.\<close>

lemma node_position:
  assumes "valid_type ty n" "root < n" "build_tree ty root n = Some t"
    and "subtree p t" "visit p = as @ c # bs"
  shows "tn_id c < n" and "tn_id p < n"
    and "rel_rank n root (tn_id c) = rel_rank n root (tn_id p) + 1 + sum_list (map treesize as)"
proof -
  have dfs: "dfs t = map (\<lambda>i. (i + root) mod n) [0..<n]"
    using build_tree_dfs [OF assms(1,2)] assms(3) by simp
  obtain pre post where seg: "dfs t = pre @ dfs p @ post" using subtree_segment [OF assms(4)] by blast
  have "dfs t = pre @ tn_id p # (concat (map dfs (visit p)) @ post)"
    by (simp add: seg dfs_visit [of p])
  from rotated_position [OF this [unfolded dfs] assms(2)]
  have p: "tn_id p < n" "rel_rank n root (tn_id p) = length pre" by auto
  have "dfs t = (pre @ tn_id p # concat (map dfs as)) @ tn_id c # (concat (map dfs (visit c)) @ concat (map dfs bs) @ post)"
    by (simp add: seg dfs_visit [of p] assms(5) dfs_visit [of c])
  from rotated_position [OF this [unfolded dfs] assms(2)] p
  show "tn_id c < n" "tn_id p < n"
    "rel_rank n root (tn_id c) = rel_rank n root (tn_id p) + 1 + sum_list (map treesize as)"
    by (simp_all add: sizes_concat)
qed

section \<open>Properties\<close>

text \<open>
  C9. Every tree builder, for every valid type, root and team size, yields a tree over all ranks whose
  depth-first order is the ranks in order from the root on, wrapping around.
\<close>

theorem build_tree_lists_ranks:
  assumes "valid_type ty n" and "root < n"
  shows "\<exists>t. build_tree ty root n = Some t \<and> dfs t = map (\<lambda>i. (i + root) mod n) [0..<n]"
  by (rule build_tree_dfs [OF assms])

theorem build_tree_lists_ranks_witness:
  "\<exists>t. build_tree \<lparr>tree_class = GASNETE_COLL_FORK_TREE, params = [2, 3]\<rparr> 4 6 = Some t \<and>
     dfs t = [4, 5, 0, 1, 2, 3]"
  using build_tree_lists_ranks [of "\<lparr>tree_class = GASNETE_COLL_FORK_TREE, params = [2, 3]\<rparr>" 6 4]
  by (simp add: valid_type_def upt_rec)

text \<open>
  The local view of every rank but the root names a parent, and the position of the rank in the
  traversal order is the parent's position, plus one, plus the sibling offset: the data of a rank's
  subtree starts at that offset in its parent's buffer.
\<close>

theorem geom_parent_offset:
  assumes "valid_type ty n" and "root < n" and "r < n" and "r \<noteq> root"
  shows "\<exists>g q. gasnete_coll_tree_geom_create_local ty root n r = Some g \<and> geom_parent g = Some q \<and> q < n \<and>
     rel_rank n root r = rel_rank n root q + 1 + sibling_offset g"
proof -
  obtain t where t: "build_tree ty root n = Some t" using build_tree_dfs [OF assms(1,2)] by blast
  from geom_of_node [OF assms(1-3) t] obtain g s p as bs where
    g: "gasnete_coll_tree_geom_create_local ty root n r = Some g" "tn_id s = r"
      "geom_parent g = Some (tn_id p)" "subtree p t" "visit p = as @ s # bs"
      "sibling_offset g = sum_list (map treesize as)"
    using assms(4) by metis
  from node_position [OF assms(1,2) t g(4,5)] g show ?thesis by auto
qed

theorem geom_parent_offset_witness:
  "\<exists>g q. gasnete_coll_tree_geom_create_local \<lparr>tree_class = GASNETE_COLL_KNOMIAL_TREE, params = [2]\<rparr> 1 5 4 = Some g \<and>
     geom_parent g = Some q \<and> q < 5 \<and> 3 = rel_rank 5 1 q + 1 + sibling_offset g"
  using geom_parent_offset [of "\<lparr>tree_class = GASNETE_COLL_KNOMIAL_TREE, params = [2]\<rparr>" 5 1 4]
  by (simp add: valid_type_def rel_rank_def)

text \<open>
  C10. The local views agree: a rank listed as a child names this rank as its parent, finds itself under
  its sibling number in the list, and its subtree size and offset are the ones listed here, which
  place it behind the subtrees visited before it.
\<close>

theorem geom_children_agree:
  assumes "valid_type ty n" and "root < n" and "r < n"
    and "gasnete_coll_tree_geom_create_local ty root n r = Some g" and "i < length (child_list g)"
    and "c = child_list g ! i"
  shows "c < n \<and> rel_rank n root c = rel_rank n root r + 1 + child_offset g ! i \<and>
     (\<exists>g'. gasnete_coll_tree_geom_create_local ty root n c = Some g' \<and> geom_parent g' = Some r \<and>
       sibling_offset g' = child_offset g ! i \<and> mysubtree_size g' = subtree_sizes g ! i \<and>
       child_list g ! nat (sibling_id g') = c)"
proof -
  obtain t where t: "build_tree ty root n = Some t" using build_tree_dfs [OF assms(1,2)] by blast
  then have dfs: "dfs t = map (\<lambda>i. (i + root) mod n) [0..<n]"
    using build_tree_dfs [OF assms(1,2)] by simp
  have dist: "distinct (dfs t)" unfolding dfs by (rule rotated_distinct [OF assms(2)])
  obtain s where s: "subtree s t" "tn_id s = r" "child_list g = map tn_id (tn_children s)"
    "subtree_sizes g = map treesize (tn_children s)"
    "child_offset g = (if tn_reversed s then offsets_down else offsets_up) (map treesize (tn_children s))"
    using geom_of_node [OF assms(1-3) t] assms(4) by (metis option.inject)
  let ?d = "tn_children s ! i"
  have i: "i < length (tn_children s)" using assms(5) s(3) by simp
  then have cd: "c = tn_id ?d" and mem: "?d \<in> set (tn_children s)" by (simp_all add: assms(6) s(3))
  from child_offset_visit [OF i] obtain as bs where
    v: "visit s = as @ ?d # bs" and off: "child_offset g ! i = sum_list (map treesize as)"
    by (auto simp: s(5))
  note pos = node_position [OF assms(1,2) t s(1) v]
  have c: "c < n" using pos(1) cd by simp
  have "rel_rank n root c \<noteq> 0" using pos(3) cd by simp
  then have "c \<noteq> root" by (auto simp: rel_rank_def)
  with geom_of_node [OF assms(1,2) c t] obtain g' d p as' bs' where
    g': "gasnete_coll_tree_geom_create_local ty root n c = Some g'" "subtree d t" "tn_id d = c"
      "mysubtree_size g' = treesize d" "geom_parent g' = Some (tn_id p)" "subtree p t"
      "visit p = as' @ d # bs'" "sibling_offset g' = sum_list (map treesize as')"
      "0 \<le> sibling_id g'" "nat (sibling_id g') < length (tn_children p)" "tn_children p ! nat (sibling_id g') = d"
    by metis
  have dd: "d = ?d"
    using subtree_unique [OF dist g'(2) child_subtree [OF s(1) mem]] g'(3) cd by simp
  have "d \<in> set (visit p)" by (simp add: g'(7))
  then have "d \<in> set (tn_children p)" by (simp add: visit_def split: if_splits)
  then have ps: "p = s" using parent_unique [OF dist g'(6) s(1)] mem dd by blast
  have "rel_rank n root c = rel_rank n root r + 1 + sibling_offset g'"
    using node_position(3) [OF assms(1,2) t g'(6,7)] g'(3,8) ps s(2) by simp
  then have "sibling_offset g' = child_offset g ! i" using pos(3) cd off s(2) by simp
  moreover have "child_list g ! nat (sibling_id g') = c" using g'(10,11) g'(3) by (simp add: s(3) ps)
  ultimately show ?thesis
    using c pos(3) cd off s(2,4) g'(1,4,5) ps i dd by (intro conjI exI [of _ g']) simp_all
qed

theorem geom_children_agree_witness:
  "\<exists>g g'. gasnete_coll_tree_geom_create_local \<lparr>tree_class = GASNETE_COLL_FLAT_TREE, params = []\<rparr> 0 3 0 = Some g \<and>
     child_list g = [1, 2] \<and>
     gasnete_coll_tree_geom_create_local \<lparr>tree_class = GASNETE_COLL_FLAT_TREE, params = []\<rparr> 0 3 2 = Some g' \<and>
     geom_parent g' = Some 0 \<and> sibling_offset g' = 1"
proof -
  let ?ty = "\<lparr>tree_class = GASNETE_COLL_FLAT_TREE, params = []\<rparr>"
  have v: "valid_type ?ty 3" by (simp add: valid_type_def)
  have "map_option (\<lambda>g. (child_list g, child_offset g)) (gasnete_coll_tree_geom_create_local ?ty 0 3 0) =
      Some ([1, 2], [0, 1])"
    by code_simp
  then obtain g where g: "gasnete_coll_tree_geom_create_local ?ty 0 3 0 = Some g"
    and l: "child_list g = [1, 2]" "child_offset g = [0, 1]" by blast
  have "1 < length (child_list g)" "2 = child_list g ! 1" by (simp_all add: l)
  from geom_children_agree [OF v _ _ g this]
  obtain g' where "gasnete_coll_tree_geom_create_local ?ty 0 3 2 = Some g'"
    and "geom_parent g' = Some 0" and "sibling_offset g' = child_offset g ! 1" by auto
  then have "sibling_offset g' = 1" by (simp add: l)
  then show ?thesis using g l(1) \<open>geom_parent g' = Some 0\<close>
      \<open>gasnete_coll_tree_geom_create_local ?ty 0 3 2 = Some g'\<close> by blast
qed

lemma leaf_split:
  "length (filter ((<) (Suc 0) \<circ> f) xs) + length (filter ((\<lambda>s. \<not> Suc 0 < s) \<circ> f) xs) = length xs"
  by (induction xs) auto

text \<open>
  The sizes add up: a rank's subtree is itself and its children's subtrees, the children are split
  into leaves and inner nodes, and the root's subtree is the whole team.
\<close>

theorem geom_sizes:
  assumes "valid_type ty n" and "root < n" and "r < n"
    and "gasnete_coll_tree_geom_create_local ty root n r = Some g"
  shows "mysubtree_size g = 1 + sum_list (subtree_sizes g) \<and>
     num_leaf_children g + num_non_leaf_children g = child_count g \<and>
     length (child_list g) = child_count g \<and> (r = root \<longrightarrow> mysubtree_size g = n)"
proof -
  obtain t where t: "build_tree ty root n = Some t" using build_tree_dfs [OF assms(1,2)] by blast
  then have dfs: "dfs t = map (\<lambda>i. (i + root) mod n) [0..<n]"
    using build_tree_dfs [OF assms(1,2)] by simp
  obtain s where s: "subtree s t" "tn_id s = r" "child_list g = map tn_id (tn_children s)"
    "subtree_sizes g = map treesize (tn_children s)" "mysubtree_size g = treesize s"
    using geom_of_node [OF assms(1-3) t] assms(4) by (metis option.inject)
  have "mysubtree_size g = 1 + sum_list (subtree_sizes g)" using s(4,5) by (cases s) simp
  moreover have "num_leaf_children g + num_non_leaf_children g = child_count g" "child_count g = length (child_list g)"
    using assms(4)
    by (auto simp: gasnete_coll_tree_geom_create_local_def Let_def leaf_split add.commute
        leaf_split [unfolded add.commute [of "length (filter ((<) (Suc 0) \<circ> f) xs)" for f xs]]
        split: if_splits option.splits prod.splits)
  moreover have "mysubtree_size g = n" if "r = root"
  proof -
    have "hd (dfs t) = root" using assms(2) by (simp add: dfs hd_map)
    then have "tn_id t = root" by (simp add: dfs_visit [of t])
    then have "s = t"
      using subtree_unique [of t s t] rotated_distinct [OF assms(2)] s(1,2) that dfs
      by (metis subtree_refl)
    then show ?thesis using s(5) by (simp add: treesize_dfs dfs)
  qed
  ultimately show ?thesis by auto
qed

theorem geom_sizes_witness:
  "\<exists>g. gasnete_coll_tree_geom_create_local \<lparr>tree_class = GASNETE_COLL_NARY_TREE, params = [3]\<rparr> 2 7 2 = Some g \<and>
     mysubtree_size g = 7"
proof -
  let ?ty = "\<lparr>tree_class = GASNETE_COLL_NARY_TREE, params = [3]\<rparr>"
  have v: "valid_type ?ty 7" by (simp add: valid_type_def)
  obtain t where t: "build_tree ?ty 2 7 = Some t" using build_tree_dfs [OF v, of 2] by auto
  obtain g where "gasnete_coll_tree_geom_create_local ?ty 2 7 2 = Some g"
    using geom_of_node [OF v _ _ t, of 2] by auto
  with geom_sizes [OF v, of 2 2 g] show ?thesis by auto
qed

end
