(* ===== verification/Linked_List.thy ===== *)
theory Linked_List
  imports Gasnet_Prelude "HOL-Library.Monad_Syntax"
begin

text \<open>
  Doubly linked lists in memory, as the geometry cache, the dissemination cache and the scratch
  allocator of the collectives keep them: cells with a next and a previous pointer at addresses
  (natural numbers), a null pointer as \<open>None\<close>, an access through a null or dangling pointer as a
  failed operation. \<open>seg\<close> says which list of addresses a chain of cells denotes.
\<close>

section \<open>Cells and accesses\<close>

record list_links =
  lk_next :: "nat option"
  lk_prev :: "nat option"

type_synonym 'a cells = "nat \<Rightarrow> 'a list_links_scheme option"

definition deref :: "'a cells \<Rightarrow> nat option \<Rightarrow> 'a list_links_scheme option" where
  "deref m a = (case a of None \<Rightarrow> None | Some p \<Rightarrow> m p)"

definition set_next :: "nat option \<Rightarrow> nat option \<Rightarrow> 'a cells \<Rightarrow> 'a cells option" where
  "set_next a v m = (case a of None \<Rightarrow> None
     | Some p \<Rightarrow> (case m p of None \<Rightarrow> None | Some g \<Rightarrow> Some (m(p \<mapsto> g\<lparr>lk_next := v\<rparr>))))"

definition set_prev :: "nat option \<Rightarrow> nat option \<Rightarrow> 'a cells \<Rightarrow> 'a cells option" where
  "set_prev a v m = (case a of None \<Rightarrow> None
     | Some p \<Rightarrow> (case m p of None \<Rightarrow> None | Some g \<Rightarrow> Some (m(p \<mapsto> g\<lparr>lk_prev := v\<rparr>))))"

lemma access_simps [simp]:
  "deref m (Some p) = m p"
  "m p = Some g \<Longrightarrow> set_next (Some p) v m = Some (m(p \<mapsto> g\<lparr>lk_next := v\<rparr>))"
  "m p = Some g \<Longrightarrow> set_prev (Some p) v m = Some (m(p \<mapsto> g\<lparr>lk_prev := v\<rparr>))"
  by (simp_all add: deref_def set_next_def set_prev_def)

section \<open>Segments\<close>

definition head_or :: "nat list \<Rightarrow> nat option \<Rightarrow> nat option" where
  "head_or xs nx = (case xs of [] \<Rightarrow> nx | y # ys \<Rightarrow> Some y)"

definition last_or :: "nat option \<Rightarrow> nat list \<Rightarrow> nat option" where
  "last_or pv xs = (if xs = [] then pv else Some (last xs))"

fun seg :: "'a cells \<Rightarrow> nat option \<Rightarrow> nat list \<Rightarrow> nat option \<Rightarrow> bool" where
  "seg m pv [] nx \<longleftrightarrow> True"
| "seg m pv (x # xs) nx \<longleftrightarrow> (\<exists>g. m x = Some g \<and> lk_prev g = pv \<and> lk_next g = head_or xs nx) \<and> seg m (Some x) xs nx"

lemma head_or_simps [simp]: "head_or [] nx = nx" "head_or (x # xs) nx = Some x"
  "head_or (xs @ ys) nx = head_or xs (head_or ys nx)"
  by (simp_all add: head_or_def split: list.split)

lemma last_or_simps [simp]: "last_or pv [] = pv" "last_or pv (x # xs) = last_or (Some x) xs"
  "last_or pv (xs @ [x]) = Some x"
  by (auto simp: last_or_def)

lemma last_or_append [simp]: "last_or pv (xs @ ys) = last_or (last_or pv xs) ys"
  by (auto simp: last_or_def)

lemma seg_append: "seg m pv (xs @ ys) nx \<longleftrightarrow> seg m pv xs (head_or ys nx) \<and> seg m (last_or pv xs) ys nx"
  by (induction xs arbitrary: pv) auto

lemma seg_off: "x \<notin> set xs \<Longrightarrow> seg (m(x := v)) pv xs nx = seg m pv xs nx"
  by (induction xs arbitrary: pv) auto

lemma seg_cell: "seg m pv xs nx \<Longrightarrow> x \<in> set xs \<Longrightarrow> \<exists>g. m x = Some g"
  by (induction xs arbitrary: pv) auto

lemma seg_prev:
  "seg m pv (x # xs) nx \<Longrightarrow> x \<notin> set xs \<Longrightarrow> m x = Some g \<Longrightarrow> seg (m(x \<mapsto> g\<lparr>lk_prev := v\<rparr>)) v (x # xs) nx"
  by (simp add: seg_off)

lemma seg_next:
  "seg m pv (xs @ [x]) nx \<Longrightarrow> x \<notin> set xs \<Longrightarrow> m x = Some g \<Longrightarrow> seg (m(x \<mapsto> g\<lparr>lk_next := v\<rparr>)) pv (xs @ [x]) v"
  by (simp add: seg_append seg_off)

lemma seg_data:
  "seg m pv xs nx \<Longrightarrow> m x = Some g \<Longrightarrow> lk_next h = lk_next g \<Longrightarrow> lk_prev h = lk_prev g \<Longrightarrow>
   seg (m(x \<mapsto> h)) pv xs nx"
  by (induction xs arbitrary: pv) auto

text \<open>Cells keep what they hold beside their links.\<close>

definition same_data :: "'a cells \<Rightarrow> 'a cells \<Rightarrow> bool" where
  "same_data m m' \<longleftrightarrow> (\<forall>x. map_option list_links.more (m' x) = map_option list_links.more (m x))"

lemma same_data_refl: "same_data m m"
  by (simp add: same_data_def)

lemma same_data_trans: "same_data a b \<Longrightarrow> same_data b c \<Longrightarrow> same_data a c"
  by (simp add: same_data_def)

lemma same_data_next: "m x = Some g \<Longrightarrow> same_data m (m(x \<mapsto> g\<lparr>lk_next := v\<rparr>))"
  by (simp add: same_data_def)

lemma same_data_prev: "m x = Some g \<Longrightarrow> same_data m (m(x \<mapsto> g\<lparr>lk_prev := v\<rparr>))"
  by (simp add: same_data_def)

lemma same_data_dom: "same_data m m' \<Longrightarrow> dom m' = dom m"
proof -
  assume a: "same_data m m'"
  have "m' x = None \<longleftrightarrow> m x = None" for x
    using a unfolding same_data_def by (metis option.map_disc_iff)
  then show ?thesis by (auto simp: dom_def)
qed

section \<open>Lists\<close>

text \<open>A list from a head pointer to a tail pointer.\<close>

definition dll :: "'a cells \<Rightarrow> nat option \<Rightarrow> nat option \<Rightarrow> nat list \<Rightarrow> bool" where
  "dll m hd' tl' xs \<longleftrightarrow> seg m None xs None \<and> distinct xs \<and> hd' = head_or xs None \<and> tl' = last_or None xs"

lemma dll_cell: "dll m h t xs \<Longrightarrow> x \<in> set xs \<Longrightarrow> \<exists>g. m x = Some g"
  by (auto simp: dll_def dest: seg_cell)

lemma dll_data:
  "dll m h t xs \<Longrightarrow> m x = Some g \<Longrightarrow> lk_next k = lk_next g \<Longrightarrow> lk_prev k = lk_prev g \<Longrightarrow>
   dll (m(x \<mapsto> k)) h t xs"
  by (simp add: dll_def seg_data)

text \<open>The neighbours of a cell.\<close>

lemma dll_split:
  assumes "dll m h t (as @ p # bs)"
  obtains g where "m p = Some g" "lk_prev g = last_or None as" "lk_next g = head_or bs None"
    "seg m None as (Some p)" "seg m (Some p) bs None" "p \<notin> set as" "p \<notin> set bs" "distinct as" "distinct bs"
    "set as \<inter> set bs = {}"
  using assms by (auto simp: dll_def seg_append)

lemma dll_push:
  assumes "dll m h t xs" and "p \<notin> set xs" and "m' p = Some g" "lk_prev g = None" "lk_next g = h"
    and "seg m' (Some p) xs None"
  shows "dll m' (Some p) (last_or (Some p) xs) (p # xs)"
  using assms by (simp add: dll_def)

end
