(* ===== verification/Tree_Cache.thy ===== *)
theory Tree_Cache
  imports Tree_Geometry Linked_List
begin

text \<open>
  The cache of tree geometries of a team (\<^verbatim>\<open>extended-ref/coll/gasnet_trees.c\<close>): a doubly
  linked list of geometries, most recently used first, each with the local views built so far, one
  for each root. \<open>None\<close> stands for an access through a bad pointer or index and for a fatal error
  in the construction of a tree; \<open>tc_brk\<close> is the next address that the allocator hands out.
\<close>

section \<open>The cache\<close>

record gasnete_coll_tree_geom = list_links +
  local_views :: "gasnete_coll_local_tree_geom option list"
  tree_type :: gasnete_coll_tree_type

record tree_cache =
  tc_mem :: "nat \<Rightarrow> gasnete_coll_tree_geom option"
  tc_brk :: nat
  tree_geom_cache_head :: "nat option"
  tree_geom_cache_tail :: "nat option"

definition empty_cache :: tree_cache where
  "empty_cache = \<lparr>tc_mem = (\<lambda>_. None), tc_brk = 0, tree_geom_cache_head = None, tree_geom_cache_tail = None\<rparr>"

text \<open>The loop of the search: the first cell whose type equals the given one.\<close>

partial_function (option) geom_search ::
  "(nat \<Rightarrow> gasnete_coll_tree_geom option) \<Rightarrow> gasnete_coll_tree_type \<Rightarrow> nat option \<Rightarrow> nat option option" where
  "geom_search m in_type curr_geom = (case curr_geom of
     None \<Rightarrow> Some None
   | Some p \<Rightarrow> (case m p of None \<Rightarrow> None
      | Some g \<Rightarrow> if gasnete_coll_compare_tree_types (Some in_type) (Some (tree_type g)) then Some (Some p)
                 else geom_search m in_type (lk_next g)))"

definition geom_unlink :: "nat \<Rightarrow> tree_cache \<Rightarrow> tree_cache option" where
  "geom_unlink p c =
     (if Some p = tree_geom_cache_tail c then
        do { g \<leftarrow> tc_mem c p;
             m \<leftarrow> set_next (lk_prev g) None (tc_mem c);
             Some (c\<lparr>tc_mem := m, tree_geom_cache_tail := lk_prev g\<rparr>) }
      else
        do { g \<leftarrow> tc_mem c p;
             m \<leftarrow> set_prev (lk_next g) (lk_prev g) (tc_mem c);
             g' \<leftarrow> m p;
             m' \<leftarrow> set_next (lk_prev g') (lk_next g') m;
             Some (c\<lparr>tc_mem := m'\<rparr>) })"

definition geom_to_front :: "nat \<Rightarrow> tree_cache \<Rightarrow> tree_cache option" where
  "geom_to_front p c =
     (if Some p \<noteq> tree_geom_cache_head c then
        do { c1 \<leftarrow> geom_unlink p c;
             m \<leftarrow> set_next (Some p) (tree_geom_cache_head c1) (tc_mem c1);
             m1 \<leftarrow> set_prev (Some p) None m;
             m2 \<leftarrow> set_prev (tree_geom_cache_head c1) (Some p) m1;
             Some (c1\<lparr>tc_mem := m2, tree_geom_cache_head := Some p\<rparr>) }
      else Some c)"

definition gasnete_coll_tree_geom_fetch_helper ::
  "gasnete_coll_tree_type \<Rightarrow> tree_cache \<Rightarrow> (nat option \<times> tree_cache) option" where
  "gasnete_coll_tree_geom_fetch_helper in_type c =
     do { r \<leftarrow> geom_search (tc_mem c) in_type (tree_geom_cache_head c);
          case r of None \<Rightarrow> Some (None, c)
          | Some p \<Rightarrow> do { c1 \<leftarrow> geom_to_front p c; Some (Some p, c1) } }"

definition fill_view ::
  "nat \<Rightarrow> gasnete_coll_tree_type \<Rightarrow> nat \<Rightarrow> nat \<Rightarrow> nat \<Rightarrow> tree_cache \<Rightarrow> tree_cache option" where
  "fill_view p type root total_ranks myrank c =
     do { v \<leftarrow> gasnete_coll_tree_geom_create_local type root total_ranks myrank;
          g \<leftarrow> tc_mem c p;
          if root < length (local_views g)
          then Some (c\<lparr>tc_mem := (tc_mem c)(p \<mapsto> g\<lparr>local_views := (local_views g)[root := Some v]\<rparr>)\<rparr>)
          else None }"

definition get_view :: "nat \<Rightarrow> nat \<Rightarrow> tree_cache \<Rightarrow> gasnete_coll_local_tree_geom option option" where
  "get_view p root c =
     do { g \<leftarrow> tc_mem c p; if root < length (local_views g) then Some (local_views g ! root) else None }"

text \<open>A fresh geometry becomes the head of the list.\<close>

definition geom_insert :: "gasnete_coll_tree_type \<Rightarrow> nat \<Rightarrow> tree_cache \<Rightarrow> tree_cache option" where
  "geom_insert type total_ranks c =
     (let p = tc_brk c; geom_cache_head = tree_geom_cache_head c;
          curr_geom = \<lparr>lk_next = None, lk_prev = None, local_views = replicate total_ranks None, tree_type = type\<rparr>
      in case geom_cache_head of
        None \<Rightarrow> Some \<lparr>tc_mem = (tc_mem c)(p \<mapsto> curr_geom), tc_brk = Suc p,
                  tree_geom_cache_head = Some p, tree_geom_cache_tail = Some p\<rparr>
      | Some h \<Rightarrow> do { m \<leftarrow> set_prev (Some h) (Some p) ((tc_mem c)(p \<mapsto> curr_geom\<lparr>lk_next := Some h\<rparr>));
                  Some (c\<lparr>tc_mem := m, tc_brk := Suc p, tree_geom_cache_head := Some p\<rparr>) })"

definition gasnete_coll_local_tree_geom_fetch ::
  "nat \<Rightarrow> nat \<Rightarrow> gasnete_coll_tree_type \<Rightarrow> nat \<Rightarrow> tree_cache \<Rightarrow> (gasnete_coll_local_tree_geom \<times> tree_cache) option" where
  "gasnete_coll_local_tree_geom_fetch total_ranks myrank type root c =
     do { (r, c1) \<leftarrow> gasnete_coll_tree_geom_fetch_helper type c;
          c3 \<leftarrow> (case r of
              None \<Rightarrow> do { c2 \<leftarrow> geom_insert type total_ranks c1;
                           fill_view (tc_brk c1) type root total_ranks myrank c2 }
            | Some p \<Rightarrow> do { v \<leftarrow> get_view p root c1;
                             if v = None then fill_view p type root total_ranks myrank c1 else Some c1 });
          v \<leftarrow> get_view (case r of None \<Rightarrow> tc_brk c1 | Some p \<Rightarrow> p) root c3;
          ret \<leftarrow> v;
          Some (ret, c3) }"

text \<open>The purge frees every geometry; a second free of the same cell would be an access to nothing.\<close>

partial_function (option) geom_free_all ::
  "nat option \<Rightarrow> (nat \<Rightarrow> gasnete_coll_tree_geom option) \<Rightarrow> (nat \<Rightarrow> gasnete_coll_tree_geom option) option" where
  "geom_free_all temp m = (case temp of
     None \<Rightarrow> Some m
   | Some p \<Rightarrow> (case m p of None \<Rightarrow> None | Some g \<Rightarrow> geom_free_all (lk_next g) (m(p := None))))"

definition gasnete_coll_local_tree_geom_purge :: "tree_cache \<Rightarrow> tree_cache option" where
  "gasnete_coll_local_tree_geom_purge c =
     do { m \<leftarrow> geom_free_all (tree_geom_cache_head c) (tc_mem c); Some (c\<lparr>tc_mem := m\<rparr>) }"

section \<open>The list\<close>

lemma compare_types [simp]: "gasnete_coll_compare_tree_types (Some a) (Some b) \<longleftrightarrow> a = b"
proof -
  have "params_equal xs ys (length xs) \<longleftrightarrow> xs = ys" if "length xs = length ys" for xs ys
    using that by (induction xs ys rule: list_induct2) auto
  then show ?thesis by (cases a; cases b) (auto simp: gasnete_coll_compare_tree_types_def)
qed

definition cache_list :: "tree_cache \<Rightarrow> nat list \<Rightarrow> bool" where
  "cache_list c ps \<longleftrightarrow> dll (tc_mem c) (tree_geom_cache_head c) (tree_geom_cache_tail c) ps"

text \<open>
  The order of the list after a hit: the cell moves to the front, nothing else changes.
\<close>

lemma to_front_spec:
  assumes c: "cache_list c (as @ p # bs)"
  shows "\<exists>c'. geom_to_front p c = Some c' \<and> cache_list c' (p # as @ bs) \<and>
     same_data (tc_mem c) (tc_mem c') \<and> tc_brk c' = tc_brk c"
proof (cases as rule: rev_cases)
  case Nil
  then have "tree_geom_cache_head c = Some p" using c by (simp add: cache_list_def dll_def)
  then show ?thesis using c Nil by (simp add: geom_to_front_def same_data_refl)
next
  case (snoc as' q)
  let ?m = "tc_mem c"
  from c obtain g where g: "?m p = Some g" "lk_prev g = last_or None as" "lk_next g = head_or bs None"
    "seg ?m None as (Some p)" "seg ?m (Some p) bs None" "p \<notin> set as" "p \<notin> set bs" "distinct as" "distinct bs"
    "set as \<inter> set bs = {}"
    unfolding cache_list_def by (rule dll_split)
  have pg: "lk_prev g = Some q" using g(2) snoc by simp
  have "as \<noteq> []" using snoc by simp
  then obtain h as'' where h: "as = h # as''" by (cases as) auto
  have hd: "tree_geom_cache_head c = Some h" using c h by (simp add: cache_list_def dll_def)
  have hp: "h \<noteq> p" using g(6) h by auto
  obtain gq where gq: "?m q = Some gq" using seg_cell [OF g(4), of q] snoc by auto
  have qp: "q \<noteq> p" "q \<notin> set as'" "q \<notin> set bs" using g(6,8,10) snoc by auto
  have "\<exists>c1. geom_unlink p c = Some c1 \<and> seg (tc_mem c1) None as (head_or bs None) \<and>
      seg (tc_mem c1) (last_or None as) bs None \<and> same_data ?m (tc_mem c1) \<and> tc_brk c1 = tc_brk c \<and>
      tree_geom_cache_head c1 = tree_geom_cache_head c \<and> tree_geom_cache_tail c1 = last_or None (as @ bs) \<and>
      tc_mem c1 p = Some g"
  proof (cases bs)
    case Nil
    then have tl: "tree_geom_cache_tail c = Some p" using c by (simp add: cache_list_def dll_def)
    have "seg (?m(q \<mapsto> gq\<lparr>lk_next := None\<rparr>)) None (as' @ [q]) None"
      using g(4) gq qp snoc by (intro seg_next) auto
    then show ?thesis using tl g(1) pg gq qp Nil snoc
      by (simp add: geom_unlink_def same_data_next)
  next
    case (Cons b bs')
    have tl: "tree_geom_cache_tail c \<noteq> Some p"
    proof
      assume "tree_geom_cache_tail c = Some p"
      then have "last (b # bs') = p" using c Cons by (simp add: cache_list_def dll_def last_or_def)
      then show False using g(7) Cons last_in_set [of "b # bs'"] by (metis list.distinct(1))
    qed
    obtain gb where gb: "?m b = Some gb" using seg_cell [OF g(5), of b] Cons by auto
    have bq: "b \<noteq> q" "b \<noteq> p" "b \<notin> set as" "b \<notin> set bs'" using qp g(7,9,10) Cons by auto
    let ?m1 = "?m(b \<mapsto> gb\<lparr>lk_prev := Some q\<rparr>)"
    let ?m2 = "?m1(q \<mapsto> gq\<lparr>lk_next := Some b\<rparr>)"
    have s1: "seg ?m1 (Some q) bs None" unfolding Cons
      using g(5) gb bq Cons by (intro seg_prev) auto
    then have "seg ?m2 (Some q) bs None" using qp by (simp add: seg_off)
    moreover have "seg ?m1 None as (Some p)" using g(4) bq by (simp add: seg_off)
    then have "seg ?m2 None (as' @ [q]) (Some b)"
      using gq qp bq snoc by (intro seg_next [of ?m1]) auto
    moreover have "same_data ?m ?m2"
    proof (rule same_data_trans)
      show "same_data ?m ?m1" using gb by (rule same_data_prev)
      show "same_data ?m1 ?m2" by (rule same_data_next) (use gq bq in simp)
    qed
    moreover have "geom_unlink p c = Some (c\<lparr>tc_mem := ?m2\<rparr>)"
      using tl g(1,3) pg gb gq bq qp Cons by (simp add: geom_unlink_def)
    moreover have "tree_geom_cache_tail c = last_or None (as @ bs)"
      using c Cons by (simp add: cache_list_def dll_def)
    ultimately show ?thesis using g(1) qp bq snoc Cons by simp
  qed
  then obtain c1 where u: "geom_unlink p c = Some c1" "seg (tc_mem c1) None as (head_or bs None)"
    "seg (tc_mem c1) (last_or None as) bs None" "same_data ?m (tc_mem c1)" "tc_brk c1 = tc_brk c"
    "tree_geom_cache_head c1 = tree_geom_cache_head c" "tree_geom_cache_tail c1 = last_or None (as @ bs)"
    "tc_mem c1 p = Some g" by blast
  let ?n = "tc_mem c1"
  have all: "seg ?n None (as @ bs) None" using u(2,3) by (simp add: seg_append)
  obtain gh where gh: "?n h = Some gh" using seg_cell [OF u(2), of h] h by auto
  let ?n1 = "?n(p \<mapsto> g\<lparr>lk_next := Some h\<rparr>)"
  let ?n2 = "?n1(p \<mapsto> (g\<lparr>lk_next := Some h\<rparr>)\<lparr>lk_prev := None\<rparr>)"
  let ?n3 = "?n2(h \<mapsto> gh\<lparr>lk_prev := Some p\<rparr>)"
  have "geom_to_front p c = Some (c1\<lparr>tc_mem := ?n3, tree_geom_cache_head := Some p\<rparr>)"
    using hd hp u(1,6,8) gh by (simp add: geom_to_front_def del: fun_upd_upd)
  moreover have "cache_list (c1\<lparr>tc_mem := ?n3, tree_geom_cache_head := Some p\<rparr>) (p # as @ bs)"
  proof -
    have "p \<notin> set (as @ bs)" using g(6,7) by simp
    then have "seg ?n2 None (as @ bs) None" using all by (simp add: seg_off)
    then have "seg ?n3 (Some p) (as @ bs) None"
      unfolding h append_Cons using gh hp g(8,10) h by (intro seg_prev) auto
    then show ?thesis using g(6,7,8,9,10) u(7) hp h by (simp add: cache_list_def dll_def)
  qed
  moreover have "same_data ?m ?n3"
  proof -
    have "same_data ?n ?n1" using u(8) by (rule same_data_next)
    moreover have "same_data ?n1 ?n2" by (rule same_data_prev) simp
    moreover have "same_data ?n2 ?n3" using gh hp by (intro same_data_prev) simp
    ultimately show ?thesis using u(4) same_data_trans by blast
  qed
  ultimately show ?thesis using u(5) by auto
qed

section \<open>The contents\<close>

definition type_at :: "tree_cache \<Rightarrow> nat \<Rightarrow> gasnete_coll_tree_type option" where
  "type_at c p = map_option tree_type (tc_mem c p)"

definition views_ok :: "nat \<Rightarrow> nat \<Rightarrow> gasnete_coll_tree_geom \<Rightarrow> bool" where
  "views_ok N me g \<longleftrightarrow> length (local_views g) = N \<and> (\<forall>r<N. \<forall>v. local_views g ! r = Some v \<longrightarrow>
     gasnete_coll_tree_geom_create_local (tree_type g) r N me = Some v)"

definition cache_rep :: "nat \<Rightarrow> nat \<Rightarrow> tree_cache \<Rightarrow> nat list \<Rightarrow> bool" where
  "cache_rep N me c ps \<longleftrightarrow> cache_list c ps \<and> dom (tc_mem c) = set ps \<and> (\<forall>p\<in>set ps. p < tc_brk c) \<and>
     distinct (map (type_at c) ps) \<and> (\<forall>p g. tc_mem c p = Some g \<longrightarrow> views_ok N me g)"

lemma empty_cache_rep: "cache_rep N me empty_cache []"
  by (simp add: cache_rep_def empty_cache_def cache_list_def dll_def)

lemma more_eq:
  "list_links.more g = list_links.more h \<Longrightarrow> tree_type g = tree_type h \<and> local_views g = local_views h"
  for g h :: gasnete_coll_tree_geom
  by (cases g; cases h) simp

lemma same_data_cell:
  fixes h :: gasnete_coll_tree_geom
  assumes "same_data m m'" and "m' x = Some h"
  shows "\<exists>g. m x = Some g \<and> tree_type h = tree_type g \<and> local_views h = local_views g"
proof -
  have "map_option list_links.more (m x) = map_option list_links.more (m' x)"
    using assms(1) unfolding same_data_def by metis
  then have "map_option list_links.more (m x) = Some (list_links.more h)" unfolding assms(2) by simp
  then obtain g where "m x = Some g" "list_links.more g = list_links.more h" by (cases "m x") auto
  then show ?thesis using more_eq [of g h] by simp
qed

lemma same_data_typ:
  assumes "same_data (tc_mem c) (tc_mem c')"
  shows "type_at c' = type_at c"
proof
  fix x show "type_at c' x = type_at c x"
  proof (cases "tc_mem c' x")
    case None
    then have "tc_mem c x = None" using same_data_dom [OF assms] by (metis domIff)
    then show ?thesis using None by (simp add: type_at_def)
  next
    case (Some h)
    then show ?thesis using same_data_cell [OF assms Some] by (auto simp: type_at_def)
  qed
qed

lemma search_miss:
  "seg m pv xs None \<Longrightarrow> \<forall>x\<in>set xs. map_option tree_type (m x) \<noteq> Some ty \<Longrightarrow>
   geom_search m ty (head_or xs None) = Some None"
  by (induction xs arbitrary: pv) (auto simp: geom_search.simps)

lemma search_hit:
  "seg m pv (as @ p # bs) None \<Longrightarrow> \<forall>x\<in>set as. map_option tree_type (m x) \<noteq> Some ty \<Longrightarrow>
   map_option tree_type (m p) = Some ty \<Longrightarrow> geom_search m ty (head_or (as @ p # bs) None) = Some (Some p)"
  by (induction as arbitrary: pv) (auto simp: geom_search.simps)

text \<open>After a hit the cell is in front, and the types are those of before in the new order.\<close>

lemma helper_hit:
  assumes rep: "cache_rep N me c ps" and present: "Some ty \<in> set (map (type_at c) ps)"
  shows "\<exists>p c1 qs. gasnete_coll_tree_geom_fetch_helper ty c = Some (Some p, c1) \<and> cache_rep N me c1 (p # qs) \<and>
     type_at c1 p = Some ty \<and> map (type_at c1) qs = removeAll (Some ty) (map (type_at c) ps)"
proof -
  obtain p where "p \<in> set ps" "type_at c p = Some ty" using present by auto
  then obtain as bs where ps: "ps = as @ p # bs" by (meson split_list)
  note p = \<open>type_at c p = Some ty\<close>
  have "distinct (map (type_at c) (as @ p # bs))" using rep ps by (simp add: cache_rep_def)
  then have "type_at c p \<notin> type_at c ` (set as \<union> set bs)" by auto
  then have out: "\<forall>x\<in>set as \<union> set bs. type_at c x \<noteq> Some ty" unfolding p by (metis image_eqI)
  have cl: "cache_list c (as @ p # bs)" using rep ps by (simp add: cache_rep_def)
  from to_front_spec [OF cl] obtain c1 where c1: "geom_to_front p c = Some c1" "cache_list c1 (p # as @ bs)"
    "same_data (tc_mem c) (tc_mem c1)" "tc_brk c1 = tc_brk c" by blast
  have "geom_search (tc_mem c) ty (tree_geom_cache_head c) = Some (Some p)"
    using cl out p search_hit [of "tc_mem c" None as p bs ty]
    by (auto simp: cache_list_def dll_def type_at_def)
  then have "gasnete_coll_tree_geom_fetch_helper ty c = Some (Some p, c1)"
    by (simp add: gasnete_coll_tree_geom_fetch_helper_def c1(1))
  moreover note same = same_data_typ [OF c1(3)]
  have "cache_rep N me c1 (p # as @ bs)"
  proof -
    have "views_ok N me h" if "tc_mem c1 x = Some h" for x h
      using same_data_cell [OF c1(3) that] rep by (auto simp: cache_rep_def views_ok_def)
    moreover have "dom (tc_mem c1) = set (p # as @ bs)"
      using same_data_dom [OF c1(3)] rep ps by (auto simp: cache_rep_def)
    ultimately show ?thesis using rep ps c1(2,4) by (auto simp: cache_rep_def same)
  qed
  moreover have "map (type_at c1) (as @ bs) = removeAll (Some ty) (map (type_at c) ps)"
  proof -
    have "removeAll (Some ty) (map (type_at c) xs) = map (type_at c) xs" if "set xs \<subseteq> set as \<union> set bs" for xs
      using out that by (intro removeAll_id) auto
    then show ?thesis using p ps by (simp add: same)
  qed
  ultimately show ?thesis using p same by metis
qed

lemma helper_miss:
  assumes rep: "cache_rep N me c ps" and miss: "Some ty \<notin> set (map (type_at c) ps)"
  shows "gasnete_coll_tree_geom_fetch_helper ty c = Some (None, c)"
proof -
  have "\<forall>x\<in>set ps. map_option tree_type (tc_mem c x) \<noteq> Some ty"
    using miss unfolding set_map type_at_def [symmetric] by (metis image_eqI)
  then have "geom_search (tc_mem c) ty (tree_geom_cache_head c) = Some None"
    using rep search_miss [of "tc_mem c" None ps ty] by (simp add: cache_rep_def cache_list_def dll_def)
  then show ?thesis by (simp add: gasnete_coll_tree_geom_fetch_helper_def)
qed

lemma insert_rep:
  assumes rep: "cache_rep N me c ps" and miss: "Some ty \<notin> set (map (type_at c) ps)"
  shows "\<exists>c2. geom_insert ty N c = Some c2 \<and> cache_rep N me c2 (tc_brk c # ps) \<and> type_at c2 (tc_brk c) = Some ty \<and>
     map (type_at c2) ps = map (type_at c) ps"
proof -
  let ?p = "tc_brk c" and ?m = "tc_mem c"
  have new: "?p \<notin> set ps" "?m ?p = None"
    using rep by (auto simp: cache_rep_def)
  have cl: "seg ?m None ps None" "distinct ps" "tree_geom_cache_head c = head_or ps None"
    "tree_geom_cache_tail c = last_or None ps" "dom ?m = set ps" "\<forall>p\<in>set ps. p < ?p" "distinct (map (type_at c) ps)"
    "\<forall>p g. ?m p = Some g \<longrightarrow> views_ok N me g"
    using rep by (simp_all add: cache_rep_def cache_list_def dll_def)
  let ?g = "\<lparr>lk_next = head_or ps None, lk_prev = None, local_views = replicate N None, tree_type = ty\<rparr>"
  have vg: "views_ok N me ?g" by (simp add: views_ok_def)
  show ?thesis
  proof (cases ps)
    case Nil
    then show ?thesis using cl vg
      by (simp add: geom_insert_def cache_rep_def cache_list_def dll_def type_at_def Let_def)
  next
    case (Cons h qs)
    obtain gh where gh: "?m h = Some gh" using seg_cell [OF cl(1), of h] Cons by auto
    let ?m1 = "?m(?p \<mapsto> ?g)"
    let ?m2 = "?m1(h \<mapsto> gh\<lparr>lk_prev := Some ?p\<rparr>)"
    let ?c2 = "c\<lparr>tc_mem := ?m2, tc_brk := Suc ?p, tree_geom_cache_head := Some ?p\<rparr>"
    have hp: "h \<noteq> ?p" "h \<notin> set qs" using new cl(2) Cons by auto
    have "geom_insert ty N c = Some ?c2"
      using cl(3) Cons gh hp by (simp add: geom_insert_def Let_def)
    moreover have "seg ?m2 (Some ?p) ps None"
    proof -
      have "seg ?m1 None ps None" using cl(1) new(1) by (simp add: seg_off)
      then show ?thesis unfolding Cons using gh hp by (intro seg_prev) auto
    qed
    then have "cache_list ?c2 (?p # ps)" using new cl Cons hp by (simp add: cache_list_def dll_def)
    moreover have typs: "type_at ?c2 ?p = Some ty" "\<And>x. x \<noteq> ?p \<Longrightarrow> type_at ?c2 x = type_at c x"
      using hp gh by (auto simp: type_at_def)
    moreover have same: "map (type_at ?c2) ps = map (type_at c) ps" 
    proof (rule map_cong [OF refl])
      fix x assume "x \<in> set ps"
      then show "type_at ?c2 x = type_at c x" using new(1) by (intro typs(2)) auto
    qed
    moreover have "dom ?m2 = set (?p # ps)" using cl(5) Cons by auto
    moreover have "views_ok N me k" if "?m2 x = Some k" for x k
      using that vg cl(8) gh hp by (auto simp: views_ok_def split: if_splits)
    moreover have "distinct (map (type_at ?c2) (?p # ps))"
      using miss cl(7) unfolding list.map same typs(1) by simp
    ultimately show ?thesis using cl(6) by (auto simp: cache_rep_def intro: less_SucI)
  qed
qed

lemma fill_rep:
  assumes rep: "cache_rep N me c ps" and p: "type_at c p = Some ty" and r: "r < N"
    and v: "gasnete_coll_tree_geom_create_local ty r N me = Some v"
  shows "\<exists>c'. fill_view p ty r N me c = Some c' \<and> cache_rep N me c' ps \<and> type_at c' = type_at c \<and> get_view p r c' = Some (Some v)"
proof -
  obtain g where g: "tc_mem c p = Some g" "tree_type g = ty" using p by (auto simp: type_at_def)
  have ok: "views_ok N me g" using rep g by (simp add: cache_rep_def)
  let ?g = "g\<lparr>local_views := (local_views g)[r := Some v]\<rparr>"
  let ?c = "c\<lparr>tc_mem := (tc_mem c)(p \<mapsto> ?g)\<rparr>"
  have "fill_view p ty r N me c = Some ?c" using v g ok r by (simp add: fill_view_def views_ok_def)
  moreover have t: "type_at ?c = type_at c" using g by (auto simp: type_at_def fun_eq_iff)
  moreover have "(local_views g)[r := Some v] ! x = Some w \<Longrightarrow> x < N \<Longrightarrow>
      gasnete_coll_tree_geom_create_local (tree_type g) x N me = Some w" for x w
    using ok v g(2) r by (cases "x = r") (simp_all add: views_ok_def)
  then have "views_ok N me ?g" using ok by (simp add: views_ok_def)
  then have "cache_rep N me ?c ps"
    using rep g(1) t dll_data [of "tc_mem c" _ _ ps p g ?g] by (auto simp: cache_rep_def cache_list_def)
  moreover have "get_view p r ?c = Some (Some v)" using ok r by (simp add: get_view_def views_ok_def)
  ultimately show ?thesis by blast
qed

lemma fill_fails:
  "gasnete_coll_tree_geom_create_local ty r N me = None \<Longrightarrow> fill_view p ty r N me c = None"
  by (simp add: fill_view_def)

lemma fetch_step:
  assumes rep: "cache_rep N me c ps" and r: "r < N"
  shows "case gasnete_coll_tree_geom_create_local ty r N me of
     None \<Rightarrow> gasnete_coll_local_tree_geom_fetch N me ty r c = None
   | Some v \<Rightarrow> \<exists>c' qs. gasnete_coll_local_tree_geom_fetch N me ty r c = Some (v, c') \<and> cache_rep N me c' qs \<and>
       map (type_at c') qs = Some ty # removeAll (Some ty) (map (type_at c) ps)"
proof (cases "Some ty \<in> set (map (type_at c) ps)")
  case True
  from helper_hit [OF rep True] obtain p c1 qs where
    h: "gasnete_coll_tree_geom_fetch_helper ty c = Some (Some p, c1)" "cache_rep N me c1 (p # qs)"
      "type_at c1 p = Some ty" "map (type_at c1) qs = removeAll (Some ty) (map (type_at c) ps)" by blast
  obtain g where g: "tc_mem c1 p = Some g" "tree_type g = ty" using h(3) by (auto simp: type_at_def)
  have ok: "views_ok N me g" using h(2) g by (simp add: cache_rep_def)
  then have gv: "get_view p r c1 = Some (local_views g ! r)" using g r by (simp add: get_view_def views_ok_def)
  show ?thesis
  proof (cases "local_views g ! r")
    case (Some v)
    then have "gasnete_coll_tree_geom_create_local ty r N me = Some v" using ok r g(2) by (auto simp: views_ok_def)
    moreover have "gasnete_coll_local_tree_geom_fetch N me ty r c = Some (v, c1)"
      by (simp add: gasnete_coll_local_tree_geom_fetch_def h(1) gv Some)
    ultimately show ?thesis using h by auto
  next
    case None
    show ?thesis
    proof (cases "gasnete_coll_tree_geom_create_local ty r N me")
      case None': None
      then show ?thesis using None
        by (simp add: gasnete_coll_local_tree_geom_fetch_def h(1) gv fill_fails)
    next
      case (Some v)
      from fill_rep [OF h(2,3) r Some] obtain c2 where "fill_view p ty r N me c1 = Some c2"
        "cache_rep N me c2 (p # qs)" "type_at c2 = type_at c1" "get_view p r c2 = Some (Some v)" by blast
      then show ?thesis using None Some h(3,4)
        by (auto simp: gasnete_coll_local_tree_geom_fetch_def h(1) gv)
    qed
  qed
next
  case False
  note h = helper_miss [OF rep False]
  from insert_rep [OF rep False] obtain c2 where
    i: "geom_insert ty N c = Some c2" "cache_rep N me c2 (tc_brk c # ps)" "type_at c2 (tc_brk c) = Some ty"
      "map (type_at c2) ps = map (type_at c) ps" by blast
  show ?thesis
  proof (cases "gasnete_coll_tree_geom_create_local ty r N me")
    case None
    then show ?thesis by (simp add: gasnete_coll_local_tree_geom_fetch_def h i(1) fill_fails)
  next
    case (Some v)
    from fill_rep [OF i(2,3) r Some] obtain c3 where "fill_view (tc_brk c) ty r N me c2 = Some c3"
      "cache_rep N me c3 (tc_brk c # ps)" "type_at c3 = type_at c2" "get_view (tc_brk c) r c3 = Some (Some v)" by blast
    moreover have "removeAll (Some ty) (map (type_at c) ps) = map (type_at c) ps" using False by (rule removeAll_id)
    ultimately show ?thesis using Some i(3,4)
      by (auto simp: gasnete_coll_local_tree_geom_fetch_def h i(1))
  qed
qed

section \<open>Histories\<close>

text \<open>A history of fetches of a team, the views in the order of the fetches.\<close>

primrec fetch_all ::
  "nat \<Rightarrow> nat \<Rightarrow> (gasnete_coll_tree_type \<times> nat) list \<Rightarrow> tree_cache \<Rightarrow>
   (gasnete_coll_local_tree_geom list \<times> tree_cache) option" where
  "fetch_all N me [] c = Some ([], c)"
| "fetch_all N me (q # qs) c =
     do { (v, c1) \<leftarrow> gasnete_coll_local_tree_geom_fetch N me (fst q) (snd q) c;
          (vs, c2) \<leftarrow> fetch_all N me qs c1;
          Some (v # vs, c2) }"

definition moved_front :: "'a \<Rightarrow> 'a list \<Rightarrow> 'a list" where
  "moved_front t ts = t # removeAll t ts"

lemma remdups_snoc: "remdups (xs @ [x]) = removeAll x (remdups xs) @ [x]"
  by (induction xs) auto

lemma rev_removeAll: "rev (removeAll x xs) = removeAll x (rev xs)"
  by (induction xs) auto

lemma fold_moved_front: "fold moved_front xs [] = rev (remdups xs)"
  by (induction xs rule: rev_induct)
     (simp_all add: moved_front_def remdups_snoc rev_removeAll del: remdups_append2)

lemma remdups_Some: "remdups (map Some xs) = map Some (remdups xs)"
  by (induction xs) auto

lemma fetch_all_spec:
  assumes "cache_rep N me c ps" and "\<forall>q\<in>set qs. snd q < N"
  shows "case those (map (\<lambda>(ty, r). gasnete_coll_tree_geom_create_local ty r N me) qs) of
     None \<Rightarrow> fetch_all N me qs c = None
   | Some vs \<Rightarrow> \<exists>c' ps'. fetch_all N me qs c = Some (vs, c') \<and> cache_rep N me c' ps' \<and>
       map (type_at c') ps' = fold moved_front (map (Some \<circ> fst) qs) (map (type_at c) ps)"
  using assms
proof (induction qs arbitrary: c ps)
  case (Cons q qs)
  obtain ty r where q: "q = (ty, r)" by (cases q)
  have r: "r < N" using Cons.prems(2) q by simp
  note st = fetch_step [OF Cons.prems(1) r, of ty]
  show ?case
  proof (cases "gasnete_coll_tree_geom_create_local ty r N me")
    case None
    then show ?thesis using st by (simp add: q)
  next
    case (Some v)
    with st obtain c1 ps1 where c1: "gasnete_coll_local_tree_geom_fetch N me ty r c = Some (v, c1)"
      "cache_rep N me c1 ps1" "map (type_at c1) ps1 = moved_front (Some ty) (map (type_at c) ps)"
      by (auto simp: moved_front_def)
    have "\<forall>q\<in>set qs. snd q < N" using Cons.prems(2) by simp
    from Cons.IH [OF c1(2) this] show ?thesis
      using Some c1(1,3) by (auto simp: q o_def split: option.splits)
  qed
qed auto

lemma free_all_spec:
  "seg m pv xs None \<Longrightarrow> distinct xs \<Longrightarrow> geom_free_all (head_or xs None) m = Some (m |` (- set xs))"
proof (induction xs arbitrary: pv m)
  case Nil
  show ?case by (subst geom_free_all.simps) (simp add: restrict_map_def)
next
  case (Cons x xs)
  obtain g where g: "m x = Some g" "lk_next g = head_or xs None" using Cons.prems(1) by auto
  have "seg (m(x := None)) (Some x) xs None" "distinct xs" using Cons.prems by (simp_all add: seg_off)
  then have "geom_free_all (head_or xs None) (m(x := None)) = Some ((m(x := None)) |` (- set xs))" by (rule Cons.IH)
  moreover have "(m(x := None)) |` (- set xs) = m |` (- set (x # xs))" by (auto simp: restrict_map_def fun_eq_iff)
  ultimately show ?case using g by (subst geom_free_all.simps) simp
qed

section \<open>Properties\<close>


definition cache_demo :: "(gasnete_coll_tree_type \<times> nat) list" where
  "cache_demo = (let a = \<lparr>tree_class = GASNETE_COLL_FLAT_TREE, params = []\<rparr>;
      b = \<lparr>tree_class = GASNETE_COLL_KNOMIAL_TREE, params = [2]\<rparr>;
      d = \<lparr>tree_class = GASNETE_COLL_NARY_TREE, params = [2]\<rparr>
    in [(a, 0), (b, 1), (d, 2), (b, 0), (a, 0), (b, 1)])"


text \<open>
  After any sequence of fetches the cache is a doubly linked list, intact in both directions,
  with one geometry for each type asked for, the most recently used first; the purge then frees
  every geometry, each exactly once.
\<close>

theorem tree_cache_recency:
  assumes "\<forall>q\<in>set qs. snd q < N" and "fetch_all N me qs empty_cache = Some (vs, c)"
  shows "(\<exists>ps. dll (tc_mem c) (tree_geom_cache_head c) (tree_geom_cache_tail c) ps \<and>
       map (\<lambda>p. map_option tree_type (tc_mem c p)) ps = map Some (rev (remdups (map fst qs)))) \<and>
     map_option tc_mem (gasnete_coll_local_tree_geom_purge c) = Some Map.empty"
proof -
  from fetch_all_spec [OF empty_cache_rep assms(1), of me] assms(2) obtain ps where
    rep: "cache_rep N me c ps" and ts: "map (type_at c) ps = fold moved_front (map (Some \<circ> fst) qs) []"
    by (auto split: option.splits)
  have "map (Some \<circ> fst) qs = map Some (map fst qs)" by simp
  then have order: "map (type_at c) ps = map Some (rev (remdups (map fst qs)))"
    using ts by (simp only: fold_moved_front remdups_Some rev_map)
  have "geom_free_all (tree_geom_cache_head c) (tc_mem c) = Some (tc_mem c |` (- set ps))"
    using rep free_all_spec [of "tc_mem c" None ps] by (simp add: cache_rep_def cache_list_def dll_def)
  moreover have "tc_mem c |` (- set ps) = Map.empty"
    using rep by (auto simp: cache_rep_def restrict_map_def fun_eq_iff domIff)
  ultimately show ?thesis using rep order
    by (auto simp: gasnete_coll_local_tree_geom_purge_def cache_rep_def cache_list_def type_at_def [abs_def])
qed

lemma cache_demo_runs: "\<exists>vs c. fetch_all 4 1 cache_demo empty_cache = Some (vs, c)"
proof -
  have "those (map (\<lambda>(ty, r). gasnete_coll_tree_geom_create_local ty r 4 1) cache_demo) \<noteq> None" by code_simp
  moreover have "\<forall>q\<in>set cache_demo. snd q < 4" by (simp add: cache_demo_def Let_def)
  ultimately show ?thesis using fetch_all_spec [OF empty_cache_rep, of cache_demo 4 1]
    by (auto split: option.splits)
qed

theorem tree_cache_recency_witness:
  "\<exists>(c :: tree_cache) ps. dll (tc_mem c) (tree_geom_cache_head c) (tree_geom_cache_tail c) ps \<and>
     map (\<lambda>p. map_option (\<lambda>g. tree_class (tree_type g)) (tc_mem c p)) ps =
       [Some GASNETE_COLL_KNOMIAL_TREE, Some GASNETE_COLL_FLAT_TREE, Some GASNETE_COLL_NARY_TREE]"
proof -
  obtain vs c where c: "fetch_all 4 1 cache_demo empty_cache = Some (vs, c)" using cache_demo_runs by blast
  have "\<forall>q\<in>set cache_demo. snd q < 4" by (simp add: cache_demo_def Let_def)
  from tree_cache_recency [OF this c] obtain ps where
    ps: "dll (tc_mem c) (tree_geom_cache_head c) (tree_geom_cache_tail c) ps"
      "map (\<lambda>p. map_option tree_type (tc_mem c p)) ps = map Some (rev (remdups (map fst cache_demo)))" by blast
  have "map (map_option tree_class) (map (\<lambda>p. map_option tree_type (tc_mem c p)) ps) =
      [Some GASNETE_COLL_KNOMIAL_TREE, Some GASNETE_COLL_FLAT_TREE, Some GASNETE_COLL_NARY_TREE]"
    unfolding ps(2) by (simp add: cache_demo_def Let_def)
  then have "map (\<lambda>p. map_option (\<lambda>g. tree_class (tree_type g)) (tc_mem c p)) ps =
      [Some GASNETE_COLL_KNOMIAL_TREE, Some GASNETE_COLL_FLAT_TREE, Some GASNETE_COLL_NARY_TREE]"
    by (simp only: map_map o_def option.map_comp)
  with ps(1) show ?thesis by - (rule exI [of _ c], rule exI [of _ ps], rule conjI; assumption)
qed

end
