(* ===== verification/Scratch.thy ===== *)
theory Scratch
  imports Tree_Geometry
begin

text \<open>
  The scratch space allocator of the collectives (\<^verbatim>\<open>extended-ref/coll/gasnet_scratch.c\<close>):
  the operations of one rank. The intrusive lists of requests and of configurations are lists; the
  reuse of freed configurations and the inline arrays are memory management and left out. Sizes and
  positions are natural numbers: the header file assumes scratch spaces of at most 4 GB, and the code
  adds sizes and positions as 64-bit words, so its sums do not wrap.
  The counters of clear signals are machine words and wrap. A failed assertion or fatal error is an
  \<open>Inl\<close>.
\<close>

section \<open>Requests, configurations and state\<close>

datatype scratch_error = ScratchSpaceTooSmall | ScratchAssertFailed

datatype gasnete_coll_tree_dir = GASNETE_COLL_UP_TREE | GASNETE_COLL_DOWN_TREE

datatype gasnete_coll_op_type = GASNETE_COLL_DISSEM_OP | GASNETE_COLL_TREE_OP

record gasnete_coll_scratch_req =
  req_op :: nat                                \<comment> \<open>the operation it belongs to\<close>
  req_tree_type :: "gasnete_coll_tree_type option"
  req_root :: nat
  req_op_type :: gasnete_coll_op_type
  req_tree_dir :: gasnete_coll_tree_dir
  incoming_size :: nat
  in_peers :: "nat list"
  out_peers :: "nat list"
  out_sizes :: "nat list"

record gasnete_coll_scratch_config =
  cf_op_type :: gasnete_coll_op_type
  cf_tree_type :: "gasnete_coll_tree_type option"
  cf_root :: "nat option"                      \<comment> \<open>\<open>GEX_RANK_INVALID\<close> is \<open>None\<close>\<close>
  cf_tree_dir :: gasnete_coll_tree_dir
  op_list :: "gasnete_coll_scratch_req list"
  cf_peers :: "nat list"

record gasnete_coll_node_scratch_status =
  ns_head :: nat
  reset_signal_sent :: u32
  reset_signal_recv :: u32

text \<open>The fields of a collective operation that the allocator uses.\<close>

record scratch_op =
  waiting_scratch_op :: bool
  active_scratch_op :: bool
  waiting_for_reconfig_clear :: bool
  myscratchpos :: nat
  scratchpos :: "nat list"

record gasnete_coll_scratch_status =
  active_config_and_ops :: gasnete_coll_scratch_config
  waiting_config_and_ops :: "gasnete_coll_scratch_config list"
  node_status :: "nat \<Rightarrow> gasnete_coll_node_scratch_status"
  scratch_empty :: bool
  clear_signal_sent :: bool
  coll_ops :: "nat \<Rightarrow> scratch_op"

record scratch_team =
  sc_myrank :: nat
  scratch_size :: nat

definition gasnete_coll_alloc_new_scratch_status :: gasnete_coll_scratch_status where
  "gasnete_coll_alloc_new_scratch_status =
     \<lparr>active_config_and_ops = \<lparr>cf_op_type = GASNETE_COLL_DISSEM_OP, cf_tree_type = None, cf_root = None,
        cf_tree_dir = GASNETE_COLL_UP_TREE, op_list = [], cf_peers = []\<rparr>,
      waiting_config_and_ops = [], node_status = (\<lambda>_. \<lparr>ns_head = 0, reset_signal_sent = 0, reset_signal_recv = 0\<rparr>),
      scratch_empty = True, clear_signal_sent = False,
      coll_ops = (\<lambda>_. \<lparr>waiting_scratch_op = False, active_scratch_op = False,
        waiting_for_reconfig_clear = False, myscratchpos = 0, scratchpos = []\<rparr>)\<rparr>"

abbreviation with_op :: "nat \<Rightarrow> (scratch_op \<Rightarrow> scratch_op) \<Rightarrow> gasnete_coll_scratch_status \<Rightarrow> gasnete_coll_scratch_status" where
  "with_op i f stat \<equiv> stat\<lparr>coll_ops := (coll_ops stat)(i := f (coll_ops stat i))\<rparr>"

abbreviation with_node :: "nat \<Rightarrow> (gasnete_coll_node_scratch_status \<Rightarrow> gasnete_coll_node_scratch_status) \<Rightarrow>
    gasnete_coll_scratch_status \<Rightarrow> gasnete_coll_scratch_status" where
  "with_node p f stat \<equiv> stat\<lparr>node_status := (node_status stat)(p := f (node_status stat p))\<rparr>"

section \<open>Clear signals\<close>

text \<open>The ranks to which the clear signals go.\<close>

definition gasnete_coll_scratch_send_updates :: "gasnete_coll_scratch_status \<Rightarrow> nat list" where
  "gasnete_coll_scratch_send_updates stat = cf_peers (active_config_and_ops stat)"

definition gasnete_coll_scratch_update_reqh ::
  "nat \<Rightarrow> gasnete_coll_scratch_status \<Rightarrow> gasnete_coll_scratch_status" where
  "gasnete_coll_scratch_update_reqh node stat =
     with_node node (\<lambda>n. n\<lparr>reset_signal_sent := reset_signal_sent n + 1\<rparr>) stat"

section \<open>Configurations and queues\<close>

definition gasnete_coll_scratch_compare_config ::
  "gasnete_coll_scratch_config \<Rightarrow> gasnete_coll_scratch_req \<Rightarrow> bool" where
  "gasnete_coll_scratch_compare_config A req \<longleftrightarrow>
     \<not> (cf_root A \<noteq> Some (req_root req) \<or>
        \<not> gasnete_coll_compare_tree_types (cf_tree_type A) (req_tree_type req) \<or>
        cf_op_type A \<noteq> req_op_type req \<or> cf_tree_dir A \<noteq> req_tree_dir req)"

text \<open>A new configuration, with the fields of a request and no operation.\<close>

definition gasnete_coll_scratch_init_config :: "gasnete_coll_scratch_req \<Rightarrow> gasnete_coll_scratch_config" where
  "gasnete_coll_scratch_init_config req =
     \<lparr>cf_op_type = req_op_type req, cf_tree_type = req_tree_type req, cf_root = Some (req_root req),
      cf_tree_dir = req_tree_dir req, op_list = [], cf_peers = []\<rparr>"

definition gasnete_coll_scratch_add_op_to_config ::
  "gasnete_coll_scratch_config \<Rightarrow> gasnete_coll_scratch_req \<Rightarrow> scratch_error + gasnete_coll_scratch_config" where
  "gasnete_coll_scratch_add_op_to_config config req =
     (if cf_tree_dir config = req_tree_dir req then Inr (config\<lparr>op_list := op_list config @ [req]\<rparr>)
      else Inl ScratchAssertFailed)"

definition gasnete_coll_scratch_remove_first_op_from_config ::
  "gasnete_coll_scratch_config \<Rightarrow> scratch_error + gasnete_coll_scratch_req \<times> gasnete_coll_scratch_config" where
  "gasnete_coll_scratch_remove_first_op_from_config config =
     (case op_list config of [] \<Rightarrow> Inl ScratchAssertFailed
      | ret # rest \<Rightarrow> Inr (ret, config\<lparr>op_list := rest\<rparr>))"

definition gasnete_coll_scratch_add_to_wait ::
  "gasnete_coll_scratch_req \<Rightarrow> gasnete_coll_scratch_status \<Rightarrow> scratch_error + gasnete_coll_scratch_status" where
  "gasnete_coll_scratch_add_to_wait req stat =
     (if waiting_scratch_op (coll_ops stat (req_op req)) then Inl ScratchAssertFailed
      else
        let stat1 = with_op (req_op req) (\<lambda>o'. o'\<lparr>waiting_scratch_op := True, active_scratch_op := False\<rparr>) stat;
            ws = waiting_config_and_ops stat in
        if ws = [] \<or> \<not> gasnete_coll_scratch_compare_config (last ws) req
        then (case gasnete_coll_scratch_add_op_to_config (gasnete_coll_scratch_init_config req) req of
                Inl e \<Rightarrow> Inl e
              | Inr temp \<Rightarrow> Inr (stat1\<lparr>waiting_config_and_ops := ws @ [temp]\<rparr>))
        else (case gasnete_coll_scratch_add_op_to_config (last ws) req of
                Inl e \<Rightarrow> Inl e
              | Inr temp \<Rightarrow> Inr (stat1\<lparr>waiting_config_and_ops := butlast ws @ [temp]\<rparr>)))"

definition gasnete_coll_scratch_remove_first_waiting_op ::
  "gasnete_coll_scratch_status \<Rightarrow> scratch_error + gasnete_coll_scratch_status" where
  "gasnete_coll_scratch_remove_first_waiting_op stat =
     (case waiting_config_and_ops stat of [] \<Rightarrow> Inl ScratchAssertFailed
      | c # cs \<Rightarrow>
          (case gasnete_coll_scratch_remove_first_op_from_config c of Inl e \<Rightarrow> Inl e
           | Inr (_, c') \<Rightarrow> Inr (stat\<lparr>waiting_config_and_ops := (if op_list c' = [] then cs else c' # cs)\<rparr>)))"

definition gasnete_coll_scratch_reconfigure ::
  "gasnete_coll_scratch_status \<Rightarrow> gasnete_coll_scratch_req \<Rightarrow> scratch_error + gasnete_coll_scratch_status" where
  "gasnete_coll_scratch_reconfigure stat req =
     (let config = active_config_and_ops stat in
      if op_list config \<noteq> [] then Inl ScratchAssertFailed
      else if \<not> gasnete_coll_scratch_compare_config config req
      then Inr (stat\<lparr>active_config_and_ops := config\<lparr>cf_op_type := req_op_type req,
             cf_tree_type := req_tree_type req, cf_root := Some (req_root req),
             cf_tree_dir := req_tree_dir req, cf_peers := in_peers req\<rparr>\<rparr>)
      else Inr stat)"

section \<open>Space\<close>

definition gasnete_coll_scratch_check_local_alloc ::
  "scratch_team \<Rightarrow> gasnete_coll_scratch_req \<Rightarrow> gasnete_coll_scratch_status \<Rightarrow> bool" where
  "gasnete_coll_scratch_check_local_alloc team req stat \<longleftrightarrow>
     incoming_size req + ns_head (node_status stat (sc_myrank team)) \<le> scratch_size team"

definition gasnete_coll_scratch_make_local_alloc ::
  "scratch_team \<Rightarrow> gasnete_coll_scratch_req \<Rightarrow> gasnete_coll_scratch_status \<Rightarrow> nat \<times> gasnete_coll_scratch_status" where
  "gasnete_coll_scratch_make_local_alloc team req stat =
     (ns_head (node_status stat (sc_myrank team)),
      with_node (sc_myrank team) (\<lambda>n. n\<lparr>ns_head := ns_head n + incoming_size req\<rparr>) stat)"

text \<open>A peer whose clear signal has arrived: its signal is consumed and its space is free again.\<close>

abbreviation no_signal :: "gasnete_coll_scratch_status \<Rightarrow> nat \<Rightarrow> bool" where
  "no_signal stat p \<equiv> reset_signal_sent (node_status stat p) = reset_signal_recv (node_status stat p)"

definition reset_peer :: "nat \<Rightarrow> gasnete_coll_scratch_status \<Rightarrow> gasnete_coll_scratch_status" where
  "reset_peer p stat = with_node p (\<lambda>n. n\<lparr>ns_head := 0, reset_signal_recv := reset_signal_recv n + 1\<rparr>) stat"

definition gasnete_coll_scratch_check_remote_clear ::
  "gasnete_coll_scratch_req \<Rightarrow> gasnete_coll_scratch_status \<Rightarrow> bool \<times> gasnete_coll_scratch_status" where
  "gasnete_coll_scratch_check_remote_clear req stat =
     (if list_ex (no_signal stat) (out_peers req) then (False, stat)
      else (True, fold reset_peer (out_peers req) stat))"

text \<open>The peers of a request with the space it needs at each.\<close>

definition peer_sizes :: "gasnete_coll_scratch_req \<Rightarrow> (nat \<times> nat) list" where
  "peer_sizes req = map (\<lambda>i. (out_peers req ! i,
       out_sizes req ! (if req_op_type req = GASNETE_COLL_DISSEM_OP then 0 else i))) [0..<length (out_peers req)]"

fun remote_alloc_scan ::
  "scratch_team \<Rightarrow> (nat \<times> nat) list \<Rightarrow> gasnete_coll_scratch_status \<Rightarrow> bool \<times> gasnete_coll_scratch_status" where
  "remote_alloc_scan team [] stat = (True, stat)"
| "remote_alloc_scan team ((peer, n) # ps) stat =
     (if ns_head (node_status stat peer) + n > scratch_size team
      then if no_signal stat peer then (False, stat) else remote_alloc_scan team ps (reset_peer peer stat)
      else remote_alloc_scan team ps stat)"

definition gasnete_coll_scratch_check_remote_alloc ::
  "scratch_team \<Rightarrow> gasnete_coll_scratch_req \<Rightarrow> gasnete_coll_scratch_status \<Rightarrow> bool \<times> gasnete_coll_scratch_status" where
  "gasnete_coll_scratch_check_remote_alloc team req stat = remote_alloc_scan team (peer_sizes req) stat"

fun remote_alloc_loop ::
  "(nat \<times> nat) list \<Rightarrow> gasnete_coll_scratch_status \<Rightarrow> nat list \<times> gasnete_coll_scratch_status" where
  "remote_alloc_loop [] stat = ([], stat)"
| "remote_alloc_loop ((peer, n) # ps) stat =
     (let (pos, stat') = remote_alloc_loop ps (with_node peer (\<lambda>m. m\<lparr>ns_head := ns_head m + n\<rparr>) stat)
      in (ns_head (node_status stat peer) # pos, stat'))"

definition gasnete_coll_scratch_make_remote_alloc ::
  "gasnete_coll_scratch_req \<Rightarrow> gasnete_coll_scratch_status \<Rightarrow> nat list \<times> gasnete_coll_scratch_status" where
  "gasnete_coll_scratch_make_remote_alloc req stat = remote_alloc_loop (peer_sizes req) stat"

section \<open>Allocation and release\<close>

text \<open>The common end of the two successful branches.\<close>

definition scratch_activate ::
  "scratch_team \<Rightarrow> gasnete_coll_scratch_req \<Rightarrow> gasnete_coll_scratch_status \<Rightarrow> scratch_error + gasnete_coll_scratch_status" where
  "scratch_activate team req stat =
     (let i = req_op req;
          stat1 = with_op i (\<lambda>o'. o'\<lparr>active_scratch_op := True\<rparr>) (stat\<lparr>scratch_empty := False, clear_signal_sent := False\<rparr>) in
      case (if waiting_scratch_op (coll_ops stat1 i)
            then (case waiting_config_and_ops stat1 of [] \<Rightarrow> Inl ScratchAssertFailed
                  | c # cs \<Rightarrow> if op_list c = [] \<or> hd (op_list c) \<noteq> req then Inl ScratchAssertFailed
                      else (case gasnete_coll_scratch_remove_first_waiting_op stat1 of Inl e \<Rightarrow> Inl e
                            | Inr stat2 \<Rightarrow> Inr (with_op i (\<lambda>o'. o'\<lparr>waiting_scratch_op := False\<rparr>) stat2)))
            else Inr stat1) of
        Inl e \<Rightarrow> Inl e
      | Inr stat2 \<Rightarrow>
          (case gasnete_coll_scratch_add_op_to_config (active_config_and_ops stat2) req of Inl e \<Rightarrow> Inl e
           | Inr config \<Rightarrow>
               let (mypos, stat3) = gasnete_coll_scratch_make_local_alloc team req (stat2\<lparr>active_config_and_ops := config\<rparr>);
                   (pos, stat4) = gasnete_coll_scratch_make_remote_alloc req stat3
               in Inr (with_op i (\<lambda>o'. o'\<lparr>myscratchpos := mypos, scratchpos := pos\<rparr>) stat4)))"

definition scratch_postpone ::
  "gasnete_coll_scratch_req \<Rightarrow> gasnete_coll_scratch_status \<Rightarrow> scratch_error + gasnete_coll_scratch_status" where
  "scratch_postpone req stat =
     (if \<not> waiting_scratch_op (coll_ops stat (req_op req)) then gasnete_coll_scratch_add_to_wait req stat
      else Inr stat)"

text \<open>Sending the clear signals of a drain cycle, once: the ranks signalled and the new state.\<close>

definition scratch_clear :: "scratch_team \<Rightarrow> gasnete_coll_scratch_status \<Rightarrow> nat list \<times> gasnete_coll_scratch_status" where
  "scratch_clear team stat =
     (if \<not> clear_signal_sent stat
      then let stat1 = with_node (sc_myrank team) (\<lambda>n. n\<lparr>ns_head := 0\<rparr>) stat
           in (gasnete_coll_scratch_send_updates stat1, stat1\<lparr>clear_signal_sent := True\<rparr>)
      else ([], stat))"

text \<open>How a branch ends: activation with result 1, or the wait queue with result 0.\<close>

definition scratch_finish ::
  "scratch_team \<Rightarrow> gasnete_coll_scratch_req \<Rightarrow> nat list \<Rightarrow> bool \<times> gasnete_coll_scratch_status \<Rightarrow>
   scratch_error + nat list \<times> gasnete_coll_scratch_status \<times> bool" where
  "scratch_finish team req msgs r =
     (if fst r then (case scratch_activate team req (snd r) of Inl e \<Rightarrow> Inl e | Inr stat \<Rightarrow> Inr (msgs, stat, True))
      else (case scratch_postpone req (snd r) of Inl e \<Rightarrow> Inl e | Inr stat \<Rightarrow> Inr (msgs, stat, False)))"

definition gasnete_coll_scratch_alloc_nb ::
  "scratch_team \<Rightarrow> gasnete_coll_scratch_req \<Rightarrow> gasnete_coll_scratch_status \<Rightarrow>
   scratch_error + nat list \<times> gasnete_coll_scratch_status \<times> bool" where
  "gasnete_coll_scratch_alloc_nb team req stat =
     (let i = req_op req; op = coll_ops stat i; ws = waiting_config_and_ops stat in
      if \<not> waiting_scratch_op op \<and> incoming_size req > scratch_size team then Inl ScratchSpaceTooSmall
      else if waiting_scratch_op op \<and> (ws = [] \<or> op_list (hd ws) = []) then Inl ScratchAssertFailed
      else if waiting_scratch_op op \<and> req_op (hd (op_list (hd ws))) \<noteq> i then Inr ([], stat, False)
      else if \<not> waiting_scratch_op op \<and> ws \<noteq> []
      then (case gasnete_coll_scratch_add_to_wait req stat of Inl e \<Rightarrow> Inl e | Inr stat1 \<Rightarrow> Inr ([], stat1, False))
      else
        let matches = gasnete_coll_scratch_compare_config (active_config_and_ops stat) req;
            idle = op_list (active_config_and_ops stat) = [] in
        if waiting_for_reconfig_clear op \<or> \<not> matches \<and> idle
        then (case (if \<not> waiting_for_reconfig_clear op then gasnete_coll_scratch_reconfigure stat req else Inr stat) of
                Inl e \<Rightarrow> Inl e
              | Inr stat1 \<Rightarrow>
                  let (msgs, stat2) = scratch_clear team stat1;
                      stat3 = with_op i (\<lambda>o'. o'\<lparr>waiting_for_reconfig_clear := True\<rparr>) stat2
                  in scratch_finish team req msgs (gasnete_coll_scratch_check_remote_clear req stat3))
        else if matches
        then if \<not> gasnete_coll_scratch_check_local_alloc team req stat \<and> \<not> idle
             then scratch_finish team req [] (False, stat)
             else let (msgs, stat1) =
                    (if \<not> gasnete_coll_scratch_check_local_alloc team req stat then scratch_clear team stat else ([], stat))
                  in scratch_finish team req msgs (gasnete_coll_scratch_check_remote_alloc team req stat1)
        else scratch_finish team req [] (False, stat))"

text \<open>The release unlinks the request of an active operation.\<close>

definition gasnete_coll_free_scratch ::
  "gasnete_coll_scratch_req \<Rightarrow> gasnete_coll_scratch_status \<Rightarrow> gasnete_coll_scratch_status" where
  "gasnete_coll_free_scratch req stat =
     stat\<lparr>active_config_and_ops := (active_config_and_ops stat)\<lparr>op_list := remove1 req (op_list (active_config_and_ops stat))\<rparr>\<rparr>"

end
