(* ===== verification/Scratch_Inv.thy ===== *)
theory Scratch_Inv
  imports Scratch
begin

text \<open>
  One rank's scratch allocator as a transition system over the calls of its clients and the clear
  signals of its peers, and the invariant of its queues, its configuration and its space.
\<close>

section \<open>The system\<close>

record scratch_sys =
  status :: gasnete_coll_scratch_status
  submitted :: "nat list"        \<comment> \<open>operations in the order of their first call\<close>
  activated :: "nat list"        \<comment> \<open>operations in the order in which they got space\<close>

definition scratch_init :: scratch_sys where
  "scratch_init = \<lparr>status = gasnete_coll_alloc_new_scratch_status, submitted = [], activated = []\<rparr>"

datatype scratch_event = Alloc nat "nat list" bool | Free nat | Signal nat

text \<open>
  The requests of the operations are fixed; an operation polls the allocator until it gets its space,
  and releases it later.
\<close>

inductive scratch_step ::
  "scratch_team \<Rightarrow> (nat \<Rightarrow> gasnete_coll_scratch_req) \<Rightarrow> scratch_sys \<Rightarrow> scratch_event \<Rightarrow> scratch_sys \<Rightarrow> bool"
  for team :: scratch_team and reqs :: "nat \<Rightarrow> gasnete_coll_scratch_req" where
  step_alloc:
    "i \<notin> set (activated s) \<Longrightarrow> gasnete_coll_scratch_alloc_nb team (reqs i) (status s) = Inr (msgs, st, ok) \<Longrightarrow>
     scratch_step team reqs s (Alloc i msgs ok)
       \<lparr>status = st, submitted = (if i \<in> set (submitted s) then submitted s else submitted s @ [i]),
        activated = (if ok then activated s @ [i] else activated s)\<rparr>"
| step_free:
    "reqs i \<in> set (op_list (active_config_and_ops (status s))) \<Longrightarrow>
     scratch_step team reqs s (Free i) (s\<lparr>status := gasnete_coll_free_scratch (reqs i) (status s)\<rparr>)"
| step_signal:
    "p \<noteq> sc_myrank team \<Longrightarrow> scratch_step team reqs s (Signal p) (s\<lparr>status := gasnete_coll_scratch_update_reqh p (status s)\<rparr>)"

text \<open>What the callers respect: one size for each peer, each at most the scratch space of a rank.\<close>

definition req_ok :: "scratch_team \<Rightarrow> nat \<Rightarrow> gasnete_coll_scratch_req \<Rightarrow> bool" where
  "req_ok team i r \<longleftrightarrow> req_op r = i \<and> distinct (out_peers r) \<and> sc_myrank team \<notin> set (out_peers r) \<and>
     length (out_sizes r) = (if req_op_type r = GASNETE_COLL_DISSEM_OP then 1 else length (out_peers r)) \<and>
     (\<forall>n\<in>set (out_sizes r). n \<le> scratch_size team)"

section \<open>Views\<close>

abbreviation matches :: "gasnete_coll_scratch_config \<Rightarrow> gasnete_coll_scratch_req \<Rightarrow> bool" where
  "matches \<equiv> gasnete_coll_scratch_compare_config"

definition waiting_ids :: "gasnete_coll_scratch_status \<Rightarrow> nat list" where
  "waiting_ids st = concat (map (\<lambda>c. map req_op (op_list c)) (waiting_config_and_ops st))"

abbreviation active_list :: "gasnete_coll_scratch_status \<Rightarrow> gasnete_coll_scratch_req list" where
  "active_list st \<equiv> op_list (active_config_and_ops st)"

abbreviation my_head :: "scratch_team \<Rightarrow> gasnete_coll_scratch_status \<Rightarrow> nat" where
  "my_head team st \<equiv> ns_head (node_status st (sc_myrank team))"

text \<open>Regions of the active operations, from low to high, below the head.\<close>

definition laid_out :: "scratch_team \<Rightarrow> gasnete_coll_scratch_status \<Rightarrow> bool" where
  "laid_out team st \<longleftrightarrow> my_head team st \<le> scratch_size team \<and>
     (\<forall>r\<in>set (active_list st). myscratchpos (coll_ops st (req_op r)) + incoming_size r \<le> my_head team st) \<and>
     sorted_wrt (\<lambda>r q. myscratchpos (coll_ops st (req_op r)) + incoming_size r \<le> myscratchpos (coll_ops st (req_op q)))
       (active_list st)"

section \<open>The invariant\<close>

definition queue_inv :: "(nat \<Rightarrow> gasnete_coll_scratch_req) \<Rightarrow> gasnete_coll_scratch_status \<Rightarrow> nat list \<Rightarrow> nat list \<Rightarrow> bool" where
  "queue_inv reqs st sub act \<longleftrightarrow> sub = act @ waiting_ids st \<and> distinct sub \<and>
     (\<forall>c\<in>set (waiting_config_and_ops st). op_list c \<noteq> [] \<and> (\<forall>r\<in>set (op_list c). r = reqs (req_op r) \<and> matches c r)) \<and>
     (\<forall>i. waiting_scratch_op (coll_ops st i) \<longleftrightarrow> i \<in> set (waiting_ids st))"

definition active_inv :: "scratch_team \<Rightarrow> (nat \<Rightarrow> gasnete_coll_scratch_req) \<Rightarrow> gasnete_coll_scratch_status \<Rightarrow> nat list \<Rightarrow> bool" where
  "active_inv team reqs st act \<longleftrightarrow> distinct (map req_op (active_list st)) \<and>
     (\<forall>r\<in>set (active_list st). r = reqs (req_op r) \<and> req_op r \<in> set act \<and> matches (active_config_and_ops st) r) \<and>
     laid_out team st"

definition drain_inv :: "scratch_team \<Rightarrow> (nat \<Rightarrow> gasnete_coll_scratch_req) \<Rightarrow> gasnete_coll_scratch_status \<Rightarrow> nat list \<Rightarrow> bool" where
  "drain_inv team reqs st act \<longleftrightarrow>
     (clear_signal_sent st \<longrightarrow> active_list st = [] \<and> my_head team st = 0 \<and>
        (\<exists>i ws. waiting_ids st = i # ws \<and> matches (active_config_and_ops st) (reqs i))) \<and>
     (\<forall>i. i \<notin> set act \<longrightarrow> waiting_for_reconfig_clear (coll_ops st i) \<longrightarrow>
        clear_signal_sent st \<and> (\<exists>ws. waiting_ids st = i # ws))"

definition scratch_inv :: "scratch_team \<Rightarrow> (nat \<Rightarrow> gasnete_coll_scratch_req) \<Rightarrow> gasnete_coll_scratch_status \<Rightarrow> nat list \<Rightarrow> nat list \<Rightarrow> bool" where
  "scratch_inv team reqs st sub act \<longleftrightarrow> queue_inv reqs st sub act \<and> active_inv team reqs st act \<and>
     drain_inv team reqs st act \<and> (\<forall>i\<in>set sub. incoming_size (reqs i) \<le> scratch_size team)"

lemma scratch_init_inv: "scratch_inv team reqs gasnete_coll_alloc_new_scratch_status [] []"
  by (simp add: scratch_inv_def queue_inv_def active_inv_def drain_inv_def laid_out_def waiting_ids_def
      gasnete_coll_alloc_new_scratch_status_def)

section \<open>Frames\<close>

text \<open>Changes to the state of other ranks leave the queues and the own space alone.\<close>

definition same_local :: "scratch_team \<Rightarrow> gasnete_coll_scratch_status \<Rightarrow> gasnete_coll_scratch_status \<Rightarrow> bool" where
  "same_local team st st' \<longleftrightarrow> active_config_and_ops st' = active_config_and_ops st \<and>
     waiting_config_and_ops st' = waiting_config_and_ops st \<and> coll_ops st' = coll_ops st \<and>
     clear_signal_sent st' = clear_signal_sent st \<and> my_head team st' = my_head team st"

lemma same_local_refl: "same_local team st st"
  by (simp add: same_local_def)

lemma same_local_trans: "same_local team a b \<Longrightarrow> same_local team b c \<Longrightarrow> same_local team a c"
  by (simp add: same_local_def)

lemma reset_peer_local: "sc_myrank team \<noteq> p \<Longrightarrow> same_local team st (reset_peer p st)"
  by (simp add: same_local_def reset_peer_def)

lemma fold_reset_local: "sc_myrank team \<notin> set ps \<Longrightarrow> same_local team st (fold reset_peer ps st)"
  by (induction ps arbitrary: st) (auto intro: same_local_refl same_local_trans [OF reset_peer_local])

lemma remote_scan_local:
  "sc_myrank team \<notin> fst ` set ps \<Longrightarrow> same_local team st (snd (remote_alloc_scan team ps st))"
  by (induction team ps st rule: remote_alloc_scan.induct)
     (auto intro: same_local_refl same_local_trans [OF reset_peer_local])

lemma remote_loop_local:
  "sc_myrank team \<notin> fst ` set ps \<Longrightarrow> same_local team st (snd (remote_alloc_loop ps st))"
proof (induction ps st rule: remote_alloc_loop.induct)
  case (2 peer n ps stat)
  let ?s = "with_node peer (\<lambda>m. m\<lparr>ns_head := ns_head m + n\<rparr>) stat"
  have "same_local team stat ?s" using "2.prems" by (auto simp: same_local_def)
  then show ?case using 2 by (auto simp: Let_def split: prod.splits dest: same_local_trans)
qed (simp add: same_local_refl)

lemma peer_sizes_peers: "fst ` set (peer_sizes r) = set (out_peers r)"
proof -
  have "map fst (peer_sizes r) = out_peers r" by (rule nth_equalityI) (simp_all add: peer_sizes_def)
  then show ?thesis by (metis list.set_map)
qed

lemma local_waiting: "same_local team st st' \<Longrightarrow> waiting_ids st' = waiting_ids st"
  by (simp add: same_local_def waiting_ids_def)

lemma local_queue: "same_local team st st' \<Longrightarrow> queue_inv reqs st' sub act = queue_inv reqs st sub act"
  by (simp add: local_waiting queue_inv_def) (simp add: same_local_def)

lemma local_active: "same_local team st st' \<Longrightarrow> active_inv team reqs st' act = active_inv team reqs st act"
  by (simp add: active_inv_def laid_out_def same_local_def)

lemma local_drain: "same_local team st st' \<Longrightarrow> drain_inv team reqs st' act = drain_inv team reqs st act"
  by (simp add: local_waiting drain_inv_def) (simp add: same_local_def)

section \<open>The wait queue\<close>

lemma add_op_matches:
  "matches c r \<Longrightarrow> gasnete_coll_scratch_add_op_to_config c r = Inr (c\<lparr>op_list := op_list c @ [r]\<rparr>)"
  by (simp add: gasnete_coll_scratch_add_op_to_config_def gasnete_coll_scratch_compare_config_def)

lemma compare_opt [simp]: "gasnete_coll_compare_tree_types a b \<longleftrightarrow> a = b"
proof -
  have "params_equal xs ys (length xs) \<longleftrightarrow> xs = ys" if "length xs = length ys" for xs ys
    using that by (induction xs ys rule: list_induct2) auto
  then show ?thesis by (auto simp: gasnete_coll_compare_tree_types_def split: option.splits)
qed

lemma init_matches: "matches (gasnete_coll_scratch_init_config r) r"
  by (simp add: gasnete_coll_scratch_compare_config_def gasnete_coll_scratch_init_config_def)

lemma matches_ops: "matches (c\<lparr>op_list := l\<rparr>) r = matches c r"
  by (simp add: gasnete_coll_scratch_compare_config_def)

text \<open>An operation that is not yet known joins the end of the queue.\<close>

lemma add_to_wait_spec:
  assumes q: "queue_inv reqs st sub act" and i: "i \<notin> set sub" and r: "reqs i = r" "req_op r = i"
  shows "\<exists>ws. gasnete_coll_scratch_add_to_wait r st = Inr (st\<lparr>waiting_config_and_ops := ws,
       coll_ops := (coll_ops st)(i := (coll_ops st i)\<lparr>waiting_scratch_op := True, active_scratch_op := False\<rparr>)\<rparr>) \<and>
     concat (map (\<lambda>c. map req_op (op_list c)) ws) = waiting_ids st @ [i] \<and>
     (\<forall>c\<in>set ws. op_list c \<noteq> [] \<and> (\<forall>r\<in>set (op_list c). r = reqs (req_op r) \<and> matches c r))"
proof -
  let ?ws = "waiting_config_and_ops st"
  have nw: "\<not> waiting_scratch_op (coll_ops st i)" using q i by (auto simp: queue_inv_def)
  have ok: "op_list c \<noteq> [] \<and> (\<forall>r\<in>set (op_list c). r = reqs (req_op r) \<and> matches c r)" if "c \<in> set ?ws" for c
    using q that by (simp add: queue_inv_def)
  show ?thesis
  proof (cases "?ws = [] \<or> \<not> matches (last ?ws) r")
    case True
    let ?new = "(gasnete_coll_scratch_init_config r)\<lparr>op_list := [r]\<rparr>"
    have "op_list (gasnete_coll_scratch_init_config r) = []" by (simp add: gasnete_coll_scratch_init_config_def)
    then have "gasnete_coll_scratch_add_op_to_config (gasnete_coll_scratch_init_config r) r = Inr ?new"
      using add_op_matches [OF init_matches] by simp
    then have "gasnete_coll_scratch_add_to_wait r st = Inr (st\<lparr>waiting_config_and_ops := ?ws @ [?new],
       coll_ops := (coll_ops st)(i := (coll_ops st i)\<lparr>waiting_scratch_op := True, active_scratch_op := False\<rparr>)\<rparr>)"
      using True nw r(2) unfolding gasnete_coll_scratch_add_to_wait_def by (simp add: Let_def)
    moreover have "matches ?new r" using init_matches matches_ops by blast
    ultimately show ?thesis using ok r by (intro exI [of _ "?ws @ [?new]"]) (auto simp: waiting_ids_def)
  next
    case False
    let ?new = "(last ?ws)\<lparr>op_list := op_list (last ?ws) @ [r]\<rparr>"
    have split: "?ws = butlast ?ws @ [last ?ws]" using False by simp
    have "gasnete_coll_scratch_add_op_to_config (last ?ws) r = Inr ?new" using False by (intro add_op_matches) simp
    then have "gasnete_coll_scratch_add_to_wait r st = Inr (st\<lparr>waiting_config_and_ops := butlast ?ws @ [?new],
       coll_ops := (coll_ops st)(i := (coll_ops st i)\<lparr>waiting_scratch_op := True, active_scratch_op := False\<rparr>)\<rparr>)"
      using False nw r(2) unfolding gasnete_coll_scratch_add_to_wait_def by (simp add: Let_def)
    moreover have "concat (map (\<lambda>c. map req_op (op_list c)) (butlast ?ws @ [?new])) = waiting_ids st @ [i]"
    proof -
      have "waiting_ids st = concat (map (\<lambda>c. map req_op (op_list c)) (butlast ?ws @ [last ?ws]))"
        unfolding waiting_ids_def using split by simp
      then show ?thesis using r(2) by simp
    qed
    moreover have "\<forall>c\<in>set (butlast ?ws @ [?new]). op_list c \<noteq> [] \<and> (\<forall>r\<in>set (op_list c). r = reqs (req_op r) \<and> matches c r)"
    proof -
      have "last ?ws \<in> set ?ws" using False by simp
      from ok [OF this] have "\<forall>r\<in>set (op_list ?new). r = reqs (req_op r) \<and> matches ?new r"
        using False r unfolding matches_ops by simp
      then show ?thesis using ok by (auto dest: in_set_butlastD)
    qed
    ultimately show ?thesis by blast
  qed
qed

text \<open>The first operation of the queue leaves it.\<close>

lemma remove_first_spec:
  assumes q: "queue_inv reqs st sub act" and w: "waiting_ids st = i # rest"
  shows "\<exists>c cs ws. waiting_config_and_ops st = c # cs \<and> op_list c \<noteq> [] \<and> hd (op_list c) = reqs i \<and> req_op (reqs i) = i \<and>
     gasnete_coll_scratch_remove_first_waiting_op st = Inr (st\<lparr>waiting_config_and_ops := ws\<rparr>) \<and>
     concat (map (\<lambda>c. map req_op (op_list c)) ws) = rest \<and>
     (\<forall>c\<in>set ws. op_list c \<noteq> [] \<and> (\<forall>r\<in>set (op_list c). r = reqs (req_op r) \<and> matches c r))"
proof -
  obtain c cs where c: "waiting_config_and_ops st = c # cs" using w by (cases "waiting_config_and_ops st") (auto simp: waiting_ids_def)
  have ok: "op_list d \<noteq> [] \<and> (\<forall>r\<in>set (op_list d). r = reqs (req_op r) \<and> matches d r)" if "d \<in> set (c # cs)" for d
    using q that unfolding queue_inv_def c by blast
  then obtain r rs where r: "op_list c = r # rs" by (cases "op_list c") auto
  have i: "req_op r = i" and rest: "rest = map req_op rs @ concat (map (\<lambda>c. map req_op (op_list c)) cs)"
    using w by (simp_all add: waiting_ids_def c r)
  have "r = reqs (req_op r)" using ok [of c] r by simp
  then have ri: "r = reqs i" using i by simp
  let ?ws = "if rs = [] then cs else c\<lparr>op_list := rs\<rparr> # cs"
  have "gasnete_coll_scratch_remove_first_waiting_op st = Inr (st\<lparr>waiting_config_and_ops := ?ws\<rparr>)"
    by (simp add: gasnete_coll_scratch_remove_first_waiting_op_def gasnete_coll_scratch_remove_first_op_from_config_def c r)
  moreover have "concat (map (\<lambda>c. map req_op (op_list c)) ?ws) = rest" by (simp add: rest)
  moreover have "\<forall>c\<in>set ?ws. op_list c \<noteq> [] \<and> (\<forall>r\<in>set (op_list c). r = reqs (req_op r) \<and> matches c r)"
    using ok ok [of c] r by (auto simp: matches_ops split: if_splits)
  ultimately show ?thesis using c r ri i by (intro exI [of _ c] exI [of _ cs] exI [of _ ?ws]) simp
qed

end
