(* ===== verification/Scratch_Safety.thy ===== *)
theory Scratch_Safety
  imports Scratch_Inv
begin

text \<open>Every step of the scratch allocator keeps its invariant, and no assertion fails.\<close>

section \<open>Remote space\<close>

lemma remote_loop_positions:
  "distinct (map fst ps) \<Longrightarrow> fst (remote_alloc_loop ps st) = map (\<lambda>(p, n). ns_head (node_status st p)) ps"
proof (induction ps arbitrary: st)
  case (Cons x ps)
  obtain p n where x: "x = (p, n)" by (cases x)
  let ?s = "with_node p (\<lambda>m. m\<lparr>ns_head := ns_head m + n\<rparr>) st"
  have "fst (remote_alloc_loop ps ?s) = map (\<lambda>(p, n). ns_head (node_status ?s p)) ps"
    using Cons by simp
  also have "\<dots> = map (\<lambda>(p, n). ns_head (node_status st p)) ps"
    using Cons.prems x by (intro map_cong refl) force
  finally show ?case by (simp add: x Let_def split_def)
qed simp

lemma remote_scan_room:
  assumes "\<forall>(p, n)\<in>set ps. n \<le> scratch_size team" and "distinct (map fst ps)"
    and "fst (remote_alloc_scan team ps st)"
  shows "(\<forall>(p, n)\<in>set ps. ns_head (node_status (snd (remote_alloc_scan team ps st)) p) + n \<le> scratch_size team) \<and>
     (\<forall>q. q \<notin> fst ` set ps \<longrightarrow> node_status (snd (remote_alloc_scan team ps st)) q = node_status st q)"
  using assms
proof (induction team ps st rule: remote_alloc_scan.induct)
  case (2 team peer n ps stat)
  show ?case
  proof (cases "ns_head (node_status stat peer) + n > scratch_size team")
    case True
    then have go: "\<not> no_signal stat peer" using "2.prems"(3) by auto
    have "ns_head (node_status (reset_peer peer stat) peer) = 0" by (simp add: reset_peer_def)
    moreover have "node_status (reset_peer peer stat) q = node_status stat q" if "q \<noteq> peer" for q
      using that by (simp add: reset_peer_def)
    moreover have "peer \<notin> fst ` set ps" using "2.prems"(2) by simp
    ultimately show ?thesis using "2.IH"(1) [OF True go] "2.prems" True go by auto
  next
    case False
    moreover have "peer \<notin> fst ` set ps" using "2.prems"(2) by simp
    ultimately show ?thesis using "2.IH"(2) [OF False] "2.prems" by auto
  qed
qed simp

lemma peer_sizes_facts:
  assumes "req_ok team i r"
  shows "distinct (map fst (peer_sizes r))" "\<forall>(p, n)\<in>set (peer_sizes r). n \<le> scratch_size team"
    "sc_myrank team \<notin> fst ` set (peer_sizes r)"
proof -
  have "map fst (peer_sizes r) = out_peers r" by (rule nth_equalityI) (simp_all add: peer_sizes_def)
  then show "distinct (map fst (peer_sizes r))" using assms by (simp add: req_ok_def)
  show "sc_myrank team \<notin> fst ` set (peer_sizes r)" using assms by (simp add: req_ok_def peer_sizes_peers)
  have "out_sizes r ! (if req_op_type r = GASNETE_COLL_DISSEM_OP then 0 else k) \<in> set (out_sizes r)"
    if "k < length (out_peers r)" for k using assms that by (auto simp: req_ok_def)
  then show "\<forall>(p, n)\<in>set (peer_sizes r). n \<le> scratch_size team"
    using assms by (auto simp: peer_sizes_def req_ok_def)
qed

lemma fold_reset_head:
  "p \<in> set ps \<Longrightarrow> ns_head (node_status (fold reset_peer ps st) p) = 0"
proof -
  have keep: "ns_head (node_status st p) = 0 \<Longrightarrow> ns_head (node_status (fold reset_peer ps st) p) = 0" for ps st
    by (induction ps arbitrary: st) (simp_all add: reset_peer_def)
  show "p \<in> set ps \<Longrightarrow> ns_head (node_status (fold reset_peer ps st) p) = 0"
    by (induction ps arbitrary: st) (auto intro: keep simp: reset_peer_def)
qed

section \<open>Postponing\<close>

abbreviation known :: "nat \<Rightarrow> nat list \<Rightarrow> nat list" where
  "known i sub \<equiv> if i \<in> set sub then sub else sub @ [i]"

lemma active_frame:
  assumes "active_inv team reqs st act" and "active_config_and_ops st' = active_config_and_ops st"
    and "my_head team st' = my_head team st" and "\<And>j. myscratchpos (coll_ops st' j) = myscratchpos (coll_ops st j)"
  shows "active_inv team reqs st' act"
  using assms by (simp add: active_inv_def laid_out_def)

text \<open>An operation of the queue stays, a new one joins it.\<close>

lemma postpone_spec:
  assumes q: "queue_inv reqs st sub act" and i: "i \<notin> set act" and r: "reqs i = r" "req_op r = i"
  shows "\<exists>st'. scratch_postpone r st = Inr st' \<and> queue_inv reqs st' (known i sub) act \<and>
     waiting_ids st' = (if i \<in> set sub then waiting_ids st else waiting_ids st @ [i]) \<and>
     active_config_and_ops st' = active_config_and_ops st \<and> node_status st' = node_status st \<and>
     clear_signal_sent st' = clear_signal_sent st \<and>
     (\<forall>j. myscratchpos (coll_ops st' j) = myscratchpos (coll_ops st j) \<and>
        waiting_for_reconfig_clear (coll_ops st' j) = waiting_for_reconfig_clear (coll_ops st j))"
proof (cases "i \<in> set sub")
  case True
  then have "waiting_scratch_op (coll_ops st i)" using q i by (auto simp: queue_inv_def)
  then show ?thesis using True q r(2) by (simp add: scratch_postpone_def)
next
  case False
  from add_to_wait_spec [OF q False r] obtain ws where ws:
    "gasnete_coll_scratch_add_to_wait r st = Inr (st\<lparr>waiting_config_and_ops := ws,
       coll_ops := (coll_ops st)(i := (coll_ops st i)\<lparr>waiting_scratch_op := True, active_scratch_op := False\<rparr>)\<rparr>)"
    "concat (map (\<lambda>c. map req_op (op_list c)) ws) = waiting_ids st @ [i]"
    "\<forall>c\<in>set ws. op_list c \<noteq> [] \<and> (\<forall>r\<in>set (op_list c). r = reqs (req_op r) \<and> matches c r)" by blast
  let ?t = "st\<lparr>waiting_config_and_ops := ws,
       coll_ops := (coll_ops st)(i := (coll_ops st i)\<lparr>waiting_scratch_op := True, active_scratch_op := False\<rparr>)\<rparr>"
  have ids: "waiting_ids ?t = waiting_ids st @ [i]" using ws(2) by (simp add: waiting_ids_def)
  have "\<not> waiting_scratch_op (coll_ops st i)" using q False by (auto simp: queue_inv_def)
  then have "scratch_postpone r st = Inr ?t" using ws(1) r(2) by (simp add: scratch_postpone_def)
  moreover have "queue_inv reqs ?t (sub @ [i]) act"
    using q False ws(3) unfolding queue_inv_def ids by auto
  ultimately show ?thesis using False ids by (intro exI [of _ ?t]) simp
qed

section \<open>Activation\<close>

lemma activate_spec:
  assumes q: "queue_inv reqs st sub act" and a: "active_inv team reqs st act" and i: "i \<notin> set act"
    and r: "reqs i = r" "req_ok team i r" and m: "matches (active_config_and_ops st) r"
    and room: "my_head team st + incoming_size r \<le> scratch_size team"
    and front: "(i \<notin> set sub \<and> waiting_ids st = []) \<or> (i \<in> set sub \<and> waiting_ids st = i # tl (waiting_ids st))"
  shows "\<exists>st'. scratch_activate team r st = Inr st' \<and> queue_inv reqs st' (known i sub) (act @ [i]) \<and>
     active_inv team reqs st' (act @ [i]) \<and> \<not> clear_signal_sent st' \<and>
     scratchpos (coll_ops st' i) = map (\<lambda>(p, n). ns_head (node_status st p)) (peer_sizes r) \<and>
     (\<forall>j. j \<noteq> i \<longrightarrow> waiting_for_reconfig_clear (coll_ops st' j) = waiting_for_reconfig_clear (coll_ops st j))"
proof -
  have ri: "req_op r = i" using r(2) by (simp add: req_ok_def)
  let ?s1 = "with_op i (\<lambda>o'. o'\<lparr>active_scratch_op := True\<rparr>) (st\<lparr>scratch_empty := False, clear_signal_sent := False\<rparr>)"
  let ?queue = "if waiting_scratch_op (coll_ops ?s1 i)
        then (case waiting_config_and_ops ?s1 of [] \<Rightarrow> Inl ScratchAssertFailed
              | c # cs \<Rightarrow> if op_list c = [] \<or> hd (op_list c) \<noteq> r then Inl ScratchAssertFailed
                  else (case gasnete_coll_scratch_remove_first_waiting_op ?s1 of Inl e \<Rightarrow> Inl e
                        | Inr stat2 \<Rightarrow> Inr (with_op i (\<lambda>o'. o'\<lparr>waiting_scratch_op := False\<rparr>) stat2)))
        else Inr ?s1"
  have w1: "waiting_ids ?s1 = waiting_ids st" by (simp add: waiting_ids_def)
  have "queue_inv reqs ?s1 sub act" using q unfolding queue_inv_def w1 by (auto simp del: distinct_append)
  have flags: "waiting_scratch_op (coll_ops st j) \<longleftrightarrow> j \<in> set (waiting_ids st)" for j
    using q by (simp add: queue_inv_def)
  have sub: "sub = act @ waiting_ids st" "distinct sub" using q unfolding queue_inv_def by blast+
  have step: "\<exists>s2. ?queue = Inr s2 \<and> active_config_and_ops s2 = active_config_and_ops st \<and>
      node_status s2 = node_status st \<and> \<not> clear_signal_sent s2 \<and> waiting_ids s2 = tl (waiting_ids st) \<and>
      (\<forall>c\<in>set (waiting_config_and_ops s2). op_list c \<noteq> [] \<and> (\<forall>r\<in>set (op_list c). r = reqs (req_op r) \<and> matches c r)) \<and>
      (\<forall>j. j \<noteq> i \<longrightarrow> coll_ops s2 j = coll_ops st j) \<and> \<not> waiting_scratch_op (coll_ops s2 i)"
  proof (cases "i \<in> set sub")
    case False
    then show ?thesis using front flags q by (auto simp: waiting_ids_def queue_inv_def)
  next
    case True
    then have w: "waiting_ids ?s1 = i # tl (waiting_ids st)" using front by (simp add: waiting_ids_def)
    have "i \<in> set (waiting_ids st)" using front True by (metis list.set_intros(1))
    then have wi: "waiting_scratch_op (coll_ops ?s1 i)" using flags [of i] by simp
    from remove_first_spec [OF \<open>queue_inv reqs ?s1 sub act\<close> w] r(1) obtain c cs ws where
      c: "waiting_config_and_ops ?s1 = c # cs" "op_list c \<noteq> []" "hd (op_list c) = r"
      "gasnete_coll_scratch_remove_first_waiting_op ?s1 = Inr (?s1\<lparr>waiting_config_and_ops := ws\<rparr>)"
      "concat (map (\<lambda>c. map req_op (op_list c)) ws) = tl (waiting_ids st)"
      "\<forall>c\<in>set ws. op_list c \<noteq> [] \<and> (\<forall>r\<in>set (op_list c). r = reqs (req_op r) \<and> matches c r)" by metis
    have "?queue = Inr (with_op i (\<lambda>o'. o'\<lparr>waiting_scratch_op := False\<rparr>) (?s1\<lparr>waiting_config_and_ops := ws\<rparr>))"
      using wi c(2,3,4) unfolding c(1) by (simp only: if_True list.case sum.case) simp
    then show ?thesis using c(5,6) by (simp add: waiting_ids_def)
  qed
  then obtain s2 where s2: "?queue = Inr s2" "active_config_and_ops s2 = active_config_and_ops st"
    "node_status s2 = node_status st" "\<not> clear_signal_sent s2" "waiting_ids s2 = tl (waiting_ids st)"
    "\<forall>c\<in>set (waiting_config_and_ops s2). op_list c \<noteq> [] \<and> (\<forall>r\<in>set (op_list c). r = reqs (req_op r) \<and> matches c r)"
    "\<And>j. j \<noteq> i \<Longrightarrow> coll_ops s2 j = coll_ops st j" "\<not> waiting_scratch_op (coll_ops s2 i)" by blast
  let ?config = "(active_config_and_ops s2)\<lparr>op_list := active_list s2 @ [r]\<rparr>"
  have add: "gasnete_coll_scratch_add_op_to_config (active_config_and_ops s2) r = Inr ?config"
    using m by (intro add_op_matches) (simp add: s2(2))
  let ?s3 = "with_node (sc_myrank team) (\<lambda>n. n\<lparr>ns_head := ns_head n + incoming_size r\<rparr>) (s2\<lparr>active_config_and_ops := ?config\<rparr>)"
  obtain pos s4 where s4: "remote_alloc_loop (peer_sizes r) ?s3 = (pos, s4)" by fastforce
  let ?t = "with_op i (\<lambda>o'. o'\<lparr>myscratchpos := my_head team st, scratchpos := pos\<rparr>) s4"
  have act: "scratch_activate team r st = Inr ?t"
    unfolding scratch_activate_def Let_def ri s2(1) sum.case add
      gasnete_coll_scratch_make_local_alloc_def gasnete_coll_scratch_make_remote_alloc_def prod.case s4
    by (simp add: s2(3))
  have "same_local team ?s3 s4"
    using remote_loop_local [OF peer_sizes_facts(3) [OF r(2)], of ?s3] s4 by simp
  then have loc: "active_config_and_ops s4 = ?config" "waiting_config_and_ops s4 = waiting_config_and_ops s2"
    "coll_ops s4 = coll_ops s2" "\<not> clear_signal_sent s4"
    "my_head team s4 = my_head team st + incoming_size r"
    using s2(3,4) by (simp_all add: same_local_def)
  have ids: "waiting_ids ?t = tl (waiting_ids st)" using s2(5) by (simp add: waiting_ids_def loc(2))
  have "queue_inv reqs ?t (known i sub) (act @ [i])"
  proof -
    have order: "known i sub = (act @ [i]) @ tl (waiting_ids st)" using front sub(1) by auto
    have "distinct (known i sub)" using sub(2) by simp
    moreover have "waiting_scratch_op (coll_ops ?t j) \<longleftrightarrow> j \<in> set (tl (waiting_ids st))" for j
    proof (cases "j = i")
      case True
      have "i \<notin> set (tl (waiting_ids st))"
        using front sub by (metis distinct.simps(2) distinct_append list.sel(2) list.set(1) empty_iff)
      then show ?thesis using True s2(8) by (simp add: loc(3))
    next
      case False
      have "j \<in> set (waiting_ids st) \<longleftrightarrow> j \<in> set (tl (waiting_ids st))"
        using front False by (metis list.sel(2) set_ConsD list.set_intros(2))
      then show ?thesis using False flags [of j] s2(7) by (simp add: loc(3))
    qed
    ultimately show ?thesis using order s2(6) unfolding queue_inv_def ids by (simp add: loc(2))
  qed
  moreover have "active_inv team reqs ?t (act @ [i])"
  proof -
    have old: "\<forall>q\<in>set (active_list st). q = reqs (req_op q) \<and> req_op q \<in> set act \<and> matches (active_config_and_ops st) q"
      "distinct (map req_op (active_list st))" "laid_out team st" using a by (simp_all add: active_inv_def)
    have al: "active_list ?t = active_list st @ [r]" by (simp add: loc(1) s2(2))
    have pos: "myscratchpos (coll_ops ?t (req_op q)) = myscratchpos (coll_ops st (req_op q))" if "q \<in> set (active_list st)" for q
      using old(1) that i s2(7) by (auto simp: loc(3))
    have "i \<notin> set (map req_op (active_list st))" using old(1) i by auto
    then have "distinct (map req_op (active_list ?t))" unfolding al using old(2) ri by simp
    moreover have "\<forall>q\<in>set (active_list ?t). q = reqs (req_op q) \<and> req_op q \<in> set (act @ [i]) \<and> matches (active_config_and_ops ?t) q"
      unfolding al using old(1) r(1) ri m by (simp add: loc(1) s2(2) matches_ops)
    moreover have "laid_out team ?t"
    proof -
      have below: "\<forall>q\<in>set (active_list st). myscratchpos (coll_ops st (req_op q)) + incoming_size q \<le> my_head team st"
        and sorted: "sorted_wrt (\<lambda>r q. myscratchpos (coll_ops st (req_op r)) + incoming_size r \<le> myscratchpos (coll_ops st (req_op q))) (active_list st)"
        using old(3) by (simp_all add: laid_out_def)
      have "sorted_wrt (\<lambda>r q. myscratchpos (coll_ops ?t (req_op r)) + incoming_size r \<le> myscratchpos (coll_ops ?t (req_op q))) (active_list st)"
        using sorted pos by (elim sorted_wrt_mono_rel [rotated]) simp
      moreover have "my_head team ?t = my_head team st + incoming_size r" using loc(5) by simp
      moreover have "myscratchpos (coll_ops ?t i) = my_head team st" by simp
      ultimately show ?thesis using room below pos unfolding laid_out_def al
        by (auto simp: sorted_wrt_append ri)
    qed
    ultimately show ?thesis by (simp add: active_inv_def)
  qed
  moreover have "scratchpos (coll_ops ?t i) = map (\<lambda>(p, n). ns_head (node_status st p)) (peer_sizes r)"
  proof -
    have "pos = map (\<lambda>(p, n). ns_head (node_status ?s3 p)) (peer_sizes r)"
      using remote_loop_positions [OF peer_sizes_facts(1) [OF r(2)], of ?s3] s4 by simp
    also have "\<dots> = map (\<lambda>(p, n). ns_head (node_status st p)) (peer_sizes r)"
      using peer_sizes_facts(3) [OF r(2)] s2(3) by (intro map_cong refl) force
    finally show ?thesis by simp
  qed
  moreover have "\<forall>j. j \<noteq> i \<longrightarrow> waiting_for_reconfig_clear (coll_ops ?t j) = waiting_for_reconfig_clear (coll_ops st j)"
    using s2(7) by (simp add: loc(3))
  moreover have "\<not> clear_signal_sent ?t" using loc(4) by simp
  ultimately show ?thesis using act by (intro exI [of _ ?t]) simp
qed

section \<open>The end of a call\<close>

text \<open>
  Room for a request: the configuration is the request's, and there is space here and at each peer.
\<close>

definition room_for :: "scratch_team \<Rightarrow> gasnete_coll_scratch_req \<Rightarrow> gasnete_coll_scratch_status \<Rightarrow> bool" where
  "room_for team r st \<longleftrightarrow> matches (active_config_and_ops st) r \<and>
     my_head team st + incoming_size r \<le> scratch_size team \<and>
     (\<forall>(p, n)\<in>set (peer_sizes r). ns_head (node_status st p) + n \<le> scratch_size team)"

definition in_bounds :: "scratch_team \<Rightarrow> gasnete_coll_scratch_req \<Rightarrow> nat list \<Rightarrow> bool" where
  "in_bounds team r pos \<longleftrightarrow> length pos = length (out_peers r) \<and>
     list_all2 (\<lambda>x (p, n). x + n \<le> scratch_size team) pos (peer_sizes r)"

lemma finish_spec:
  assumes q: "queue_inv reqs st sub act" and a: "active_inv team reqs st act"
    and i: "i \<notin> set act" and r: "reqs i = r" "req_ok team i r"
    and front: "(i \<notin> set sub \<and> waiting_ids st = []) \<or> (\<exists>ws. i \<in> set sub \<and> waiting_ids st = i # ws)"
    and others: "\<And>j. j \<notin> set act \<Longrightarrow> j \<noteq> i \<Longrightarrow> \<not> waiting_for_reconfig_clear (coll_ops st j)"
    and drain: "clear_signal_sent st \<Longrightarrow> active_list st = [] \<and> my_head team st = 0 \<and> matches (active_config_and_ops st) r"
      "waiting_for_reconfig_clear (coll_ops st i) \<Longrightarrow> clear_signal_sent st"
    and local: "same_local team st (snd x)" and room: "fst x \<Longrightarrow> room_for team r (snd x)"
    and fits: "\<forall>j\<in>set (known i sub). incoming_size (reqs j) \<le> scratch_size team"
  shows "\<exists>st'. scratch_finish team r msgs x = Inr (msgs, st', fst x) \<and>
     scratch_inv team reqs st' (known i sub) (if fst x then act @ [i] else act) \<and>
     (fst x \<longrightarrow> in_bounds team r (scratchpos (coll_ops st' i)))"
proof -
  have ri: "req_op r = i" using r(2) by (simp add: req_ok_def)
  let ?s = "snd x"
  have q': "queue_inv reqs ?s sub act" and a': "active_inv team reqs ?s act" and w: "waiting_ids ?s = waiting_ids st"
    using q a local by (simp_all add: local_queue local_active local_waiting)
  have same: "active_config_and_ops ?s = active_config_and_ops st" "coll_ops ?s = coll_ops st"
    "clear_signal_sent ?s = clear_signal_sent st" "my_head team ?s = my_head team st"
    using local by (simp_all add: same_local_def)
  have front': "(i \<notin> set sub \<and> waiting_ids ?s = []) \<or> (i \<in> set sub \<and> waiting_ids ?s = i # tl (waiting_ids ?s))"
    using front unfolding w by auto
  show ?thesis
  proof (cases "fst x")
    case True
    then have rm: "matches (active_config_and_ops ?s) r" "my_head team ?s + incoming_size r \<le> scratch_size team"
      "\<forall>(p, n)\<in>set (peer_sizes r). ns_head (node_status ?s p) + n \<le> scratch_size team"
      using room by (simp_all add: room_for_def)
    from activate_spec [OF q' a' i r rm(1,2) front'] obtain t where t: "scratch_activate team r ?s = Inr t"
      "queue_inv reqs t (known i sub) (act @ [i])" "active_inv team reqs t (act @ [i])" "\<not> clear_signal_sent t"
      "scratchpos (coll_ops t i) = map (\<lambda>(p, n). ns_head (node_status ?s p)) (peer_sizes r)"
      "\<And>j. j \<noteq> i \<Longrightarrow> waiting_for_reconfig_clear (coll_ops t j) = waiting_for_reconfig_clear (coll_ops ?s j)" by blast
    have "drain_inv team reqs t (act @ [i])" using t(4,6) others by (simp add: drain_inv_def same(2))
    moreover have "in_bounds team r (scratchpos (coll_ops t i))"
      using rm(3) by (auto simp: in_bounds_def t(5) peer_sizes_def list_all2_conv_all_nth)
    ultimately show ?thesis using True t(1-3) fits by (simp add: scratch_finish_def scratch_inv_def)
  next
    case False
    from postpone_spec [OF q' i r(1) ri] obtain t where t: "scratch_postpone r ?s = Inr t"
      "queue_inv reqs t (known i sub) act" "waiting_ids t = (if i \<in> set sub then waiting_ids ?s else waiting_ids ?s @ [i])"
      "active_config_and_ops t = active_config_and_ops ?s" "node_status t = node_status ?s"
      "clear_signal_sent t = clear_signal_sent ?s" "\<And>j. myscratchpos (coll_ops t j) = myscratchpos (coll_ops ?s j)"
      "\<And>j. waiting_for_reconfig_clear (coll_ops t j) = waiting_for_reconfig_clear (coll_ops ?s j)" by blast
    have "active_inv team reqs t act" using t(4,5,7) by (intro active_frame [OF a']) simp_all
    moreover have hd: "\<exists>ws. waiting_ids t = i # ws" using front' t(3) by (metis append_Nil)
    have "drain_inv team reqs t act"
      unfolding drain_inv_def t(4,5,6,8) same using drain others hd r(1) by (metis list.inject)
    ultimately show ?thesis using False t(1,2) fits by (simp add: scratch_finish_def scratch_inv_def)
  qed
qed

end
