(* ===== verification/Scratch_Properties.thy ===== *)
theory Scratch_Properties
  imports Scratch_Safety Barrier_Spec
begin

text \<open>
  Every call of the scratch allocator keeps its invariant, and what the allocator promises the
  collectives that use it.
\<close>

section \<open>Calls\<close>

lemma queue_head:
  assumes "queue_inv reqs st sub act" and "waiting_ids st = j # rest"
  shows "waiting_config_and_ops st \<noteq> [] \<and> op_list (hd (waiting_config_and_ops st)) \<noteq> [] \<and>
     req_op (hd (op_list (hd (waiting_config_and_ops st)))) = j"
  using remove_first_spec [OF assms] by auto

lemma queue_empty: "queue_inv reqs st sub act \<Longrightarrow> waiting_ids st = [] \<longleftrightarrow> waiting_config_and_ops st = []"
  by (cases "waiting_config_and_ops st") (auto simp: queue_inv_def waiting_ids_def)

lemma queue_flag: "queue_inv reqs st sub act \<Longrightarrow> i \<notin> set act \<Longrightarrow> waiting_scratch_op (coll_ops st i) \<longleftrightarrow> i \<in> set sub"
  by (auto simp: queue_inv_def)

text \<open>The part of a call that is reached by the operation whose turn it is.\<close>

definition alloc_turn ::
  "scratch_team \<Rightarrow> gasnete_coll_scratch_req \<Rightarrow> gasnete_coll_scratch_status \<Rightarrow>
   scratch_error + nat list \<times> gasnete_coll_scratch_status \<times> bool" where
  "alloc_turn team req stat =
     (let i = req_op req; op = coll_ops stat i;
          ok = matches (active_config_and_ops stat) req;
          idle = active_list stat = [] in
        if waiting_for_reconfig_clear op \<or> \<not> ok \<and> idle
        then (case (if \<not> waiting_for_reconfig_clear op then gasnete_coll_scratch_reconfigure stat req else Inr stat) of
                Inl e \<Rightarrow> Inl e
              | Inr stat1 \<Rightarrow>
                  let (msgs, stat2) = scratch_clear team stat1;
                      stat3 = with_op i (\<lambda>o'. o'\<lparr>waiting_for_reconfig_clear := True\<rparr>) stat2
                  in scratch_finish team req msgs (gasnete_coll_scratch_check_remote_clear req stat3))
        else if ok
        then if \<not> gasnete_coll_scratch_check_local_alloc team req stat \<and> \<not> idle
             then scratch_finish team req [] (False, stat)
             else let (msgs, stat1) =
                    (if \<not> gasnete_coll_scratch_check_local_alloc team req stat then scratch_clear team stat else ([], stat))
                  in scratch_finish team req msgs (gasnete_coll_scratch_check_remote_alloc team req stat1)
        else scratch_finish team req [] (False, stat))"

lemma alloc_front:
  assumes "queue_inv reqs st sub act" and "i \<notin> set act" and "req_op r = i" and "incoming_size r \<le> scratch_size team"
    and "(i \<notin> set sub \<and> waiting_ids st = []) \<or> (\<exists>ws. i \<in> set sub \<and> waiting_ids st = i # ws)"
  shows "gasnete_coll_scratch_alloc_nb team r st = alloc_turn team r st"
proof -
  have f: "waiting_scratch_op (coll_ops st i) \<longleftrightarrow> i \<in> set sub" using assms(1,2) by (rule queue_flag)
  from assms(5) show ?thesis
  proof
    assume "i \<notin> set sub \<and> waiting_ids st = []"
    then show ?thesis using f assms(3,4) queue_empty [OF assms(1)]
      unfolding gasnete_coll_scratch_alloc_nb_def alloc_turn_def Let_def by simp
  next
    assume "\<exists>ws. i \<in> set sub \<and> waiting_ids st = i # ws"
    then obtain ws where "i \<in> set sub" "waiting_ids st = i # ws" by blast
    then show ?thesis using f assms(3,4) queue_head [OF assms(1), of i ws]
      unfolding gasnete_coll_scratch_alloc_nb_def alloc_turn_def Let_def by simp
  qed
qed

text \<open>After the clear signals of a drain cycle the own space is empty.\<close>

lemma clear_spec:
  assumes "clear_signal_sent st \<Longrightarrow> my_head team st = 0"
  shows "clear_signal_sent (snd (scratch_clear team st))" "my_head team (snd (scratch_clear team st)) = 0"
    "active_config_and_ops (snd (scratch_clear team st)) = active_config_and_ops st"
    "waiting_config_and_ops (snd (scratch_clear team st)) = waiting_config_and_ops st"
    "coll_ops (snd (scratch_clear team st)) = coll_ops st"
  using assms by (auto simp: scratch_clear_def Let_def)

lemma queue_cong:
  assumes "queue_inv reqs st sub act" and "waiting_config_and_ops st' = waiting_config_and_ops st"
    and "\<And>j. waiting_scratch_op (coll_ops st' j) = waiting_scratch_op (coll_ops st j)"
  shows "queue_inv reqs st' sub act" "waiting_ids st' = waiting_ids st"
proof -
  show w: "waiting_ids st' = waiting_ids st" by (simp add: waiting_ids_def assms(2))
  show "queue_inv reqs st' sub act" using assms(1) unfolding queue_inv_def w assms(2,3) .
qed

lemma empty_active: "active_list st = [] \<Longrightarrow> my_head team st \<le> scratch_size team \<Longrightarrow> active_inv team reqs st act"
  by (simp add: active_inv_def laid_out_def)

lemma reconfigure_spec:
  assumes "active_list st = []" and "\<not> matches (active_config_and_ops st) r"
  shows "\<exists>c. gasnete_coll_scratch_reconfigure st r = Inr (st\<lparr>active_config_and_ops := c\<rparr>) \<and> op_list c = [] \<and> matches c r"
  using assms by (intro exI [of _ "(active_config_and_ops st)\<lparr>cf_op_type := req_op_type r,
      cf_tree_type := req_tree_type r, cf_root := Some (req_root r), cf_tree_dir := req_tree_dir r,
      cf_peers := in_peers r\<rparr>"])
    (simp add: gasnete_coll_scratch_reconfigure_def Let_def, simp add: gasnete_coll_scratch_compare_config_def)

text \<open>What holds when an operation's turn has come, and what its call must achieve.\<close>

definition my_turn ::
  "scratch_team \<Rightarrow> (nat \<Rightarrow> gasnete_coll_scratch_req) \<Rightarrow> gasnete_coll_scratch_status \<Rightarrow> nat list \<Rightarrow> nat list \<Rightarrow> nat \<Rightarrow> bool" where
  "my_turn team reqs st sub act i \<longleftrightarrow> queue_inv reqs st sub act \<and> active_inv team reqs st act \<and> i \<notin> set act \<and>
     req_ok team i (reqs i) \<and> incoming_size (reqs i) \<le> scratch_size team \<and>
     ((i \<notin> set sub \<and> waiting_ids st = []) \<or> (\<exists>ws. i \<in> set sub \<and> waiting_ids st = i # ws)) \<and>
     (\<forall>j. j \<notin> set act \<longrightarrow> j \<noteq> i \<longrightarrow> \<not> waiting_for_reconfig_clear (coll_ops st j)) \<and>
     (clear_signal_sent st \<longrightarrow> active_list st = [] \<and> my_head team st = 0 \<and> matches (active_config_and_ops st) (reqs i)) \<and>
     (waiting_for_reconfig_clear (coll_ops st i) \<longrightarrow> clear_signal_sent st) \<and>
     (\<forall>j\<in>set (known i sub). incoming_size (reqs j) \<le> scratch_size team)"

definition achieved ::
  "scratch_team \<Rightarrow> (nat \<Rightarrow> gasnete_coll_scratch_req) \<Rightarrow> nat list \<Rightarrow> nat list \<Rightarrow> nat \<Rightarrow>
   scratch_error + nat list \<times> gasnete_coll_scratch_status \<times> bool \<Rightarrow> bool" where
  "achieved team reqs sub act i res \<longleftrightarrow> (\<exists>msgs st' ok. res = Inr (msgs, st', ok) \<and>
     scratch_inv team reqs st' (known i sub) (if ok then act @ [i] else act) \<and>
     (ok \<longrightarrow> in_bounds team (reqs i) (scratchpos (coll_ops st' i))))"

lemma turn_begin:
  assumes inv: "scratch_inv team reqs st sub act" and i: "i \<notin> set act" "req_ok team i (reqs i)"
    "incoming_size (reqs i) \<le> scratch_size team"
    and front: "(i \<notin> set sub \<and> waiting_ids st = []) \<or> (\<exists>ws. i \<in> set sub \<and> waiting_ids st = i # ws)"
  shows "my_turn team reqs st sub act i"
proof -
  have d: "drain_inv team reqs st act" using inv by (simp add: scratch_inv_def)
  have "\<not> waiting_for_reconfig_clear (coll_ops st j)" if "j \<notin> set act" "j \<noteq> i" for j
    using d that front unfolding drain_inv_def by (metis list.distinct(1) list.inject)
  moreover have "active_list st = [] \<and> my_head team st = 0 \<and> matches (active_config_and_ops st) (reqs i)" if "clear_signal_sent st"
    using d that front unfolding drain_inv_def by (metis list.distinct(1) list.inject)
  moreover have "clear_signal_sent st" if "waiting_for_reconfig_clear (coll_ops st i)"
    using d that i unfolding drain_inv_def by blast
  ultimately show ?thesis using inv i front by (auto simp: my_turn_def scratch_inv_def)
qed

lemma turn_finish:
  assumes "my_turn team reqs st sub act i" and "same_local team st (snd x)"
    and "fst x \<Longrightarrow> room_for team (reqs i) (snd x)"
  shows "achieved team reqs sub act i (scratch_finish team (reqs i) msgs x)"
proof -
  have "\<exists>st'. scratch_finish team (reqs i) msgs x = Inr (msgs, st', fst x) \<and>
      scratch_inv team reqs st' (known i sub) (if fst x then act @ [i] else act) \<and>
      (fst x \<longrightarrow> in_bounds team (reqs i) (scratchpos (coll_ops st' i)))"
    by (rule finish_spec [of reqs st sub act team i "reqs i" x])
       (use assms in \<open>simp_all add: my_turn_def split del: if_split\<close>)
  then show ?thesis unfolding achieved_def by metis
qed

lemma turn_frame:
  assumes "my_turn team reqs st sub act i"
    and "waiting_config_and_ops st' = waiting_config_and_ops st"
    and "\<And>j. waiting_scratch_op (coll_ops st' j) = waiting_scratch_op (coll_ops st j)"
    and "\<And>j. j \<noteq> i \<Longrightarrow> waiting_for_reconfig_clear (coll_ops st' j) = waiting_for_reconfig_clear (coll_ops st j)"
    and "active_inv team reqs st' act"
    and "clear_signal_sent st' \<Longrightarrow> active_list st' = [] \<and> my_head team st' = 0 \<and> matches (active_config_and_ops st') (reqs i)"
    and "waiting_for_reconfig_clear (coll_ops st' i) \<Longrightarrow> clear_signal_sent st'"
  shows "my_turn team reqs st' sub act i"
proof -
  have "queue_inv reqs st sub act" using assms(1) by (simp add: my_turn_def)
  note qc = queue_cong [OF this assms(2,3)]
  show ?thesis using assms(1,4-7) qc unfolding my_turn_def by simp
qed

text \<open>A change of configuration: the peers have all signalled, or the operation waits.\<close>

lemma remote_clear_room:
  assumes "req_ok team i r" and "fst (gasnete_coll_scratch_check_remote_clear r st)"
    and "matches (active_config_and_ops st) r" and "my_head team st + incoming_size r \<le> scratch_size team"
  shows "room_for team r (snd (gasnete_coll_scratch_check_remote_clear r st))"
proof -
  have me: "sc_myrank team \<notin> set (out_peers r)" using assms(1) by (simp add: req_ok_def)
  have x: "snd (gasnete_coll_scratch_check_remote_clear r st) = fold reset_peer (out_peers r) st"
    using assms(2) by (simp add: gasnete_coll_scratch_check_remote_clear_def split: if_splits)
  have "ns_head (node_status (fold reset_peer (out_peers r) st) p) = 0" if "(p, n) \<in> set (peer_sizes r)" for p n
  proof -
    have "p \<in> fst ` set (peer_sizes r)" using that by force
    then show ?thesis by (intro fold_reset_head) (simp add: peer_sizes_peers)
  qed
  then have "\<forall>(p, n)\<in>set (peer_sizes r). ns_head (node_status (fold reset_peer (out_peers r) st) p) + n \<le> scratch_size team"
    using peer_sizes_facts(2) [OF assms(1)] by auto
  moreover have "same_local team st (fold reset_peer (out_peers r) st)" by (rule fold_reset_local [OF me])
  ultimately show ?thesis unfolding x using assms(3,4) by (simp add: room_for_def same_local_def)
qed

lemma turn_reconfig:
  assumes t: "my_turn team reqs st sub act i"
    and c: "waiting_for_reconfig_clear (coll_ops st i) \<or> \<not> matches (active_config_and_ops st) (reqs i) \<and> active_list st = []"
  shows "achieved team reqs sub act i (alloc_turn team (reqs i) st)"
proof -
  let ?r = "reqs i" and ?w = "waiting_for_reconfig_clear (coll_ops st i)"
  have f: "req_ok team i ?r" "incoming_size ?r \<le> scratch_size team"
    "clear_signal_sent st \<Longrightarrow> active_list st = [] \<and> my_head team st = 0 \<and> matches (active_config_and_ops st) ?r"
    "?w \<Longrightarrow> clear_signal_sent st" using t by (simp_all add: my_turn_def)
  have ri: "req_op ?r = i" and me: "sc_myrank team \<notin> set (out_peers ?r)" using f(1) by (simp_all add: req_ok_def)
  have idle: "active_list st = []" using c f(3,4) by blast
  have "\<exists>c. (if \<not> ?w then gasnete_coll_scratch_reconfigure st ?r else Inr st) = Inr (st\<lparr>active_config_and_ops := c\<rparr>) \<and>
      op_list c = [] \<and> matches c ?r"
  proof (cases ?w)
    case True
    then show ?thesis using f(3,4) by (intro exI [of _ "active_config_and_ops st"]) simp
  next
    case False
    then show ?thesis using c reconfigure_spec [OF idle] by simp
  qed
  then obtain c where rc: "(if \<not> ?w then gasnete_coll_scratch_reconfigure st ?r else Inr st) =
      Inr (st\<lparr>active_config_and_ops := c\<rparr>)" "op_list c = []" "matches c ?r" by blast
  obtain msgs s2 where s2: "scratch_clear team (st\<lparr>active_config_and_ops := c\<rparr>) = (msgs, s2)" by fastforce
  let ?s3 = "with_op i (\<lambda>o'. o'\<lparr>waiting_for_reconfig_clear := True\<rparr>) s2"
  have cs: "clear_signal_sent s2" "my_head team s2 = 0" "active_config_and_ops s2 = c"
    "waiting_config_and_ops s2 = waiting_config_and_ops st" "coll_ops s2 = coll_ops st"
    using clear_spec [of "st\<lparr>active_config_and_ops := c\<rparr>" team] f(3) s2 by simp_all
  let ?x = "gasnete_coll_scratch_check_remote_clear ?r ?s3"
  have "active_inv team reqs ?s3 act" by (rule empty_active) (simp_all add: cs rc)
  then have "my_turn team reqs ?s3 sub act i" by (intro turn_frame [OF t]) (simp_all add: cs rc)
  moreover have "same_local team ?s3 (snd ?x)"
    using fold_reset_local [OF me, of ?s3] by (simp add: gasnete_coll_scratch_check_remote_clear_def same_local_refl)
  moreover have "room_for team ?r (snd ?x)" if "fst ?x"
    using that f(2) by (intro remote_clear_room [OF f(1)]) (simp_all add: cs rc)
  ultimately have "achieved team reqs sub act i (scratch_finish team ?r msgs ?x)" by (rule turn_finish)
  moreover have "alloc_turn team ?r st = scratch_finish team ?r msgs ?x"
    using c unfolding alloc_turn_def Let_def ri rc(1) by (simp add: s2)
  ultimately show ?thesis by simp
qed

text \<open>The right configuration: space is found, made by a clear, or the operation waits.\<close>

lemma turn_space:
  assumes t: "my_turn team reqs st sub act i"
    and c: "\<not> waiting_for_reconfig_clear (coll_ops st i)" "matches (active_config_and_ops st) (reqs i)"
      "gasnete_coll_scratch_check_local_alloc team (reqs i) st \<or> active_list st = []"
  shows "achieved team reqs sub act i (alloc_turn team (reqs i) st)"
proof -
  let ?r = "reqs i" and ?local = "gasnete_coll_scratch_check_local_alloc team (reqs i) st"
  have f: "req_ok team i ?r" "incoming_size ?r \<le> scratch_size team" "active_inv team reqs st act"
    "clear_signal_sent st \<Longrightarrow> active_list st = [] \<and> my_head team st = 0 \<and> matches (active_config_and_ops st) ?r"
    using t by (simp_all add: my_turn_def)
  have ri: "req_op ?r = i" using f(1) by (simp add: req_ok_def)
  obtain msgs s1 where s1: "(if \<not> ?local then scratch_clear team st else ([], st)) = (msgs, s1)" by fastforce
  have c1: "active_config_and_ops s1 = active_config_and_ops st" "waiting_config_and_ops s1 = waiting_config_and_ops st"
    "coll_ops s1 = coll_ops st"
    using s1 clear_spec(3-5) [of st team] f(4) by (auto split: if_splits)
  have "my_head team s1 + incoming_size ?r \<le> scratch_size team \<and>
      (clear_signal_sent s1 \<longrightarrow> active_list s1 = [] \<and> my_head team s1 = 0) \<and> active_inv team reqs s1 act"
  proof (cases ?local)
    case True
    then show ?thesis using s1 f(3,4) by (auto simp: gasnete_coll_scratch_check_local_alloc_def)
  next
    case False
    then have e: "active_list s1 = []" "my_head team s1 = 0"
      using s1 clear_spec(2) [of st team] f(4) c1(1) c(3) by auto
    then show ?thesis using f(2) empty_active [OF e(1)] by simp
  qed
  then have h1: "my_head team s1 + incoming_size ?r \<le> scratch_size team"
    "clear_signal_sent s1 \<Longrightarrow> active_list s1 = [] \<and> my_head team s1 = 0" "active_inv team reqs s1 act" by blast+
  let ?x = "gasnete_coll_scratch_check_remote_alloc team ?r s1"
  have loc: "same_local team s1 (snd ?x)"
    unfolding gasnete_coll_scratch_check_remote_alloc_def
    by (rule remote_scan_local) (rule peer_sizes_facts(3) [OF f(1)])
  have "my_turn team reqs s1 sub act i" using h1 c by (intro turn_frame [OF t]) (simp_all add: c1)
  moreover note loc
  moreover have "room_for team ?r (snd ?x)" if "fst ?x"
    using remote_scan_room [OF peer_sizes_facts(2,1) [OF f(1)], of s1] that h1 loc c(2) c1(1)
    by (simp add: room_for_def gasnete_coll_scratch_check_remote_alloc_def same_local_def)
  ultimately have "achieved team reqs sub act i (scratch_finish team ?r msgs ?x)" by (rule turn_finish)
  moreover have "alloc_turn team ?r st = scratch_finish team ?r msgs ?x"
    using c s1 unfolding alloc_turn_def Let_def ri by auto
  ultimately show ?thesis by simp
qed

lemma turn_inv:
  assumes t: "my_turn team reqs st sub act i"
  shows "achieved team reqs sub act i (alloc_turn team (reqs i) st)"
proof -
  let ?m = "matches (active_config_and_ops st) (reqs i)" and ?w = "waiting_for_reconfig_clear (coll_ops st i)"
  let ?local = "gasnete_coll_scratch_check_local_alloc team (reqs i) st"
  have ri: "req_op (reqs i) = i" using t by (simp add: my_turn_def req_ok_def)
  consider "?w \<or> \<not> ?m \<and> active_list st = []" | "\<not> ?w" "?m" "?local \<or> active_list st = []"
    | "\<not> ?w" "?m \<and> \<not> ?local \<or> \<not> ?m" "active_list st \<noteq> []" by blast
  then show ?thesis
  proof cases
    case 3
    have "alloc_turn team (reqs i) st = scratch_finish team (reqs i) [] (False, st)"
      using 3 unfolding alloc_turn_def Let_def ri by auto
    then show ?thesis using turn_finish [OF t, of "(False, st)" "[]"] by (simp add: same_local_refl)
  qed (blast intro: turn_reconfig [OF t] turn_space [OF t])+
qed

text \<open>Any call of an operation that has no space yet.\<close>

lemma alloc_inv:
  assumes inv: "scratch_inv team reqs st sub act" and i: "i \<notin> set act" and r: "req_ok team i (reqs i)"
    and fit: "incoming_size (reqs i) \<le> scratch_size team"
  shows "achieved team reqs sub act i (gasnete_coll_scratch_alloc_nb team (reqs i) st)"
proof -
  have q: "queue_inv reqs st sub act" and ri: "req_op (reqs i) = i"
    using inv r by (simp_all add: scratch_inv_def req_ok_def)
  have f: "waiting_scratch_op (coll_ops st i) \<longleftrightarrow> i \<in> set sub" using q i by (rule queue_flag)
  have "i \<in> set sub \<Longrightarrow> waiting_ids st \<noteq> []" using q i by (auto simp: queue_inv_def)
  then consider "(i \<notin> set sub \<and> waiting_ids st = []) \<or> (\<exists>ws. i \<in> set sub \<and> waiting_ids st = i # ws)"
    | j ws where "i \<in> set sub" "waiting_ids st = j # ws" "j \<noteq> i" | "i \<notin> set sub" "waiting_ids st \<noteq> []"
    by (cases "waiting_ids st") auto
  then show ?thesis
  proof cases
    case 1
    then show ?thesis
      using turn_inv [OF turn_begin [OF inv i r fit 1]] alloc_front [OF q i ri fit 1] by simp
  next
    case 2
    then have "gasnete_coll_scratch_alloc_nb team (reqs i) st = Inr ([], st, False)"
      using f ri fit queue_head [OF q 2(2)] unfolding gasnete_coll_scratch_alloc_nb_def Let_def by simp
    then show ?thesis using inv 2(1) unfolding achieved_def
      by (intro exI [of _ "[]"] exI [of _ st] exI [of _ False]) simp
  next
    case 3
    from postpone_spec [OF q i refl ri] 3(1) obtain t where t: "scratch_postpone (reqs i) st = Inr t"
      "queue_inv reqs t (known i sub) act" "waiting_ids t = waiting_ids st @ [i]"
      "active_config_and_ops t = active_config_and_ops st" "node_status t = node_status st"
      "clear_signal_sent t = clear_signal_sent st" "\<And>j. myscratchpos (coll_ops t j) = myscratchpos (coll_ops st j)"
      "\<And>j. waiting_for_reconfig_clear (coll_ops t j) = waiting_for_reconfig_clear (coll_ops st j)" by auto
    have "gasnete_coll_scratch_alloc_nb team (reqs i) st = Inr ([], t, False)"
      using f ri fit 3 t(1) queue_empty [OF q]
      unfolding gasnete_coll_scratch_alloc_nb_def Let_def by (simp add: scratch_postpone_def)
    have "drain_inv team reqs t act"
      using inv 3(2) unfolding scratch_inv_def drain_inv_def t(3-6,8) by (metis append_Cons)
    moreover have "active_inv team reqs t act"
      using inv t(4,5,7) by - (rule active_frame [of team reqs st], simp_all add: scratch_inv_def)
    moreover have "\<forall>j\<in>set (known i sub). incoming_size (reqs j) \<le> scratch_size team"
      using inv fit by (auto simp: scratch_inv_def)
    ultimately have "scratch_inv team reqs t (known i sub) act" using t(2) unfolding scratch_inv_def by blast
    then show ?thesis unfolding achieved_def \<open>gasnete_coll_scratch_alloc_nb team (reqs i) st = Inr ([], t, False)\<close>
      by (intro exI [of _ "[]"] exI [of _ t] exI [of _ False]) simp
  qed
qed

section \<open>All steps\<close>

lemma sorted_wrt_drop_one: "sorted_wrt P (xs @ r # ys) \<Longrightarrow> sorted_wrt P (xs @ ys)"
  by (simp add: sorted_wrt_append)

lemma free_inv:
  assumes inv: "scratch_inv team reqs st sub act" and i: "reqs i \<in> set (active_list st)"
  shows "scratch_inv team reqs (gasnete_coll_free_scratch (reqs i) st) sub act"
proof -
  let ?t = "gasnete_coll_free_scratch (reqs i) st" and ?r = "reqs i"
  have a: "active_inv team reqs st act" and d: "drain_inv team reqs st act" and q: "queue_inv reqs st sub act"
    using inv by (simp_all add: scratch_inv_def)
  obtain xs ys where l: "active_list st = xs @ ?r # ys" "?r \<notin> set xs" using i by (metis split_list_first)
  then have l': "active_list ?t = xs @ ys" by (simp add: gasnete_coll_free_scratch_def remove1_append)
  have same: "node_status ?t = node_status st" "coll_ops ?t = coll_ops st" "clear_signal_sent ?t = clear_signal_sent st"
    "waiting_config_and_ops ?t = waiting_config_and_ops st"
    "\<And>x. matches (active_config_and_ops ?t) x = matches (active_config_and_ops st) x"
    by (simp_all add: gasnete_coll_free_scratch_def matches_ops)
  have "laid_out team ?t"
  proof -
    have "sorted_wrt (\<lambda>r q. myscratchpos (coll_ops st (req_op r)) + incoming_size r \<le> myscratchpos (coll_ops st (req_op q))) (xs @ ?r # ys)"
      "my_head team st \<le> scratch_size team"
      "\<forall>r\<in>set (xs @ ?r # ys). myscratchpos (coll_ops st (req_op r)) + incoming_size r \<le> my_head team st"
      using a unfolding active_inv_def laid_out_def l(1) by blast+
    then show ?thesis unfolding laid_out_def l' same(1,2) using sorted_wrt_drop_one by fastforce
  qed
  then have "active_inv team reqs ?t act" using a unfolding active_inv_def l l' same(5) by simp
  moreover have qt: "queue_inv reqs ?t sub act" "waiting_ids ?t = waiting_ids st"
    by (rule queue_cong [OF q]; simp add: same)+
  moreover have "drain_inv team reqs ?t act"
    using d unfolding drain_inv_def qt(2) same l l' by auto
  ultimately show ?thesis using inv by (simp add: scratch_inv_def)
qed

lemma alloc_fits:
  assumes "scratch_inv team reqs st sub act" and "i \<notin> set act" and "req_op (reqs i) = i"
    and "gasnete_coll_scratch_alloc_nb team (reqs i) st = Inr x"
  shows "incoming_size (reqs i) \<le> scratch_size team"
proof (cases "i \<in> set sub")
  case True
  then show ?thesis using assms(1) by (simp add: scratch_inv_def)
next
  case False
  then have "\<not> waiting_scratch_op (coll_ops st i)" using assms(1,2) queue_flag by (auto simp: scratch_inv_def)
  then show ?thesis using assms(3,4) by (auto simp: gasnete_coll_scratch_alloc_nb_def Let_def split: if_splits)
qed

lemma scratch_step_inv:
  assumes "scratch_step team reqs s ev t" and "scratch_inv team reqs (status s) (submitted s) (activated s)"
    and "\<And>i. req_ok team i (reqs i)"
  shows "scratch_inv team reqs (status t) (submitted t) (activated t)"
  using assms(1)
proof cases
  case (step_alloc i msgs st ok)
  have "req_op (reqs i) = i" using assms(3) by (simp add: req_ok_def)
  from alloc_inv [OF assms(2) step_alloc(3) assms(3) alloc_fits [OF assms(2) step_alloc(3) this step_alloc(4)]]
  show ?thesis using step_alloc by (auto simp: achieved_def)
next
  case (step_free i)
  then show ?thesis using free_inv [OF assms(2)] by simp
next
  case (step_signal p)
  then have "same_local team (status s) (gasnete_coll_scratch_update_reqh p (status s))"
    by (simp add: same_local_def gasnete_coll_scratch_update_reqh_def)
  then show ?thesis using assms(2) step_signal(2)
    by (simp add: scratch_inv_def local_queue local_active local_drain)
qed

lemma scratch_reach_inv:
  assumes "reach scratch_init (scratch_step team reqs) s" and "\<And>i. req_ok team i (reqs i)"
  shows "scratch_inv team reqs (status s) (submitted s) (activated s)"
  using assms(1)
proof (induction rule: reach.induct)
  case reach_start
  show ?case using scratch_init_inv by (simp add: scratch_init_def)
next
  case (reach_step s e t)
  then show ?case using scratch_step_inv assms(2) by blast
qed

section \<open>A schedule\<close>

datatype scratch_action = DoAlloc nat | DoFree nat | DoSignal nat

fun scratch_do :: "scratch_team \<Rightarrow> (nat \<Rightarrow> gasnete_coll_scratch_req) \<Rightarrow> scratch_action \<Rightarrow> scratch_sys \<Rightarrow> scratch_sys option" where
  "scratch_do team reqs (DoAlloc i) s =
     (if i \<in> set (activated s) then None
      else case gasnete_coll_scratch_alloc_nb team (reqs i) (status s) of Inl _ \<Rightarrow> None
      | Inr (msgs, st, ok) \<Rightarrow> Some \<lparr>status = st,
          submitted = (if i \<in> set (submitted s) then submitted s else submitted s @ [i]),
          activated = (if ok then activated s @ [i] else activated s)\<rparr>)"
| "scratch_do team reqs (DoFree i) s =
     (if list_ex (\<lambda>r. req_op r = req_op (reqs i) \<and> r = reqs i) (active_list (status s))
      then Some (s\<lparr>status := gasnete_coll_free_scratch (reqs i) (status s)\<rparr>) else None)"
| "scratch_do team reqs (DoSignal p) s =
     (if p = sc_myrank team then None else Some (s\<lparr>status := gasnete_coll_scratch_update_reqh p (status s)\<rparr>))"

primrec scratch_exec :: "scratch_team \<Rightarrow> (nat \<Rightarrow> gasnete_coll_scratch_req) \<Rightarrow> scratch_action list \<Rightarrow> scratch_sys \<Rightarrow> scratch_sys option" where
  "scratch_exec team reqs [] s = Some s"
| "scratch_exec team reqs (a # as) s = (case scratch_do team reqs a s of None \<Rightarrow> None | Some t \<Rightarrow> scratch_exec team reqs as t)"

lemma scratch_do_step: "scratch_do team reqs a s = Some t \<Longrightarrow> \<exists>ev. scratch_step team reqs s ev t"
proof (cases a)
  case (DoAlloc i)
  assume t: "scratch_do team reqs a s = Some t"
  then have i: "i \<notin> set (activated s)" using DoAlloc by (simp split: if_splits)
  with t DoAlloc obtain x where x: "gasnete_coll_scratch_alloc_nb team (reqs i) (status s) = Inr x"
    by (cases "gasnete_coll_scratch_alloc_nb team (reqs i) (status s)") auto
  obtain msgs st ok where "x = (msgs, st, ok)" by (metis prod_cases3)
  with t DoAlloc i x step_alloc [of i s team reqs msgs st ok] show ?thesis by (intro exI [of _ "Alloc i msgs ok"]) simp
next
  case (DoFree i)
  assume "scratch_do team reqs a s = Some t"
  then show ?thesis using DoFree step_free [of reqs i s team] by (auto simp: list_ex_iff split: if_splits)
next
  case (DoSignal p)
  assume "scratch_do team reqs a s = Some t"
  then show ?thesis using DoSignal step_signal [of p team reqs s] by (auto split: if_splits)
qed

lemma scratch_exec_init:
  "scratch_exec team reqs as scratch_init = Some t \<Longrightarrow> reach scratch_init (scratch_step team reqs) t"
proof -
  have "scratch_exec team reqs as s = Some t \<Longrightarrow> reach scratch_init (scratch_step team reqs) s \<Longrightarrow>
      reach scratch_init (scratch_step team reqs) t" for s
    by (induction as arbitrary: s) (auto split: option.splits dest!: scratch_do_step intro: reach_step)
  then show "scratch_exec team reqs as scratch_init = Some t \<Longrightarrow> reach scratch_init (scratch_step team reqs) t"
    by (simp add: reach_start)
qed

text \<open>
  Rank 0 of a team with 100 bytes of scratch space; every operation receives 40 bytes and sends 40
  bytes to rank 2. Two operations get space, the third and the fourth wait.
\<close>

definition sdemo_team :: scratch_team where
  "sdemo_team = \<lparr>sc_myrank = 0, scratch_size = 100\<rparr>"

definition sdemo_reqs :: "nat \<Rightarrow> gasnete_coll_scratch_req" where
  "sdemo_reqs i = \<lparr>req_op = i, req_tree_type = None, req_root = 0, req_op_type = GASNETE_COLL_TREE_OP,
     req_tree_dir = GASNETE_COLL_DOWN_TREE, incoming_size = 40, in_peers = [1], out_peers = [2], out_sizes = [40]\<rparr>"

definition sdemo_full :: "scratch_action list" where
  "sdemo_full = [DoAlloc 0, DoSignal 2, DoAlloc 0, DoAlloc 1, DoAlloc 2, DoAlloc 3]"

definition sdemo_drained :: "scratch_action list" where
  "sdemo_drained = sdemo_full @ [DoFree 0, DoFree 1, DoSignal 2]"

lemma sdemo_ok: "req_ok sdemo_team i (sdemo_reqs i)"
  by (simp add: req_ok_def sdemo_team_def sdemo_reqs_def)

lemma sdemo_full_runs:
  "case scratch_exec sdemo_team sdemo_reqs sdemo_full scratch_init of None \<Rightarrow> False
   | Some s \<Rightarrow> map req_op (active_list (status s)) = [0, 1] \<and> activated s = [0, 1] \<and> submitted s = [0, 1, 2, 3]"
  by code_simp

lemma sdemo_drained_runs:
  "case scratch_exec sdemo_team sdemo_reqs sdemo_drained scratch_init of None \<Rightarrow> False
   | Some s \<Rightarrow> active_list (status s) = [] \<and> waiting_ids (status s) = [2, 3] \<and> activated s = [0, 1] \<and>
       \<not> no_signal (status s) 2"
  by code_simp

section \<open>Properties\<close>

text \<open>
  C18. The regions of the scratch space that the active operations of a rank hold are disjoint and
  inside the scratch space, and all active operations share the active configuration, whatever the
  order of allocations, releases and clear signals.
\<close>

theorem scratch_regions_disjoint:
  assumes "reach scratch_init (scratch_step team reqs) s" and "\<And>i. req_ok team i (reqs i)"
    and "r \<in> set (op_list (active_config_and_ops (status s)))" and "q \<in> set (op_list (active_config_and_ops (status s)))"
  shows "myscratchpos (coll_ops (status s) (req_op r)) + incoming_size r \<le> scratch_size team \<and>
     gasnete_coll_scratch_compare_config (active_config_and_ops (status s)) r \<and>
     (r \<noteq> q \<longrightarrow>
        myscratchpos (coll_ops (status s) (req_op r)) + incoming_size r \<le> myscratchpos (coll_ops (status s) (req_op q)) \<or>
        myscratchpos (coll_ops (status s) (req_op q)) + incoming_size q \<le> myscratchpos (coll_ops (status s) (req_op r)))"
proof -
  let ?st = "status s"
  have a: "active_inv team reqs ?st (activated s)"
    using scratch_reach_inv [OF assms(1,2)] by (simp add: scratch_inv_def)
  then have l: "laid_out team ?st" by (simp add: active_inv_def)
  obtain x y where x: "x < length (active_list ?st)" "active_list ?st ! x = r"
    and y: "y < length (active_list ?st)" "active_list ?st ! y = q" using assms(3,4) by (auto simp: in_set_conv_nth)
  have "myscratchpos (coll_ops ?st (req_op r)) + incoming_size r \<le> my_head team ?st" "my_head team ?st \<le> scratch_size team"
    using l assms(3) by (auto simp: laid_out_def)
  moreover have "x < y \<Longrightarrow> myscratchpos (coll_ops ?st (req_op r)) + incoming_size r \<le> myscratchpos (coll_ops ?st (req_op q))"
    "y < x \<Longrightarrow> myscratchpos (coll_ops ?st (req_op q)) + incoming_size q \<le> myscratchpos (coll_ops ?st (req_op r))"
    using l x y by (auto simp: laid_out_def sorted_wrt_iff_nth_less)
  moreover have "r \<noteq> q \<Longrightarrow> x < y \<or> y < x" using x(2) y(2) by (metis nat_neq_iff)
  ultimately show ?thesis using a assms(3) by (auto simp: active_inv_def)
qed

theorem scratch_regions_disjoint_witness:
  "case scratch_exec sdemo_team sdemo_reqs sdemo_full scratch_init of None \<Rightarrow> False
   | Some s \<Rightarrow> \<exists>r\<in>set (active_list (status s)). \<exists>q\<in>set (active_list (status s)). r \<noteq> q \<and> req_op r = 0 \<and> req_op q = 1 \<and> myscratchpos (coll_ops (status s) 0) + incoming_size r \<le> 100"
proof -
  obtain s where s: "scratch_exec sdemo_team sdemo_reqs sdemo_full scratch_init = Some s"
    and a: "map req_op (active_list (status s)) = [0, 1]"
    using sdemo_full_runs by (auto split: option.splits)
  then obtain r q where rq: "active_list (status s) = [r, q]" "req_op r = 0" "req_op q = 1" by auto
  have "myscratchpos (coll_ops (status s) (req_op r)) + incoming_size r \<le> scratch_size sdemo_team"
    using scratch_regions_disjoint [OF scratch_exec_init [OF s] sdemo_ok, of r q] rq by simp
  moreover have "r \<noteq> q" using rq by auto
  ultimately have "r \<noteq> q \<and> req_op r = 0 \<and> req_op q = 1 \<and> myscratchpos (coll_ops (status s) 0) + incoming_size r \<le> 100"
    using rq by (simp add: sdemo_team_def)
  then show ?thesis unfolding s option.case using rq(1) by - (rule bexI [of _ r], rule bexI [of _ q], simp_all)
qed

text \<open>
  Operations get scratch space in the order of their first call: the operations submitted so far
  are, in order, those that have got space followed by those that wait; none is lost or overtakes
  another.
\<close>

theorem scratch_first_come:
  assumes "reach scratch_init (scratch_step team reqs) s" and "\<And>i. req_ok team i (reqs i)"
  shows "submitted s = activated s @
       concat (map (\<lambda>c. map req_op (op_list c)) (waiting_config_and_ops (status s))) \<and> distinct (submitted s)"
  using scratch_reach_inv [OF assms] unfolding scratch_inv_def queue_inv_def waiting_ids_def by blast

theorem scratch_first_come_witness:
  "case scratch_exec sdemo_team sdemo_reqs sdemo_full scratch_init of None \<Rightarrow> False
   | Some s \<Rightarrow> concat (map (\<lambda>c. map req_op (op_list c)) (waiting_config_and_ops (status s))) = [2, 3]"
proof -
  obtain s where s: "scratch_exec sdemo_team sdemo_reqs sdemo_full scratch_init = Some s"
    and a: "activated s = [0, 1]" "submitted s = [0, 1, 2, 3]"
    using sdemo_full_runs by (auto split: option.splits)
  with scratch_first_come [OF scratch_exec_init [OF s] sdemo_ok] show ?thesis by simp
qed

text \<open>
  C19. In every reachable state a call of the allocator that asks for no more than the scratch space
  fails no assertion, and if it gets space, each position it gets in a peer's scratch space leaves
  room there for all that the operation sends.
\<close>

theorem scratch_alloc_in_bounds:
  assumes "reach scratch_init (scratch_step team reqs) s" and "\<And>i. req_ok team i (reqs i)"
    and "i \<notin> set (activated s)" and "incoming_size (reqs i) \<le> scratch_size team"
  shows "\<exists>msgs st ok. gasnete_coll_scratch_alloc_nb team (reqs i) (status s) = Inr (msgs, st, ok) \<and>
     (ok \<longrightarrow> length (scratchpos (coll_ops st i)) = length (out_peers (reqs i)) \<and>
        (\<forall>k<length (out_peers (reqs i)). scratchpos (coll_ops st i) ! k +
           out_sizes (reqs i) ! (if req_op_type (reqs i) = GASNETE_COLL_DISSEM_OP then 0 else k) \<le> scratch_size team))"
proof -
  from alloc_inv [OF scratch_reach_inv [OF assms(1,2)] assms(3) assms(2) assms(4)] obtain msgs st ok where
    res: "gasnete_coll_scratch_alloc_nb team (reqs i) (status s) = Inr (msgs, st, ok)"
    and b: "ok \<longrightarrow> in_bounds team (reqs i) (scratchpos (coll_ops st i))" unfolding achieved_def by blast
  show ?thesis
    using b unfolding in_bounds_def
    by (intro exI [of _ msgs] exI [of _ st] exI [of _ ok] conjI res)
       (auto simp: list_all2_conv_all_nth peer_sizes_def)
qed

theorem scratch_alloc_in_bounds_witness:
  "case scratch_exec sdemo_team sdemo_reqs sdemo_drained scratch_init of None \<Rightarrow> False
   | Some s \<Rightarrow> \<exists>msgs st ok. gasnete_coll_scratch_alloc_nb sdemo_team (sdemo_reqs 2) (status s) = Inr (msgs, st, ok)"
proof -
  obtain s where s: "scratch_exec sdemo_team sdemo_reqs sdemo_drained scratch_init = Some s" and a: "activated s = [0, 1]"
    using sdemo_drained_runs by (auto split: option.splits)
  have "2 \<notin> set (activated s)" "incoming_size (sdemo_reqs 2) \<le> scratch_size sdemo_team"
    by (simp_all add: a sdemo_reqs_def sdemo_team_def)
  from scratch_alloc_in_bounds [OF scratch_exec_init [OF s] sdemo_ok this] s show ?thesis by auto
qed

lemma scan_with_signals:
  "\<forall>p\<in>fst ` set ps. \<not> no_signal st p \<Longrightarrow> distinct (map fst ps) \<Longrightarrow> fst (remote_alloc_scan team ps st)"
proof (induction ps arbitrary: st)
  case (Cons x ps)
  obtain p n where x: "x = (p, n)" by (cases x)
  have "\<forall>q\<in>fst ` set ps. \<not> no_signal (reset_peer p st) q" using Cons.prems by (auto simp: x reset_peer_def)
  then show ?case using Cons by (simp add: x)
qed simp

text \<open>
  The allocator cannot get stuck: when the operations before it have released their space and
  each peer it sends to has a clear signal pending, the next call of the first waiting operation gets
  space.
\<close>

theorem scratch_head_progress:
  assumes "reach scratch_init (scratch_step team reqs) s" and "\<And>i. req_ok team i (reqs i)"
    and "concat (map (\<lambda>c. map req_op (op_list c)) (waiting_config_and_ops (status s))) = i # ws"
    and "op_list (active_config_and_ops (status s)) = []"
    and "\<forall>p\<in>set (out_peers (reqs i)).
      reset_signal_sent (node_status (status s) p) \<noteq> reset_signal_recv (node_status (status s) p)"
  shows "\<exists>msgs st. gasnete_coll_scratch_alloc_nb team (reqs i) (status s) = Inr (msgs, st, True)"
proof -
  let ?st = "status s" and ?r = "reqs i"
  have inv: "scratch_inv team reqs ?st (submitted s) (activated s)" using assms(1,2) by (rule scratch_reach_inv)
  have q: "queue_inv reqs ?st (submitted s) (activated s)" using inv by (simp add: scratch_inv_def)
  have w: "waiting_ids ?st = i # ws" using assms(3) by (simp add: waiting_ids_def)
  then have i: "i \<notin> set (activated s)" "i \<in> set (submitted s)" using q unfolding queue_inv_def by auto
  then have fit: "incoming_size ?r \<le> scratch_size team" using inv by (simp add: scratch_inv_def)
  have ok: "req_ok team i ?r" and ri: "req_op ?r = i" and me: "sc_myrank team \<notin> set (out_peers ?r)"
    using assms(2) by (simp_all add: req_ok_def)
  have front: "(i \<notin> set (submitted s) \<and> waiting_ids ?st = []) \<or> (\<exists>ws. i \<in> set (submitted s) \<and> waiting_ids ?st = i # ws)"
    using w i by blast
  note turn = alloc_front [OF q i(1) ri fit front]
  have clr: "no_signal (snd (scratch_clear team st)) p = no_signal st p" if "p \<in> set (out_peers ?r)" for st p
    using that me by (auto simp: scratch_clear_def Let_def)
  obtain msgs st b where res: "alloc_turn team ?r ?st = Inr (msgs, st, b)"
    using turn_inv [OF turn_begin [OF inv i(1) ok fit front]] by (auto simp: achieved_def)
  have "b"
  proof (cases "waiting_for_reconfig_clear (coll_ops ?st i) \<or> \<not> matches (active_config_and_ops ?st) ?r")
    case True
    then obtain st1 where st1: "(if \<not> waiting_for_reconfig_clear (coll_ops ?st i) then gasnete_coll_scratch_reconfigure ?st ?r
        else Inr ?st) = Inr st1" "node_status st1 = node_status ?st"
      using assms(4) by (cases "waiting_for_reconfig_clear (coll_ops ?st i)")
        (auto simp: gasnete_coll_scratch_reconfigure_def Let_def)
    let ?s3 = "with_op i (\<lambda>o'. o'\<lparr>waiting_for_reconfig_clear := True\<rparr>) (snd (scratch_clear team st1))"
    have "\<not> list_ex (no_signal ?s3) (out_peers ?r)"
      using assms(5) clr [of _ st1] st1(2) by (auto simp: list_ex_iff)
    then have "fst (gasnete_coll_scratch_check_remote_clear ?r ?s3)"
      by (simp add: gasnete_coll_scratch_check_remote_clear_def)
    moreover have "alloc_turn team ?r ?st =
        scratch_finish team ?r (fst (scratch_clear team st1)) (gasnete_coll_scratch_check_remote_clear ?r ?s3)"
      using True assms(4) unfolding alloc_turn_def Let_def ri st1(1) by (simp add: split_def)
    ultimately show ?thesis using res by (auto simp: scratch_finish_def split: sum.splits)
  next
    case False
    let ?m = "if \<not> gasnete_coll_scratch_check_local_alloc team ?r ?st then scratch_clear team ?st else ([], ?st)"
    have "\<forall>p\<in>fst ` set (peer_sizes ?r). \<not> no_signal (snd ?m) p"
      using assms(5) clr [of _ ?st] unfolding peer_sizes_peers by auto
    then have "fst (gasnete_coll_scratch_check_remote_alloc team ?r (snd ?m))"
      unfolding gasnete_coll_scratch_check_remote_alloc_def
      by (rule scan_with_signals) (rule peer_sizes_facts(1) [OF ok])
    moreover have "alloc_turn team ?r ?st =
        scratch_finish team ?r (fst ?m) (gasnete_coll_scratch_check_remote_alloc team ?r (snd ?m))"
      using False assms(4) unfolding alloc_turn_def Let_def ri by (simp add: split_def)
    ultimately show ?thesis using res by (auto simp: scratch_finish_def split: sum.splits)
  qed
  then show ?thesis using res turn by auto
qed

theorem scratch_head_progress_witness:
  "case scratch_exec sdemo_team sdemo_reqs sdemo_drained scratch_init of None \<Rightarrow> False
   | Some s \<Rightarrow> \<exists>msgs st. gasnete_coll_scratch_alloc_nb sdemo_team (sdemo_reqs 2) (status s) = Inr (msgs, st, True)"
proof -
  obtain s where s: "scratch_exec sdemo_team sdemo_reqs sdemo_drained scratch_init = Some s"
    and a: "active_list (status s) = []" "waiting_ids (status s) = [2, 3]" "\<not> no_signal (status s) 2"
    using sdemo_drained_runs by (auto split: option.splits)
  have "\<forall>p\<in>set (out_peers (sdemo_reqs 2)). \<not> no_signal (status s) p" using a(3) by (simp add: sdemo_reqs_def)
  from scratch_head_progress [OF scratch_exec_init [OF s] sdemo_ok a(2) [unfolded waiting_ids_def] a(1) this] s
  show ?thesis by simp
qed

end
