(* ===== verification/Dissemination.thy ===== *)
theory Dissemination
  imports Linked_List
begin

text \<open>
  Dissemination orders (\<^verbatim>\<open>extended-ref/coll/gasnet_trees.c\<close>): who sends to whom in each
  phase of an exchange with a given radix, how many blocks a phase moves, and the team's cache of
  these orders. The integers of the construction are natural numbers: team sizes stay below
  \<open>2 ^ 31\<close>. The two loops that some arguments never leave are partial functions.
\<close>

section \<open>Arithmetic\<close>

primrec gasnete_coll_build_tree_mypow :: "nat \<Rightarrow> nat \<Rightarrow> nat" where
  "gasnete_coll_build_tree_mypow base 0 = 1"
| "gasnete_coll_build_tree_mypow base (Suc pow) = gasnete_coll_build_tree_mypow base pow * base"

partial_function (option) mylogn_loop :: "nat \<Rightarrow> nat \<Rightarrow> nat \<Rightarrow> nat \<Rightarrow> nat option" where
  "mylogn_loop num base ret mult =
     (if num > mult then mylogn_loop num base (ret + 1) (mult * base) else Some ret)"

definition gasnete_coll_build_tree_mylogn :: "nat \<Rightarrow> nat \<Rightarrow> nat option" where
  "gasnete_coll_build_tree_mylogn num base = mylogn_loop num base 1 base"

partial_function (option) strip_zeros :: "nat \<Rightarrow> nat option" where
  "strip_zeros num = (if num mod 2 = 0 then strip_zeros (num div 2) else Some num)"

definition gasnete_coll_is_power_of_two :: "nat \<Rightarrow> bool option" where
  "gasnete_coll_is_power_of_two num = map_option (\<lambda>n. n div 2 = 0) (strip_zeros num)"

section \<open>Orders\<close>

record gasnete_coll_dissem_info = list_links +
  exchange_out_order :: "nat list"
  exchange_in_order :: "nat list"
  ptr_vec :: "nat list"
  dissemination_phases :: nat
  dissemination_radix :: nat
  max_dissem_blocks :: nat

text \<open>The number of ranks that take part with one rank in phase \<open>i\<close> of \<open>w\<close>, itself included.\<close>

definition dissem_h :: "nat \<Rightarrow> nat \<Rightarrow> nat \<Rightarrow> nat \<Rightarrow> nat \<Rightarrow> nat" where
  "dissem_h total_ranks r w i distance =
     (if i = w - 1 then total_ranks div distance + (if total_ranks mod distance \<noteq> 0 then 1 else 0) else r)"

function dissem_ptrs :: "nat \<Rightarrow> nat \<Rightarrow> nat \<Rightarrow> nat \<Rightarrow> nat \<Rightarrow> nat \<Rightarrow> nat list" where
  "dissem_ptrs total_ranks r w i distance ptr =
     (if i < w
      then let ptr' = ptr + (dissem_h total_ranks r w i distance - 1)
           in ptr' # dissem_ptrs total_ranks r w (i + 1) (distance * r) ptr'
      else [])"
  by pat_completeness auto
termination
  by (relation "measure (\<lambda>(n, r, w, i, d, p). w - i)") auto

function dissem_pairs :: "nat \<Rightarrow> nat \<Rightarrow> nat \<Rightarrow> nat \<Rightarrow> nat \<Rightarrow> nat \<Rightarrow> (nat \<times> nat) list" where
  "dissem_pairs myrank total_ranks r w i distance =
     (if i < w
      then map (\<lambda>j. ((myrank + j * distance) mod total_ranks,
                     if myrank < j * distance then total_ranks + myrank - j * distance else myrank - j * distance))
             [1..<dissem_h total_ranks r w i distance] @
           dissem_pairs myrank total_ranks r w (i + 1) (distance * r)
      else [])"
  by pat_completeness auto
termination
  by (relation "measure (\<lambda>(me, n, r, w, i, d). w - i)") auto

declare dissem_ptrs.simps [simp del] dissem_pairs.simps [simp del]

text \<open>The blocks whose digit \<open>i\<close> in radix \<open>r\<close> is 1, and the largest such number over the phases.\<close>

definition digit_count :: "nat \<Rightarrow> nat \<Rightarrow> nat \<Rightarrow> nat \<Rightarrow> nat" where
  "digit_count total_ranks r i x =
     length (filter (\<lambda>j. (j div gasnete_coll_build_tree_mypow r i) mod r = x) [0..<total_ranks])"

definition gasnete_coll_build_dissemination :: "nat \<Rightarrow> nat \<Rightarrow> nat \<Rightarrow> gasnete_coll_dissem_info option" where
  "gasnete_coll_build_dissemination r total_ranks myrank =
     do { w \<leftarrow> gasnete_coll_build_tree_mylogn total_ranks r;
          let pairs = dissem_pairs myrank total_ranks r w 0 1 in
          Some \<lparr>lk_next = None, lk_prev = None,
            exchange_out_order = map fst pairs, exchange_in_order = map snd pairs,
            ptr_vec = 0 # dissem_ptrs total_ranks r w 0 1 0,
            dissemination_phases = (if total_ranks > 1 then w else 0), dissemination_radix = r,
            max_dissem_blocks = fold (\<lambda>i m. max m (digit_count total_ranks r i 1)) [0..<w] (max 1 (total_ranks div r))\<rparr> }"

section \<open>The cache\<close>

record dissem_cache =
  dc_mem :: "nat \<Rightarrow> gasnete_coll_dissem_info option"
  dc_brk :: nat
  dissem_cache_head :: "nat option"
  dissem_cache_tail :: "nat option"

definition empty_dissem_cache :: dissem_cache where
  "empty_dissem_cache = \<lparr>dc_mem = (\<lambda>_. None), dc_brk = 0, dissem_cache_head = None, dissem_cache_tail = None\<rparr>"

partial_function (option) dissem_search ::
  "(nat \<Rightarrow> gasnete_coll_dissem_info option) \<Rightarrow> nat \<Rightarrow> nat option \<Rightarrow> nat option option" where
  "dissem_search m radix temp = (case temp of
     None \<Rightarrow> Some None
   | Some p \<Rightarrow> (case m p of None \<Rightarrow> None
      | Some g \<Rightarrow> if dissemination_radix g = radix then Some (Some p) else dissem_search m radix (lk_next g)))"

definition gasnete_coll_fetch_dissemination ::
  "nat \<Rightarrow> nat \<Rightarrow> nat \<Rightarrow> dissem_cache \<Rightarrow> (nat \<times> dissem_cache) option" where
  "gasnete_coll_fetch_dissemination radix total_ranks myrank c =
     (let p = dc_brk c in
      if dissem_cache_head c = None \<and> dissem_cache_tail c = None
      then do { temp \<leftarrow> gasnete_coll_build_dissemination radix total_ranks myrank;
                Some (p, \<lparr>dc_mem = (dc_mem c)(p \<mapsto> temp\<lparr>lk_next := None, lk_prev := None\<rparr>), dc_brk = Suc p,
                  dissem_cache_head = Some p, dissem_cache_tail = Some p\<rparr>) }
      else do { r \<leftarrow> dissem_search (dc_mem c) radix (dissem_cache_head c);
                case r of Some q \<Rightarrow> Some (q, c)
                | None \<Rightarrow>
                    do { temp \<leftarrow> gasnete_coll_build_dissemination radix total_ranks myrank;
                         m \<leftarrow> set_next (dissem_cache_tail c) (Some p)
                                ((dc_mem c)(p \<mapsto> temp\<lparr>lk_next := None, lk_prev := dissem_cache_tail c\<rparr>));
                         Some (p, c\<lparr>dc_mem := m, dc_brk := Suc p, dissem_cache_tail := Some p\<rparr>) } })"

partial_function (option) dissem_free_all ::
  "nat option \<Rightarrow> (nat \<Rightarrow> gasnete_coll_dissem_info option) \<Rightarrow> (nat \<Rightarrow> gasnete_coll_dissem_info option) option" where
  "dissem_free_all temp m = (case temp of
     None \<Rightarrow> Some m
   | Some p \<Rightarrow> (case m p of None \<Rightarrow> None | Some g \<Rightarrow> dissem_free_all (lk_next g) (m(p := None))))"

definition gasnete_coll_purge_dissemination :: "dissem_cache \<Rightarrow> dissem_cache option" where
  "gasnete_coll_purge_dissemination c =
     do { m \<leftarrow> dissem_free_all (dissem_cache_head c) (dc_mem c);
          Some (c\<lparr>dc_mem := m, dissem_cache_head := None, dissem_cache_tail := None\<rparr>) }"

section \<open>The number of phases\<close>

lemma mypow_power [simp]: "gasnete_coll_build_tree_mypow b n = b ^ n"
  by (induction n) (simp_all add: mult.commute)

lemma mylogn_loop_spec:
  assumes "1 < base" and "0 < mult"
  shows "\<exists>k. mylogn_loop num base ret mult = Some (ret + k) \<and> num \<le> mult * base ^ k \<and>
     (k = 0 \<or> mult * base ^ (k - 1) < num)"
  using assms(2)
proof (induction "num - mult" arbitrary: ret mult rule: less_induct)
  case less
  show ?case
  proof (cases "num > mult")
    case False
    then show ?thesis by (intro exI [of _ 0]) (simp add: mylogn_loop.simps [of num base ret mult])
  next
    case True
    have big: "mult < mult * base" using assms(1) less.prems by simp
    then have "num - mult * base < num - mult" using True by linarith
    from less.hyps [OF this, of "ret + 1"] big obtain k where
      k: "mylogn_loop num base (ret + 1) (mult * base) = Some (ret + 1 + k)" "num \<le> mult * base * base ^ k"
        "k = 0 \<or> mult * base * base ^ (k - 1) < num" by auto
    have "mylogn_loop num base ret mult = Some (ret + Suc k)"
      using True k(1) by (simp add: mylogn_loop.simps [of num base ret mult])
    moreover have "mult * base ^ k < num"
      using k(3) True by (cases k) (simp_all add: mult.assoc)
    ultimately show ?thesis using k(2) by (intro exI [of _ "Suc k"]) (simp add: mult.assoc)
  qed
qed

lemma mylogn_spec:
  assumes "1 < base"
  shows "\<exists>w. gasnete_coll_build_tree_mylogn num base = Some w \<and> 0 < w \<and> num \<le> base ^ w \<and>
     (w = 1 \<or> base ^ (w - 1) < num)"
proof -
  from mylogn_loop_spec [of base base num 1] assms obtain k where
    "gasnete_coll_build_tree_mylogn num base = Some (1 + k)" "num \<le> base * base ^ k"
    "k = 0 \<or> base * base ^ (k - 1) < num" by (auto simp: gasnete_coll_build_tree_mylogn_def)
  moreover have "base * base ^ (k - 1) = base ^ k" if "k \<noteq> 0" using that by (cases k) simp_all
  ultimately show ?thesis by (intro exI [of _ "Suc k"]) (cases "k = 0"; simp)
qed

lemma strip_zeros_spec: "0 < n \<Longrightarrow> \<exists>m. strip_zeros n = Some m \<and> odd m \<and> (m = 1 \<longleftrightarrow> (\<exists>k. n = 2 ^ k))"
proof (induction n rule: less_induct)
  case (less n)
  show ?case
  proof (cases "even n")
    case False
    have "n = 1 \<longleftrightarrow> (\<exists>k. n = 2 ^ k)"
    proof
      assume "\<exists>k. n = 2 ^ k"
      then obtain k where "n = 2 ^ k" ..
      then show "n = 1" using False by (cases k) auto
    qed (auto intro: exI [of _ 0])
    then show ?thesis using False by (simp add: strip_zeros.simps [of n] odd_iff_mod_2_eq_one)
  next
    case True
    then obtain h where h: "n = 2 * h" by blast
    then have "0 < h" "h < n" using less.prems by auto
    with less.IH obtain m where m: "strip_zeros h = Some m" "odd m" "m = 1 \<longleftrightarrow> (\<exists>k. h = 2 ^ k)" by blast
    have "(\<exists>k. h = 2 ^ k) \<longleftrightarrow> (\<exists>k. n = 2 ^ k)"
    proof
      assume "\<exists>k. h = 2 ^ k"
      then obtain k where "h = 2 ^ k" ..
      then show "\<exists>k. n = 2 ^ k" using h by (intro exI [of _ "Suc k"]) simp
    next
      assume "\<exists>k. n = 2 ^ k"
      then obtain k where k: "n = 2 ^ k" ..
      then show "\<exists>k. h = 2 ^ k" using h True by (cases k) auto
    qed
    then show ?thesis using m h by (simp add: strip_zeros.simps [of "2 * h"])
  qed
qed

lemma is_power_of_two_iff: "0 < n \<Longrightarrow> gasnete_coll_is_power_of_two n = Some (\<exists>k. n = 2 ^ k)"
  using strip_zeros_spec [of n] by (auto simp: gasnete_coll_is_power_of_two_def elim: oddE)

text \<open>For 0 the loop never ends: the search for the lowest set bit finds none.\<close>

lemma strip_zeros_pos: "strip_zeros n = Some m \<Longrightarrow> 0 < n"
proof (erule strip_zeros.raw_induct [rotated])
  fix f :: "nat \<Rightarrow> nat option" and n m :: nat
  assume ih: "\<And>n m. f n = Some m \<Longrightarrow> 0 < n"
    and "(if n mod 2 = 0 then f (n div 2) else Some n) = Some m"
  then show "0 < n" using ih [of "n div 2" m] by (cases "n = 0") auto
qed

lemma is_power_of_two_zero: "gasnete_coll_is_power_of_two 0 = None"
  using strip_zeros_pos [of 0] by (cases "strip_zeros 0") (auto simp: gasnete_coll_is_power_of_two_def)

section \<open>Partners\<close>

text \<open>The distances to the partners, phase by phase.\<close>

definition partner_offsets :: "nat \<Rightarrow> nat \<Rightarrow> nat \<Rightarrow> nat list" where
  "partner_offsets N r w = concat (map (\<lambda>i. map (\<lambda>j. j * r ^ i) [1..<dissem_h N r w i (r ^ i)]) [0..<w])"

definition partners :: "nat \<Rightarrow> nat \<Rightarrow> nat \<Rightarrow> nat \<times> nat" where
  "partners me N x = ((me + x) mod N, if me < x then N + me - x else me - x)"

lemma dissem_pairs_from:
  "i \<le> w \<Longrightarrow> dissem_pairs me N r w i (r ^ i) = map (partners me N)
     (concat (map (\<lambda>i. map (\<lambda>j. j * r ^ i) [1..<dissem_h N r w i (r ^ i)]) [i..<w]))"
proof (induction "w - i" arbitrary: i)
  case 0
  then have "i = w" by simp
  moreover have "dissem_pairs me N r w w (r ^ w) = []" by (subst dissem_pairs.simps) simp
  ultimately show ?case by simp
next
  case (Suc n)
  then have i: "i < w" by simp
  have "dissem_pairs me N r w (i + 1) (r ^ i * r) = map (partners me N)
      (concat (map (\<lambda>i. map (\<lambda>j. j * r ^ i) [1..<dissem_h N r w i (r ^ i)]) [i + 1..<w]))"
    using Suc by (simp add: mult.commute flip: power_Suc)
  then show ?case using i
    by (simp add: dissem_pairs.simps [of me N r w i] upt_conv_Cons partners_def)
qed

lemma dissem_pairs_offsets: "dissem_pairs me N r w 0 1 = map (partners me N) (partner_offsets N r w)"
  using dissem_pairs_from [of 0 w me N r] by (simp add: partner_offsets_def)

lemma phase_bound:
  assumes "0 < N" and "i < w" and "0 < r" and "w = 1 \<or> r ^ (w - 1) < N" and "j < dissem_h N r w i (r ^ i)"
  shows "j * r ^ i < N"
proof (cases "i = w - 1")
  case True
  let ?d = "r ^ i"
  have d: "0 < ?d" using assms(3) by simp
  have jl: "j < N div ?d + (if N mod ?d \<noteq> 0 then 1 else 0)" using assms(5) True by (simp add: dissem_h_def)
  have Ne: "N = N div ?d * ?d + N mod ?d" by (rule div_mult_mod_eq [symmetric])
  show ?thesis
  proof (cases "N mod ?d = 0")
    case True
    then have "j < N div ?d" using jl by simp
    then have "j * ?d < N div ?d * ?d" using d by simp
    then show ?thesis using True Ne by linarith
  next
    case False
    then have "j \<le> N div ?d" using jl by simp
    then have "j * ?d \<le> N div ?d * ?d" by simp
    then show ?thesis using False Ne by linarith
  qed
next
  case False
  then have i: "Suc i \<le> w - 1" using assms(2) by simp
  have "j < r" using assms(5) False by (simp add: dissem_h_def)
  then have "j * r ^ i < r ^ Suc i" using assms(3) by simp
  also have "\<dots> \<le> r ^ (w - 1)" using assms(3) i by (intro power_increasing) simp_all
  also have "\<dots> < N" using assms(4) i by auto
  finally show ?thesis .
qed

lemma partners_inverse:
  assumes "me < N" and "0 < x" and "x < N"
  shows "fst (partners me N x) < N" "snd (partners me N x) < N" "fst (partners me N x) \<noteq> me"
    "snd (partners (fst (partners me N x)) N x) = me"
  using assms by (auto simp: partners_def mod_if)

lemma offset_bounds:
  assumes "0 < N" and "0 < r" and "w = 1 \<or> r ^ (w - 1) < N" and "x \<in> set (partner_offsets N r w)"
  shows "0 < x \<and> x < N"
proof -
  obtain i j where "i < w" "1 \<le> j" "j < dissem_h N r w i (r ^ i)" "x = j * r ^ i"
    using assms(4) by (auto simp: partner_offsets_def)
  then show ?thesis using phase_bound [OF assms(1) _ assms(2,3)] assms(2) by simp
qed

lemma dissem_ptrs_last:
  "i \<le> w \<Longrightarrow> length (dissem_ptrs N r w i (r ^ i) p) = w - i \<and>
     last (p # dissem_ptrs N r w i (r ^ i) p) =
     p + length (concat (map (\<lambda>i. map (\<lambda>j. j * r ^ i) [1..<dissem_h N r w i (r ^ i)]) [i..<w]))"
proof (induction "w - i" arbitrary: i p)
  case 0
  then have "i = w" by simp
  moreover have "dissem_ptrs N r w w (r ^ w) p = []" by (subst dissem_ptrs.simps) simp
  ultimately show ?case by simp
next
  case (Suc n)
  then have i: "i < w" by simp
  let ?p = "p + (dissem_h N r w i (r ^ i) - 1)"
  have "length (dissem_ptrs N r w (i + 1) (r ^ i * r) ?p) = w - (i + 1) \<and>
      last (?p # dissem_ptrs N r w (i + 1) (r ^ i * r) ?p) =
      ?p + length (concat (map (\<lambda>i. map (\<lambda>j. j * r ^ i) [1..<dissem_h N r w i (r ^ i)]) [i + 1..<w]))"
    using Suc(1) [of "i + 1" ?p] Suc(2) i by (simp add: mult.commute)
  then show ?case using i by (simp add: dissem_ptrs.simps [of N r w i] upt_conv_Cons Let_def)
qed

section \<open>Completeness of the exchange\<close>

lemma digits_sum: "(\<Sum>i<n. (d div r ^ i mod r) * r ^ i) = d mod r ^ n" for d r :: nat
proof (induction n)
  case (Suc n)
  have "d mod r ^ Suc n = r ^ n * (d div r ^ n mod r) + d mod r ^ n"
    using mod_mult2_eq [of d "r ^ n" r] by (simp add: mult.commute)
  then show ?case using Suc by (simp add: mult.commute)
qed simp

lemma every_distance:
  assumes "0 < r" and "0 < w" and "d < N"
  shows "\<exists>js. length js = w \<and> (\<forall>i<w. js ! i < dissem_h N r w i (r ^ i)) \<and> d = (\<Sum>i<w. js ! i * r ^ i)"
proof -
  obtain v where w: "w = Suc v" using assms(2) by (cases w) auto
  let ?js = "map (\<lambda>i. if i = v then d div r ^ v else d div r ^ i mod r) [0..<w]"
  have "d div r ^ v < dissem_h N r w v (r ^ v)"
  proof -
    have p: "0 < r ^ v" using assms(1) by simp
    show ?thesis
    proof (cases "N mod r ^ v = 0")
      case True
      then have "d < N div r ^ v * r ^ v" using assms(3) by (metis add.right_neutral div_mult_mod_eq)
      then have "d div r ^ v < N div r ^ v" by (rule less_mult_imp_div_less)
      then show ?thesis using True w by (simp add: dissem_h_def)
    next
      case False
      have "d div r ^ v \<le> N div r ^ v" using assms(3) by (intro div_le_mono) simp
      then show ?thesis using False w by (simp add: dissem_h_def)
    qed
  qed
  moreover have nth: "?js ! i = (if i = v then d div r ^ v else d div r ^ i mod r)" if "i < w" for i
    using that by (simp del: upt_Suc)
  ultimately have "\<forall>i<w. ?js ! i < dissem_h N r w i (r ^ i)" using assms(1) w by (simp add: dissem_h_def)
  moreover have "(\<Sum>i<w. ?js ! i * r ^ i) = d"
  proof -
    have "(\<Sum>i<w. ?js ! i * r ^ i) = (\<Sum>i<v. (d div r ^ i mod r) * r ^ i) + d div r ^ v * r ^ v"
      unfolding w by (simp del: upt_Suc)
    also have "\<dots> = d" unfolding digits_sum by (rule mod_div_mult_eq)
    finally show ?thesis .
  qed
  ultimately show ?thesis by (intro exI [of _ ?js]) simp
qed

section \<open>Blocks\<close>

lemma digit_count_le:
  assumes "1 \<le> x" and "0 < r"
  shows "digit_count N r i x \<le> digit_count N r i 1"
proof (cases "x < r")
  case False
  then have "filter (\<lambda>j. j div r ^ i mod r = x) [0..<N] = []"
    using assms(2) by (auto simp: filter_empty_conv)
  then show ?thesis by (simp add: digit_count_def)
next
  case True
  let ?S = "\<lambda>x. {j. j < N \<and> j div r ^ i mod r = x}"
  have card: "digit_count N r i y = card (?S y)" for y
    by (simp add: digit_count_def distinct_length_filter Int_def conj_commute)
  let ?f = "\<lambda>j. j - (x - 1) * r ^ i"
  have p: "0 < r ^ i" using assms(2) by simp
  have big: "(x - 1) * r ^ i \<le> j \<and> (j - (x - 1) * r ^ i) div r ^ i mod r = 1" if "j \<in> ?S x" for j
  proof -
    have m: "j div r ^ i mod r = x" using that by simp
    have le: "x \<le> j div r ^ i" using m by (metis mod_less_eq_dividend)
    then have a: "(x - 1) * r ^ i \<le> j" using p by (metis diff_le_self dual_order.trans mult_le_mono1 div_times_less_eq_dividend)
    obtain y where y: "j = (x - 1) * r ^ i + y" using a le_Suc_ex by blast
    have "(j - (x - 1) * r ^ i) div r ^ i = j div r ^ i - (x - 1)" using p by (simp add: y)
    moreover have "(j div r ^ i - (x - 1)) mod r = 1"
    proof -
      have "j div r ^ i = r * (j div r ^ i div r) + x" using m by (metis mult_div_mod_eq)
      then have "j div r ^ i - (x - 1) = 1 + r * (j div r ^ i div r)" using assms(1) by linarith
      moreover have "(1 + r * (j div r ^ i div r)) mod r = 1" using True assms(1) by (simp only: mod_mult_self2 mod_less)
      ultimately show ?thesis by simp
    qed
    ultimately show ?thesis using a by simp
  qed
  have "inj_on ?f (?S x)" by (rule inj_onI) (metis big eq_diff_iff)
  moreover have "?f ` ?S x \<subseteq> ?S 1" using big by auto
  ultimately have "card (?S x) \<le> card (?S 1)" by (intro card_inj_on_le) auto
  then show ?thesis by (simp add: card)
qed

lemma fold_max_upper: "i \<in> set is \<Longrightarrow> f i \<le> fold (\<lambda>i m. max m (f i)) is (m :: nat)"
proof -
  have keep: "m \<le> fold (\<lambda>i m. max m (f i)) is (m :: nat)" for "is" m
    by (induction "is" arbitrary: m) (auto intro: le_trans [OF max.cobounded1])
  show "i \<in> set is \<Longrightarrow> f i \<le> fold (\<lambda>i m. max m (f i)) is m"
    by (induction "is" arbitrary: m) (auto intro: le_trans [OF max.cobounded2 keep])
qed

section \<open>The cache\<close>

definition dissem_rep :: "nat \<Rightarrow> nat \<Rightarrow> dissem_cache \<Rightarrow> nat list \<Rightarrow> bool" where
  "dissem_rep N me c ps \<longleftrightarrow> dll (dc_mem c) (dissem_cache_head c) (dissem_cache_tail c) ps \<and>
     dom (dc_mem c) = set ps \<and> (\<forall>p\<in>set ps. p < dc_brk c) \<and>
     (\<forall>p g. dc_mem c p = Some g \<longrightarrow> map_option list_links.more
        (gasnete_coll_build_dissemination (dissemination_radix g) N me) = Some (list_links.more g))"

lemma empty_dissem_rep: "dissem_rep N me empty_dissem_cache []"
  by (simp add: dissem_rep_def empty_dissem_cache_def dll_def)

lemma dissem_search_spec:
  "seg m pv xs None \<Longrightarrow> \<exists>r. dissem_search m radix (head_or xs None) = Some r \<and>
     (\<forall>p. r = Some p \<longrightarrow> p \<in> set xs \<and> map_option dissemination_radix (m p) = Some radix)"
proof (induction xs arbitrary: pv)
  case Nil
  then show ?case by (subst dissem_search.simps) simp
next
  case (Cons a xs)
  then obtain g where g: "m a = Some g" "lk_next g = head_or xs None" "seg m (Some a) xs None" by auto
  from Cons.IH [OF g(3)] obtain r where
    r: "dissem_search m radix (head_or xs None) = Some r"
      "\<forall>p. r = Some p \<longrightarrow> p \<in> set xs \<and> map_option dissemination_radix (m p) = Some radix" by blast
  show ?case
  proof (cases "dissemination_radix g = radix")
    case True
    then have "dissem_search m radix (Some a) = Some (Some a)" using g(1) by (subst dissem_search.simps) simp
    then show ?thesis using True g(1) by (intro exI [of _ "Some a"]) simp
  next
    case False
    then have "dissem_search m radix (Some a) = Some r" using g(1,2) r(1) by (subst dissem_search.simps) simp
    then show ?thesis using r(2) by (intro exI [of _ r]) simp
  qed
qed

lemma dll_last: "dll m h t ps \<Longrightarrow> ps \<noteq> [] \<Longrightarrow> h \<noteq> None \<and> t = Some (last ps)"
  by (cases ps) (auto simp: dll_def last_or_def)

text \<open>Appending a fresh cell.\<close>

lemma dll_append:
  assumes d: "dll m h t (qs @ [q])" and p: "m p = None" and g: "lk_next g = None" "lk_prev g = Some q"
  shows "\<exists>gq m'. m q = Some gq \<and> set_next t (Some p) (m(p \<mapsto> g)) = Some m' \<and>
     m' = m(p \<mapsto> g, q \<mapsto> gq\<lparr>lk_next := Some p\<rparr>) \<and> dll m' h (Some p) (qs @ [q, p])"
proof -
  have s: "seg m None (qs @ [q]) None" "distinct (qs @ [q])" "h = head_or (qs @ [q]) None" "t = Some q"
    using d by (simp_all add: dll_def)
  obtain gq where gq: "m q = Some gq" using seg_cell [OF s(1), of q] by auto
  have np: "p \<notin> set (qs @ [q])" using seg_cell [OF s(1)] p by force
  then have pq: "p \<noteq> q" by auto
  let ?m = "m(p \<mapsto> g, q \<mapsto> gq\<lparr>lk_next := Some p\<rparr>)"
  have "seg (m(p \<mapsto> g)) None (qs @ [q]) None" using s(1) seg_off [OF np, of m "Some g" None None] by metis
  then have "seg ?m None (qs @ [q]) (Some p)" using s(2) gq pq by (intro seg_next) auto
  then have "seg ?m None ((qs @ [q]) @ [p]) None"
    unfolding seg_append using g pq by simp
  then have "dll ?m h (Some p) (qs @ [q, p])" using s(2,3) np by (simp add: dll_def)
  moreover have "set_next t (Some p) (m(p \<mapsto> g)) = Some ?m" using gq pq by (simp add: s(4))
  ultimately show ?thesis using gq by blast
qed

lemma more_radix: "list_links.more g = list_links.more h \<Longrightarrow> dissemination_radix g = dissemination_radix h"
  for g h :: gasnete_coll_dissem_info
  by (cases g; cases h) simp

lemma build_radix: "gasnete_coll_build_dissemination r N me = Some g \<Longrightarrow> dissemination_radix g = r"
  by (auto simp: gasnete_coll_build_dissemination_def Let_def split: bind_splits)

lemma dissem_fetch_spec:
  assumes rep: "dissem_rep N me c ps" and b: "gasnete_coll_build_dissemination r N me = Some g"
  shows "\<exists>p c' qs. gasnete_coll_fetch_dissemination r N me c = Some (p, c') \<and> dissem_rep N me c' (ps @ qs) \<and>
     map_option list_links.more (dc_mem c' p) = Some (list_links.more g) \<and>
     (\<forall>x\<in>set ps. map_option list_links.more (dc_mem c' x) = map_option list_links.more (dc_mem c x))"
proof -
  have d: "dll (dc_mem c) (dissem_cache_head c) (dissem_cache_tail c) ps" and dom: "dom (dc_mem c) = set ps"
    and brk: "\<forall>p\<in>set ps. p < dc_brk c"
    and ok: "\<And>p k. dc_mem c p = Some k \<Longrightarrow> map_option list_links.more
        (gasnete_coll_build_dissemination (dissemination_radix k) N me) = Some (list_links.more k)"
    using rep by (simp_all add: dissem_rep_def)
  have new: "dc_mem c (dc_brk c) = None" using dom brk by (metis domIff less_irrefl)
  have rg: "dissemination_radix g = r" using b by (rule build_radix)
  show ?thesis
  proof (cases ps rule: rev_cases)
    case Nil
    then have e: "dissem_cache_head c = None" "dissem_cache_tail c = None" using d by (simp_all add: dll_def)
    let ?c = "\<lparr>dc_mem = (dc_mem c)(dc_brk c \<mapsto> g\<lparr>lk_next := None, lk_prev := None\<rparr>), dc_brk = Suc (dc_brk c),
        dissem_cache_head = Some (dc_brk c), dissem_cache_tail = Some (dc_brk c)\<rparr>"
    have "gasnete_coll_fetch_dissemination r N me c = Some (dc_brk c, ?c)"
      by (simp add: gasnete_coll_fetch_dissemination_def e b Let_def)
    moreover have "dissem_rep N me ?c [dc_brk c]"
      using dom Nil b rg by (auto simp: dissem_rep_def dll_def)
    ultimately show ?thesis using Nil by (intro exI [of _ "dc_brk c"] exI [of _ ?c] exI [of _ "[dc_brk c]"]) simp
  next
    case (snoc qs q)
    have h: "dissem_cache_head c \<noteq> None" "dissem_cache_head c = head_or ps None" "dissem_cache_tail c = Some q"
      using dll_last [OF d] snoc d by (simp_all add: dll_def)
    obtain res where res: "dissem_search (dc_mem c) r (dissem_cache_head c) = Some res"
      "\<forall>p. res = Some p \<longrightarrow> p \<in> set ps \<and> map_option dissemination_radix (dc_mem c p) = Some r"
      using dissem_search_spec [of "dc_mem c" None ps r] d h(2) by (auto simp: dll_def)
    show ?thesis
    proof (cases res)
      case (Some p)
      then obtain k where k: "dc_mem c p = Some k" "dissemination_radix k = r" using res(2) by auto
      have "gasnete_coll_fetch_dissemination r N me c = Some (p, c)"
        using res(1) Some h(1) by (auto simp: gasnete_coll_fetch_dissemination_def)
      moreover have "list_links.more k = list_links.more g" using ok [OF k(1)] b k(2) by simp
      ultimately show ?thesis using rep k(1) by (intro exI [of _ p] exI [of _ c] exI [of _ "[]"]) simp
    next
      case None
      let ?p = "dc_brk c" and ?g = "g\<lparr>lk_next := None, lk_prev := Some q\<rparr>"
      have d': "dll (dc_mem c) (dissem_cache_head c) (dissem_cache_tail c) (qs @ [q])" using d snoc by simp
      have "lk_next ?g = None" "lk_prev ?g = Some q" by simp_all
      from dll_append [OF d' new this] obtain gq m where
        m: "dc_mem c q = Some gq" "set_next (dissem_cache_tail c) (Some ?p) ((dc_mem c)(?p \<mapsto> ?g)) = Some m"
          "m = (dc_mem c)(?p \<mapsto> ?g, q \<mapsto> gq\<lparr>lk_next := Some ?p\<rparr>)"
          "dll m (dissem_cache_head c) (Some ?p) (qs @ [q, ?p])" by (elim exE conjE) (rule that)
      have qp: "q \<noteq> ?p" using m(1) new by auto
      let ?c = "c\<lparr>dc_mem := m, dc_brk := Suc ?p, dissem_cache_tail := Some ?p\<rparr>"
      have "gasnete_coll_fetch_dissemination r N me c = Some (?p, ?c)"
        using res(1) None h m(2) by (auto simp: gasnete_coll_fetch_dissemination_def b Let_def)
      moreover have "dissem_rep N me ?c (ps @ [?p])"
      proof -
        have "map_option list_links.more (gasnete_coll_build_dissemination (dissemination_radix k) N me) =
            Some (list_links.more k)" if "m x = Some k" for x k
          using that ok ok [OF m(1)] b rg qp by (auto simp: m(3) split: if_splits)
        moreover have "dom m = set (ps @ [?p])" using dom snoc by (auto simp: m(3))
        ultimately show ?thesis using m(4) brk snoc by (auto simp: dissem_rep_def)
      qed
      moreover have "map_option list_links.more (m x) = map_option list_links.more (dc_mem c x)" if "x \<in> set ps" for x
        using that brk m(1) by (auto simp: m(3))
      ultimately show ?thesis using qp by (intro exI [of _ ?p] exI [of _ ?c] exI [of _ "[?p]"]) (simp add: m(3))
    qed
  qed
qed

text \<open>A history of fetches: the addresses returned, and the last cache.\<close>

primrec dissem_fetch_all :: "nat \<Rightarrow> nat \<Rightarrow> nat list \<Rightarrow> dissem_cache \<Rightarrow> (nat list \<times> dissem_cache) option" where
  "dissem_fetch_all N me [] c = Some ([], c)"
| "dissem_fetch_all N me (r # rs) c =
     do { (p, c1) \<leftarrow> gasnete_coll_fetch_dissemination r N me c;
          (ps, c2) \<leftarrow> dissem_fetch_all N me rs c1;
          Some (p # ps, c2) }"

lemma build_total: "1 < r \<Longrightarrow> \<exists>g. gasnete_coll_build_dissemination r N me = Some g"
  using mylogn_spec [of r N] by (auto simp: gasnete_coll_build_dissemination_def Let_def)

lemma dissem_fetch_all_spec:
  assumes "dissem_rep N me c ps" and "\<forall>r\<in>set rs. 1 < r"
  shows "\<exists>as c' qs. dissem_fetch_all N me rs c = Some (as, c') \<and> dissem_rep N me c' (ps @ qs) \<and>
     (\<forall>x\<in>set ps. map_option list_links.more (dc_mem c' x) = map_option list_links.more (dc_mem c x)) \<and>
     map (\<lambda>p. map_option list_links.more (dc_mem c' p)) as =
       map (\<lambda>r. map_option list_links.more (gasnete_coll_build_dissemination r N me)) rs"
  using assms
proof (induction rs arbitrary: c ps)
  case Nil
  then show ?case by (intro exI [of _ "[]"] exI [of _ c]) simp
next
  case (Cons r rs)
  obtain g where g: "gasnete_coll_build_dissemination r N me = Some g" using build_total [of r N me] Cons.prems(2) by (metis list.set_intros(1))
  from dissem_fetch_spec [OF Cons.prems(1) g] obtain p c1 qs where
    c1: "gasnete_coll_fetch_dissemination r N me c = Some (p, c1)" "dissem_rep N me c1 (ps @ qs)"
      "map_option list_links.more (dc_mem c1 p) = Some (list_links.more g)"
      "\<forall>x\<in>set ps. map_option list_links.more (dc_mem c1 x) = map_option list_links.more (dc_mem c x)" by blast
  have "p \<in> dom (dc_mem c1)" using c1(3) by auto
  then have p: "p \<in> set (ps @ qs)" using c1(2) by (simp add: dissem_rep_def)
  have "\<forall>r\<in>set rs. 1 < r" using Cons.prems(2) by simp
  from Cons.IH [OF c1(2) this] obtain as c2 qs2 where
    c2: "dissem_fetch_all N me rs c1 = Some (as, c2)" "dissem_rep N me c2 ((ps @ qs) @ qs2)"
      "\<forall>x\<in>set (ps @ qs). map_option list_links.more (dc_mem c2 x) = map_option list_links.more (dc_mem c1 x)"
      "map (\<lambda>p. map_option list_links.more (dc_mem c2 p)) as =
       map (\<lambda>r. map_option list_links.more (gasnete_coll_build_dissemination r N me)) rs" by blast
  have "map_option list_links.more (dc_mem c2 p) = Some (list_links.more g)" using c2(3) p c1(3) by metis
  then show ?case using c1(1,4) c2 g by (intro exI [of _ "p # as"] exI [of _ c2] exI [of _ "qs @ qs2"]) simp
qed

section \<open>Properties\<close>





text \<open>
  The scratch space of a dissemination all-to-all is large enough: in each phase \<open>i\<close> no more
  than \<open>max_dissem_blocks\<close> blocks go to one peer, the blocks for the ranks whose distance has that
  peer's digit in position \<open>i\<close>.
\<close>

theorem dissem_blocks_bound:
  assumes "gasnete_coll_build_dissemination r N me = Some info" and "1 < r" and "1 \<le> x"
    and "i < length (ptr_vec info) - 1"
  shows "card {j. j < N \<and> j div r ^ i mod r = x} \<le> max_dissem_blocks info"
proof -
  from mylogn_spec [OF assms(2), of N] obtain w where w: "gasnete_coll_build_tree_mylogn N r = Some w" by blast
  have info: "ptr_vec info = 0 # dissem_ptrs N r w 0 1 0"
    "max_dissem_blocks info = fold (\<lambda>i m. max m (digit_count N r i 1)) [0..<w] (max 1 (N div r))"
    using assms(1) w by (auto simp: gasnete_coll_build_dissemination_def Let_def)
  have i: "i < w" using assms(4) dissem_ptrs_last [of 0 w N r 0] by (simp add: info(1))
  have "card {j. j < N \<and> j div r ^ i mod r = x} = digit_count N r i x"
    by (simp add: digit_count_def distinct_length_filter Int_def conj_commute)
  also have "\<dots> \<le> digit_count N r i 1" using assms(2,3) by (intro digit_count_le) auto
  also have "\<dots> \<le> max_dissem_blocks info"
    unfolding info(2) using i by (intro fold_max_upper [of i "[0..<w]" "\<lambda>i. digit_count N r i 1"]) simp
  finally show ?thesis .
qed

theorem dissem_blocks_bound_witness:
  "\<exists>info. gasnete_coll_build_dissemination 3 7 2 = Some info \<and>
     card {j::nat. j < 7 \<and> j div 3 ^ 0 mod 3 = 2} \<le> max_dissem_blocks info"
proof -
  obtain info where i: "gasnete_coll_build_dissemination 3 7 2 = Some info" using build_total [of 3] by auto
  obtain w where "gasnete_coll_build_tree_mylogn 7 3 = Some w" "0 < w" using mylogn_spec [of 3 7] by auto
  then have "0 < length (ptr_vec info) - 1"
    using i dissem_ptrs_last [of 0 w 7 3 0] by (auto simp: gasnete_coll_build_dissemination_def Let_def)
  from dissem_blocks_bound [OF i _ _ this, of 2] i show ?thesis by simp
qed

text \<open>
  The cache of dissemination orders is transparent: whatever radices of at least 2 a team asks
  for, every fetch returns an order equal to the one that building it afresh would give, and an order
  that was returned stays valid.
\<close>

theorem dissem_cache_transparent:
  assumes "\<forall>r\<in>set rs. 1 < r"
  shows "\<exists>as c. dissem_fetch_all N me rs empty_dissem_cache = Some (as, c) \<and>
     map (\<lambda>p. map_option list_links.more (dc_mem c p)) as =
       map (\<lambda>r. map_option list_links.more (gasnete_coll_build_dissemination r N me)) rs"
  using dissem_fetch_all_spec [OF empty_dissem_rep assms, of N me] by blast

theorem dissem_cache_transparent_witness:
  "\<exists>as c. dissem_fetch_all 5 1 [2, 3, 2] empty_dissem_cache = Some (as, c)"
proof -
  have "\<forall>r\<in>set [2, 3, 2::nat]. 1 < r" by simp
  from dissem_cache_transparent [OF this, of 5 1] show ?thesis by blast
qed

end
