(* ===== verification/Vlide.thy ===== *)
theory Vlide
  imports Gasnet_Prelude
begin

text \<open>
  The incremental differential encoding of addresses in vector packets
  (\<^verbatim>\<open>extended-ref/vis/gasnet_vlide.h\<close>): the difference to the previous address in chunks
  of seven bits, the most significant first, with a continuation bit. Buffers are lists of bytes; the
  decoder returns what is left of its buffer, and \<open>None\<close> when it would use bytes past the end. The
  trailing byte that the code reads and does not use is left out.
\<close>

section \<open>The macros\<close>

text \<open>The loop that counts the chunks.\<close>

function count_chunks :: "u64 \<Rightarrow> nat \<Rightarrow> nat" where
  "count_chunks cdiff chunks = (if cdiff \<noteq> 0 then count_chunks (drop_bit 7 cdiff) (chunks + 1) else chunks)"
  by pat_completeness auto
termination
proof (relation "measure (\<lambda>(c, n). unat c)", goal_cases)
  case (2 c n)
  have "unat (drop_bit 7 c) = unat c div 2 ^ 7" by (simp add: drop_bit_eq_div unat_div)
  moreover have "0 < unat c" using 2 by (simp add: unat_gt_0)
  ultimately have "unat (drop_bit 7 c) < unat c" by simp
  then show ?case by simp
qed simp

declare count_chunks.simps [simp del]

text \<open>The loop that writes the chunks from the last to the first.\<close>

fun emit_chunks :: "nat \<Rightarrow> nat \<Rightarrow> u64 \<Rightarrow> u8 list \<Rightarrow> u8 list" where
  "emit_chunks 0 i diff p = p"
| "emit_chunks (Suc n) i diff p =
     emit_chunks n (i + 1) (drop_bit 7 diff) ((ucast (diff AND 0x7F) OR (if i \<noteq> 0 then 0x80 else 0)) # p)"

definition vlide_chunks :: "u64 \<Rightarrow> nat" where
  "vlide_chunks diff = count_chunks (drop_bit 6 (if c_and diff (push_bit 63 1) then NOT diff else diff)) 1"

definition GASNETI_VLIDE_ENCODE :: "u64 \<Rightarrow> u64 \<Rightarrow> u8 list" where
  "GASNETI_VLIDE_ENCODE prev cur =
     (let diff = cur - prev in
      if diff + 64 < 128 then [ucast (diff AND 0x7F)]
      else emit_chunks (vlide_chunks diff) 0 diff [])"

text \<open>The loop of the decoder.\<close>

fun gather_chunks :: "u8 list \<Rightarrow> u64 \<Rightarrow> (u64 \<times> u8 list) option" where
  "gather_chunks [] diff = None"
| "gather_chunks (b # datap) diff =
     (let diff' = push_bit 7 diff OR ucast (b AND 0x7F) in
      if c_and b 0x80 then gather_chunks datap diff' else Some (diff', datap))"

definition GASNETI_VLIDE_DECODE :: "u8 list \<Rightarrow> u64 \<Rightarrow> (u64 \<times> u8 list) option" where
  "GASNETI_VLIDE_DECODE datap prev = (case datap of [] \<Rightarrow> None
     | b # rest \<Rightarrow>
         if b AND 0xC0 = 0 then Some (ucast b + prev, rest)
         else if b AND 0x80 = 0 then Some ((push_bit 7 (- 1) OR ucast b) + prev, rest)
         else (case gather_chunks datap (if c_and b 0x40 then - 1 else 0) of
                 None \<Rightarrow> None
               | Some (diff, rest') \<Rightarrow> Some (diff + prev, rest')))"

section \<open>Chunks\<close>

lemma drop_bit_drop: "drop_bit m (drop_bit n (c :: u64)) = drop_bit (n + m) c"
  by (simp add: drop_bit_drop_bit add.commute)

lemma count_chunks_spec:
  "\<exists>k. count_chunks c n = n + k \<and> drop_bit (7 * k) c = 0 \<and> (\<forall>j<k. drop_bit (7 * j) c \<noteq> 0)"
proof (induction c n rule: count_chunks.induct)
  case (1 c n)
  show ?case
  proof (cases "c = 0")
    case True
    then show ?thesis by (intro exI [of _ 0]) (simp add: count_chunks.simps)
  next
    case False
    from 1 [OF False] obtain k where k: "count_chunks (drop_bit 7 c) (n + 1) = n + 1 + k"
      "drop_bit (7 * k) (drop_bit 7 c) = 0" "\<forall>j<k. drop_bit (7 * j) (drop_bit 7 c) \<noteq> 0" by auto
    have "drop_bit (7 * j) c \<noteq> 0" if "j < Suc k" for j
      using that k(3) False by (cases j) (auto simp: drop_bit_drop add.commute)
    moreover have "drop_bit (7 * Suc k) c = 0" using k(2) by (simp add: drop_bit_drop add.commute)
    moreover have "count_chunks c n = n + Suc k" using k(1) False by (simp add: count_chunks.simps [of c n])
    ultimately show ?thesis by blast
  qed
qed

definition chunk :: "u64 \<Rightarrow> nat \<Rightarrow> u8" where
  "chunk d k = ucast (drop_bit (7 * k) d AND 0x7F) OR (if k \<noteq> 0 then 0x80 else 0)"

lemma emit_chunks_map:
  "emit_chunks n i (drop_bit (7 * i) d) p = map (chunk d) (rev [i..<i + n]) @ p"
proof (induction n arbitrary: i p)
  case (Suc n)
  have "emit_chunks (Suc n) i (drop_bit (7 * i) d) p = emit_chunks n (Suc i) (drop_bit (7 * Suc i) d) (chunk d i # p)"
    by (simp add: chunk_def drop_bit_drop add.commute)
  also have "\<dots> = map (chunk d) (rev [Suc i..<Suc i + n]) @ chunk d i # p" by (rule Suc)
  also have "\<dots> = map (chunk d) (rev (i # [Suc i..<Suc i + n])) @ p" by simp
  also have "i # [Suc i..<Suc i + n] = [i..<i + Suc n]" by (subst upt_conv_Cons [of i]) auto
  finally show ?case .
qed simp

lemma bit_80: "bit (0x80 :: int) n \<longleftrightarrow> n = 7"
  and bit_40: "bit (0x40 :: int) n \<longleftrightarrow> n = 6"
proof -
  have "(0x80 :: int) = push_bit 7 1" "(0x40 :: int) = push_bit 6 1" by (simp_all add: push_bit_eq_mult)
  then show "bit (0x80 :: int) n \<longleftrightarrow> n = 7" "bit (0x40 :: int) n \<longleftrightarrow> n = 6"
    by (simp_all only: bit_push_bit_iff bit_1_iff) auto
qed

lemma mask7: "(0x7F :: 'a::len word) = mask 7"
  by (simp add: mask_eq_decr_exp)

lemma chunk_bits: "bit (chunk d k) n \<longleftrightarrow> n < 7 \<and> bit d (7 * k + n) \<or> n = 7 \<and> k \<noteq> 0"
  by (auto simp: chunk_def mask7 bit_simps bit_80 add.commute)

lemma chunk_low: "ucast (chunk d k AND 0x7F) = take_bit 7 (drop_bit (7 * k) d)"
  by (rule bit_word_eqI) (auto simp: mask7 chunk_bits bit_simps add.commute)

lemma c_and_bit: "c_and (b :: u8) 0x80 \<longleftrightarrow> bit b 7" "c_and b 0x40 \<longleftrightarrow> bit b 6"
proof -
  show "c_and (b :: u8) 0x80 \<longleftrightarrow> bit b 7"
    by (auto simp: c_and_def bit_eq_iff [of "b AND 0x80"] bit_and_iff bit_80)
  show "c_and b 0x40 \<longleftrightarrow> bit b 6"
    by (auto simp: c_and_def bit_eq_iff [of "b AND 0x40"] bit_and_iff bit_40)
qed

lemma take_split:
  "take_bit (7 * Suc n) (d :: u64) = push_bit (7 * n) (take_bit 7 (drop_bit (7 * n) d)) OR take_bit (7 * n) d"
  by (rule bit_word_eqI) (auto simp: bit_simps)

lemma gather_chunks_map:
  "gather_chunks (map (chunk d) (rev [0..<Suc n]) @ rest) s = Some (push_bit (7 * Suc n) s OR take_bit (7 * Suc n) d, rest)"
proof (induction n arbitrary: s)
  case 0
  then show ?case by (simp add: chunk_low c_and_bit chunk_bits)
next
  case (Suc n)
  let ?s = "push_bit 7 s OR take_bit 7 (drop_bit (7 * Suc n) d)"
  have "map (chunk d) (rev [0..<Suc (Suc n)]) @ rest = chunk d (Suc n) # map (chunk d) (rev [0..<Suc n]) @ rest" by simp
  then have "gather_chunks (map (chunk d) (rev [0..<Suc (Suc n)]) @ rest) s =
      gather_chunks (map (chunk d) (rev [0..<Suc n]) @ rest) ?s"
    by (simp only: gather_chunks.simps Let_def chunk_low c_and_bit chunk_bits) simp
  also have "\<dots> = Some (push_bit (7 * Suc n) ?s OR take_bit (7 * Suc n) d, rest)" by (rule Suc)
  also have "push_bit (7 * Suc n) ?s OR take_bit (7 * Suc n) d =
      push_bit (7 * Suc (Suc n)) s OR take_bit (7 * Suc (Suc n)) d"
    by (rule bit_word_eqI) (auto simp: bit_simps)
  finally show ?case .
qed

section \<open>Sizes\<close>

text \<open>The differences that \<open>n\<close> chunks can carry, as two's complement numbers of \<open>7 n\<close> bits.\<close>

definition in_chunks :: "nat \<Rightarrow> u64 \<Rightarrow> bool" where
  "in_chunks n d \<longleftrightarrow> - (2 ^ (7 * n - 1)) \<le> sint d \<and> sint d < 2 ^ (7 * n - 1)"

abbreviation folded :: "u64 \<Rightarrow> u64" where
  "folded d \<equiv> if bit d 63 then NOT d else d"

lemma bit_folded: "j < 64 \<Longrightarrow> bit (folded d) j \<longleftrightarrow> bit d j \<noteq> bit d 63"
  by (auto simp: bit_simps)

lemma take_uint: "take_bit 64 (uint (d :: u64)) = uint d"
  by (rule take_bit_int_eq_self) (use uint_lt2p [of d] in simp_all)

lemma sint_cases: "sint (d :: u64) = (if bit d 63 then uint d - 2 ^ 64 else uint d)"
  by (simp add: sint_uint signed_take_bit_eq_take_bit_minus bit_simps take_uint)

lemma uint_not: "uint (NOT d :: u64) = 2 ^ 64 - 1 - uint d"
proof -
  have "NOT d = word_of_int (2 ^ 64 - 1 - uint d)" by (simp add: not_eq_complement)
  moreover have "take_bit 64 (2 ^ 64 - 1 - uint d) = 2 ^ 64 - 1 - uint d"
  proof (rule take_bit_int_eq_self)
    have "uint d < 2 ^ 64" using uint_lt2p [of d] by simp
    then show "0 \<le> 2 ^ 64 - 1 - uint d" "2 ^ 64 - 1 - uint d < 2 ^ 64" using uint_ge_0 [of d] by linarith+
  qed
  ultimately show ?thesis using uint_lt2p [of d] by (simp only: unsigned_of_int) simp
qed

lemma folded_small: "drop_bit m (folded d) = 0 \<longleftrightarrow> - (2 ^ m) \<le> sint d \<and> sint d < 2 ^ m"
proof -
  have "drop_bit m c = 0 \<longleftrightarrow> uint c < 2 ^ m" for c :: u64
  proof -
    have "uint (drop_bit m c) = uint c div 2 ^ m" by (simp only: unsigned_drop_bit_eq take_uint drop_bit_int_def) (simp add: take_uint)
    then have "drop_bit m c = 0 \<longleftrightarrow> uint c div 2 ^ m = 0" by (metis uint_0_iff)
    then show ?thesis by (auto simp: zdiv_eq_0_iff intro: le_less_trans [of _ 0])
  qed
  note small = this
  have b: "0 \<le> uint d" "uint d < 2 ^ 64" "(0 :: int) < 2 ^ m" using uint_lt2p [of d] by simp_all
  show ?thesis
  proof (cases "bit d 63")
    case True
    then have "sint d = uint d - 2 ^ 64" by (simp add: sint_cases)
    moreover have "uint (NOT d) < 2 ^ m \<longleftrightarrow> - (2 ^ m) \<le> uint d - 2 ^ 64" unfolding uint_not by linarith
    ultimately show ?thesis using True b small [of "NOT d"] by simp linarith
  next
    case False
    then have "sint d = uint d" by (simp add: sint_cases)
    moreover have "- (2 ^ m) \<le> uint d" using b by linarith
    ultimately show ?thesis using False small [of d] by simp
  qed
qed

lemma folded_chunks: "0 < n \<Longrightarrow> drop_bit (7 * n - 1) (folded d) = 0 \<longleftrightarrow> in_chunks n d"
  unfolding in_chunks_def by (rule folded_small)

lemma in_chunks_mono: "in_chunks n d \<Longrightarrow> n \<le> m \<Longrightarrow> in_chunks m d"
proof -
  assume "in_chunks n d" "n \<le> m"
  moreover from this(2) have "(2 :: int) ^ (7 * n - 1) \<le> 2 ^ (7 * m - 1)" by (intro power_increasing) auto
  ultimately show ?thesis unfolding in_chunks_def by linarith
qed

lemma c_and_bit_test: "c_and (d :: u64) (push_bit n 1) \<longleftrightarrow> bit d n"
  by (simp add: c_and_def push_bit_of_1 and_exp_eq_0_iff_not_bit)

lemma sint_bounds: "- (2 ^ 63) \<le> sint (d :: u64)" "sint d < 2 ^ 63"
  using sint_ge [of d] sint_lt [of d] by simp_all

lemma vlide_chunks_spec:
  "0 < vlide_chunks d \<and> in_chunks (vlide_chunks d) d \<and> (\<forall>n. 0 < n \<and> n < vlide_chunks d \<longrightarrow> \<not> in_chunks n d)"
proof -
  have c: "c_and d (push_bit 63 1) \<longleftrightarrow> bit d 63" by (rule c_and_bit_test)
  obtain k where k: "vlide_chunks d = 1 + k" "drop_bit (7 * k) (drop_bit 6 (folded d)) = 0"
    "\<forall>j<k. drop_bit (7 * j) (drop_bit 6 (folded d)) \<noteq> 0"
    using count_chunks_spec [of "drop_bit 6 (folded d)" 1] unfolding vlide_chunks_def c by blast
  have eq: "drop_bit (7 * j) (drop_bit 6 (folded d)) = 0 \<longleftrightarrow> in_chunks (Suc j) d" for j
    using folded_chunks [of "Suc j" d] by (simp only: drop_bit_drop) (simp add: add.commute)
  have "\<not> in_chunks n d" if "0 < n" "n < 1 + k" for n
    using k(3) eq that by (cases n) auto
  then show ?thesis using k(1,2) eq by simp
qed

lemma wrapped_64:
  "(0 :: int) \<le> x \<Longrightarrow> x < 2 ^ 64 \<Longrightarrow> neg = (2 ^ 63 \<le> x) \<Longrightarrow>
   (if x + 64 < 2 ^ 64 then x + 64 else x + 64 - 2 ^ 64) < 128 \<longleftrightarrow>
     - (2 ^ (7 * 1 - 1)) \<le> (if neg then x - 2 ^ 64 else x) \<and> (if neg then x - 2 ^ 64 else x) < 2 ^ (7 * 1 - 1)"
  by (cases neg) auto

lemma single_chunk: "d + 64 < 128 \<longleftrightarrow> in_chunks 1 d"
proof -
  have u: "uint (d + 64) = (uint d + 64) mod 2 ^ 64" by (simp add: uint_word_ariths)
  have m: "(uint d + 64) mod 2 ^ 64 = (if uint d + 64 < 2 ^ 64 then uint d + 64 else uint d + 64 - 2 ^ 64)"
  proof -
    have b: "0 \<le> uint d" "uint d < 2 ^ 64" using uint_lt2p [of d] by simp_all
    show ?thesis
    proof (cases "uint d + 64 < 2 ^ 64")
      case True
      then show ?thesis using b by (simp add: mod_pos_pos_trivial)
    next
      case False
      then have "(uint d + 64) mod 2 ^ 64 = (uint d + 64 - 2 ^ 64) mod 2 ^ 64" by (simp only: mod_diff_right_eq minus_mod_self2)
      also have "\<dots> = uint d + 64 - 2 ^ 64" using False b by (intro mod_pos_pos_trivial) auto
      finally show ?thesis using False by simp
    qed
  qed
  have "bit d 63 = (2 ^ 63 \<le> uint d)" using sint_bounds [of d] by (auto simp: sint_cases split: if_splits)
  moreover have "uint d < 2 ^ 64" using uint_lt2p [of d] by simp
  ultimately have "(if uint d + 64 < 2 ^ 64 then uint d + 64 else uint d + 64 - 2 ^ 64) < 128 \<longleftrightarrow> in_chunks 1 d"
    unfolding in_chunks_def sint_cases using wrapped_64 [of "uint d" "bit d 63"] uint_ge_0 [of d] by blast
  moreover have "d + 64 < 128 \<longleftrightarrow> uint (d + 64) < 128" by (simp add: word_less_def)
  ultimately show ?thesis unfolding u m by blast
qed

lemma vlide_length: "length (GASNETI_VLIDE_ENCODE prev cur) = vlide_chunks (cur - prev)"
proof (cases "in_chunks 1 (cur - prev)")
  case True
  then have "\<not> 1 < vlide_chunks (cur - prev)" using vlide_chunks_spec by auto
  then have "vlide_chunks (cur - prev) = 1" using vlide_chunks_spec [of "cur - prev"] by simp
  then show ?thesis using True by (simp add: GASNETI_VLIDE_ENCODE_def single_chunk Let_def)
next
  case False
  then show ?thesis using emit_chunks_map [of "vlide_chunks (cur - prev)" 0 "cur - prev" "[]"]
    by (simp add: GASNETI_VLIDE_ENCODE_def single_chunk Let_def)
qed

section \<open>Round trip\<close>

text \<open>In \<open>n\<close> chunks, the bits from \<open>7 n - 1\<close> on are copies of the sign.\<close>

lemma in_chunks_sign:
  assumes "in_chunks n d" and "0 < n" and "7 * n - 1 \<le> j" and "j < 64"
  shows "bit d j = bit d (7 * n - 1)"
proof -
  have "drop_bit (7 * n - 1) (folded d) = 0" using assms(1,2) by (simp only: folded_chunks)
  then have "bit (drop_bit (7 * n - 1) (folded d)) i = bit (0 :: u64) i" for i by (simp only:)
  then have z: "\<not> bit (folded d) (7 * n - 1 + i)" for i by (simp only: bit_drop_bit_eq comp_def bit_0_eq bot_fun_def bot_bool_def) blast
  have "\<not> bit (folded d) j" "\<not> bit (folded d) (7 * n - 1)"
    using z [of "j - (7 * n - 1)"] z [of 0] assms(3) by simp_all
  then show ?thesis using bit_folded [of j d] bit_folded [of "7 * n - 1" d] assms(3,4) by linarith
qed

lemma in_chunks_rebuild:
  assumes "in_chunks n d" and "0 < n"
  shows "push_bit (7 * n) (if bit d (7 * n - 1) then - 1 else 0) OR take_bit (7 * n) d = d"
proof (rule bit_word_eqI)
  fix j assume j: "j < LENGTH(64)"
  show "bit (push_bit (7 * n) (if bit d (7 * n - 1) then - 1 else 0) OR take_bit (7 * n) d) j = bit d j"
    using in_chunks_sign [OF assms, of j] j by (cases "7 * n \<le> j") (auto simp: bit_simps)
qed

lemma ten_chunks: "in_chunks 10 d"
proof -
  have "(2 :: int) ^ 63 < 2 ^ 69" by (rule power_strict_increasing) simp_all
  then show ?thesis using sint_bounds [of d] by (simp add: in_chunks_def)
qed

lemma byte_and_zero:
  "(b :: u8) AND 0xC0 = 0 \<longleftrightarrow> \<not> bit b 7 \<and> \<not> bit b 6" "(b :: u8) AND 0x80 = 0 \<longleftrightarrow> \<not> bit b 7"
proof -
  have "(0xC0 :: u8) = 0x80 OR 0x40" by simp
  then have "c_and b 0xC0 \<longleftrightarrow> c_and (0x80 OR 0x40) b" by (simp add: c_and_def and.commute)
  also have "\<dots> \<longleftrightarrow> c_and b 0x80 \<or> c_and b 0x40" unfolding c_and_or by (simp add: c_and_def and.commute)
  finally show "(b :: u8) AND 0xC0 = 0 \<longleftrightarrow> \<not> bit b 7 \<and> \<not> bit b 6"
    unfolding c_and_bit by (auto simp: c_and_def)
  show "(b :: u8) AND 0x80 = 0 \<longleftrightarrow> \<not> bit b 7" using c_and_bit(1) [of b] by (auto simp: c_and_def)
qed

lemma decode_chunks:
  assumes "in_chunks n d" and "1 < n"
  shows "GASNETI_VLIDE_DECODE (map (chunk d) (rev [0..<n]) @ rest) prev = Some (d + prev, rest)"
proof -
  obtain m where m: "n = Suc m" "0 < m" using assms(2) by (cases n) auto
  let ?bs = "map (chunk d) (rev [0..<n]) @ rest"
  have bs: "?bs = chunk d m # map (chunk d) (rev [0..<m]) @ rest" by (simp add: m(1))
  have sign: "bit (chunk d m) 6 = bit d (7 * n - 1)" by (simp add: chunk_bits m(1) add.commute)
  have "gather_chunks ?bs (if bit d (7 * n - 1) then - 1 else 0) = Some (d, rest)"
    using in_chunks_rebuild [OF assms(1)] assms(2) unfolding m(1) gather_chunks_map by simp
  moreover have "\<not> (\<not> bit (chunk d m) 7 \<and> \<not> bit (chunk d m) 6)" "bit (chunk d m) 7" using m(2) by (simp_all add: chunk_bits)
  ultimately show ?thesis
    unfolding GASNETI_VLIDE_DECODE_def bs by (simp only: list.case byte_and_zero c_and_bit sign) simp
qed

lemma decode_single:
  assumes "in_chunks 1 d"
  shows "GASNETI_VLIDE_DECODE (ucast (d AND 0x7F) # rest) prev = Some (d + prev, rest)"
proof -
  obtain w :: u8 where w: "ucast (d AND 0x7F) = w" by blast
  have b: "bit w j \<longleftrightarrow> j < 7 \<and> bit d j" for j unfolding w [symmetric] by (auto simp: mask7 bit_simps)
  have sign: "bit d j = bit d 6" if "6 \<le> j" "j < 64" for j
    using in_chunks_sign [OF assms, of j] that by simp
  have "GASNETI_VLIDE_DECODE (w # rest) prev = Some (d + prev, rest)"
  proof (cases "bit d 6")
    case True
    have "push_bit 7 (- 1) OR ucast w = d"
    proof (rule bit_word_eqI)
      fix j assume "j < LENGTH(64)"
      then show "bit (push_bit 7 (- 1) OR ucast w :: u64) j = bit d j"
        using sign [of j] True by (cases "j < 7") (auto simp: bit_simps b)
    qed
    then show ?thesis using True unfolding GASNETI_VLIDE_DECODE_def by (simp only: list.case byte_and_zero b) simp
  next
    case False
    have "ucast w = d"
    proof (rule bit_word_eqI)
      fix j assume "j < LENGTH(64)"
      then show "bit (ucast w :: u64) j = bit d j"
        using sign [of j] False by (cases "j < 7") (auto simp: bit_simps b)
    qed
    then show ?thesis using False unfolding GASNETI_VLIDE_DECODE_def by (simp only: list.case byte_and_zero b) simp
  qed
  then show ?thesis unfolding w .
qed

lemma vlide_decode_encode:
  "GASNETI_VLIDE_DECODE (GASNETI_VLIDE_ENCODE prev cur @ rest) prev = Some (cur, rest)"
proof (cases "in_chunks 1 (cur - prev)")
  case True
  then have "GASNETI_VLIDE_ENCODE prev cur = [ucast ((cur - prev) AND 0x7F)]"
    by (simp add: GASNETI_VLIDE_ENCODE_def single_chunk Let_def)
  then show ?thesis using decode_single [OF True] by simp
next
  case False
  let ?d = "cur - prev"
  have e: "GASNETI_VLIDE_ENCODE prev cur = map (chunk ?d) (rev [0..<vlide_chunks ?d])"
    using False emit_chunks_map [of "vlide_chunks ?d" 0 ?d "[]"]
    by (simp add: GASNETI_VLIDE_ENCODE_def single_chunk Let_def)
  have "vlide_chunks ?d \<noteq> 1" using False vlide_chunks_spec [of ?d] by metis
  then have "1 < vlide_chunks ?d" using vlide_chunks_spec [of ?d] by linarith
  from decode_chunks [OF _ this] vlide_chunks_spec show ?thesis unfolding e by simp
qed

text \<open>A successful decoding uses at least one byte.\<close>

lemma gather_shorter: "gather_chunks bs d = Some (v, rest) \<Longrightarrow> length rest < length bs"
  by (induction bs d rule: gather_chunks.induct) (auto simp: Let_def split: if_splits)

lemma decode_shorter: "GASNETI_VLIDE_DECODE bs prev = Some (v, rest) \<Longrightarrow> length rest < length bs"
  unfolding GASNETI_VLIDE_DECODE_def
  by (cases bs) (auto dest: gather_shorter simp del: gather_chunks.simps split: if_splits option.splits)

section \<open>Properties\<close>

text \<open>
  C26. Decoding an encoded address relative to the same previous address gives the address back and
  leaves exactly the bytes that follow, for all pairs of 64-bit addresses.
\<close>

theorem vlide_roundtrip:
  "GASNETI_VLIDE_DECODE (GASNETI_VLIDE_ENCODE prev cur @ rest) prev = Some (cur, rest)"
  by (rule vlide_decode_encode)

text \<open>
  The encoding is as short as its format allows: it takes at most \<open>n\<close> bytes if and only if the
  difference is a two's complement number of \<open>7 n\<close> bits (64 for one byte, 8 KiB for two, 1 MiB for
  three, and so on), and never more than 10 bytes.
\<close>

theorem vlide_size:
  "0 < length (GASNETI_VLIDE_ENCODE prev cur) \<and> length (GASNETI_VLIDE_ENCODE prev cur) \<le> 10 \<and>
   (length (GASNETI_VLIDE_ENCODE prev cur) \<le> Suc n \<longleftrightarrow>
     - (2 ^ (7 * n + 6)) \<le> sint (cur - prev) \<and> sint (cur - prev) < 2 ^ (7 * n + 6))"
proof -
  let ?d = "cur - prev"
  note spec = vlide_chunks_spec [of ?d]
  have "vlide_chunks ?d \<le> m \<longleftrightarrow> in_chunks m ?d" if "0 < m" for m
    using spec that in_chunks_mono by (meson not_le)
  then have "vlide_chunks ?d \<le> 10" "vlide_chunks ?d \<le> Suc n \<longleftrightarrow> in_chunks (Suc n) ?d"
    using ten_chunks [of ?d] by simp_all
  moreover have "7 * Suc n - 1 = 7 * n + 6" by simp
  ultimately show ?thesis unfolding vlide_length in_chunks_def using spec by (simp add: add.commute)
qed

end
