(* ===== verification/Memvec.thy ===== *)
theory Memvec
  imports Vlide "HOL-Library.Multiset"
begin

text \<open>
  Memory ranges and what the vector code of \<^verbatim>\<open>extended-ref/vis/gasnet_vector.c\<close> does with
  them one by one: packing a list of ranges into a buffer and back, and the loop that walks two lists
  of ranges in step. A memory is a function from 64-bit addresses to bytes; lengths are natural
  numbers. \<open>None\<close> is a failed assertion or a range that is cut past its end.
\<close>

section \<open>Memory\<close>

type_synonym memory = "u64 \<Rightarrow> u8"

record gex_Memvec =
  gex_addr :: u64
  gex_len :: nat

definition cells :: "u64 \<Rightarrow> nat \<Rightarrow> u64 list" where
  "cells a n = map (\<lambda>i. a + of_nat i) [0..<n]"

fun vec_cells :: "gex_Memvec list \<Rightarrow> u64 list" where
  "vec_cells [] = []"
| "vec_cells (v # vs) = cells (gex_addr v) (gex_len v) @ vec_cells vs"

text \<open>Writing bytes to given cells, one after the other.\<close>

definition store :: "(u64 \<times> u8) list \<Rightarrow> memory \<Rightarrow> memory" where
  "store ws m = fold (\<lambda>(a, b) m. m(a := b)) ws m"

text \<open>A \<open>memcpy\<close> from a buffer to an address, and from an address to an address.\<close>

definition write_bytes :: "u64 \<Rightarrow> u8 list \<Rightarrow> memory \<Rightarrow> memory" where
  "write_bytes a bs = store (zip (cells a (length bs)) bs)"

abbreviation read_bytes :: "memory \<Rightarrow> u64 \<Rightarrow> nat \<Rightarrow> u8 list" where
  "read_bytes m a n \<equiv> map m (cells a n)"

section \<open>Packing\<close>

text \<open>
  The ranges that a call of a packing function copies: the first is cut at its front, the last has
  the length \<open>last_len\<close>, where \<open>None\<close> stands for \<open>(size_t)-1\<close>. Empty ranges are skipped, or not
  allowed at all.
\<close>

definition middle_ranges :: "bool \<Rightarrow> gex_Memvec list \<Rightarrow> (u64 \<times> nat) list option" where
  "middle_ranges noempty vs =
     (if noempty \<and> (\<exists>v\<in>set vs. gex_len v = 0) then None
      else Some (map (\<lambda>v. (gex_addr v, gex_len v)) (filter (\<lambda>v. gex_len v \<noteq> 0) vs)))"

definition pack_ranges :: "bool \<Rightarrow> gex_Memvec list \<Rightarrow> nat \<Rightarrow> nat option \<Rightarrow> (u64 \<times> nat) list option" where
  "pack_ranges noempty list first_offset last_len =
     (if list = [] then None
      else let last_len' = (case last_len of None \<Rightarrow> gex_len (last list) | Some n \<Rightarrow> n) in
        if length list = 1
        then (if last_len' = 0 then None else Some [(gex_addr (hd list) + of_nat first_offset, last_len')])
        else let firstlen = gex_len (hd list) - first_offset in
          if gex_len (hd list) < first_offset \<or> noempty \<and> firstlen = 0
             \<or> firstlen = 0 \<and> \<not> (first_offset = 0 \<and> gex_len (hd list) = 0) then None
          else case middle_ranges noempty (butlast (tl list)) of None \<Rightarrow> None
            | Some ms \<Rightarrow>
                if noempty \<and> last_len' = 0 then None
                else Some ((if firstlen \<noteq> 0 then [(gex_addr (hd list) + of_nat first_offset, firstlen)] else []) @ ms @
                       (if last_len' \<noteq> 0 then [(gex_addr (last list), last_len')] else [])))"

definition gasnete_memvec_pack :: "bool \<Rightarrow> gex_Memvec list \<Rightarrow> nat \<Rightarrow> nat option \<Rightarrow> memory \<Rightarrow> u8 list option" where
  "gasnete_memvec_pack noempty list first_offset last_len m =
     map_option (\<lambda>rs. concat (map (\<lambda>(a, n). read_bytes m a n) rs)) (pack_ranges noempty list first_offset last_len)"

fun unpack_ranges :: "(u64 \<times> nat) list \<Rightarrow> u8 list \<Rightarrow> memory \<Rightarrow> memory" where
  "unpack_ranges [] buf m = m"
| "unpack_ranges ((a, n) # rs) buf m = unpack_ranges rs (drop n buf) (write_bytes a (take n buf) m)"

definition gasnete_memvec_unpack ::
  "bool \<Rightarrow> gex_Memvec list \<Rightarrow> u8 list \<Rightarrow> nat \<Rightarrow> nat option \<Rightarrow> memory \<Rightarrow> memory option" where
  "gasnete_memvec_unpack noempty list buf first_offset last_len m =
     map_option (\<lambda>rs. unpack_ranges rs buf m) (pack_ranges noempty list first_offset last_len)"

section \<open>Two lists in step\<close>

definition skip_empty :: "gex_Memvec list \<Rightarrow> gex_Memvec list" where
  "skip_empty = dropWhile (\<lambda>v. gex_len v = 0)"

text \<open>One list is a single range at \<open>pp\<close>: the pieces, and where the range ends.\<close>

fun contig_pieces :: "u64 \<Rightarrow> gex_Memvec list \<Rightarrow> (u64 \<times> u64 \<times> nat) list \<times> u64" where
  "contig_pieces pp [] = ([], pp)"
| "contig_pieces pp (v # vs) =
     (if gex_len v > 0
      then let (as, e) = contig_pieces (pp + of_nat (gex_len v)) vs in ((pp, gex_addr v, gex_len v) # as, e)
      else contig_pieces pp vs)"

lemma skip_empty_length: "length (skip_empty vs) \<le> length vs"
  unfolding skip_empty_def by (rule length_dropWhile_le)

function general_pieces ::
  "gex_Memvec list \<Rightarrow> nat \<Rightarrow> gex_Memvec list \<Rightarrow> nat \<Rightarrow> (u64 \<times> u64 \<times> nat) list option" where
  "general_pieces list1 off1 list2 off2 =
     (case list1 of
        [] \<Rightarrow> if list2 = [] \<and> off1 = 0 \<and> off2 = 0 then Some [] else None
      | v1 # rest1 \<Rightarrow>
          (case list2 of [] \<Rightarrow> None
           | v2 # rest2 \<Rightarrow>
               let rem1 = gex_len v1 - off1; rem2 = gex_len v2 - off2;
                   p1 = gex_addr v1 + of_nat off1; p2 = gex_addr v2 + of_nat off2
               in if rem1 = 0 \<or> rem2 = 0 then None
                  else if rem1 < rem2
                  then map_option ((#) (p1, p2, rem1)) (general_pieces (skip_empty rest1) 0 list2 (off2 + rem1))
                  else if rem1 > rem2
                  then map_option ((#) (p1, p2, rem2)) (general_pieces list1 (off1 + rem2) (skip_empty rest2) 0)
                  else map_option ((#) (p1, p2, rem1)) (general_pieces (skip_empty rest1) 0 (skip_empty rest2) 0)))"
  by pat_completeness auto
termination
  by (relation "measure (\<lambda>(l1, o1, l2, o2). length l1 + length l2)")
     (auto simp: less_Suc_eq_le intro: skip_empty_length add_mono le_SucI)

declare general_pieces.simps [simp del]

text \<open>The pieces on which \<open>GASNETE_VECTOR_HELPER\<close> calls its action, in its order.\<close>

definition GASNETE_VECTOR_HELPER ::
  "gex_Memvec list \<Rightarrow> gex_Memvec list \<Rightarrow> (u64 \<times> u64 \<times> nat) list option" where
  "GASNETE_VECTOR_HELPER list1 list2 =
     (if length list1 = 1
      then let v = hd list1; (as, e) = contig_pieces (gex_addr v) list2
           in if e = gex_addr v + of_nat (gex_len v) then Some as else None
      else if length list2 = 1
      then let v = hd list2; (as, e) = contig_pieces (gex_addr v) list1
           in if e = gex_addr v + of_nat (gex_len v) then Some (map (\<lambda>(p2, p1, n). (p1, p2, n)) as) else None
      else general_pieces (skip_empty list1) 0 (skip_empty list2) 0)"

section \<open>Cells\<close>

lemma cells_length [simp]: "length (cells a n) = n"
  by (simp add: cells_def)

lemma cells_nth [simp]: "i < n \<Longrightarrow> cells a n ! i = a + of_nat i"
  by (simp add: cells_def)

lemma cells_0 [simp]: "cells a 0 = []"
  by (simp add: cells_def)

lemma cells_add: "cells a (m + n) = cells a m @ cells (a + of_nat m) n"
  by (rule nth_equalityI) (auto simp: nth_append of_nat_diff)

lemma cells_take [simp]: "take k (cells a n) = cells a (min k n)"
  by (rule nth_equalityI) auto

lemma cells_drop [simp]: "drop k (cells a n) = cells (a + of_nat k) (n - k)"
  by (rule nth_equalityI) (auto simp: add.assoc)

lemma cells_empty [simp]: "cells a n = [] \<longleftrightarrow> n = 0"
  by (metis cells_length length_0_conv)

definition vec_size :: "gex_Memvec list \<Rightarrow> nat" where
  "vec_size vs = sum_list (map gex_len vs)"

lemma vec_size_simps [simp]: "vec_size [] = 0" "vec_size (v # vs) = gex_len v + vec_size vs"
  by (simp_all add: vec_size_def)

lemma vec_cells_length [simp]: "length (vec_cells vs) = vec_size vs"
  by (induction vs) auto

lemma vec_cells_append [simp]: "vec_cells (vs @ ws) = vec_cells vs @ vec_cells ws"
  by (induction vs) auto

lemma skip_empty_cells [simp]: "vec_cells (skip_empty vs) = vec_cells vs" "vec_size (skip_empty vs) = vec_size vs"
  by (induction vs) (auto simp: skip_empty_def)

definition hd_nonempty :: "gex_Memvec list \<Rightarrow> bool" where
  "hd_nonempty vs \<longleftrightarrow> (\<forall>v ws. vs = v # ws \<longrightarrow> 0 < gex_len v)"

lemma hd_nonempty_simps [simp]: "hd_nonempty []" "hd_nonempty (v # vs) \<longleftrightarrow> 0 < gex_len v"
  by (auto simp: hd_nonempty_def)

lemma skip_empty_hd [simp]: "hd_nonempty (skip_empty vs)"
  unfolding skip_empty_def by (induction vs) auto

lemma hd_nonempty_size: "hd_nonempty vs \<Longrightarrow> vec_size vs = 0 \<longleftrightarrow> vs = []"
  by (cases vs) auto

section \<open>Pieces\<close>

fun piece_pairs :: "u64 \<times> u64 \<times> nat \<Rightarrow> (u64 \<times> u64) list" where
  "piece_pairs (p1, p2, n) = zip (cells p1 n) (cells p2 n)"

definition all_pairs :: "(u64 \<times> u64 \<times> nat) list \<Rightarrow> (u64 \<times> u64) list" where
  "all_pairs ps = concat (map piece_pairs ps)"

lemma all_pairs_simps [simp]:
  "all_pairs [] = []" "all_pairs (p # ps) = piece_pairs p @ all_pairs ps" "all_pairs (ps @ qs) = all_pairs ps @ all_pairs qs"
  by (simp_all add: all_pairs_def)

lemma contig_pieces_spec:
  "contig_pieces pp vs = (as, e) \<Longrightarrow> e = pp + of_nat (vec_size vs) \<and>
     all_pairs as = zip (cells pp (vec_size vs)) (vec_cells vs) \<and> (\<forall>(p1, p2, n)\<in>set as. 0 < n)"
proof (induction pp vs arbitrary: as e rule: contig_pieces.induct)
  case (2 pp v vs)
  show ?case
  proof (cases "gex_len v > 0")
    case True
    obtain bs where bs: "contig_pieces (pp + of_nat (gex_len v)) vs = (bs, e)" "as = (pp, gex_addr v, gex_len v) # bs"
      using 2(3) True by (auto split: prod.splits)
    from 2(1) [OF True bs(1)] bs(2) True show ?thesis by (simp add: cells_add add.assoc)
  next
    case False
    then show ?thesis using 2(2) [OF False] 2(3) by simp
  qed
qed simp

definition from_offset :: "gex_Memvec list \<Rightarrow> nat \<Rightarrow> bool" where
  "from_offset vs off \<longleftrightarrow> (case vs of [] \<Rightarrow> off = 0 | v # ws \<Rightarrow> off < gex_len v)"

lemma general_pieces_spec:
  "from_offset l1 o1 \<Longrightarrow> from_offset l2 o2 \<Longrightarrow> vec_size l1 - o1 = vec_size l2 - o2 \<Longrightarrow>
   \<exists>as. general_pieces l1 o1 l2 o2 = Some as \<and> all_pairs as = zip (drop o1 (vec_cells l1)) (drop o2 (vec_cells l2)) \<and>
     (\<forall>(p1, p2, n)\<in>set as. 0 < n)"
proof (induction l1 o1 l2 o2 rule: general_pieces.induct)
  case (1 l1 o1 l2 o2)
  have next_off: "from_offset (skip_empty vs) 0" for vs
    using skip_empty_hd [of vs] by (cases "skip_empty vs") (auto simp: from_offset_def)
  show ?case
  proof (cases l1)
    case Nil
    then have "vec_size l2 - o2 = 0" "o1 = 0" using 1(4-6) by (simp_all add: from_offset_def)
    then have "l2 = [] \<and> o2 = 0" using 1(5) by (cases l2) (auto simp: from_offset_def)
    then show ?thesis using Nil \<open>o1 = 0\<close> by (simp add: general_pieces.simps)
  next
    case (Cons v1 r1)
    then have o1: "o1 < gex_len v1" using 1(4) by (simp add: from_offset_def)
    then obtain v2 r2 where l2: "l2 = v2 # r2" using 1(6) Cons by (cases l2) auto
    then have o2: "o2 < gex_len v2" using 1(5) by (simp add: from_offset_def)
    let ?rem1 = "gex_len v1 - o1" and ?rem2 = "gex_len v2 - o2"
    let ?p1 = "gex_addr v1 + of_nat o1" and ?p2 = "gex_addr v2 + of_nat o2"
    have pos: "\<not> (?rem1 = 0 \<or> ?rem2 = 0)" using o1 o2 by simp
    have c: "drop o1 (vec_cells l1) = cells ?p1 ?rem1 @ vec_cells r1" "drop o2 (vec_cells l2) = cells ?p2 ?rem2 @ vec_cells r2"
      using o1 o2 Cons l2 by simp_all
    consider (less) "?rem1 < ?rem2" | (gt) "\<not> ?rem1 < ?rem2" "?rem1 > ?rem2" | (eq) "\<not> ?rem1 < ?rem2" "\<not> ?rem1 > ?rem2"
      by linarith
    then show ?thesis
    proof cases
      case less
      have "vec_size (skip_empty r1) - 0 = vec_size l2 - (o2 + ?rem1)" using 1(6) o1 o2 less Cons l2 by simp
      moreover have "from_offset l2 (o2 + ?rem1)" using less l2 by (simp add: from_offset_def)
      ultimately obtain as where as: "general_pieces (skip_empty r1) 0 l2 (o2 + ?rem1) = Some as"
        "all_pairs as = zip (vec_cells r1) (drop (o2 + ?rem1) (vec_cells l2))" "\<forall>(p1, p2, n)\<in>set as. 0 < n"
        using 1(1) [OF Cons l2 refl refl refl refl pos less next_off] by auto
      have "drop o2 (vec_cells l2) = cells ?p2 ?rem1 @ drop (o2 + ?rem1) (vec_cells l2)"
        using less o2 l2 cells_add [of ?p2 ?rem1 "?rem2 - ?rem1"] by (simp add: add.assoc of_nat_add [symmetric] del: of_nat_add)
      moreover have "general_pieces l1 o1 l2 o2 =
          map_option ((#) (?p1, ?p2, ?rem1)) (general_pieces (skip_empty r1) 0 l2 (o2 + ?rem1))"
        by (subst general_pieces.simps) (simp only: Cons l2 list.case Let_def pos less if_False if_True)
      ultimately show ?thesis using as(2,3) less c(1) unfolding as(1)
        by (intro exI [of _ "(?p1, ?p2, ?rem1) # as"]) (simp add: o1 o2)
    next
      case gt
      have "vec_size l1 - (o1 + ?rem2) = vec_size (skip_empty r2) - 0" using 1(6) o1 o2 gt Cons l2 by simp
      moreover have "from_offset l1 (o1 + ?rem2)" using gt Cons by (simp add: from_offset_def)
      ultimately obtain as where as: "general_pieces l1 (o1 + ?rem2) (skip_empty r2) 0 = Some as"
        "all_pairs as = zip (drop (o1 + ?rem2) (vec_cells l1)) (vec_cells r2)" "\<forall>(p1, p2, n)\<in>set as. 0 < n"
        using 1(2) [OF Cons l2 refl refl refl refl pos gt(1) gt(2) _ next_off] by auto
      have "drop o1 (vec_cells l1) = cells ?p1 ?rem2 @ drop (o1 + ?rem2) (vec_cells l1)"
        using gt o1 Cons cells_add [of ?p1 ?rem2 "?rem1 - ?rem2"] by (simp add: add.assoc of_nat_add [symmetric] del: of_nat_add)
      moreover have "general_pieces l1 o1 l2 o2 =
          map_option ((#) (?p1, ?p2, ?rem2)) (general_pieces l1 (o1 + ?rem2) (skip_empty r2) 0)"
        by (subst general_pieces.simps) (simp only: Cons l2 list.case Let_def pos gt if_False if_True)
      ultimately show ?thesis using as(2,3) gt c(2) unfolding as(1)
        by (intro exI [of _ "(?p1, ?p2, ?rem2) # as"]) (simp add: o1 o2)
    next
      case eq
      have "vec_size (skip_empty r1) - 0 = vec_size (skip_empty r2) - 0" using 1(6) o1 o2 eq Cons l2 by simp
      then obtain as where as: "general_pieces (skip_empty r1) 0 (skip_empty r2) 0 = Some as"
        "all_pairs as = zip (vec_cells r1) (vec_cells r2)" "\<forall>(p1, p2, n)\<in>set as. 0 < n"
        using 1(3) [OF Cons l2 refl refl refl refl pos eq(1) eq(2) next_off next_off] by auto
      have "?rem1 = ?rem2" using eq by simp
      moreover have "general_pieces l1 o1 l2 o2 =
          map_option ((#) (?p1, ?p2, ?rem1)) (general_pieces (skip_empty r1) 0 (skip_empty r2) 0)"
        by (subst general_pieces.simps) (simp only: Cons l2 list.case Let_def pos eq if_False if_True)
      ultimately show ?thesis using as(2,3) eq c unfolding as(1)
        by (intro exI [of _ "(?p1, ?p2, ?rem1) # as"]) (simp add: o1 o2)
    qed
  qed
qed

lemma vector_helper_spec:
  assumes "vec_size l1 = vec_size l2"
  shows "\<exists>as. GASNETE_VECTOR_HELPER l1 l2 = Some as \<and> all_pairs as = zip (vec_cells l1) (vec_cells l2) \<and>
     (\<forall>(p1, p2, n)\<in>set as. 0 < n)"
proof -
  consider (one) v where "l1 = [v]" | (two) v where "length l1 \<noteq> 1" "l2 = [v]"
    | (general) "length l1 \<noteq> 1" "length l2 \<noteq> 1"
    by (metis One_nat_def length_0_conv length_Suc_conv)
  then show ?thesis
  proof cases
    case one
    obtain as e where c: "contig_pieces (gex_addr v) l2 = (as, e)" by (cases "contig_pieces (gex_addr v) l2")
    from contig_pieces_spec [OF c] show ?thesis
      using assms one c by (intro exI [of _ as]) (simp add: GASNETE_VECTOR_HELPER_def)
  next
    case two
    obtain as e where c: "contig_pieces (gex_addr v) l1 = (as, e)" by (cases "contig_pieces (gex_addr v) l1")
    let ?swap = "\<lambda>(p2, p1, n). (p1, p2, n)" and ?bs = "map (\<lambda>(p2 :: u64, p1 :: u64, n :: nat). (p1, p2, n)) as"
    have zip_swap: "zip ys xs = map (\<lambda>(x, y). (y, x)) (zip xs ys)" for xs ys :: "u64 list"
      by (simp add: zip_commute [of ys xs])
    have "piece_pairs (?swap p) = map (\<lambda>(x, y). (y, x)) (piece_pairs p)" for p :: "u64 \<times> u64 \<times> nat"
      by (cases p) (simp add: zip_swap [symmetric])
    then have "all_pairs ?bs = map (\<lambda>(x, y). (y, x)) (all_pairs as)"
      by (simp add: all_pairs_def map_concat comp_def)
    also have "\<dots> = zip (vec_cells l1) (vec_cells l2)"
      using contig_pieces_spec [OF c] assms two by (simp add: zip_swap [symmetric])
    finally show ?thesis
      using contig_pieces_spec [OF c] assms two c by (intro exI [of _ ?bs]) (auto simp: GASNETE_VECTOR_HELPER_def)
  next
    case general
    have "from_offset (skip_empty vs) 0" for vs
      using skip_empty_hd [of vs] by (cases "skip_empty vs") (auto simp: from_offset_def)
    from general_pieces_spec [OF this this, of l1 l2] assms general show ?thesis
      by (simp add: GASNETE_VECTOR_HELPER_def)
  qed
qed

section \<open>Stores\<close>

lemma store_simps [simp]:
  "store [] m = m" "store ((a, b) # ws) m = store ws (m(a := b))" "store (vs @ ws) m = store ws (store vs m)"
  by (simp_all add: store_def)

lemma store_at: "store ws m a = (case map_of (rev ws) a of None \<Rightarrow> m a | Some b \<Rightarrow> b)"
proof (induction ws arbitrary: m)
  case (Cons w ws)
  then show ?case by (cases w) (auto simp: map_add_def split: option.splits)
qed simp

lemma store_off: "a \<notin> fst ` set ws \<Longrightarrow> store ws m a = m a"
  by (metis (no_types, lifting) map_of_eq_None_iff option.simps(4) set_rev store_at)

text \<open>Stores to different cells may be done in any order.\<close>

lemma store_permute:
  assumes "mset ws = mset ws'" and "distinct (map fst ws)"
  shows "store ws m = store ws' m"
proof
  fix a
  have "mset (map fst ws) = mset (map fst ws')" using assms(1) by (simp only: mset_map)
  then have "distinct (map fst ws')" using assms(2) mset_eq_imp_distinct_iff by blast
  then have d: "distinct (map fst (rev ws))" "distinct (map fst (rev ws'))"
    using assms(2) by (simp_all only: rev_map [symmetric] distinct_rev)
  have "set (rev ws) = set (rev ws')" using mset_eq_setD [OF assms(1)] by simp
  then have "map_of (rev ws) = map_of (rev ws')" unfolding map_of_inject_set [OF d] .
  then show "store ws m a = store ws' m a" by (simp only: store_at)
qed

lemma store_cell:
  assumes "distinct (map fst ws)" and "(a, b) \<in> set ws"
  shows "store ws m a = b"
proof -
  have "map_of (rev ws) a = Some b"
    using assms by (intro map_of_is_SomeI) (simp_all only: rev_map [symmetric] distinct_rev set_rev)
  then show ?thesis by (simp add: store_at)
qed

text \<open>What a vector transfer is for: the source cells, in order, to the target cells, in order.\<close>

definition vec_copy :: "gex_Memvec list \<Rightarrow> gex_Memvec list \<Rightarrow> memory \<Rightarrow> memory \<Rightarrow> memory" where
  "vec_copy dst src srcmem = store (zip (vec_cells dst) (map srcmem (vec_cells src)))"

section \<open>Packing a list of ranges\<close>

text \<open>The list with its first range cut at the front and its last range of the given length.\<close>

definition cut_vec :: "gex_Memvec list \<Rightarrow> nat \<Rightarrow> nat option \<Rightarrow> gex_Memvec list" where
  "cut_vec list first_offset last_len =
     (let n = (case last_len of None \<Rightarrow> gex_len (last list) | Some n \<Rightarrow> n); a = gex_addr (hd list) + of_nat first_offset in
      if length list = 1 then [\<lparr>gex_addr = a, gex_len = n\<rparr>]
      else \<lparr>gex_addr = a, gex_len = gex_len (hd list) - first_offset\<rparr> # butlast (tl list) @
             [\<lparr>gex_addr = gex_addr (last list), gex_len = n\<rparr>])"

definition range_cells :: "(u64 \<times> nat) list \<Rightarrow> u64 list" where
  "range_cells rs = concat (map (\<lambda>(a, n). cells a n) rs)"

lemma range_cells_simps [simp]:
  "range_cells [] = []" "range_cells ((a, n) # rs) = cells a n @ range_cells rs"
  "range_cells (rs @ qs) = range_cells rs @ range_cells qs"
  by (simp_all add: range_cells_def)

lemma pack_ranges_cells: "pack_ranges noempty list off last_len = Some rs \<Longrightarrow> range_cells rs = vec_cells (cut_vec list off last_len)"
proof -
  have mid: "vec_cells (filter (\<lambda>v. 0 < gex_len v) vs) = vec_cells vs"
      "range_cells (map (\<lambda>v. (gex_addr v, gex_len v)) vs) = vec_cells vs" for vs
    by (induction vs) auto
  assume "pack_ranges noempty list off last_len = Some rs"
  then show ?thesis
    by (auto simp: pack_ranges_def cut_vec_def Let_def middle_ranges_def mid split: if_splits option.splits)
qed

lemma pack_succeeds:
  assumes "list \<noteq> []" and "length list = 1 \<longrightarrow> 0 < gex_len (hd list)"
  shows "\<exists>rs. pack_ranges False list 0 None = Some rs"
  using assms by (cases list) (auto simp: pack_ranges_def Let_def middle_ranges_def)

lemma cut_nothing: "list \<noteq> [] \<Longrightarrow> vec_cells (cut_vec list 0 None) = vec_cells list"
proof -
  assume ne: "list \<noteq> []"
  show ?thesis
  proof (cases "length list = 1")
    case True
    then obtain v where "list = [v]" by (cases list) auto
    then show ?thesis by (simp add: cut_vec_def)
  next
    case False
    then obtain v ws w where l: "list = v # ws @ [w]" using ne by (cases list rule: rev_cases) (auto simp: neq_Nil_conv)
    then show ?thesis by (simp add: cut_vec_def)
  qed
qed

lemma pack_bytes:
  assumes "gasnete_memvec_pack ne list off n m = Some bs"
  shows "bs = map m (vec_cells (cut_vec list off n))"
proof -
  from assms obtain rs where rs: "pack_ranges ne list off n = Some rs"
    "bs = concat (map (\<lambda>(a, n). read_bytes m a n) rs)" by (auto simp: gasnete_memvec_pack_def)
  have "concat (map (\<lambda>(a, n). read_bytes m a n) rs) = map m (range_cells rs)" by (induction rs) auto
  then show ?thesis using rs by (simp add: pack_ranges_cells)
qed

lemma unpack_ranges_store:
  "length (range_cells rs) = length buf \<Longrightarrow> unpack_ranges rs buf m = store (zip (range_cells rs) buf) m"
proof (induction rs buf m rule: unpack_ranges.induct)
  case (2 a n rs buf m)
  then have n: "n \<le> length buf" by simp
  have "zip (cells a n @ range_cells rs) buf = zip (cells a n) (take n buf) @ zip (range_cells rs) (drop n buf)"
    by (simp add: zip_append1)
  then show ?case using 2 n by (simp add: write_bytes_def min_absorb2)
qed simp

lemma unpack_store:
  "gasnete_memvec_unpack ne list buf off n m = Some m' \<Longrightarrow> length buf = vec_size (cut_vec list off n) \<Longrightarrow>
   m' = store (zip (vec_cells (cut_vec list off n)) buf) m"
  by (auto simp: gasnete_memvec_unpack_def unpack_ranges_store dest!: pack_ranges_cells)

end
