(* ===== verification/Vector_Indiv.thy ===== *)
theory Vector_Indiv
  imports Memvec
begin

text \<open>
  The simple vector transfers of \<^verbatim>\<open>extended-ref/vis/gasnet_vector.c\<close>: copies within the
  node, one remote access for each piece, and the gather put and scatter get of a remotely contiguous
  range. A remote put or get is a message; its effect happens later, in any order with the others.
\<close>

section \<open>Transfers\<close>

text \<open>A remote access: local pointer, remote pointer, size.\<close>

record indiv_op =
  lptr :: u64
  rptr :: u64
  op_sz :: nat

definition put_effect :: "memory \<Rightarrow> indiv_op \<Rightarrow> memory \<Rightarrow> memory" where
  "put_effect lm p rm = write_bytes (rptr p) (read_bytes lm (lptr p) (op_sz p)) rm"

definition get_effect :: "memory \<Rightarrow> indiv_op \<Rightarrow> memory \<Rightarrow> memory" where
  "get_effect rm p lm = write_bytes (lptr p) (read_bytes rm (rptr p) (op_sz p)) lm"

definition gasnete_putv_ref_indiv :: "gex_Memvec list \<Rightarrow> gex_Memvec list \<Rightarrow> indiv_op list option" where
  "gasnete_putv_ref_indiv dstlist srclist =
     map_option (map (\<lambda>(p1, p2, n). \<lparr>lptr = p2, rptr = p1, op_sz = n\<rparr>)) (GASNETE_VECTOR_HELPER dstlist srclist)"

definition gasnete_getv_ref_indiv :: "gex_Memvec list \<Rightarrow> gex_Memvec list \<Rightarrow> indiv_op list option" where
  "gasnete_getv_ref_indiv dstlist srclist =
     map_option (map (\<lambda>(p1, p2, n). \<lparr>lptr = p1, rptr = p2, op_sz = n\<rparr>)) (GASNETE_VECTOR_HELPER dstlist srclist)"

text \<open>
  The copy within the node, in one memory: the peer's addresses are seen at an offset, which is
  computed from one of them.
\<close>

definition gasnete_vector_memcpy ::
  "(u64 \<Rightarrow> u64) \<Rightarrow> bool \<Rightarrow> gex_Memvec list \<Rightarrow> gex_Memvec list \<Rightarrow> memory \<Rightarrow> memory option" where
  "gasnete_vector_memcpy mapped_addr isput dstlist srclist m =
     (let peerlist = (if isput then dstlist else srclist) in
      case skip_empty peerlist of [] \<Rightarrow> Some m
      | v # _ \<Rightarrow>
          let offset = mapped_addr (gex_addr v) - gex_addr v in
          map_option (\<lambda>as. fold (\<lambda>(p1, p2, n) m.
              if isput then write_bytes (p1 + offset) (read_bytes m p2 n) m
              else write_bytes p1 (read_bytes m (p2 + offset) n) m) as m)
            (GASNETE_VECTOR_HELPER dstlist srclist))"

text \<open>The gather put: the bytes put, and where; the scatter get: the bytes got are unpacked.\<close>

definition gasnete_putv_gather :: "gex_Memvec list \<Rightarrow> gex_Memvec list \<Rightarrow> memory \<Rightarrow> (u64 \<times> u8 list) option option" where
  "gasnete_putv_gather dstlist srclist lm =
     (if length dstlist \<noteq> 1 \<or> length srclist \<le> 1 then None
      else let nbytes = gex_len (hd dstlist) in
        if nbytes = 0 then Some None
        else map_option (\<lambda>packedbuf. Some (gex_addr (hd dstlist), take nbytes packedbuf))
               (gasnete_memvec_pack False srclist 0 None lm))"

definition gasnete_getv_scatter :: "gex_Memvec list \<Rightarrow> gex_Memvec list \<Rightarrow> memory \<Rightarrow> memory \<Rightarrow> memory option" where
  "gasnete_getv_scatter dstlist srclist rm lm =
     (if length srclist \<noteq> 1 \<or> length dstlist \<le> 1 then None
      else let nbytes = gex_len (hd srclist) in
        if nbytes = 0 then Some lm
        else gasnete_memvec_unpack False dstlist (read_bytes rm (gex_addr (hd srclist)) nbytes) 0 None lm)"

section \<open>Effects\<close>

fun op_pairs :: "indiv_op \<Rightarrow> (u64 \<times> u64) list" where
  "op_pairs p = zip (cells (rptr p) (op_sz p)) (cells (lptr p) (op_sz p))"

lemma put_effect_store: "put_effect lm p = store (map (\<lambda>(r, l). (r, lm l)) (op_pairs p))"
  by (rule ext) (simp add: put_effect_def write_bytes_def zip_map2)

lemma get_effect_store: "get_effect rm p = store (map (\<lambda>(r, l). (l, rm r)) (op_pairs p))"
proof -
  have "zip (cells (lptr p) (op_sz p)) (map rm (cells (rptr p) (op_sz p))) =
      map (\<lambda>(r, l). (l, rm r)) (zip (cells (rptr p) (op_sz p)) (cells (lptr p) (op_sz p)))"
    by (rule nth_equalityI) auto
  then show ?thesis by (intro ext) (simp add: get_effect_def write_bytes_def)
qed

lemma fold_store: "(\<And>x. f x = store (g x)) \<Longrightarrow> fold f xs m = store (concat (map g xs)) m"
  by (induction xs arbitrary: m) auto

text \<open>Messages whose pairs of cells, taken together, are those of the transfer do it in any order.\<close>

lemma puts_any_order:
  assumes "mset (concat (map pairs ps)) = mset (zip (vec_cells dst) (vec_cells src))"
    and "vec_size dst = vec_size src" and "distinct (vec_cells dst)"
    and "\<And>p. eff p = store (map (\<lambda>(r, l). (r, lm l)) (pairs p))"
  shows "fold eff ps rm = vec_copy dst src lm rm"
proof -
  let ?ws = "concat (map (\<lambda>p. map (\<lambda>(r, l). (r, lm l)) (pairs p)) ps)"
  have "?ws = map (\<lambda>(r, l). (r, lm l)) (concat (map pairs ps))" by (simp add: map_concat comp_def)
  then have "mset ?ws = image_mset (\<lambda>(r, l). (r, lm l)) (mset (concat (map pairs ps)))" by (simp only: mset_map)
  also have "\<dots> = mset (map (\<lambda>(r, l). (r, lm l)) (zip (vec_cells dst) (vec_cells src)))" by (simp only: assms(1) mset_map)
  also have "map (\<lambda>(r, l). (r, lm l)) (zip (vec_cells dst) (vec_cells src)) = zip (vec_cells dst) (map lm (vec_cells src))"
    by (simp add: zip_map2)
  finally have ms: "mset (zip (vec_cells dst) (map lm (vec_cells src))) = mset ?ws" by simp
  have "store (zip (vec_cells dst) (map lm (vec_cells src))) rm = store ?ws rm"
    using assms(2,3) by (intro store_permute [OF ms]) simp
  then show ?thesis unfolding vec_copy_def using fold_store [of eff, OF assms(4)] by simp
qed

lemma gets_any_order:
  assumes "mset (concat (map pairs ps)) = mset (zip (vec_cells src) (vec_cells dst))"
    and "vec_size dst = vec_size src" and "distinct (vec_cells dst)"
    and "\<And>p. eff p = store (map (\<lambda>(r, l). (l, rm r)) (pairs p))"
  shows "fold eff ps lm = vec_copy dst src rm lm"
proof -
  let ?ws = "concat (map (\<lambda>p. map (\<lambda>(r, l). (l, rm r)) (pairs p)) ps)"
  have "?ws = map (\<lambda>(r, l). (l, rm r)) (concat (map pairs ps))" by (simp add: map_concat comp_def)
  then have "mset ?ws = image_mset (\<lambda>(r, l). (l, rm r)) (mset (concat (map pairs ps)))" by (simp only: mset_map)
  also have "\<dots> = mset (map (\<lambda>(r, l). (l, rm r)) (zip (vec_cells src) (vec_cells dst)))" by (simp only: assms(1) mset_map)
  also have "map (\<lambda>(r, l). (l, rm r)) (zip (vec_cells src) (vec_cells dst)) = zip (vec_cells dst) (map rm (vec_cells src))"
    by (rule nth_equalityI) (auto simp: assms(2))
  finally have ms: "mset (zip (vec_cells dst) (map rm (vec_cells src))) = mset ?ws" by simp
  have "store (zip (vec_cells dst) (map rm (vec_cells src))) lm = store ?ws lm"
    using assms(2,3) by (intro store_permute [OF ms]) simp
  then show ?thesis unfolding vec_copy_def using fold_store [of eff, OF assms(4)] by simp
qed

section \<open>Individual accesses\<close>

lemma putv_indiv_pairs:
  assumes "vec_size dst = vec_size src"
  shows "\<exists>ps. gasnete_putv_ref_indiv dst src = Some ps \<and> concat (map op_pairs ps) = zip (vec_cells dst) (vec_cells src) \<and>
     (\<forall>p\<in>set ps. 0 < op_sz p)"
proof -
  from vector_helper_spec [OF assms] obtain as where as: "GASNETE_VECTOR_HELPER dst src = Some as"
    "all_pairs as = zip (vec_cells dst) (vec_cells src)" "\<forall>(p1, p2, n)\<in>set as. 0 < n" by blast
  have "concat (map op_pairs (map (\<lambda>(p1, p2, n). \<lparr>lptr = p2, rptr = p1, op_sz = n\<rparr>) as)) = all_pairs as"
    by (induction as) auto
  then show ?thesis using as by (auto simp: gasnete_putv_ref_indiv_def)
qed

lemma getv_indiv_pairs:
  assumes "vec_size dst = vec_size src"
  shows "\<exists>ps. gasnete_getv_ref_indiv dst src = Some ps \<and> concat (map op_pairs ps) = zip (vec_cells src) (vec_cells dst) \<and>
     (\<forall>p\<in>set ps. 0 < op_sz p)"
proof -
  from vector_helper_spec [OF assms] obtain as where as: "GASNETE_VECTOR_HELPER dst src = Some as"
    "all_pairs as = zip (vec_cells dst) (vec_cells src)" "\<forall>(p1, p2, n)\<in>set as. 0 < n" by blast
  have sw: "map (\<lambda>(x, y). (y, x)) (zip xs ys) = zip ys xs" for xs ys :: "u64 list"
    by (simp add: zip_commute [of ys xs])
  have "concat (map op_pairs (map (\<lambda>(p1, p2, n). \<lparr>lptr = p1, rptr = p2, op_sz = n\<rparr>) as)) =
      map (\<lambda>(x, y). (y, x)) (all_pairs as)"
    by (induction as) (auto simp: sw)
  then show ?thesis using as by (auto simp: gasnete_getv_ref_indiv_def sw)
qed

section \<open>Copies within the node\<close>

text \<open>Copies one after the other, when no copy writes what another reads.\<close>

lemma copies_store:
  assumes "set (concat (map (\<lambda>(d, s, n). cells d n) ds)) \<inter> set (concat (map (\<lambda>(d, s, n). cells s n) ds)) = {}"
  shows "fold (\<lambda>(d, s, n) m. write_bytes d (read_bytes m s n) m) ds m =
     store (concat (map (\<lambda>(d, s, n). zip (cells d n) (read_bytes m s n)) ds)) m"
  using assms
proof (induction ds arbitrary: m)
  case (Cons x ds)
  obtain d s n where x: "x = (d, s, n)" by (cases x)
  let ?m = "write_bytes d (read_bytes m s n) m"
  have "?m a = m a" if "a \<notin> set (cells d n)" for a
    using that by (simp add: write_bytes_def) (rule store_off, auto dest: set_zip_leftD)
  then have same: "read_bytes ?m s' n' = read_bytes m s' n'" if "(d', s', n') \<in> set ds" for d' s' n'
    using that Cons.prems by (intro map_cong refl) (fastforce simp: x)
  have "set (concat (map (\<lambda>(d, s, n). cells d n) ds)) \<inter> set (concat (map (\<lambda>(d, s, n). cells s n) ds)) = {}"
    using Cons.prems by (simp only: x list.map concat.simps set_append prod.case) blast
  then have "fold (\<lambda>(d, s, n) m. write_bytes d (read_bytes m s n) m) ds ?m =
      store (concat (map (\<lambda>(d, s, n). zip (cells d n) (read_bytes ?m s n)) ds)) ?m"
    by (rule Cons.IH)
  also have "map (\<lambda>(d, s, n). zip (cells d n) (read_bytes ?m s n)) ds = map (\<lambda>(d, s, n). zip (cells d n) (read_bytes m s n)) ds"
  proof (rule map_cong [OF refl])
    fix y assume "y \<in> set ds"
    then show "(case y of (d, s, n) \<Rightarrow> zip (cells d n) (read_bytes ?m s n)) =
        (case y of (d, s, n) \<Rightarrow> zip (cells d n) (read_bytes m s n))"
      using same by (metis (no_types, lifting) case_prod_conv prod_cases3)
  qed
  finally show ?case by (simp add: x write_bytes_def)
qed simp

lemma shift_cells: "cells (a + k) n = map (\<lambda>x. x + k) (cells a n)"
  by (rule nth_equalityI) (auto simp: add.commute add.left_commute)

lemma skip_empty_nil: "skip_empty vs = [] \<longleftrightarrow> vec_size vs = 0"
  unfolding skip_empty_def vec_size_def by (auto simp: dropWhile_eq_Nil_conv)

lemma skip_empty_mem: "skip_empty vs = v # ws \<Longrightarrow> gex_addr v \<in> set (vec_cells vs)"
proof -
  assume s: "skip_empty vs = v # ws"
  have "0 < gex_len v" using skip_empty_hd [of vs] s by simp
  then have "gex_addr v \<in> set (cells (gex_addr v) (gex_len v))" by (force simp: cells_def)
  moreover have "vec_cells vs = vec_cells (v # ws)" using skip_empty_cells(1) [of vs] s by simp
  ultimately show ?thesis by simp
qed

lemma all_pairs_fst: "map fst (all_pairs as) = concat (map (\<lambda>(p1, p2, n). cells p1 n) as)"
  and all_pairs_snd: "map snd (all_pairs as) = concat (map (\<lambda>(p1, p2, n). cells p2 n) as)"
  by (induction as) auto

lemma vector_memcpy_copy:
  assumes "vec_size dst = vec_size src"
    and off: "\<And>x. x \<in> set (vec_cells (if isput then dst else src)) \<Longrightarrow> mapped x = x + k"
    and disj: "set (map (\<lambda>x. if isput then x + k else x) (vec_cells dst)) \<inter>
       set (map (\<lambda>x. if isput then x else x + k) (vec_cells src)) = {}"
  shows "gasnete_vector_memcpy mapped isput dst src m =
     Some (store (zip (map (\<lambda>x. if isput then x + k else x) (vec_cells dst))
        (map (\<lambda>x. m (if isput then x else x + k)) (vec_cells src))) m)"
proof (cases "skip_empty (if isput then dst else src)")
  case Nil
  then have "vec_size dst = 0" using assms(1) by (auto simp: skip_empty_nil split: if_splits)
  then have "vec_cells dst = []" by (metis length_0_conv vec_cells_length)
  then show ?thesis using Nil by (simp add: gasnete_vector_memcpy_def)
next
  case (Cons v ws)
  have k: "mapped (gex_addr v) - gex_addr v = k" using off [OF skip_empty_mem [OF Cons]] by simp
  from vector_helper_spec [OF assms(1)] obtain as where as: "GASNETE_VECTOR_HELPER dst src = Some as"
    "all_pairs as = zip (vec_cells dst) (vec_cells src)" by blast
  let ?f = "\<lambda>x. if isput then x + k else x" and ?g = "\<lambda>x. if isput then x else x + k"
  let ?ds = "map (\<lambda>(p1, p2, n). (?f p1, ?g p2, n)) as"
  have f: "cells (?f p) n = map ?f (cells p n)" and g: "cells (?g p) n = map ?g (cells p n)" for p n
    by (simp_all add: shift_cells)
  have d: "concat (map (\<lambda>(d, s, n). cells d n) ?ds) = map ?f (vec_cells dst)"
    using arg_cong [OF as(2), of "\<lambda>zs. map ?f (map fst zs)"] assms(1)
    by (simp only: all_pairs_fst) (simp add: map_concat comp_def split_def f)
  have s: "concat (map (\<lambda>(d, s, n). cells s n) ?ds) = map ?g (vec_cells src)"
    using arg_cong [OF as(2), of "\<lambda>zs. map ?g (map snd zs)"] assms(1)
    by (simp only: all_pairs_snd) (simp add: map_concat comp_def split_def g)
  have z: "concat (map (\<lambda>(d, s, n). zip (cells d n) (read_bytes m s n)) ?ds) =
      map (\<lambda>(x, y). (?f x, m (?g y))) (all_pairs as)"
    by (induction as) (auto simp: f g zip_map_map)
  have "gasnete_vector_memcpy mapped isput dst src m =
      Some (fold (\<lambda>(d, s, n) m. write_bytes d (read_bytes m s n) m) ?ds m)"
    using Cons k as(1) by (cases isput) (simp_all add: gasnete_vector_memcpy_def fold_map comp_def split_def)
  also have "fold (\<lambda>(d, s, n) m. write_bytes d (read_bytes m s n) m) ?ds m =
      store (concat (map (\<lambda>(d, s, n). zip (cells d n) (read_bytes m s n)) ?ds)) m"
    using disj unfolding d [symmetric] s [symmetric] by (rule copies_store)
  also have "\<dots> = store (zip (map ?f (vec_cells dst)) (map (\<lambda>x. m (?g x)) (vec_cells src))) m"
    unfolding z as(2) by (simp add: zip_map_map)
  finally show ?thesis .
qed

section \<open>Remotely contiguous transfers\<close>

lemma putv_gather_copy:
  assumes "length dst = 1" and "1 < length src" and "vec_size dst = vec_size src"
  shows "\<exists>r. gasnete_putv_gather dst src lm = Some r \<and>
     (case r of None \<Rightarrow> rm | Some (a, bs) \<Rightarrow> write_bytes a bs rm) = vec_copy dst src lm rm"
proof -
  obtain v where v: "dst = [v]" using assms(1) by (cases dst) auto
  have ne: "src \<noteq> []" "length src \<noteq> 1" using assms(2) by auto
  show ?thesis
  proof (cases "gex_len v = 0")
    case True
    then show ?thesis using v assms(2) by (simp add: gasnete_putv_gather_def vec_copy_def)
  next
    case False
    obtain rs where "pack_ranges False src 0 None = Some rs" using pack_succeeds [OF ne(1)] ne(2) by blast
    then obtain bs where bs: "gasnete_memvec_pack False src 0 None lm = Some bs" by (simp add: gasnete_memvec_pack_def)
    have "bs = map lm (vec_cells src)" using pack_bytes [OF bs] cut_nothing [OF ne(1)] by simp
    moreover have "vec_size src = gex_len v" using assms(3) v by simp
    ultimately show ?thesis using False v assms(2) bs
      by (simp add: gasnete_putv_gather_def vec_copy_def write_bytes_def)
  qed
qed

lemma getv_scatter_copy:
  assumes "length src = 1" and "1 < length dst" and "vec_size dst = vec_size src"
  shows "gasnete_getv_scatter dst src rm lm = Some (vec_copy dst src rm lm)"
proof -
  obtain v where v: "src = [v]" using assms(1) by (cases src) auto
  have ne: "dst \<noteq> []" "length dst \<noteq> 1" using assms(2) by auto
  show ?thesis
  proof (cases "gex_len v = 0")
    case True
    then show ?thesis using v assms(2) by (simp add: gasnete_getv_scatter_def vec_copy_def)
  next
    case False
    obtain rs where "pack_ranges False dst 0 None = Some rs" using pack_succeeds [OF ne(1)] ne(2) by blast
    then obtain m where m: "gasnete_memvec_unpack False dst (read_bytes rm (gex_addr v) (gex_len v)) 0 None lm = Some m"
      by (simp add: gasnete_memvec_unpack_def)
    have "vec_size (cut_vec dst 0 None) = vec_size dst" using arg_cong [OF cut_nothing [OF ne(1)], of length] by simp
    then have "m = vec_copy dst src rm lm"
      using unpack_store [OF m] assms(3) v cut_nothing [OF ne(1)] by (simp add: vec_copy_def)
    then show ?thesis using False v assms(2) m by (simp add: gasnete_getv_scatter_def)
  qed
qed

end
