(* ===== verification/Vector_Pipeline.thy ===== *)
theory Vector_Pipeline
  imports Vector_Indiv
begin

text \<open>
  The incremental active-message pipeline of \<^verbatim>\<open>extended-ref/vis/gasnet_vector.c\<close>:
  one pass over the two lists of a vector put or get, which packs small pieces into packets and sends
  large pieces as remote accesses, and the handlers of its messages. The limits and switches of the
  conduit are a record; what a packet buffer holds so far is a list of bytes; a failed assertion is
  \<open>None\<close>. The address of the bound segment, an argument of the definitions, is the one of the
  target, which both sides know.
\<close>

section \<open>State\<close>

record vis_config =
  isget :: bool
  use_rma :: bool         \<comment> \<open>\<open>GASNETI_VECTOR_USE_RMA\<close>\<close>
  npam :: bool            \<comment> \<open>\<open>GASNETE_VIS_NPAM\<close> is not 0\<close>
  maxchunk :: nat
  maxrequest :: nat
  maxreply :: nat

datatype vis_msg =
    Rma indiv_op
  | Packet "u8 list" nat nat        \<comment> \<open>payload, \<open>savedlst_idx\<close>, \<open>savedlst_offset\<close>\<close>

record pipe =
  rvec :: gex_Memvec
  rvec_next :: "gex_Memvec list"
  lvec :: gex_Memvec
  lvec_next :: "gex_Memvec list"
  pack_p :: "u8 list option"
  pack_rvec :: "nat option"
  prev_rptr :: u64
  defer_buf :: "indiv_op list"
  savedlst :: "gex_Memvec list"
  savedlst_pos :: bool              \<comment> \<open>not null; then it points to the last entry\<close>
  savedlst_idx :: nat
  savedlst_offset :: nat
  reply_datasz :: nat
  injected :: "vis_msg list"

definition SHORTLEN_MAX :: nat where
  "SHORTLEN_MAX = 65535"

text \<open>A \<open>shortlen_t\<close> as it lies in a buffer, and the one at a place of a buffer.\<close>

definition short_bytes :: "nat \<Rightarrow> u8 list" where
  "short_bytes n = [of_nat (n mod 256), of_nat (n div 256)]"

definition short_at :: "u8 list \<Rightarrow> nat \<Rightarrow> nat" where
  "short_at bs i = unat (bs ! i) + 256 * unat (bs ! (i + 1))"

section \<open>Picking up a maximal contiguous range\<close>

fun merge_up :: "gex_Memvec \<Rightarrow> gex_Memvec list \<Rightarrow> gex_Memvec \<times> gex_Memvec list" where
  "merge_up v [] = (v, [])"
| "merge_up v (w # ws) =
     (if gex_len w = 0 then merge_up v ws
      else if gex_addr w = gex_addr v + of_nat (gex_len v) then merge_up (v\<lparr>gex_len := gex_len v + gex_len w\<rparr>) ws
      else (v, w # ws))"

definition pick_vec :: "gex_Memvec list \<Rightarrow> (gex_Memvec \<times> gex_Memvec list) option" where
  "pick_vec vs = (case vs of [] \<Rightarrow> None | v # ws \<Rightarrow> if gex_len v = 0 then None else Some (merge_up v ws))"

definition pick_rvec :: "pipe \<Rightarrow> pipe option" where
  "pick_rvec st = (if gex_len (rvec st) = 0
     then map_option (\<lambda>(v, vs). st\<lparr>rvec := v, rvec_next := vs, pack_rvec := None\<rparr>) (pick_vec (rvec_next st))
     else Some st)"

definition pick_lvec :: "vis_config \<Rightarrow> pipe \<Rightarrow> pipe option" where
  "pick_lvec cfg st = (if gex_len (lvec st) = 0
     then map_option (\<lambda>(v, vs). st\<lparr>lvec := v, lvec_next := vs,
            savedlst_pos := (if isget cfg then False else savedlst_pos st)\<rparr>) (pick_vec (lvec_next st))
     else Some st)"

section \<open>Remote access for a large piece\<close>

definition vis_rma :: "vis_config \<Rightarrow> nat \<Rightarrow> pipe \<Rightarrow> pipe option" where
  "vis_rma cfg contig_sz st =
     (let p = \<lparr>lptr = gex_addr (lvec st), rptr = gex_addr (rvec st), op_sz = contig_sz\<rparr>;
          st1 = (if \<not> npam cfg \<or> pack_p st = None then st\<lparr>injected := injected st @ [Rma p]\<rparr>
                 else st\<lparr>defer_buf := defer_buf st @ [p]\<rparr>);
          st2 = st1\<lparr>pack_rvec := None\<rparr>
      in if isget cfg \<and> savedlst_pos st2
         then let v = last (savedlst st2) in
           if gex_len v > gex_len (lvec st2)
           then Some (st2\<lparr>savedlst := butlast (savedlst st2) @ [v\<lparr>gex_len := gex_len v - gex_len (lvec st2)\<rparr>],
                         savedlst_pos := False\<rparr>)
           else None
         else Some st2)"

text \<open>The deferred accesses, last one first.\<close>

definition DRAIN_DEFERRED :: "vis_config \<Rightarrow> pipe \<Rightarrow> pipe" where
  "DRAIN_DEFERRED cfg st = (if use_rma cfg \<and> npam cfg
     then st\<lparr>injected := injected st @ map Rma (rev (defer_buf st)), defer_buf := []\<rparr> else st)"

definition gasneti_AMpipeline_packetinject :: "vis_config \<Rightarrow> pipe \<Rightarrow> pipe option" where
  "gasneti_AMpipeline_packetinject cfg st = (case pack_p st of None \<Rightarrow> None
     | Some bs \<Rightarrow>
         if bs = [] \<or> isget cfg \<and> (savedlst_idx st \<ge> 2 ^ 31 \<or> savedlst_offset st \<ge> 2 ^ 31) then None
         else Some (st\<lparr>injected := injected st @
                (if isget cfg then [Packet bs (savedlst_idx st) (savedlst_offset st)] else [Packet bs 0 0])\<rparr>))"

section \<open>Packing a piece\<close>

definition pack_full :: "vis_config \<Rightarrow> pipe \<Rightarrow> bool" where
  "pack_full cfg st \<longleftrightarrow>
     (case pack_p st of None \<Rightarrow> False
      | Some bs \<Rightarrow> length bs + 8 + 2 + (if isget cfg then 0 else 1) > maxrequest cfg) \<or>
     isget cfg \<and> reply_datasz st = maxreply cfg"

definition send_full :: "vis_config \<Rightarrow> pipe \<Rightarrow> pipe option" where
  "send_full cfg st = (if pack_full cfg st
     then map_option (\<lambda>st1. DRAIN_DEFERRED cfg (st1\<lparr>pack_p := None\<rparr>)) (gasneti_AMpipeline_packetinject cfg st)
     else Some st)"

definition save_lvec :: "vis_config \<Rightarrow> pipe \<Rightarrow> pipe" where
  "save_lvec cfg st = (if isget cfg \<and> \<not> savedlst_pos st
     then st\<lparr>savedlst := savedlst st @ [lvec st], savedlst_pos := True\<rparr> else st)"

definition start_packet :: "vis_config \<Rightarrow> u64 \<Rightarrow> pipe \<Rightarrow> pipe" where
  "start_packet cfg segbase st = (if pack_p st = None
     then let st1 = st\<lparr>pack_p := Some [], prev_rptr := segbase, pack_rvec := None\<rparr> in
       if isget cfg
       then st1\<lparr>reply_datasz := 0, savedlst_idx := length (savedlst st1) - 1,
                savedlst_offset := unat (gex_addr (lvec st1) - gex_addr (last (savedlst st1)))\<rparr>
       else st1
     else st)"

text \<open>The entry to which the piece goes: the size it has already, and the state with its place.\<close>

definition new_pack_entry :: "u8 list \<Rightarrow> pipe \<Rightarrow> pipe" where
  "new_pack_entry bs st =
     (let bs1 = bs @ GASNETI_VLIDE_ENCODE (prev_rptr st) (gex_addr (rvec st)) in
      st\<lparr>prev_rptr := gex_addr (rvec st), pack_rvec := Some (length bs1), pack_p := Some (bs1 @ [0, 0])\<rparr>)"

definition pack_entry :: "pipe \<Rightarrow> (nat \<times> pipe) option" where
  "pack_entry st = (case pack_p st of None \<Rightarrow> None
     | Some bs \<Rightarrow>
         (case pack_rvec st of
            Some i \<Rightarrow> let already_packed = short_at bs i in
              if already_packed = SHORTLEN_MAX then Some (0, new_pack_entry bs st) else Some (already_packed, st)
          | None \<Rightarrow> Some (0, new_pack_entry bs st)))"

text \<open>The data of the piece, cut to the space left: the bytes packed and the new state.\<close>

definition pack_data :: "vis_config \<Rightarrow> memory \<Rightarrow> nat \<Rightarrow> nat \<Rightarrow> pipe \<Rightarrow> (nat \<times> pipe) option" where
  "pack_data cfg lm contig_sz already_packed st =
     (case (pack_p st, pack_rvec st) of
        (Some bs, Some i) \<Rightarrow>
          let remaining_space = (if isget cfg then maxreply cfg - reply_datasz st else maxrequest cfg - length bs);
              contig = min (min contig_sz remaining_space) (SHORTLEN_MAX - already_packed)
          in if remaining_space = 0 \<or> contig = 0 then None
             else let size = short_bytes (already_packed + contig); bs1 = bs[i := size ! 0, i + 1 := size ! 1]
               in Some (contig,
                    if isget cfg then st\<lparr>pack_p := Some bs1, reply_datasz := reply_datasz st + contig\<rparr>
                    else st\<lparr>pack_p := Some (bs1 @ read_bytes lm (gex_addr (lvec st)) contig)\<rparr>)
      | _ \<Rightarrow> None)"

definition vis_pack :: "vis_config \<Rightarrow> u64 \<Rightarrow> memory \<Rightarrow> nat \<Rightarrow> pipe \<Rightarrow> (nat \<times> pipe) option" where
  "vis_pack cfg segbase lm contig_sz st =
     (case send_full cfg st of None \<Rightarrow> None
      | Some st1 \<Rightarrow>
          (case pack_entry (start_packet cfg segbase (save_lvec cfg st1)) of None \<Rightarrow> None
           | Some (already_packed, st2) \<Rightarrow> pack_data cfg lm contig_sz already_packed st2))"

section \<open>The loop\<close>

definition consume :: "nat \<Rightarrow> gex_Memvec \<Rightarrow> gex_Memvec" where
  "consume n v = \<lparr>gex_addr = gex_addr v + of_nat n, gex_len = gex_len v - n\<rparr>"

definition advance :: "nat \<Rightarrow> pipe \<Rightarrow> pipe option" where
  "advance contig_sz st =
     (if contig_sz \<le> gex_len (lvec st) \<and> contig_sz \<le> gex_len (rvec st)
      then Some (st\<lparr>lvec := consume contig_sz (lvec st), rvec := consume contig_sz (rvec st)\<rparr>) else None)"

definition pipe_asserts :: "vis_config \<Rightarrow> nat \<Rightarrow> pipe \<Rightarrow> bool" where
  "pipe_asserts cfg savedlst_max st \<longleftrightarrow>
     (case pack_p st of None \<Rightarrow> True | Some bs \<Rightarrow> length bs \<le> maxrequest cfg \<and>
        (case pack_rvec st of None \<Rightarrow> True | Some i \<Rightarrow> 0 < i \<and> i < length bs)) \<and>
     (isget cfg \<longrightarrow> reply_datasz st \<le> maxreply cfg \<and> length (savedlst st) \<le> savedlst_max \<and>
        (savedlst_pos st \<longrightarrow> savedlst_idx st < length (savedlst st)))"

definition pipe_body :: "vis_config \<Rightarrow> u64 \<Rightarrow> memory \<Rightarrow> nat \<Rightarrow> pipe \<Rightarrow> pipe option" where
  "pipe_body cfg segbase lm savedlst_max st =
     (case pick_rvec st of None \<Rightarrow> None | Some st1 \<Rightarrow>
      (case pick_lvec cfg st1 of None \<Rightarrow> None | Some st2 \<Rightarrow>
        let contig_sz = min (gex_len (lvec st2)) (gex_len (rvec st2)) in
        case (if use_rma cfg \<and> contig_sz > maxchunk cfg
              then map_option (Pair contig_sz) (vis_rma cfg contig_sz st2)
              else vis_pack cfg segbase lm contig_sz st2) of
          None \<Rightarrow> None
        | Some (n, st3) \<Rightarrow>
            (case advance n st3 of None \<Rightarrow> None
             | Some st4 \<Rightarrow> if pipe_asserts cfg savedlst_max st4 then Some st4 else None)))"

definition pipe_more :: "pipe \<Rightarrow> bool" where
  "pipe_more st \<longleftrightarrow> gex_len (lvec st) + gex_len (rvec st) > 0 \<or> rvec_next st \<noteq> []"

definition bytes_left :: "pipe \<Rightarrow> nat" where
  "bytes_left st = gex_len (rvec st) + vec_size (rvec_next st)"

lemma merge_up_size: "merge_up v vs = (w, ws) \<Longrightarrow> gex_len w + vec_size ws = gex_len v + vec_size vs"
  by (induction v vs rule: merge_up.induct) (auto split: if_splits)

lemma pick_vec_size: "pick_vec vs = Some (w, ws) \<Longrightarrow> gex_len w + vec_size ws = vec_size vs"
  by (auto simp: pick_vec_def dest: merge_up_size split: list.splits if_splits)

lemma pick_rvec_left: "pick_rvec st = Some st1 \<Longrightarrow> bytes_left st1 = bytes_left st"
  by (auto simp: pick_rvec_def bytes_left_def dest: pick_vec_size split: if_splits)

lemma pick_lvec_left: "pick_lvec cfg st = Some st1 \<Longrightarrow> bytes_left st1 = bytes_left st"
  by (auto simp: pick_lvec_def bytes_left_def split: if_splits)

lemma vis_rma_left: "vis_rma cfg n st = Some st1 \<Longrightarrow> bytes_left st1 = bytes_left st"
  by (auto simp: vis_rma_def bytes_left_def Let_def split: if_splits)

lemma packetinject_left: "gasneti_AMpipeline_packetinject cfg st = Some st1 \<Longrightarrow> bytes_left st1 = bytes_left st"
  by (auto simp: gasneti_AMpipeline_packetinject_def bytes_left_def split: option.splits if_splits)

lemma send_full_left: "send_full cfg st = Some st1 \<Longrightarrow> bytes_left st1 = bytes_left st"
proof -
  have "bytes_left (DRAIN_DEFERRED cfg (s\<lparr>pack_p := None\<rparr>)) = bytes_left s" for s
    by (simp add: DRAIN_DEFERRED_def bytes_left_def)
  then show "send_full cfg st = Some st1 \<Longrightarrow> bytes_left st1 = bytes_left st"
    by (auto simp: send_full_def dest: packetinject_left split: if_splits)
qed

lemma start_packet_left: "bytes_left (start_packet cfg segbase (save_lvec cfg st)) = bytes_left st"
  by (simp add: start_packet_def save_lvec_def bytes_left_def Let_def)

lemma pack_entry_left: "pack_entry st = Some (n, st1) \<Longrightarrow> bytes_left st1 = bytes_left st"
  by (auto simp: pack_entry_def bytes_left_def new_pack_entry_def Let_def split: option.splits if_splits)

lemma pack_data_left: "pack_data cfg lm n k st = Some (c, st1) \<Longrightarrow> bytes_left st1 = bytes_left st \<and> 0 < c"
  by (auto simp: pack_data_def bytes_left_def Let_def split: option.splits if_splits)

lemma vis_pack_left: "vis_pack cfg segbase lm n st = Some (c, st1) \<Longrightarrow> bytes_left st1 = bytes_left st \<and> 0 < c"
  by (auto simp: vis_pack_def dest!: send_full_left pack_entry_left pack_data_left split: option.splits prod.splits)
     (simp_all add: start_packet_left)

lemma pipe_body_left: "pipe_body cfg segbase lm sm st = Some st' \<Longrightarrow> bytes_left st' < bytes_left st"
proof -
  have adv: "bytes_left st4 < bytes_left st3" if "advance n st3 = Some st4" "0 < n" for n st3 st4
    using that by (auto simp: advance_def bytes_left_def consume_def split: if_splits)
  assume "pipe_body cfg segbase lm sm st = Some st'"
  then obtain st1 st2 n st3 where s: "pick_rvec st = Some st1" "pick_lvec cfg st1 = Some st2" "advance n st3 = Some st'"
    and m: "(if use_rma cfg \<and> min (gex_len (lvec st2)) (gex_len (rvec st2)) > maxchunk cfg
        then map_option (Pair (min (gex_len (lvec st2)) (gex_len (rvec st2)))) (vis_rma cfg (min (gex_len (lvec st2)) (gex_len (rvec st2))) st2)
        else vis_pack cfg segbase lm (min (gex_len (lvec st2)) (gex_len (rvec st2))) st2) = Some (n, st3)"
    by (auto simp: pipe_body_def Let_def split: option.splits prod.splits if_splits)
  have "bytes_left st3 = bytes_left st2 \<and> 0 < n"
    using m by (auto dest: vis_rma_left vis_pack_left split: if_splits)
  then show ?thesis using adv [OF s(3)] pick_rvec_left [OF s(1)] pick_lvec_left [OF s(2)] by simp
qed

function pipe_loop :: "vis_config \<Rightarrow> u64 \<Rightarrow> memory \<Rightarrow> nat \<Rightarrow> pipe \<Rightarrow> pipe option" where
  "pipe_loop cfg segbase lm savedlst_max st =
     (case pipe_body cfg segbase lm savedlst_max st of None \<Rightarrow> None
      | Some st' \<Rightarrow> if pipe_more st' then pipe_loop cfg segbase lm savedlst_max st' else Some st')"
  by pat_completeness auto
termination
  by (relation "measure (\<lambda>(cfg, segbase, lm, sm, st). bytes_left st)") (auto dest: pipe_body_left)

declare pipe_loop.simps [simp del]

definition pipe_start :: "u64 \<Rightarrow> gex_Memvec list \<Rightarrow> gex_Memvec list \<Rightarrow> pipe" where
  "pipe_start segbase rvecs lvecs =
     \<lparr>rvec = \<lparr>gex_addr = 0, gex_len = 0\<rparr>, rvec_next = rvecs, lvec = \<lparr>gex_addr = 0, gex_len = 0\<rparr>, lvec_next = lvecs,
      pack_p = None, pack_rvec = None, prev_rptr = segbase, defer_buf = [], savedlst = [], savedlst_pos = False,
      savedlst_idx = 0, savedlst_offset = 0, reply_datasz = 0, injected = []\<rparr>"

text \<open>The end of the pass: the last packet and the accesses deferred behind it.\<close>

definition pipe_finish :: "vis_config \<Rightarrow> pipe \<Rightarrow> pipe option" where
  "pipe_finish cfg st =
     (if rvec_next st \<noteq> [] \<or> lvec_next st \<noteq> [] then None
      else if pack_p st = None then Some st
      else map_option (DRAIN_DEFERRED cfg) (gasneti_AMpipeline_packetinject cfg st))"

text \<open>The messages injected and the saved list, which replies use.\<close>

definition gasneti_AMpipeline_incremental ::
  "vis_config \<Rightarrow> u64 \<Rightarrow> memory \<Rightarrow> gex_Memvec list \<Rightarrow> gex_Memvec list \<Rightarrow> (vis_msg list \<times> gex_Memvec list) option" where
  "gasneti_AMpipeline_incremental cfg segbase lm rvec_lst lvec_lst =
     (case skip_empty rvec_lst of [] \<Rightarrow> Some ([], [])
      | r # rs \<Rightarrow>
          (case skip_empty lvec_lst of [] \<Rightarrow> None
           | l # ls \<Rightarrow>
               (case pipe_loop cfg segbase lm (length rvec_lst + length lvec_lst) (pipe_start segbase (r # rs) (l # ls)) of
                  None \<Rightarrow> None
                | Some st \<Rightarrow> map_option (\<lambda>st. (injected st, savedlst st)) (pipe_finish cfg st))))"

section \<open>Handlers\<close>

text \<open>The loop of the handler of a put packet, and of a get packet: the data of its reply.\<close>

function gasnete_putv_AMPipeline_reqh :: "u64 \<Rightarrow> u8 list \<Rightarrow> memory \<Rightarrow> memory option" where
  "gasnete_putv_AMPipeline_reqh rp pbuf rm =
     (case GASNETI_VLIDE_DECODE pbuf rp of None \<Rightarrow> None
      | Some (rp', buf1) \<Rightarrow>
          if length buf1 \<le> 2 then None
          else let len = short_at buf1 0; buf2 = drop 2 buf1 in
            if len > length buf2 then None
            else let rm' = write_bytes rp' (take len buf2) rm; buf3 = drop len buf2 in
              if buf3 = [] then Some rm' else gasnete_putv_AMPipeline_reqh rp' buf3 rm')"
  by pat_completeness auto
termination
  by (relation "measure (\<lambda>(rp, pbuf, rm). length pbuf)") (auto dest: decode_shorter)

function get_request_loop :: "nat \<Rightarrow> u64 \<Rightarrow> u8 list \<Rightarrow> memory \<Rightarrow> u8 list \<Rightarrow> u8 list option" where
  "get_request_loop max_data rp pmeta rm pdata =
     (case GASNETI_VLIDE_DECODE pmeta rp of None \<Rightarrow> None
      | Some (rp', buf1) \<Rightarrow>
          if length buf1 < 2 then None
          else let len = short_at buf1 0; buf2 = drop 2 buf1 in
            if length pdata + len > max_data then None
            else let pdata' = pdata @ read_bytes rm rp' len in
              if buf2 = [] then Some pdata' else get_request_loop max_data rp' buf2 rm pdata')"
  by pat_completeness auto
termination
  by (relation "measure (\<lambda>(mr, rp, pmeta, rm, pdata). length pmeta)") (auto dest: decode_shorter)

declare gasnete_putv_AMPipeline_reqh.simps [simp del] get_request_loop.simps [simp del]

definition gasnete_getv_AMPipeline_reqh :: "nat \<Rightarrow> u64 \<Rightarrow> u8 list \<Rightarrow> memory \<Rightarrow> u8 list option" where
  "gasnete_getv_AMPipeline_reqh max_data segbase addr rm =
     (case get_request_loop max_data segbase addr rm [] of None \<Rightarrow> None
      | Some data \<Rightarrow> if data = [] then None else Some data)"

text \<open>The reply fills the saved ranges from a place on.\<close>

fun scatter_saved :: "gex_Memvec \<Rightarrow> gex_Memvec list \<Rightarrow> u8 list \<Rightarrow> memory \<Rightarrow> memory option" where
  "scatter_saved v vs pbuf lm =
     (if gex_len v = 0 then None
      else let len = min (gex_len v) (length pbuf); lm' = write_bytes (gex_addr v) (take len pbuf) lm; pbuf' = drop len pbuf
        in if pbuf' = [] then Some lm' else (case vs of [] \<Rightarrow> None | w # ws \<Rightarrow> scatter_saved w ws pbuf' lm'))"

declare scatter_saved.simps [simp del]

definition gasnete_getv_AMPipeline_reph ::
  "gex_Memvec list \<Rightarrow> nat \<Rightarrow> nat \<Rightarrow> u8 list \<Rightarrow> memory \<Rightarrow> memory option" where
  "gasnete_getv_AMPipeline_reph saved idx off addr lm =
     (if addr = [] then None
      else case drop idx saved of [] \<Rightarrow> None
      | v # vs \<Rightarrow> if off < gex_len v then scatter_saved (consume off v) vs addr lm else None)"

end
