(* ===== verification/Vector_Inv.thy ===== *)
theory Vector_Inv
  imports Vector_Pipeline
begin

text \<open>
  What the messages of the vector pipeline mean, and the invariant of its pass: packets are lists of
  entries (a remote address and the local cells that go there, or come from there), the handlers act
  on exactly those cells, and the cells of the messages sent, of the accesses deferred, of the
  packet being filled and of the rest of the two lists are together those of the transfer.
\<close>

section \<open>Entries\<close>

type_synonym vis_entry = "u64 \<times> u64 list"

definition entry_ok :: "vis_entry \<Rightarrow> bool" where
  "entry_ok e \<longleftrightarrow> 0 < length (snd e) \<and> length (snd e) \<le> SHORTLEN_MAX"

definition entry_bytes :: "bool \<Rightarrow> memory \<Rightarrow> u64 \<Rightarrow> vis_entry \<Rightarrow> u8 list" where
  "entry_bytes get lm prev e =
     GASNETI_VLIDE_ENCODE prev (fst e) @ short_bytes (length (snd e)) @ (if get then [] else map lm (snd e))"

fun entries_bytes :: "bool \<Rightarrow> memory \<Rightarrow> u64 \<Rightarrow> vis_entry list \<Rightarrow> u8 list" where
  "entries_bytes get lm prev [] = []"
| "entries_bytes get lm prev (e # es) = entry_bytes get lm prev e @ entries_bytes get lm (fst e) es"

definition last_addr :: "u64 \<Rightarrow> vis_entry list \<Rightarrow> u64" where
  "last_addr prev es = (if es = [] then prev else fst (last es))"

lemma entries_bytes_snoc:
  "entries_bytes get lm prev (es @ [e]) = entries_bytes get lm prev es @ entry_bytes get lm (last_addr prev es) e"
  by (induction es arbitrary: prev) (auto simp: last_addr_def)

definition entry_pairs :: "vis_entry \<Rightarrow> (u64 \<times> u64) list" where
  "entry_pairs e = zip (cells (fst e) (length (snd e))) (snd e)"

definition entries_pairs :: "vis_entry list \<Rightarrow> (u64 \<times> u64) list" where
  "entries_pairs es = concat (map entry_pairs es)"

definition entries_cells :: "vis_entry list \<Rightarrow> u64 list" where
  "entries_cells es = concat (map snd es)"

lemma entries_simps [simp]:
  "entries_pairs [] = []" "entries_pairs (e # es) = entry_pairs e @ entries_pairs es"
  "entries_pairs (es @ fs) = entries_pairs es @ entries_pairs fs"
  "entries_cells [] = []" "entries_cells (e # es) = snd e @ entries_cells es"
  "entries_cells (es @ fs) = entries_cells es @ entries_cells fs"
  by (simp_all add: entries_pairs_def entries_cells_def)

lemma entries_pairs_snd: "map snd (entries_pairs es) = entries_cells es"
  by (induction es) (auto simp: entry_pairs_def)

lemma short_bytes_length [simp]: "length (short_bytes n) = 2"
  by (simp add: short_bytes_def)

lemma short_at_bytes: "n \<le> SHORTLEN_MAX \<Longrightarrow> short_at (bs @ short_bytes n @ rest) (length bs) = n"
  by (simp add: short_at_def short_bytes_def SHORTLEN_MAX_def nth_append unat_of_nat)

lemmas short_at_start = short_at_bytes [of _ "[]", simplified]

section \<open>Handlers on entries\<close>

lemma entry_bytes_next:
  "GASNETI_VLIDE_DECODE (entry_bytes get lm prev e @ rest) prev =
     Some (fst e, short_bytes (length (snd e)) @ (if get then [] else map lm (snd e)) @ rest)"
  by (simp add: entry_bytes_def vlide_decode_encode)

lemma put_handler:
  assumes "es \<noteq> []" and "\<forall>e\<in>set es. entry_ok e"
  shows "gasnete_putv_AMPipeline_reqh prev (entries_bytes False lm prev es) rm =
     Some (store (map (\<lambda>(r, l). (r, lm l)) (entries_pairs es)) rm)"
  using assms
proof (induction es arbitrary: prev rm)
  case (Cons e es)
  have ok: "0 < length (snd e)" "length (snd e) \<le> SHORTLEN_MAX" using Cons.prems(2) by (simp_all add: entry_ok_def)
  let ?buf = "map lm (snd e) @ entries_bytes False lm (fst e) es"
  have d: "GASNETI_VLIDE_DECODE (entries_bytes False lm prev (e # es)) prev = Some (fst e, short_bytes (length (snd e)) @ ?buf)"
    using entry_bytes_next [of False lm prev e] by simp
  have w: "write_bytes (fst e) (map lm (snd e)) = store (map (\<lambda>(r, l). (r, lm l)) (entry_pairs e))"
    by (rule ext) (simp add: write_bytes_def entry_pairs_def zip_map2)
  have len: "short_at (short_bytes (length (snd e)) @ ?buf) 0 = length (snd e)" using ok by (simp add: short_at_start)
  have step: "gasnete_putv_AMPipeline_reqh prev (entries_bytes False lm prev (e # es)) rm =
      (if entries_bytes False lm (fst e) es = [] then Some (write_bytes (fst e) (map lm (snd e)) rm)
       else gasnete_putv_AMPipeline_reqh (fst e) (entries_bytes False lm (fst e) es) (write_bytes (fst e) (map lm (snd e)) rm))"
    using ok(1) by (subst gasnete_putv_AMPipeline_reqh.simps) (simp add: d len Let_def del: entries_bytes.simps)
  show ?case
  proof (cases es)
    case Nil
    then show ?thesis unfolding step by (simp add: w)
  next
    case (Cons e' es')
    have "entries_bytes False lm (fst e) es \<noteq> []" using Cons by (simp add: entry_bytes_def short_bytes_def)
    moreover have "gasnete_putv_AMPipeline_reqh (fst e) (entries_bytes False lm (fst e) es) rm' =
        Some (store (map (\<lambda>(r, l). (r, lm l)) (entries_pairs es)) rm')" for rm'
      using Cons Cons.prems(2) by (intro Cons.IH) simp_all
    ultimately show ?thesis unfolding step by (simp add: w)
  qed
qed simp

lemma get_loop:
  assumes "es \<noteq> []" and "\<forall>e\<in>set es. entry_ok e" and "length pd + length (entries_cells es) \<le> mr"
  shows "get_request_loop mr prev (entries_bytes True lm prev es) rm pd = Some (pd @ map (rm \<circ> fst) (entries_pairs es))"
  using assms
proof (induction es arbitrary: prev pd)
  case (Cons e es)
  have ok: "length (snd e) \<le> SHORTLEN_MAX" using Cons.prems(2) by (simp add: entry_ok_def)
  let ?buf = "entries_bytes True lm (fst e) es"
  have d: "GASNETI_VLIDE_DECODE (entries_bytes True lm prev (e # es)) prev = Some (fst e, short_bytes (length (snd e)) @ ?buf)"
    using entry_bytes_next [of True lm prev e] by simp
  have len: "short_at (short_bytes (length (snd e)) @ ?buf) 0 = length (snd e)" using ok by (simp add: short_at_start)
  have rd: "read_bytes rm (fst e) (length (snd e)) = map (rm \<circ> fst) (entry_pairs e)"
    by (rule nth_equalityI) (auto simp: entry_pairs_def)
  have step: "get_request_loop mr prev (entries_bytes True lm prev (e # es)) rm pd =
      (if ?buf = [] then Some (pd @ map (rm \<circ> fst) (entry_pairs e))
       else get_request_loop mr (fst e) ?buf rm (pd @ map (rm \<circ> fst) (entry_pairs e)))"
    using Cons.prems(3) by (subst get_request_loop.simps) (simp add: d len Let_def rd del: entries_bytes.simps map_map)
  show ?case
  proof (cases es)
    case Nil
    then show ?thesis unfolding step by simp
  next
    case (Cons e' es')
    have "?buf \<noteq> []" using Cons by (simp add: entry_bytes_def short_bytes_def)
    moreover have "get_request_loop mr (fst e) ?buf rm (pd @ map (rm \<circ> fst) (entry_pairs e)) =
        Some ((pd @ map (rm \<circ> fst) (entry_pairs e)) @ map (rm \<circ> fst) (entries_pairs es))"
      using Cons Cons.prems(2,3) by (intro Cons.IH) (simp_all add: entry_pairs_def)
    ultimately show ?thesis unfolding step by simp
  qed
qed simp

lemma get_handler:
  assumes "es \<noteq> []" and "\<forall>e\<in>set es. entry_ok e" and "length (entries_cells es) \<le> mr"
  shows "gasnete_getv_AMPipeline_reqh mr seg (entries_bytes True lm seg es) rm = Some (map (rm \<circ> fst) (entries_pairs es))"
proof -
  have "0 < length (entry_pairs (hd es))" using assms(1,2) by (cases es) (auto simp: entry_pairs_def entry_ok_def)
  then have "entries_pairs es \<noteq> []" using assms(1) by (cases es) auto
  then show ?thesis using get_loop [of es "[]" mr seg lm rm] assms by (simp add: gasnete_getv_AMPipeline_reqh_def)
qed

text \<open>The reply writes the cells of the saved ranges from its place on.\<close>

lemma zip_take_eq: "length bs \<le> length xs \<Longrightarrow> zip (take (length bs) xs) bs = zip xs bs"
  by (rule nth_equalityI) auto

lemma zip_prefix: "length bs \<le> length xs \<Longrightarrow> zip (xs @ ys) bs = zip (take (length bs) xs) bs"
  by (simp add: zip_append1 zip_take_eq)

lemma scatter_store:
  assumes "\<forall>w\<in>set (v # vs). 0 < gex_len w" and "bs \<noteq> []" and "length bs \<le> vec_size (v # vs)"
  shows "scatter_saved v vs bs lm = Some (store (zip (vec_cells (v # vs)) bs) lm)"
  using assms
proof (induction vs arbitrary: v bs lm)
  case Nil
  have "zip (vec_cells [v]) bs = zip (cells (gex_addr v) (length bs)) bs"
    using Nil by (simp only: vec_cells.simps) (subst zip_prefix, simp_all add: min_absorb1)
  then show ?case using Nil by (simp add: scatter_saved.simps [of v] Let_def write_bytes_def)
next
  case (Cons w ws)
  show ?case
  proof (cases "length bs \<le> gex_len v")
    case True
    have "zip (vec_cells (v # w # ws)) bs = zip (cells (gex_addr v) (length bs)) bs"
      using True by (simp only: vec_cells.simps) (subst zip_prefix, simp_all add: min_absorb1)
    then show ?thesis using True Cons.prems by (simp add: scatter_saved.simps [of v] Let_def write_bytes_def)
  next
    case False
    let ?n = "gex_len v"
    have z: "zip (vec_cells (v # w # ws)) bs = zip (cells (gex_addr v) ?n) (take ?n bs) @ zip (vec_cells (w # ws)) (drop ?n bs)"
      by (simp only: vec_cells.simps(2) [of v] zip_append1 cells_length)
    have "scatter_saved w ws (drop ?n bs) (write_bytes (gex_addr v) (take ?n bs) lm) =
        Some (store (zip (vec_cells (w # ws)) (drop ?n bs)) (write_bytes (gex_addr v) (take ?n bs) lm))"
      using False Cons.prems by (intro Cons.IH) auto
    moreover have "length (take ?n bs) = ?n" using False by simp
    ultimately show ?thesis unfolding z using False Cons.prems
      by (simp add: scatter_saved.simps [of v] Let_def write_bytes_def min_absorb2 min_absorb1 del: vec_cells.simps)
  qed
qed

end
