(* ===== verification/Vector_Pass.thy ===== *)
theory Vector_Pass
  imports Vector_Inv
begin

text \<open>
  The invariant of the pass of the vector pipeline. Beside the state there are two histories: the
  messages sent, each with the entries it was made from, and the entries of the packet being filled.
  Here are the parts of the invariant and what picking up a range, a remote access and sending a
  packet do to them.
\<close>

section \<open>Histories\<close>

datatype gmsg = GRma indiv_op | GPkt "vis_entry list" nat nat

fun render :: "vis_config \<Rightarrow> u64 \<Rightarrow> memory \<Rightarrow> gmsg \<Rightarrow> vis_msg" where
  "render cfg seg lm (GRma p) = Rma p"
| "render cfg seg lm (GPkt es i k) = Packet (entries_bytes (isget cfg) lm seg es) i k"

fun gpairs :: "gmsg \<Rightarrow> (u64 \<times> u64) list" where
  "gpairs (GRma p) = op_pairs p"
| "gpairs (GPkt es i k) = entries_pairs es"

fun gcells :: "gmsg \<Rightarrow> u64 list" where
  "gcells (GRma p) = []"
| "gcells (GPkt es i k) = entries_cells es"

abbreviation all_gpairs :: "gmsg list \<Rightarrow> (u64 \<times> u64) list" where
  "all_gpairs gs \<equiv> concat (map gpairs gs)"

abbreviation all_gcells :: "gmsg list \<Rightarrow> u64 list" where
  "all_gcells gs \<equiv> concat (map gcells gs)"

text \<open>The packet being filled, as a message; what the handlers require of a packet.\<close>

definition filling :: "vis_entry list \<Rightarrow> pipe \<Rightarrow> gmsg list" where
  "filling es st = (if es = [] then [] else [GPkt es (savedlst_idx st) (savedlst_offset st)])"

fun msg_ok :: "vis_config \<Rightarrow> u64 \<Rightarrow> memory \<Rightarrow> gmsg \<Rightarrow> bool" where
  "msg_ok cfg seg lm (GRma p) \<longleftrightarrow> 0 < op_sz p"
| "msg_ok cfg seg lm (GPkt es i k) \<longleftrightarrow> es \<noteq> [] \<and> (\<forall>e\<in>set es. entry_ok e) \<and>
     length (entries_bytes (isget cfg) lm seg es) \<le> maxrequest cfg \<and>
     (isget cfg \<longrightarrow> length (entries_cells es) \<le> maxreply cfg)"

lemma entries_cells_pos: "es \<noteq> [] \<Longrightarrow> \<forall>e\<in>set es. entry_ok e \<Longrightarrow> 0 < length (entries_cells es)"
  by (cases es) (auto simp: entry_ok_def)

section \<open>Places in the saved list\<close>

text \<open>The entry and the offset of the \<open>n\<close>-th cell of the saved ranges.\<close>

definition place_at :: "gex_Memvec list \<Rightarrow> nat \<Rightarrow> nat \<Rightarrow> nat \<Rightarrow> bool" where
  "place_at sl i k n \<longleftrightarrow> i < length sl \<and> k < gex_len (sl ! i) \<and> vec_size (take i sl) + k = n"

fun places :: "gex_Memvec list \<Rightarrow> nat \<Rightarrow> gmsg list \<Rightarrow> bool" where
  "places sl n [] \<longleftrightarrow> True"
| "places sl n (g # gs) \<longleftrightarrow>
     (case g of GRma p \<Rightarrow> True | GPkt es i k \<Rightarrow> place_at sl i k n) \<and> places sl (n + length (gcells g)) gs"

lemma places_append: "places sl n (gs @ hs) \<longleftrightarrow> places sl n gs \<and> places sl (n + length (all_gcells gs)) hs"
  by (induction gs arbitrary: n) (auto simp: add.assoc)

lemma places_rma: "places sl n (map GRma ps)"
  by (induction ps arbitrary: n) auto

lemma place_at_longer: "place_at sl i k n \<Longrightarrow> place_at (sl @ ws) i k n"
  by (auto simp: place_at_def nth_append)

lemma places_longer: "places sl n gs \<Longrightarrow> places (sl @ ws) n gs"
  by (induction gs arbitrary: n) (auto intro: place_at_longer split: gmsg.splits)

lemma vec_size_append [simp]: "vec_size (vs @ ws) = vec_size vs + vec_size ws"
  by (simp add: vec_size_def)

lemma place_at_cut:
  assumes "place_at (vs @ [v]) i k n" and "n < vec_size vs + m"
  shows "place_at (vs @ [v\<lparr>gex_len := m\<rparr>]) i k n"
proof (cases "i < length vs")
  case True
  then show ?thesis using assms by (simp add: place_at_def nth_append)
next
  case False
  then have "i = length vs" using assms(1) by (simp add: place_at_def)
  then show ?thesis using assms by (simp add: place_at_def)
qed

lemma places_cut:
  assumes "places (vs @ [v]) n gs" and "n + length (all_gcells gs) \<le> vec_size vs + m" and "\<forall>g\<in>set gs. msg_ok cfg seg lm g"
  shows "places (vs @ [v\<lparr>gex_len := m\<rparr>]) n gs"
  using assms
proof (induction gs arbitrary: n)
  case (Cons g gs)
  have "place_at (vs @ [v\<lparr>gex_len := m\<rparr>]) i k n" if "g = GPkt es i k" for es i k
    using that Cons.prems entries_cells_pos [of es] by (intro place_at_cut) (simp_all del: length_greater_0_conv)
  then show ?case using Cons by (auto split: gmsg.splits)
qed simp

text \<open>The \<open>n\<close>-th cell and those after it, from its place.\<close>

lemma vec_cells_at:
  assumes "place_at sl i k n"
  shows "\<exists>v vs. drop i sl = v # vs \<and> k < gex_len v \<and> vec_cells (consume k v # vs) = drop n (vec_cells sl)"
proof -
  from assms have i: "i < length sl" "k < gex_len (sl ! i)" "n = vec_size (take i sl) + k" by (auto simp: place_at_def)
  have "vec_cells sl = vec_cells (take i sl) @ cells (gex_addr (sl ! i)) (gex_len (sl ! i)) @ vec_cells (drop (Suc i) sl)"
    using id_take_nth_drop [OF i(1)] by (metis vec_cells.simps(2) vec_cells_append)
  then have "drop n (vec_cells sl) = vec_cells (consume k (sl ! i) # drop (Suc i) sl)"
    using i(2,3) by (simp add: consume_def)
  then show ?thesis using i Cons_nth_drop_Suc [OF i(1)] by metis
qed

section \<open>The invariant\<close>

definition rest_r :: "pipe \<Rightarrow> u64 list" where
  "rest_r st = cells (gex_addr (rvec st)) (gex_len (rvec st)) @ vec_cells (rvec_next st)"

definition rest_l :: "pipe \<Rightarrow> u64 list" where
  "rest_l st = cells (gex_addr (lvec st)) (gex_len (lvec st)) @ vec_cells (lvec_next st)"

text \<open>No pair of cells is lost or done twice.\<close>

definition inv_cells :: "(u64 \<times> u64) multiset \<Rightarrow> gmsg list \<Rightarrow> vis_entry list \<Rightarrow> pipe \<Rightarrow> bool" where
  "inv_cells M gs es st \<longleftrightarrow>
     mset (all_gpairs gs) + mset (concat (map op_pairs (defer_buf st))) + mset (entries_pairs es) +
       mset (zip (rest_r st) (rest_l st)) = M \<and>
     length (rest_r st) = length (rest_l st) \<and> hd_nonempty (rvec_next st) \<and> hd_nonempty (lvec_next st)"

text \<open>Messages are sent as their histories say; accesses are deferred behind a packet only.\<close>

definition inv_msgs :: "vis_config \<Rightarrow> u64 \<Rightarrow> memory \<Rightarrow> gmsg list \<Rightarrow> vis_entry list \<Rightarrow> pipe \<Rightarrow> bool" where
  "inv_msgs cfg seg lm gs es st \<longleftrightarrow>
     injected st = map (render cfg seg lm) gs \<and> (\<forall>g\<in>set (gs @ filling es st). msg_ok cfg seg lm g) \<and>
     (\<forall>p\<in>set (defer_buf st). 0 < op_sz p) \<and>
     (defer_buf st \<noteq> [] \<longrightarrow> use_rma cfg \<and> npam cfg \<and> pack_p st \<noteq> None)"

text \<open>What is in the buffer; the last entry may be filled up if the next remote cell is its next one.\<close>

definition in_buffer :: "vis_config \<Rightarrow> u64 \<Rightarrow> memory \<Rightarrow> vis_entry list \<Rightarrow> u64 \<Rightarrow> u64 list \<Rightarrow> pipe \<Rightarrow> bool" where
  "in_buffer cfg seg lm es0 a ls st \<longleftrightarrow>
     pack_p st = Some (entries_bytes (isget cfg) lm seg (es0 @ [(a, ls)])) \<and> prev_rptr st = a \<and>
     (\<forall>i. pack_rvec st = Some i \<longrightarrow>
        i = length (entries_bytes (isget cfg) lm seg es0) + length (GASNETI_VLIDE_ENCODE (last_addr seg es0) a) \<and>
        gex_addr (rvec st) = a + of_nat (length ls))"

definition inv_pack :: "vis_config \<Rightarrow> u64 \<Rightarrow> memory \<Rightarrow> vis_entry list \<Rightarrow> pipe \<Rightarrow> bool" where
  "inv_pack cfg seg lm es st \<longleftrightarrow>
     (if es = [] then pack_p st = None else in_buffer cfg seg lm (butlast es) (fst (last es)) (snd (last es)) st)"

text \<open>The saved ranges of a get hold the cells of its packets in their order.\<close>

definition saved_cells :: "pipe \<Rightarrow> u64 list" where
  "saved_cells st = (if savedlst_pos st then take (vec_size (savedlst st) - gex_len (lvec st)) (vec_cells (savedlst st))
     else vec_cells (savedlst st))"

definition inv_saved :: "vis_config \<Rightarrow> gmsg list \<Rightarrow> vis_entry list \<Rightarrow> pipe \<Rightarrow> bool" where
  "inv_saved cfg gs es st \<longleftrightarrow> (if isget cfg
     then saved_cells st = all_gcells gs @ entries_cells es \<and> (\<forall>v\<in>set (savedlst st). 0 < gex_len v) \<and>
       (savedlst_pos st \<longrightarrow> savedlst st \<noteq> [] \<and> gex_len (lvec st) \<le> gex_len (last (savedlst st)) \<and>
          gex_addr (lvec st) = gex_addr (last (savedlst st)) + of_nat (gex_len (last (savedlst st)) - gex_len (lvec st))) \<and>
       places (savedlst st) 0 (gs @ filling es st)
     else \<not> savedlst_pos st \<and> savedlst_idx st = 0 \<and> savedlst_offset st = 0)"

text \<open>Every range of the two lists breaks the saved list once at most.\<close>

definition inv_count :: "nat \<Rightarrow> pipe \<Rightarrow> bool" where
  "inv_count sm st \<longleftrightarrow>
     length (savedlst st) + length (lvec_next st) + length (rvec_next st) +
       (if 0 < gex_len (lvec st) \<and> \<not> savedlst_pos st then 1 else 0) + (if 0 < gex_len (rvec st) then 1 else 0) \<le> sm"

definition pipe_inv ::
  "vis_config \<Rightarrow> u64 \<Rightarrow> memory \<Rightarrow> (u64 \<times> u64) multiset \<Rightarrow> nat \<Rightarrow> gmsg list \<Rightarrow> vis_entry list \<Rightarrow> pipe \<Rightarrow> bool" where
  "pipe_inv cfg seg lm M sm gs es st \<longleftrightarrow>
     inv_cells M gs es st \<and> inv_msgs cfg seg lm gs es st \<and> inv_pack cfg seg lm es st \<and> inv_saved cfg gs es st \<and> inv_count sm st"

lemmas inv_defs = pipe_inv_def inv_cells_def inv_msgs_def inv_pack_def inv_saved_def inv_count_def

text \<open>Between two rounds: the reply is counted, and the saved range in use has a byte packed.\<close>

definition round_inv :: "vis_config \<Rightarrow> vis_entry list \<Rightarrow> pipe \<Rightarrow> bool" where
  "round_inv cfg es st \<longleftrightarrow> (isget cfg \<longrightarrow> reply_datasz st = length (entries_cells es) \<and>
     (savedlst_pos st \<longrightarrow> es \<noteq> [] \<and> gex_len (lvec st) < gex_len (last (savedlst st))))"

section \<open>Picking up ranges\<close>

lemma merge_up_spec:
  "merge_up v vs = (w, ws) \<Longrightarrow> cells (gex_addr w) (gex_len w) @ vec_cells ws = cells (gex_addr v) (gex_len v) @ vec_cells vs \<and>
     gex_len v \<le> gex_len w \<and> hd_nonempty ws \<and> length ws \<le> length vs"
proof (induction v vs rule: merge_up.induct)
  case (2 v x xs)
  then show ?case by (auto simp: cells_add split: if_splits)
qed simp

lemma pick_vec_spec:
  assumes "hd_nonempty vs" and "vs \<noteq> []"
  shows "\<exists>w ws. pick_vec vs = Some (w, ws) \<and> cells (gex_addr w) (gex_len w) @ vec_cells ws = vec_cells vs \<and> 0 < gex_len w \<and>
     hd_nonempty ws \<and> length ws < length vs"
proof -
  obtain v us where v: "vs = v # us" "0 < gex_len v" using assms by (cases vs) auto
  obtain w ws where m: "merge_up v us = (w, ws)" by (cases "merge_up v us")
  show ?thesis using merge_up_spec [OF m] v m by (auto simp: pick_vec_def)
qed

lemma pick_rvec_inv:
  assumes "pipe_inv cfg seg lm M sm gs es st" and "rest_r st \<noteq> []"
  shows "\<exists>st1. pick_rvec st = Some st1 \<and> pipe_inv cfg seg lm M sm gs es st1 \<and> 0 < gex_len (rvec st1) \<and>
     (round_inv cfg es st \<longrightarrow> round_inv cfg es st1) \<and> rest_l st1 = rest_l st"
proof (cases "gex_len (rvec st) = 0")
  case True
  then have "rvec_next st \<noteq> []" "hd_nonempty (rvec_next st)" using assms by (auto simp: rest_r_def inv_defs)
  from pick_vec_spec [OF this(2,1)] obtain w ws where w: "pick_vec (rvec_next st) = Some (w, ws)"
    "cells (gex_addr w) (gex_len w) @ vec_cells ws = vec_cells (rvec_next st)" "0 < gex_len w" "hd_nonempty ws"
    "length ws < length (rvec_next st)" by blast
  let ?st1 = "st\<lparr>rvec := w, rvec_next := ws, pack_rvec := None\<rparr>"
  have r: "rest_r ?st1 = rest_r st" "rest_l ?st1 = rest_l st" using w(2) True by (simp_all add: rest_r_def rest_l_def)
  have f: "filling es ?st1 = filling es st" "saved_cells ?st1 = saved_cells st" by (simp_all add: filling_def saved_cells_def)
  have b: "in_buffer cfg seg lm es0 a ls st \<Longrightarrow> in_buffer cfg seg lm es0 a ls ?st1" for es0 a ls by (simp add: in_buffer_def)
  have "pipe_inv cfg seg lm M sm gs es ?st1"
    using assms(1) w(3-5) True b [of "butlast es" "fst (last es)" "snd (last es)"]
    unfolding inv_defs r f by (auto split: if_splits)
  then show ?thesis using w True r by (simp add: pick_rvec_def round_inv_def)
next
  case False
  then show ?thesis using assms by (simp add: pick_rvec_def)
qed

lemma pick_lvec_inv:
  assumes "pipe_inv cfg seg lm M sm gs es st" and "rest_l st \<noteq> []" and "0 < gex_len (rvec st)" and "round_inv cfg es st"
  shows "\<exists>st1. pick_lvec cfg st = Some st1 \<and> pipe_inv cfg seg lm M sm gs es st1 \<and> 0 < gex_len (rvec st1) \<and> 0 < gex_len (lvec st1) \<and>
     round_inv cfg es st1"
proof (cases "gex_len (lvec st) = 0")
  case True
  then have "lvec_next st \<noteq> []" "hd_nonempty (lvec_next st)" using assms by (auto simp: rest_l_def inv_defs)
  from pick_vec_spec [OF this(2,1)] obtain w ws where w: "pick_vec (lvec_next st) = Some (w, ws)"
    "cells (gex_addr w) (gex_len w) @ vec_cells ws = vec_cells (lvec_next st)" "0 < gex_len w" "hd_nonempty ws"
    "length ws < length (lvec_next st)" by blast
  let ?st1 = "st\<lparr>lvec := w, lvec_next := ws, savedlst_pos := (if isget cfg then False else savedlst_pos st)\<rparr>"
  have r: "rest_r ?st1 = rest_r st" "rest_l ?st1 = rest_l st" using w(2) True by (simp_all add: rest_r_def rest_l_def)
  have f: "filling es ?st1 = filling es st" by (simp add: filling_def)
  have s: "isget cfg \<Longrightarrow> saved_cells ?st1 = saved_cells st" using True by (simp add: saved_cells_def)
  have b: "in_buffer cfg seg lm es0 a ls st \<Longrightarrow> in_buffer cfg seg lm es0 a ls ?st1" for es0 a ls by (simp add: in_buffer_def)
  have "pipe_inv cfg seg lm M sm gs es ?st1"
    using assms(1) w(3-5) True s b [of "butlast es" "fst (last es)" "snd (last es)"]
    unfolding inv_defs r f by (auto split: if_splits)
  then show ?thesis using w True assms(3,4) by (simp add: pick_lvec_def round_inv_def)
next
  case False
  then show ?thesis using assms by (simp add: pick_lvec_def)
qed

end
