(* ===== verification/Vector_Step.thy ===== *)
theory Vector_Step
  imports Vector_Pass
begin

text \<open>
  A round of the vector pipeline keeps the invariant: a large piece goes out or is deferred, a small
  one goes into the packet, after a full packet has been sent; no assertion fails.
\<close>

section \<open>A remote access\<close>

lemma advance_rests:
  assumes "c \<le> gex_len (lvec st)" and "c \<le> gex_len (rvec st)"
  shows "\<exists>st'. advance c st = Some st' \<and> st' = st\<lparr>lvec := consume c (lvec st), rvec := consume c (rvec st)\<rparr> \<and>
     rest_r st = cells (gex_addr (rvec st)) c @ rest_r st' \<and> rest_l st = cells (gex_addr (lvec st)) c @ rest_l st'"
proof -
  have cut: "cells a n = cells a c @ cells (a + of_nat c) (n - c)" if "c \<le> n" for a n
    using that cells_add [of a c "n - c"] by simp
  show ?thesis using assms cut [OF assms(1), of "gex_addr (lvec st)"] cut [OF assms(2), of "gex_addr (rvec st)"]
    unfolding advance_def rest_r_def rest_l_def consume_def by (simp only: if_True simp_thms) (simp add: append_assoc)
qed

lemma zip_both: "length xs = length ys \<Longrightarrow> zip (xs @ us) (ys @ vs) = zip xs ys @ zip us vs"
  by (rule zip_append)

lemma saved_size_split:
  "sl \<noteq> [] \<Longrightarrow> vec_size sl = vec_size (butlast sl) + gex_len (last sl)"
  "sl \<noteq> [] \<Longrightarrow> vec_cells sl = vec_cells (butlast sl) @ cells (gex_addr (last sl)) (gex_len (last sl))"
  by (cases sl rule: rev_cases; simp)+

lemma saved_cut:
  assumes "sl \<noteq> []" and "n \<le> gex_len (last sl)"
  shows "vec_cells (butlast sl @ [last sl\<lparr>gex_len := gex_len (last sl) - n\<rparr>]) = take (vec_size sl - n) (vec_cells sl)"
  using assms by (simp add: saved_size_split take_append min_absorb1)

lemma vis_rma_result:
  assumes "isget cfg \<and> savedlst_pos st \<Longrightarrow> gex_len (lvec st) < gex_len (last (savedlst st))"
  shows "vis_rma cfg c st = Some (st\<lparr>injected := injected st @
        (if \<not> npam cfg \<or> pack_p st = None then [Rma \<lparr>lptr = gex_addr (lvec st), rptr = gex_addr (rvec st), op_sz = c\<rparr>] else []),
      defer_buf := (if \<not> npam cfg \<or> pack_p st = None then defer_buf st
        else defer_buf st @ [\<lparr>lptr = gex_addr (lvec st), rptr = gex_addr (rvec st), op_sz = c\<rparr>]),
      pack_rvec := None,
      savedlst := (if isget cfg \<and> savedlst_pos st
        then butlast (savedlst st) @ [last (savedlst st)\<lparr>gex_len := gex_len (last (savedlst st)) - gex_len (lvec st)\<rparr>]
        else savedlst st),
      savedlst_pos := (if isget cfg \<and> savedlst_pos st then False else savedlst_pos st)\<rparr>)"
proof -
  obtain p where p: "\<lparr>lptr = gex_addr (lvec st), rptr = gex_addr (rvec st), op_sz = c\<rparr> = p" by blast
  obtain now brk where b: "(\<not> npam cfg \<or> pack_p st = None) = now" "(isget cfg \<and> savedlst_pos st) = brk" by blast
  show ?thesis using assms unfolding vis_rma_def Let_def p b by (cases now; cases brk) (simp_all add: b(2))
qed

lemma vis_rma_inv:
  assumes inv: "pipe_inv cfg seg lm M sm gs es st" "round_inv cfg es st" and pos: "0 < gex_len (rvec st)" "0 < gex_len (lvec st)"
    and c: "c = min (gex_len (lvec st)) (gex_len (rvec st))" and rma: "use_rma cfg"
  shows "\<exists>st2 st' gs'. vis_rma cfg c st = Some st2 \<and> advance c st2 = Some st' \<and> pipe_inv cfg seg lm M sm gs' es st' \<and>
     round_inv cfg es st'"
proof -
  let ?p = "\<lparr>lptr = gex_addr (lvec st), rptr = gex_addr (rvec st), op_sz = c\<rparr>" and ?sl = "savedlst st"
  let ?now = "\<not> npam cfg \<or> pack_p st = None" and ?brk = "isget cfg \<and> savedlst_pos st"
  define gs' where "gs' = (if ?now then gs @ [GRma ?p] else gs)"
  define df where "df = (if ?now then defer_buf st else defer_buf st @ [?p])"
  define sl' where "sl' = (if ?brk then butlast ?sl @ [last ?sl\<lparr>gex_len := gex_len (last ?sl) - gex_len (lvec st)\<rparr>] else ?sl)"
  define st2 where "st2 = st\<lparr>injected := injected st @ (if ?now then [Rma ?p] else []), defer_buf := df, pack_rvec := None,
     savedlst := sl', savedlst_pos := (if ?brk then False else savedlst_pos st)\<rparr>"
  have c0: "0 < c" using c pos by simp
  have lt: "gex_len (lvec st) < gex_len (last ?sl)" "?sl \<noteq> []" if ?brk
    using inv that by (auto simp: round_inv_def pipe_inv_def inv_saved_def)
  have run: "vis_rma cfg c st = Some st2"
    unfolding st2_def df_def sl'_def by (rule vis_rma_result) (use lt in blast)
  obtain st' where st': "advance c st2 = Some st'" "st' = st2\<lparr>lvec := consume c (lvec st), rvec := consume c (rvec st)\<rparr>"
    and rest: "rest_r st = cells (gex_addr (rvec st)) c @ rest_r st'" "rest_l st = cells (gex_addr (lvec st)) c @ rest_l st'"
    using advance_rests [of c st2] c by (auto simp: st2_def rest_r_def rest_l_def)
  note sel = st'(2) st2_def
  have g: "all_gcells gs' = all_gcells gs" "\<And>n hs. places sl n (gs' @ hs) = places sl n (gs @ hs)" for sl
    by (simp_all add: gs'_def places_append)
  have f: "filling es st' = filling es st" by (simp add: filling_def sel)
  have cells: "inv_cells M gs' es st'"
  proof -
    have z: "mset (zip (rest_r st) (rest_l st)) = mset (op_pairs ?p) + mset (zip (rest_r st') (rest_l st'))"
      unfolding rest by (simp add: zip_both)
    have d: "mset (all_gpairs gs') + mset (concat (map op_pairs (defer_buf st'))) =
        mset (all_gpairs gs) + mset (concat (map op_pairs (defer_buf st))) + mset (op_pairs ?p)"
      by (simp add: gs'_def df_def sel ac_simps)
    have "length (rest_r st') = length (rest_l st')" using inv(1) unfolding pipe_inv_def inv_cells_def rest by simp
    then show ?thesis using inv(1) z d unfolding pipe_inv_def inv_cells_def by (simp add: sel ac_simps)
  qed
  have msgs: "inv_msgs cfg seg lm gs' es st'"
    using inv(1) rma c0 unfolding pipe_inv_def inv_msgs_def f by (auto simp: gs'_def df_def sel)
  have pack: "inv_pack cfg seg lm es st'"
    using inv(1) by (auto simp: pipe_inv_def inv_pack_def in_buffer_def sel)
  have saved: "inv_saved cfg gs' es st'"
  proof (cases ?brk)
    case True
    have s: "saved_cells st' = saved_cells st"
      using True lt [OF True] saved_cut [of ?sl "gex_len (lvec st)"] by (simp add: saved_cells_def sel sl'_def)
    have ok: "\<forall>g\<in>set (gs @ filling es st). msg_ok cfg seg lm g" and pl: "places ?sl 0 (gs @ filling es st)"
      and sz: "saved_cells st = all_gcells gs @ entries_cells es" and nz: "\<forall>v\<in>set ?sl. 0 < gex_len v"
      using inv(1) True by (simp_all add: pipe_inv_def inv_msgs_def inv_saved_def)
    have "length (all_gcells (gs @ filling es st)) = length (saved_cells st)" by (simp add: sz filling_def)
    also have "\<dots> = vec_size (butlast ?sl) + (gex_len (last ?sl) - gex_len (lvec st))"
      using True lt [OF True] by (simp add: saved_cells_def saved_size_split)
    finally have "places sl' 0 (gs @ filling es st)"
      using places_cut [of "butlast ?sl" "last ?sl" 0 "gs @ filling es st"] pl ok lt(2) [OF True] True by (simp add: sl'_def)
    moreover have "\<forall>v\<in>set sl'. 0 < gex_len v" using nz lt [OF True] True by (auto simp: sl'_def dest: in_set_butlastD)
    ultimately show ?thesis using True s sz unfolding inv_saved_def f g by (simp add: sel)
  next
    case False
    then have sl: "sl' = ?sl" by (simp only: sl'_def if_False)
    have "isget cfg \<Longrightarrow> saved_cells st' = saved_cells st" "savedlst st' = ?sl"
      using False by (auto simp: saved_cells_def sel sl)
    then show ?thesis using inv(1) False unfolding pipe_inv_def inv_saved_def f g by (auto simp: sel)
  qed
  have len: "length sl' = length ?sl" using lt(2) by (simp add: sl'_def)
  have "savedlst_pos st \<longrightarrow> isget cfg" using inv(1) by (auto simp: pipe_inv_def inv_saved_def split: if_splits)
  then have count: "inv_count sm st'"
    using inv(1) c pos unfolding pipe_inv_def inv_count_def by (auto simp: sel len consume_def min_def split: if_splits)
  have "round_inv cfg es st'" using inv(2) by (simp add: round_inv_def sel)
  then show ?thesis using run st'(1) cells msgs pack saved count unfolding pipe_inv_def by blast
qed

section \<open>The buffer\<close>

lemma entry_bytes_split:
  "entries_bytes get lm seg (es0 @ [(a, ls)]) =
     (entries_bytes get lm seg es0 @ GASNETI_VLIDE_ENCODE (last_addr seg es0) a) @ short_bytes (length ls) @
       (if get then [] else map lm ls)"
  by (simp add: entries_bytes_snoc entry_bytes_def)

lemma short_of_0: "short_bytes 0 = [0, 0]"
  by (simp add: short_bytes_def)

lemma new_pack_entry_spec:
  assumes "pack_p st = Some (entries_bytes get lm seg es)" and "prev_rptr st = last_addr seg es"
  shows "new_pack_entry (entries_bytes get lm seg es) st =
     st\<lparr>prev_rptr := gex_addr (rvec st),
        pack_rvec := Some (length (entries_bytes get lm seg es) + length (GASNETI_VLIDE_ENCODE (last_addr seg es) (gex_addr (rvec st)))),
        pack_p := Some (entries_bytes get lm seg (es @ [(gex_addr (rvec st), [])]))\<rparr>"
  using assms by (simp add: new_pack_entry_def Let_def entry_bytes_split short_of_0)

text \<open>The entry a piece goes to: the last one, or a new one.\<close>

lemma pack_entry_spec:
  assumes "es = [] \<and> pack_p st = Some [] \<and> prev_rptr st = seg \<and> pack_rvec st = None \<or>
       es \<noteq> [] \<and> in_buffer cfg seg lm (butlast es) (fst (last es)) (snd (last es)) st"
    and ok: "\<forall>e\<in>set es. entry_ok e"
  shows "\<exists>es0 a ls i. let st2 = st\<lparr>prev_rptr := a, pack_rvec := Some i, pack_p := Some (entries_bytes (isget cfg) lm seg (es0 @ [(a, ls)]))\<rparr> in
     pack_entry st = Some (length ls, st2) \<and> in_buffer cfg seg lm es0 a ls st2 \<and> (es = es0 @ [(a, ls)] \<or> ls = [] \<and> es0 = es) \<and>
     length ls < SHORTLEN_MAX"
proof (cases "\<exists>i. pack_rvec st = Some i \<and> length (snd (last es)) \<noteq> SHORTLEN_MAX")
  case True
  then obtain i where i: "pack_rvec st = Some i" "length (snd (last es)) \<noteq> SHORTLEN_MAX" by blast
  let ?es0 = "butlast es" and ?a = "fst (last es)" and ?ls = "snd (last es)"
  have b: "in_buffer cfg seg lm ?es0 ?a ?ls st" and es: "es = ?es0 @ [(?a, ?ls)]" using assms(1) i by auto
  have len: "length ?ls < SHORTLEN_MAX" using ok es i(2) by (metis entry_ok_def in_set_conv_decomp le_neq_implies_less snd_conv)
  have "short_at (entries_bytes (isget cfg) lm seg (?es0 @ [(?a, ?ls)])) i = length ?ls"
    using b i(1) len unfolding in_buffer_def entry_bytes_split by (simp add: short_at_bytes [of "length ?ls" "xs @ ys" for xs ys, simplified])
  then have "pack_entry st = Some (length ?ls, st)" using b i(1) len by (simp add: in_buffer_def pack_entry_def Let_def)
  moreover have "st\<lparr>prev_rptr := ?a, pack_rvec := Some i, pack_p := Some (entries_bytes (isget cfg) lm seg (?es0 @ [(?a, ?ls)]))\<rparr> = st"
    using b i(1) by (simp add: in_buffer_def)
  ultimately show ?thesis using b es len unfolding Let_def by metis
next
  case False
  let ?a = "gex_addr (rvec st)"
  have p: "pack_p st = Some (entries_bytes (isget cfg) lm seg es)" "prev_rptr st = last_addr seg es"
    using assms(1) by (auto simp: in_buffer_def last_addr_def)
  have "short_at (entries_bytes (isget cfg) lm seg es) i = SHORTLEN_MAX" if i: "pack_rvec st = Some i" for i
  proof -
    have full: "length (snd (last es)) = SHORTLEN_MAX" using False i by blast
    have b: "in_buffer cfg seg lm (butlast es) (fst (last es)) (snd (last es)) st" and
      es: "es = butlast es @ [(fst (last es), snd (last es))]" using assms(1) i by auto
    show ?thesis using b i full unfolding in_buffer_def by (subst es, unfold entry_bytes_split)
      (simp add: short_at_bytes [of "SHORTLEN_MAX" "xs @ ys" for xs ys, simplified])
  qed
  then have "pack_entry st = Some (0, new_pack_entry (entries_bytes (isget cfg) lm seg es) st)"
    using p by (simp add: pack_entry_def Let_def split: option.splits)
  then have "pack_entry st = Some (length [], st\<lparr>prev_rptr := ?a,
        pack_rvec := Some (length (entries_bytes (isget cfg) lm seg es) + length (GASNETI_VLIDE_ENCODE (last_addr seg es) ?a)),
        pack_p := Some (entries_bytes (isget cfg) lm seg (es @ [(?a, [])]))\<rparr>)"
    using new_pack_entry_spec [OF p] by simp
  then show ?thesis unfolding Let_def
    by (intro exI [of _ es] exI [of _ ?a] exI [of _ "[]"] exI conjI) (assumption | simp add: in_buffer_def SHORTLEN_MAX_def)+
qed

text \<open>The data of the piece lengthen that entry.\<close>

lemma pack_data_spec:
  assumes b: "in_buffer cfg seg lm es0 a ls st" "pack_rvec st = Some i" and len: "length ls < SHORTLEN_MAX" "0 < c0"
    and room: "if isget cfg then reply_datasz st < maxreply cfg
      else length (entries_bytes False lm seg (es0 @ [(a, ls)])) < maxrequest cfg"
  shows "\<exists>c. 0 < c \<and> c \<le> c0 \<and> length ls + c \<le> SHORTLEN_MAX \<and>
     (if isget cfg then reply_datasz st + c \<le> maxreply cfg
      else length (entries_bytes False lm seg (es0 @ [(a, ls)])) + c \<le> maxrequest cfg) \<and>
     pack_data cfg lm c0 (length ls) st = Some (c,
       st\<lparr>pack_p := Some (entries_bytes (isget cfg) lm seg (es0 @ [(a, ls @ cells (gex_addr (lvec st)) c)])),
          reply_datasz := (if isget cfg then reply_datasz st + c else reply_datasz st)\<rparr>)"
proof -
  let ?bs = "entries_bytes (isget cfg) lm seg (es0 @ [(a, ls)])" and ?n = "length ls"
  let ?pre = "entries_bytes (isget cfg) lm seg es0 @ GASNETI_VLIDE_ENCODE (last_addr seg es0) a"
  define space where "space = (if isget cfg then maxreply cfg - reply_datasz st else maxrequest cfg - length ?bs)"
  define c where "c = min (min c0 space) (SHORTLEN_MAX - ?n)"
  have bs: "pack_p st = Some ?bs" and i: "i = length ?pre" using b by (simp_all add: in_buffer_def)
  have s: "0 < space" using room by (auto simp: space_def split: if_splits)
  have c: "0 < c" "c \<le> c0" "c \<le> space" "?n + c \<le> SHORTLEN_MAX" using s len by (auto simp: c_def)
  have two: "short_bytes n = [short_bytes n ! 0, short_bytes n ! 1]" for n by (simp add: short_bytes_def)
  have upd: "(pre @ [u, v] @ rest)[length pre := x, length pre + 1 := y] = pre @ [x, y] @ rest" for pre rest and u v x y :: u8
    by (simp add: list_update_append)
  have new: "?bs[i := short_bytes (?n + c) ! 0, i + 1 := short_bytes (?n + c) ! 1] =
      ?pre @ short_bytes (?n + c) @ (if isget cfg then [] else map lm ls)"
    unfolding entry_bytes_split i by (subst two [of ?n], subst upd, subst two [of "?n + c"]) (rule refl)
  have run: "pack_data cfg lm c0 ?n st = Some (c,
      if isget cfg then st\<lparr>pack_p := Some (?bs[i := short_bytes (?n + c) ! 0, i + 1 := short_bytes (?n + c) ! 1]),
         reply_datasz := reply_datasz st + c\<rparr>
      else st\<lparr>pack_p := Some (?bs[i := short_bytes (?n + c) ! 0, i + 1 := short_bytes (?n + c) ! 1] @
         read_bytes lm (gex_addr (lvec st)) c)\<rparr>)"
    using s c(1) unfolding pack_data_def bs b(2) option.case prod.case Let_def space_def [symmetric] c_def [symmetric] by simp
  have ext: "entries_bytes (isget cfg) lm seg (es0 @ [(a, ls @ cells (gex_addr (lvec st)) c)]) =
      (?pre @ short_bytes (?n + c) @ (if isget cfg then [] else map lm ls)) @
        (if isget cfg then [] else read_bytes lm (gex_addr (lvec st)) c)"
    unfolding entry_bytes_split by simp
  have "pack_data cfg lm c0 ?n st = Some (c,
       st\<lparr>pack_p := Some (entries_bytes (isget cfg) lm seg (es0 @ [(a, ls @ cells (gex_addr (lvec st)) c)])),
          reply_datasz := (if isget cfg then reply_datasz st + c else reply_datasz st)\<rparr>)"
    unfolding run new ext by simp
  moreover have "if isget cfg then reply_datasz st + c \<le> maxreply cfg else length (entries_bytes False lm seg (es0 @ [(a, ls)])) + c \<le> maxrequest cfg"
    using c(3) room by (auto simp: space_def split: if_splits)
  ultimately show ?thesis using c by blast
qed

end
