(* ===== verification/Vector_Round.thy ===== *)
theory Vector_Round
  imports Vector_Step
begin

text \<open>
  A whole round of the vector pipeline, its loop and its end: the pass always succeeds, and what it
  has sent is the transfer.
\<close>

section \<open>Sizes\<close>

text \<open>What the pass relies on: the sizes of messages, and remote addresses whose differences fit in 8 bytes.\<close>

definition pass_env :: "vis_config \<Rightarrow> u64 \<Rightarrow> (u64 \<times> u64) multiset \<Rightarrow> bool" where
  "pass_env cfg seg M \<longleftrightarrow> 11 \<le> maxrequest cfg \<and> (isget cfg \<longrightarrow> 0 < maxreply cfg \<and> size M < 2 ^ 31) \<and>
     (\<forall>a\<in>insert seg (fst ` set_mset M). \<forall>b\<in>fst ` set_mset M. length (GASNETI_VLIDE_ENCODE a b) \<le> 8)"

lemma entry_pairs_length [simp]: "length (entry_pairs e) = length (snd e)"
  by (simp add: entry_pairs_def)

lemma entries_pairs_length [simp]: "length (entries_pairs es) = length (entries_cells es)"
  by (induction es) auto

lemma gcells_le: "length (all_gcells gs) \<le> length (all_gpairs gs)"
proof (induction gs)
  case (Cons g gs)
  then show ?case by (cases g) auto
qed simp

lemma inv_size:
  assumes "inv_cells M gs es st"
  shows "length (all_gcells gs) + length (entries_cells es) + length (rest_l st) \<le> size M"
    "length (rest_r st) = length (rest_l st)"
proof -
  have "size M = length (all_gpairs gs) + length (concat (map op_pairs (defer_buf st))) + length (entries_pairs es) + length (rest_l st)"
    using assms unfolding inv_cells_def by (auto simp: size_mset simp del: length_concat)
  then show "length (all_gcells gs) + length (entries_cells es) + length (rest_l st) \<le> size M"
    using gcells_le [of gs] by simp
  show "length (rest_r st) = length (rest_l st)" using assms by (simp add: inv_cells_def)
qed

lemma saved_vec_size:
  assumes "inv_saved cfg gs es st" and "isget cfg"
  shows "vec_size (savedlst st) =
     length (all_gcells gs) + length (entries_cells es) + (if savedlst_pos st then gex_len (lvec st) else 0)"
proof -
  have s: "saved_cells st = all_gcells gs @ entries_cells es" using assms by (simp add: inv_saved_def)
  have "gex_len (lvec st) \<le> vec_size (savedlst st)" if "savedlst_pos st"
    using assms that saved_size_split(1) [of "savedlst st"] by (simp add: inv_saved_def)
  then show ?thesis using arg_cong [OF s, of length] by (auto simp: saved_cells_def split: if_splits)
qed

lemma saved_small:
  assumes "inv_cells M gs es st" and "inv_saved cfg gs es st" and "isget cfg"
  shows "vec_size (savedlst st) \<le> size M" "length (savedlst st) \<le> vec_size (savedlst st)"
proof -
  have "gex_len (lvec st) \<le> length (rest_l st)" by (simp add: rest_l_def)
  then show "vec_size (savedlst st) \<le> size M"
    using inv_size [OF assms(1)] saved_vec_size [OF assms(2,3)] by (auto split: if_splits)
  have "length sl \<le> vec_size sl" if "\<forall>v\<in>set sl. 0 < gex_len v" for sl
    using that by (induction sl) auto
  then show "length (savedlst st) \<le> vec_size (savedlst st)" using assms(2,3) by (simp add: inv_saved_def)
qed

lemma place_at_bounds: "place_at sl i k n \<Longrightarrow> i < length sl \<and> k < vec_size sl"
proof -
  assume p: "place_at sl i k n"
  then have "gex_len (sl ! i) \<le> vec_size sl" unfolding vec_size_def by (intro member_le_sum_list) (auto simp: place_at_def)
  then show ?thesis using p by (simp add: place_at_def)
qed

section \<open>Sending a full packet\<close>

lemma entries_bytes_nonempty: "es \<noteq> [] \<Longrightarrow> entries_bytes get lm seg es \<noteq> []"
  by (cases es) (simp_all add: entry_bytes_def short_bytes_def)

lemma filling_place:
  "inv_saved cfg gs es st \<Longrightarrow> isget cfg \<Longrightarrow> es \<noteq> [] \<Longrightarrow>
     place_at (savedlst st) (savedlst_idx st) (savedlst_offset st) (length (all_gcells gs))"
  by (simp add: inv_saved_def filling_def places_append)

lemma inv_buffer: "inv_pack cfg seg lm es st \<Longrightarrow> es \<noteq> [] \<Longrightarrow> pack_p st = Some (entries_bytes (isget cfg) lm seg es)"
  by (simp add: inv_pack_def in_buffer_def)

text \<open>The packet goes out as its entries say, and the accesses deferred after it.\<close>

lemma inject_inv:
  assumes inv: "pipe_inv cfg seg lm M sm gs es st" and env: "pass_env cfg seg M" and es: "es \<noteq> []"
  shows "\<exists>st1 gs1. map_option (\<lambda>s. DRAIN_DEFERRED cfg (s\<lparr>pack_p := None\<rparr>)) (gasneti_AMpipeline_packetinject cfg st) = Some st1 \<and>
     pipe_inv cfg seg lm M sm gs1 [] st1 \<and> pack_p st1 = None \<and>
     lvec st1 = lvec st \<and> rvec st1 = rvec st \<and> savedlst_pos st1 = savedlst_pos st \<and> savedlst st1 = savedlst st"
proof -
  let ?bs = "entries_bytes (isget cfg) lm seg es" and ?pkt = "Packet (entries_bytes (isget cfg) lm seg es) (savedlst_idx st) (savedlst_offset st)"
  let ?st1 = "st\<lparr>injected := injected st @ ?pkt # map Rma (rev (defer_buf st)), defer_buf := [], pack_p := None\<rparr>"
  define gs1 where "gs1 = gs @ filling es st @ map GRma (rev (defer_buf st))"
  have c: "inv_cells M gs es st" "inv_msgs cfg seg lm gs es st" "inv_pack cfg seg lm es st" "inv_saved cfg gs es st" "inv_count sm st"
    using inv by (simp_all add: pipe_inv_def)
  have bs: "pack_p st = Some ?bs" "?bs \<noteq> []" using inv_buffer [OF c(3) es] entries_bytes_nonempty [OF es] by simp_all
  have small: "savedlst_idx st < 2 ^ 31 \<and> savedlst_offset st < 2 ^ 31" if "isget cfg"
    using place_at_bounds [OF filling_place [OF c(4) that es]] saved_small [OF c(1,4) that] env that
    unfolding pass_env_def by linarith
  have pos: "\<not> isget cfg \<Longrightarrow> savedlst_idx st = 0 \<and> savedlst_offset st = 0" using c(4) by (simp add: inv_saved_def)
  have inj: "gasneti_AMpipeline_packetinject cfg st = Some (st\<lparr>injected := injected st @ [?pkt]\<rparr>)"
    using small pos bs(2) unfolding gasneti_AMpipeline_packetinject_def bs(1) option.case by (cases "isget cfg") simp_all
  have "defer_buf st = [] \<or> use_rma cfg \<and> npam cfg" using c(2) by (auto simp: inv_msgs_def)
  then have run: "map_option (\<lambda>s. DRAIN_DEFERRED cfg (s\<lparr>pack_p := None\<rparr>)) (gasneti_AMpipeline_packetinject cfg st) = Some ?st1"
    unfolding inj DRAIN_DEFERRED_def by auto
  have fill: "filling es st = [GPkt es (savedlst_idx st) (savedlst_offset st)]" "filling [] ?st1 = []" using es by (simp_all add: filling_def)
  have drained: "gpairs \<circ> GRma = op_pairs" "concat (map (gcells \<circ> GRma) ps) = []" for ps
    by (rule ext, simp) (induction ps, simp_all)
  have g: "all_gcells gs1 = all_gcells gs @ entries_cells es" "mset (all_gpairs gs1) =
      mset (all_gpairs gs) + mset (concat (map op_pairs (defer_buf st))) + mset (entries_pairs es)"
    unfolding gs1_def fill by (simp_all add: drained mset_concat rev_map [symmetric] ac_simps)
  have r: "rest_r ?st1 = rest_r st" "rest_l ?st1 = rest_l st" by (simp_all add: rest_r_def rest_l_def)
  have "inv_cells M gs1 [] ?st1" using c(1) unfolding inv_cells_def g r by simp
  moreover have "inv_msgs cfg seg lm gs1 [] ?st1" using c(2) unfolding inv_msgs_def gs1_def fill by (auto simp: filling_def)
  moreover have "inv_pack cfg seg lm [] ?st1" by (simp add: inv_pack_def)
  moreover have "inv_saved cfg gs1 [] ?st1"
  proof -
    have s: "saved_cells ?st1 = saved_cells st" by (simp add: saved_cells_def)
    have "places sl n (gs1 @ []) = places sl n (gs @ filling es st)" for sl n
      by (simp add: gs1_def places_append places_rma)
    then show ?thesis using c(4) unfolding inv_saved_def g fill(2) s by simp
  qed
  moreover have "inv_count sm ?st1" using c(5) by (simp add: inv_count_def)
  ultimately show ?thesis using run unfolding pipe_inv_def by (intro exI [of _ ?st1] exI [of _ gs1]) simp
qed

text \<open>After the check there is a packet with room, or none.\<close>

lemma send_full_inv:
  assumes inv: "pipe_inv cfg seg lm M sm gs es st" "round_inv cfg es st" and env: "pass_env cfg seg M"
  shows "\<exists>st1 gs1 es1. send_full cfg st = Some st1 \<and> pipe_inv cfg seg lm M sm gs1 es1 st1 \<and>
     (es1 \<noteq> [] \<longrightarrow> length (entries_bytes (isget cfg) lm seg es1) + (if isget cfg then 10 else 11) \<le> maxrequest cfg \<and>
        (isget cfg \<longrightarrow> reply_datasz st1 = length (entries_cells es1) \<and> reply_datasz st1 < maxreply cfg)) \<and>
     lvec st1 = lvec st \<and> rvec st1 = rvec st \<and> savedlst_pos st1 = savedlst_pos st \<and> savedlst st1 = savedlst st"
proof (cases "pack_full cfg st")
  case True
  have "es \<noteq> []"
  proof
    assume "es = []"
    then have "pack_p st = None" "isget cfg \<Longrightarrow> reply_datasz st = 0" using inv by (simp_all add: pipe_inv_def inv_pack_def round_inv_def)
    then show False using True env by (auto simp: pack_full_def pass_env_def)
  qed
  from inject_inv [OF inv(1) env this] obtain st1 gs1 where s:
    "map_option (\<lambda>s. DRAIN_DEFERRED cfg (s\<lparr>pack_p := None\<rparr>)) (gasneti_AMpipeline_packetinject cfg st) = Some st1"
    "pipe_inv cfg seg lm M sm gs1 [] st1" "lvec st1 = lvec st" "rvec st1 = rvec st" "savedlst_pos st1 = savedlst_pos st"
    "savedlst st1 = savedlst st" by blast
  show ?thesis using True s by (intro exI [of _ st1] exI [of _ gs1] exI [of _ "[]"]) (simp add: send_full_def)
next
  case False
  have c: "inv_pack cfg seg lm es st" "inv_msgs cfg seg lm gs es st" using inv(1) by (simp_all add: pipe_inv_def)
  have "length (entries_bytes (isget cfg) lm seg es) + (if isget cfg then 10 else 11) \<le> maxrequest cfg \<and>
        (isget cfg \<longrightarrow> reply_datasz st = length (entries_cells es) \<and> reply_datasz st < maxreply cfg)" if "es \<noteq> []"
  proof -
    have "isget cfg \<Longrightarrow> length (entries_cells es) \<le> maxreply cfg" using c(2) that by (auto simp: inv_msgs_def filling_def)
    then show ?thesis using False inv_buffer [OF c(1) that] inv(2) by (auto simp: pack_full_def round_inv_def)
  qed
  moreover have "send_full cfg st = Some st" using False by (simp add: send_full_def)
  ultimately show ?thesis using inv(1) by blast
qed

section \<open>Packing\<close>

lemma save_lvec_inv:
  assumes inv: "pipe_inv cfg seg lm M sm gs es st" and pos: "0 < gex_len (lvec st)"
  shows "pipe_inv cfg seg lm M sm gs es (save_lvec cfg st) \<and> (isget cfg \<longrightarrow> savedlst_pos (save_lvec cfg st))"
proof (cases "isget cfg \<and> \<not> savedlst_pos st")
  case True
  let ?st1 = "st\<lparr>savedlst := savedlst st @ [lvec st], savedlst_pos := True\<rparr>"
  have c: "inv_cells M gs es st" "inv_msgs cfg seg lm gs es st" "inv_pack cfg seg lm es st" "inv_saved cfg gs es st" "inv_count sm st"
    using inv by (simp_all add: pipe_inv_def)
  have f: "filling es ?st1 = filling es st" "rest_r ?st1 = rest_r st" "rest_l ?st1 = rest_l st"
    by (simp_all add: filling_def rest_r_def rest_l_def)
  have s: "saved_cells ?st1 = saved_cells st" using True by (simp add: saved_cells_def)
  have "inv_cells M gs es ?st1" using c(1) unfolding inv_cells_def f by simp
  moreover have "inv_msgs cfg seg lm gs es ?st1" using c(2) unfolding inv_msgs_def f by simp
  moreover have "inv_pack cfg seg lm es ?st1" using c(3) by (cases "es = []") (simp_all add: inv_pack_def in_buffer_def)
  moreover have "inv_saved cfg gs es ?st1"
    using c(4) pos True places_longer unfolding inv_saved_def f s by simp
  moreover have "inv_count sm ?st1" using c(5) True pos by (simp add: inv_count_def)
  ultimately show ?thesis using True by (simp add: pipe_inv_def save_lvec_def)
next
  case False
  then show ?thesis using inv by (auto simp: save_lvec_def)
qed

text \<open>A new packet begins at the place of the current local range.\<close>

lemma lvec_place:
  assumes "inv_cells M gs es st" and "inv_saved cfg gs es st" and "isget cfg" and "savedlst_pos st" and "0 < gex_len (lvec st)"
    and "size M < 2 ^ 31"
  shows "place_at (savedlst st) (length (savedlst st) - 1) (unat (gex_addr (lvec st) - gex_addr (last (savedlst st))))
     (length (all_gcells gs) + length (entries_cells es))"
proof -
  let ?sl = "savedlst st"
  have s: "?sl \<noteq> []" "gex_len (lvec st) \<le> gex_len (last ?sl)"
    "gex_addr (lvec st) = gex_addr (last ?sl) + of_nat (gex_len (last ?sl) - gex_len (lvec st))"
    using assms(2-4) by (simp_all add: inv_saved_def)
  have "gex_len (last ?sl) < 2 ^ 31"
    using saved_small(1) [OF assms(1-3)] saved_size_split(1) [OF s(1)] assms(6) by linarith
  then have u: "unat (gex_addr (lvec st) - gex_addr (last ?sl)) = gex_len (last ?sl) - gex_len (lvec st)"
    unfolding s(3) by (simp add: unat_of_nat)
  have "take (length ?sl - 1) ?sl = butlast ?sl" by (simp add: butlast_conv_take)
  moreover have "?sl ! (length ?sl - 1) = last ?sl" using s(1) by (simp add: last_conv_nth)
  ultimately show ?thesis
    using s assms(4,5) saved_vec_size [OF assms(2,3)] saved_size_split(1) [OF s(1)] unfolding u place_at_def by simp
qed

lemma saved_more:
  assumes "sl \<noteq> []" and "n \<le> gex_len (last sl)" and "c \<le> n"
  shows "take (vec_size sl - (n - c)) (vec_cells sl) =
     take (vec_size sl - n) (vec_cells sl) @ cells (gex_addr (last sl) + of_nat (gex_len (last sl) - n)) c"
proof -
  have e: "vec_size sl - (n - c) = vec_size (butlast sl) + ((gex_len (last sl) - n) + c)"
    "vec_size sl - n = vec_size (butlast sl) + (gex_len (last sl) - n)"
    using assms saved_size_split(1) [OF assms(1)] by simp_all
  have m: "min ((gex_len (last sl) - n) + c) (gex_len (last sl)) = (gex_len (last sl) - n) + c"
    "min (gex_len (last sl) - n) (gex_len (last sl)) = gex_len (last sl) - n" using assms by simp_all
  show ?thesis unfolding e saved_size_split(2) [OF assms(1)] by (simp add: m cells_add)
qed

lemma rest_near: "inv_cells M gs es st \<Longrightarrow> a \<in> set (rest_r st) \<Longrightarrow> a \<in> fst ` set_mset M"
proof -
  assume inv: "inv_cells M gs es st" and a: "a \<in> set (rest_r st)"
  then have "a \<in> fst ` set (zip (rest_r st) (rest_l st))"
    by (metis inv_cells_def list.set_map map_fst_zip)
  moreover have "set (zip (rest_r st) (rest_l st)) \<subseteq> set_mset M" using inv unfolding inv_cells_def by auto
  ultimately show ?thesis by blast
qed

lemma entry_near: "inv_cells M gs es st \<Longrightarrow> e \<in> set es \<Longrightarrow> entry_ok e \<Longrightarrow> fst e \<in> fst ` set_mset M"
proof -
  assume inv: "inv_cells M gs es st" and e: "e \<in> set es" "entry_ok e"
  have "entry_pairs e \<noteq> []" "fst (hd (entry_pairs e)) = fst e"
    using e(2) by (auto simp: entry_pairs_def entry_ok_def cells_def hd_conv_nth)
  then have "fst e \<in> fst ` set (entry_pairs e)" by (metis hd_in_set imageI)
  moreover have "set (entry_pairs e) \<subseteq> set_mset M" using inv e(1) unfolding inv_cells_def entries_pairs_def by auto
  ultimately show ?thesis by blast
qed

text \<open>Piece after piece the entries of the packet grow.\<close>

lemma pack_inv:
  assumes inv: "pipe_inv cfg seg lm M sm gs es st" and env: "pass_env cfg seg M"
    and pos: "0 < gex_len (rvec st)" "0 < gex_len (lvec st)" "isget cfg \<longrightarrow> savedlst_pos st"
    and room: "es \<noteq> [] \<longrightarrow> length (entries_bytes (isget cfg) lm seg es) + (if isget cfg then 10 else 11) \<le> maxrequest cfg \<and>
        (isget cfg \<longrightarrow> reply_datasz st = length (entries_cells es) \<and> reply_datasz st < maxreply cfg)"
    and c0: "c0 = min (gex_len (lvec st)) (gex_len (rvec st))"
  shows "\<exists>n st2 c st3 st' es'. pack_entry (start_packet cfg seg st) = Some (n, st2) \<and> pack_data cfg lm c0 n st2 = Some (c, st3) \<and>
     advance c st3 = Some st' \<and> pipe_inv cfg seg lm M sm gs es' st' \<and> round_inv cfg es' st' \<and> es' \<noteq> []"
proof -
  have c: "inv_cells M gs es st" "inv_msgs cfg seg lm gs es st" "inv_pack cfg seg lm es st" "inv_saved cfg gs es st" "inv_count sm st"
    using inv by (simp_all add: pipe_inv_def)
  have ok: "\<forall>e\<in>set es. entry_ok e" using c(2) by (cases "es = []") (auto simp: inv_msgs_def filling_def)
  define st1 where "st1 = start_packet cfg seg st"
  have same: "rvec st1 = rvec st" "lvec st1 = lvec st" "rvec_next st1 = rvec_next st" "lvec_next st1 = lvec_next st"
    "defer_buf st1 = defer_buf st" "savedlst st1 = savedlst st" "savedlst_pos st1 = savedlst_pos st" "injected st1 = injected st"
    by (simp_all add: st1_def start_packet_def Let_def)
  have buf: "es = [] \<and> pack_p st1 = Some [] \<and> prev_rptr st1 = seg \<and> pack_rvec st1 = None \<or>
       es \<noteq> [] \<and> in_buffer cfg seg lm (butlast es) (fst (last es)) (snd (last es)) st1"
    using c(3) by (cases "es = []") (simp_all add: st1_def start_packet_def Let_def inv_pack_def in_buffer_def)
  have reply: "isget cfg \<Longrightarrow> reply_datasz st1 = length (entries_cells es) \<and> reply_datasz st1 < maxreply cfg"
    using c(3) room env inv_buffer [OF c(3)] by (cases "es = []") (simp_all add: st1_def start_packet_def Let_def inv_pack_def pass_env_def)
  have place: "isget cfg \<Longrightarrow> place_at (savedlst st) (savedlst_idx st1) (savedlst_offset st1) (length (all_gcells gs))"
    using lvec_place [OF c(1,4)] filling_place [OF c(4)] c(3) inv_buffer [OF c(3)] pos env
    by (cases "es = []") (simp_all add: st1_def start_packet_def Let_def inv_pack_def pass_env_def)
  have put: "\<not> isget cfg \<Longrightarrow> savedlst_idx st1 = 0 \<and> savedlst_offset st1 = 0"
    using c(4) by (simp add: st1_def start_packet_def Let_def inv_saved_def)
  obtain es0 a ls i st2 where st2: "st2 = st1\<lparr>prev_rptr := a, pack_rvec := Some i,
       pack_p := Some (entries_bytes (isget cfg) lm seg (es0 @ [(a, ls)]))\<rparr>"
    and run1: "pack_entry st1 = Some (length ls, st2)" and inb: "in_buffer cfg seg lm es0 a ls st2"
    and es: "es = es0 @ [(a, ls)] \<or> ls = [] \<and> es0 = es" and short: "length ls < SHORTLEN_MAX"
    using pack_entry_spec [OF buf ok] unfolding Let_def by blast
  have a: "gex_addr (rvec st) = a + of_nat (length ls)" using inb by (simp add: in_buffer_def st2 same)
  have fits: "length (entries_bytes (isget cfg) lm seg (es0 @ [(a, ls)])) + (if isget cfg then 0 else 1) \<le> maxrequest cfg"
  proof (cases "es = es0 @ [(a, ls)]")
    case True
    then show ?thesis using room by auto
  next
    case False
    then have ls: "ls = []" "es0 = es" using es by auto
    have "gex_addr (rvec st) \<in> set (cells (gex_addr (rvec st)) (gex_len (rvec st)))"
      using pos(1) by (force simp: cells_def)
    then have "a \<in> fst ` set_mset M" using rest_near [OF c(1), of a] a ls(1) by (simp add: rest_r_def)
    moreover have "last_addr seg es \<in> insert seg (fst ` set_mset M)"
      using entry_near [OF c(1), of "last es"] ok by (simp add: last_addr_def)
    ultimately have "length (GASNETI_VLIDE_ENCODE (last_addr seg es) a) \<le> 8" using env unfolding pass_env_def by blast
    then show ?thesis using room env unfolding ls entry_bytes_split by (cases "es = []") (auto simp: pass_env_def)
  qed
  define C where "C c = cells (gex_addr (lvec st)) c" for c
  have c0': "0 < c0" using c0 pos by simp
  have room2: "if isget cfg then reply_datasz st2 < maxreply cfg else length (entries_bytes False lm seg (es0 @ [(a, ls)])) < maxrequest cfg"
    using reply fits by (cases "isget cfg") (simp_all add: st2)
  obtain k st3 where k: "0 < k" "k \<le> c0" "length ls + k \<le> SHORTLEN_MAX"
      "if isget cfg then reply_datasz st2 + k \<le> maxreply cfg else length (entries_bytes False lm seg (es0 @ [(a, ls)])) + k \<le> maxrequest cfg"
    and run2: "pack_data cfg lm c0 (length ls) st2 = Some (k, st3)"
    and st3: "st3 = st2\<lparr>pack_p := Some (entries_bytes (isget cfg) lm seg (es0 @ [(a, ls @ C k)])),
          reply_datasz := (if isget cfg then reply_datasz st2 + k else reply_datasz st2)\<rparr>"
    using pack_data_spec [OF inb _ short c0' room2, of i] by (auto simp: st2 same C_def)
  have "k \<le> gex_len (lvec st3)" "k \<le> gex_len (rvec st3)" using k(2) c0 by (simp_all add: st3 st2 same)
  from advance_rests [OF this] obtain st' where run3: "advance k st3 = Some st'"
    and st': "st' = st3\<lparr>lvec := consume k (lvec st3), rvec := consume k (rvec st3)\<rparr>"
    and "rest_r st3 = cells (gex_addr (rvec st3)) k @ rest_r st'" "rest_l st3 = cells (gex_addr (lvec st3)) k @ rest_l st'" by blast
  then have rest: "rest_r st = cells (a + of_nat (length ls)) k @ rest_r st'" "rest_l st = C k @ rest_l st'"
    by (simp_all add: rest_r_def rest_l_def st3 st2 same C_def a)
  note sel = st' st3 st2 same
  let ?es' = "es0 @ [(a, ls @ C k)]"
  have Ck: "length (C k) = k" by (simp add: C_def)
  have ec: "entries_cells ?es' = entries_cells es @ C k" using es by auto
  have ep: "entries_pairs ?es' = entries_pairs es @ zip (cells (a + of_nat (length ls)) k) (C k)"
    using es by (auto simp: entry_pairs_def Ck cells_add zip_both)
  have fill: "filling ?es' st' = [GPkt ?es' (savedlst_idx st1) (savedlst_offset st1)]" by (simp add: filling_def sel)
  have len: "length (entries_bytes (isget cfg) lm seg ?es') \<le> maxrequest cfg"
    using fits k(4) by (simp add: entry_bytes_split Ck split: if_splits)
  have cells: "inv_cells M gs ?es' st'"
  proof -
    have "mset (entries_pairs ?es') + mset (zip (rest_r st') (rest_l st')) =
        mset (entries_pairs es) + mset (zip (rest_r st) (rest_l st))"
      unfolding ep rest by (simp add: zip_both Ck)
    moreover have "length (rest_r st') = length (rest_l st')" using c(1) unfolding inv_cells_def rest by (simp add: Ck)
    ultimately show ?thesis using c(1) unfolding inv_cells_def by (simp add: sel add.assoc)
  qed
  have msgs: "inv_msgs cfg seg lm gs ?es' st'"
  proof -
    have "\<forall>e\<in>set ?es'. entry_ok e" using ok es k(1,3) Ck by (auto simp: entry_ok_def)
    moreover have "isget cfg \<longrightarrow> length (entries_cells ?es') \<le> maxreply cfg"
      using k(4) reply unfolding ec by (cases "isget cfg") (simp_all add: st2 Ck)
    ultimately have "msg_ok cfg seg lm (GPkt ?es' (savedlst_idx st1) (savedlst_offset st1))"
      using len unfolding msg_ok.simps by blast
    then show ?thesis using c(2) unfolding inv_msgs_def fill by (auto simp: sel)
  qed
  have pack: "inv_pack cfg seg lm ?es' st'"
    using inb by (simp add: inv_pack_def in_buffer_def sel consume_def Ck a add.assoc)
  have saved: "inv_saved cfg gs ?es' st'"
  proof (cases "isget cfg")
    case True
    have s: "savedlst st \<noteq> []" "gex_len (lvec st) \<le> gex_len (last (savedlst st))"
      "gex_addr (lvec st) = gex_addr (last (savedlst st)) + of_nat (gex_len (last (savedlst st)) - gex_len (lvec st))"
      using c(4) True pos(3) by (simp_all add: inv_saved_def)
    have kl: "k \<le> gex_len (lvec st)" using k(2) c0 by simp
    have "saved_cells st' = saved_cells st @ C k"
      using pos(3) True saved_more [OF s(1,2) kl] unfolding C_def s(3) by (simp add: saved_cells_def sel consume_def)
    moreover have "places (savedlst st) 0 (gs @ filling ?es' st')"
      using c(4) True place unfolding fill inv_saved_def by (simp add: places_append)
    moreover have "gex_addr (lvec st') = gex_addr (last (savedlst st')) + of_nat (gex_len (last (savedlst st')) - gex_len (lvec st'))"
    proof -
      have "gex_len (last (savedlst st)) - (gex_len (lvec st) - k) = (gex_len (last (savedlst st)) - gex_len (lvec st)) + k"
        using s(2) kl by simp
      then show ?thesis using s(3) by (simp add: sel consume_def add.assoc)
    qed
    ultimately show ?thesis using True c(4) s pos(3) unfolding inv_saved_def ec by (simp add: sel consume_def)
  next
    case False
    then show ?thesis using c(4) put by (simp add: inv_saved_def sel)
  qed
  have count: "inv_count sm st'" using c(5) k(1) by (auto simp: inv_count_def sel consume_def split: if_splits)
  have "round_inv cfg ?es' st'"
  proof -
    have "isget cfg \<Longrightarrow> gex_len (lvec st) \<le> gex_len (last (savedlst st))" using c(4) pos(3) by (simp add: inv_saved_def)
    then show ?thesis using reply k(1) pos(2) unfolding round_inv_def ec by (auto simp: sel consume_def Ck)
  qed
  then show ?thesis using run1 run2 run3 cells msgs pack saved count unfolding st1_def pipe_inv_def by blast
qed

section \<open>The loop\<close>

lemma vis_pack_inv:
  assumes inv: "pipe_inv cfg seg lm M sm gs es st" "round_inv cfg es st" and env: "pass_env cfg seg M"
    and pos: "0 < gex_len (rvec st)" "0 < gex_len (lvec st)" and c0: "c0 = min (gex_len (lvec st)) (gex_len (rvec st))"
  shows "\<exists>c st3 st' gs' es'. vis_pack cfg seg lm c0 st = Some (c, st3) \<and> advance c st3 = Some st' \<and>
     pipe_inv cfg seg lm M sm gs' es' st' \<and> round_inv cfg es' st'"
proof -
  from send_full_inv [OF inv env] obtain st1 gs1 es1 where s1: "send_full cfg st = Some st1" "pipe_inv cfg seg lm M sm gs1 es1 st1"
     "es1 \<noteq> [] \<longrightarrow> length (entries_bytes (isget cfg) lm seg es1) + (if isget cfg then 10 else 11) \<le> maxrequest cfg \<and>
        (isget cfg \<longrightarrow> reply_datasz st1 = length (entries_cells es1) \<and> reply_datasz st1 < maxreply cfg)"
     "lvec st1 = lvec st" "rvec st1 = rvec st" by blast
  let ?st2 = "save_lvec cfg st1"
  have same: "lvec ?st2 = lvec st" "rvec ?st2 = rvec st" "reply_datasz ?st2 = reply_datasz st1" using s1(4,5) by (simp_all add: save_lvec_def)
  note s2 = save_lvec_inv [OF s1(2)]
  have "0 < gex_len (lvec st1)" using pos s1(4) by simp
  from pack_inv [of cfg seg lm M sm gs1 es1 ?st2 c0] s2 [OF this] env s1(3) pos c0 obtain n s3 c st3 st' es' where
    "pack_entry (start_packet cfg seg ?st2) = Some (n, s3)" "pack_data cfg lm c0 n s3 = Some (c, st3)" "advance c st3 = Some st'"
    "pipe_inv cfg seg lm M sm gs1 es' st'" "round_inv cfg es' st'" unfolding same by blast
  then show ?thesis using s1(1) by (intro exI [of _ c] exI [of _ st3] exI [of _ st'] exI [of _ gs1] exI [of _ es']) (simp add: vis_pack_def)
qed

lemma inv_asserts:
  assumes inv: "pipe_inv cfg seg lm M sm gs es st" "round_inv cfg es st" and env: "pass_env cfg seg M"
  shows "pipe_asserts cfg sm st"
proof -
  have c: "inv_msgs cfg seg lm gs es st" "inv_pack cfg seg lm es st" "inv_saved cfg gs es st" "inv_count sm st"
    using inv(1) by (simp_all add: pipe_inv_def)
  have vl: "0 < length (GASNETI_VLIDE_ENCODE p q)" for p q using vlide_chunks_spec by (simp add: vlide_length)
  have buf: "case pack_p st of None \<Rightarrow> True | Some bs \<Rightarrow> length bs \<le> maxrequest cfg \<and>
        (case pack_rvec st of None \<Rightarrow> True | Some i \<Rightarrow> 0 < i \<and> i < length bs)"
  proof (cases "es = []")
    case True
    then show ?thesis using c(2) by (simp add: inv_pack_def)
  next
    case False
    have b: "in_buffer cfg seg lm (butlast es) (fst (last es)) (snd (last es)) st" using c(2) False by (simp add: inv_pack_def)
    have "length (entries_bytes (isget cfg) lm seg es) \<le> maxrequest cfg" using c(1) False by (auto simp: inv_msgs_def filling_def)
    moreover have "0 < i \<and> i < length (entries_bytes (isget cfg) lm seg es)" if "pack_rvec st = Some i" for i
      using b that vl [of "last_addr seg (butlast es)" "fst (last es)"]
        entry_bytes_split [of "isget cfg" lm seg "butlast es" "fst (last es)" "snd (last es)"] False
      by (auto simp: in_buffer_def)
    ultimately show ?thesis using inv_buffer [OF c(2) False] by (simp split: option.splits)
  qed
  have "reply_datasz st \<le> maxreply cfg" if "isget cfg"
    using c(1) inv(2) that by (cases "es = []") (auto simp: inv_msgs_def filling_def round_inv_def)
  moreover have "savedlst_idx st < length (savedlst st)" if "isget cfg" "savedlst_pos st"
  proof -
    have "es \<noteq> []" using inv(2) that by (simp add: round_inv_def)
    then show ?thesis using place_at_bounds [OF filling_place [OF c(3) that(1)]] by blast
  qed
  moreover have "length (savedlst st) \<le> sm" using c(4) by (simp add: inv_count_def)
  ultimately show ?thesis using buf unfolding pipe_asserts_def by blast
qed

lemma pipe_body_inv:
  assumes inv: "pipe_inv cfg seg lm M sm gs es st" "round_inv cfg es st" and env: "pass_env cfg seg M" and more: "rest_r st \<noteq> []"
  shows "\<exists>st' gs' es'. pipe_body cfg seg lm sm st = Some st' \<and> pipe_inv cfg seg lm M sm gs' es' st' \<and> round_inv cfg es' st'"
proof -
  from pick_rvec_inv [OF inv(1) more] obtain st1 where st1: "pick_rvec st = Some st1" "pipe_inv cfg seg lm M sm gs es st1"
    "0 < gex_len (rvec st1)" "round_inv cfg es st1" using inv(2) by blast
  have "0 < length (rest_r st1)" using st1(3) by (simp add: rest_r_def)
  then have "rest_l st1 \<noteq> []" using inv_size(2) st1(2) by (fastforce simp: pipe_inv_def)
  from pick_lvec_inv [OF st1(2) this st1(3,4)] obtain st2 where st2: "pick_lvec cfg st1 = Some st2"
    "pipe_inv cfg seg lm M sm gs es st2" "0 < gex_len (rvec st2)" "0 < gex_len (lvec st2)" "round_inv cfg es st2" by blast
  let ?c = "min (gex_len (lvec st2)) (gex_len (rvec st2))"
  have "\<exists>n st3 st' gs' es'. (if use_rma cfg \<and> ?c > maxchunk cfg then map_option (Pair ?c) (vis_rma cfg ?c st2)
      else vis_pack cfg seg lm ?c st2) = Some (n, st3) \<and> advance n st3 = Some st' \<and>
      pipe_inv cfg seg lm M sm gs' es' st' \<and> round_inv cfg es' st'"
  proof (cases "use_rma cfg \<and> ?c > maxchunk cfg")
    case True
    with vis_rma_inv [OF st2(2,5,3,4) refl] show ?thesis by fastforce
  next
    case False
    with vis_pack_inv [OF st2(2,5) env st2(3,4) refl] show ?thesis by (simp only: if_False)
  qed
  then obtain n st3 st' gs' es' where r: "(if use_rma cfg \<and> ?c > maxchunk cfg then map_option (Pair ?c) (vis_rma cfg ?c st2)
      else vis_pack cfg seg lm ?c st2) = Some (n, st3)" "advance n st3 = Some st'"
    "pipe_inv cfg seg lm M sm gs' es' st'" "round_inv cfg es' st'" by blast
  have "pipe_body cfg seg lm sm st = Some st'"
    unfolding pipe_body_def st1(1) st2(1) option.case Let_def r(1) prod.case r(2) using inv_asserts [OF r(3,4) env] by simp
  then show ?thesis using r(3,4) by blast
qed

lemma more_rest:
  assumes "inv_cells M gs es st"
  shows "pipe_more st \<longleftrightarrow> rest_r st \<noteq> []"
proof -
  have l: "length (rest_r st) = length (rest_l st)" and h: "hd_nonempty (rvec_next st)" using assms by (simp_all add: inv_cells_def)
  have r: "rest_r st \<noteq> [] \<longleftrightarrow> 0 < gex_len (rvec st) \<or> rvec_next st \<noteq> []"
    using hd_nonempty_size [OF h] vec_cells_length [of "rvec_next st"] by (auto simp add: rest_r_def simp del: vec_cells_length)
  have "rest_r st \<noteq> []" if "0 < gex_len (lvec st)"
  proof -
    have "0 < length (rest_l st)" using that by (simp add: rest_l_def)
    then show ?thesis unfolding l [symmetric] by simp
  qed
  then show ?thesis using r unfolding pipe_more_def by (metis add_gr_0)
qed

lemma pipe_loop_inv:
  assumes "pipe_inv cfg seg lm M sm gs es st" and "round_inv cfg es st" and env: "pass_env cfg seg M" and "rest_r st \<noteq> []"
  shows "\<exists>st' gs' es'. pipe_loop cfg seg lm sm st = Some st' \<and> pipe_inv cfg seg lm M sm gs' es' st' \<and> round_inv cfg es' st' \<and>
     rest_r st' = []"
  using assms
proof (induction "bytes_left st" arbitrary: st gs es rule: less_induct)
  case less
  from pipe_body_inv [OF less.prems] obtain st1 gs1 es1 where b: "pipe_body cfg seg lm sm st = Some st1"
    "pipe_inv cfg seg lm M sm gs1 es1 st1" "round_inv cfg es1 st1" by blast
  have step: "pipe_loop cfg seg lm sm st = (if rest_r st1 \<noteq> [] then pipe_loop cfg seg lm sm st1 else Some st1)"
    using b more_rest [of M gs1 es1 st1] by (subst pipe_loop.simps) (simp add: pipe_inv_def)
  show ?case
  proof (cases "rest_r st1 = []")
    case True
    then show ?thesis using step b by auto
  next
    case False
    from less.hyps [OF pipe_body_left [OF b(1)] b(2,3) env False] show ?thesis using step False by simp
  qed
qed

section \<open>The pass\<close>

lemma pass_start:
  assumes "M = mset (zip (vec_cells rs) (vec_cells ls))" and "vec_size rs = vec_size ls" and "hd_nonempty rs" and "hd_nonempty ls"
    and "length rs + length ls \<le> sm"
  shows "pipe_inv cfg seg lm M sm [] [] (pipe_start seg rs ls) \<and> round_inv cfg [] (pipe_start seg rs ls) \<and>
     rest_r (pipe_start seg rs ls) = vec_cells rs"
proof -
  have r: "rest_r (pipe_start seg rs ls) = vec_cells rs" "rest_l (pipe_start seg rs ls) = vec_cells ls"
    by (simp_all add: rest_r_def rest_l_def pipe_start_def)
  have f: "filling [] (pipe_start seg rs ls) = []" by (simp add: filling_def)
  show ?thesis using assms unfolding inv_defs round_inv_def r f by (simp add: pipe_start_def saved_cells_def)
qed

text \<open>What the pass leaves: messages that cover the transfer once, and the saved ranges in their order.\<close>

definition pass_result ::
  "vis_config \<Rightarrow> u64 \<Rightarrow> memory \<Rightarrow> (u64 \<times> u64) multiset \<Rightarrow> gmsg list \<Rightarrow> vis_msg list \<Rightarrow> gex_Memvec list \<Rightarrow> bool" where
  "pass_result cfg seg lm M gs ms sl \<longleftrightarrow> ms = map (render cfg seg lm) gs \<and> mset (all_gpairs gs) = M \<and> (\<forall>g\<in>set gs. msg_ok cfg seg lm g) \<and>
     (isget cfg \<longrightarrow> vec_cells sl = all_gcells gs \<and> (\<forall>v\<in>set sl. 0 < gex_len v) \<and> places sl 0 gs)"

lemma pass_finish:
  assumes inv: "pipe_inv cfg seg lm M sm gs es st" and env: "pass_env cfg seg M" and rest: "rest_r st = []"
  shows "\<exists>st' gs'. pipe_finish cfg st = Some st' \<and> pass_result cfg seg lm M gs' (injected st') (savedlst st')"
proof -
  have c: "inv_cells M gs es st" "inv_msgs cfg seg lm gs es st" "inv_pack cfg seg lm es st" "inv_saved cfg gs es st"
    using inv by (simp_all add: pipe_inv_def)
  have z: "rest_l st = []" using inv_size(2) [OF c(1)] rest by simp
  have e: "rvec_next st = []" "lvec_next st = []" "gex_len (lvec st) = 0"
    using c(1) rest z hd_nonempty_size [of "rvec_next st"] hd_nonempty_size [of "lvec_next st"]
    by (auto simp: inv_cells_def rest_r_def rest_l_def simp flip: length_0_conv)
  have result: "pass_result cfg seg lm M gs1 (injected st1) (savedlst st1)"
    if i: "pipe_inv cfg seg lm M sm gs1 [] st1" and "pack_p st1 = None" "lvec st1 = lvec st" "rvec st1 = rvec st" 
      "rest_r st1 = []" for gs1 st1
  proof -
    have c1: "inv_cells M gs1 [] st1" "inv_msgs cfg seg lm gs1 [] st1" "inv_saved cfg gs1 [] st1" using i by (simp_all add: pipe_inv_def)
    have "defer_buf st1 = []" using c1(2) that(2) by (auto simp: inv_msgs_def)
    moreover have "saved_cells st1 = vec_cells (savedlst st1)" using that(3) e(3) by (simp add: saved_cells_def)
    ultimately show ?thesis using c1 that(5) unfolding pass_result_def inv_cells_def inv_msgs_def inv_saved_def
      by (auto simp: filling_def)
  qed
  show ?thesis
  proof (cases "es = []")
    case True
    then have "pack_p st = None" using c(3) by (simp add: inv_pack_def)
    then show ?thesis using result [of gs st] inv rest e True by (auto simp: pipe_finish_def)
  next
    case False
    from inject_inv [OF inv env False] obtain st1 gs1 where s:
      "map_option (\<lambda>s. DRAIN_DEFERRED cfg (s\<lparr>pack_p := None\<rparr>)) (gasneti_AMpipeline_packetinject cfg st) = Some st1"
      "pipe_inv cfg seg lm M sm gs1 [] st1" "pack_p st1 = None" "lvec st1 = lvec st" "rvec st1 = rvec st" by blast
    then obtain s0 where s0: "gasneti_AMpipeline_packetinject cfg st = Some s0" "st1 = DRAIN_DEFERRED cfg (s0\<lparr>pack_p := None\<rparr>)" by auto
    let ?st' = "DRAIN_DEFERRED cfg s0"
    have same: "injected ?st' = injected st1" "savedlst ?st' = savedlst st1" unfolding s0(2) by (simp_all add: DRAIN_DEFERRED_def)
    have "rvec_next st1 = rvec_next st" using s0 unfolding s0(2)
      by (auto simp: DRAIN_DEFERRED_def gasneti_AMpipeline_packetinject_def split: option.splits if_splits)
    then have "rest_r st1 = []" using e rest s(5) by (simp add: rest_r_def)
    moreover have "pipe_finish cfg st = Some ?st'" using e inv_buffer [OF c(3) False] s0(1) by (simp add: pipe_finish_def)
    ultimately show ?thesis using result [OF s(2-5)] unfolding same [symmetric] by blast
  qed
qed

lemma incremental_result:
  assumes env: "pass_env cfg seg (mset (zip (vec_cells rs) (vec_cells ls)))" and size: "vec_size rs = vec_size ls"
  shows "\<exists>gs ms sl. gasneti_AMpipeline_incremental cfg seg lm rs ls = Some (ms, sl) \<and>
     pass_result cfg seg lm (mset (zip (vec_cells rs) (vec_cells ls))) gs ms sl"
proof (cases "skip_empty rs")
  case Nil
  then have "vec_cells rs = []" using skip_empty_cells(1) [of rs] by simp
  then show ?thesis using Nil
    by (intro exI [of _ "[]"] exI [of _ "[]"] exI [of _ "[]"]) (simp add: gasneti_AMpipeline_incremental_def pass_result_def)
next
  case (Cons r rs')
  have "0 < vec_size rs" using skip_empty_hd [of rs] skip_empty_cells(2) [of rs] Cons by simp
  then obtain l ls' where l: "skip_empty ls = l # ls'" using size skip_empty_cells(2) [of ls] by (cases "skip_empty ls") auto
  let ?st = "pipe_start seg (r # rs') (l # ls')" and ?sm = "length rs + length ls" and ?M = "mset (zip (vec_cells rs) (vec_cells ls))"
  have same: "vec_cells (r # rs') = vec_cells rs" "vec_cells (l # ls') = vec_cells ls"
    "vec_size (r # rs') = vec_size rs" "vec_size (l # ls') = vec_size ls"
    using skip_empty_cells [of rs] skip_empty_cells [of ls] Cons l by simp_all
  have "length (r # rs') + length (l # ls') \<le> ?sm"
    using skip_empty_length [of rs] skip_empty_length [of ls] Cons l by simp
  then have s: "pipe_inv cfg seg lm ?M ?sm [] [] ?st" "round_inv cfg [] ?st" "rest_r ?st = vec_cells rs"
    using pass_start [of ?M "r # rs'" "l # ls'" ?sm cfg seg lm] size skip_empty_hd [of rs] skip_empty_hd [of ls] unfolding same Cons l by auto
  have "rest_r ?st \<noteq> []" unfolding s(3) using \<open>0 < vec_size rs\<close> by (metis vec_cells_length length_greater_0_conv)
  from pipe_loop_inv [OF s(1,2) env this] obtain st' gs' es' where p: "pipe_loop cfg seg lm ?sm ?st = Some st'"
    "pipe_inv cfg seg lm ?M ?sm gs' es' st'" "rest_r st' = []" by blast
  from pass_finish [OF p(2) env p(3)] obtain st2 gs2 where "pipe_finish cfg st' = Some st2"
    "pass_result cfg seg lm ?M gs2 (injected st2) (savedlst st2)" by blast
  then show ?thesis using Cons l p(1)
    by (intro exI [of _ gs2] exI [of _ "injected st2"] exI [of _ "savedlst st2"]) (simp add: gasneti_AMpipeline_incremental_def)
qed

end
