(* ===== verification/Vector_Properties.thy ===== *)
theory Vector_Properties
  imports Vector_Round
begin

text \<open>
  Properties of vector transfers: every algorithm of \<^verbatim>\<open>extended-ref/vis/gasnet_vector.c\<close>
  does the same thing, the copy of the source cells to the target cells, whatever the order in which
  its messages are delivered.
\<close>

section \<open>Delivery\<close>

text \<open>The messages of a put, delivered one after the other at the target.\<close>

fun deliver_put :: "u64 \<Rightarrow> memory \<Rightarrow> vis_msg \<Rightarrow> memory \<Rightarrow> memory option" where
  "deliver_put segbase lm (Rma p) rm = Some (put_effect lm p rm)"
| "deliver_put segbase lm (Packet bs i k) rm = gasnete_putv_AMPipeline_reqh segbase bs rm"

text \<open>The messages of a get: a packet is answered by the target, and the reply is unpacked.\<close>

fun deliver_get :: "nat \<Rightarrow> u64 \<Rightarrow> gex_Memvec list \<Rightarrow> memory \<Rightarrow> vis_msg \<Rightarrow> memory \<Rightarrow> memory option" where
  "deliver_get max_data segbase saved rm (Rma p) lm = Some (get_effect rm p lm)"
| "deliver_get max_data segbase saved rm (Packet bs i k) lm =
     (case gasnete_getv_AMPipeline_reqh max_data segbase bs rm of None \<Rightarrow> None
      | Some data \<Rightarrow> gasnete_getv_AMPipeline_reph saved i k data lm)"

fun deliver_all :: "(vis_msg \<Rightarrow> memory \<Rightarrow> memory option) \<Rightarrow> vis_msg list \<Rightarrow> memory \<Rightarrow> memory option" where
  "deliver_all f [] m = Some m"
| "deliver_all f (x # xs) m = (case f x m of None \<Rightarrow> None | Some m' \<Rightarrow> deliver_all f xs m')"

lemma deliver_all_fold:
  "\<forall>g\<in>set gs. \<forall>m. f (render cfg seg lm g) m = Some (eff g m) \<Longrightarrow>
   deliver_all f (map (render cfg seg lm) gs) m = Some (fold eff gs m)"
  by (induction gs arbitrary: m) auto

lemma deliver_put_msg:
  "msg_ok cfg seg lm g \<Longrightarrow> \<not> isget cfg \<Longrightarrow>
   deliver_put seg lm (render cfg seg lm g) rm = Some (store (map (\<lambda>(r, l). (r, lm l)) (gpairs g)) rm)"
  by (cases g) (simp_all add: put_effect_store put_handler)

text \<open>Pairs of cells, stored at the local side.\<close>

lemma reply_pairs:
  "store (zip (entries_cells es) (map (rm \<circ> fst) (entries_pairs es))) = store (map (\<lambda>(r, l). (l, rm r)) (entries_pairs es))"
proof -
  have "zip (map snd xs) (map (rm \<circ> fst) xs) = map (\<lambda>(r, l). (l, rm r)) xs" for xs :: "(u64 \<times> u64) list"
    by (induction xs) auto
  then show ?thesis by (simp only: entries_pairs_snd [symmetric])
qed

text \<open>A reply at its place of the saved ranges writes the cells of its packet.\<close>

lemma reply_store:
  assumes "place_at sl i k n" and "\<forall>v\<in>set sl. 0 < gex_len v" and "vec_cells sl = xs @ ys @ zs" and "length xs = n"
    and "length bs = length ys" and "bs \<noteq> []"
  shows "gasnete_getv_AMPipeline_reph sl i k bs lm = Some (store (zip ys bs) lm)"
proof -
  obtain v vs where v: "drop i sl = v # vs" "k < gex_len v" "vec_cells (consume k v # vs) = ys @ zs"
    using vec_cells_at [OF assms(1)] assms(3,4) by auto
  have "set vs \<subseteq> set sl" using set_drop_subset [of i sl] v(1) by simp
  then have nz: "\<forall>w\<in>set (consume k v # vs). 0 < gex_len w" using assms(2) v(2) by (auto simp: consume_def)
  have le: "length bs \<le> vec_size (consume k v # vs)" using arg_cong [OF v(3), of length] assms(5) by simp
  have "zip (ys @ zs) bs = zip ys bs" using assms(5) zip_prefix [of bs ys zs] by (simp add: take_all)
  then have "scatter_saved (consume k v) vs bs lm = Some (store (zip ys bs) lm)"
    using scatter_store [OF nz assms(6) le] v(3) by (simp del: vec_cells.simps)
  then show ?thesis using v(1,2) assms(6) by (simp add: gasnete_getv_AMPipeline_reph_def)
qed

lemma places_mem:
  assumes "places sl n gs" and "GPkt es i k \<in> set gs"
  shows "\<exists>as bs. all_gcells gs = as @ entries_cells es @ bs \<and> place_at sl i k (n + length as)"
  using assms
proof (induction gs arbitrary: n)
  case (Cons g gs)
  show ?case
  proof (cases "g = GPkt es i k")
    case True
    then show ?thesis using Cons.prems(1) by (intro exI [of _ "[]"] exI [of _ "all_gcells gs"]) simp
  next
    case False
    with Cons obtain as bs where "all_gcells gs = as @ entries_cells es @ bs" "place_at sl i k (n + length (gcells g) + length as)"
      by (metis list.set_intros(1) places.simps(2) set_ConsD)
    then show ?thesis by (intro exI [of _ "gcells g @ as"] exI [of _ bs]) (simp add: add.assoc)
  qed
qed simp

lemma deliver_get_msg:
  assumes res: "pass_result cfg seg lm0 M gs ms sl" and g: "g \<in> set gs" and get: "isget cfg"
  shows "deliver_get (maxreply cfg) seg sl rm (render cfg seg lm0 g) lm = Some (store (map (\<lambda>(r, l). (l, rm r)) (gpairs g)) lm)"
proof (cases g)
  case (GRma p)
  then show ?thesis by (simp add: get_effect_store)
next
  case (GPkt es i k)
  have ok: "es \<noteq> []" "\<forall>e\<in>set es. entry_ok e" "length (entries_cells es) \<le> maxreply cfg"
    using res g get GPkt by (auto simp: pass_result_def)
  have sl: "vec_cells sl = all_gcells gs" "\<forall>v\<in>set sl. 0 < gex_len v" "places sl 0 gs" using res get by (simp_all add: pass_result_def)
  obtain as bs where p: "all_gcells gs = as @ entries_cells es @ bs" "place_at sl i k (length as)"
    using places_mem [OF sl(3), of es i k] g GPkt by auto
  have "gasnete_getv_AMPipeline_reph sl i k (map (rm \<circ> fst) (entries_pairs es)) lm =
      Some (store (zip (entries_cells es) (map (rm \<circ> fst) (entries_pairs es))) lm)"
  proof (rule reply_store [OF p(2) sl(2)])
    show "vec_cells sl = as @ entries_cells es @ bs" by (simp only: sl(1) p(1))
    show "length (map (rm \<circ> fst) (entries_pairs es)) = length (entries_cells es)" by simp
    have "0 < length (entries_pairs es)" using entries_cells_pos [OF ok(1,2)] by (simp only: entries_pairs_length)
    then show "map (rm \<circ> fst) (entries_pairs es) \<noteq> []" by (simp only: map_is_Nil_conv length_greater_0_conv not_False_eq_True)
  qed (rule refl)
  then show ?thesis using GPkt get get_handler [OF ok] by (simp add: reply_pairs)
qed

text \<open>Addresses in the lower 32 PiB are near enough for the buffer check of the pass.\<close>

lemma near_addresses:
  assumes "a < 2 ^ 55" and "b < 2 ^ 55"
  shows "length (GASNETI_VLIDE_ENCODE a b) \<le> 8"
proof -
  have s: "2 ^ 55 = (word_of_int (2 ^ 55) :: u64)" by simp
  have u: "uint x < 2 ^ 55" if "x < 2 ^ 55" for x :: u64 using that by (simp add: word_less_def)
  have r: "- (2 ^ 55) \<le> uint b - uint a \<and> uint b - uint a < 2 ^ 55"
    using u [OF assms(1)] u [OF assms(2)] uint_ge_0 [of a] uint_ge_0 [of b] by linarith
  have "b - a = word_of_int (uint b - uint a)" by simp
  then have "sint (b - a) = signed_take_bit 63 (uint b - uint a)" by (simp add: signed_of_int del: of_int_diff)
  also have "\<dots> = uint b - uint a" using r by (intro signed_take_bit_int_eq_self) simp_all
  finally have "in_chunks 8 (b - a)" using r by (simp add: in_chunks_def)
  then show ?thesis using vlide_chunks_spec [of "b - a"] unfolding vlide_length by (meson not_le zero_less_numeral)
qed

lemma near_env:
  assumes "11 \<le> maxrequest cfg" and "isget cfg \<longrightarrow> 0 < maxreply cfg \<and> vec_size ls < 2 ^ 31"
    and "vec_size rs = vec_size ls" and "\<forall>a\<in>insert segbase (set (vec_cells rs)). a < 2 ^ 55"
  shows "pass_env cfg segbase (mset (zip (vec_cells rs) (vec_cells ls)))"
proof -
  have "size (mset (zip (vec_cells rs) (vec_cells ls))) = vec_size ls" using assms(3) by simp
  moreover have "fst ` set_mset (mset (zip (vec_cells rs) (vec_cells ls))) = set (vec_cells rs)"
    using assms(3) by (simp flip: set_map)
  ultimately show ?thesis using assms near_addresses unfolding pass_env_def by auto
qed

lemma map_permuted: "mset ys = mset (map f xs) \<Longrightarrow> \<exists>zs. mset zs = mset xs \<and> ys = map f zs"
proof (induction ys arbitrary: xs)
  case (Cons y ys)
  then have "y \<in> set (map f xs)" by (metis list.set_intros(1) mset_eq_setD)
  then obtain x where x: "x \<in> set xs" "y = f x" by auto
  have "mset (map f xs) = add_mset (f x) (mset (map f (remove1 x xs)))"
    using x(1) by (simp add: image_mset_Diff)
  then have "mset ys = mset (map f (remove1 x xs))" using Cons.prems x(2) by simp
  from Cons.IH [OF this] obtain zs where "mset zs = mset (remove1 x xs)" "ys = map f zs" by blast
  then show ?case using x by (intro exI [of _ "x # zs"]) simp
qed simp

lemma concat_permuted: "mset xs = mset ys \<Longrightarrow> mset (concat (map f xs)) = mset (concat (map f ys))"
  by (simp add: mset_concat) (metis mset_map sum_mset_sum_list)

section \<open>Properties\<close>

text \<open>
  C23. For lists of the same total size, packets of at least 11 bytes and remote addresses below 32 PiB,
  the pass of the vector pipeline succeeds: no assertion fails in it. Its packets hold at least one
  byte and at most what the conduit allows, its remote accesses are not empty, and the packet of a get
  names a place inside of the saved ranges and asks for no more data than a reply can carry.
\<close>

theorem pipeline_succeeds:
  assumes "vec_size rs = vec_size ls" and "11 \<le> maxrequest cfg"
    and "isget cfg \<longrightarrow> 0 < maxreply cfg \<and> vec_size ls < 2 ^ 31"
    and "\<forall>a\<in>insert segbase (set (vec_cells rs)). a < 2 ^ 55"
  shows "\<exists>ms sl. gasneti_AMpipeline_incremental cfg segbase lm rs ls = Some (ms, sl) \<and>
     (\<forall>p. Rma p \<in> set ms \<longrightarrow> 0 < op_sz p) \<and>
     (\<forall>bs i k. Packet bs i k \<in> set ms \<longrightarrow> 0 < length bs \<and> length bs \<le> maxrequest cfg \<and>
        (isget cfg \<longrightarrow> i < length sl \<and> k < gex_len (sl ! i) \<and>
          (\<forall>rm. \<exists>data. gasnete_getv_AMPipeline_reqh (maxreply cfg) segbase bs rm = Some data \<and> length data \<le> maxreply cfg)))"
proof -
  from incremental_result [OF near_env [OF assms(2,3,1,4)] assms(1)] obtain gs ms sl where
    r: "gasneti_AMpipeline_incremental cfg segbase lm rs ls = Some (ms, sl)"
    "pass_result cfg segbase lm (mset (zip (vec_cells rs) (vec_cells ls))) gs ms sl" by blast
  have ms: "ms = map (render cfg segbase lm) gs" and ok: "g \<in> set gs \<Longrightarrow> msg_ok cfg segbase lm g" for g
    using r(2) by (simp_all add: pass_result_def)
  have "0 < op_sz p" if "Rma p \<in> set ms" for p
  proof -
    from that obtain g where g: "g \<in> set gs" "Rma p = render cfg segbase lm g" unfolding ms by auto
    then show ?thesis using ok [OF g(1)] by (cases rule: gmsg.exhaust [of g]) auto
  qed
  moreover have "0 < length bs \<and> length bs \<le> maxrequest cfg \<and> (isget cfg \<longrightarrow> i < length sl \<and> k < gex_len (sl ! i) \<and>
      (\<forall>rm. \<exists>data. gasnete_getv_AMPipeline_reqh (maxreply cfg) segbase bs rm = Some data \<and> length data \<le> maxreply cfg))"
    if "Packet bs i k \<in> set ms" for bs i k
  proof -
    from that obtain x where x: "x \<in> set gs" "Packet bs i k = render cfg segbase lm x" unfolding ms by auto
    then obtain es where g: "GPkt es i k \<in> set gs" and bs: "bs = entries_bytes (isget cfg) lm segbase es"
      by (cases rule: gmsg.exhaust [of x]) auto
    have es: "es \<noteq> []" "\<forall>e\<in>set es. entry_ok e" "length bs \<le> maxrequest cfg" "isget cfg \<longrightarrow> length (entries_cells es) \<le> maxreply cfg"
      using ok [OF g] by (simp_all add: bs)
    have "i < length sl \<and> k < gex_len (sl ! i)" if "isget cfg"
      using places_mem [of sl 0 gs es i k] r(2) g that by (auto simp: pass_result_def place_at_def)
    moreover have "\<exists>data. gasnete_getv_AMPipeline_reqh (maxreply cfg) segbase bs rm = Some data \<and> length data \<le> maxreply cfg"
      if "isget cfg" for rm
      using get_handler [OF es(1,2), of "maxreply cfg" segbase lm rm] es(4) that by (simp add: bs)
    ultimately show ?thesis using es(3) entries_bytes_nonempty [OF es(1)] bs by simp
  qed
  ultimately show ?thesis using r(1) by blast
qed

lemma pipeline_succeeds_witness:
  "\<exists>ms sl. gasneti_AMpipeline_incremental \<lparr>isget = True, use_rma = True, npam = True, maxchunk = 2, maxrequest = 11, maxreply = 2\<rparr> 0 (\<lambda>a. 0)
       [\<lparr>gex_addr = 4096, gex_len = 3\<rparr>, \<lparr>gex_addr = 8192, gex_len = 2\<rparr>] [\<lparr>gex_addr = 100, gex_len = 5\<rparr>] = Some (ms, sl)"
  using pipeline_succeeds [of "[\<lparr>gex_addr = 4096, gex_len = 3\<rparr>, \<lparr>gex_addr = 8192, gex_len = 2\<rparr>]" "[\<lparr>gex_addr = 100, gex_len = 5\<rparr>]"
      "\<lparr>isget = True, use_rma = True, npam = True, maxchunk = 2, maxrequest = 11, maxreply = 2\<rparr>" 0 "\<lambda>a. 0"]
  by (simp add: cells_def upt_rec) blast

text \<open>
  C24. The messages that the pipeline sends for a vector put, delivered at the target in any order, are
  accepted by the handler and together copy the local cells to the remote cells, in the order of the
  two lists, and change nothing else, whatever the sizes of the ranges on the two sides and the limits
  of the conduit.
\<close>

theorem putv_pipeline_copies:
  assumes "\<not> isget cfg" and "vec_size rs = vec_size ls" and "11 \<le> maxrequest cfg"
    and "\<forall>a\<in>insert segbase (set (vec_cells rs)). a < 2 ^ 55" and "distinct (vec_cells rs)"
  shows "\<exists>ms sl. gasneti_AMpipeline_incremental cfg segbase lm rs ls = Some (ms, sl) \<and>
     (\<forall>ms'. mset ms' = mset ms \<longrightarrow> deliver_all (deliver_put segbase lm) ms' rm = Some (vec_copy rs ls lm rm))"
proof -
  from incremental_result [OF near_env [OF assms(3) _ assms(2,4)] assms(2)] assms(1) obtain gs ms sl where
    r: "gasneti_AMpipeline_incremental cfg segbase lm rs ls = Some (ms, sl)"
    "pass_result cfg segbase lm (mset (zip (vec_cells rs) (vec_cells ls))) gs ms sl" by blast
  have "deliver_all (deliver_put segbase lm) ms' rm = Some (vec_copy rs ls lm rm)" if "mset ms' = mset ms" for ms'
  proof -
    from that r(2) obtain gs' where gs': "mset gs' = mset gs" "ms' = map (render cfg segbase lm) gs'"
      using map_permuted [of ms' "render cfg segbase lm" gs] by (auto simp: pass_result_def)
    let ?eff = "\<lambda>g. store (map (\<lambda>(r, l). (r, lm l)) (gpairs g))"
    have "\<forall>g\<in>set gs'. \<forall>m. deliver_put segbase lm (render cfg segbase lm g) m = Some (?eff g m)"
      using r(2) assms(1) deliver_put_msg mset_eq_setD [OF gs'(1)] by (auto simp: pass_result_def)
    then have "deliver_all (deliver_put segbase lm) ms' rm = Some (fold ?eff gs' rm)"
      unfolding gs'(2) by (rule deliver_all_fold)
    moreover have "mset (all_gpairs gs') = mset (zip (vec_cells rs) (vec_cells ls))"
      using r(2) concat_permuted [OF gs'(1), of gpairs] by (simp only: pass_result_def)
    ultimately show ?thesis using puts_any_order [of gpairs gs' rs ls ?eff lm rm] assms(2,5) by simp
  qed
  then show ?thesis using r(1) by blast
qed

lemma putv_pipeline_copies_witness:
  "\<exists>ms sl. gasneti_AMpipeline_incremental \<lparr>isget = False, use_rma = True, npam = True, maxchunk = 2, maxrequest = 11, maxreply = 2\<rparr> 0 (\<lambda>a. 7)
       [\<lparr>gex_addr = 4096, gex_len = 3\<rparr>, \<lparr>gex_addr = 8192, gex_len = 2\<rparr>] [\<lparr>gex_addr = 100, gex_len = 5\<rparr>] = Some (ms, sl) \<and>
     (\<forall>ms'. mset ms' = mset ms \<longrightarrow> deliver_all (deliver_put 0 (\<lambda>a. 7)) ms' (\<lambda>a. 0) =
        Some (vec_copy [\<lparr>gex_addr = 4096, gex_len = 3\<rparr>, \<lparr>gex_addr = 8192, gex_len = 2\<rparr>] [\<lparr>gex_addr = 100, gex_len = 5\<rparr>] (\<lambda>a. 7) (\<lambda>a. 0)))"
  by (rule putv_pipeline_copies) (simp_all add: cells_def upt_rec)

text \<open>
  C25. The messages of a vector get, delivered in any order, each answered by the target and its reply
  unpacked at the place that the packet carries, together copy the remote cells to the local cells, in
  the order of the two lists, and change nothing else.
\<close>

theorem getv_pipeline_copies:
  assumes "isget cfg" and "vec_size rs = vec_size ls" and "11 \<le> maxrequest cfg" and "0 < maxreply cfg" and "vec_size ls < 2 ^ 31"
    and "\<forall>a\<in>insert segbase (set (vec_cells rs)). a < 2 ^ 55" and "distinct (vec_cells ls)"
  shows "\<exists>ms sl. gasneti_AMpipeline_incremental cfg segbase lm rs ls = Some (ms, sl) \<and>
     (\<forall>ms'. mset ms' = mset ms \<longrightarrow>
        deliver_all (deliver_get (maxreply cfg) segbase sl rm) ms' lm = Some (vec_copy ls rs rm lm))"
proof -
  from incremental_result [OF near_env [OF assms(3) _ assms(2,6)] assms(2)] assms(4,5) obtain gs ms sl where
    r: "gasneti_AMpipeline_incremental cfg segbase lm rs ls = Some (ms, sl)"
    "pass_result cfg segbase lm (mset (zip (vec_cells rs) (vec_cells ls))) gs ms sl" by blast
  have "deliver_all (deliver_get (maxreply cfg) segbase sl rm) ms' lm = Some (vec_copy ls rs rm lm)" if "mset ms' = mset ms" for ms'
  proof -
    from that r(2) obtain gs' where gs': "mset gs' = mset gs" "ms' = map (render cfg segbase lm) gs'"
      using map_permuted [of ms' "render cfg segbase lm" gs] by (auto simp: pass_result_def)
    let ?eff = "\<lambda>g. store (map (\<lambda>(r, l). (l, rm r)) (gpairs g))"
    have "\<forall>g\<in>set gs'. \<forall>m. deliver_get (maxreply cfg) segbase sl rm (render cfg segbase lm g) m = Some (?eff g m)"
      using deliver_get_msg [OF r(2) _ assms(1)] mset_eq_setD [OF gs'(1)] by blast
    then have "deliver_all (deliver_get (maxreply cfg) segbase sl rm) ms' lm = Some (fold ?eff gs' lm)"
      unfolding gs'(2) by (rule deliver_all_fold)
    moreover have "mset (all_gpairs gs') = mset (zip (vec_cells rs) (vec_cells ls))"
      using r(2) concat_permuted [OF gs'(1), of gpairs] by (simp only: pass_result_def)
    ultimately show ?thesis using gets_any_order [of gpairs gs' rs ls ?eff rm lm] assms(2,7) by simp
  qed
  then show ?thesis using r(1) by blast
qed

lemma getv_pipeline_copies_witness:
  "\<exists>ms sl. gasneti_AMpipeline_incremental \<lparr>isget = True, use_rma = True, npam = True, maxchunk = 2, maxrequest = 11, maxreply = 2\<rparr> 0 (\<lambda>a. 7)
       [\<lparr>gex_addr = 4096, gex_len = 3\<rparr>, \<lparr>gex_addr = 8192, gex_len = 2\<rparr>] [\<lparr>gex_addr = 100, gex_len = 5\<rparr>] = Some (ms, sl) \<and>
     (\<forall>ms'. mset ms' = mset ms \<longrightarrow>
        deliver_all (deliver_get (maxreply \<lparr>isget = True, use_rma = True, npam = True, maxchunk = 2, maxrequest = 11, maxreply = 2\<rparr>) 0 sl (\<lambda>a. 0)) ms' (\<lambda>a. 7) =
        Some (vec_copy [\<lparr>gex_addr = 100, gex_len = 5\<rparr>] [\<lparr>gex_addr = 4096, gex_len = 3\<rparr>, \<lparr>gex_addr = 8192, gex_len = 2\<rparr>] (\<lambda>a. 0) (\<lambda>a. 7)))"
  by (rule getv_pipeline_copies) (simp_all add: cells_def upt_rec)

text \<open>
  The reference algorithm with one remote access for each piece: it cuts two lists of the same size
  into pieces, none of them empty, and the accesses, performed in any order, are the transfer, for puts
  and for gets.
\<close>

theorem vector_indiv_copies:
  assumes "vec_size dst = vec_size src" and "distinct (vec_cells dst)"
  shows "(\<exists>ps. gasnete_putv_ref_indiv dst src = Some ps \<and> (\<forall>p\<in>set ps. 0 < op_sz p) \<and>
       (\<forall>ps'. mset ps' = mset ps \<longrightarrow> fold (put_effect m1) ps' m2 = vec_copy dst src m1 m2)) \<and>
     (\<exists>ps. gasnete_getv_ref_indiv dst src = Some ps \<and> (\<forall>p\<in>set ps. 0 < op_sz p) \<and>
       (\<forall>ps'. mset ps' = mset ps \<longrightarrow> fold (get_effect m1) ps' m2 = vec_copy dst src m1 m2))"
proof -
  obtain ps where p: "gasnete_putv_ref_indiv dst src = Some ps" "\<forall>p\<in>set ps. 0 < op_sz p"
    "concat (map op_pairs ps) = zip (vec_cells dst) (vec_cells src)" using putv_indiv_pairs [OF assms(1)] by blast
  have "fold (put_effect m1) ps' m2 = vec_copy dst src m1 m2" if "mset ps' = mset ps" for ps'
    using concat_permuted [OF that, of op_pairs] p(3) assms by (intro puts_any_order [of op_pairs]) (simp_all add: put_effect_store)
  moreover obtain qs where q: "gasnete_getv_ref_indiv dst src = Some qs" "\<forall>p\<in>set qs. 0 < op_sz p"
    "concat (map op_pairs qs) = zip (vec_cells src) (vec_cells dst)" using getv_indiv_pairs [OF assms(1)] by blast
  moreover have "fold (get_effect m1) qs' m2 = vec_copy dst src m1 m2" if "mset qs' = mset qs" for qs'
    using concat_permuted [OF that, of op_pairs] q(3) assms by (intro gets_any_order [of op_pairs]) (simp_all add: get_effect_store)
  ultimately show ?thesis using p(1,2) by blast
qed

lemma vector_indiv_copies_witness:
  "\<exists>ps. gasnete_putv_ref_indiv [\<lparr>gex_addr = 4096, gex_len = 3\<rparr>, \<lparr>gex_addr = 8192, gex_len = 2\<rparr>] [\<lparr>gex_addr = 100, gex_len = 5\<rparr>] = Some ps \<and> (\<forall>p\<in>set ps. 0 < op_sz p)"
  using vector_indiv_copies [of "[\<lparr>gex_addr = 4096, gex_len = 3\<rparr>, \<lparr>gex_addr = 8192, gex_len = 2\<rparr>]" "[\<lparr>gex_addr = 100, gex_len = 5\<rparr>]"]
  by (simp add: cells_def upt_rec) blast

text \<open>
  When the remote side is one range, the gather put packs all local ranges into the bytes of one
  remote put, and the scatter get unpacks the bytes of one remote get into all local ranges; both are
  the transfer, also when ranges are empty.
\<close>

theorem vector_contiguous_copies:
  assumes "length one = 1" and "1 < length many" and "vec_size one = vec_size many"
  shows "(\<exists>r. gasnete_putv_gather one many lm = Some r \<and>
       (case r of None \<Rightarrow> rm | Some (a, bs) \<Rightarrow> write_bytes a bs rm) = vec_copy one many lm rm) \<and>
     gasnete_getv_scatter many one rm lm = Some (vec_copy many one rm lm)"
  using putv_gather_copy [OF assms] getv_scatter_copy [OF assms(1,2) assms(3) [symmetric]] by simp

lemma vector_contiguous_copies_witness:
  "gasnete_getv_scatter [\<lparr>gex_addr = 4096, gex_len = 3\<rparr>, \<lparr>gex_addr = 8192, gex_len = 2\<rparr>] [\<lparr>gex_addr = 100, gex_len = 5\<rparr>] (\<lambda>a. 7) (\<lambda>a. 0) = Some (vec_copy [\<lparr>gex_addr = 4096, gex_len = 3\<rparr>, \<lparr>gex_addr = 8192, gex_len = 2\<rparr>] [\<lparr>gex_addr = 100, gex_len = 5\<rparr>] (\<lambda>a. 7) (\<lambda>a. 0))"
  using vector_contiguous_copies [of "[\<lparr>gex_addr = 100, gex_len = 5\<rparr>]" "[\<lparr>gex_addr = 4096, gex_len = 3\<rparr>, \<lparr>gex_addr = 8192, gex_len = 2\<rparr>]"] by simp

text \<open>
  Packing a list of ranges and unpacking the bytes over the same list restores the cells of these
  ranges and changes no other cell, with a first range cut at its front and a last range of any length.
\<close>

theorem memvec_roundtrip:
  assumes "gasnete_memvec_pack noempty list first_offset last_len m = Some bs"
    and "distinct (vec_cells (cut_vec list first_offset last_len))"
  shows "\<exists>m2. gasnete_memvec_unpack noempty list bs first_offset last_len m1 = Some m2 \<and>
     (\<forall>a. m2 a = (if a \<in> set (vec_cells (cut_vec list first_offset last_len)) then m a else m1 a))"
proof -
  let ?cs = "vec_cells (cut_vec list first_offset last_len)"
  have bs: "bs = map m ?cs" by (rule pack_bytes [OF assms(1)])
  obtain m2 where m2: "gasnete_memvec_unpack noempty list bs first_offset last_len m1 = Some m2"
    using assms(1) by (auto simp: gasnete_memvec_pack_def gasnete_memvec_unpack_def)
  have s: "m2 = store (zip ?cs (map m ?cs)) m1" using unpack_store [OF m2] bs by simp
  have "m2 a = m a" if "a \<in> set ?cs" for a
  proof -
    have "(a, m a) \<in> set (zip ?cs (map m ?cs))" using that by (auto simp: in_set_conv_nth)
    then show ?thesis unfolding s using assms(2) by (intro store_cell) simp_all
  qed
  moreover have "m2 a = m1 a" if "a \<notin> set ?cs" for a
    unfolding s using that by (intro store_off) (auto dest: set_zip_leftD)
  ultimately show ?thesis using m2 by auto
qed

lemma memvec_roundtrip_witness:
  "\<exists>m2. gasnete_memvec_unpack False [\<lparr>gex_addr = 4096, gex_len = 3\<rparr>, \<lparr>gex_addr = 8192, gex_len = 2\<rparr>] [7, 7, 7] 1 (Some 1) (\<lambda>a. 0) = Some m2 \<and> m2 8192 = 7 \<and> m2 8193 = 0"
proof -
  have "gasnete_memvec_pack False [\<lparr>gex_addr = 4096, gex_len = 3\<rparr>, \<lparr>gex_addr = 8192, gex_len = 2\<rparr>] 1 (Some 1) (\<lambda>a. 7) = Some [7, 7, 7]"
    by (simp add: gasnete_memvec_pack_def pack_ranges_def middle_ranges_def cells_def upt_rec)
  from memvec_roundtrip [OF this, of "\<lambda>a. 0"] show ?thesis
    by (auto simp: cut_vec_def cells_def upt_rec)
qed

text \<open>
  Within a node, when the target cells and the source cells are disjoint, the direct copies of the
  pieces are the transfer, where the addresses of the peer are seen at a fixed offset.
\<close>

theorem vector_memcpy_copies:
  assumes "vec_size dst = vec_size src"
    and "\<forall>x\<in>set (vec_cells (if isput then dst else src)). mapped x = x + k"
    and "set (map (\<lambda>x. if isput then x + k else x) (vec_cells dst)) \<inter>
       set (map (\<lambda>x. if isput then x else x + k) (vec_cells src)) = {}"
  shows "gasnete_vector_memcpy mapped isput dst src m =
     Some (store (zip (map (\<lambda>x. if isput then x + k else x) (vec_cells dst))
        (map (\<lambda>x. m (if isput then x else x + k)) (vec_cells src))) m)"
  using vector_memcpy_copy [OF assms(1) _ assms(3)] assms(2) by blast

lemma vector_memcpy_copies_witness:
  "gasnete_vector_memcpy (\<lambda>a. a + 65536) True [\<lparr>gex_addr = 4096, gex_len = 3\<rparr>, \<lparr>gex_addr = 8192, gex_len = 2\<rparr>] [\<lparr>gex_addr = 100, gex_len = 5\<rparr>] (\<lambda>a. 7) \<noteq> None"
  using vector_memcpy_copies [of "[\<lparr>gex_addr = 4096, gex_len = 3\<rparr>, \<lparr>gex_addr = 8192, gex_len = 2\<rparr>]" "[\<lparr>gex_addr = 100, gex_len = 5\<rparr>]" True "\<lambda>a. a + 65536" 65536 "\<lambda>a. 7"]
  by (simp add: cells_def upt_rec)

end
