(* ===== verification/Event_Ops.thy ===== *)
theory Event_Ops
  imports Gasnet_Prelude "HOL-Library.Monad_Syntax"
begin

text \<open>
  Events and operations (\<^verbatim>\<open>gasnet_event.c\<close>, \<^verbatim>\<open>gasnet_event_internal.h\<close>): the objects behind
  non-blocking operations, their event bytes and counters, their free lists, and the operations on
  them. The build is the one with assertions (\<open>GASNET_DEBUG\<close>), where the type of a root event says
  whether its object is free, with local completion events (\<open>GASNETE_HAVE_LC\<close>) and with threads.
  Objects lie at addresses (natural numbers); one record serves both kinds, and the counters are
  used by implicit ones only. A failed assertion is \<open>None\<close>. The lists freed by other threads are
  locked in the code: each of their uses is one step.
\<close>

section \<open>Objects\<close>

definition GASNETE_OP_EVENTS :: nat where
  "GASNETE_OP_EVENTS = 6"

definition EVENT_TYPE_MASK :: u8 where
  "EVENT_TYPE_MASK = 0x0F"

definition EVENT_LIVE_MASK :: u8 where
  "EVENT_LIVE_MASK = 0x80"

definition event_type_free_eop :: u8 where "event_type_free_eop = 0"
definition event_type_free_iop :: u8 where "event_type_free_iop = 1"
definition event_type_pendingfree_eop :: u8 where "event_type_pendingfree_eop = 2"
definition event_type_pendingfree_iop :: u8 where "event_type_pendingfree_iop = 3"
definition event_type_eop :: u8 where "event_type_eop = 4"
definition event_type_iop :: u8 where "event_type_iop = 5"
definition event_type_lc :: u8 where "event_type_lc = 6"
definition event_type_lc_now :: u8 where "event_type_lc_now = 7"

lemmas event_types = event_type_free_eop_def event_type_free_iop_def event_type_pendingfree_eop_def
  event_type_pendingfree_iop_def event_type_eop_def event_type_iop_def event_type_lc_def event_type_lc_now_def

text \<open>The categories of implicit operations, and their places among the events.\<close>

datatype category = Put | Alc | Get | Rmw

fun event_index :: "category \<Rightarrow> nat" where
  "event_index Put = 0" | "event_index Alc = 1" | "event_index Get = 2" | "event_index Rmw = 3"

record gasnete_op =
  event :: "u8 list"
  threadidx :: nat
  op_next :: "nat option"
  initiated_cnt :: "category \<Rightarrow> u32"
  completed_cnt :: "category \<Rightarrow> u32"

record threaddata =
  eop_free :: "nat option"
  eop_num_bufs :: nat
  foreign_eops :: "nat option"
  current_iop :: nat
  iop_num :: nat
  iop_free :: "nat option"
  foreign_iops :: "nat option"

record op_state =
  ops :: "nat \<Rightarrow> gasnete_op option"
  next_addr :: nat                            \<comment> \<open>no object lies here or further up\<close>
  threads :: "nat \<Rightarrow> threaddata"

definition set_op :: "nat \<Rightarrow> gasnete_op \<Rightarrow> op_state \<Rightarrow> op_state" where
  "set_op a g s = s\<lparr>ops := (ops s)(a \<mapsto> g)\<rparr>"

definition set_thread :: "nat \<Rightarrow> threaddata \<Rightarrow> op_state \<Rightarrow> op_state" where
  "set_thread t d s = s\<lparr>threads := (threads s)(t := d)\<rparr>"

definition check :: "bool \<Rightarrow> unit option" where
  "check b = (if b then Some () else None)"

section \<open>Events of an object\<close>

definition EVENT_TYPE :: "gasnete_op \<Rightarrow> nat \<Rightarrow> u8" where
  "EVENT_TYPE g i = event g ! i AND EVENT_TYPE_MASK"

abbreviation OPTYPE :: "gasnete_op \<Rightarrow> u8" where
  "OPTYPE g \<equiv> EVENT_TYPE g 0"

definition EVENT_DONE :: "gasnete_op \<Rightarrow> nat \<Rightarrow> bool" where
  "EVENT_DONE g i \<longleftrightarrow> \<not> c_and (event g ! i) EVENT_LIVE_MASK"

definition EVENT_ANY_LIVE :: "gasnete_op \<Rightarrow> bool" where
  "EVENT_ANY_LIVE g \<longleftrightarrow> list_ex (\<lambda>b. c_and b EVENT_LIVE_MASK) (event g)"

definition set_event :: "nat \<Rightarrow> u8 \<Rightarrow> gasnete_op \<Rightarrow> gasnete_op" where
  "set_event i b g = g\<lparr>event := (event g)[i := b]\<rparr>"

definition SET_EVENT_TYPE :: "nat \<Rightarrow> u8 \<Rightarrow> gasnete_op \<Rightarrow> gasnete_op option" where
  "SET_EVENT_TYPE i ty g =
     (if i < GASNETE_OP_EVENTS \<and> (EVENT_TYPE g i = 0 \<or> EVENT_TYPE g i = ty) \<and> ty = ty AND EVENT_TYPE_MASK
      then Some (set_event i (EVENT_LIVE_MASK OR ty) g) else None)"

definition SET_EVENT_DONE :: "nat \<Rightarrow> gasnete_op \<Rightarrow> gasnete_op option" where
  "SET_EVENT_DONE i g =
     (if i < GASNETE_OP_EVENTS \<and> \<not> EVENT_DONE g i then Some (set_event i (event g ! i AND NOT EVENT_LIVE_MASK) g) else None)"

definition GASNETE_EOP_DONE :: "gasnete_op \<Rightarrow> bool" where
  "GASNETE_EOP_DONE g = EVENT_DONE g 0"

definition GASNETE_EOP_LC_DONE :: "gasnete_op \<Rightarrow> bool" where
  "GASNETE_EOP_LC_DONE g = EVENT_DONE g 1"

text \<open>A change of one object by a function that may fail.\<close>

definition with_op :: "nat \<Rightarrow> (gasnete_op \<Rightarrow> gasnete_op option) \<Rightarrow> op_state \<Rightarrow> op_state option" where
  "with_op a f s = do { g \<leftarrow> ops s a; g' \<leftarrow> f g; Some (set_op a g' s) }"

section \<open>Explicit operations\<close>

definition GASNETE_EOP_CHUNKCNT :: nat where
  "GASNETE_EOP_CHUNKCNT = 256"

text \<open>A new chunk: its objects, linked in the order of their addresses, become the free list.\<close>

definition new_eop :: "nat \<Rightarrow> nat option \<Rightarrow> gasnete_op" where
  "new_eop t nx = \<lparr>event = event_type_free_eop # replicate (GASNETE_OP_EVENTS - 1) 0, threadidx = t, op_next = nx,
     initiated_cnt = (\<lambda>c. 0), completed_cnt = (\<lambda>c. 0)\<rparr>"

definition gasnete_eop_alloc :: "nat \<Rightarrow> op_state \<Rightarrow> op_state option" where
  "gasnete_eop_alloc t s =
     (let b = next_addr s; n = GASNETE_EOP_CHUNKCNT; d = threads s t in do {
        check (eop_free d = None);
        Some (set_thread t (d\<lparr>eop_num_bufs := eop_num_bufs d + 1, eop_free := Some b\<rparr>)
          (s\<lparr>ops := (\<lambda>a. if b \<le> a \<and> a < b + n then Some (new_eop t (if a + 1 < b + n then Some (a + 1) else None)) else ops s a),
             next_addr := b + n\<rparr>)) })"

text \<open>The free list, or what other threads have freed, or a new chunk.\<close>

definition refill_eops :: "nat \<Rightarrow> op_state \<Rightarrow> op_state option" where
  "refill_eops t s =
     (let d = threads s t in
      if eop_free d \<noteq> None then Some s
      else if foreign_eops d \<noteq> None
      then Some (set_thread t (d\<lparr>eop_free := foreign_eops d, foreign_eops := None\<rparr>) s)
      else gasnete_eop_alloc t s)"

definition eop_new_raw :: "nat \<Rightarrow> op_state \<Rightarrow> (nat \<times> op_state) option" where
  "eop_new_raw t s = do {
     s1 \<leftarrow> refill_eops t s;
     a \<leftarrow> eop_free (threads s1 t);
     g \<leftarrow> ops s1 a;
     let s2 = set_thread t ((threads s1 t)\<lparr>eop_free := op_next g\<rparr>) s1;
     check (threadidx g = t \<and> event g ! 0 = event_type_free_eop);
     let g' = set_event 0 event_type_eop g;
     check (GASNETE_EOP_DONE g' \<and> GASNETE_EOP_LC_DONE g');
     Some (a, set_op a g' s2) }"

definition gasnete_eop_new :: "nat \<Rightarrow> op_state \<Rightarrow> (nat \<times> op_state) option" where
  "gasnete_eop_new t s = do {
     (a, s1) \<leftarrow> eop_new_raw t s;
     s2 \<leftarrow> with_op a (SET_EVENT_TYPE 0 event_type_eop) s1;
     Some (a, s2) }"

definition GASNETE_EOP_LC_START :: "nat \<Rightarrow> op_state \<Rightarrow> op_state option" where
  "GASNETE_EOP_LC_START a = with_op a (SET_EVENT_TYPE (event_index Alc) event_type_lc)"

definition gasnete_eop_new_alc :: "nat \<Rightarrow> op_state \<Rightarrow> (nat \<times> op_state) option" where
  "gasnete_eop_new_alc t s = do {
     (a, s1) \<leftarrow> eop_new_raw t s;
     s2 \<leftarrow> GASNETE_EOP_LC_START a s1;
     Some (a, s2) }"

definition GASNETE_EOP_MARKDONE :: "nat \<Rightarrow> op_state \<Rightarrow> op_state option" where
  "GASNETE_EOP_MARKDONE a = with_op a (SET_EVENT_DONE 0)"

definition GASNETE_EOP_LC_FINISH :: "nat \<Rightarrow> op_state \<Rightarrow> op_state option" where
  "GASNETE_EOP_LC_FINISH a = with_op a (SET_EVENT_DONE (event_index Alc))"

definition gasnete_eop_check :: "gasnete_op \<Rightarrow> bool" where
  "gasnete_eop_check g \<longleftrightarrow> OPTYPE g = event_type_eop"

definition gasneti_eop_markdone :: "nat \<Rightarrow> op_state \<Rightarrow> op_state option" where
  "gasneti_eop_markdone a s = do { g \<leftarrow> ops s a; check (gasnete_eop_check g); GASNETE_EOP_MARKDONE a s }"

text \<open>Back to a list of the thread that owns the object.\<close>

definition gasnete_eop_prep_free :: "gasnete_op \<Rightarrow> gasnete_op option" where
  "gasnete_eop_prep_free g = do {
     check (gasnete_eop_check g \<and> \<not> EVENT_ANY_LIVE g \<and> GASNETE_EOP_DONE g \<and> GASNETE_EOP_LC_DONE g \<and> event g ! 0 = event_type_eop);
     Some (set_event 0 event_type_pendingfree_eop g) }"

definition push_eop :: "nat \<Rightarrow> nat \<Rightarrow> gasnete_op \<Rightarrow> op_state \<Rightarrow> op_state" where
  "push_eop mythread a g s = (let u = threadidx g; d = threads s u in
     if u = mythread then set_thread u (d\<lparr>eop_free := Some a\<rparr>) (set_op a (g\<lparr>op_next := eop_free d\<rparr>) s)
     else set_thread u (d\<lparr>foreign_eops := Some a\<rparr>) (set_op a (g\<lparr>op_next := foreign_eops d\<rparr>) s))"

definition gasnete_eop_free :: "nat \<Rightarrow> nat \<Rightarrow> op_state \<Rightarrow> op_state option" where
  "gasnete_eop_free mythread a s = do {
     g \<leftarrow> ops s a;
     g1 \<leftarrow> gasnete_eop_prep_free g;
     check (event g1 ! 0 = event_type_pendingfree_eop);
     Some (push_eop mythread a (set_event 0 event_type_free_eop g1) s) }"

section \<open>Implicit operations\<close>

text \<open>
  The check of one object. The code's macro goes on to the region below on the stack, if there is one;
  \<open>stack_checks\<close> in \<open>Event_Inv\<close> shows that all of those pass.
\<close>

definition gasnete_iop_check :: "gasnete_op \<Rightarrow> bool" where
  "gasnete_iop_check g \<longleftrightarrow> (OPTYPE g = event_type_iop \<or> OPTYPE g = event_type_free_iop) \<and>
     list_all (\<lambda>c. initiated_cnt g c - completed_cnt g c < 0x7FFFFFFF) [Put, Get, Rmw, Alc]"

definition gasnete_iop_alloc :: "nat \<Rightarrow> op_state \<Rightarrow> nat \<times> op_state" where
  "gasnete_iop_alloc t s =
     (let a = next_addr s; d = threads s t;
          g = \<lparr>event = event_type_iop # replicate (GASNETE_OP_EVENTS - 1) 0, threadidx = t, op_next = None,
               initiated_cnt = (\<lambda>c. 0), completed_cnt = (\<lambda>c. 0)\<rparr>
      in (a, set_thread t (d\<lparr>iop_num := iop_num d + 1\<rparr>) (set_op a g (s\<lparr>next_addr := a + 1\<rparr>))))"

definition refill_iops :: "nat \<Rightarrow> op_state \<Rightarrow> nat option \<times> op_state" where
  "refill_iops t s = (let d = threads s t in
     if iop_free d \<noteq> None then (iop_free d, s)
     else (foreign_iops d, set_thread t (d\<lparr>foreign_iops := None\<rparr>) s))"

text \<open>With statistics or tracing compiled in, two pairs of counters start afresh.\<close>

definition reset_counts :: "bool \<Rightarrow> gasnete_op \<Rightarrow> gasnete_op" where
  "reset_counts stats g = (if stats
     then g\<lparr>initiated_cnt := (initiated_cnt g)(Get := 0, Put := 0), completed_cnt := (completed_cnt g)(Get := 0, Put := 0)\<rparr>
     else g)"

definition gasnete_iop_new :: "bool \<Rightarrow> nat \<Rightarrow> op_state \<Rightarrow> (nat \<times> op_state) option" where
  "gasnete_iop_new stats t s = do {
     (a, s2) \<leftarrow> (case refill_iops t s of
        (Some a, s1) \<Rightarrow> do {
          g \<leftarrow> ops s1 a;
          check (threadidx g = t \<and> OPTYPE g = event_type_free_iop);
          Some (a, set_thread t ((threads s1 t)\<lparr>iop_free := op_next g\<rparr>)
            (set_op a (reset_counts stats (set_event 0 event_type_iop g)) s1)) }
      | (None, s1) \<Rightarrow> Some (gasnete_iop_alloc t s1));
     g \<leftarrow> ops s2 a;
     check (gasnete_iop_check g);
     Some (a, set_op a (g\<lparr>op_next := None\<rparr>) s2) }"

definition GASNETE_IOP_CNTDONE :: "gasnete_op \<Rightarrow> category \<Rightarrow> bool" where
  "GASNETE_IOP_CNTDONE g c \<longleftrightarrow> completed_cnt g c = initiated_cnt g c"

definition all_counts_done :: "gasnete_op \<Rightarrow> bool" where
  "all_counts_done g = list_all (GASNETE_IOP_CNTDONE g) [Get, Put, Rmw, Alc]"

definition gasnete_iop_prep_free :: "nat \<Rightarrow> gasnete_op \<Rightarrow> gasnete_op option" where
  "gasnete_iop_prep_free a g = do {
     check (gasnete_iop_check g \<and> \<not> EVENT_ANY_LIVE g \<and> all_counts_done g \<and> op_next g = Some a \<and> event g ! 0 = event_type_iop);
     Some (set_event 0 event_type_pendingfree_iop g) }"

definition push_iop :: "nat \<Rightarrow> nat \<Rightarrow> gasnete_op \<Rightarrow> op_state \<Rightarrow> op_state" where
  "push_iop mythread a g s = (let u = threadidx g; d = threads s u in
     if u = mythread then set_thread u (d\<lparr>iop_free := Some a\<rparr>) (set_op a (g\<lparr>op_next := iop_free d\<rparr>) s)
     else set_thread u (d\<lparr>foreign_iops := Some a\<rparr>) (set_op a (g\<lparr>op_next := foreign_iops d\<rparr>) s))"

definition gasnete_iop_free :: "nat \<Rightarrow> nat \<Rightarrow> op_state \<Rightarrow> op_state option" where
  "gasnete_iop_free mythread a s = do {
     g \<leftarrow> ops s a;
     g1 \<leftarrow> gasnete_iop_prep_free a g;
     check (event g1 ! 0 = event_type_pendingfree_iop);
     Some (push_iop mythread a (set_event 0 event_type_free_iop g1) s) }"

text \<open>More operations of a category, and their end: the counter is added to in one step and then
  compared, which other threads may do in between.\<close>

definition GASNETE_IOP_CNT_START :: "category \<Rightarrow> nat \<Rightarrow> gasnete_op \<Rightarrow> gasnete_op" where
  "GASNETE_IOP_CNT_START c n g = g\<lparr>initiated_cnt := (initiated_cnt g)(c := initiated_cnt g c + of_nat n)\<rparr>"

definition cnt_finish_add :: "category \<Rightarrow> nat \<Rightarrow> gasnete_op \<Rightarrow> gasnete_op" where
  "cnt_finish_add c n g = g\<lparr>completed_cnt := (completed_cnt g)(c := completed_cnt g c + of_nat n)\<rparr>"

definition cnt_finish_compare :: "category \<Rightarrow> u32 \<Rightarrow> gasnete_op \<Rightarrow> gasnete_op option" where
  "cnt_finish_compare c completed g =
     (if completed = initiated_cnt g c then SET_EVENT_DONE (event_index c) g else Some g)"

definition GASNETE_IOP_CNT_FINISH_REG :: "category \<Rightarrow> nat \<Rightarrow> gasnete_op \<Rightarrow> gasnete_op option" where
  "GASNETE_IOP_CNT_FINISH_REG c n g = do {
     check (op_next g \<noteq> None);
     let g1 = cnt_finish_add c n g;
     cnt_finish_compare c (completed_cnt g1 c) g1 }"

definition GASNETE_IOP_CNT_FINISH :: "category \<Rightarrow> nat \<Rightarrow> gasnete_op \<Rightarrow> gasnete_op option" where
  "GASNETE_IOP_CNT_FINISH c n g =
     (if op_next g \<noteq> None then GASNETE_IOP_CNT_FINISH_REG c n g else Some (cnt_finish_add c n g))"

definition gasneti_iop_register :: "nat \<Rightarrow> category \<Rightarrow> nat \<Rightarrow> op_state \<Rightarrow> (nat \<times> op_state) option" where
  "gasneti_iop_register t c n s = (let a = current_iop (threads s t) in do {
     g \<leftarrow> ops s a;
     let g1 = GASNETE_IOP_CNT_START c n g;
     check (gasnete_iop_check g \<and> gasnete_iop_check g1);
     Some (a, set_op a g1 s) })"

definition gasneti_iop_markdone :: "category \<Rightarrow> nat \<Rightarrow> nat \<Rightarrow> op_state \<Rightarrow> op_state option" where
  "gasneti_iop_markdone c n a s = do {
     s1 \<leftarrow> with_op a (GASNETE_IOP_CNT_FINISH c n) s;
     g \<leftarrow> ops s1 a;
     check (gasnete_iop_check g);
     Some s1 }"

definition gasneti_op_is_eop :: "gasnete_op \<Rightarrow> bool" where
  "gasneti_op_is_eop g \<longleftrightarrow> OPTYPE g = event_type_eop"

definition gasnete_op_markdone :: "bool \<Rightarrow> nat \<Rightarrow> op_state \<Rightarrow> op_state option" where
  "gasnete_op_markdone isget a s = do {
     g \<leftarrow> ops s a;
     if gasneti_op_is_eop g then do { check (gasnete_eop_check g); GASNETE_EOP_MARKDONE a s }
     else do { check (gasnete_iop_check g); with_op a (GASNETE_IOP_CNT_FINISH (if isget then Get else Put) 1) s } }"

section \<open>Access regions\<close>

definition gasnete_aop_create :: "bool \<Rightarrow> nat \<Rightarrow> op_state \<Rightarrow> (nat \<times> op_state) option" where
  "gasnete_aop_create stats t s = do {
     (a, s1) \<leftarrow> gasnete_iop_new stats t s;
     g \<leftarrow> ops s1 a;
     g1 \<leftarrow> SET_EVENT_TYPE (event_index Put) event_type_iop
       (GASNETE_IOP_CNT_START Rmw 1 (GASNETE_IOP_CNT_START Get 1 (GASNETE_IOP_CNT_START Put 1 g)));
     g2 \<leftarrow> SET_EVENT_TYPE (event_index Get) event_type_iop g1;
     g3 \<leftarrow> SET_EVENT_TYPE (event_index Rmw) event_type_iop g2;
     g4 \<leftarrow> SET_EVENT_TYPE (event_index Alc) event_type_lc (GASNETE_IOP_CNT_START Alc 1 g3);
     Some (a, set_op a (g4\<lparr>op_next := Some a\<rparr>) s1) }"

definition gasnete_aop_push :: "nat \<Rightarrow> nat \<Rightarrow> op_state \<Rightarrow> op_state option" where
  "gasnete_aop_push a t s = do {
     g \<leftarrow> ops s a;
     check (gasnete_iop_check g \<and> threadidx g = t \<and> op_next g = Some a);
     Some (set_thread t ((threads s t)\<lparr>current_iop := a\<rparr>) (set_op a (g\<lparr>op_next := Some (current_iop (threads s t))\<rparr>) s)) }"

definition gasnete_aop_pop :: "nat \<Rightarrow> op_state \<Rightarrow> (nat \<times> op_state) option" where
  "gasnete_aop_pop t s = (let a = current_iop (threads s t) in do {
     g \<leftarrow> ops s a;
     b \<leftarrow> op_next g;
     Some (a, set_thread t ((threads s t)\<lparr>current_iop := b\<rparr>) (set_op a (g\<lparr>op_next := Some a\<rparr>) s)) })"

definition gasnete_aop_to_event :: "nat \<Rightarrow> op_state \<Rightarrow> op_state option" where
  "gasnete_aop_to_event a s = do {
     g \<leftarrow> ops s a;
     check (op_next g = Some a);
     s1 \<leftarrow> with_op a (GASNETE_IOP_CNT_FINISH_REG Put 1) s;
     s2 \<leftarrow> with_op a (GASNETE_IOP_CNT_FINISH_REG Get 1) s1;
     s3 \<leftarrow> with_op a (GASNETE_IOP_CNT_FINISH_REG Rmw 1) s2;
     with_op a (GASNETE_IOP_CNT_FINISH_REG Alc 1) s3 }"

definition gasnete_begin_nbi_accessregion :: "bool \<Rightarrow> bool \<Rightarrow> nat \<Rightarrow> op_state \<Rightarrow> op_state option" where
  "gasnete_begin_nbi_accessregion stats allowrecursion t s = do {
     g \<leftarrow> ops s (current_iop (threads s t));
     check (allowrecursion \<or> op_next g = None);
     (a, s1) \<leftarrow> gasnete_aop_create stats t s;
     gasnete_aop_push a t s1 }"

definition gasnete_end_nbi_accessregion :: "nat \<Rightarrow> op_state \<Rightarrow> (nat \<times> op_state) option" where
  "gasnete_end_nbi_accessregion t s = do {
     (a, s1) \<leftarrow> gasnete_aop_pop t s;
     s2 \<leftarrow> gasnete_aop_to_event a s1;
     Some (a, s2) }"

section \<open>Synchronisation\<close>

text \<open>An event is an object and a number; 0 is the root event.\<close>

definition gasnete_event_check :: "gasnete_op \<Rightarrow> nat \<Rightarrow> bool" where
  "gasnete_event_check g i \<longleftrightarrow> i < GASNETE_OP_EVENTS \<and>
     (if OPTYPE g = event_type_eop then gasnete_eop_check g
      else if OPTYPE g = event_type_iop then gasnete_iop_check g
      else (OPTYPE g = event_type_pendingfree_eop \<or> OPTYPE g = event_type_pendingfree_iop) \<and> i \<noteq> 0)"

definition gasnete_op_try_free :: "nat \<Rightarrow> nat \<Rightarrow> nat \<Rightarrow> op_state \<Rightarrow> (bool \<times> op_state) option" where
  "gasnete_op_try_free mythread a i s = do {
     g \<leftarrow> ops s a;
     check (gasnete_event_check g i);
     if c_and (event g ! i) EVENT_LIVE_MASK then Some (False, s)
     else if i = 0
     then (if EVENT_ANY_LIVE g then Some (False, s)
           else map_option (Pair True)
             (if OPTYPE g = event_type_eop then gasnete_eop_free mythread a s else gasnete_iop_free mythread a s))
     else do { check (EVENT_DONE g i); Some (True, s) } }"

definition gasnete_test_syncnbi_mask :: "(category \<Rightarrow> bool) \<Rightarrow> nat \<Rightarrow> op_state \<Rightarrow> bool option" where
  "gasnete_test_syncnbi_mask ec t s = do {
     g \<leftarrow> ops s (current_iop (threads s t));
     check (threadidx g = t \<and> OPTYPE g = event_type_iop \<and> op_next g = None);
     Some (\<not> list_ex (\<lambda>c. \<not> GASNETE_IOP_CNTDONE g c \<and> ec c) [Alc, Put, Get, Rmw]) }"

definition gasnete_iop_isdone :: "gasnete_op \<Rightarrow> bool" where
  "gasnete_iop_isdone g = (if op_next g \<noteq> None then \<not> EVENT_ANY_LIVE g else all_counts_done g)"

definition gasnete_get_leaf_check :: "gasnete_op \<Rightarrow> category \<Rightarrow> bool" where
  "gasnete_get_leaf_check g c \<longleftrightarrow>
     OPTYPE g = event_type_iop \<and> gasnete_iop_check g \<and> op_next g \<noteq> None \<or>
     OPTYPE g = event_type_eop \<and> gasnete_eop_check g \<and> c = Alc"

definition gasnete_Event_QueryLeaf :: "nat option \<Rightarrow> category \<Rightarrow> op_state \<Rightarrow> (nat \<times> nat) option option" where
  "gasnete_Event_QueryLeaf root c s =
     (case root of None \<Rightarrow> Some None
      | Some a \<Rightarrow> do { g \<leftarrow> ops s a; check (gasnete_get_leaf_check g c); Some (Some (a, event_index c)) })"

text \<open>The state of a thread when it is first seen.\<close>

definition gasnete_init_threaddata :: "bool \<Rightarrow> nat \<Rightarrow> op_state \<Rightarrow> op_state option" where
  "gasnete_init_threaddata stats t s = do {
     (a, s1) \<leftarrow> gasnete_iop_new stats t (set_thread t \<lparr>eop_free = None, eop_num_bufs = 0, foreign_eops = None, current_iop = 0,
       iop_num = 0, iop_free = None, foreign_iops = None\<rparr> s);
     Some (set_thread t ((threads s1 t)\<lparr>current_iop := a\<rparr>) s1) }"

section \<open>Bytes and options\<close>

lemma check_simps [simp]: "check b = Some u \<longleftrightarrow> b" "check b = None \<longleftrightarrow> \<not> b"
  by (simp_all add: check_def)

lemma check_bind [simp]: "check b \<bind> f = (if b then f () else None)"
  by (simp add: check_def)

definition live :: "u8 \<Rightarrow> bool" where
  "live b \<longleftrightarrow> c_and b EVENT_LIVE_MASK"

definition ev_type :: "u8 \<Rightarrow> u8" where
  "ev_type b = b AND EVENT_TYPE_MASK"

lemma bit_live_mask: "bit EVENT_LIVE_MASK i \<longleftrightarrow> i = 7"
proof -
  have "EVENT_LIVE_MASK = push_bit 7 1" by (simp add: EVENT_LIVE_MASK_def push_bit_eq_mult)
  show ?thesis unfolding \<open>EVENT_LIVE_MASK = push_bit 7 1\<close> by (simp only: bit_push_bit_iff bit_1_iff) auto
qed

lemma bit_type_mask: "bit EVENT_TYPE_MASK i \<longleftrightarrow> i < 4"
proof -
  have "EVENT_TYPE_MASK = mask 4" by (simp add: EVENT_TYPE_MASK_def mask_eq_decr_exp)
  show ?thesis unfolding \<open>EVENT_TYPE_MASK = mask 4\<close> by (simp only: bit_mask_iff) auto
qed

lemmas mask_bits = bit_live_mask bit_type_mask bit_and_iff bit_or_iff bit_not_iff

lemma live_bit: "live b \<longleftrightarrow> bit b 7"
  by (auto simp: live_def c_and_def bit_eq_iff [of "b AND EVENT_LIVE_MASK"] mask_bits)

definition small_type :: "u8 \<Rightarrow> bool" where
  "small_type ty \<longleftrightarrow> ev_type ty = ty"

lemma small_types [simp]:
  "small_type 0" "small_type event_type_free_eop" "small_type event_type_free_iop" "small_type event_type_pendingfree_eop"
  "small_type event_type_pendingfree_iop" "small_type event_type_eop" "small_type event_type_iop" "small_type event_type_lc"
  by (simp_all add: small_type_def ev_type_def EVENT_TYPE_MASK_def event_types)

lemma small_type_bit: "small_type ty \<Longrightarrow> \<not> bit ty 7"
proof -
  assume "small_type ty"
  then have "bit ty 7 = bit (ev_type ty) 7" by (simp add: small_type_def)
  then show ?thesis by (simp add: ev_type_def mask_bits)
qed

lemma ev_type_small [simp]: "small_type ty \<Longrightarrow> ev_type ty = ty"
  by (simp add: small_type_def)

lemma small_not_live [simp]: "small_type ty \<Longrightarrow> \<not> live ty"
  by (simp add: live_bit small_type_bit)

lemma armed_byte [simp]:
  "live (EVENT_LIVE_MASK OR ty)" "small_type ty \<Longrightarrow> ev_type (EVENT_LIVE_MASK OR ty) = ty"
proof -
  show "live (EVENT_LIVE_MASK OR ty)" by (simp add: live_bit mask_bits)
  have "ev_type (EVENT_LIVE_MASK OR ty) = ev_type ty"
    unfolding ev_type_def by (rule bit_word_eqI) (auto simp: mask_bits)
  then show "small_type ty \<Longrightarrow> ev_type (EVENT_LIVE_MASK OR ty) = ty" by (simp add: small_type_def)
qed

lemma done_byte [simp]: "\<not> live (b AND NOT EVENT_LIVE_MASK)" "ev_type (b AND NOT EVENT_LIVE_MASK) = ev_type b"
proof -
  show "\<not> live (b AND NOT EVENT_LIVE_MASK)" by (simp add: live_bit mask_bits)
  show "ev_type (b AND NOT EVENT_LIVE_MASK) = ev_type b"
    unfolding ev_type_def by (rule bit_word_eqI) (auto simp: mask_bits)
qed

lemma event_views:
  "EVENT_TYPE g i = ev_type (event g ! i)" "EVENT_DONE g i \<longleftrightarrow> \<not> live (event g ! i)"
  "EVENT_ANY_LIVE g \<longleftrightarrow> (\<exists>b\<in>set (event g). live b)" "c_and b EVENT_LIVE_MASK \<longleftrightarrow> live b"
  by (simp_all add: EVENT_TYPE_def EVENT_DONE_def EVENT_ANY_LIVE_def ev_type_def live_def list_ex_iff)

lemma set_op_simps [simp]:
  "ops (set_op a g s) = (ops s)(a \<mapsto> g)" "next_addr (set_op a g s) = next_addr s" "threads (set_op a g s) = threads s"
  "ops (set_thread t d s) = ops s" "next_addr (set_thread t d s) = next_addr s" "threads (set_thread t d s) = (threads s)(t := d)"
  by (simp_all add: set_op_def set_thread_def)

lemma set_event_simps [simp]:
  "event (set_event i b g) = (event g)[i := b]" "threadidx (set_event i b g) = threadidx g" "op_next (set_event i b g) = op_next g"
  "initiated_cnt (set_event i b g) = initiated_cnt g" "completed_cnt (set_event i b g) = completed_cnt g"
  by (simp_all add: set_event_def)

lemma cnt_simps [simp]:
  "event (GASNETE_IOP_CNT_START c n g) = event g" "threadidx (GASNETE_IOP_CNT_START c n g) = threadidx g"
  "op_next (GASNETE_IOP_CNT_START c n g) = op_next g" "completed_cnt (GASNETE_IOP_CNT_START c n g) = completed_cnt g"
  "initiated_cnt (GASNETE_IOP_CNT_START c n g) = (initiated_cnt g)(c := initiated_cnt g c + of_nat n)"
  "event (cnt_finish_add c n g) = event g" "threadidx (cnt_finish_add c n g) = threadidx g"
  "op_next (cnt_finish_add c n g) = op_next g" "initiated_cnt (cnt_finish_add c n g) = initiated_cnt g"
  "completed_cnt (cnt_finish_add c n g) = (completed_cnt g)(c := completed_cnt g c + of_nat n)"
  by (simp_all add: GASNETE_IOP_CNT_START_def cnt_finish_add_def)

lemma with_op_Some: "with_op a f s = Some s' \<longleftrightarrow> (\<exists>g g'. ops s a = Some g \<and> f g = Some g' \<and> s' = set_op a g' s)"
  by (auto simp: with_op_def bind_eq_Some_conv)

end
