(* ===== verification/Event_System.thy ===== *)
theory Event_System
  imports Event_Ops
begin

text \<open>
  All threads of a process with their operations: threads appear, create, start, test and free
  operations, enter and leave access regions, and handlers of any thread finish operations. Beside the
  state of \<open>Event_Ops\<close> the system remembers what callers know: which objects they hold, which regions
  have not been closed, how many operations of each category are outstanding, and which finishing
  steps stand between their addition and their comparison.
\<close>

section \<open>The system\<close>

text \<open>A finishing step in progress: object, category, the total number of operations finished then,
  and the value of the counter that the addition returned.\<close>

type_synonym finish = "nat \<times> category \<times> nat \<times> u32"

record ev_sys =
  st :: op_state
  nthreads :: nat
  held :: "nat set"
  armed :: "nat set"
  pend :: "nat \<Rightarrow> category \<Rightarrow> nat"
  root_pend :: "nat \<Rightarrow> bool"
  lc_pend :: "nat \<Rightarrow> bool"
  finishing :: "finish set"
  started :: "nat \<Rightarrow> category \<Rightarrow> nat"
  finished :: "nat \<Rightarrow> category \<Rightarrow> nat"

definition no_thread :: threaddata where
  "no_thread = \<lparr>eop_free = None, eop_num_bufs = 0, foreign_eops = None, current_iop = 0, iop_num = 0, iop_free = None,
     foreign_iops = None\<rparr>"

definition ev_init :: ev_sys where
  "ev_init = \<lparr>st = \<lparr>ops = (\<lambda>a. None), next_addr = 0, threads = (\<lambda>t. no_thread)\<rparr>, nthreads = 0, held = {}, armed = {},
     pend = (\<lambda>a c. 0), root_pend = (\<lambda>a. False), lc_pend = (\<lambda>a. False), finishing = {},
     started = (\<lambda>a c. 0), finished = (\<lambda>a c. 0)\<rparr>"

datatype ev_act =
    NewThread
  | EopNew nat | EopNewAlc nat | EopLcStart nat | EopDone nat | EopLcDone nat
  | Register nat category nat
  | FinishAdd nat category nat | FinishCompare finish
  | AopCreate nat | AopPush nat nat | AopPop nat | AopToEvent nat
  | TestEvent nat nat nat

definition optype :: "ev_sys \<Rightarrow> nat \<Rightarrow> u8 option" where
  "optype s a = map_option OPTYPE (ops (st s) a)"

text \<open>
  What callers may do. Explicit operations end once; finishing counts no more than what was started;
  only objects that are held are tested. Counters are 32 bits wide: less than \<open>2 ^ 31 - 1\<close> operations are
  outstanding, and no handler rests between its two steps while \<open>2 ^ 32\<close> operations start.
\<close>

definition half_window :: "nat \<Rightarrow> nat \<Rightarrow> bool" where
  "half_window n m \<longleftrightarrow> int n < int m + 0x7FFFFFFF"

definition full_window :: "nat \<Rightarrow> nat \<Rightarrow> bool" where
  "full_window n m \<longleftrightarrow> int n < int m + 0x100000000"

lemma window_simps [simp]: "half_window n m \<longleftrightarrow> n < m + 0x7FFFFFFF" "full_window n m \<longleftrightarrow> n < m + 0x100000000"
  by (auto simp: half_window_def full_window_def)

definition room_to_start :: "ev_sys \<Rightarrow> nat \<Rightarrow> category \<Rightarrow> nat \<Rightarrow> bool" where
  "room_to_start s a c n \<longleftrightarrow> half_window (started s a c + n) (finished s a c) \<and>
     (\<forall>(b, d, v, w)\<in>finishing s. b = a \<and> d = c \<longrightarrow> full_window (started s a c + n) v)"

fun ev_allowed :: "ev_act \<Rightarrow> ev_sys \<Rightarrow> bool" where
  "ev_allowed NewThread s \<longleftrightarrow> True"
| "ev_allowed (EopNew t) s \<longleftrightarrow> t < nthreads s"
| "ev_allowed (EopNewAlc t) s \<longleftrightarrow> t < nthreads s"
| "ev_allowed (EopLcStart a) s \<longleftrightarrow> a \<in> held s \<and> optype s a = Some event_type_eop \<and> \<not> lc_pend s a"
| "ev_allowed (EopDone a) s \<longleftrightarrow> root_pend s a"
| "ev_allowed (EopLcDone a) s \<longleftrightarrow> lc_pend s a"
| "ev_allowed (Register t c n) s \<longleftrightarrow> t < nthreads s \<and> room_to_start s (current_iop (threads (st s) t)) c n"
| "ev_allowed (FinishAdd a c n) s \<longleftrightarrow> 0 < n \<and> n \<le> pend s a c"
| "ev_allowed (FinishCompare f) s \<longleftrightarrow> f \<in> finishing s"
| "ev_allowed (AopCreate t) s \<longleftrightarrow> t < nthreads s \<and> (\<forall>(b, d, v, w)\<in>finishing s. full_window (started s b d + 1) v)"
| "ev_allowed (AopPush t a) s \<longleftrightarrow> t < nthreads s \<and> a \<in> held s \<and> a \<in> armed s \<and> map_option threadidx (ops (st s) a) = Some t"
| "ev_allowed (AopPop t) s \<longleftrightarrow> t < nthreads s \<and> (case ops (st s) (current_iop (threads (st s) t)) of None \<Rightarrow> False | Some g \<Rightarrow> op_next g \<noteq> None)"
| "ev_allowed (AopToEvent a) s \<longleftrightarrow> a \<in> held s \<and> a \<in> armed s"
| "ev_allowed (TestEvent t a i) s \<longleftrightarrow> t < nthreads s \<and> a \<in> held s \<and> i < GASNETE_OP_EVENTS"

text \<open>What the code does; \<open>None\<close> when an assertion of it fails.\<close>

fun ev_do :: "bool \<Rightarrow> ev_act \<Rightarrow> ev_sys \<Rightarrow> ev_sys option" where
  "ev_do stats NewThread s =
     map_option (\<lambda>o1. s\<lparr>st := o1, nthreads := nthreads s + 1\<rparr>) (gasnete_init_threaddata stats (nthreads s) (st s))"
| "ev_do stats (EopNew t) s =
     map_option (\<lambda>(a, o1). s\<lparr>st := o1, held := insert a (held s), root_pend := (root_pend s)(a := True)\<rparr>) (gasnete_eop_new t (st s))"
| "ev_do stats (EopNewAlc t) s =
     map_option (\<lambda>(a, o1). s\<lparr>st := o1, held := insert a (held s), lc_pend := (lc_pend s)(a := True)\<rparr>) (gasnete_eop_new_alc t (st s))"
| "ev_do stats (EopLcStart a) s =
     map_option (\<lambda>o1. s\<lparr>st := o1, lc_pend := (lc_pend s)(a := True)\<rparr>) (GASNETE_EOP_LC_START a (st s))"
| "ev_do stats (EopDone a) s =
     map_option (\<lambda>o1. s\<lparr>st := o1, root_pend := (root_pend s)(a := False)\<rparr>) (gasneti_eop_markdone a (st s))"
| "ev_do stats (EopLcDone a) s =
     map_option (\<lambda>o1. s\<lparr>st := o1, lc_pend := (lc_pend s)(a := False)\<rparr>) (GASNETE_EOP_LC_FINISH a (st s))"
| "ev_do stats (Register t c n) s =
     map_option (\<lambda>(a, o1). s\<lparr>st := o1, pend := (pend s)(a := (pend s a)(c := pend s a c + n)),
         started := (started s)(a := (started s a)(c := started s a c + n))\<rparr>) (gasneti_iop_register t c n (st s))"
| "ev_do stats (FinishAdd a c n) s =
     (case ops (st s) a of None \<Rightarrow> None
      | Some g \<Rightarrow>
          let g1 = cnt_finish_add c n g; v = finished s a c + n in
          Some (s\<lparr>st := set_op a g1 (st s), pend := (pend s)(a := (pend s a)(c := pend s a c - n)),
            finished := (finished s)(a := (finished s a)(c := v)),
            finishing := (if op_next g \<noteq> None then insert (a, c, v, completed_cnt g1 c) (finishing s) else finishing s)\<rparr>))"
| "ev_do stats (FinishCompare f) s =
     (case f of (a, c, v, w) \<Rightarrow>
        map_option (\<lambda>o1. s\<lparr>st := o1, finishing := finishing s - {f}\<rparr>) (with_op a (cnt_finish_compare c w) (st s)))"
| "ev_do stats (AopCreate t) s =
     map_option (\<lambda>(a, o1). s\<lparr>st := o1, held := insert a (held s), armed := insert a (armed s),
         started := (started s)(a := (\<lambda>c. started s a c + 1))\<rparr>) (gasnete_aop_create stats t (st s))"
| "ev_do stats (AopPush t a) s = map_option (\<lambda>o1. s\<lparr>st := o1, held := held s - {a}\<rparr>) (gasnete_aop_push a t (st s))"
| "ev_do stats (AopPop t) s = map_option (\<lambda>(a, o1). s\<lparr>st := o1, held := insert a (held s)\<rparr>) (gasnete_aop_pop t (st s))"
| "ev_do stats (AopToEvent a) s =
     (case ops (st s) a of None \<Rightarrow> None
      | Some g \<Rightarrow> if op_next g = Some a
          then Some (s\<lparr>armed := armed s - {a}, pend := (pend s)(a := (\<lambda>c. pend s a c + 1))\<rparr>) else None)"
| "ev_do stats (TestEvent t a i) s =
     map_option (\<lambda>(ok, o1). s\<lparr>st := o1, held := (if ok \<and> i = 0 then held s - {a} else held s)\<rparr>) (gasnete_op_try_free t a i (st s))"

inductive ev_reach :: "bool \<Rightarrow> ev_sys \<Rightarrow> bool" for stats where
  ev_start: "ev_reach stats ev_init"
| ev_step: "ev_reach stats s \<Longrightarrow> ev_allowed act s \<Longrightarrow> ev_do stats act s = Some s' \<Longrightarrow> ev_reach stats s'"

section \<open>Lists in memory\<close>

fun chain :: "(nat \<Rightarrow> nat option option) \<Rightarrow> nat option \<Rightarrow> nat list \<Rightarrow> bool" where
  "chain nx p [] \<longleftrightarrow> p = None"
| "chain nx p (x # xs) \<longleftrightarrow> p = Some x \<and> (\<exists>q. nx x = Some q \<and> chain nx q xs)"

lemma chain_cong: "chain nx p xs \<Longrightarrow> (\<And>x. x \<in> set xs \<Longrightarrow> nx' x = nx x) \<Longrightarrow> chain nx' p xs"
  by (induction xs arbitrary: p) auto

lemma ev_chain_head: "chain nx p xs \<Longrightarrow> p = (case xs of [] \<Rightarrow> None | x # _ \<Rightarrow> Some x)"
  by (cases xs) auto

lemma chain_mem: "chain nx p xs \<Longrightarrow> x \<in> set xs \<Longrightarrow> nx x \<noteq> None"
  by (induction xs arbitrary: p) auto

lemma chain_append: "chain nx p (xs @ x # ys) \<Longrightarrow> chain nx (Some x) (x # ys)"
  by (induction xs arbitrary: p) auto

lemma chain_last: "chain nx p xs \<Longrightarrow> xs \<noteq> [] \<Longrightarrow> nx (last xs) = Some None"
  by (induction xs arbitrary: p) auto

lemma chain_inner: "chain nx p xs \<Longrightarrow> x \<in> set xs \<Longrightarrow> x \<noteq> last xs \<Longrightarrow> \<exists>y. nx x = Some (Some y)"
  by (induction xs arbitrary: p) (auto split: if_splits dest: ev_chain_head split: list.splits)

text \<open>The lists of the threads: free and foreign explicit and implicit operations, and the stack of regions.\<close>

datatype list_kind = FreeE | ForE | FreeI | ForI | StackI

fun list_head :: "list_kind \<Rightarrow> threaddata \<Rightarrow> nat option" where
  "list_head FreeE d = eop_free d"
| "list_head ForE d = foreign_eops d"
| "list_head FreeI d = iop_free d"
| "list_head ForI d = foreign_iops d"
| "list_head StackI d = Some (current_iop d)"

type_synonym ev_lists = "list_kind \<Rightarrow> nat \<Rightarrow> nat list"

definition nexts :: "op_state \<Rightarrow> nat \<Rightarrow> nat option option" where
  "nexts o1 a = map_option op_next (ops o1 a)"

definition inv_lists :: "ev_lists \<Rightarrow> ev_sys \<Rightarrow> bool" where
  "inv_lists L s \<longleftrightarrow>
     (\<forall>k t. t < nthreads s \<longrightarrow> chain (nexts (st s)) (list_head k (threads (st s) t)) (L k t)) \<and>
     (\<forall>k t. nthreads s \<le> t \<longrightarrow> L k t = []) \<and>
     (\<forall>k t. distinct (L k t) \<and> set (L k t) \<inter> held s = {}) \<and>
     (\<forall>k t k' t'. (k, t) \<noteq> (k', t') \<longrightarrow> set (L k t) \<inter> set (L k' t') = {}) \<and>
     (\<forall>t<nthreads s. L StackI t \<noteq> []) \<and>
     (\<forall>a\<in>held s. ops (st s) a \<noteq> None) \<and>
     (\<forall>a. ops (st s) a \<noteq> None \<longrightarrow> a < next_addr (st s) \<and> (a \<in> held s \<or> (\<exists>k t. a \<in> set (L k t))))"

definition implicit :: "ev_lists \<Rightarrow> nat \<Rightarrow> bool" where
  "implicit L a \<longleftrightarrow> (\<exists>t. L StackI t \<noteq> [] \<and> a = last (L StackI t))"

definition on_free :: "ev_lists \<Rightarrow> nat \<Rightarrow> bool" where
  "on_free L a \<longleftrightarrow> (\<exists>k t. k \<noteq> StackI \<and> a \<in> set (L k t))"

section \<open>Contents of objects\<close>

definition ev_byte :: "u8 \<Rightarrow> bool \<Rightarrow> u8" where
  "ev_byte ty l = (if l then EVENT_LIVE_MASK OR ty else ty)"

definition eop_ok :: "bool \<Rightarrow> bool \<Rightarrow> gasnete_op \<Rightarrow> bool" where
  "eop_ok rp lp g \<longleftrightarrow> (\<exists>b0 b1. event g = [b0, b1, 0, 0, 0, 0] \<and> (b0 = ev_byte event_type_eop rp \<or> b0 = event_type_free_eop \<and> \<not> rp) \<and>
     (b1 = ev_byte event_type_lc lp \<or> b1 = 0 \<and> \<not> lp))"

definition iop_ok :: "(category \<Rightarrow> bool) \<Rightarrow> gasnete_op \<Rightarrow> bool" where
  "iop_ok lv g \<longleftrightarrow> (\<exists>b0 b1 b2 b3. event g = [b0, b1, b2, b3, 0, 0] \<and>
     (b0 = ev_byte event_type_iop (lv Put) \<or> b0 = event_type_free_iop \<and> \<not> lv Put) \<and>
     (b1 = ev_byte event_type_lc (lv Alc) \<or> b1 = 0 \<and> \<not> lv Alc) \<and>
     (b2 = ev_byte event_type_iop (lv Get) \<or> b2 = 0 \<and> \<not> lv Get) \<and>
     (b3 = ev_byte event_type_iop (lv Rmw) \<or> b3 = 0 \<and> \<not> lv Rmw))"

lemma ev_byte_simps [simp]:
  "small_type ty \<Longrightarrow> live (ev_byte ty l) = l" "small_type ty \<Longrightarrow> ev_type (ev_byte ty l) = ty" "ev_byte ty False = ty"
  "ev_byte ty True = EVENT_LIVE_MASK OR ty" "small_type ty \<Longrightarrow> ev_byte ty l AND NOT EVENT_LIVE_MASK = ty"
proof -
  show "small_type ty \<Longrightarrow> live (ev_byte ty l) = l" "small_type ty \<Longrightarrow> ev_type (ev_byte ty l) = ty" "ev_byte ty False = ty"
    "ev_byte ty True = EVENT_LIVE_MASK OR ty"
    by (auto simp: ev_byte_def)
  assume "small_type ty"
  then have "\<not> bit ty 7" by (rule small_type_bit)
  then show "ev_byte ty l AND NOT EVENT_LIVE_MASK = ty"
    by (intro bit_word_eqI) (auto simp: ev_byte_def mask_bits)
qed

definition counts_ok :: "ev_sys \<Rightarrow> nat \<Rightarrow> gasnete_op \<Rightarrow> bool" where
  "counts_ok s a g \<longleftrightarrow> (\<forall>c. initiated_cnt g c = of_nat (started s a c) \<and> completed_cnt g c = of_nat (finished s a c) \<and>
     started s a c = finished s a c + pend s a c + (if a \<in> armed s then 1 else 0) \<and>
     started s a c < finished s a c + 0x7FFFFFFF)"

definition finishing_ok :: "ev_sys \<Rightarrow> bool" where
  "finishing_ok s \<longleftrightarrow> (\<forall>(a, c, v, w)\<in>finishing s. w = of_nat v \<and> 0 < v \<and> v \<le> finished s a c \<and>
     started s a c < v + 0x100000000 \<and> ops (st s) a \<noteq> None)"

text \<open>An event of a region is live while its operations are, and until the last one has compared.\<close>

definition event_live :: "ev_sys \<Rightarrow> nat \<Rightarrow> category \<Rightarrow> bool" where
  "event_live s a c \<longleftrightarrow> started s a c \<noteq> finished s a c \<or> (\<exists>w. (a, c, started s a c, w) \<in> finishing s)"

definition is_eop :: "gasnete_op \<Rightarrow> bool" where
  "is_eop g \<longleftrightarrow> ev_type (event g ! 0) = event_type_eop \<or> event g ! 0 = event_type_free_eop"

definition obj_ok :: "ev_lists \<Rightarrow> ev_sys \<Rightarrow> nat \<Rightarrow> gasnete_op \<Rightarrow> bool" where
  "obj_ok L s a g \<longleftrightarrow> threadidx g < nthreads s \<and>
     (if is_eop g then eop_ok (root_pend s a) (lc_pend s a) g \<and> a \<notin> armed s \<and> (\<forall>c. pend s a c = 0 \<and> started s a c = 0 \<and> finished s a c = 0)
      else counts_ok s a g \<and> \<not> root_pend s a \<and> \<not> lc_pend s a \<and>
        iop_ok (if implicit L a then (\<lambda>c. False) else event_live s a) g) \<and>
     (a \<in> held s \<longrightarrow> OPTYPE g = (if is_eop g then event_type_eop else event_type_iop) \<and> (\<not> is_eop g \<longrightarrow> op_next g = Some a)) \<and>
     (\<forall>t. a \<in> set (L FreeE t) \<or> a \<in> set (L ForE t) \<longrightarrow> event g ! 0 = event_type_free_eop \<and> \<not> lc_pend s a \<and> threadidx g = t) \<and>
     (\<forall>t. a \<in> set (L FreeI t) \<or> a \<in> set (L ForI t) \<longrightarrow> event g ! 0 = event_type_free_iop \<and> a \<notin> armed s \<and>
        (\<forall>c. \<not> event_live s a c) \<and> threadidx g = t) \<and>
     (\<forall>t. a \<in> set (L StackI t) \<longrightarrow> \<not> is_eop g \<and> OPTYPE g = event_type_iop \<and> threadidx g = t \<and>
        (if implicit L a then a \<notin> armed s \<and> (\<forall>c v w. (a, c, v, w) \<notin> finishing s) else a \<in> armed s))"

definition ghosts_ok :: "ev_sys \<Rightarrow> bool" where
  "ghosts_ok s \<longleftrightarrow> (\<forall>a. ops (st s) a = None \<longrightarrow> \<not> root_pend s a \<and> \<not> lc_pend s a \<and> a \<notin> armed s \<and>
     (\<forall>c. pend s a c = 0 \<and> started s a c = 0 \<and> finished s a c = 0))"

definition ev_inv :: "ev_lists \<Rightarrow> ev_sys \<Rightarrow> bool" where
  "ev_inv L s \<longleftrightarrow> inv_lists L s \<and> (\<forall>a g. ops (st s) a = Some g \<longrightarrow> obj_ok L s a g) \<and> finishing_ok s \<and> ghosts_ok s"

end
