(* ===== verification/Event_Inv.thy ===== *)
theory Event_Inv
  imports Event_System
begin

text \<open>
  The invariant of the event system and the actions that change the contents of one object: starting
  and finishing operations. No assertion fails in them.
\<close>

section \<open>Frames\<close>

lemma event_live_cong:
  assumes "started s' b = started s b" and "finished s' b = finished s b"
    and "\<And>c v w. (b, c, v, w) \<in> finishing s' \<longleftrightarrow> (b, c, v, w) \<in> finishing s"
  shows "event_live s' b = event_live s b"
  by (rule ext) (simp add: event_live_def assms)

lemma obj_ok_cong:
  assumes "obj_ok L s b g" and "nthreads s \<le> nthreads s'" and "root_pend s' b = root_pend s b" and "lc_pend s' b = lc_pend s b"
    and "b \<in> armed s' \<longleftrightarrow> b \<in> armed s" and "pend s' b = pend s b" and "started s' b = started s b" and "finished s' b = finished s b"
    and "\<And>c v w. (b, c, v, w) \<in> finishing s' \<longleftrightarrow> (b, c, v, w) \<in> finishing s" and "b \<in> held s' \<longleftrightarrow> b \<in> held s"
    and "\<And>t. b \<in> set (L' FreeE t) \<or> b \<in> set (L' ForE t) \<longleftrightarrow> b \<in> set (L FreeE t) \<or> b \<in> set (L ForE t)"
    and "\<And>t. b \<in> set (L' FreeI t) \<or> b \<in> set (L' ForI t) \<longleftrightarrow> b \<in> set (L FreeI t) \<or> b \<in> set (L ForI t)"
    and "\<And>t. b \<in> set (L' StackI t) \<longleftrightarrow> b \<in> set (L StackI t)" and "implicit L' b \<longleftrightarrow> implicit L b"
  shows "obj_ok L' s' b g"
proof -
  have e: "event_live s' b = event_live s b" by (rule event_live_cong) (rule assms)+
  have c: "counts_ok s' b g = counts_ok s b g" by (simp add: counts_ok_def assms)
  have "threadidx g < nthreads s'" using assms(1,2) by (simp add: obj_ok_def)
  then show ?thesis using assms(1) unfolding obj_ok_def e c assms(3-) by (elim conjE) (intro conjI; assumption)
qed

text \<open>What an action on one object leaves alone.\<close>

lemma lists_content:
  assumes "inv_lists L s" and "ops (st s) a = Some g" and "st s' = set_op a g' (st s)" and "op_next g' = op_next g"
    and "held s' = held s" and "nthreads s' = nthreads s"
  shows "inv_lists L s'"
proof -
  have n: "nexts (st s') = nexts (st s)" using assms(2-4) by (auto simp: nexts_def)
  show ?thesis using assms(1) unfolding inv_lists_def n assms(5,6) by (auto simp: assms(2,3))
qed

lemma content_step:
  assumes inv: "ev_inv L s" and g: "ops (st s) a = Some g" and st: "st s' = set_op a g' (st s)" and nx: "op_next g' = op_next g"
    and same: "held s' = held s" "nthreads s' = nthreads s"
    and others: "\<And>b. b \<noteq> a \<Longrightarrow> root_pend s' b = root_pend s b \<and> lc_pend s' b = lc_pend s b \<and> (b \<in> armed s' \<longleftrightarrow> b \<in> armed s) \<and>
        pend s' b = pend s b \<and> started s' b = started s b \<and> finished s' b = finished s b \<and>
        (\<forall>c v w. (b, c, v, w) \<in> finishing s' \<longleftrightarrow> (b, c, v, w) \<in> finishing s)"
    and obj: "obj_ok L s' a g'" and fin: "finishing_ok s'"
  shows "ev_inv L s'"
proof -
  have "inv_lists L s'" using inv by (intro lists_content [OF _ g st nx same]) (simp add: ev_inv_def)
  moreover have "obj_ok L s' b h" if "ops (st s') b = Some h" for b h
  proof (cases "b = a")
    case True
    then show ?thesis using that obj by (simp add: st)
  next
    case False
    then have "obj_ok L s b h" using inv that by (simp add: st ev_inv_def)
    then show ?thesis by (rule obj_ok_cong) (use others [OF False] same in simp_all)
  qed
  moreover have "ghosts_ok s'" using inv others unfolding ev_inv_def ghosts_ok_def st
    by (metis fun_upd_other fun_upd_same option.distinct(1) set_op_simps(1))
  ultimately show ?thesis using fin by (simp add: ev_inv_def)
qed

lemma inv_obj: "ev_inv L s \<Longrightarrow> ops (st s) a = Some g \<Longrightarrow> obj_ok L s a g"
  by (simp add: ev_inv_def)

lemma held_obj: "ev_inv L s \<Longrightarrow> a \<in> held s \<Longrightarrow> \<exists>g. ops (st s) a = Some g"
  by (auto simp: ev_inv_def inv_lists_def)

lemma held_apart: "ev_inv L s \<Longrightarrow> a \<in> held s \<Longrightarrow> a \<notin> set (L k t)"
  unfolding ev_inv_def inv_lists_def by blast

text \<open>The types of root events.\<close>

lemma optype_eop: "obj_ok L s a g \<Longrightarrow> OPTYPE g = event_type_eop \<Longrightarrow> is_eop g"
  by (simp add: is_eop_def event_views)

lemma root_pend_eop: "obj_ok L s a g \<Longrightarrow> root_pend s a \<or> lc_pend s a \<Longrightarrow> is_eop g"
  by (auto simp: obj_ok_def split: if_splits)

lemma pend_iop: "obj_ok L s a g \<Longrightarrow> 0 < pend s a c \<or> (a, c, v, w) \<in> finishing s \<and> finishing_ok s \<or> a \<in> armed s \<Longrightarrow> \<not> is_eop g"
  by (fastforce simp: obj_ok_def finishing_ok_def)

section \<open>Explicit operations\<close>

lemma eop_bytes:
  assumes "obj_ok L s a g" and "is_eop g"
  obtains b0 b1 where "event g = [b0, b1, 0, 0, 0, 0]" "b0 = ev_byte event_type_eop (root_pend s a) \<or> b0 = event_type_free_eop \<and> \<not> root_pend s a"
    "b1 = ev_byte event_type_lc (lc_pend s a) \<or> b1 = 0 \<and> \<not> lc_pend s a"
  using assms unfolding obj_ok_def eop_ok_def by auto

lemma free_eop_type: "ev_type event_type_free_eop = 0" "ev_type event_type_free_iop = event_type_free_iop"
  by (simp_all add: ev_type_def EVENT_TYPE_MASK_def event_types)

lemma eop_not_free_byte: "event_type_eop \<noteq> event_type_free_eop" "event_type_iop \<noteq> event_type_free_iop"
  "event_type_eop \<noteq> event_type_iop" "event_type_free_iop \<noteq> event_type_eop" "event_type_free_iop \<noteq> event_type_free_eop"
  "event_type_iop \<noteq> event_type_free_eop" "event_type_iop \<noteq> 0" "event_type_eop \<noteq> 0" "event_type_free_iop \<noteq> 0" "event_type_lc \<noteq> 0"
  by (simp_all add: event_types)

lemma list_facts:
  assumes "obj_ok L s a g"
  shows "a \<in> set (L FreeE t) \<or> a \<in> set (L ForE t) \<Longrightarrow> event g ! 0 = event_type_free_eop \<and> \<not> lc_pend s a \<and> threadidx g = t"
    and "a \<in> set (L FreeI t) \<or> a \<in> set (L ForI t) \<Longrightarrow> event g ! 0 = event_type_free_iop \<and> a \<notin> armed s \<and>
        (\<forall>c. \<not> event_live s a c) \<and> threadidx g = t"
    and "a \<in> set (L StackI t) \<Longrightarrow> \<not> is_eop g \<and> OPTYPE g = event_type_iop \<and> threadidx g = t \<and>
        (if implicit L a then a \<notin> armed s \<and> (\<forall>c v w. (a, c, v, w) \<notin> finishing s) else a \<in> armed s)"
    and "a \<in> held s \<Longrightarrow> OPTYPE g = (if is_eop g then event_type_eop else event_type_iop) \<and> (\<not> is_eop g \<longrightarrow> op_next g = Some a)"
  using assms unfolding obj_ok_def by blast+

lemma not_free_iop: "obj_ok L s a g \<Longrightarrow> is_eop g \<Longrightarrow> event g ! 0 \<noteq> event_type_free_iop"
  by (auto simp: is_eop_def eop_not_free_byte eop_not_free_byte(5) [symmetric])

lemma small_mask: "small_type ty \<Longrightarrow> ty = ty AND EVENT_TYPE_MASK"
  by (simp add: small_type_def ev_type_def)

lemma set_type_ok:
  "i < 6 \<Longrightarrow> small_type ty \<Longrightarrow> event g ! i = ty \<or> event g ! i = 0 \<Longrightarrow>
   SET_EVENT_TYPE i ty g = Some (set_event i (ev_byte ty True) g)"
  using small_mask [of ty] small_types(1)
  by (auto simp: SET_EVENT_TYPE_def GASNETE_OP_EVENTS_def event_views small_type_def)

lemma set_done_ok:
  "i < 6 \<Longrightarrow> small_type ty \<Longrightarrow> event g ! i = ev_byte ty True \<Longrightarrow> SET_EVENT_DONE i g = Some (set_event i ty g)"
  using ev_byte_simps(5) [of ty True]
  by (simp add: SET_EVENT_DONE_def GASNETE_OP_EVENTS_def event_views del: ev_byte_simps(5))

lemma eop_lc_start:
  assumes inv: "ev_inv L s" and ok: "ev_allowed (EopLcStart a) s"
  shows "\<exists>s'. ev_do stats (EopLcStart a) s = Some s' \<and> ev_inv L s'"
proof -
  have a: "a \<in> held s" "optype s a = Some event_type_eop" "\<not> lc_pend s a" using ok by simp_all
  obtain g where g: "ops (st s) a = Some g" using held_obj [OF inv a(1)] by blast
  note obj = inv_obj [OF inv g]
  have e: "is_eop g" using a(2) g optype_eop [OF obj] by (simp add: optype_def)
  obtain b0 b1 where b: "event g = [b0, b1, 0, 0, 0, 0]" "b0 = ev_byte event_type_eop (root_pend s a) \<or> b0 = event_type_free_eop \<and> \<not> root_pend s a"
    "b1 = ev_byte event_type_lc (lc_pend s a) \<or> b1 = 0 \<and> \<not> lc_pend s a" by (rule eop_bytes [OF obj e])
  let ?g' = "set_event 1 (ev_byte event_type_lc True) g"
  let ?s' = "s\<lparr>st := set_op a ?g' (st s), lc_pend := (lc_pend s)(a := True)\<rparr>"
  have "SET_EVENT_TYPE (event_index Alc) event_type_lc g = Some ?g'"
    using b(1,3) a(3) set_type_ok [of 1 event_type_lc g] by auto
  then have "ev_do stats (EopLcStart a) s = Some ?s'" using g by (simp add: GASNETE_EOP_LC_START_def with_op_def)
  moreover have "ev_inv L ?s'"
  proof (rule content_step [OF inv g])
    have e': "is_eop ?g'" using e b(1) by (simp add: is_eop_def)
    have "eop_ok (root_pend ?s' a) (lc_pend ?s' a) ?g'" unfolding eop_ok_def using b by auto
    then show "obj_ok L ?s' a ?g'" using obj e e' a(1) held_apart [OF inv a(1)] unfolding obj_ok_def
      by (simp add: b(1) event_views)
    show "finishing_ok ?s'" using inv by (auto simp: ev_inv_def finishing_ok_def)
  qed (use g in simp_all)
  ultimately show ?thesis by blast
qed

text \<open>The end of an explicit operation, and of its local completion.\<close>

lemma eop_finish:
  assumes inv: "ev_inv L s" and g: "ops (st s) a = Some g" and e: "is_eop g"
    and b: "b0' = event_type_eop \<and> root_pend s a \<and> b1' = event g ! 1 \<and> \<not> rp' \<and> lp' = lc_pend s a \<or>
       b0' = event g ! 0 \<and> lc_pend s a \<and> rp' = root_pend s a \<and> b1' = event_type_lc \<and> \<not> lp'"
    and g': "g' = g\<lparr>event := [b0', b1', 0, 0, 0, 0]\<rparr>"
    and s': "s' = s\<lparr>st := set_op a g' (st s), root_pend := (root_pend s)(a := rp'), lc_pend := (lc_pend s)(a := lp')\<rparr>"
  shows "ev_inv L s'"
proof (rule content_step [OF inv g])
  note obj = inv_obj [OF inv g]
  obtain b0 b1 where eb: "event g = [b0, b1, 0, 0, 0, 0]" "b0 = ev_byte event_type_eop (root_pend s a) \<or> b0 = event_type_free_eop \<and> \<not> root_pend s a"
    "b1 = ev_byte event_type_lc (lc_pend s a) \<or> b1 = 0 \<and> \<not> lc_pend s a" by (rule eop_bytes [OF obj e])
  have e': "is_eop g'" using e b eb by (auto simp: is_eop_def g')
  have ok: "eop_ok rp' lp' g'" unfolding eop_ok_def g' using b eb by auto
  have ty: "root_pend s a \<Longrightarrow> event g ! 0 \<noteq> event_type_free_eop"
    using eb live_bit [of "event g ! 0"] by (auto simp: event_types EVENT_LIVE_MASK_def)
  have "a \<notin> set (L k t)" for k t
    using list_facts [OF obj] e b ty not_free_iop [OF obj e] by (cases k) blast+
  have ht: "OPTYPE g = event_type_eop \<Longrightarrow> OPTYPE g' = event_type_eop" using b eb by (auto simp: g' event_views)
  have keep: "threadidx g < nthreads s" "a \<notin> armed s" "pend s a c = 0 \<and> started s a c = 0 \<and> finished s a c = 0"
    "a \<in> held s \<Longrightarrow> OPTYPE g = event_type_eop" for c
    using obj e unfolding obj_ok_def by simp_all
  show "obj_ok L s' a g'"
    unfolding obj_ok_def using keep ht ok e' \<open>\<And>k t. a \<notin> set (L k t)\<close> by (simp add: s' g')
  show "finishing_ok s'" using inv by (auto simp: ev_inv_def finishing_ok_def s')
qed (auto simp: s' g')

lemma eop_done:
  assumes inv: "ev_inv L s" and ok: "ev_allowed (EopDone a) s"
  shows "\<exists>s'. ev_do stats (EopDone a) s = Some s' \<and> ev_inv L s'"
proof -
  have a: "root_pend s a" using ok by simp
  then obtain g where g: "ops (st s) a = Some g" using inv by (fastforce simp: ev_inv_def ghosts_ok_def)
  note obj = inv_obj [OF inv g]
  have e: "is_eop g" using root_pend_eop [OF obj] a by simp
  obtain b0 b1 where eb: "event g = [b0, b1, 0, 0, 0, 0]" "b0 = ev_byte event_type_eop (root_pend s a) \<or> b0 = event_type_free_eop \<and> \<not> root_pend s a"
    "b1 = ev_byte event_type_lc (lc_pend s a) \<or> b1 = 0 \<and> \<not> lc_pend s a" by (rule eop_bytes [OF obj e])
  have b0: "b0 = ev_byte event_type_eop True" using eb(2) a by simp
  have d: "SET_EVENT_DONE 0 g = Some (set_event 0 event_type_eop g)" using eb(1) b0 by (intro set_done_ok) simp_all
  have "gasnete_eop_check g" using eb(1) b0 by (simp add: gasnete_eop_check_def event_views)
  then have "ev_do stats (EopDone a) s = Some (s\<lparr>st := set_op a (set_event 0 event_type_eop g) (st s), root_pend := (root_pend s)(a := False)\<rparr>)"
    using g d by (simp add: gasneti_eop_markdone_def GASNETE_EOP_MARKDONE_def with_op_def)
  moreover have "ev_inv L (s\<lparr>st := set_op a (set_event 0 event_type_eop g) (st s), root_pend := (root_pend s)(a := False)\<rparr>)"
    by (rule eop_finish [OF inv g e, of event_type_eop b1 False "lc_pend s a"]) (use eb a in \<open>simp_all add: set_event_def\<close>)
  ultimately show ?thesis by blast
qed

lemma eop_lc_done:
  assumes inv: "ev_inv L s" and ok: "ev_allowed (EopLcDone a) s"
  shows "\<exists>s'. ev_do stats (EopLcDone a) s = Some s' \<and> ev_inv L s'"
proof -
  have a: "lc_pend s a" using ok by simp
  then obtain g where g: "ops (st s) a = Some g" using inv by (fastforce simp: ev_inv_def ghosts_ok_def)
  note obj = inv_obj [OF inv g]
  have e: "is_eop g" using root_pend_eop [OF obj] a by simp
  obtain b0 b1 where eb: "event g = [b0, b1, 0, 0, 0, 0]" "b0 = ev_byte event_type_eop (root_pend s a) \<or> b0 = event_type_free_eop \<and> \<not> root_pend s a"
    "b1 = ev_byte event_type_lc (lc_pend s a) \<or> b1 = 0 \<and> \<not> lc_pend s a" by (rule eop_bytes [OF obj e])
  have b1: "b1 = ev_byte event_type_lc True" using eb(3) a by simp
  have "SET_EVENT_DONE 1 g = Some (set_event 1 event_type_lc g)" using eb(1) b1 by (intro set_done_ok) simp_all
  then have "ev_do stats (EopLcDone a) s = Some (s\<lparr>st := set_op a (set_event 1 event_type_lc g) (st s), lc_pend := (lc_pend s)(a := False)\<rparr>)"
    using g by (simp add: GASNETE_EOP_LC_FINISH_def with_op_def)
  moreover have "ev_inv L (s\<lparr>st := set_op a (set_event 1 event_type_lc g) (st s), lc_pend := (lc_pend s)(a := False)\<rparr>)"
    by (rule eop_finish [OF inv g e, of b0 event_type_lc "root_pend s a" False]) (use eb a in \<open>simp_all add: set_event_def\<close>)
  ultimately show ?thesis by blast
qed

section \<open>Implicit operations\<close>

lemma iop_parts:
  assumes "obj_ok L s a g" and "\<not> is_eop g"
  shows "counts_ok s a g" and "iop_ok (if implicit L a then (\<lambda>c. False) else event_live s a) g" and "\<not> root_pend s a" and "\<not> lc_pend s a"
  using assms unfolding obj_ok_def by (auto simp del: split_paired_All)

text \<open>The check of an object in use.\<close>

lemma diff_counts: "b \<le> a \<Longrightarrow> a < b + 0x7FFFFFFF \<Longrightarrow> (of_nat a :: u32) - of_nat b < 0x7FFFFFFF"
proof -
  assume ab: "b \<le> a" "a < b + 0x7FFFFFFF"
  have "(of_nat a :: u32) - of_nat b = of_nat (a - b)" using ab(1) by (simp add: of_nat_diff)
  moreover have "a - b < 0x7FFFFFFF" using ab by simp
  ultimately show ?thesis by (simp add: word_less_nat_alt unat_of_nat)
qed

lemma counts_check:
  assumes "counts_ok s a g" and "OPTYPE g = event_type_iop \<or> OPTYPE g = event_type_free_iop"
  shows "gasnete_iop_check g"
proof -
  have "initiated_cnt g c - completed_cnt g c < 0x7FFFFFFF" for c
  proof -
    have "initiated_cnt g c = of_nat (started s a c)" "completed_cnt g c = of_nat (finished s a c)"
      "finished s a c \<le> started s a c" "started s a c < finished s a c + 0x7FFFFFFF"
      using assms(1) unfolding counts_ok_def by (blast, blast, metis le_add1 add.assoc, blast)
    then show ?thesis using diff_counts [of "finished s a c" "started s a c"] by (simp only:)
  qed
  then show ?thesis using assms(2) by (simp add: gasnete_iop_check_def)
qed

text \<open>Changes of the counters of an implicit operation whose bytes stay.\<close>

lemma counter_step:
  assumes inv: "ev_inv L s" and g: "ops (st s) a = Some g" and ne: "\<not> is_eop g"
    and g': "event g' = event g" "op_next g' = op_next g" "threadidx g' = threadidx g"
    and s': "st s' = set_op a g' (st s)" "held s' = held s" "nthreads s' = nthreads s" "root_pend s' = root_pend s" "lc_pend s' = lc_pend s"
      "armed s' - {a} = armed s - {a}"
    and others: "\<And>b. b \<noteq> a \<Longrightarrow> pend s' b = pend s b \<and> started s' b = started s b \<and> finished s' b = finished s b \<and>
        (\<forall>c v w. (b, c, v, w) \<in> finishing s' \<longleftrightarrow> (b, c, v, w) \<in> finishing s)"
    and counts: "counts_ok s' a g'" and lv: "\<not> implicit L a \<Longrightarrow> event_live s' a = event_live s a" and fin: "finishing_ok s'"
    and arm: "(a \<in> armed s' \<longleftrightarrow> a \<in> armed s) \<or> a \<in> held s" and imp: "implicit L a \<Longrightarrow> \<forall>c v w. (a, c, v, w) \<in> finishing s' \<longrightarrow> (a, c, v, w) \<in> finishing s"
  shows "ev_inv L s'"
proof (rule content_step [OF inv g s'(1) g'(2) s'(2,3) _ _ fin])
  note obj = inv_obj [OF inv g]
  show "obj_ok L s' a g'"
  proof -
    have f: "\<not> implicit L a" if "a \<in> set (L FreeI t) \<or> a \<in> set (L ForI t)" for t
    proof -
      have "\<forall>k t k' t'. (k, t) \<noteq> (k', t') \<longrightarrow> set (L k t) \<inter> set (L k' t') = {}" using inv by (simp add: ev_inv_def inv_lists_def)
      then have "a \<notin> set (L StackI u)" for u using that by blast
      then show ?thesis by (auto simp: implicit_def dest: last_in_set)
    qed
    have ne': "\<not> is_eop g'" using ne by (simp add: is_eop_def g')
    have same: "OPTYPE g' = OPTYPE g" "event g' ! 0 = event g ! 0" by (simp_all add: event_views g')
    have ok: "iop_ok (if implicit L a then (\<lambda>c. False) else event_live s' a) g'"
      using iop_parts(2) [OF obj ne] lv by (auto simp: iop_ok_def g')
    have h: "a \<in> held s \<Longrightarrow> a \<notin> set (L k t)" for k t using held_apart [OF inv] by blast
    show ?thesis unfolding obj_ok_def
    proof (intro conjI allI impI)
      show "threadidx g' < nthreads s'" using obj by (simp add: obj_ok_def g' s')
      show "if is_eop g' then eop_ok (root_pend s' a) (lc_pend s' a) g' \<and> a \<notin> armed s' \<and> (\<forall>c. pend s' a c = 0 \<and> started s' a c = 0 \<and> finished s' a c = 0)
         else counts_ok s' a g' \<and> \<not> root_pend s' a \<and> \<not> lc_pend s' a \<and> iop_ok (if implicit L a then (\<lambda>c. False) else event_live s' a) g'"
        using ne' counts ok iop_parts(3,4) [OF obj ne] by (simp add: s')
      show "OPTYPE g' = (if is_eop g' then event_type_eop else event_type_iop)" if "a \<in> held s'"
        using obj ne ne' that same by (simp add: obj_ok_def s')
      show "op_next g' = Some a" if "a \<in> held s'" using obj ne that by (simp add: obj_ok_def s' g')
      show "event g' ! 0 = event_type_free_eop" "\<not> lc_pend s' a" "threadidx g' = t"
        if "a \<in> set (L FreeE t) \<or> a \<in> set (L ForE t)" for t
        using obj that by (auto simp: obj_ok_def s' g')
      show "event g' ! 0 = event_type_free_iop" "a \<notin> armed s'" "threadidx g' = t"
        if "a \<in> set (L FreeI t) \<or> a \<in> set (L ForI t)" for t
        using obj that arm h by (auto simp: obj_ok_def s' g')
      show "\<not> event_live s' a c" if "a \<in> set (L FreeI t) \<or> a \<in> set (L ForI t)" for t c
        using obj that lv [OF f [OF that]] by (auto simp: obj_ok_def)
      show "\<not> is_eop g'" "OPTYPE g' = event_type_iop" "threadidx g' = t" if "a \<in> set (L StackI t)" for t
        using obj that ne' same by (auto simp: obj_ok_def g')
      show "if implicit L a then a \<notin> armed s' \<and> (\<forall>c v w. (a, c, v, w) \<notin> finishing s') else a \<in> armed s'" if "a \<in> set (L StackI t)" for t
        using obj that arm h imp unfolding obj_ok_def by meson
    qed
  qed
  show "\<And>b. b \<noteq> a \<Longrightarrow> root_pend s' b = root_pend s b \<and> lc_pend s' b = lc_pend s b \<and> (b \<in> armed s' \<longleftrightarrow> b \<in> armed s) \<and>
        pend s' b = pend s b \<and> started s' b = started s b \<and> finished s' b = finished s b \<and>
        (\<forall>c v w. (b, c, v, w) \<in> finishing s' \<longleftrightarrow> (b, c, v, w) \<in> finishing s)"
    using others s'(4-6) by (metis Diff_iff insertE insertI1 empty_iff)
qed

lemma current_on_stack:
  assumes "ev_inv L s" and "t < nthreads s"
  shows "\<exists>g xs. L StackI t = current_iop (threads (st s) t) # xs \<and> ops (st s) (current_iop (threads (st s) t)) = Some g"
proof -
  have c: "chain (nexts (st s)) (Some (current_iop (threads (st s) t))) (L StackI t)" "L StackI t \<noteq> []"
    using assms by (auto simp: ev_inv_def inv_lists_def dest: spec [of _ StackI])
  then obtain x xs where "L StackI t = x # xs" by (cases "L StackI t") auto
  then show ?thesis using c(1) by (auto simp: nexts_def)
qed

lemma counts_okD:
  assumes "counts_ok s a g"
  shows "initiated_cnt g c = of_nat (started s a c)" and "completed_cnt g c = of_nat (finished s a c)"
    and "started s a c = finished s a c + pend s a c + (if a \<in> armed s then 1 else 0)"
    and "started s a c < finished s a c + 0x7FFFFFFF"
  using assms unfolding counts_ok_def by blast+

lemma counts_okI:
  assumes "\<And>c. initiated_cnt g c = of_nat (started s a c)" and "\<And>c. completed_cnt g c = of_nat (finished s a c)"
    and "\<And>c. started s a c = finished s a c + pend s a c + (if a \<in> armed s then 1 else 0)"
    and "\<And>c. started s a c < finished s a c + 0x7FFFFFFF"
  shows "counts_ok s a g"
  using assms unfolding counts_ok_def by blast

text \<open>The object at the bottom of a stack is the only one in use without a successor.\<close>

lemma apart: "ev_inv L s \<Longrightarrow> a \<in> set (L k t) \<Longrightarrow> a \<in> set (L k' t') \<Longrightarrow> k = k' \<and> t = t'"
  unfolding ev_inv_def inv_lists_def by blast

lemma implicit_in: "implicit L a \<Longrightarrow> \<exists>t. a \<in> set (L StackI t)"
  unfolding implicit_def by (metis last_in_set)

lemma implicit_next:
  assumes inv: "ev_inv L s" and g: "ops (st s) a = Some g" and imp: "implicit L a"
  shows "op_next g = None"
proof -
  obtain t where t: "L StackI t \<noteq> []" "a = last (L StackI t)" using imp by (auto simp: implicit_def)
  then have "t < nthreads s" using inv unfolding ev_inv_def inv_lists_def by (metis not_le)
  then have "chain (nexts (st s)) (list_head StackI (threads (st s) t)) (L StackI t)"
    using inv unfolding ev_inv_def inv_lists_def by blast
  from chain_last [OF this t(1)] show ?thesis using t(2) g by (simp add: nexts_def)
qed

lemma busy_next:
  assumes inv: "ev_inv L s" and g: "ops (st s) a = Some g" and ne: "\<not> is_eop g" and busy: "event_live s a c" and imp: "\<not> implicit L a"
  shows "op_next g \<noteq> None"
proof -
  note obj = inv_obj [OF inv g]
  have "a \<in> held s \<or> (\<exists>k t. a \<in> set (L k t))" using inv g unfolding ev_inv_def inv_lists_def by auto
  then consider (h) "a \<in> held s" | (l) k t where "a \<in> set (L k t)" by blast
  then show ?thesis
  proof cases
    case h
    then show ?thesis using list_facts(4) [OF obj h] ne by simp
  next
    case l
    have "event g ! 0 \<noteq> event_type_free_eop" using ne by (simp add: is_eop_def)
    moreover have "event g ! 0 = event_type_free_eop \<or> \<not> event_live s a c \<or> k = StackI"
      using l list_facts(1,2) [OF obj, of t] by (cases k) simp_all
    ultimately have "k = StackI" using busy by simp
    then have m: "a \<in> set (L StackI t)" using l by simp
    have "t < nthreads s" using inv m unfolding ev_inv_def inv_lists_def by (metis empty_iff empty_set not_le)
    then have "chain (nexts (st s)) (list_head StackI (threads (st s) t)) (L StackI t)"
      using inv unfolding ev_inv_def inv_lists_def by blast
    moreover have "a \<noteq> last (L StackI t)" using imp m unfolding implicit_def by (metis empty_iff list.set(1))
    ultimately have "\<exists>y. nexts (st s) a = Some (Some y)" using chain_inner m by metis
    then show ?thesis using g by (auto simp: nexts_def)
  qed
qed

lemma finishing_okD:
  "finishing_ok s \<Longrightarrow> (a, c, v, w) \<in> finishing s \<Longrightarrow>
   w = of_nat v \<and> 0 < v \<and> v \<le> finished s a c \<and> started s a c < v + 0x100000000 \<and> ops (st s) a \<noteq> None"
  unfolding finishing_ok_def by blast

lemma finishing_okI:
  "(\<And>a c v w. (a, c, v, w) \<in> finishing s \<Longrightarrow>
   w = of_nat v \<and> 0 < v \<and> v \<le> finished s a c \<and> started s a c < v + 0x100000000 \<and> ops (st s) a \<noteq> None) \<Longrightarrow> finishing_ok s"
  unfolding finishing_ok_def by blast

lemma register_inv:
  assumes inv: "ev_inv L s" and ok: "ev_allowed (Register t c n) s"
  shows "\<exists>s'. ev_do stats (Register t c n) s = Some s' \<and> ev_inv L s'"
proof -
  let ?a = "current_iop (threads (st s) t)"
  have t: "t < nthreads s" and room: "room_to_start s ?a c n" using ok by simp_all
  obtain g xs where on: "L StackI t = ?a # xs" and g: "ops (st s) ?a = Some g" using current_on_stack [OF inv t] by blast
  note obj = inv_obj [OF inv g]
  have stk: "\<not> is_eop g" "OPTYPE g = event_type_iop" "if implicit L ?a then ?a \<notin> armed s \<and> (\<forall>c v w. (?a, c, v, w) \<notin> finishing s) else ?a \<in> armed s"
    using list_facts(3) [OF obj, of t] on by simp_all
  let ?g' = "GASNETE_IOP_CNT_START c n g"
  let ?s' = "s\<lparr>st := set_op ?a ?g' (st s), pend := (pend s)(?a := (pend s ?a)(c := pend s ?a c + n)),
         started := (started s)(?a := (started s ?a)(c := started s ?a c + n))\<rparr>"
  have cnt: "counts_ok s ?a g" by (rule iop_parts(1) [OF obj stk(1)])
  have cnt': "counts_ok ?s' ?a ?g'"
  proof (rule counts_okI)
    fix d
    note D = counts_okD [OF cnt, of d]
    show "initiated_cnt ?g' d = of_nat (started ?s' ?a d)" "completed_cnt ?g' d = of_nat (finished ?s' ?a d)"
      using counts_okD(1,2) [OF cnt] by simp_all
    show "started ?s' ?a d = finished ?s' ?a d + pend ?s' ?a d + (if ?a \<in> armed ?s' then 1 else 0)"
      using D(3) by (cases "d = c") simp_all
    show "started ?s' ?a d < finished ?s' ?a d + 0x7FFFFFFF" using D(4) room by (cases "d = c") (simp_all add: room_to_start_def)
  qed
  have "gasnete_iop_check g" "gasnete_iop_check ?g'"
    using counts_check [OF cnt] counts_check [OF cnt'] stk(2) by (simp_all add: event_views)
  then have "ev_do stats (Register t c n) s = Some ?s'" using g by (simp add: gasneti_iop_register_def Let_def)
  moreover have "ev_inv L ?s'"
  proof (rule counter_step [OF inv g stk(1)])
    show "counts_ok ?s' ?a ?g'" by (rule cnt')
    show "finishing_ok ?s'"
    proof (rule finishing_okI)
      fix b d v w
      assume m: "(b, d, v, w) \<in> finishing ?s'"
      have f: "finishing_ok s" using inv by (simp add: ev_inv_def)
      have "b = ?a \<Longrightarrow> d = c \<Longrightarrow> started s ?a c + n < v + 0x100000000" using m room unfolding room_to_start_def by auto
      then show "w = of_nat v \<and> 0 < v \<and> v \<le> finished ?s' b d \<and> started ?s' b d < v + 0x100000000 \<and> ops (st ?s') b \<noteq> None"
        using finishing_okD [OF f, of b d v w] m by auto
    qed
    show "event_live ?s' ?a = event_live s ?a" if "\<not> implicit L ?a"
    proof
      fix d
      have "started s ?a d = finished s ?a d + pend s ?a d + 1" using counts_okD(3) [OF cnt, of d] stk(3) that by simp
      then show "event_live ?s' ?a d = event_live s ?a d" by (auto simp: event_live_def)
    qed
  qed simp_all
  ultimately show ?thesis by blast
qed

lemma finish_add_inv:
  assumes inv: "ev_inv L s" and ok: "ev_allowed (FinishAdd a c n) s"
  shows "\<exists>s'. ev_do stats (FinishAdd a c n) s = Some s' \<and> ev_inv L s'"
proof -
  have n: "0 < n" "n \<le> pend s a c" using ok by simp_all
  have "ops (st s) a \<noteq> None" using inv n unfolding ev_inv_def ghosts_ok_def by (metis le_0_eq neq0_conv)
  then obtain g where g: "ops (st s) a = Some g" by blast
  note obj = inv_obj [OF inv g]
  have ne: "\<not> is_eop g" using pend_iop [OF obj, of c] n by simp
  let ?g' = "cnt_finish_add c n g" and ?v = "finished s a c + n"
  let ?s' = "s\<lparr>st := set_op a ?g' (st s), pend := (pend s)(a := (pend s a)(c := pend s a c - n)),
            finished := (finished s)(a := (finished s a)(c := ?v)),
            finishing := (if op_next g \<noteq> None then insert (a, c, ?v, completed_cnt ?g' c) (finishing s) else finishing s)\<rparr>"
  have cnt: "counts_ok s a g" by (rule iop_parts(1) [OF obj ne])
  have cnt': "counts_ok ?s' a ?g'"
  proof (rule counts_okI)
    fix d
    note D = counts_okD [OF cnt, of d]
    show "initiated_cnt ?g' d = of_nat (started ?s' a d)" "completed_cnt ?g' d = of_nat (finished ?s' a d)"
      using counts_okD(1,2) [OF cnt] by simp_all
    show "started ?s' a d = finished ?s' a d + pend ?s' a d + (if a \<in> armed ?s' then 1 else 0)"
      using D(3) n by (cases "d = c") simp_all
    show "started ?s' a d < finished ?s' a d + 0x7FFFFFFF" using D(4) by (cases "d = c") simp_all
  qed
  have "ev_do stats (FinishAdd a c n) s = Some ?s'" using g by (simp add: Let_def)
  moreover have "ev_inv L ?s'"
  proof (rule counter_step [OF inv g ne])
    show "counts_ok ?s' a ?g'" by (rule cnt')
    note D = counts_okD [OF cnt, of c]
    have busy: "event_live s a c" using D(3) n by (simp add: event_live_def)
    show "finishing_ok ?s'"
    proof (rule finishing_okI)
      fix b d v w
      assume m: "(b, d, v, w) \<in> finishing ?s'"
      show "w = of_nat v \<and> 0 < v \<and> v \<le> finished ?s' b d \<and> started ?s' b d < v + 0x100000000 \<and> ops (st ?s') b \<noteq> None"
      proof (cases "(b, d, v, w) \<in> finishing s")
        case True
        have "finishing_ok s" using inv by (simp add: ev_inv_def)
        from finishing_okD [OF this True] show ?thesis by auto
      next
        case False
        then have "b = a \<and> d = c \<and> v = ?v \<and> w = completed_cnt ?g' c" using m by (simp split: if_splits)
        then show ?thesis using n D(2,4) by simp
      qed
    qed
    show "event_live ?s' a = event_live s a" if ni: "\<not> implicit L a"
    proof
      fix d
      have nx: "op_next g \<noteq> None" by (rule busy_next [OF inv g ne busy ni])
      show "event_live ?s' a d = event_live s a d"
        using D(3) n nx by (auto simp: event_live_def)
    qed
    show "implicit L a \<Longrightarrow> \<forall>c' v w. (a, c', v, w) \<in> finishing ?s' \<longrightarrow> (a, c', v, w) \<in> finishing s"
      using implicit_next [OF inv g] by simp
  qed auto
  ultimately show ?thesis by blast
qed

text \<open>The comparison at the end of an operation, and its effect on the bytes.\<close>

fun cat_type :: "category \<Rightarrow> u8" where
  "cat_type Alc = event_type_lc"
| "cat_type c = event_type_iop"

lemma iop_byte_done:
  assumes "iop_ok lv g" and "lv c"
  shows "event g ! event_index c = ev_byte (cat_type c) True"
    and "iop_ok (lv(c := False)) (set_event (event_index c) (cat_type c) g)"
  using assms by (cases c; auto simp: iop_ok_def)+

lemma counts_eq_iff: "v \<le> n \<Longrightarrow> n < v + 0x100000000 \<Longrightarrow> (of_nat v :: u32) = of_nat n \<longleftrightarrow> v = n"
proof -
  assume v: "v \<le> n" "n < v + 0x100000000"
  have "(of_nat (n - v) :: u32) = of_nat n - of_nat v" using v(1) by (simp add: of_nat_diff)
  then have "(of_nat v :: u32) = of_nat n \<longleftrightarrow> (of_nat (n - v) :: u32) = 0" by auto
  also have "\<dots> \<longleftrightarrow> n - v = 0"
    using v nat_dvd_not_less [of "n - v" "2 ^ 32"] unfolding word_of_nat_eq_0_iff by (cases "n - v = 0") simp_all
  finally show ?thesis using v(1) by auto
qed

lemma held_iop_done:
  assumes inv: "ev_inv L s" and g: "ops (st s) a = Some g" and ne: "\<not> is_eop g" and h: "a \<in> held s"
    and lv: "event_live s a c" and last: "started s a c = v" "finished s a c = v" and f: "f = (a, c, v, w)" "f \<in> finishing s"
  shows "cnt_finish_compare c w g = Some (set_event (event_index c) (cat_type c) g) \<and>
    ev_inv L (s\<lparr>st := set_op a (set_event (event_index c) (cat_type c) g) (st s), finishing := finishing s - {f}\<rparr>)"
proof -
  note obj = inv_obj [OF inv g]
  have fin: "finishing_ok s" using inv by (simp add: ev_inv_def)
  have cnt: "counts_ok s a g" by (rule iop_parts(1) [OF obj ne])
  have w: "w = of_nat v" using finishing_okD [OF fin, of a c v w] f by simp
  have "a \<notin> set (L k t)" for k t by (rule held_apart [OF inv h])
  then have ni: "\<not> implicit L a" using implicit_in by blast
  have ok: "iop_ok (event_live s a) g" using iop_parts(2) [OF obj ne] ni by simp
  let ?g' = "set_event (event_index c) (cat_type c) g"
  let ?s' = "s\<lparr>st := set_op a ?g' (st s), finishing := finishing s - {f}\<rparr>"
  have "SET_EVENT_DONE (event_index c) g = Some ?g'"
    using iop_byte_done(1) [OF ok lv] by (intro set_done_ok) (cases c; simp)+
  moreover have "completed_cnt g c = of_nat v" "initiated_cnt g c = of_nat v" using counts_okD(1,2) [OF cnt, of c] last by simp_all
  ultimately have "cnt_finish_compare c w g = Some ?g'" by (simp add: cnt_finish_compare_def w)
  moreover have "ev_inv L ?s'"
  proof (rule content_step [OF inv g])
    have only: "(a, c, v, w') \<in> finishing s \<Longrightarrow> (a, c, v, w') = f" for w'
      using finishing_okD [OF fin, of a c v w'] w f by simp
    have lv': "event_live ?s' a = (event_live s a)(c := False)"
      using last only f(1) by (auto simp: event_live_def fun_eq_iff)
    have ok': "iop_ok (event_live ?s' a) ?g'" using iop_byte_done(2) [OF ok lv] lv' by simp
    have ty: "OPTYPE g = event_type_iop" "op_next g = Some a" using list_facts(4) [OF obj h] ne by simp_all
    obtain b0 bs where b0: "event g = b0 # bs" using ok by (auto simp: iop_ok_def)
    then have "event g ! 0 \<noteq> event_type_free_eop" "OPTYPE ?g' = event_type_iop"
      using ne ty by (cases c; simp add: is_eop_def event_views)+
    then have ne': "\<not> is_eop ?g'" and ty': "OPTYPE ?g' = event_type_iop"
      using b0 ty eop_not_free_byte free_eop_type by (auto simp: is_eop_def event_views)
    show "obj_ok L ?s' a ?g'"
      unfolding obj_ok_def
    proof (intro conjI)
      show "threadidx ?g' < nthreads ?s'" using obj by (simp add: obj_ok_def)
      have "counts_ok ?s' a ?g'" by (rule counts_okI) (use counts_okD [OF cnt] in simp_all)
      then show "if is_eop ?g' then eop_ok (root_pend ?s' a) (lc_pend ?s' a) ?g' \<and> a \<notin> armed ?s' \<and>
            (\<forall>c. pend ?s' a c = 0 \<and> started ?s' a c = 0 \<and> finished ?s' a c = 0)
         else counts_ok ?s' a ?g' \<and> \<not> root_pend ?s' a \<and> \<not> lc_pend ?s' a \<and>
           iop_ok (if implicit L a then (\<lambda>c. False) else event_live ?s' a) ?g'"
        using ne' ok' ni iop_parts(3,4) [OF obj ne] by simp
      show "a \<in> held ?s' \<longrightarrow> OPTYPE ?g' = (if is_eop ?g' then event_type_eop else event_type_iop) \<and> (\<not> is_eop ?g' \<longrightarrow> op_next ?g' = Some a)"
        using ne' ty' ty(2) by simp
    qed (use \<open>\<And>k t. a \<notin> set (L k t)\<close> in blast)+
    show "finishing_ok ?s'"
    proof (rule finishing_okI)
      fix b d v w
      assume "(b, d, v, w) \<in> finishing ?s'"
      then show "w = of_nat v \<and> 0 < v \<and> v \<le> finished ?s' b d \<and> started ?s' b d < v + 0x100000000 \<and> ops (st ?s') b \<noteq> None"
        using finishing_okD [OF fin, of b d v w] by simp
    qed
  qed (use f in auto)
  ultimately show ?thesis by blast
qed

lemma finish_compare_inv:
  assumes inv: "ev_inv L s" and ok: "ev_allowed (FinishCompare f) s"
  shows "\<exists>s'. ev_do stats (FinishCompare f) s = Some s' \<and> ev_inv L s'"
proof -
  obtain a c v w where f: "f = (a, c, v, w)" by (cases f) blast
  have m: "(a, c, v, w) \<in> finishing s" using ok f by simp
  have fin: "finishing_ok s" using inv by (simp add: ev_inv_def)
  note F = finishing_okD [OF fin m]
  obtain g where g: "ops (st s) a = Some g" using F by blast
  note obj = inv_obj [OF inv g]
  have ne: "\<not> is_eop g" using pend_iop [OF obj, of c v w] m fin by blast
  have cnt: "counts_ok s a g" by (rule iop_parts(1) [OF obj ne])
  note D = counts_okD [OF cnt, of c]
  have v: "v \<le> started s a c" "started s a c < v + 0x100000000" using F D(3) by simp_all
  have ni: "\<not> implicit L a" using implicit_in [of L a] list_facts(3) [OF obj] m by auto
  show ?thesis
  proof (cases "v = started s a c")
    case True
    then have last: "started s a c = v" "finished s a c = v" using F D(3) by simp_all
    then have "pend s a c = 0" and na: "a \<notin> armed s" using D(3) by (simp_all split: if_splits)
    have lv: "event_live s a c" using m last by (auto simp: event_live_def)
    have h: "a \<in> held s"
    proof (rule ccontr)
      assume "a \<notin> held s"
      then obtain k t where l: "a \<in> set (L k t)" using inv g unfolding ev_inv_def inv_lists_def by blast
      have "event g ! 0 \<noteq> event_type_free_eop" using ne by (simp add: is_eop_def)
      then show False using l list_facts(1-3) [OF obj, of t] lv na ni by (cases k) auto
    qed
    show ?thesis using held_iop_done [OF inv g ne h lv last f] m f g by (auto simp: with_op_def)
  next
    case False
    then have "cnt_finish_compare c w g = Some g" using D(1) F counts_eq_iff [OF v] by (simp add: cnt_finish_compare_def)
    then have "ev_do stats (FinishCompare f) s = Some (s\<lparr>st := set_op a g (st s), finishing := finishing s - {f}\<rparr>)"
      using g by (simp add: f with_op_def)
    moreover have "ev_inv L (s\<lparr>st := set_op a g (st s), finishing := finishing s - {f}\<rparr>)" (is "ev_inv L ?s'")
    proof (rule counter_step [OF inv g ne])
      show "counts_ok ?s' a g" by (rule counts_okI) (use counts_okD [OF cnt] in simp_all)
      show "event_live ?s' a = event_live s a" using False by (auto simp: event_live_def f fun_eq_iff)
      show "finishing_ok ?s'"
      proof (rule finishing_okI)
        fix b d v w
        assume "(b, d, v, w) \<in> finishing ?s'"
        then show "w = of_nat v \<and> 0 < v \<and> v \<le> finished ?s' b d \<and> started ?s' b d < v + 0x100000000 \<and> ops (st ?s') b \<noteq> None"
          using finishing_okD [OF fin, of b d v w] by simp
      qed
    qed (use f in auto)
    ultimately show ?thesis by blast
  qed
qed

lemma aop_to_event_inv:
  assumes inv: "ev_inv L s" and ok: "ev_allowed (AopToEvent a) s"
  shows "\<exists>s'. ev_do stats (AopToEvent a) s = Some s' \<and> ev_inv L s'"
proof -
  have a: "a \<in> held s" "a \<in> armed s" using ok by simp_all
  obtain g where g: "ops (st s) a = Some g" using held_obj [OF inv a(1)] by blast
  note obj = inv_obj [OF inv g]
  have fin: "finishing_ok s" using inv by (simp add: ev_inv_def)
  have ne: "\<not> is_eop g" using pend_iop [OF obj] a(2) by blast
  have nx: "op_next g = Some a" using list_facts(4) [OF obj a(1)] ne by simp
  have cnt: "counts_ok s a g" by (rule iop_parts(1) [OF obj ne])
  let ?s' = "s\<lparr>armed := armed s - {a}, pend := (pend s)(a := (\<lambda>c. pend s a c + 1))\<rparr>"
  have "ev_do stats (AopToEvent a) s = Some ?s'" using g nx by simp
  moreover have "ev_inv L ?s'"
  proof (rule counter_step [OF inv g ne])
    show "st ?s' = set_op a g (st s)" using g by (simp add: set_op_def fun_upd_idem)
    show "counts_ok ?s' a g" by (rule counts_okI) (use counts_okD [OF cnt] a(2) in simp_all)
    show "event_live ?s' a = event_live s a" by (rule event_live_cong) simp_all
    show "finishing_ok ?s'" using fin by (simp add: finishing_ok_def)
  qed (use a in simp_all)
  ultimately show ?thesis by blast
qed

text \<open>Every object on a stack of regions passes the check.\<close>

lemma stack_checks:
  assumes inv: "ev_inv L s" and m: "a \<in> set (L StackI t)"
  shows "\<exists>g. ops (st s) a = Some g \<and> gasnete_iop_check g"
proof -
  have il: "inv_lists L s" using inv by (simp add: ev_inv_def)
  have t: "t < nthreads s" using il m unfolding inv_lists_def by (metis empty_iff empty_set not_le)
  have "chain (nexts (st s)) (list_head StackI (threads (st s) t)) (L StackI t)" using il t unfolding inv_lists_def by blast
  from chain_mem [OF this m] obtain g where g: "ops (st s) a = Some g" by (auto simp: nexts_def)
  note F = list_facts(3) [OF inv_obj [OF inv g] m]
  show ?thesis using counts_check [OF iop_parts(1) [OF inv_obj [OF inv g]]] F g by blast
qed

end
