(* ===== verification/Event_Lists.thy ===== *)
theory Event_Lists
  imports Event_Inv
begin

text \<open>
  The lists of the event system under the steps the code makes on them: the head of a list is taken or
  put, a whole list moves, new objects appear.
\<close>

section \<open>One list changes\<close>

definition upd_list :: "list_kind \<Rightarrow> nat \<Rightarrow> nat list \<Rightarrow> ev_lists \<Rightarrow> ev_lists" where
  "upd_list k t xs L = L(k := (L k)(t := xs))"

lemma upd_list_simps [simp]:
  "upd_list k t xs L k t = xs" "(k', t') \<noteq> (k, t) \<Longrightarrow> upd_list k t xs L k' t' = L k' t'"
  by (auto simp: upd_list_def)

definition same_heads :: "list_kind \<Rightarrow> nat \<Rightarrow> ev_sys \<Rightarrow> ev_sys \<Rightarrow> bool" where
  "same_heads k t s s' \<longleftrightarrow> (\<forall>k' t'. (k', t') \<noteq> (k, t) \<longrightarrow> list_head k' (threads (st s') t') = list_head k' (threads (st s) t'))"

lemma inv_listsD:
  assumes "inv_lists L s"
  shows "t < nthreads s \<Longrightarrow> chain (nexts (st s)) (list_head k (threads (st s) t)) (L k t)"
    and "nthreads s \<le> t \<Longrightarrow> L k t = []"
    and "distinct (L k t)"
    and "a \<in> held s \<Longrightarrow> a \<notin> set (L k t)"
    and "(k, t) \<noteq> (k', t') \<Longrightarrow> a \<in> set (L k t) \<Longrightarrow> a \<notin> set (L k' t')"
    and "t < nthreads s \<Longrightarrow> L StackI t \<noteq> []"
    and "a \<in> held s \<Longrightarrow> ops (st s) a \<noteq> None"
    and "ops (st s) a \<noteq> None \<Longrightarrow> a < next_addr (st s)"
    and "ops (st s) a \<noteq> None \<Longrightarrow> a \<in> held s \<or> (\<exists>k t. a \<in> set (L k t))"
  using assms unfolding inv_lists_def by (blast, blast, blast, blast, blast, blast, blast, blast, blast)

lemma inv_listsI:
  assumes "\<And>k t. t < nthreads s \<Longrightarrow> chain (nexts (st s)) (list_head k (threads (st s) t)) (L k t)"
    and "\<And>k t. nthreads s \<le> t \<Longrightarrow> L k t = []"
    and "\<And>k t. distinct (L k t)"
    and "\<And>k t a. a \<in> held s \<Longrightarrow> a \<notin> set (L k t)"
    and "\<And>k t k' t' a. (k, t) \<noteq> (k', t') \<Longrightarrow> a \<in> set (L k t) \<Longrightarrow> a \<notin> set (L k' t')"
    and "\<And>t. t < nthreads s \<Longrightarrow> L StackI t \<noteq> []"
    and "\<And>a. a \<in> held s \<Longrightarrow> ops (st s) a \<noteq> None"
    and "\<And>a. ops (st s) a \<noteq> None \<Longrightarrow> a < next_addr (st s)"
    and "\<And>a. ops (st s) a \<noteq> None \<Longrightarrow> a \<in> held s \<or> (\<exists>k t. a \<in> set (L k t))"
  shows "inv_lists L s"
proof -
  have d: "set (L k t) \<inter> held s = {}" for k t using assms(4) by blast
  have e: "set (L k t) \<inter> set (L k' t') = {}" if "(k, t) \<noteq> (k', t')" for k t k' t' using assms(5) [OF that] by blast
  have "\<forall>a. ops (st s) a \<noteq> None \<longrightarrow> a < next_addr (st s) \<and> (a \<in> held s \<or> (\<exists>k t. a \<in> set (L k t)))"
    using assms(8,9) by blast
  then show ?thesis unfolding inv_lists_def using assms(1,2,3,6,7) d e by (intro conjI) blast+
qed

text \<open>The object at the head of a list is taken.\<close>

lemma pop_list:
  assumes inv: "inv_lists L s" and t: "t < nthreads s" and on: "L k t = a # xs" and g: "ops (st s) a = Some g"
    and s': "ops (st s') = (ops (st s))(a \<mapsto> g')" "next_addr (st s') = next_addr (st s)" "held s' = insert a (held s)" "nthreads s' = nthreads s"
    and hd: "list_head k (threads (st s') t) = op_next g" "same_heads k t s s'" and stk: "k = StackI \<Longrightarrow> xs \<noteq> []"
  shows "inv_lists (upd_list k t xs L) s'"
proof -
  let ?L = "upd_list k t xs L"
  note I = inv_listsD [OF inv]
  have ch: "chain (nexts (st s)) (op_next g) xs" using I(1) [OF t, of k] on g by (simp add: nexts_def)
  have d: "a \<notin> set xs" "distinct xs" using I(3) [of k t] on by simp_all
  have nx: "b \<noteq> a \<Longrightarrow> nexts (st s') b = nexts (st s) b" for b by (simp add: nexts_def s')
  have sub: "b \<in> set (?L k' t') \<Longrightarrow> b \<in> set (L k' t') \<and> b \<noteq> a" for b k' t'
    using on d(1) I(5) [of k t k' t' a] by (cases "(k', t') = (k, t)") auto
  show ?thesis
  proof (rule inv_listsI)
    fix k' t' b
    show "chain (nexts (st s')) (list_head k' (threads (st s') t')) (?L k' t')" if "t' < nthreads s'"
    proof (cases "(k', t') = (k, t)")
      case True
      then show ?thesis using chain_cong [OF ch, of "nexts (st s')"] hd(1) nx d(1) by (metis prod.inject upd_list_simps(1))
    next
      case False
      then have "chain (nexts (st s)) (list_head k' (threads (st s') t')) (?L k' t')"
        using I(1) [of t' k'] that hd(2) by (simp add: s' same_heads_def)
      then show ?thesis by (rule chain_cong) (use nx sub in blast)
    qed
    show "?L k' t' = []" if "nthreads s' \<le> t'" using I(2) [of t' k'] that t on by (cases "(k', t') = (k, t)") (auto simp: s')
    show "distinct (?L k' t')" using d I(3) by (cases "(k', t') = (k, t)") auto
    show "b \<notin> set (?L k' t')" if "b \<in> held s'" using that sub [of b k' t'] I(4) [of b k' t'] by (auto simp: s')
    show "b \<notin> set (?L k2 t2)" if "(k', t') \<noteq> (k2, t2)" "b \<in> set (?L k' t')" for k2 t2 using that sub I(5) by blast
    show "?L StackI t' \<noteq> []" if "t' < nthreads s'" using that I(6) stk by (cases "(StackI, t') = (k, t)") (auto simp: s')
    show "ops (st s') b \<noteq> None" if "b \<in> held s'" using that I(7) by (auto simp: s')
    show "b < next_addr (st s')" if "ops (st s') b \<noteq> None" using that I(8) g by (cases "b = a") (auto simp: s')
    show "b \<in> held s' \<or> (\<exists>k t. b \<in> set (?L k t))" if "ops (st s') b \<noteq> None"
    proof (cases "b = a")
      case True
      then show ?thesis by (simp add: s')
    next
      case False
      then have "ops (st s) b \<noteq> None" using that by (simp add: s')
      from I(9) [OF this] consider "b \<in> held s" | k2 t2 where "b \<in> set (L k2 t2)" by blast
      then show ?thesis
      proof cases
        case 1
        then show ?thesis by (simp add: s')
      next
        case 2
        then have "b \<in> set (?L k2 t2)" using on False by (cases "(k2, t2) = (k, t)") auto
        then show ?thesis by blast
      qed
    qed
  qed
qed

text \<open>An object that a caller holds is put at the head of a list.\<close>

lemma push_list:
  assumes inv: "inv_lists L s" and t: "t < nthreads s" and h: "a \<in> held s"
    and s': "ops (st s') = (ops (st s))(a \<mapsto> g')" "next_addr (st s') = next_addr (st s)" "held s' = held s - {a}" "nthreads s' = nthreads s"
    and hd: "list_head k (threads (st s') t) = Some a" "op_next g' = list_head k (threads (st s) t)" "same_heads k t s s'"
  shows "inv_lists (upd_list k t (a # L k t) L) s'"
proof -
  let ?L = "upd_list k t (a # L k t) L"
  note I = inv_listsD [OF inv]
  have nx: "b \<noteq> a \<Longrightarrow> nexts (st s') b = nexts (st s) b" for b by (simp add: nexts_def s')
  have old: "chain (nexts (st s')) (list_head k' (threads (st s) t')) (L k' t')" if "t' < nthreads s" for k' t'
    using I(1) [OF that, of k'] by (rule chain_cong) (use nx I(4) [OF h] in metis)
  have mem: "b \<in> set (?L k' t') \<longleftrightarrow> b \<in> set (L k' t') \<or> (k', t') = (k, t) \<and> b = a" for b k' t'
    by (cases "(k', t') = (k, t)") auto
  show ?thesis
  proof (rule inv_listsI)
    fix k' t' b
    show "chain (nexts (st s')) (list_head k' (threads (st s') t')) (?L k' t')" if "t' < nthreads s'"
    proof (cases "(k', t') = (k, t)")
      case True
      then show ?thesis using old [OF t, of k] hd(1,2) by (simp add: nexts_def s')
    next
      case False
      then show ?thesis using old [of t' k'] that hd(3) by (simp add: s' same_heads_def)
    qed
    show "?L k' t' = []" if "nthreads s' \<le> t'" using I(2) [of t' k'] that t by (cases "(k', t') = (k, t)") (auto simp: s')
    show "distinct (?L k' t')" using I(3,4) h by (cases "(k', t') = (k, t)") auto
    show "b \<notin> set (?L k' t')" if "b \<in> held s'" using that mem I(4) by (auto simp: s')
    show "b \<notin> set (?L k2 t2)" if "(k', t') \<noteq> (k2, t2)" "b \<in> set (?L k' t')" for k2 t2
      using that mem I(4) [OF h] I(5) by (metis (no_types))
    show "?L StackI t' \<noteq> []" if "t' < nthreads s'" using that I(6) by (cases "(StackI, t') = (k, t)") (auto simp: s')
    show "ops (st s') b \<noteq> None" if "b \<in> held s'" using that I(7) by (auto simp: s')
    show "b < next_addr (st s')" if "ops (st s') b \<noteq> None" using that I(8) I(7) [OF h] by (cases "b = a") (auto simp: s')
    show "b \<in> held s' \<or> (\<exists>k t. b \<in> set (?L k t))" if "ops (st s') b \<noteq> None"
    proof (cases "b = a")
      case True
      then show ?thesis using mem by blast
    next
      case False
      then show ?thesis using I(9) [of b] that mem by (auto simp: s')
    qed
  qed
qed

text \<open>A whole list moves to an empty one of the same thread.\<close>

lemma move_list:
  assumes inv: "inv_lists L s" and t: "t < nthreads s" and k: "k \<noteq> k2" "k2 \<noteq> StackI" and e: "L k t = []"
    and s': "ops (st s') = ops (st s)" "next_addr (st s') = next_addr (st s)" "held s' = held s" "nthreads s' = nthreads s"
    and hd: "list_head k (threads (st s') t) = list_head k2 (threads (st s) t)" "list_head k2 (threads (st s') t) = None"
      "\<And>k' t'. (k', t') \<noteq> (k, t) \<Longrightarrow> (k', t') \<noteq> (k2, t) \<Longrightarrow> list_head k' (threads (st s') t') = list_head k' (threads (st s) t')"
  shows "inv_lists (upd_list k t (L k2 t) (upd_list k2 t [] L)) s'"
proof -
  let ?L = "upd_list k t (L k2 t) (upd_list k2 t [] L)"
  note I = inv_listsD [OF inv]
  have nx: "nexts (st s') = nexts (st s)" by (auto simp: nexts_def s')
  have at: "?L k t = L k2 t" "?L k2 t = []" "(k', t') \<noteq> (k, t) \<Longrightarrow> (k', t') \<noteq> (k2, t) \<Longrightarrow> ?L k' t' = L k' t'" for k' t'
    using k by (auto simp: upd_list_def)
  define src where "src k' t' = (if (k', t') = (k, t) then (k2, t) else if (k', t') = (k2, t) then (k, t) else (k', t'))" for k' t'
  have swap: "?L k' t' = L (fst (src k' t')) (snd (src k' t'))" for k' t' using at e by (auto simp: src_def)
  have inj: "(k', t') \<noteq> (k3, t3) \<Longrightarrow> src k' t' \<noteq> src k3 t3" for k' t' k3 t3 using k by (auto simp: src_def split: if_splits)
  show ?thesis
  proof (rule inv_listsI)
    fix k' t' b
    show "chain (nexts (st s')) (list_head k' (threads (st s') t')) (?L k' t')" if "t' < nthreads s'"
      using I(1) [of t' k'] I(1) [OF t, of k2] that at hd by (cases "(k', t') = (k, t)"; cases "(k', t') = (k2, t)") (auto simp: s' nx)
    show "?L k' t' = []" if "nthreads s' \<le> t'" using I(2) [of t' k'] that t at by (cases "(k', t') = (k, t)"; cases "(k', t') = (k2, t)") (auto simp: s')
    show "distinct (?L k' t')" unfolding swap by (rule I(3))
    show "b \<notin> set (?L k' t')" if "b \<in> held s'" unfolding swap by (rule I(4)) (use that in \<open>simp add: s'\<close>)
    show "b \<notin> set (?L k3 t3)" if "(k', t') \<noteq> (k3, t3)" "b \<in> set (?L k' t')" for k3 t3
      using that(2) inj [OF that(1)] unfolding swap by (metis I(5) prod.collapse)
    show "?L StackI t' \<noteq> []" if "t' < nthreads s'"
    proof -
      have "L StackI t' \<noteq> []" using I(6) that by (simp add: s')
      then have "(StackI, t') \<noteq> (k, t)" "(StackI, t') \<noteq> (k2, t)" using e k(2) by auto
      then show ?thesis using at(3) \<open>L StackI t' \<noteq> []\<close> by simp
    qed
    show "ops (st s') b \<noteq> None" if "b \<in> held s'" using that I(7) by (simp add: s')
    show "b < next_addr (st s')" if "ops (st s') b \<noteq> None" using that I(8) by (simp add: s')
    show "b \<in> held s' \<or> (\<exists>k t. b \<in> set (?L k t))" if "ops (st s') b \<noteq> None"
    proof -
      have "ops (st s) b \<noteq> None" using that by (simp add: s')
      from I(9) [OF this] consider "b \<in> held s" | k3 t3 where "b \<in> set (L k3 t3)" by blast
      then show ?thesis
      proof cases
        case 2
        then have "b \<in> set (?L (fst (src k3 t3)) (snd (src k3 t3)))" unfolding swap using k by (auto simp: src_def split: if_splits)
        then show ?thesis by blast
      qed (simp add: s')
    qed
  qed
qed

section \<open>Steps that change lists\<close>

text \<open>What a caller sees of an object and of its lists stays the same.\<close>

definition same_view :: "ev_lists \<Rightarrow> ev_sys \<Rightarrow> ev_lists \<Rightarrow> ev_sys \<Rightarrow> nat \<Rightarrow> bool" where
  "same_view L s L' s' b \<longleftrightarrow> ops (st s') b = ops (st s) b \<and> root_pend s' b = root_pend s b \<and> lc_pend s' b = lc_pend s b \<and>
     (b \<in> armed s' \<longleftrightarrow> b \<in> armed s) \<and> pend s' b = pend s b \<and> started s' b = started s b \<and> finished s' b = finished s b \<and>
     (b \<in> held s' \<longleftrightarrow> b \<in> held s)"

lemma struct_step:
  assumes inv: "ev_inv L s" and lists: "inv_lists L' s'" and n: "nthreads s \<le> nthreads s'" and f: "finishing s' = finishing s"
    and view: "\<And>b. b \<notin> A \<Longrightarrow> same_view L s L' s' b"
    and mem: "\<And>b t. b \<notin> A \<Longrightarrow> b \<in> set (L' FreeE t) \<or> b \<in> set (L' ForE t) \<longleftrightarrow> b \<in> set (L FreeE t) \<or> b \<in> set (L ForE t)"
      "\<And>b t. b \<notin> A \<Longrightarrow> b \<in> set (L' FreeI t) \<or> b \<in> set (L' ForI t) \<longleftrightarrow> b \<in> set (L FreeI t) \<or> b \<in> set (L ForI t)"
      "\<And>b t. b \<notin> A \<Longrightarrow> b \<in> set (L' StackI t) \<longleftrightarrow> b \<in> set (L StackI t)"
      "\<And>b. b \<notin> A \<Longrightarrow> implicit L' b \<longleftrightarrow> implicit L b"
    and obj: "\<And>b. b \<in> A \<Longrightarrow> \<exists>g. ops (st s') b = Some g \<and> obj_ok L' s' b g" and fin: "finishing_ok s'"
  shows "ev_inv L' s'"
proof -
  note V = view [unfolded same_view_def]
  have "obj_ok L' s' b g" if g: "ops (st s') b = Some g" for b g
  proof (cases "b \<in> A")
    case True
    then show ?thesis using obj [OF True] g by auto
  next
    case False
    then have "obj_ok L s b g" using V [OF False] g inv by (simp add: ev_inv_def)
    then show ?thesis by (rule obj_ok_cong) (use V [OF False] n f mem False in simp_all)
  qed
  moreover have "ghosts_ok s'"
    unfolding ghosts_ok_def
  proof (intro allI impI)
    fix b
    assume none: "ops (st s') b = None"
    then have b: "b \<notin> A" using obj by force
    then have "ops (st s) b = None" using V [OF b] none by simp
    then show "\<not> root_pend s' b \<and> \<not> lc_pend s' b \<and> b \<notin> armed s' \<and> (\<forall>c. pend s' b c = 0 \<and> started s' b c = 0 \<and> finished s' b c = 0)"
      using inv V [OF b] unfolding ev_inv_def ghosts_ok_def by simp
  qed
  ultimately show ?thesis using lists fin by (simp add: ev_inv_def)
qed

lemma pop_mem: "L k t = a # xs \<Longrightarrow> b \<noteq> a \<Longrightarrow> b \<in> set (upd_list k t xs L k' t') \<longleftrightarrow> b \<in> set (L k' t')"
  by (cases "(k', t') = (k, t)") auto

lemma push_mem: "b \<noteq> a \<Longrightarrow> b \<in> set (upd_list k t (a # L k t) L k' t') \<longleftrightarrow> b \<in> set (L k' t')"
  by (cases "(k', t') = (k, t)") auto

lemma upd_implicit:
  "k \<noteq> StackI \<Longrightarrow> implicit (upd_list k t xs L) b \<longleftrightarrow> implicit L b"
  "L StackI t = a # xs \<Longrightarrow> xs \<noteq> [] \<Longrightarrow> implicit (upd_list StackI t xs L) b \<longleftrightarrow> implicit L b"
  "L StackI t \<noteq> [] \<Longrightarrow> implicit (upd_list StackI t (a # L StackI t) L) b \<longleftrightarrow> implicit L b"
proof -
  assume "k \<noteq> StackI"
  then have "upd_list k t xs L StackI = L StackI" by (simp add: upd_list_def)
  then show "implicit (upd_list k t xs L) b \<longleftrightarrow> implicit L b" by (simp add: implicit_def)
next
  assume a: "L StackI t = a # xs" "xs \<noteq> []"
  have "upd_list StackI t xs L StackI u \<noteq> [] \<and> b = last (upd_list StackI t xs L StackI u) \<longleftrightarrow> L StackI u \<noteq> [] \<and> b = last (L StackI u)" for u
    using a by (cases "u = t") auto
  then show "implicit (upd_list StackI t xs L) b \<longleftrightarrow> implicit L b" by (simp add: implicit_def)
next
  assume a: "L StackI t \<noteq> []"
  have "upd_list StackI t (a # L StackI t) L StackI u \<noteq> [] \<and> b = last (upd_list StackI t (a # L StackI t) L StackI u) \<longleftrightarrow>
      L StackI u \<noteq> [] \<and> b = last (L StackI u)" for u
    using a by (cases "u = t") auto
  then show "implicit (upd_list StackI t (a # L StackI t) L) b \<longleftrightarrow> implicit L b" by (simp add: implicit_def)
qed

lemma same_finishing:
  "finishing_ok s \<Longrightarrow> finishing s' = finishing s \<Longrightarrow> finished s' = finished s \<Longrightarrow> started s' = started s \<Longrightarrow>
   (\<And>a. ops (st s) a \<noteq> None \<Longrightarrow> ops (st s') a \<noteq> None) \<Longrightarrow> finishing_ok s'"
proof -
  assume a: "finishing_ok s" "finishing s' = finishing s" "finished s' = finished s" "started s' = started s"
    "\<And>a. ops (st s) a \<noteq> None \<Longrightarrow> ops (st s') a \<noteq> None"
  show ?thesis
  proof (rule finishing_okI)
    fix b d v w
    assume "(b, d, v, w) \<in> finishing s'"
    then show "w = of_nat v \<and> 0 < v \<and> v \<le> finished s' b d \<and> started s' b d < v + 0x100000000 \<and> ops (st s') b \<noteq> None"
      using finishing_okD [OF a(1), of b d v w] a(2-5) by simp
  qed
qed

end
