(* ===== verification/Event_Steps.thy ===== *)
theory Event_Steps
  imports Event_Lists
begin

text \<open>
  The actions that take objects from lists and put them back: new threads, new explicit and implicit
  operations, access regions, and tests that free what they find done. With the earlier actions:
  every reachable state of the system has the invariant, and no assertion of the code fails.
\<close>

section \<open>Explicit operations\<close>

lemma chain_upt:
  "b < e \<Longrightarrow> (\<And>a. b \<le> a \<Longrightarrow> a < e \<Longrightarrow> nx a = Some (if a + 1 < e then Some (a + 1) else None)) \<Longrightarrow> chain nx (Some b) [b..<e]"
proof (induction "e - b" arbitrary: b)
  case 0
  then show ?case by simp
next
  case (Suc n)
  show ?case
  proof (cases "b + 1 < e")
    case True
    have "chain nx (Some (b + 1)) [b + 1..<e]" by (rule Suc.hyps(1)) (use Suc.hyps(2) Suc.prems True in simp_all)
    then show ?thesis using Suc.prems(1) Suc.prems(2) [of b] True by (simp add: upt_conv_Cons)
  next
    case False
    then have "e = Suc b" using Suc.prems(1) by simp
    then show ?thesis using Suc.prems(2) [of b] by simp
  qed
qed

lemma alloc_lists:
  assumes inv: "inv_lists L s" and t: "t < nthreads s" and e: "L FreeE t = []"
    and s': "ops (st s') = (\<lambda>a. if next_addr (st s) \<le> a \<and> a < next_addr (st s) + n
        then Some (new_eop t (if a + 1 < next_addr (st s) + n then Some (a + 1) else None)) else ops (st s) a)"
      "next_addr (st s') = next_addr (st s) + n" "held s' = held s" "nthreads s' = nthreads s" and n: "0 < n"
    and hd: "list_head FreeE (threads (st s') t) = Some (next_addr (st s))" "same_heads FreeE t s s'"
  shows "inv_lists (upd_list FreeE t [next_addr (st s)..<next_addr (st s) + n] L) s'"
proof -
  let ?b = "next_addr (st s)"
  let ?L = "upd_list FreeE t [?b..<?b + n] L"
  note I = inv_listsD [OF inv]
  have old: "a < ?b" if "a \<in> set (L k' t')" for a k' t'
  proof -
    have "t' < nthreads s" using that I(2) [of t' k'] by (cases "t' < nthreads s") auto
    from chain_mem [OF I(1) [OF this] that] show ?thesis using I(8) [of a] by (auto simp: nexts_def)
  qed
  have oldh: "a < ?b" if "a \<in> held s" for a using I(7,8) that by blast
  have mem: "a \<in> set (?L k' t') \<longleftrightarrow> a \<in> set (L k' t') \<or> (k', t') = (FreeE, t) \<and> ?b \<le> a \<and> a < ?b + n" for a k' t'
    using e by (cases "(k', t') = (FreeE, t)") auto
  show ?thesis
  proof (rule inv_listsI)
    fix k' t' a
    show "chain (nexts (st s')) (list_head k' (threads (st s') t')) (?L k' t')" if "t' < nthreads s'"
    proof (cases "(k', t') = (FreeE, t)")
      case True
      have "chain (nexts (st s')) (Some ?b) [?b..<?b + n]"
        by (rule chain_upt) (use n in \<open>auto simp: nexts_def s' new_eop_def\<close>)
      then show ?thesis using True hd(1) by simp
    next
      case False
      then have "chain (nexts (st s)) (list_head k' (threads (st s') t')) (?L k' t')"
        using I(1) [of t' k'] that hd(2) by (simp add: s' same_heads_def)
      moreover have "nexts (st s') x = nexts (st s) x" if "x \<in> set (?L k' t')" for x
        using old [of x k' t'] that False by (simp add: nexts_def s')
      ultimately show ?thesis by (rule chain_cong)
    qed
    show "?L k' t' = []" if "nthreads s' \<le> t'" using I(2) [of t' k'] that t by (cases "(k', t') = (FreeE, t)") (auto simp: s')
    show "distinct (?L k' t')" using I(3) by (cases "(k', t') = (FreeE, t)") auto
    show "a \<notin> set (?L k' t')" if "a \<in> held s'" using that mem [of a k' t'] I(4) [of a k' t'] oldh [of a] by (simp add: s')
    show "a \<notin> set (?L k2 t2)" if "(k', t') \<noteq> (k2, t2)" "a \<in> set (?L k' t')" for k2 t2
      using that mem [of a k' t'] mem [of a k2 t2] I(5) [OF that(1), of a] old [of a k' t'] old [of a k2 t2] by auto
    show "?L StackI t' \<noteq> []" if "t' < nthreads s'" using that I(6) by (simp add: s')
    show "ops (st s') a \<noteq> None" if "a \<in> held s'" using that I(7) by (auto simp: s')
    show "a < next_addr (st s')" if "ops (st s') a \<noteq> None" using that I(8) [of a] by (force simp: s' split: if_splits)
    show "a \<in> held s' \<or> (\<exists>k t. a \<in> set (?L k t))" if "ops (st s') a \<noteq> None"
    proof (cases "?b \<le> a \<and> a < ?b + n")
      case True
      then show ?thesis using mem by blast
    next
      case False
      then have "ops (st s) a \<noteq> None" using that by (auto simp: s')
      from I(9) [OF this] show ?thesis using mem by (auto simp: s')
    qed
  qed
qed

lemma refill_inv:
  assumes inv: "ev_inv L s" and t: "t < nthreads s"
  shows "\<exists>L' o1. refill_eops t (st s) = Some o1 \<and> ev_inv L' (s\<lparr>st := o1\<rparr>) \<and> L' FreeE t \<noteq> []"
proof -
  let ?d = "threads (st s) t"
  have il: "inv_lists L s" and fin: "finishing_ok s" using inv by (simp_all add: ev_inv_def)
  have ch: "chain (nexts (st s)) (list_head k ?d) (L k t)" for k by (rule inv_listsD(1) [OF il t])
  consider (own) "eop_free ?d \<noteq> None" | (foreign) "eop_free ?d = None" "foreign_eops ?d \<noteq> None"
    | (chunk) "eop_free ?d = None" "foreign_eops ?d = None" by blast
  then show ?thesis
  proof cases
    case own
    then have "L FreeE t \<noteq> []" using ch [of FreeE] by auto
    then show ?thesis using own inv by (intro exI [of _ L] exI [of _ "st s"]) (simp add: refill_eops_def)
  next
    case foreign
    let ?o = "set_thread t (?d\<lparr>eop_free := foreign_eops ?d, foreign_eops := None\<rparr>) (st s)"
    let ?L = "upd_list FreeE t (L ForE t) (upd_list ForE t [] L)"
    have e: "L FreeE t = []" "L ForE t \<noteq> []" using ch [of FreeE] ch [of ForE] foreign by (auto dest: ev_chain_head split: list.splits)
    have "list_head k' (threads ?o t') = list_head k' (threads (st s) t')" if "(k', t') \<noteq> (FreeE, t)" "(k', t') \<noteq> (ForE, t)" for k' t'
      using that by (cases k') auto
    then have l: "inv_lists ?L (s\<lparr>st := ?o\<rparr>)" by (intro move_list [OF il t _ _ e(1)]) simp_all
    have m: "?L k' t' = (if (k', t') = (FreeE, t) then L ForE t else if (k', t') = (ForE, t) then [] else L k' t')" for k' t'
      by (auto simp: upd_list_def)
    have "ev_inv ?L (s\<lparr>st := ?o\<rparr>)"
    proof (rule struct_step [OF inv l, where A = "{}"])
      show "finishing_ok (s\<lparr>st := ?o\<rparr>)" by (rule same_finishing [OF fin]) simp_all
      show "implicit ?L b \<longleftrightarrow> implicit L b" for b by (simp add: upd_implicit)
      show "b \<in> set (?L FreeE t') \<or> b \<in> set (?L ForE t') \<longleftrightarrow> b \<in> set (L FreeE t') \<or> b \<in> set (L ForE t')" for b t'
        using e by (auto simp: m)
    qed (simp_all add: same_view_def m)
    then show ?thesis using foreign e by (intro exI [of _ ?L] exI [of _ ?o]) (simp add: refill_eops_def Let_def)
  next
    case chunk
    let ?b = "next_addr (st s)" and ?n = GASNETE_EOP_CHUNKCNT
    let ?o = "set_thread t (?d\<lparr>eop_num_bufs := eop_num_bufs ?d + 1, eop_free := Some ?b\<rparr>)
          ((st s)\<lparr>ops := (\<lambda>a. if ?b \<le> a \<and> a < ?b + ?n then Some (new_eop t (if a + 1 < ?b + ?n then Some (a + 1) else None)) else ops (st s) a),
             next_addr := ?b + ?n\<rparr>)"
    let ?s' = "s\<lparr>st := ?o\<rparr>"
    let ?L = "upd_list FreeE t [?b..<?b + ?n] L"
    have r: "refill_eops t (st s) = Some ?o" using chunk by (simp add: refill_eops_def gasnete_eop_alloc_def Let_def)
    have e: "L FreeE t = []" using ch [of FreeE] chunk by (auto dest: ev_chain_head split: list.splits)
    have pos: "0 < ?n" by (simp add: GASNETE_EOP_CHUNKCNT_def)
    have sh: "same_heads FreeE t s ?s'"
    proof -
      have "list_head k' (threads ?o t') = list_head k' (threads (st s) t')" if "(k', t') \<noteq> (FreeE, t)" for k' t' using that by (cases k') auto
      then show ?thesis by (simp add: same_heads_def)
    qed
    have l: "inv_lists ?L ?s'" by (rule alloc_lists [OF il t e]) (use pos sh in simp_all)
    let ?A = "{?b..<?b + ?n}"
    have fresh: "ops (st s) b = None" if "b \<in> ?A" for b using inv_listsD(8) [OF il, of b] that by (cases "ops (st s) b") auto
    have old: "b \<notin> set (L k' t')" if "b \<in> ?A" for b k' t'
    proof
      assume m: "b \<in> set (L k' t')"
      then have "t' < nthreads s" using inv_listsD(2) [OF il, of t' k'] by (cases "t' < nthreads s") auto
      from chain_mem [OF inv_listsD(1) [OF il this] m] show False using fresh [OF that] by (simp add: nexts_def)
    qed
    have mem: "b \<in> set (?L k' t') \<longleftrightarrow> b \<in> set (L k' t') \<or> (k', t') = (FreeE, t) \<and> b \<in> ?A" for b k' t'
      using e by (cases "(k', t') = (FreeE, t)") auto
    have "ev_inv ?L ?s'"
    proof (rule struct_step [OF inv l, where A = ?A])
      show "finishing_ok ?s'" by (rule same_finishing [OF fin]) auto
      show "implicit ?L b \<longleftrightarrow> implicit L b" for b by (rule upd_implicit) simp
      fix b
      show "same_view L s ?L ?s' b" if "b \<notin> ?A" using that by (auto simp: same_view_def)
      show "\<exists>g. ops (st ?s') b = Some g \<and> obj_ok ?L ?s' b g" if b: "b \<in> ?A"
      proof -
        let ?g = "new_eop t (if b + 1 < ?b + ?n then Some (b + 1) else None)"
        have ghost: "\<not> root_pend s b \<and> \<not> lc_pend s b \<and> b \<notin> armed s \<and> (\<forall>c. pend s b c = 0 \<and> started s b c = 0 \<and> finished s b c = 0)"
          using inv fresh [OF b] unfolding ev_inv_def ghosts_ok_def by blast
        have nh: "b \<notin> held s" using inv_listsD(7) [OF il] fresh [OF b] by blast
        have bytes: "event ?g = [event_type_free_eop, 0, 0, 0, 0, 0]" "threadidx ?g = t"
          by (simp_all add: new_eop_def GASNETE_OP_EVENTS_def eval_nat_numeral)
        then have e: "is_eop ?g" and ok: "eop_ok False False ?g" by (simp_all add: is_eop_def eop_ok_def)
        have "obj_ok ?L ?s' b ?g" unfolding obj_ok_def
          using e ok ghost nh t bytes mem [of b] old [OF b] by simp
        then show ?thesis using b by auto
      qed
    qed (use mem in auto)
    moreover have "?L FreeE t \<noteq> []" using pos by simp
    ultimately show ?thesis using r by blast
  qed
qed

text \<open>An object taken from the free list of its thread.\<close>

lemma eop_taken:
  assumes inv: "ev_inv L s" and t: "t < nthreads s" and on: "L FreeE t = a # xs" and g: "ops (st s) a = Some g"
    and b: "rp \<and> \<not> lp \<and> b1' = event g ! 1 \<or> \<not> rp \<and> lp \<and> b1' = ev_byte event_type_lc True"
    and g': "g' = g\<lparr>event := [ev_byte event_type_eop rp, b1', 0, 0, 0, 0]\<rparr>"
    and o1: "ops o1 = (ops (st s))(a \<mapsto> g')" "next_addr o1 = next_addr (st s)"
      "threads o1 = (threads (st s))(t := (threads (st s) t)\<lparr>eop_free := op_next g\<rparr>)"
    and s': "s' = s\<lparr>st := o1, held := insert a (held s), root_pend := (root_pend s)(a := rp), lc_pend := (lc_pend s)(a := lp)\<rparr>"
  shows "ev_inv (upd_list FreeE t xs L) s'"
proof -
  let ?L = "upd_list FreeE t xs L"
  have il: "inv_lists L s" and fin: "finishing_ok s" using inv by (simp_all add: ev_inv_def)
  have "list_head k' (threads o1 t') = list_head k' (threads (st s) t')" if "(k', t') \<noteq> (FreeE, t)" for k' t'
    using that by (cases k') (auto simp: o1)
  then have sh: "same_heads FreeE t s s'" by (simp add: same_heads_def s')
  have l: "inv_lists ?L s'" by (rule pop_list [OF il t on g]) (use sh in \<open>simp_all add: s' o1\<close>)
  note obj = inv_obj [OF inv g]
  have fr: "event g ! 0 = event_type_free_eop" "\<not> lc_pend s a" "threadidx g = t" using list_facts(1) [OF obj, of t] on by simp_all
  have e: "is_eop g" using fr by (simp add: is_eop_def)
  have gh: "a \<notin> armed s" "pend s a c = 0 \<and> started s a c = 0 \<and> finished s a c = 0" for c using obj e unfolding obj_ok_def by simp_all
  show ?thesis
  proof (rule struct_step [OF inv l, where A = "{a}"])
    show "finishing_ok s'" by (rule same_finishing [OF fin]) (simp_all add: s' o1)
    show "\<And>b. b \<notin> {a} \<Longrightarrow> same_view L s ?L s' b" by (simp add: same_view_def s' o1)
    show "\<And>b. implicit ?L b \<longleftrightarrow> implicit L b" by (rule upd_implicit) simp
    fix c
    assume "c \<in> {a}"
    moreover have "obj_ok ?L s' a g'"
    proof -
      obtain c0 c1 where eb: "event g = [c0, c1, 0, 0, 0, 0]" "c1 = ev_byte event_type_lc (lc_pend s a) \<or> c1 = 0 \<and> \<not> lc_pend s a"
        using eop_bytes [OF obj e] by metis
      have ok: "eop_ok rp lp g'" unfolding eop_ok_def g' using b eb fr(2) by auto
      have e': "is_eop g'" "OPTYPE g' = event_type_eop" by (simp_all add: is_eop_def g' event_views)
      have "a \<in> held s'" by (simp add: s')
      then have out: "a \<notin> set (?L k' t')" for k' t' using inv_listsD(4) [OF l] by blast
      have th: "threadidx g' = t" "root_pend s' a = rp" "lc_pend s' a = lp" "nthreads s' = nthreads s" "armed s' = armed s" "pend s' = pend s"
        "started s' = started s" "finished s' = finished s" using fr(3) by (simp_all add: s' g')
      show ?thesis unfolding obj_ok_def th using ok e' gh t out by (simp del: upd_list_simps)
    qed
    ultimately show "\<exists>g. ops (st s') c = Some g \<and> obj_ok ?L s' c g" by (simp add: s' o1)
  qed (use pop_mem [of L FreeE t a xs] on in \<open>auto simp: s'\<close>)
qed

text \<open>The object \<open>eop_new_raw\<close> returns.\<close>

lemma eop_raw:
  assumes inv: "ev_inv L s" and t: "t < nthreads s"
  obtains L' o1 a xs g where "ev_inv L' (s\<lparr>st := o1\<rparr>)" "L' FreeE t = a # xs" "ops o1 a = Some g" "lc_pend s a = False" "root_pend s a = False"
    "eop_new_raw t (st s) = Some (a, set_op a (set_event 0 event_type_eop g) (set_thread t ((threads o1 t)\<lparr>eop_free := op_next g\<rparr>) o1))"
    "event g = [event_type_free_eop, event g ! 1, 0, 0, 0, 0]" "event g ! 1 = event_type_lc \<or> event g ! 1 = 0" "a \<notin> held s"
proof -
  obtain L' o1 where r: "refill_eops t (st s) = Some o1" "ev_inv L' (s\<lparr>st := o1\<rparr>)" "L' FreeE t \<noteq> []"
    using refill_inv [OF inv t] by blast
  then obtain a xs where on: "L' FreeE t = a # xs" by (cases "L' FreeE t") auto
  have il: "inv_lists L' (s\<lparr>st := o1\<rparr>)" using r(2) by (simp add: ev_inv_def)
  from inv_listsD(1) [OF il, of t FreeE] obtain g where hd: "eop_free (threads o1 t) = Some a" and g: "ops o1 a = Some g"
    using t on by (auto simp: nexts_def)
  have obj: "obj_ok L' (s\<lparr>st := o1\<rparr>) a g" using inv_obj [OF r(2)] g by simp
  have fr: "event g ! 0 = event_type_free_eop" "\<not> lc_pend s a" "threadidx g = t" using list_facts(1) [OF obj, of t] on by simp_all
  have e: "is_eop g" using fr by (simp add: is_eop_def)
  obtain b0 b1 where eb: "event g = [b0, b1, 0, 0, 0, 0]" "b0 = ev_byte event_type_eop (root_pend s a) \<or> b0 = event_type_free_eop \<and> \<not> root_pend s a"
    "b1 = ev_byte event_type_lc (lc_pend s a) \<or> b1 = 0 \<and> \<not> lc_pend s a" using eop_bytes [OF obj e] by auto
  have b0: "b0 = event_type_free_eop" and b1: "b1 = event_type_lc \<or> b1 = 0" using eb fr by auto
  have nr: "\<not> root_pend s a" using eb(2) b0 small_not_live [of event_type_free_eop] ev_byte_simps(1) [of event_type_eop True] by (metis small_types(2,6))
  have "eop_new_raw t (st s) = Some (a, set_op a (set_event 0 event_type_eop g) (set_thread t ((threads o1 t)\<lparr>eop_free := op_next g\<rparr>) o1))"
    using r(1) hd g fr(3) eb(1) b0 b1 by (auto simp: eop_new_raw_def GASNETE_EOP_DONE_def GASNETE_EOP_LC_DONE_def event_views)
  moreover have "a \<notin> held s" using inv_listsD(4) [OF il, of a FreeE t] on by auto
  ultimately show ?thesis using that r(2) on g fr(2) nr eb(1) b0 b1 by simp
qed

lemma eop_new_inv:
  assumes inv: "ev_inv L s" and ok: "ev_allowed (EopNew t) s"
  shows "\<exists>s' L'. ev_do stats (EopNew t) s = Some s' \<and> ev_inv L' s'"
proof -
  have t: "t < nthreads s" using ok by simp
  from inv t obtain L' o1 a xs g where R: "ev_inv L' (s\<lparr>st := o1\<rparr>)" "L' FreeE t = a # xs" "ops o1 a = Some g" "lc_pend s a = False" "root_pend s a = False"
    "eop_new_raw t (st s) = Some (a, set_op a (set_event 0 event_type_eop g) (set_thread t ((threads o1 t)\<lparr>eop_free := op_next g\<rparr>) o1))"
    "event g = [event_type_free_eop, event g ! 1, 0, 0, 0, 0]" "event g ! 1 = event_type_lc \<or> event g ! 1 = 0" "a \<notin> held s" by (rule eop_raw)
  let ?h = "set_event 0 event_type_eop g" and ?g = "g\<lparr>event := [ev_byte event_type_eop True, event g ! 1, 0, 0, 0, 0]\<rparr>"
  let ?s1 = "set_thread t ((threads o1 t)\<lparr>eop_free := op_next g\<rparr>) o1"
  have "SET_EVENT_TYPE 0 event_type_eop ?h = Some (set_event 0 (ev_byte event_type_eop True) ?h)"
    by (rule set_type_ok) (use R(7) in \<open>cases "event g"; simp\<close>)+
  moreover have "set_event 0 (ev_byte event_type_eop True) ?h = ?g" using R(7) by (cases "event g") (simp_all add: set_event_def)
  ultimately have "gasnete_eop_new t (st s) = Some (a, set_op a ?g (set_op a ?h ?s1))"
    using R(6) by (simp add: gasnete_eop_new_def with_op_def)
  then have d: "ev_do stats (EopNew t) s = Some (s\<lparr>st := set_op a ?g (set_op a ?h ?s1), held := insert a (held s), root_pend := (root_pend s)(a := True)\<rparr>)"
    (is "_ = Some ?s'") by simp
  have "ev_inv (upd_list FreeE t xs L') ?s'"
    by (rule eop_taken [OF R(1), of t a xs g True False "event g ! 1" ?g "set_op a ?g (set_op a ?h ?s1)"])
      (use R t in \<open>simp_all add: fun_upd_idem\<close>)
  then show ?thesis using d by blast
qed

lemma eop_new_alc_inv:
  assumes inv: "ev_inv L s" and ok: "ev_allowed (EopNewAlc t) s"
  shows "\<exists>s' L'. ev_do stats (EopNewAlc t) s = Some s' \<and> ev_inv L' s'"
proof -
  have t: "t < nthreads s" using ok by simp
  from inv t obtain L' o1 a xs g where R: "ev_inv L' (s\<lparr>st := o1\<rparr>)" "L' FreeE t = a # xs" "ops o1 a = Some g" "lc_pend s a = False" "root_pend s a = False"
    "eop_new_raw t (st s) = Some (a, set_op a (set_event 0 event_type_eop g) (set_thread t ((threads o1 t)\<lparr>eop_free := op_next g\<rparr>) o1))"
    "event g = [event_type_free_eop, event g ! 1, 0, 0, 0, 0]" "event g ! 1 = event_type_lc \<or> event g ! 1 = 0" "a \<notin> held s" by (rule eop_raw)
  let ?h = "set_event 0 event_type_eop g" and ?g = "g\<lparr>event := [ev_byte event_type_eop False, ev_byte event_type_lc True, 0, 0, 0, 0]\<rparr>"
  let ?s1 = "set_thread t ((threads o1 t)\<lparr>eop_free := op_next g\<rparr>) o1"
  obtain b where b: "event g = [event_type_free_eop, b, 0, 0, 0, 0]" "b = event_type_lc \<or> b = 0" using R(7,8) by metis
  have "SET_EVENT_TYPE (event_index Alc) event_type_lc ?h = Some (set_event 1 (ev_byte event_type_lc True) ?h)"
    using set_type_ok [of 1 event_type_lc ?h] b by auto
  moreover have "set_event 1 (ev_byte event_type_lc True) ?h = ?g" using b by (simp add: set_event_def)
  ultimately have "gasnete_eop_new_alc t (st s) = Some (a, set_op a ?g (set_op a ?h ?s1))"
    using R(6) by (simp add: gasnete_eop_new_alc_def GASNETE_EOP_LC_START_def with_op_def)
  then have d: "ev_do stats (EopNewAlc t) s = Some (s\<lparr>st := set_op a ?g (set_op a ?h ?s1), held := insert a (held s), lc_pend := (lc_pend s)(a := True)\<rparr>)"
    (is "_ = Some ?s'") by simp
  have "ev_inv (upd_list FreeE t xs L') ?s'"
    by (rule eop_taken [OF R(1), of t a xs g False True "ev_byte event_type_lc True" ?g "set_op a ?g (set_op a ?h ?s1)"])
      (use R t in \<open>simp_all add: fun_upd_idem\<close>)
  then show ?thesis using d by blast
qed

section \<open>Threads\<close>

lemma new_lists:
  assumes inv: "inv_lists L s" and a: "a = next_addr (st s)"
    and s': "ops (st s') = (ops (st s))(a \<mapsto> g')" "next_addr (st s') = a + 1"
  shows "held s' = insert a (held s) \<Longrightarrow> nthreads s' = nthreads s \<Longrightarrow>
      (\<And>k t. list_head k (threads (st s') t) = list_head k (threads (st s) t)) \<Longrightarrow> inv_lists L s'"
    and "held s' = held s \<Longrightarrow> nthreads s' = nthreads s + 1 \<Longrightarrow> op_next g' = None \<Longrightarrow>
      (\<And>k t. t < nthreads s \<Longrightarrow> list_head k (threads (st s') t) = list_head k (threads (st s) t)) \<Longrightarrow>
      (\<And>k. list_head k (threads (st s') (nthreads s)) = (if k = StackI then Some a else None)) \<Longrightarrow>
      inv_lists (upd_list StackI (nthreads s) [a] L) s'"
proof -
  note I = inv_listsD [OF inv]
  have none: "ops (st s) a = None" using I(8) [of a] a by (cases "ops (st s) a") auto
  have listed: "t < nthreads s \<and> b < a" if "b \<in> set (L k t)" for b k t
  proof -
    have t: "t < nthreads s" using that I(2) [of t k] by (cases "t < nthreads s") auto
    from chain_mem [OF I(1) [OF this] that] show ?thesis using I(8) [of b] a t by (auto simp: nexts_def)
  qed
  have heldo: "b \<noteq> a" if "b \<in> held s" for b using I(7) [OF that] none by auto
  have nx: "b \<noteq> a \<Longrightarrow> nexts (st s') b = nexts (st s) b" for b by (simp add: nexts_def s')
  have ch: "chain (nexts (st s')) (list_head k (threads (st s) t)) (L k t)" if "t < nthreads s" for k t
    using I(1) [OF that, of k] by (rule chain_cong) (metis nx listed less_irrefl)
  have addr: "b < next_addr (st s')" if "ops (st s') b \<noteq> None" for b using that I(8) [of b] a by (cases "b = a") (auto simp: s')
  show "inv_lists L s'" if h: "held s' = insert a (held s)" "nthreads s' = nthreads s"
    "\<And>k t. list_head k (threads (st s') t) = list_head k (threads (st s) t)"
  proof (rule inv_listsI)
    fix k t b
    show "chain (nexts (st s')) (list_head k (threads (st s') t)) (L k t)" if "t < nthreads s'" using ch [of t k] h that by simp
    show "b \<notin> set (L k t)" if "b \<in> held s'" using that I(4) [of b k t] listed [of b k t] h by auto
    show "ops (st s') b \<noteq> None" if "b \<in> held s'" using that I(7) [of b] h by (auto simp: s')
    show "b \<in> held s' \<or> (\<exists>k t. b \<in> set (L k t))" if "ops (st s') b \<noteq> None"
    proof (cases "b = a")
      case False
      then have "ops (st s) b \<noteq> None" using that by (simp add: s')
      from I(9) [OF this] show ?thesis using h by blast
    qed (simp add: h)
  qed (use I h addr in simp_all)
  show "inv_lists (upd_list StackI (nthreads s) [a] L) s'" if h: "held s' = held s" "nthreads s' = nthreads s + 1" "op_next g' = None"
    "\<And>k t. t < nthreads s \<Longrightarrow> list_head k (threads (st s') t) = list_head k (threads (st s) t)"
    "\<And>k. list_head k (threads (st s') (nthreads s)) = (if k = StackI then Some a else None)"
  proof (rule inv_listsI)
    let ?n = "nthreads s"
    let ?L = "upd_list StackI ?n [a] L"
    have mem: "b \<in> set (?L k t) \<longleftrightarrow> b \<in> set (L k t) \<or> (k, t) = (StackI, ?n) \<and> b = a" for b k t
      using I(2) [of ?n StackI] by (cases "(k, t) = (StackI, ?n)") auto
    fix k t b
    show "chain (nexts (st s')) (list_head k (threads (st s') t)) (?L k t)" if "t < nthreads s'"
    proof (cases "t < ?n")
      case True
      then show ?thesis using ch [OF True, of k] h(4) [OF True, of k] by simp
    next
      case False
      then have "t = ?n" using that h(2) by simp
      then show ?thesis using h(3) h(5) [of k] I(2) [of ?n k] by (cases "k = StackI") (simp_all add: nexts_def s')
    qed
    show "?L k t = []" if "nthreads s' \<le> t" using I(2) [of t k] that h(2) by simp
    show "distinct (?L k t)" using I(3) by (cases "(k, t) = (StackI, ?n)") auto
    show "b \<notin> set (?L k t)" if "b \<in> held s'" using that mem [of b k t] I(4) [of b k t] heldo [of b] h by auto
    show "b \<notin> set (?L k2 t2)" if "(k, t) \<noteq> (k2, t2)" "b \<in> set (?L k t)" for k2 t2
      using that mem [of b k t] mem [of b k2 t2] I(5) [OF that(1), of b] listed [of b k t] listed [of b k2 t2] by auto
    show "?L StackI t \<noteq> []" if "t < nthreads s'" using that I(6) [of t] h(2) by (cases "t = ?n") auto
    show "ops (st s') b \<noteq> None" if "b \<in> held s'" using that I(7) h by (auto simp: s')
    show "b \<in> held s' \<or> (\<exists>k t. b \<in> set (?L k t))" if "ops (st s') b \<noteq> None"
    proof (cases "b = a")
      case True
      then show ?thesis using mem by blast
    next
      case False
      then have "ops (st s) b \<noteq> None" using that by (simp add: s')
      from I(9) [OF this] show ?thesis using h(1) mem by blast
    qed
  qed (rule addr)
qed

lemma fresh_addr:
  assumes inv: "ev_inv L s"
  shows "ops (st s) (next_addr (st s)) = None" "next_addr (st s) \<notin> held s" "next_addr (st s) \<notin> set (L k t)"
    "\<not> root_pend s (next_addr (st s))" "\<not> lc_pend s (next_addr (st s))" "next_addr (st s) \<notin> armed s"
    "pend s (next_addr (st s)) c = 0" "started s (next_addr (st s)) c = 0" "finished s (next_addr (st s)) c = 0"
    "(next_addr (st s), c, v, w) \<notin> finishing s"
proof -
  have il: "inv_lists L s" and fin: "finishing_ok s" and gh: "ghosts_ok s" using inv by (simp_all add: ev_inv_def)
  note I = inv_listsD [OF il]
  show none: "ops (st s) (next_addr (st s)) = None" using I(8) [of "next_addr (st s)"] by (cases "ops (st s) (next_addr (st s))") auto
  show "next_addr (st s) \<notin> held s" using I(7) none by blast
  show "next_addr (st s) \<notin> set (L k t)"
  proof
    assume m: "next_addr (st s) \<in> set (L k t)"
    then have "t < nthreads s" using I(2) [of t k] by (cases "t < nthreads s") auto
    from chain_mem [OF I(1) [OF this] m] show False using none by (simp add: nexts_def)
  qed
  show "\<not> root_pend s (next_addr (st s))" "\<not> lc_pend s (next_addr (st s))" "next_addr (st s) \<notin> armed s"
    "pend s (next_addr (st s)) c = 0" "started s (next_addr (st s)) c = 0" "finished s (next_addr (st s)) c = 0"
    using gh none unfolding ghosts_ok_def by blast+
  show "(next_addr (st s), c, v, w) \<notin> finishing s" using finishing_okD [OF fin] none by blast
qed

definition fresh_iop :: "nat \<Rightarrow> gasnete_op" where
  "fresh_iop t = \<lparr>event = [event_type_iop, 0, 0, 0, 0, 0], threadidx = t, op_next = None, initiated_cnt = (\<lambda>c. 0), completed_cnt = (\<lambda>c. 0)\<rparr>"

lemma fresh_iop_simps [simp]:
  "event (fresh_iop t) = [event_type_iop, 0, 0, 0, 0, 0]" "threadidx (fresh_iop t) = t" "op_next (fresh_iop t) = None"
  "initiated_cnt (fresh_iop t) c = 0" "completed_cnt (fresh_iop t) c = 0" "(fresh_iop t)\<lparr>op_next := None\<rparr> = fresh_iop t"
  by (simp_all add: fresh_iop_def)

lemma iop_alloc_result:
  "gasnete_iop_alloc t o1 = (next_addr o1, set_thread t ((threads o1 t)\<lparr>iop_num := iop_num (threads o1 t) + 1\<rparr>)
     (set_op (next_addr o1) (fresh_iop t) (o1\<lparr>next_addr := next_addr o1 + 1\<rparr>)))"
  by (simp add: gasnete_iop_alloc_def Let_def fresh_iop_def GASNETE_OP_EVENTS_def eval_nat_numeral)

lemma fresh_iop_check: "gasnete_iop_check (fresh_iop t)" "\<not> is_eop (fresh_iop t)" "iop_ok (\<lambda>c. False) (fresh_iop t)"
  by (simp_all add: gasnete_iop_check_def event_views is_eop_def iop_ok_def eop_not_free_byte eop_not_free_byte(3) [symmetric])

lemma new_thread_inv:
  assumes inv: "ev_inv L s"
  shows "\<exists>s' L'. ev_do stats NewThread s = Some s' \<and> ev_inv L' s'"
proof -
  let ?n = "nthreads s" and ?a = "next_addr (st s)"
  let ?o = "set_thread ?n (no_thread\<lparr>iop_num := 1, current_iop := ?a\<rparr>) (set_op ?a (fresh_iop ?n) ((st s)\<lparr>next_addr := ?a + 1\<rparr>))"
  let ?s' = "s\<lparr>st := ?o, nthreads := ?n + 1\<rparr>"
  let ?L = "upd_list StackI ?n [?a] L"
  have il: "inv_lists L s" and fin: "finishing_ok s" using inv by (simp_all add: ev_inv_def)
  note fresh = fresh_addr [OF inv]
  have eq: "gasnete_iop_new stats ?n (set_thread ?n no_thread (st s)) =
     Some (?a, set_thread ?n (no_thread\<lparr>iop_num := 1\<rparr>) (set_op ?a (fresh_iop ?n) ((st s)\<lparr>next_addr := ?a + 1\<rparr>)))"
    by (simp add: gasnete_iop_new_def refill_iops_def no_thread_def iop_alloc_result fresh_iop_check set_op_def set_thread_def)
  have "gasnete_init_threaddata stats ?n (st s) = Some ?o"
    using eq by (simp add: gasnete_init_threaddata_def no_thread_def set_thread_def set_op_def)
  then have d: "ev_do stats NewThread s = Some ?s'" by simp
  have l: "inv_lists ?L ?s'"
  proof (rule new_lists(2) [OF il refl])
    show "list_head k (threads (st ?s') t) = list_head k (threads (st s) t)" if "t < ?n" for k t using that by simp
    show "list_head k (threads (st ?s') ?n) = (if k = StackI then Some ?a else None)" for k by (cases k) (simp_all add: no_thread_def)
    show "op_next (fresh_iop ?n) = None" by (rule fresh_iop_simps)
  qed simp_all
  have imp: "implicit ?L b \<longleftrightarrow> implicit L b \<or> b = ?a" for b
  proof -
    have e: "L StackI ?n = []" using inv_listsD(2) [OF il, of ?n StackI] by simp
    have u: "?L StackI t = (if t = ?n then [?a] else L StackI t)" for t by (cases "t = ?n") simp_all
    show ?thesis
    proof
      assume "implicit ?L b"
      then obtain t where "?L StackI t \<noteq> []" "b = last (?L StackI t)" unfolding implicit_def by blast
      then show "implicit L b \<or> b = ?a" unfolding u implicit_def by (cases "t = ?n") auto
    next
      assume "implicit L b \<or> b = ?a"
      then consider t where "L StackI t \<noteq> []" "b = last (L StackI t)" | "b = ?a" unfolding implicit_def by blast
      then show "implicit ?L b"
      proof cases
        case 1
        then have "?L StackI t = L StackI t" using e u [of t] by auto
        then show ?thesis using 1 unfolding implicit_def by metis
      next
        case 2
        then show ?thesis using u [of ?n] unfolding implicit_def by (metis last.simps list.distinct(1))
      qed
    qed
  qed
  have mem: "b \<in> set (?L k t) \<longleftrightarrow> b \<in> set (L k t) \<or> (k, t) = (StackI, ?n) \<and> b = ?a" for b k t
    using inv_listsD(2) [OF il, of ?n StackI] by (cases "(k, t) = (StackI, ?n)") auto
  have "ev_inv ?L ?s'"
  proof (rule struct_step [OF inv l, where A = "{?a}"])
    show "finishing_ok ?s'" by (rule same_finishing [OF fin]) simp_all
    show "b \<notin> {?a} \<Longrightarrow> same_view L s ?L ?s' b" for b by (simp add: same_view_def)
    show "b \<notin> {?a} \<Longrightarrow> implicit ?L b \<longleftrightarrow> implicit L b" for b using imp by simp
    have "counts_ok ?s' ?a (fresh_iop ?n)" by (rule counts_okI) (use fresh in simp_all)
    moreover have "implicit ?L ?a" using imp by simp
    ultimately have "obj_ok ?L ?s' ?a (fresh_iop ?n)"
      unfolding obj_ok_def using fresh(2-6) fresh(10) fresh_iop_check(2,3) mem [of ?a] by (simp add: event_views)
    then show "\<exists>g. ops (st ?s') b = Some g \<and> obj_ok ?L ?s' b g" if "b \<in> {?a}" for b using that by simp
  qed (use mem in auto)
  then show ?thesis using d by blast
qed

section \<open>Access regions\<close>

text \<open>The object of a new region, made of one that is quiet.\<close>

definition region :: "nat \<Rightarrow> gasnete_op \<Rightarrow> gasnete_op" where
  "region a g = g\<lparr>event := [ev_byte event_type_iop True, ev_byte event_type_lc True, ev_byte event_type_iop True, ev_byte event_type_iop True, 0, 0],
     initiated_cnt := (\<lambda>c. initiated_cnt g c + 1), op_next := Some a\<rparr>"

lemma region_simps [simp]:
  "event (region a g) = [ev_byte event_type_iop True, ev_byte event_type_lc True, ev_byte event_type_iop True, ev_byte event_type_iop True, 0, 0]"
  "threadidx (region a g) = threadidx g" "op_next (region a g) = Some a" "initiated_cnt (region a g) c = initiated_cnt g c + 1"
  "completed_cnt (region a g) = completed_cnt g"
  by (simp_all add: region_def)

definition quiet_bytes :: "gasnete_op \<Rightarrow> bool" where
  "quiet_bytes g \<longleftrightarrow> (\<exists>b1 b2 b3. event g = [event_type_iop, b1, b2, b3, 0, 0] \<and> (b1 = event_type_lc \<or> b1 = 0) \<and>
     (b2 = event_type_iop \<or> b2 = 0) \<and> (b3 = event_type_iop \<or> b3 = 0))"

lemma all_counters: "f Put = g Put \<Longrightarrow> f Alc = g Alc \<Longrightarrow> f Get = g Get \<Longrightarrow> f Rmw = g Rmw \<Longrightarrow> f = g"
  by (rule ext) (rename_tac c, case_tac c; simp)

lemma set_event_at: "event g = xs \<Longrightarrow> i < 6 \<Longrightarrow> small_type ty \<Longrightarrow> xs ! i = ty \<or> xs ! i = 0 \<Longrightarrow>
   SET_EVENT_TYPE i ty g = Some (g\<lparr>event := xs[i := ev_byte ty True]\<rparr>)"
  using set_type_ok [of i ty g] by (auto simp: set_event_def)

lemma aop_create_result:
  assumes new: "gasnete_iop_new stats t o1 = Some (a, o2)" and g: "ops o2 a = Some g" and q: "quiet_bytes g"
  shows "gasnete_aop_create stats t o1 = Some (a, set_op a (region a g) o2)"
proof -
  obtain b1 b2 b3 where b: "event g = [event_type_iop, b1, b2, b3, 0, 0]" "b1 = event_type_lc \<or> b1 = 0" "b2 = event_type_iop \<or> b2 = 0"
    "b3 = event_type_iop \<or> b3 = 0" using q by (auto simp: quiet_bytes_def)
  let ?i = "ev_byte event_type_iop True" and ?l = "ev_byte event_type_lc True"
  let ?g0 = "GASNETE_IOP_CNT_START Rmw 1 (GASNETE_IOP_CNT_START Get 1 (GASNETE_IOP_CNT_START Put 1 g))"
  have 1: "SET_EVENT_TYPE (event_index Put) event_type_iop ?g0 = Some (?g0\<lparr>event := [?i, b1, b2, b3, 0, 0]\<rparr>)"
    using b by (subst set_event_at [OF _ _ small_types(7), of _ "[event_type_iop, b1, b2, b3, 0, 0]"]) simp_all
  let ?g1 = "?g0\<lparr>event := [?i, b1, b2, b3, 0, 0]\<rparr>"
  have 2: "SET_EVENT_TYPE (event_index Get) event_type_iop ?g1 = Some (?g1\<lparr>event := [?i, b1, ?i, b3, 0, 0]\<rparr>)"
    using b by (subst set_event_at [OF _ _ small_types(7), of _ "[?i, b1, b2, b3, 0, 0]"]) auto
  let ?g2 = "?g1\<lparr>event := [?i, b1, ?i, b3, 0, 0]\<rparr>"
  have 3: "SET_EVENT_TYPE (event_index Rmw) event_type_iop ?g2 = Some (?g2\<lparr>event := [?i, b1, ?i, ?i, 0, 0]\<rparr>)"
    using b by (subst set_event_at [OF _ _ small_types(7), of _ "[?i, b1, ?i, b3, 0, 0]"]) auto
  let ?g3 = "GASNETE_IOP_CNT_START Alc 1 (?g2\<lparr>event := [?i, b1, ?i, ?i, 0, 0]\<rparr>)"
  have 4: "SET_EVENT_TYPE (event_index Alc) event_type_lc ?g3 = Some (?g3\<lparr>event := [?i, ?l, ?i, ?i, 0, 0]\<rparr>)"
    using b by (subst set_event_at [OF _ _ small_types(8), of _ "[?i, b1, ?i, ?i, 0, 0]"]) auto
  have "initiated_cnt ?g3 = (\<lambda>c. initiated_cnt g c + 1)" by (rule all_counters) simp_all
  then have "(?g3\<lparr>event := [?i, ?l, ?i, ?i, 0, 0]\<rparr>)\<lparr>op_next := Some a\<rparr> = region a g"
    by (simp add: region_def GASNETE_IOP_CNT_START_def)
  then show ?thesis using new g 1 2 3 4 by (simp add: gasnete_aop_create_def)
qed

text \<open>
  Where \<open>gasnete_iop_new\<close> finds an object: the object is quiet, its operations have all finished, and
  the lists lose nothing but it.
\<close>

definition iop_found :: "ev_lists \<Rightarrow> ev_sys \<Rightarrow> nat \<Rightarrow> nat \<Rightarrow> gasnete_op \<Rightarrow> ev_lists \<Rightarrow> op_state \<Rightarrow> bool" where
  "iop_found L s t a g L' o2 \<longleftrightarrow> ops o2 a = Some g \<and> quiet_bytes g \<and> threadidx g = t \<and> \<not> root_pend s a \<and> \<not> lc_pend s a \<and> a \<notin> armed s \<and>
     a \<notin> held s \<and> (\<forall>t. a \<notin> set (L StackI t)) \<and>
     (\<forall>c. initiated_cnt g c = of_nat (started s a c) \<and> completed_cnt g c = of_nat (finished s a c) \<and> started s a c = finished s a c \<and> pend s a c = 0) \<and>
     (\<forall>g'. inv_lists L' (s\<lparr>st := set_op a g' o2, held := insert a (held s)\<rparr>)) \<and>
     (\<forall>b. b \<noteq> a \<longrightarrow> ops o2 b = ops (st s) b \<and> (implicit L' b \<longleftrightarrow> implicit L b) \<and>
       (\<forall>t. (b \<in> set (L' FreeE t) \<or> b \<in> set (L' ForE t) \<longleftrightarrow> b \<in> set (L FreeE t) \<or> b \<in> set (L ForE t)) \<and>
         (b \<in> set (L' FreeI t) \<or> b \<in> set (L' ForI t) \<longleftrightarrow> b \<in> set (L FreeI t) \<or> b \<in> set (L ForI t)) \<and>
         (b \<in> set (L' StackI t) \<longleftrightarrow> b \<in> set (L StackI t))))"

lemma iop_new_fresh:
  assumes inv: "ev_inv L s" and t: "t < nthreads s" and e: "iop_free (threads (st s) t) = None" "foreign_iops (threads (st s) t) = None"
  shows "\<exists>a o2 g. gasnete_iop_new stats t (st s) = Some (a, o2) \<and> iop_found L s t a g L o2"
proof -
  let ?d = "threads (st s) t" and ?a = "next_addr (st s)"
  let ?o2 = "set_thread t (?d\<lparr>foreign_iops := None, iop_num := iop_num ?d + 1\<rparr>) (set_op ?a (fresh_iop t) ((st s)\<lparr>next_addr := ?a + 1\<rparr>))"
  have il: "inv_lists L s" using inv by (simp add: ev_inv_def)
  have "gasnete_iop_new stats t (st s) = Some (?a, ?o2)"
    using e by (simp add: gasnete_iop_new_def refill_iops_def Let_def iop_alloc_result fresh_iop_check set_op_def set_thread_def)
  moreover have "iop_found L s t ?a (fresh_iop t) L ?o2" unfolding iop_found_def
  proof (intro conjI allI impI)
    fix g'
    show "inv_lists L (s\<lparr>st := set_op ?a g' ?o2, held := insert ?a (held s)\<rparr>)"
    proof (rule new_lists(1) [OF il refl])
      show "list_head k (threads (st (s\<lparr>st := set_op ?a g' ?o2, held := insert ?a (held s)\<rparr>)) t') = list_head k (threads (st s) t')" for k t'
        using e by (cases "t' = t"; cases k) simp_all
    qed simp_all
  qed (use fresh_addr [OF inv] in \<open>simp_all add: quiet_bytes_def\<close>)
  ultimately show ?thesis by blast
qed

lemma quiet_free:
  assumes inv: "ev_inv L s" and g: "ops (st s) a = Some g" and on: "a \<in> set (L FreeI t)"
  shows "quiet_bytes (set_event 0 event_type_iop g)" "threadidx g = t" "OPTYPE g = event_type_free_iop" "\<not> root_pend s a" "\<not> lc_pend s a" "a \<notin> armed s"
    "initiated_cnt g c = of_nat (started s a c)" "completed_cnt g c = of_nat (finished s a c)" "started s a c = finished s a c" "pend s a c = 0"
proof -
  note obj = inv_obj [OF inv g]
  have f: "event g ! 0 = event_type_free_iop" "a \<notin> armed s" "\<not> event_live s a c" "threadidx g = t" for c
    using list_facts(2) [OF obj, of t] on by simp_all
  have ne: "\<not> is_eop g" using f(1) not_free_iop [OF obj] by auto
  have cnt: "counts_ok s a g" by (rule iop_parts(1) [OF obj ne])
  have "event_live s a = (\<lambda>c. False)" using f(3) by auto
  then have "iop_ok (\<lambda>c. False) g" using iop_parts(2) [OF obj ne] by (simp split: if_splits)
  then show "quiet_bytes (set_event 0 event_type_iop g)" by (auto simp: iop_ok_def quiet_bytes_def)
  show "threadidx g = t" "\<not> root_pend s a" "\<not> lc_pend s a" "a \<notin> armed s" "OPTYPE g = event_type_free_iop"
    using f iop_parts(3,4) [OF obj ne] by (simp_all add: event_views)
  show "initiated_cnt g c = of_nat (started s a c)" "completed_cnt g c = of_nat (finished s a c)" using counts_okD(1,2) [OF cnt] by simp_all
  show "started s a c = finished s a c" using f(3) [of c] by (simp add: event_live_def)
  then show "pend s a c = 0" using counts_okD(3) [OF cnt, of c] by simp
qed

lemma iop_new_recycled:
  assumes inv: "ev_inv L s" and t: "t < nthreads s" and on: "L FreeI t = a # xs"
    and r: "refill_iops t (st s) = (Some a, o1)" and st: "ops o1 = ops (st s)" "next_addr o1 = next_addr (st s)"
      "\<And>k' t'. (k', t') \<noteq> (FreeI, t) \<Longrightarrow> list_head k' (threads o1 t') = list_head k' (threads (st s) t')"
  shows "\<exists>o2 g. gasnete_iop_new False t (st s) = Some (a, o2) \<and> iop_found L s t a g (upd_list FreeI t xs L) o2"
proof -
  let ?L = "upd_list FreeI t xs L"
  have il: "inv_lists L s" using inv by (simp add: ev_inv_def)
  obtain g where g: "ops (st s) a = Some g" using inv_listsD(1) [OF il t, of FreeI] on by (auto simp: nexts_def)
  have "a \<in> set (L FreeI t)" using on by simp
  note Q = quiet_free [OF inv g this]
  let ?h = "set_event 0 event_type_iop g"
  let ?o2 = "set_op a (?h\<lparr>op_next := None\<rparr>) (set_thread t ((threads o1 t)\<lparr>iop_free := op_next g\<rparr>) (set_op a ?h o1))"
  have "OPTYPE ?h = event_type_iop" using Q(1) by (auto simp: quiet_bytes_def event_views)
  moreover have "(of_nat (finished s a c) :: u32) - of_nat (finished s a c) < 0x7FFFFFFF" for c by simp
  ultimately have "gasnete_iop_check ?h" using Q(7-9) by (simp add: gasnete_iop_check_def)
  then have "gasnete_iop_new False t (st s) = Some (a, ?o2)"
    using r g Q(2,3) by (simp add: gasnete_iop_new_def st reset_counts_def)
  moreover have "iop_found L s t a (?h\<lparr>op_next := None\<rparr>) ?L ?o2" unfolding iop_found_def
  proof (intro conjI allI impI)
    fix g'
    show "inv_lists ?L (s\<lparr>st := set_op a g' ?o2, held := insert a (held s)\<rparr>)" (is "inv_lists _ ?s'")
    proof (rule pop_list [OF il t on g])
      have "list_head k' (threads ?o2 t') = list_head k' (threads (st s) t')" if "(k', t') \<noteq> (FreeI, t)" for k' t'
      proof -
        have "list_head k' (threads ?o2 t') = list_head k' (threads o1 t')" using that by (cases k') auto
        then show ?thesis using st(3) [OF that] by simp
      qed
      then show "same_heads FreeI t s ?s'" by (simp add: same_heads_def)
      show "ops (st ?s') = (ops (st s))(a \<mapsto> g')" by (simp add: st)
    qed (simp_all add: st)
  next
    fix b
    assume b: "b \<noteq> a"
    show "implicit ?L b \<longleftrightarrow> implicit L b" by (rule upd_implicit) simp
    fix t'
    note m = pop_mem [of L FreeI t a xs b, OF on b]
    show "b \<in> set (?L FreeE t') \<or> b \<in> set (?L ForE t') \<longleftrightarrow> b \<in> set (L FreeE t') \<or> b \<in> set (L ForE t')"
      "b \<in> set (?L FreeI t') \<or> b \<in> set (?L ForI t') \<longleftrightarrow> b \<in> set (L FreeI t') \<or> b \<in> set (L ForI t')"
      "b \<in> set (?L StackI t') \<longleftrightarrow> b \<in> set (L StackI t')" by (simp_all only: m)
  next
    show "a \<notin> held s" using inv_listsD(4) [OF il, of a FreeI t] on by auto
    show "a \<notin> set (L StackI t')" for t' using inv_listsD(5) [OF il, of FreeI t StackI t' a] on by simp
  qed (use Q in \<open>auto simp: st quiet_bytes_def\<close>)
  ultimately show ?thesis by blast
qed

text \<open>Regions that other threads have freed: as if they lay in the thread's own list.\<close>

definition take_foreign :: "nat \<Rightarrow> op_state \<Rightarrow> op_state" where
  "take_foreign t o1 = set_thread t ((threads o1 t)\<lparr>iop_free := foreign_iops (threads o1 t), foreign_iops := None\<rparr>) o1"

lemma take_foreign_inv:
  assumes inv: "ev_inv L s" and t: "t < nthreads s" and e: "iop_free (threads (st s) t) = None"
  shows "ev_inv (upd_list FreeI t (L ForI t) (upd_list ForI t [] L)) (s\<lparr>st := take_foreign t (st s)\<rparr>)"
    (is "ev_inv ?L ?s'")
proof -
  have il: "inv_lists L s" and fin: "finishing_ok s" using inv by (simp_all add: ev_inv_def)
  have n: "L FreeI t = []" using inv_listsD(1) [OF il t, of FreeI] e by (auto dest: ev_chain_head split: list.splits)
  have "list_head k' (threads (take_foreign t (st s)) t') = list_head k' (threads (st s) t')" if "(k', t') \<noteq> (FreeI, t)" "(k', t') \<noteq> (ForI, t)" for k' t'
    using that by (cases k') (auto simp: take_foreign_def)
  then have l: "inv_lists ?L ?s'" by (intro move_list [OF il t _ _ n]) (simp_all add: take_foreign_def)
  have m: "?L k' t' = (if (k', t') = (FreeI, t) then L ForI t else if (k', t') = (ForI, t) then [] else L k' t')" for k' t'
    by (auto simp: upd_list_def)
  show ?thesis
  proof (rule struct_step [OF inv l, where A = "{}"])
    show "finishing_ok ?s'" by (rule same_finishing [OF fin]) (simp_all add: take_foreign_def)
    show "implicit ?L b \<longleftrightarrow> implicit L b" for b by (simp add: upd_implicit)
    show "b \<in> set (?L FreeI t') \<or> b \<in> set (?L ForI t') \<longleftrightarrow> b \<in> set (L FreeI t') \<or> b \<in> set (L ForI t')" for b t'
      using n by (auto simp: m)
  qed (simp_all add: same_view_def m take_foreign_def)
qed

lemma take_foreign_new:
  assumes "iop_free (threads o1 t) = None" and "foreign_iops (threads o1 t) \<noteq> None"
  shows "gasnete_iop_new stats t (take_foreign t o1) = gasnete_iop_new stats t o1"
  using assms
  by (auto simp: gasnete_iop_new_def refill_iops_def take_foreign_def Let_def set_op_def set_thread_def
      intro!: Option.bind_cong [OF refl])

lemma iop_new_any:
  assumes inv: "ev_inv L s" and t: "t < nthreads s"
  shows "\<exists>a o2 g L'. gasnete_iop_new False t (st s) = Some (a, o2) \<and> iop_found L s t a g L' o2"
proof -
  let ?d = "threads (st s) t"
  have ch: "chain (nexts (st s)) (list_head k ?d) (L k t)" for k using inv t inv_listsD(1) by (simp add: ev_inv_def)
  consider (own) a where "iop_free ?d = Some a" | (fresh) "iop_free ?d = None" "foreign_iops ?d = None"
    | (foreign) a where "iop_free ?d = None" "foreign_iops ?d = Some a" by (cases "iop_free ?d"; cases "foreign_iops ?d") auto
  then show ?thesis
  proof cases
    case own
    then obtain xs where on: "L FreeI t = a # xs" using ch [of FreeI] by (cases "L FreeI t") auto
    have "refill_iops t (st s) = (Some a, st s)" using own by (simp add: refill_iops_def)
    from iop_new_recycled [OF inv t on this] show ?thesis by blast
  next
    case fresh
    from iop_new_fresh [OF inv t fresh] show ?thesis by blast
  next
    case foreign
    let ?s1 = "s\<lparr>st := take_foreign t (st s)\<rparr>" and ?L1 = "upd_list FreeI t (L ForI t) (upd_list ForI t [] L)"
    have inv1: "ev_inv ?L1 ?s1" by (rule take_foreign_inv [OF inv t foreign(1)])
    obtain xs where on: "L ForI t = a # xs" using ch [of ForI] foreign by (cases "L ForI t") auto
    have empty: "L FreeI t = []" using ch [of FreeI] foreign by (auto dest: ev_chain_head split: list.splits)
    have on1: "?L1 FreeI t = a # xs" using on by simp
    have r: "refill_iops t (st ?s1) = (Some a, st ?s1)" using foreign by (simp add: refill_iops_def take_foreign_def)
    from iop_new_recycled [OF inv1 _ on1 r] t obtain o2 g
      where G: "gasnete_iop_new False t (st ?s1) = Some (a, o2)" "iop_found ?L1 ?s1 t a g (upd_list FreeI t xs ?L1) o2" by auto
    have "gasnete_iop_new False t (st s) = Some (a, o2)" using G(1) take_foreign_new [of "st s" t False] foreign by simp
    moreover have "implicit ?L1 b \<longleftrightarrow> implicit L b" for b by (simp add: upd_implicit)
    moreover have m: "?L1 k' t' = (if (k', t') = (FreeI, t) then L ForI t else if (k', t') = (ForI, t) then [] else L k' t')" for k' t'
      by (auto simp: upd_list_def)
    have "b \<in> set (?L1 FreeI t') \<or> b \<in> set (?L1 ForI t') \<longleftrightarrow> b \<in> set (L FreeI t') \<or> b \<in> set (L ForI t')" for b t'
      using empty by (auto simp: m)
    moreover have "?L1 FreeE t' = L FreeE t'" "?L1 ForE t' = L ForE t'" "?L1 StackI t' = L StackI t'" for t' by (simp_all add: m)
    ultimately have "iop_found L s t a g (upd_list FreeI t xs ?L1) o2"
      using G(2) unfolding iop_found_def by (simp add: take_foreign_def)
    then show ?thesis using \<open>gasnete_iop_new False t (st s) = Some (a, o2)\<close> by blast
  qed
qed

lemma aop_create_inv:
  assumes inv: "ev_inv L s" and ok: "ev_allowed (AopCreate t) s"
  shows "\<exists>s' L'. ev_do False (AopCreate t) s = Some s' \<and> ev_inv L' s'"
proof -
  have t: "t < nthreads s" using ok by simp
  obtain a o2 g L' where new: "gasnete_iop_new False t (st s) = Some (a, o2)" and f: "iop_found L s t a g L' o2"
    using iop_new_any [OF inv t] by blast
  note F = f [unfolded iop_found_def]
  have fin: "finishing_ok s" using inv by (simp add: ev_inv_def)
  have "gasnete_aop_create False t (st s) = Some (a, set_op a (region a g) o2)" by (rule aop_create_result [OF new]) (use F in auto)
  then have d: "ev_do False (AopCreate t) s = Some (s\<lparr>st := set_op a (region a g) o2, held := insert a (held s), armed := insert a (armed s),
         started := (started s)(a := (\<lambda>c. started s a c + 1))\<rparr>)" (is "_ = Some ?s'") by simp
  have same_l: "inv_lists L' (s\<lparr>st := set_op a (region a g) o2, held := insert a (held s)\<rparr>)" using F by blast
  have l: "inv_lists L' ?s'" using same_l unfolding inv_lists_def by simp
  have cnt: "initiated_cnt g c = of_nat (started s a c)" "completed_cnt g c = of_nat (finished s a c)" "started s a c = finished s a c"
    "pend s a c = 0" for c using F by blast+
  have out: "a \<notin> set (L' k t')" for k t' using inv_listsD(4) [OF l] by simp
  have "ev_inv L' ?s'"
  proof (rule struct_step [OF inv l, where A = "{a}"])
    show "finishing_ok ?s'"
    proof (rule finishing_okI)
      fix b e v w
      assume "(b, e, v, w) \<in> finishing ?s'"
      then have m: "(b, e, v, w) \<in> finishing s" by simp
      have "started s b e + 1 < v + 0x100000000" using ok m by auto
      then show "w = of_nat v \<and> 0 < v \<and> v \<le> finished ?s' b e \<and> started ?s' b e < v + 0x100000000 \<and> ops (st ?s') b \<noteq> None"
        using finishing_okD [OF fin m] F by (cases "b = a") simp_all
    qed
    fix b
    have lv: "event_live ?s' a = (\<lambda>c. True)" using cnt(3) by (simp add: event_live_def fun_eq_iff)
    have "counts_ok ?s' a (region a g)" by (rule counts_okI) (use cnt in simp_all)
    moreover have "iop_ok (event_live ?s' a) (region a g)" unfolding lv by (simp add: iop_ok_def)
    moreover have "\<not> implicit L' a" using out implicit_in by blast
    moreover have "\<not> is_eop (region a g)" "OPTYPE (region a g) = event_type_iop"
      using eop_not_free_byte live_bit [of event_type_free_eop] by (auto simp: is_eop_def event_views) (metis armed_byte(1) small_not_live small_types(2))
    ultimately have "obj_ok L' ?s' a (region a g)"
      unfolding obj_ok_def using F t out by simp
    then show "\<exists>g. ops (st ?s') b = Some g \<and> obj_ok L' ?s' b g" if "b \<in> {a}" using that by simp
  qed (use F in \<open>simp_all add: same_view_def\<close>)
  then show ?thesis using d by blast
qed

lemma aop_push_inv:
  assumes inv: "ev_inv L s" and ok: "ev_allowed (AopPush t a) s"
  shows "\<exists>s' L'. ev_do stats (AopPush t a) s = Some s' \<and> ev_inv L' s'"
proof -
  have t: "t < nthreads s" and a: "a \<in> held s" "a \<in> armed s" "map_option threadidx (ops (st s) a) = Some t" using ok by auto
  have il: "inv_lists L s" and fin: "finishing_ok s" using inv by (simp_all add: ev_inv_def)
  obtain g where g: "ops (st s) a = Some g" using held_obj [OF inv a(1)] by blast
  note obj = inv_obj [OF inv g]
  have ne: "\<not> is_eop g" using pend_iop [OF obj] a(2) by blast
  have ty: "OPTYPE g = event_type_iop" "op_next g = Some a" "threadidx g = t"
    using list_facts(4) [OF obj a(1)] ne a(3) g by simp_all
  have cnt: "counts_ok s a g" by (rule iop_parts(1) [OF obj ne])
  let ?g = "g\<lparr>op_next := Some (current_iop (threads (st s) t))\<rparr>"
  let ?s' = "s\<lparr>st := set_thread t ((threads (st s) t)\<lparr>current_iop := a\<rparr>) (set_op a ?g (st s)), held := held s - {a}\<rparr>"
  let ?L = "upd_list StackI t (a # L StackI t) L"
  have d: "ev_do stats (AopPush t a) s = Some ?s'"
    using g ty counts_check [OF cnt] by (simp add: gasnete_aop_push_def)
  have "list_head k' (threads (st ?s') t') = list_head k' (threads (st s) t')" if "(k', t') \<noteq> (StackI, t)" for k' t'
    using that by (cases k') auto
  then have sh: "same_heads StackI t s ?s'" by (simp add: same_heads_def)
  have l: "inv_lists ?L ?s'" by (rule push_list [OF il t a(1), where g' = ?g]) (use sh in simp_all)
  have ne0: "L StackI t \<noteq> []" using inv_listsD(6) [OF il t] .
  have out: "a \<notin> set (L k t)" for k t using inv_listsD(4) [OF il a(1)] .
  have mem: "b \<in> set (?L k' t') \<longleftrightarrow> b \<in> set (L k' t') \<or> (k', t') = (StackI, t) \<and> b = a" for b k' t'
    by (cases "(k', t') = (StackI, t)") auto
  have "ev_inv ?L ?s'"
  proof (rule struct_step [OF inv l, where A = "{a}"])
    show "finishing_ok ?s'" by (rule same_finishing [OF fin]) simp_all
    show imp: "implicit ?L b \<longleftrightarrow> implicit L b" for b by (rule upd_implicit(3)) (rule ne0)
    have ni: "\<not> implicit L a" using out implicit_in by blast
    have c': "counts_ok ?s' a ?g" by (rule counts_okI) (use counts_okD [OF cnt] in simp_all)
    have "event_live ?s' a = event_live s a" by (rule event_live_cong) simp_all
    then have "iop_ok (event_live ?s' a) ?g" using iop_parts(2) [OF obj ne] ni by (simp add: iop_ok_def)
    moreover have "\<not> is_eop ?g" "OPTYPE ?g = event_type_iop" using ne ty by (simp_all add: is_eop_def event_views)
    ultimately have "obj_ok ?L ?s' a ?g"
      unfolding obj_ok_def using imp [of a] ni c' t ty(3) iop_parts(3,4) [OF obj ne] a(2) mem [of a] out by simp
    then show "\<exists>g. ops (st ?s') b = Some g \<and> obj_ok ?L ?s' b g" if "b \<in> {a}" for b using that by simp
  qed (use mem in \<open>auto simp: same_view_def\<close>)
  then show ?thesis using d by blast
qed

lemma aop_pop_inv:
  assumes inv: "ev_inv L s" and ok: "ev_allowed (AopPop t) s"
  shows "\<exists>s' L'. ev_do stats (AopPop t) s = Some s' \<and> ev_inv L' s'"
proof -
  let ?a = "current_iop (threads (st s) t)"
  have t: "t < nthreads s" using ok by simp
  have il: "inv_lists L s" and fin: "finishing_ok s" using inv by (simp_all add: ev_inv_def)
  obtain g b where g: "ops (st s) ?a = Some g" and b: "op_next g = Some b" using ok by (auto split: option.splits)
  obtain xs where on: "L StackI t = ?a # xs" using current_on_stack [OF inv t] by blast
  have "chain (nexts (st s)) (Some b) xs" using inv_listsD(1) [OF il t, of StackI] on g b by (simp add: nexts_def)
  then have xs: "xs \<noteq> []" by auto
  note obj = inv_obj [OF inv g]
  have dist: "?a \<notin> set xs" using inv_listsD(3) [OF il, of StackI t] on by simp
  have ni: "\<not> implicit L ?a"
  proof
    assume "implicit L ?a"
    then obtain u where u: "L StackI u \<noteq> []" "?a = last (L StackI u)" unfolding implicit_def by blast
    then have "?a \<in> set (L StackI u)" using last_in_set [OF u(1)] by simp
    then have "u = t" using apart [OF inv, of ?a StackI u StackI t] on by simp
    then have "last (L StackI u) = last xs" using on xs by simp
    then show False using u(2) dist last_in_set [OF xs] by metis
  qed
  have F: "\<not> is_eop g" "OPTYPE g = event_type_iop" "threadidx g = t" "?a \<in> armed s" using list_facts(3) [OF obj, of t] on ni by simp_all
  have cnt: "counts_ok s ?a g" by (rule iop_parts(1) [OF obj F(1)])
  let ?g = "g\<lparr>op_next := Some ?a\<rparr>"
  let ?s' = "s\<lparr>st := set_thread t ((threads (st s) t)\<lparr>current_iop := b\<rparr>) (set_op ?a ?g (st s)), held := insert ?a (held s)\<rparr>"
  let ?L = "upd_list StackI t xs L"
  have d: "ev_do stats (AopPop t) s = Some ?s'" using g b by (simp add: gasnete_aop_pop_def Let_def)
  have "list_head k' (threads (st ?s') t') = list_head k' (threads (st s) t')" if "(k', t') \<noteq> (StackI, t)" for k' t'
    using that by (cases k') auto
  then have sh: "same_heads StackI t s ?s'" by (simp add: same_heads_def)
  have l: "inv_lists ?L ?s'" by (rule pop_list [OF il t on g]) (use sh xs b in simp_all)
  have out: "?a \<notin> set (?L k t)" for k t using inv_listsD(4) [OF l] by simp
  have "ev_inv ?L ?s'"
  proof (rule struct_step [OF inv l, where A = "{?a}"])
    show "finishing_ok ?s'" by (rule same_finishing [OF fin]) simp_all
    show imp: "implicit ?L b \<longleftrightarrow> implicit L b" for b by (rule upd_implicit(2)) (rule on xs)+
    have c': "counts_ok ?s' ?a ?g" by (rule counts_okI) (use counts_okD [OF cnt] in simp_all)
    have "event_live ?s' ?a = event_live s ?a" by (rule event_live_cong) simp_all
    then have "iop_ok (event_live ?s' ?a) ?g" using iop_parts(2) [OF obj F(1)] ni by (simp add: iop_ok_def)
    moreover have "\<not> is_eop ?g" "OPTYPE ?g = event_type_iop" using F by (simp_all add: is_eop_def event_views)
    ultimately have "obj_ok ?L ?s' ?a ?g"
      unfolding obj_ok_def using imp [of ?a] ni c' t F iop_parts(3,4) [OF obj F(1)] out by (simp del: upd_list_simps)
    then show "\<exists>g. ops (st ?s') b = Some g \<and> obj_ok ?L ?s' b g" if "b \<in> {?a}" for b using that by simp
  qed (use pop_mem [of L StackI t ?a xs, OF on] in \<open>auto simp: same_view_def\<close>)
  then show ?thesis using d by blast
qed

section \<open>Tests\<close>

text \<open>An object that a test finds done, and its way back to a list of its thread.\<close>

definition home :: "nat \<Rightarrow> gasnete_op \<Rightarrow> list_kind" where
  "home t g = (if is_eop g then (if threadidx g = t then FreeE else ForE) else (if threadidx g = t then FreeI else ForI))"

definition freed :: "nat \<Rightarrow> nat \<Rightarrow> gasnete_op \<Rightarrow> op_state \<Rightarrow> op_state" where
  "freed t a g o1 = (if is_eop g then push_eop t a (set_event 0 event_type_free_eop (set_event 0 event_type_pendingfree_eop g)) o1
     else push_iop t a (set_event 0 event_type_free_iop (set_event 0 event_type_pendingfree_iop g)) o1)"

lemma freed_ops:
  "\<exists>g'. ops (freed t a g o1) = (ops o1)(a \<mapsto> g') \<and> threadidx g' = threadidx g \<and> next_addr (freed t a g o1) = next_addr o1 \<and>
     op_next g' = list_head (home t g) (threads o1 (threadidx g)) \<and> initiated_cnt g' = initiated_cnt g \<and> completed_cnt g' = completed_cnt g \<and>
     event g' = (event g)[0 := if is_eop g then event_type_free_eop else event_type_free_iop] \<and>
     list_head (home t g) (threads (freed t a g o1) (threadidx g)) = Some a \<and>
     (\<forall>k' t'. (k', t') \<noteq> (home t g, threadidx g) \<longrightarrow> list_head k' (threads (freed t a g o1) t') = list_head k' (threads o1 t'))"
proof -
  have h: "list_head k2 (d\<lparr>eop_free := x\<rparr>) = (if k2 = FreeE then x else list_head k2 d)"
    "list_head k2 (d\<lparr>foreign_eops := x\<rparr>) = (if k2 = ForE then x else list_head k2 d)"
    "list_head k2 (d\<lparr>iop_free := x\<rparr>) = (if k2 = FreeI then x else list_head k2 d)"
    "list_head k2 (d\<lparr>foreign_iops := x\<rparr>) = (if k2 = ForI then x else list_head k2 d)" for k2 and d :: threaddata and x
    by (cases k2; simp)+
  consider "is_eop g" "threadidx g = t" | "is_eop g" "threadidx g \<noteq> t" | "\<not> is_eop g" "threadidx g = t" | "\<not> is_eop g" "threadidx g \<noteq> t" by blast
  then show ?thesis
    by cases (auto simp: freed_def home_def push_eop_def push_iop_def Let_def h)
qed

lemma held_done:
  assumes inv: "ev_inv L s" and g: "ops (st s) a = Some g" and h: "a \<in> held s" and quiet: "\<not> EVENT_ANY_LIVE g"
  shows "is_eop g \<Longrightarrow> \<not> root_pend s a \<and> \<not> lc_pend s a \<and> event g ! 0 = event_type_eop \<and> length (event g) = 6"
    and "\<not> is_eop g \<Longrightarrow> (\<forall>c. \<not> event_live s a c \<and> initiated_cnt g c = completed_cnt g c) \<and> a \<notin> armed s \<and>
      event g ! 0 = event_type_iop \<and> length (event g) = 6"
proof -
  note obj = inv_obj [OF inv g]
  have held: "OPTYPE g = (if is_eop g then event_type_eop else event_type_iop)" using list_facts(4) [OF obj h] by simp
  have lv: "b \<in> set (event g) \<Longrightarrow> \<not> live b" for b using quiet by (simp add: event_views)
  show "\<not> root_pend s a \<and> \<not> lc_pend s a \<and> event g ! 0 = event_type_eop \<and> length (event g) = 6" if e: "is_eop g"
  proof -
    obtain b0 b1 where b: "event g = [b0, b1, 0, 0, 0, 0]" "b0 = ev_byte event_type_eop (root_pend s a) \<or> b0 = event_type_free_eop \<and> \<not> root_pend s a"
      "b1 = ev_byte event_type_lc (lc_pend s a) \<or> b1 = 0 \<and> \<not> lc_pend s a" by (rule eop_bytes [OF obj e])
    have n: "\<not> live b0" "\<not> live b1" using lv b(1) by simp_all
    have r: "\<not> root_pend s a" using b(2) n(1) by auto
    have l: "\<not> lc_pend s a" using b(3) n(2) by auto
    have "b0 \<noteq> event_type_free_eop" using held e b(1) eop_not_free_byte free_eop_type by (auto simp: event_views)
    then show ?thesis using r l b by simp
  qed
  show "(\<forall>c. \<not> event_live s a c \<and> initiated_cnt g c = completed_cnt g c) \<and> a \<notin> armed s \<and> event g ! 0 = event_type_iop \<and> length (event g) = 6"
    if ne: "\<not> is_eop g"
  proof -
    have "\<not> implicit L a" using implicit_in held_apart [OF inv h] by blast
    then have ok: "iop_ok (event_live s a) g" using iop_parts(2) [OF obj ne] by simp
    have cnt: "counts_ok s a g" by (rule iop_parts(1) [OF obj ne])
    have n: "\<not> event_live s a c" for c
    proof
      assume c: "event_live s a c"
      have "event g ! event_index c = ev_byte (cat_type c) True" by (rule iop_byte_done(1) [OF ok c])
      moreover have "event g ! event_index c \<in> set (event g)" using ok by (cases c) (auto simp: iop_ok_def)
      ultimately show False using lv [of "event g ! event_index c"] by simp
    qed
    then have e: "started s a c = finished s a c" for c by (simp add: event_live_def)
    have "event g ! 0 \<noteq> event_type_free_iop" using held ne eop_not_free_byte free_eop_type by (auto simp: event_views)
    then have "event g ! 0 = event_type_iop" "length (event g) = 6" using ok n by (auto simp: iop_ok_def)
    moreover have "initiated_cnt g c = completed_cnt g c" for c using counts_okD(1,2) [OF cnt, of c] e by simp
    moreover have "a \<notin> armed s" using counts_okD(3) [OF cnt, of Put] e [of Put] by (simp split: if_splits)
    ultimately show ?thesis using n by blast
  qed
qed

text \<open>The answer of a test, and what it leaves.\<close>

lemma try_free_result:
  assumes inv: "ev_inv L s" and g: "ops (st s) a = Some g" and h: "a \<in> held s" and i: "i < 6"
  shows "gasnete_op_try_free t a i (st s) = Some
     (if live (event g ! i) then (False, st s) else if i \<noteq> 0 then (True, st s)
      else if EVENT_ANY_LIVE g then (False, st s) else (True, freed t a g (st s)))"
proof -
  note obj = inv_obj [OF inv g]
  have held: "OPTYPE g = (if is_eop g then event_type_eop else event_type_iop)" "\<not> is_eop g \<Longrightarrow> op_next g = Some a"
    using list_facts(4) [OF obj h] by simp_all
  have iop: "gasnete_iop_check g" if "\<not> is_eop g" using counts_check [OF iop_parts(1) [OF obj that]] held that by simp
  have chk: "gasnete_event_check g i"
    using held iop i eop_not_free_byte by (auto simp: gasnete_event_check_def gasnete_eop_check_def GASNETE_OP_EVENTS_def)
  show ?thesis
  proof (cases "i = 0 \<and> \<not> EVENT_ANY_LIVE g")
    case True
    then have q: "\<not> EVENT_ANY_LIVE g" by simp
    note D = held_done [OF inv g h q]
    have ne: "event g \<noteq> []" using D by (cases "is_eop g") auto
    then have l0: "\<not> live (event g ! 0)" using q by (simp add: event_views)
    have len: "length (event g) = 6" using D by (cases "is_eop g") auto
    then have l1: "\<not> live (event g ! 1)" using q nth_mem [of 1 "event g"] by (simp add: event_views)
    have "(if OPTYPE g = event_type_eop then gasnete_eop_free t a (st s) else gasnete_iop_free t a (st s)) = Some (freed t a g (st s))"
    proof (cases "is_eop g")
      case True
      then show ?thesis using D(1) [OF True] held(1) g q l0 l1 len
        by (simp add: gasnete_eop_free_def gasnete_eop_prep_free_def gasnete_eop_check_def GASNETE_EOP_DONE_def GASNETE_EOP_LC_DONE_def
            freed_def event_views(2))
    next
      case False
      then show ?thesis using D(2) [OF False] held g q len iop eop_not_free_byte(3)
        by (simp add: gasnete_iop_free_def gasnete_iop_prep_free_def all_counts_done_def GASNETE_IOP_CNTDONE_def freed_def)
    qed
    then show ?thesis using True g chk l0 by (simp add: gasnete_op_try_free_def event_views(4))
  next
    case False
    then show ?thesis using g chk by (auto simp: gasnete_op_try_free_def event_views(2,4))
  qed
qed

lemma freed_inv:
  assumes inv: "ev_inv L s" and g: "ops (st s) a = Some g" and h: "a \<in> held s" and q: "\<not> EVENT_ANY_LIVE g"
  shows "\<exists>L'. ev_inv L' (s\<lparr>st := freed t a g (st s), held := held s - {a}\<rparr>)"
proof -
  let ?k = "home t g" and ?u = "threadidx g"
  let ?L = "upd_list ?k ?u (a # L ?k ?u) L" and ?s' = "s\<lparr>st := freed t a g (st s), held := held s - {a}\<rparr>"
  have il: "inv_lists L s" and fin: "finishing_ok s" using inv by (simp_all add: ev_inv_def)
  note obj = inv_obj [OF inv g]
  have u: "?u < nthreads s" using obj by (simp add: obj_ok_def)
  obtain g' where G: "ops (freed t a g (st s)) = (ops (st s))(a \<mapsto> g')" "threadidx g' = ?u" "next_addr (freed t a g (st s)) = next_addr (st s)"
    "op_next g' = list_head ?k (threads (st s) ?u)" "initiated_cnt g' = initiated_cnt g" "completed_cnt g' = completed_cnt g"
    "event g' = (event g)[0 := if is_eop g then event_type_free_eop else event_type_free_iop]"
    "list_head ?k (threads (freed t a g (st s)) ?u) = Some a"
    "\<And>k' t'. (k', t') \<noteq> (?k, ?u) \<Longrightarrow> list_head k' (threads (freed t a g (st s)) t') = list_head k' (threads (st s) t')"
    using freed_ops [of t a g "st s"] by blast
  have l: "inv_lists ?L ?s'"
    by (rule push_list [OF il u h, where g' = g']) (use G in \<open>simp_all add: same_heads_def\<close>)
  have k: "?k \<noteq> StackI" by (simp add: home_def)
  have out: "a \<notin> set (L k' t')" for k' t' using inv_listsD(4) [OF il h] .
  have mem: "b \<in> set (?L k' t') \<longleftrightarrow> b \<in> set (L k' t') \<or> (k', t') = (?k, ?u) \<and> b = a" for b k' t'
    by (cases "(k', t') = (?k, ?u)") auto
  note D = held_done [OF inv g h q]
  have imp: "implicit ?L b \<longleftrightarrow> implicit L b" for b by (rule upd_implicit(1) [OF k])
  have ni: "\<not> implicit ?L a" using imp out implicit_in by blast
  have "obj_ok ?L ?s' a g'"
  proof (cases "is_eop g")
    case True
    note E = D(1) [OF True]
    have e': "event g' ! 0 = event_type_free_eop" "is_eop g'" using E G(7) True by (simp_all add: is_eop_def)
    obtain b0 b1 where b: "event g = [b0, b1, 0, 0, 0, 0]" "b1 = ev_byte event_type_lc (lc_pend s a) \<or> b1 = 0 \<and> \<not> lc_pend s a"
      using eop_bytes [OF obj True] by metis
    have "eop_ok (root_pend s a) (lc_pend s a) g'" using E G(7) True b by (auto simp: eop_ok_def)
    moreover have "a \<notin> armed s" "\<forall>c. pend s a c = 0 \<and> started s a c = 0 \<and> finished s a c = 0"
      using obj True unfolding obj_ok_def by simp_all
    moreover have "?k = FreeE \<or> ?k = ForE" using True by (simp add: home_def)
    ultimately show ?thesis unfolding obj_ok_def mem using e' u G(2) out E by auto
  next
    case False
    note E = D(2) [OF False]
    have e': "event g' ! 0 = event_type_free_iop" "\<not> is_eop g'"
      using E G(7) False eop_not_free_byte free_eop_type by (simp_all add: is_eop_def)
    have cnt: "counts_ok ?s' a g'" by (rule counts_okI) (use counts_okD [OF iop_parts(1) [OF obj False]] G(5,6) in simp_all)
    have lv: "event_live ?s' a = (\<lambda>c. False)"
    proof -
      have "event_live ?s' a = event_live s a" by (rule event_live_cong) simp_all
      then show ?thesis using E by auto
    qed
    have "iop_ok (\<lambda>c. False) g"
    proof -
      have "event_live s a = (\<lambda>c. False)" using E by auto
      then show ?thesis using iop_parts(2) [OF obj False] by (simp split: if_splits)
    qed
    then have "iop_ok (event_live ?s' a) g'" unfolding lv using G(7) False by (auto simp: iop_ok_def)
    moreover have "?k = FreeI \<or> ?k = ForI" using False by (simp add: home_def)
    ultimately show ?thesis unfolding obj_ok_def mem using e' u G(2) out E ni cnt lv iop_parts(3,4) [OF obj False] by auto
  qed
  then have "ev_inv ?L ?s'"
    by (intro struct_step [OF inv l, where A = "{a}"]) (use mem k imp G same_finishing [OF fin, of ?s'] in \<open>auto simp: same_view_def\<close>)
  then show ?thesis by blast
qed

lemma test_inv:
  assumes inv: "ev_inv L s" and ok: "ev_allowed (TestEvent t a i) s"
  shows "\<exists>s' L'. ev_do stats (TestEvent t a i) s = Some s' \<and> ev_inv L' s'"
proof -
  have h: "a \<in> held s" and i: "i < 6" using ok by (simp_all add: GASNETE_OP_EVENTS_def)
  obtain g where g: "ops (st s) a = Some g" using held_obj [OF inv h] by blast
  note R = try_free_result [OF inv g h i, of t]
  show ?thesis
  proof (cases "i = 0 \<and> \<not> live (event g ! 0) \<and> \<not> EVENT_ANY_LIVE g")
    case True
    then have "ev_do stats (TestEvent t a i) s = Some (s\<lparr>st := freed t a g (st s), held := held s - {a}\<rparr>)" using R by simp
    then show ?thesis using freed_inv [OF inv g h] True by blast
  next
    case False
    have "ev_do stats (TestEvent t a i) s = Some s" using R False by auto
    then show ?thesis using inv by blast
  qed
qed

section \<open>Reachable states\<close>

lemma ev_init_inv: "ev_inv (\<lambda>k t. []) ev_init"
  by (simp add: ev_inv_def inv_lists_def finishing_ok_def ghosts_ok_def ev_init_def)

lemma ev_step_inv:
  assumes inv: "ev_inv L s" and ok: "ev_allowed act s"
  shows "\<exists>s' L'. ev_do False act s = Some s' \<and> ev_inv L' s'"
proof (cases act)
  case NewThread
  then show ?thesis using new_thread_inv [OF inv] by blast
next
  case EopNew
  then show ?thesis using eop_new_inv [OF inv] ok by blast
next
  case EopNewAlc
  then show ?thesis using eop_new_alc_inv [OF inv] ok by blast
next
  case EopLcStart
  then show ?thesis using eop_lc_start [OF inv] ok by blast
next
  case EopDone
  then show ?thesis using eop_done [OF inv] ok by blast
next
  case EopLcDone
  then show ?thesis using eop_lc_done [OF inv] ok by blast
next
  case Register
  then show ?thesis using register_inv [OF inv] ok by blast
next
  case FinishAdd
  then show ?thesis using finish_add_inv [OF inv] ok by blast
next
  case FinishCompare
  then show ?thesis using finish_compare_inv [OF inv] ok by blast
next
  case AopCreate
  then show ?thesis using aop_create_inv [OF inv] ok by blast
next
  case AopPush
  then show ?thesis using aop_push_inv [OF inv] ok by blast
next
  case AopPop
  then show ?thesis using aop_pop_inv [OF inv] ok by blast
next
  case AopToEvent
  then show ?thesis using aop_to_event_inv [OF inv] ok by blast
next
  case TestEvent
  then show ?thesis using test_inv [OF inv] ok by blast
qed

lemma ev_reach_inv: "ev_reach False s \<Longrightarrow> \<exists>L. ev_inv L s"
proof (induction rule: ev_reach.induct)
  case ev_start
  then show ?case using ev_init_inv by blast
next
  case (ev_step s act s')
  then obtain L where inv: "ev_inv L s" by blast
  obtain s2 L' where "ev_do False act s = Some s2" "ev_inv L' s2" using ev_step_inv [OF inv ev_step.hyps(2)] by blast
  then show ?case using ev_step.hyps(3) by auto
qed

end
