(* ===== verification/Event_Runs.thy ===== *)
theory Event_Runs
  imports Event_Steps
begin

text \<open>
  Runs of the event system: sequences of actions, the regions' functions as sequences of them, and
  some concrete runs.
\<close>

section \<open>Runs\<close>

fun ev_run :: "bool \<Rightarrow> ev_act list \<Rightarrow> ev_sys \<Rightarrow> ev_sys option" where
  "ev_run stats [] s = Some s"
| "ev_run stats (act # acts) s =
     (if ev_allowed act s then (case ev_do stats act s of None \<Rightarrow> None | Some s' \<Rightarrow> ev_run stats acts s') else None)"

lemma ev_run_reach: "ev_run stats acts s = Some s' \<Longrightarrow> ev_reach stats s \<Longrightarrow> ev_reach stats s'"
  by (induction acts arbitrary: s) (auto split: if_splits option.splits dest: ev_step)

lemma ev_run_append:
  "ev_run stats (xs @ ys) s = (case ev_run stats xs s of None \<Rightarrow> None | Some s' \<Rightarrow> ev_run stats ys s')"
  by (induction xs arbitrary: s) (auto split: option.splits)

lemma ev_run_inv: "ev_run False acts s = Some s' \<Longrightarrow> ev_inv L s \<Longrightarrow> \<exists>L'. ev_inv L' s'"
proof (induction acts arbitrary: s L)
  case (Cons act acts)
  then obtain s2 where s2: "ev_allowed act s" "ev_do False act s = Some s2" "ev_run False acts s2 = Some s'"
    by (auto split: if_splits option.splits)
  then obtain L' where "ev_inv L' s2" using ev_step_inv [OF Cons.prems(2) s2(1)] by auto
  then show ?case using Cons.IH s2(3) by blast
qed auto

definition the_run :: "bool \<Rightarrow> ev_act list \<Rightarrow> ev_sys" where
  "the_run stats acts = the (ev_run stats acts ev_init)"

section \<open>The functions as runs\<close>

lemma set_op_twice: "set_op a g2 (set_op a g1 s) = set_op a g2 s"
  by (simp add: set_op_def)

text \<open>The end of operations of a region that is not at the bottom of a stack: an addition and a comparison.\<close>

lemma finish_reg_run:
  assumes inv: "ev_inv L s" and n: "0 < n" "n \<le> pend s a c" and g: "ops (st s) a = Some g" and nx: "op_next g \<noteq> None"
  shows "\<exists>acts s' g' L'. ev_run False acts s = Some s' \<and> with_op a (GASNETE_IOP_CNT_FINISH_REG c n) (st s) = Some (st s') \<and>
     pend s' = (pend s)(a := (pend s a)(c := pend s a c - n)) \<and> armed s' = armed s \<and> held s' = held s \<and> nthreads s' = nthreads s \<and>
     ops (st s') a = Some g' \<and> op_next g' = op_next g \<and> \<not> is_eop g' \<and> ev_inv L' s'"
proof -
  let ?g1 = "cnt_finish_add c n g"
  let ?f = "(a, c, finished s a c + n, completed_cnt ?g1 c)"
  let ?s1 = "s\<lparr>st := set_op a ?g1 (st s), pend := (pend s)(a := (pend s a)(c := pend s a c - n)),
            finished := (finished s)(a := (finished s a)(c := finished s a c + n)), finishing := insert ?f (finishing s)\<rparr>"
  have d1: "ev_do False (FinishAdd a c n) s = Some ?s1" using g nx by (simp add: Let_def)
  have a1: "ev_allowed (FinishAdd a c n) s" using n by simp
  obtain L1 where inv1: "ev_inv L1 ?s1" using ev_step_inv [OF inv a1] d1 by auto
  have a2: "ev_allowed (FinishCompare ?f) ?s1" by simp
  obtain s2 L2 where s2: "ev_do False (FinishCompare ?f) ?s1 = Some s2" "ev_inv L2 s2" using ev_step_inv [OF inv1 a2] by blast
  then obtain g2 where g2: "cnt_finish_compare c (completed_cnt ?g1 c) ?g1 = Some g2"
    "s2 = ?s1\<lparr>st := set_op a g2 (set_op a ?g1 (st s)), finishing := finishing ?s1 - {?f}\<rparr>" by (auto simp: with_op_Some)
  have nx2: "op_next g2 = op_next g" using g2(1) by (auto simp: cnt_finish_compare_def SET_EVENT_DONE_def split: if_splits)
  have inv2: "ops (st s2) a = Some g2" "0 < finished s2 a c" using g2(2) n by simp_all
  have "\<not> is_eop g2" using inv_obj [OF s2(2) inv2(1)] inv2(2) unfolding obj_ok_def by auto
  moreover have "ev_run False [FinishAdd a c n, FinishCompare ?f] s = Some s2" using a1 d1 a2 s2(1) by (simp del: ev_allowed.simps ev_do.simps)
  moreover have "with_op a (GASNETE_IOP_CNT_FINISH_REG c n) (st s) = Some (st s2)"
    using g nx g2 by (simp add: with_op_def GASNETE_IOP_CNT_FINISH_REG_def Let_def set_op_twice)
  ultimately show ?thesis using s2(2) g2(2) nx2 by (intro exI [of _ "[FinishAdd a c n, FinishCompare ?f]"] exI [of _ s2] exI [of _ g2] exI [of _ L2]) simp
qed

text \<open>The four last operations of a region.\<close>

lemma aop_to_event_run:
  assumes inv: "ev_inv L s" and ok: "ev_allowed (AopToEvent a) s"
  shows "\<exists>acts s'. ev_run False acts s = Some s' \<and> gasnete_aop_to_event a (st s) = Some (st s') \<and> a \<in> held s' \<and>
    armed s' = armed s - {a} \<and> pend s' = pend s"
proof -
  have a: "a \<in> held s" "a \<in> armed s" using ok by simp_all
  obtain g where g: "ops (st s) a = Some g" using held_obj [OF inv a(1)] by blast
  have ne: "\<not> is_eop g" using pend_iop [OF inv_obj [OF inv g]] a(2) by blast
  then have nx: "op_next g = Some a" using list_facts(4) [OF inv_obj [OF inv g] a(1)] by simp
  let ?s0 = "s\<lparr>armed := armed s - {a}, pend := (pend s)(a := (\<lambda>c. pend s a c + 1))\<rparr>"
  have d0: "ev_do False (AopToEvent a) s = Some ?s0" using g nx by simp
  obtain L0 where inv0: "ev_inv L0 ?s0" using ev_step_inv [OF inv ok] d0 by auto
  have g0: "ops (st ?s0) a = Some g" using g by simp
  have nx0: "op_next g \<noteq> None" using nx by simp
  have p0: "1 \<le> pend ?s0 a Put" by simp
  from finish_reg_run [OF inv0 zero_less_one p0 g0 nx0]
  obtain x1 s1 g1 L1 where R1: "ev_run False x1 ?s0 = Some s1" "with_op a (GASNETE_IOP_CNT_FINISH_REG Put 1) (st ?s0) = Some (st s1)"
    "pend s1 = (pend ?s0)(a := (pend ?s0 a)(Put := pend ?s0 a Put - 1))" "armed s1 = armed ?s0" "held s1 = held ?s0"
    "ops (st s1) a = Some g1" "op_next g1 = op_next g" "ev_inv L1 s1" by blast
  have "1 \<le> pend s1 a Get" "op_next g1 \<noteq> None" using R1 nx by simp_all
  from finish_reg_run [OF R1(8) zero_less_one this(1) R1(6) this(2)]
  obtain x2 s2 g2 L2 where R2: "ev_run False x2 s1 = Some s2" "with_op a (GASNETE_IOP_CNT_FINISH_REG Get 1) (st s1) = Some (st s2)"
    "pend s2 = (pend s1)(a := (pend s1 a)(Get := pend s1 a Get - 1))" "armed s2 = armed s1" "held s2 = held s1"
    "ops (st s2) a = Some g2" "op_next g2 = op_next g1" "ev_inv L2 s2" by blast
  have "1 \<le> pend s2 a Rmw" "op_next g2 \<noteq> None" using R1 R2 nx by simp_all
  from finish_reg_run [OF R2(8) zero_less_one this(1) R2(6) this(2)]
  obtain x3 s3 g3 L3 where R3: "ev_run False x3 s2 = Some s3" "with_op a (GASNETE_IOP_CNT_FINISH_REG Rmw 1) (st s2) = Some (st s3)"
    "pend s3 = (pend s2)(a := (pend s2 a)(Rmw := pend s2 a Rmw - 1))" "armed s3 = armed s2" "held s3 = held s2"
    "ops (st s3) a = Some g3" "op_next g3 = op_next g2" "ev_inv L3 s3" by blast
  have "1 \<le> pend s3 a Alc" "op_next g3 \<noteq> None" using R1 R2 R3 nx by simp_all
  from finish_reg_run [OF R3(8) zero_less_one this(1) R3(6) this(2)]
  obtain x4 s4 g4 L4 where R4: "ev_run False x4 s3 = Some s4" "with_op a (GASNETE_IOP_CNT_FINISH_REG Alc 1) (st s3) = Some (st s4)"
    "pend s4 = (pend s3)(a := (pend s3 a)(Alc := pend s3 a Alc - 1))" "armed s4 = armed s3" "held s4 = held s3" by blast
  have "ev_run False ([AopToEvent a] @ x1 @ x2 @ x3 @ x4) s = Some s4"
    using ok d0 R1(1) R2(1) R3(1) R4(1) by (simp add: ev_run_append del: ev_allowed.simps ev_do.simps)
  moreover have "gasnete_aop_to_event a (st s) = Some (st s4)"
    using g nx R1(2) R2(2) R3(2) R4(2) by (simp add: gasnete_aop_to_event_def)
  moreover have "pend s4 = pend s"
  proof
    fix b
    show "pend s4 b = pend s b"
    proof (cases "b = a")
      case True
      then show ?thesis by (intro all_counters) (simp_all add: R4 R3 R2 R1)
    qed (simp add: R4 R3 R2 R1)
  qed
  moreover have "a \<in> held s4" "armed s4 = armed s - {a}" using a R1(4,5) R2(4,5) R3(4,5) R4(4,5) by simp_all
  ultimately show ?thesis by blast
qed

section \<open>A late comparison\<close>

text \<open>
  Two gets of a region end at the same time: the first handler has added and not yet compared, the
  second one completes the region. The region is tested, freed and used again by \<open>gasnete_iop_new\<close>. Then
  the first handler compares its value, 1.
\<close>

definition late_run :: "ev_act list" where
  "late_run = [NewThread, AopCreate 0, AopPush 0 1, Register 0 Get 1, AopPop 0, FinishAdd 1 Get 1, AopToEvent 1,
     FinishAdd 1 Get 1, FinishCompare (1, Get, 2, 2), FinishAdd 1 Put 1, FinishCompare (1, Put, 1, 1),
     FinishAdd 1 Rmw 1, FinishCompare (1, Rmw, 1, 1), FinishAdd 1 Alc 1, FinishCompare (1, Alc, 1, 1),
     TestEvent 0 1 0, AopCreate 0, FinishCompare (1, Get, 1, 1), AopPush 0 1, Register 0 Get 1, AopPop 0]"

section \<open>The functions of access regions\<close>

lemma markdone_run:
  assumes inv: "ev_inv L s" and n: "0 < n" "n \<le> pend s a c"
  shows "\<exists>acts s'. ev_run False acts s = Some s' \<and> gasneti_iop_markdone c n a (st s) = Some (st s') \<and>
    pend s' = (pend s)(a := (pend s a)(c := pend s a c - n))"
proof -
  have ok: "ev_allowed (FinishAdd a c n) s" using n by simp
  obtain s1 L1 where s1: "ev_do False (FinishAdd a c n) s = Some s1" "ev_inv L1 s1" using ev_step_inv [OF inv ok] by blast
  then obtain g where g: "ops (st s) a = Some g" by (auto split: option.splits)
  have ne: "\<not> is_eop g" using pend_iop [OF inv_obj [OF inv g], of c] n by simp
  have typed: "\<exists>g'. ops (st s') a = Some g' \<and> gasnete_iop_check g'" if inv': "ev_inv L' s'" and g': "ops (st s') a = Some g'" and ne': "\<not> is_eop g'" for s' L' g'
  proof -
    note obj = inv_obj [OF inv' g']
    have "a \<in> held s' \<or> (\<exists>k t. a \<in> set (L' k t))" using inv' g' inv_listsD(9) [of L' s' a] by (simp add: ev_inv_def)
    then consider "a \<in> held s'" | k t where "a \<in> set (L' k t)" by blast
    then have "OPTYPE g' = event_type_iop \<or> OPTYPE g' = event_type_free_iop"
    proof cases
      case 1
      then show ?thesis using list_facts(4) [OF obj] ne' by simp
    next
      case 2
      then show ?thesis using list_facts(1-3) [OF obj, of t] ne' by (cases k) (auto simp: event_views is_eop_def)
    qed
    then show ?thesis using counts_check [OF iop_parts(1) [OF obj ne']] g' by simp
  qed
  show ?thesis
  proof (cases "op_next g = None")
    case True
    then have "with_op a (GASNETE_IOP_CNT_FINISH c n) (st s) = Some (st s1)" "pend s1 = (pend s)(a := (pend s a)(c := pend s a c - n))"
      "ops (st s1) a = Some (cnt_finish_add c n g)"
      using s1(1) g by (auto simp: with_op_def GASNETE_IOP_CNT_FINISH_def Let_def)
    moreover have "\<not> is_eop (cnt_finish_add c n g)" using ne by (simp add: is_eop_def)
    ultimately have "gasneti_iop_markdone c n a (st s) = Some (st s1)"
      using typed [OF s1(2)] by (auto simp: gasneti_iop_markdone_def)
    moreover have "ev_run False [FinishAdd a c n] s = Some s1" using ok s1(1) by (simp del: ev_allowed.simps ev_do.simps)
    ultimately show ?thesis using \<open>pend s1 = _\<close> by blast
  next
    case False
    obtain acts s' g' L' where R: "ev_run False acts s = Some s'" "with_op a (GASNETE_IOP_CNT_FINISH_REG c n) (st s) = Some (st s')"
      "pend s' = (pend s)(a := (pend s a)(c := pend s a c - n))" "ops (st s') a = Some g'" "ev_inv L' s'" "\<not> is_eop g'"
      using finish_reg_run [OF inv n g False] by blast
    have w: "with_op a (GASNETE_IOP_CNT_FINISH c n) (st s) = Some (st s')"
      using R(2) g False by (simp add: with_op_def GASNETE_IOP_CNT_FINISH_def)
    have "\<not> is_eop g'" using R(6) by simp
    then have "gasneti_iop_markdone c n a (st s) = Some (st s')" using typed [OF R(5,4)] w R(4) by (auto simp: gasneti_iop_markdone_def)
    then show ?thesis using R(1,3) by blast
  qed
qed

end
