(* ===== verification/Event_Properties.thy ===== *)
theory Event_Properties
  imports Event_Runs
begin

text \<open>
  Properties of events and operations (\<^verbatim>\<open>gasnet_event.c\<close>): no assertion fails in any interleaving,
  tests answer exactly whether operations have ended, objects are handed out to one user at a time,
  the functions of access regions and of handlers are sequences of the atomic steps, and what goes
  wrong in the build with statistics.
\<close>

section \<open>What a test may wait for\<close>

definition op_busy :: "ev_sys \<Rightarrow> nat \<Rightarrow> category \<Rightarrow> bool" where
  "op_busy s a c \<longleftrightarrow> pend s a c \<noteq> 0 \<or> a \<in> armed s \<or> (\<exists>w. (a, c, started s a c, w) \<in> finishing s)"

lemma busy_live:
  assumes inv: "ev_inv L s" and g: "ops (st s) a = Some g"
  shows "is_eop g \<Longrightarrow> \<not> op_busy s a c" and "\<not> is_eop g \<Longrightarrow> event_live s a c = op_busy s a c"
proof -
  note obj = inv_obj [OF inv g]
  have fin: "finishing_ok s" using inv by (simp add: ev_inv_def)
  show "\<not> op_busy s a c" if e: "is_eop g"
  proof -
    have z: "a \<notin> armed s" "pend s a c = 0" "started s a c = 0" "finished s a c = 0" using obj e unfolding obj_ok_def by simp_all
    then show ?thesis using finishing_okD [OF fin, of a c 0] by (auto simp: op_busy_def)
  qed
  show "event_live s a c = op_busy s a c" if ne: "\<not> is_eop g"
    using counts_okD(3) [OF iop_parts(1) [OF obj ne], of c] by (auto simp: event_live_def op_busy_def)
qed

lemma iop_live:
  assumes "iop_ok lv g"
  shows "live (event g ! event_index c) \<longleftrightarrow> lv c" and "EVENT_ANY_LIVE g \<longleftrightarrow> (\<exists>c. lv c)"
proof -
  obtain b0 b1 b2 b3 where b: "event g = [b0, b1, b2, b3, 0, 0]" and l: "live b0 = lv Put" "live b1 = lv Alc" "live b2 = lv Get" "live b3 = lv Rmw"
    using assms unfolding iop_ok_def by (metis ev_byte_simps(1) small_not_live small_types(1,3,7,8))
  show "live (event g ! event_index c) \<longleftrightarrow> lv c" by (cases c) (simp_all add: b l)
  have "(\<exists>c. lv c) \<longleftrightarrow> lv Put \<or> lv Alc \<or> lv Get \<or> lv Rmw" by (metis category.exhaust)
  then show "EVENT_ANY_LIVE g \<longleftrightarrow> (\<exists>c. lv c)" by (simp add: event_views b l)
qed

lemma held_iop_ok:
  assumes inv: "ev_inv L s" and g: "ops (st s) a = Some g" and h: "a \<in> held s" and ne: "\<not> is_eop g"
  shows "iop_ok (op_busy s a) g"
proof -
  have "\<not> implicit L a" using implicit_in held_apart [OF inv h] by blast
  moreover have "event_live s a = op_busy s a" using busy_live(2) [OF inv g ne] by blast
  ultimately show ?thesis using iop_parts(2) [OF inv_obj [OF inv g] ne] by simp
qed

lemma eop_live:
  assumes inv: "ev_inv L s" and g: "ops (st s) a = Some g" and e: "is_eop g"
  shows "live (event g ! event_index c) \<longleftrightarrow> (c = Put \<and> root_pend s a \<or> c = Alc \<and> lc_pend s a)"
    and "EVENT_ANY_LIVE g \<longleftrightarrow> root_pend s a \<or> lc_pend s a"
proof -
  obtain b0 b1 where b: "event g = [b0, b1, 0, 0, 0, 0]" "b0 = ev_byte event_type_eop (root_pend s a) \<or> b0 = event_type_free_eop \<and> \<not> root_pend s a"
    "b1 = ev_byte event_type_lc (lc_pend s a) \<or> b1 = 0 \<and> \<not> lc_pend s a" by (rule eop_bytes [OF inv_obj [OF inv g] e])
  have l: "live b0 = root_pend s a" "live b1 = lc_pend s a"
    using b(2,3) ev_byte_simps(1) [of event_type_eop "root_pend s a"] ev_byte_simps(1) [of event_type_lc "lc_pend s a"]
      small_not_live [of event_type_free_eop] small_not_live [of 0] small_types by metis+
  show "live (event g ! event_index c) \<longleftrightarrow> (c = Put \<and> root_pend s a \<or> c = Alc \<and> lc_pend s a)" by (cases c) (simp_all add: b(1) l)
  show "EVENT_ANY_LIVE g \<longleftrightarrow> root_pend s a \<or> lc_pend s a" by (simp add: event_views b(1) l)
qed

section \<open>Properties\<close>


text \<open>
  C28. Tests are exact. The test of a root event that is held succeeds, and frees the object, if and only
  if no part of the operation is outstanding: neither remote nor local completion, nor an open region,
  nor a category, nor a handler about to compare. The test of a leaf succeeds if and only if its part
  is over, and changes nothing.
\<close>

theorem event_tests_exact:
  assumes reach: "ev_reach False s" and t: "t < nthreads s" and h: "a \<in> held s"
  shows "(\<exists>ok o1. gasnete_op_try_free t a 0 (st s) = Some (ok, o1) \<and>
      (ok \<longleftrightarrow> \<not> root_pend s a \<and> \<not> lc_pend s a \<and> (\<forall>c. \<not> op_busy s a c)) \<and> (\<not> ok \<longrightarrow> o1 = st s)) \<and>
    (\<forall>c. c \<noteq> Put \<longrightarrow> (\<exists>ok. gasnete_op_try_free t a (event_index c) (st s) = Some (ok, st s) \<and>
      (ok \<longleftrightarrow> \<not> (c = Alc \<and> lc_pend s a) \<and> \<not> op_busy s a c)))"
proof -
  obtain L where inv: "ev_inv L s" using ev_reach_inv [OF reach] by blast
  obtain g where g: "ops (st s) a = Some g" using held_obj [OF inv h] by blast
  note obj = inv_obj [OF inv g]
  have any: "EVENT_ANY_LIVE g \<longleftrightarrow> root_pend s a \<or> lc_pend s a \<or> (\<exists>c. op_busy s a c)"
    using eop_live(2) [OF inv g] busy_live(1) [OF inv g] iop_live(2) [OF held_iop_ok [OF inv g h]] iop_parts(3,4) [OF obj] by metis
  have first: "live (event g ! 0) \<Longrightarrow> EVENT_ANY_LIVE g"
    using eop_live(1) [OF inv g, of Put] eop_live(2) [OF inv g] iop_live(1) [OF held_iop_ok [OF inv g h], of Put]
      iop_live(2) [OF held_iop_ok [OF inv g h]] by (cases "is_eop g") auto
  have root: "\<exists>ok o1. gasnete_op_try_free t a 0 (st s) = Some (ok, o1) \<and>
      (ok \<longleftrightarrow> \<not> root_pend s a \<and> \<not> lc_pend s a \<and> (\<forall>c. \<not> op_busy s a c)) \<and> (\<not> ok \<longrightarrow> o1 = st s)"
    using try_free_result [OF inv g h, of 0 t] first any by auto
  have "\<exists>ok. gasnete_op_try_free t a (event_index c) (st s) = Some (ok, st s) \<and>
      (ok \<longleftrightarrow> \<not> (c = Alc \<and> lc_pend s a) \<and> \<not> op_busy s a c)" if c: "c \<noteq> Put" for c
  proof -
  have "live (event g ! event_index c) \<longleftrightarrow> c = Alc \<and> lc_pend s a \<or> op_busy s a c"
    using eop_live(1) [OF inv g, of c] busy_live(1) [OF inv g, of c] iop_live(1) [OF held_iop_ok [OF inv g h], of c] iop_parts(4) [OF obj] c
    by metis
  moreover have "event_index c < 6" "event_index c \<noteq> 0" using c by (cases c; simp)+
  ultimately show ?thesis using try_free_result [OF inv g h, of "event_index c" t] by auto
  qed
  then show ?thesis using root by blast
qed

text \<open>The state after a thread has created a region, put one of two gets into it and taken it from its stack.\<close>

definition sample_acts :: "ev_act list" where
  "sample_acts = [NewThread, NewThread, AopCreate 0, AopPush 0 2, Register 0 Get 2, AopPop 0, FinishAdd 2 Get 1, Register 1 Put 3]"

lemma sample_reach: "ev_reach False (the_run False sample_acts)"
proof -
  have "ev_run False sample_acts ev_init \<noteq> None" by code_simp
  then show ?thesis using ev_run_reach [of False sample_acts ev_init] ev_start by (auto simp: the_run_def)
qed

text \<open>
  C29. The test of implicit operations outside access regions succeeds if and only if no operation of
  the categories in question is outstanding; inside a region its assertion fails.
\<close>

theorem nbi_test_exact:
  assumes reach: "ev_reach False s" and t: "t < nthreads s"
  shows "gasnete_test_syncnbi_mask ec t (st s) =
    (if map_option op_next (ops (st s) (current_iop (threads (st s) t))) = Some None
     then Some (\<forall>c. ec c \<longrightarrow> pend s (current_iop (threads (st s) t)) c = 0) else None)"
proof -
  let ?a = "current_iop (threads (st s) t)"
  obtain L where inv: "ev_inv L s" using ev_reach_inv [OF reach] by blast
  obtain g xs where on: "L StackI t = ?a # xs" and g: "ops (st s) ?a = Some g" using current_on_stack [OF inv t] by blast
  note obj = inv_obj [OF inv g]
  have F: "\<not> is_eop g" "OPTYPE g = event_type_iop" "threadidx g = t" "if implicit L ?a then ?a \<notin> armed s else ?a \<in> armed s"
    using list_facts(3) [OF obj, of t] on by auto
  have cnt: "counts_ok s ?a g" by (rule iop_parts(1) [OF obj F(1)])
  show ?thesis
  proof (cases "op_next g = None")
    case True
    have "chain (nexts (st s)) (Some ?a) (?a # xs)" using inv t on inv_listsD(1) [of L s t StackI] by (simp add: ev_inv_def)
    then have "xs = []" using g True by (cases xs) (simp_all add: nexts_def)
    then have "implicit L ?a" unfolding implicit_def using on by (metis last.simps list.distinct(1))
    then have na: "?a \<notin> armed s" using F(4) by simp
    have fin: "GASNETE_IOP_CNTDONE g c \<longleftrightarrow> pend s ?a c = 0" for c
    proof -
      note D = counts_okD [OF cnt, of c]
      have "finished s ?a c \<le> started s ?a c" "started s ?a c < finished s ?a c + 0x100000000" using D(3,4) na by simp_all
      from counts_eq_iff [OF this] show ?thesis using D(1-3) na by (auto simp: GASNETE_IOP_CNTDONE_def)
    qed
    have "(\<not> list_ex (\<lambda>c. \<not> GASNETE_IOP_CNTDONE g c \<and> ec c) [Alc, Put, Get, Rmw]) \<longleftrightarrow> (\<forall>c. ec c \<longrightarrow> pend s ?a c = 0)"
      unfolding fin by (auto; metis category.exhaust)
    then show ?thesis using g True F by (simp add: gasnete_test_syncnbi_mask_def)
  next
    case False
    then show ?thesis using g by (auto simp: gasnete_test_syncnbi_mask_def)
  qed
qed

lemma refill_current: "refill_eops t o1 = Some o2 \<Longrightarrow> current_iop (threads o2 u) = current_iop (threads o1 u)"
  by (auto simp: refill_eops_def gasnete_eop_alloc_def Let_def split: if_splits)

text \<open>
  C30. The object of a new operation or region is nobody's: no caller holds it, it is no open region,
  nothing of it is outstanding, and it is no thread's current implicit operation.
\<close>

theorem new_objects_unused:
  assumes reach: "ev_reach False s" and t: "t < nthreads s"
  shows "(\<exists>a o1. gasnete_eop_new t (st s) = Some (a, o1) \<and> a \<notin> held s \<and> \<not> root_pend s a \<and> \<not> lc_pend s a \<and> a \<notin> armed s \<and>
      (\<forall>c. pend s a c = 0) \<and> (\<forall>u<nthreads s. current_iop (threads (st s) u) \<noteq> a)) \<and>
    (\<exists>a o1. gasnete_iop_new False t (st s) = Some (a, o1) \<and> a \<notin> held s \<and> \<not> root_pend s a \<and> \<not> lc_pend s a \<and> a \<notin> armed s \<and>
      (\<forall>c. pend s a c = 0) \<and> (\<forall>u<nthreads s. current_iop (threads (st s) u) \<noteq> a))"
proof
  obtain L where inv: "ev_inv L s" using ev_reach_inv [OF reach] by blast
  obtain a o2 g L' where new: "gasnete_iop_new False t (st s) = Some (a, o2)" and f: "iop_found L s t a g L' o2"
    using iop_new_any [OF inv t] by blast
  have "current_iop (threads (st s) u) \<noteq> a" if "u < nthreads s" for u
    using current_on_stack [OF inv that] f unfolding iop_found_def by (metis list.set_intros(1))
  then show "\<exists>a o1. gasnete_iop_new False t (st s) = Some (a, o1) \<and> a \<notin> held s \<and> \<not> root_pend s a \<and> \<not> lc_pend s a \<and> a \<notin> armed s \<and>
      (\<forall>c. pend s a c = 0) \<and> (\<forall>u<nthreads s. current_iop (threads (st s) u) \<noteq> a)"
    using new f unfolding iop_found_def by blast
next
  obtain L where inv: "ev_inv L s" using ev_reach_inv [OF reach] by blast
  obtain L' o1 where r: "refill_eops t (st s) = Some o1" "ev_inv L' (s\<lparr>st := o1\<rparr>)" "L' FreeE t \<noteq> []"
    using refill_inv [OF inv t] by blast
  obtain s' L2 where d: "ev_do False (EopNew t) s = Some s'" using eop_new_inv [OF inv, of t] t by auto
  then obtain a o2 where new: "gasnete_eop_new t (st s) = Some (a, o2)" by auto
  obtain x xs where on: "L' FreeE t = x # xs" using r(3) by (cases "L' FreeE t") auto
  have il: "inv_lists L' (s\<lparr>st := o1\<rparr>)" using r(2) by (simp add: ev_inv_def)
  from inv_listsD(1) [OF il, of t FreeE] obtain g where hd: "eop_free (threads o1 t) = Some x" and g: "ops o1 x = Some g"
    using t on by (auto simp: nexts_def)
  have "a = x" using new r(1) hd g by (auto simp: gasnete_eop_new_def eop_new_raw_def Let_def split: if_splits option.splits bind_splits)
  have obj: "obj_ok L' (s\<lparr>st := o1\<rparr>) x g" using inv_obj [OF r(2)] g by simp
  have fr: "event g ! 0 = event_type_free_eop" "\<not> lc_pend s x" using list_facts(1) [OF obj, of t] on by simp_all
  have e: "is_eop g" using fr by (simp add: is_eop_def)
  have "\<not> live (event g ! 0)" using fr by simp
  then have nr: "\<not> root_pend s x" using eop_live(1) [OF r(2), of x g Put] g e by simp
  have rest: "x \<notin> armed s" "\<forall>c. pend s x c = 0" using obj e unfolding obj_ok_def by simp_all
  have nh: "x \<notin> held s" using inv_listsD(4) [OF il, of x FreeE t] on by auto
  have "current_iop (threads (st s) u) \<noteq> x" if u: "u < nthreads s" for u
  proof -
    obtain ys where "L' StackI u = current_iop (threads o1 u) # ys" using current_on_stack [OF r(2), of u] u by auto
    then have "current_iop (threads o1 u) \<noteq> x" using apart [OF r(2), of x StackI u FreeE t] on by auto
    then show ?thesis using refill_current [OF r(1)] by simp
  qed
  then show "\<exists>a o1. gasnete_eop_new t (st s) = Some (a, o1) \<and> a \<notin> held s \<and> \<not> root_pend s a \<and> \<not> lc_pend s a \<and> a \<notin> armed s \<and>
      (\<forall>c. pend s a c = 0) \<and> (\<forall>u<nthreads s. current_iop (threads (st s) u) \<noteq> a)"
    using new \<open>a = x\<close> fr(2) nr rest nh by blast
qed

section \<open>Functions as sequences of steps\<close>

text \<open>The opening and the closing of an access region.\<close>

lemma begin_run:
  assumes inv: "ev_inv L s" and ok: "ev_allowed (AopCreate t) s"
  shows "\<exists>a s'. ev_run False [AopCreate t, AopPush t a] s = Some s' \<and> gasnete_begin_nbi_accessregion False True t (st s) = Some (st s') \<and>
    current_iop (threads (st s') t) = a \<and> a \<in> armed s' \<and> a \<notin> armed s \<and> pend s' = pend s"
proof -
  have t: "t < nthreads s" using ok by simp
  obtain a o2 g L' where new: "gasnete_iop_new False t (st s) = Some (a, o2)" and f: "iop_found L s t a g L' o2"
    using iop_new_any [OF inv t] by blast
  note F = f [unfolded iop_found_def]
  have cr: "gasnete_aop_create False t (st s) = Some (a, set_op a (region a g) o2)" by (rule aop_create_result [OF new]) (use F in auto)
  obtain s1 L1 where s1: "ev_do False (AopCreate t) s = Some s1" "ev_inv L1 s1" using ev_step_inv [OF inv ok] by blast
  have s1e: "s1 = s\<lparr>st := set_op a (region a g) o2, held := insert a (held s), armed := insert a (armed s),
         started := (started s)(a := (\<lambda>c. started s a c + 1))\<rparr>" using s1(1) cr by simp
  have ok2: "ev_allowed (AopPush t a) s1" using t F by (simp add: s1e)
  obtain s2 L2 where s2: "ev_do False (AopPush t a) s1 = Some s2" using ev_step_inv [OF s1(2) ok2] by blast
  have "ev_run False [AopCreate t, AopPush t a] s = Some s2" using ok s1(1) ok2 s2 by (simp del: ev_allowed.simps ev_do.simps)
  moreover obtain h where "ops (st s) (current_iop (threads (st s) t)) = Some h" using current_on_stack [OF inv t] by blast
  then have "gasnete_begin_nbi_accessregion False True t (st s) = Some (st s2)"
    using cr s2 s1e by (auto simp: gasnete_begin_nbi_accessregion_def)
  moreover have "current_iop (threads (st s2) t) = a" "a \<in> armed s2" "pend s2 = pend s"
    using s2 s1e by (auto simp: gasnete_aop_push_def split: if_splits bind_splits)
  ultimately show ?thesis using F by blast
qed

lemma end_run:
  assumes inv: "ev_inv L s" and ok: "ev_allowed (AopPop t) s"
  shows "\<exists>acts s'. ev_run False acts s = Some s' \<and>
    gasnete_end_nbi_accessregion t (st s) = Some (current_iop (threads (st s) t), st s') \<and>
    current_iop (threads (st s) t) \<in> held s' \<and> armed s' = armed s - {current_iop (threads (st s) t)} \<and> pend s' = pend s"
proof -
  let ?a = "current_iop (threads (st s) t)"
  obtain s1 L1 where s1: "ev_do False (AopPop t) s = Some s1" "ev_inv L1 s1" using ev_step_inv [OF inv ok] by blast
  obtain g b where g: "ops (st s) ?a = Some g" "op_next g = Some b" using ok by (auto split: option.splits)
  have s1e: "s1 = s\<lparr>st := st s1, held := insert ?a (held s)\<rparr>" "gasnete_aop_pop t (st s) = Some (?a, st s1)"
    using s1(1) g by (auto simp: gasnete_aop_pop_def Let_def)
  have arm: "?a \<in> armed s"
  proof -
    have t: "t < nthreads s" using ok by simp
    obtain xs where on: "L StackI t = ?a # xs" using current_on_stack [OF inv t] by blast
    have m: "?a \<in> set (L StackI t)" using on by simp
    have "\<not> implicit L ?a" using implicit_next [OF inv g(1)] g(2) by auto
    then show ?thesis using list_facts(3) [OF inv_obj [OF inv g(1)] m] by simp
  qed
  have h: "held s1 = insert ?a (held s)" "armed s1 = armed s" "pend s1 = pend s" by (subst s1e(1), simp)+
  have ok2: "ev_allowed (AopToEvent ?a) s1" using h arm by simp
  obtain acts s' where R: "ev_run False acts s1 = Some s'" "gasnete_aop_to_event ?a (st s1) = Some (st s')" "?a \<in> held s'"
    "armed s' = armed s1 - {?a}" "pend s' = pend s1" using aop_to_event_run [OF s1(2) ok2] by blast
  have "ev_run False (AopPop t # acts) s = Some s'" using ok s1(1) R(1) by (simp del: ev_allowed.simps ev_do.simps)
  moreover have "gasnete_end_nbi_accessregion t (st s) = Some (?a, st s')" using s1e(2) R(2) by (simp add: gasnete_end_nbi_accessregion_def)
  ultimately show ?thesis using R h by metis
qed


text \<open>
  C32. In the build with statistics \<open>gasnete_iop_new\<close> resets counters of an object that it reuses, while a
  handler that has added its operation may not have compared yet. There is a run in which the
  comparison then meets a counter that starts from zero again: the leaf of the gets of the next region
  tests as done while a get of it is outstanding. Without the reset the same run tests correctly.
\<close>

theorem stats_reset_is_unsafe:
  "ev_reach True (the_run True late_run) \<and> pend (the_run True late_run) 1 Get = 1 \<and>
   map_option fst (gasnete_op_try_free 0 1 (event_index Get) (st (the_run True late_run))) = Some True \<and>
   pend (the_run False late_run) 1 Get = 1 \<and>
   map_option fst (gasnete_op_try_free 0 1 (event_index Get) (st (the_run False late_run))) = Some False"
proof -
  have "ev_run True late_run ev_init \<noteq> None" by code_simp
  then have "ev_reach True (the_run True late_run)"
    using ev_run_reach [of True late_run ev_init] ev_start by (auto simp: the_run_def)
  moreover have "pend (the_run True late_run) 1 Get = 1" "pend (the_run False late_run) 1 Get = 1" by code_simp+
  moreover have "map_option fst (gasnete_op_try_free 0 1 (event_index Get) (st (the_run True late_run))) = Some True" by code_simp
  moreover have "map_option fst (gasnete_op_try_free 0 1 (event_index Get) (st (the_run False late_run))) = Some False" by code_simp
  ultimately show ?thesis by blast
qed

section \<open>Witnesses\<close>


lemma event_tests_exact_witness:
  "\<exists>ok o1. gasnete_op_try_free 1 2 0 (st (the_run False sample_acts)) = Some (ok, o1) \<and>
      (ok \<longleftrightarrow> \<not> root_pend (the_run False sample_acts) 2 \<and> \<not> lc_pend (the_run False sample_acts) 2 \<and>
        (\<forall>c. \<not> op_busy (the_run False sample_acts) 2 c))"
proof -
  have "1 < nthreads (the_run False sample_acts)" "2 \<in> held (the_run False sample_acts)" by code_simp+
  from event_tests_exact [OF sample_reach this] show ?thesis by blast
qed

lemma nbi_test_exact_witness:
  "gasnete_test_syncnbi_mask (\<lambda>c. c = Put) 1 (st (the_run False sample_acts)) = Some False"
proof -
  have t: "1 < nthreads (the_run False sample_acts)" by code_simp
  have n: "map_option op_next (ops (st (the_run False sample_acts)) (current_iop (threads (st (the_run False sample_acts)) 1))) = Some None"
    by code_simp
  have "pend (the_run False sample_acts) (current_iop (threads (st (the_run False sample_acts)) 1)) Put = 3" by code_simp
  then show ?thesis using nbi_test_exact [OF sample_reach t, of "\<lambda>c. c = Put"] n by simp
qed

lemma new_objects_unused_witness:
  "\<exists>a o1. gasnete_eop_new 1 (st (the_run False sample_acts)) = Some (a, o1) \<and> a \<notin> held (the_run False sample_acts)"
proof -
  have "1 < nthreads (the_run False sample_acts)" by code_simp
  from new_objects_unused [OF sample_reach this] show ?thesis by blast
qed


end
