(* ===== verification/Am_Table.thy ===== *)
theory Am_Table
  imports Gasnet_Prelude
begin

text \<open>
  Tables of active-message handlers (\<^verbatim>\<open>gasnet_am.c\<close>): validation, registration of fixed and of
  free indices, the legacy interface and the check of a call. Functions are numbers; the conduit's own
  registration hook (\<open>GASNETC_AMREGISTER\<close>) is not defined. A fatal error or failed assertion is \<open>None\<close>.
  The lock of the table makes a registration one step.
\<close>

section \<open>Entries\<close>

record gex_AM_Entry =
  gex_index :: nat           \<comment> \<open>8 bits wide; 0: free, or any index\<close>
  gex_fnptr :: nat
  gex_flags :: u32
  gex_nargs :: nat
  gex_cdata :: nat
  gex_name :: nat

definition GASNETI_CLIENT_HANDLER_BASE :: nat where "GASNETI_CLIENT_HANDLER_BASE = 128"
definition GASNETC_MAX_NUMHANDLERS :: nat where "GASNETC_MAX_NUMHANDLERS = 256"
definition GASNETI_HANDLER_NARGS_UNK :: nat where "GASNETI_HANDLER_NARGS_UNK = 255"

definition GEX_FLAG_AM_SHORT :: u32 where "GEX_FLAG_AM_SHORT = 0x01"
definition GEX_FLAG_AM_MEDIUM :: u32 where "GEX_FLAG_AM_MEDIUM = 0x02"
definition GEX_FLAG_AM_LONG :: u32 where "GEX_FLAG_AM_LONG = 0x04"
definition GEX_FLAG_AM_REQUEST :: u32 where "GEX_FLAG_AM_REQUEST = 0x08"
definition GEX_FLAG_AM_REPLY :: u32 where "GEX_FLAG_AM_REPLY = 0x10"
definition GASNETI_FLAG_INIT_LEGACY :: u32 where "GASNETI_FLAG_INIT_LEGACY = 0x80000000"

definition GASNETI_FLAG_AM_ANY :: u32 where
  "GASNETI_FLAG_AM_ANY = GEX_FLAG_AM_SHORT OR GEX_FLAG_AM_MEDIUM OR GEX_FLAG_AM_LONG OR GEX_FLAG_AM_REQUEST OR GEX_FLAG_AM_REPLY"

datatype am_rc = GASNET_OK | GASNET_ERR_BAD_ARG | GASNET_ERR_RESOURCE

section \<open>Validation\<close>

definition am_valid_entry :: "nat \<Rightarrow> gex_AM_Entry \<Rightarrow> bool" where
  "am_valid_entry max_args e \<longleftrightarrow> gex_nargs e \<le> max_args \<and>
     gex_flags e AND (GEX_FLAG_AM_REQUEST OR GEX_FLAG_AM_REPLY) \<noteq> 0 \<and>
     gex_flags e AND (GEX_FLAG_AM_SHORT OR GEX_FLAG_AM_MEDIUM OR GEX_FLAG_AM_LONG) \<notin>
       {0, GEX_FLAG_AM_SHORT OR GEX_FLAG_AM_MEDIUM OR GEX_FLAG_AM_LONG, GEX_FLAG_AM_SHORT OR GEX_FLAG_AM_MEDIUM,
        GEX_FLAG_AM_SHORT OR GEX_FLAG_AM_LONG}"

definition gasneti_am_validate :: "nat \<Rightarrow> gex_AM_Entry list \<Rightarrow> bool" where
  "gasneti_am_validate max_args table = (case table of [] \<Rightarrow> True | e # es \<Rightarrow>
     if gex_nargs e = GASNETI_HANDLER_NARGS_UNK \<or> c_and (gex_flags e) GASNETI_FLAG_INIT_LEGACY
     then list_all (\<lambda>x. gex_nargs x = GASNETI_HANDLER_NARGS_UNK \<and> gex_flags x = GASNETI_FLAG_AM_ANY OR GASNETI_FLAG_INIT_LEGACY) table
     else list_all (am_valid_entry max_args) table)"

section \<open>Registration\<close>

text \<open>The search for a free index, from the top down; \<open>j\<close> is one more than the index to try.\<close>

fun free_index :: "nat \<Rightarrow> nat \<Rightarrow> gex_AM_Entry list \<Rightarrow> nat option" where
  "free_index lowlimit 0 tbl = None"
| "free_index lowlimit (Suc j) tbl =
     (if j < lowlimit then None else if gex_index (tbl ! j) = 0 then Some j else free_index lowlimit j tbl)"

definition am_put :: "gex_AM_Entry \<Rightarrow> gex_AM_Entry list \<Rightarrow> gex_AM_Entry list" where
  "am_put e tbl = tbl[gex_index e := e]"

text \<open>One pass over the input: the entries with an index, or those without. The result holds the
  return code, the input with the indices assigned so far, the table and the number registered.\<close>

fun amregister_loop :: "nat \<Rightarrow> nat \<Rightarrow> bool \<Rightarrow> gex_AM_Entry list \<Rightarrow> gex_AM_Entry list \<Rightarrow> nat \<Rightarrow>
    am_rc \<times> gex_AM_Entry list \<times> gex_AM_Entry list \<times> nat" where
  "amregister_loop lowlimit highlimit dontcare [] tbl n = (GASNET_OK, [], tbl, n)"
| "amregister_loop lowlimit highlimit dontcare (e # es) tbl n =
     (if (gex_index e = 0) \<noteq> dontcare
      then (case amregister_loop lowlimit highlimit dontcare es tbl n of (rc, es', out, k) \<Rightarrow> (rc, e # es', out, k))
      else case (if gex_index e \<noteq> 0 then Some (gex_index e) else free_index lowlimit highlimit tbl) of
        None \<Rightarrow> (GASNET_ERR_BAD_ARG, e # es, tbl, n)
      | Some newindex \<Rightarrow>
          if newindex < lowlimit \<or> highlimit \<le> newindex \<or> gex_index (tbl ! newindex) \<noteq> 0
          then (GASNET_ERR_BAD_ARG, e # es, tbl, n)
          else let e' = e\<lparr>gex_index := newindex\<rparr> in
            (case amregister_loop lowlimit highlimit dontcare es (am_put e' tbl) (n + 1) of
               (rc, es', out, k) \<Rightarrow> (rc, e' # es', out, k)))"

definition gasneti_amregister :: "nat \<Rightarrow> nat \<Rightarrow> nat \<Rightarrow> bool \<Rightarrow> gex_AM_Entry list \<Rightarrow> gex_AM_Entry list \<Rightarrow>
    (am_rc \<times> gex_AM_Entry list \<times> gex_AM_Entry list \<times> nat) option" where
  "gasneti_amregister max_args lowlimit highlimit dontcare input tbl =
     (if gasneti_am_validate max_args input then Some (amregister_loop lowlimit highlimit dontcare input tbl 0) else None)"

definition gasneti_amregister_client :: "nat \<Rightarrow> gex_AM_Entry list \<Rightarrow> gex_AM_Entry list \<Rightarrow>
    (am_rc \<times> gex_AM_Entry list \<times> gex_AM_Entry list) option" where
  "gasneti_amregister_client max_args input tbl =
     (if input = [] then Some (GASNET_OK, input, tbl)
      else if GASNETC_MAX_NUMHANDLERS - GASNETI_CLIENT_HANDLER_BASE < length input then Some (GASNET_ERR_BAD_ARG, input, tbl)
      else case gasneti_amregister max_args GASNETI_CLIENT_HANDLER_BASE GASNETC_MAX_NUMHANDLERS False input tbl of
        None \<Rightarrow> None
      | Some (rc1, input1, tbl1, numreg1) \<Rightarrow>
          if rc1 \<noteq> GASNET_OK then Some (GASNET_ERR_RESOURCE, input1, tbl1)
          else (case gasneti_amregister max_args GASNETI_CLIENT_HANDLER_BASE GASNETC_MAX_NUMHANDLERS True input1 tbl1 of
              None \<Rightarrow> None
            | Some (rc2, input2, tbl2, numreg2) \<Rightarrow>
                if rc2 \<noteq> GASNET_OK then Some (GASNET_ERR_RESOURCE, input2, tbl2)
                else if numreg1 + numreg2 = length input then Some (GASNET_OK, input2, tbl2) else None))"

text \<open>Handlers as in the first version of the library: an index and a function.\<close>

definition legacy_entry :: "nat \<times> nat \<Rightarrow> gex_AM_Entry" where
  "legacy_entry h = \<lparr>gex_index = fst h, gex_fnptr = snd h, gex_flags = GASNETI_FLAG_AM_ANY OR GASNETI_FLAG_INIT_LEGACY,
     gex_nargs = GASNETI_HANDLER_NARGS_UNK, gex_cdata = 0, gex_name = 0\<rparr>"

definition gasneti_amregister_legacy :: "nat \<Rightarrow> (nat \<times> nat) list \<Rightarrow> gex_AM_Entry list \<Rightarrow>
    (am_rc \<times> (nat \<times> nat) list \<times> gex_AM_Entry list) option" where
  "gasneti_amregister_legacy max_args table tbl =
     (if table = [] then Some (GASNET_OK, table, tbl)
      else if GASNETC_MAX_NUMHANDLERS - GASNETI_CLIENT_HANDLER_BASE < length table then Some (GASNET_ERR_BAD_ARG, table, tbl)
      else case gasneti_amregister_client max_args (map legacy_entry table) tbl of
        None \<Rightarrow> None
      | Some (rc, extable, out) \<Rightarrow>
          if rc \<noteq> GASNET_OK then Some (GASNET_ERR_RESOURCE, table, out)
          else Some (GASNET_OK, map2 (\<lambda>h x. (gex_index x, snd h)) table extable, out))"

definition gasneti_amtbl_init :: "nat \<Rightarrow> gex_AM_Entry list" where
  "gasneti_amtbl_init defaultAMHandler =
     map (\<lambda>i. \<lparr>gex_index = 0, gex_fnptr = defaultAMHandler, gex_flags = GASNETI_FLAG_AM_ANY, gex_nargs = GASNETI_HANDLER_NARGS_UNK,
       gex_cdata = i, gex_name = 1\<rparr>) [0..<GASNETC_MAX_NUMHANDLERS]"

section \<open>Calls\<close>

datatype am_category = AM_Short | AM_Medium | AM_Long

definition gasneti_amtbl_check :: "gex_AM_Entry \<Rightarrow> nat \<Rightarrow> am_category \<Rightarrow> bool \<Rightarrow> bool" where
  "gasneti_amtbl_check entry nargs category isReq =
     (if gex_nargs entry \<noteq> nargs \<and> gex_nargs entry \<noteq> GASNETI_HANDLER_NARGS_UNK then False
      else if isReq \<and> \<not> c_and (gex_flags entry) GEX_FLAG_AM_REQUEST then False
      else if \<not> isReq \<and> \<not> c_and (gex_flags entry) GEX_FLAG_AM_REPLY then False
      else if category = AM_Short \<and> \<not> c_and (gex_flags entry) GEX_FLAG_AM_SHORT then False
      else if category = AM_Medium \<and> \<not> c_and (gex_flags entry) GEX_FLAG_AM_MEDIUM then False
      else if category = AM_Long \<and> \<not> c_and (gex_flags entry) GEX_FLAG_AM_LONG then False
      else True)"

section \<open>The two passes\<close>

definition table_ok :: "gex_AM_Entry list \<Rightarrow> bool" where
  "table_ok tbl \<longleftrightarrow> length tbl = GASNETC_MAX_NUMHANDLERS \<and>
     (\<forall>j<length tbl. gex_index (tbl ! j) = 0 \<or> gex_index (tbl ! j) = j)"

text \<open>The free indices of a range, the highest first.\<close>

definition free_down :: "nat \<Rightarrow> nat \<Rightarrow> gex_AM_Entry list \<Rightarrow> nat list" where
  "free_down lo hi tbl = filter (\<lambda>j. gex_index (tbl ! j) = 0) (rev [lo..<hi])"

lemma free_index_hd: "free_index lo hi tbl = (case free_down lo hi tbl of [] \<Rightarrow> None | j # _ \<Rightarrow> Some j)"
  by (induction hi) (auto simp: free_down_def)

lemma free_down_mem: "j \<in> set (free_down lo hi tbl) \<longleftrightarrow> lo \<le> j \<and> j < hi \<and> gex_index (tbl ! j) = 0"
  by (auto simp: free_down_def)

lemma free_down_distinct: "distinct (free_down lo hi tbl)"
  by (simp add: free_down_def)

lemma free_down_put:
  assumes "gex_index e \<noteq> 0" and "gex_index e < length tbl"
  shows "free_down lo hi (am_put e tbl) = filter (\<lambda>j. j \<noteq> gex_index e) (free_down lo hi tbl)"
proof -
  have "gex_index ((tbl[gex_index e := e]) ! j) = 0 \<longleftrightarrow> gex_index (tbl ! j) = 0 \<and> j \<noteq> gex_index e" for j
    using assms by (cases "j = gex_index e") simp_all
  then show ?thesis unfolding free_down_def am_put_def filter_filter by (intro filter_cong) auto
qed

text \<open>Entries of a list put into a table one after the other, and free indices assigned in order.\<close>

definition am_put_all :: "gex_AM_Entry list \<Rightarrow> gex_AM_Entry list \<Rightarrow> gex_AM_Entry list" where
  "am_put_all es tbl = fold am_put es tbl"

fun assign :: "gex_AM_Entry list \<Rightarrow> nat list \<Rightarrow> gex_AM_Entry list" where
  "assign [] js = []"
| "assign (e # es) js = (if gex_index e \<noteq> 0 then e # assign es js
     else case js of [] \<Rightarrow> e # es | j # js' \<Rightarrow> e\<lparr>gex_index := j\<rparr> # assign es js')"

abbreviation fixed :: "gex_AM_Entry list \<Rightarrow> gex_AM_Entry list" where
  "fixed es \<equiv> filter (\<lambda>e. gex_index e \<noteq> 0) es"

abbreviation open_slots :: "gex_AM_Entry list \<Rightarrow> gex_AM_Entry list" where
  "open_slots es \<equiv> filter (\<lambda>e. gex_index e = 0) es"

definition fits :: "nat \<Rightarrow> nat \<Rightarrow> gex_AM_Entry list \<Rightarrow> gex_AM_Entry list \<Rightarrow> bool" where
  "fits lo hi es tbl \<longleftrightarrow> distinct (map gex_index (fixed es)) \<and> set (map gex_index (fixed es)) \<subseteq> set (free_down lo hi tbl)"

lemma fits_put:
  assumes "gex_index e \<noteq> 0" and "gex_index e < length tbl"
  shows "fits lo hi es (am_put e tbl) \<longleftrightarrow> fits lo hi es tbl \<and> gex_index e \<notin> set (map gex_index (fixed es))"
  unfolding fits_def free_down_put [OF assms] set_filter by blast

lemma fits_Cons:
  "fits lo hi (e # es) tbl \<longleftrightarrow> (if gex_index e = 0 then fits lo hi es tbl
     else gex_index e \<in> set (free_down lo hi tbl) \<and> gex_index e \<notin> set (map gex_index (fixed es)) \<and> fits lo hi es tbl)"
proof (cases "gex_index e = 0")
  case False
  then have "fixed (e # es) = e # fixed es" by simp
  then show ?thesis using False unfolding fits_def by (simp only: list.map distinct.simps list.set insert_subset if_False) blast
qed (simp add: fits_def)

lemma pass_fixed:
  "hi \<le> length tbl \<Longrightarrow> fits lo hi es tbl \<Longrightarrow>
   amregister_loop lo hi False es tbl n = (GASNET_OK, es, am_put_all (fixed es) tbl, n + length (fixed es))"
proof (induction es arbitrary: tbl n)
  case Nil
  then show ?case by (simp add: am_put_all_def)
next
  case (Cons e es)
  show ?case
  proof (cases "gex_index e = 0")
    case True
    then show ?thesis using Cons.IH [of tbl n] Cons.prems by (simp add: fits_Cons)
  next
    case False
    then have r: "lo \<le> gex_index e" "gex_index e < hi" "gex_index (tbl ! gex_index e) = 0"
      using Cons.prems(2) by (auto simp: fits_Cons free_down_mem)
    have "gex_index e < length tbl" using r Cons.prems(1) by simp
    then have "fits lo hi es (am_put e tbl)" using fits_put [OF False] Cons.prems(2) False by (simp add: fits_Cons)
    then have "amregister_loop lo hi False es (am_put e tbl) (n + 1) =
        (GASNET_OK, es, am_put_all (fixed es) (am_put e tbl), n + 1 + length (fixed es))"
      using Cons.IH [of "am_put e tbl" "n + 1"] Cons.prems(1) by (simp add: am_put_def)
    then show ?thesis using r False by (simp add: am_put_all_def)
  qed
qed

lemma pass_fixed_fails:
  "hi \<le> length tbl \<Longrightarrow> \<not> fits lo hi es tbl \<Longrightarrow> fst (amregister_loop lo hi False es tbl n) = GASNET_ERR_BAD_ARG"
proof (induction es arbitrary: tbl n)
  case Nil
  then show ?case by (simp add: fits_def)
next
  case (Cons e es)
  show ?case
  proof (cases "gex_index e = 0")
    case True
    then show ?thesis using Cons.IH [of tbl n] Cons.prems by (auto simp: fits_Cons split: prod.splits)
  next
    case False
    show ?thesis
    proof (cases "lo \<le> gex_index e \<and> gex_index e < hi \<and> gex_index (tbl ! gex_index e) = 0")
      case True
      then have len: "gex_index e < length tbl" using Cons.prems(1) by simp
      have m: "gex_index e \<in> set (free_down lo hi tbl)" using True by (simp add: free_down_mem)
      have "\<not> fits lo hi es (am_put e tbl)" using fits_put [OF False len, of lo hi es] Cons.prems(2) False fits_Cons [of lo hi e es tbl] m by metis
      then have "fst (amregister_loop lo hi False es (am_put e tbl) (n + 1)) = GASNET_ERR_BAD_ARG"
        using Cons.IH [of "am_put e tbl" "n + 1"] Cons.prems(1) by (simp add: am_put_def)
      then show ?thesis using True False by (auto simp: Let_def split: prod.splits)
    qed (use False in auto)
  qed
qed

text \<open>The pass over the entries without an index.\<close>

lemma pass_open:
  "hi \<le> length tbl \<Longrightarrow> 0 < lo \<Longrightarrow> length (open_slots es) \<le> length (free_down lo hi tbl) \<Longrightarrow>
   amregister_loop lo hi True es tbl n =
     (GASNET_OK, assign es (free_down lo hi tbl),
      am_put_all (assign (open_slots es) (free_down lo hi tbl)) tbl, n + length (open_slots es))"
proof (induction es arbitrary: tbl n)
  case Nil
  then show ?case by (simp add: am_put_all_def)
next
  case (Cons e es)
  show ?case
  proof (cases "gex_index e = 0")
    case False
    then show ?thesis using Cons.IH [of tbl n] Cons.prems by simp
  next
    case True
    then obtain j js where f: "free_down lo hi tbl = j # js" using Cons.prems(3) by (cases "free_down lo hi tbl") auto
    then have "j \<in> set (free_down lo hi tbl)" by simp
    then have j: "lo \<le> j" "j < hi" "gex_index (tbl ! j) = 0" by (simp_all add: free_down_mem)
    let ?e = "e\<lparr>gex_index := j\<rparr>"
    have "free_down lo hi (am_put ?e tbl) = filter (\<lambda>i. i \<noteq> j) (j # js)"
      using free_down_put [of ?e tbl lo hi] j Cons.prems(1,2) f by simp
    also have "\<dots> = js" using free_down_distinct [of lo hi tbl] f by (auto intro: filter_True)
    finally have f': "free_down lo hi (am_put ?e tbl) = js" .
    have "amregister_loop lo hi True es (am_put ?e tbl) (n + 1) =
       (GASNET_OK, assign es js, am_put_all (assign (open_slots es) js) (am_put ?e tbl), n + 1 + length (open_slots es))"
      using Cons.IH [of "am_put ?e tbl" "n + 1"] Cons.prems True f' f by (simp add: am_put_def)
    then show ?thesis using True j f by (simp add: free_index_hd am_put_all_def Let_def)
  qed
qed

lemma pass_open_fails:
  "hi \<le> length tbl \<Longrightarrow> 0 < lo \<Longrightarrow> length (free_down lo hi tbl) < length (open_slots es) \<Longrightarrow>
   fst (amregister_loop lo hi True es tbl n) = GASNET_ERR_BAD_ARG"
proof (induction es arbitrary: tbl n)
  case Nil
  then show ?case by simp
next
  case (Cons e es)
  show ?case
  proof (cases "gex_index e = 0")
    case False
    then show ?thesis using Cons.IH [of tbl n] Cons.prems by (auto split: prod.splits)
  next
    case True
    show ?thesis
    proof (cases "free_down lo hi tbl")
      case Nil
      then show ?thesis using True by (simp add: free_index_hd)
    next
      case f: (Cons j js)
      then have "j \<in> set (free_down lo hi tbl)" by simp
      then have j: "lo \<le> j" "j < hi" "gex_index (tbl ! j) = 0" by (simp_all add: free_down_mem)
      let ?e = "e\<lparr>gex_index := j\<rparr>"
      have "free_down lo hi (am_put ?e tbl) = filter (\<lambda>i. i \<noteq> j) (j # js)"
        using free_down_put [of ?e tbl lo hi] j Cons.prems(1,2) f by simp
      also have "\<dots> = js" using free_down_distinct [of lo hi tbl] f by (auto intro: filter_True)
      finally have "length (free_down lo hi (am_put ?e tbl)) < length (open_slots es)" using Cons.prems(3) True f by simp
      then have "fst (amregister_loop lo hi True es (am_put ?e tbl) (n + 1)) = GASNET_ERR_BAD_ARG"
        using Cons.IH [of "am_put ?e tbl" "n + 1"] Cons.prems by (simp add: am_put_def)
      then show ?thesis using True j f by (auto simp: free_index_hd Let_def split: prod.splits)
    qed
  qed
qed

section \<open>Tables after a registration\<close>

lemma am_put_all_length [simp]: "length (am_put_all es tbl) = length tbl"
  by (induction es arbitrary: tbl) (auto simp: am_put_all_def am_put_def)

lemma am_put_all_Cons: "am_put_all (e # es) tbl = am_put_all es (am_put e tbl)"
  by (simp add: am_put_all_def)

lemma am_put_all_other: "j \<notin> set (map gex_index es) \<Longrightarrow> am_put_all es tbl ! j = tbl ! j"
  by (induction es arbitrary: tbl) (simp_all add: am_put_all_def am_put_def)

lemma am_put_all_at:
  "e \<in> set es \<Longrightarrow> distinct (map gex_index es) \<Longrightarrow> gex_index e < length tbl \<Longrightarrow> am_put_all es tbl ! gex_index e = e"
proof (induction es arbitrary: tbl)
  case (Cons x xs)
  show ?case
  proof (cases "e = x")
    case True
    then have "gex_index e \<notin> set (map gex_index xs)" using Cons.prems(2) by simp
    from am_put_all_other [OF this, of "am_put x tbl"] show ?thesis using True Cons.prems(3) by (simp add: am_put_all_Cons am_put_def)
  next
    case False
    then show ?thesis using Cons.IH [of "am_put x tbl"] Cons.prems by (simp add: am_put_all_Cons am_put_def)
  qed
qed simp

lemma free_down_put_all:
  "(\<And>e. e \<in> set es \<Longrightarrow> gex_index e \<noteq> 0 \<and> gex_index e < length tbl) \<Longrightarrow>
   free_down lo hi (am_put_all es tbl) = filter (\<lambda>j. j \<notin> gex_index ` set es) (free_down lo hi tbl)"
proof (induction es arbitrary: tbl)
  case Nil
  then show ?case by (simp add: am_put_all_def)
next
  case (Cons e es)
  have "free_down lo hi (am_put_all es (am_put e tbl)) = filter (\<lambda>j. j \<notin> gex_index ` set es) (free_down lo hi (am_put e tbl))"
    by (rule Cons.IH) (use Cons.prems in \<open>auto simp: am_put_def\<close>)
  also have "\<dots> = filter (\<lambda>j. j \<notin> gex_index ` set (e # es)) (free_down lo hi tbl)"
    using free_down_put [of e tbl lo hi] Cons.prems [of e] by (auto simp: conj_commute intro!: filter_cong)
  finally show ?case by (simp add: am_put_all_Cons)
qed

lemma length_filter_out: "distinct xs \<Longrightarrow> A \<subseteq> set xs \<Longrightarrow> finite A \<Longrightarrow> length (filter (\<lambda>x. x \<notin> A) xs) + card A = length xs"
proof -
  assume a: "distinct xs" "A \<subseteq> set xs" "finite A"
  have "length (filter (\<lambda>x. x \<notin> A) xs) = card (set xs - A)"
    using distinct_card [of "filter (\<lambda>x. x \<notin> A) xs"] a(1) by (simp add: set_diff_eq)
  then show ?thesis using a card_mono [OF finite_set a(2)] by (simp add: card_Diff_subset distinct_card)
qed

text \<open>The free indices after the first pass, and the size they must have.\<close>

definition left_over :: "gex_AM_Entry list \<Rightarrow> gex_AM_Entry list \<Rightarrow> nat list" where
  "left_over es tbl = filter (\<lambda>j. j \<notin> gex_index ` set (fixed es)) (free_down 128 256 tbl)"

lemma left_over_length:
  assumes "fits 128 256 es tbl"
  shows "length (left_over es tbl) + length (fixed es) = length (free_down 128 256 tbl)"
proof -
  have d: "distinct (map gex_index (fixed es))" "gex_index ` set (fixed es) \<subseteq> set (free_down 128 256 tbl)" using assms by (auto simp: fits_def)
  have "card (gex_index ` set (fixed es)) = length (fixed es)" using distinct_card [OF d(1)] by simp
  then show ?thesis using length_filter_out [OF free_down_distinct d(2)] by (simp add: left_over_def)
qed

lemma client_result:
  assumes t: "table_ok tbl" and ne: "es \<noteq> []" and len: "length es \<le> 128" and v: "gasneti_am_validate max_args es"
  shows "fits 128 256 es tbl \<Longrightarrow> length es \<le> length (free_down 128 256 tbl) \<Longrightarrow>
      gasneti_amregister_client max_args es tbl = Some (GASNET_OK, assign es (left_over es tbl),
        am_put_all (assign (open_slots es) (left_over es tbl)) (am_put_all (fixed es) tbl))"
    and "\<not> (fits 128 256 es tbl \<and> length es \<le> length (free_down 128 256 tbl)) \<Longrightarrow>
      \<exists>es' tbl'. gasneti_amregister_client max_args es tbl = Some (GASNET_ERR_RESOURCE, es', tbl')"
proof -
  have lt: "256 \<le> length tbl" using t by (simp add: table_ok_def GASNETC_MAX_NUMHANDLERS_def)
  note C = gasneti_amregister_client_def gasneti_amregister_def GASNETC_MAX_NUMHANDLERS_def GASNETI_CLIENT_HANDLER_BASE_def
  have sum: "length (fixed es) + length (open_slots es) = length es"
    using sum_length_filter_compl [of "\<lambda>e. gex_index e \<noteq> 0" es] by simp
  have fr: "free_down 128 256 (am_put_all (fixed es) tbl) = left_over es tbl" if "fits 128 256 es tbl"
    unfolding left_over_def
  proof (rule free_down_put_all)
    fix e
    assume "e \<in> set (fixed es)"
    moreover from this have "gex_index e \<in> set (free_down 128 256 tbl)" using that by (auto simp: fits_def)
    ultimately show "gex_index e \<noteq> 0 \<and> gex_index e < length tbl" using lt by (simp add: free_down_mem)
  qed
  show "gasneti_amregister_client max_args es tbl = Some (GASNET_OK, assign es (left_over es tbl),
        am_put_all (assign (open_slots es) (left_over es tbl)) (am_put_all (fixed es) tbl))"
    if f: "fits 128 256 es tbl" "length es \<le> length (free_down 128 256 tbl)"
  proof -
    have "length (open_slots es) \<le> length (left_over es tbl)" using left_over_length [OF f(1)] sum f(2) by simp
    then show ?thesis
      using pass_fixed [OF lt f(1), of 0] pass_open [of 256 "am_put_all (fixed es) tbl" 128 es 0] fr [OF f(1)] lt ne len v sum
      by (simp add: C)
  qed
  show "\<exists>es' tbl'. gasneti_amregister_client max_args es tbl = Some (GASNET_ERR_RESOURCE, es', tbl')"
    if f: "\<not> (fits 128 256 es tbl \<and> length es \<le> length (free_down 128 256 tbl))"
  proof (cases "fits 128 256 es tbl")
    case False
    then show ?thesis using pass_fixed_fails [OF lt False, of 0] ne len v by (auto simp: C split: prod.splits)
  next
    case True
    have "length (left_over es tbl) < length (open_slots es)" using left_over_length [OF True] sum f True by simp
    then have "fst (amregister_loop 128 256 True es (am_put_all (fixed es) tbl) 0) = GASNET_ERR_BAD_ARG"
      using pass_open_fails [of 256 "am_put_all (fixed es) tbl" 128 es 0] fr [OF True] lt by simp
    then show ?thesis using pass_fixed [OF lt True, of 0] ne len v by (auto simp: C split: prod.splits)
  qed
qed

lemma assign_mem: "length (open_slots es) \<le> length js \<Longrightarrow> e \<in> set (assign es js) \<Longrightarrow> e \<in> set (fixed es) \<or> gex_index e \<in> set js"
  by (induction es js rule: assign.induct) (auto split: list.splits if_splits)

lemma assign_set: "length (open_slots es) \<le> length js \<Longrightarrow> set (assign es js) = set (fixed es) \<union> set (assign (open_slots es) js)"
  by (induction es arbitrary: js) (auto split: list.splits if_splits)

lemma assign_length: "length (assign es js) = length es"
  by (induction es js rule: assign.induct) (auto split: list.splits)

lemma assign_distinct:
  "length (open_slots es) \<le> length js \<Longrightarrow> distinct js \<Longrightarrow> distinct (map gex_index (fixed es)) \<Longrightarrow>
   (\<And>e. e \<in> set (fixed es) \<Longrightarrow> gex_index e \<notin> set js) \<Longrightarrow> distinct (map gex_index (assign es js))"
proof (induction es arbitrary: js)
  case (Cons e es)
  show ?case
  proof (cases "gex_index e = 0")
    case False
    have "distinct (map gex_index (assign es js))" by (rule Cons.IH) (use Cons.prems False in auto)
    moreover have "gex_index e \<noteq> gex_index x" if "x \<in> set (assign es js)" for x
      using assign_mem [of es js x] that Cons.prems False by fastforce
    ultimately show ?thesis using False by auto
  next
    case True
    then obtain j js' where js: "js = j # js'" using Cons.prems(1) by (cases js) auto
    have "distinct (map gex_index (assign es js'))" by (rule Cons.IH) (use Cons.prems True js in auto)
    moreover have "j \<noteq> gex_index x" if "x \<in> set (assign es js')" for x
      using assign_mem [of es js' x] that Cons.prems True js by fastforce
    ultimately show ?thesis using True js by auto
  qed
qed simp

lemma left_over_mem: "j \<in> set (left_over es tbl) \<Longrightarrow> 128 \<le> j \<and> j < 256 \<and> gex_index (tbl ! j) = 0 \<and> j \<notin> gex_index ` set (fixed es)"
  by (simp add: left_over_def free_down_mem)

lemma left_over_distinct: "distinct (left_over es tbl)"
  by (simp add: left_over_def free_down_distinct)

lemma free_down_card: "length (free_down lo hi tbl) = card {j. lo \<le> j \<and> j < hi \<and> gex_index (tbl ! j) = 0}"
proof -
  have "set (free_down lo hi tbl) = {j. lo \<le> j \<and> j < hi \<and> gex_index (tbl ! j) = 0}" by (auto simp: free_down_mem)
  then show ?thesis using distinct_card [OF free_down_distinct, of lo hi tbl] by simp
qed

lemma client_success:
  assumes t: "table_ok tbl" and ne: "es \<noteq> []" and ok: "gasneti_amregister_client max_args es tbl = Some (GASNET_OK, es', tbl')"
  shows "length es \<le> 128" and "gasneti_am_validate max_args es" and "fits 128 256 es tbl" and "length es \<le> length (free_down 128 256 tbl)"
    and "es' = assign es (left_over es tbl)"
    and "tbl' = am_put_all (assign (open_slots es) (left_over es tbl)) (am_put_all (fixed es) tbl)"
proof -
  show len: "length es \<le> 128" and v: "gasneti_am_validate max_args es"
    using ok ne by (auto simp: gasneti_amregister_client_def gasneti_amregister_def GASNETC_MAX_NUMHANDLERS_def GASNETI_CLIENT_HANDLER_BASE_def
      split: if_splits)
  have f: "fits 128 256 es tbl \<and> length es \<le> length (free_down 128 256 tbl)" using client_result(2) [OF t ne len v] ok by auto
  then show "fits 128 256 es tbl" "length es \<le> length (free_down 128 256 tbl)" by simp_all
  show "es' = assign es (left_over es tbl)" "tbl' = am_put_all (assign (open_slots es) (left_over es tbl)) (am_put_all (fixed es) tbl)"
    using client_result(1) [OF t ne len v] f ok by simp_all
qed

lemma client_facts:
  assumes t: "table_ok tbl" and ok: "gasneti_amregister_client max_args es tbl = Some (GASNET_OK, es', tbl')"
  shows "es' = assign es (filter (\<lambda>j. gex_index (tbl ! j) = 0 \<and> j \<notin> gex_index ` set (fixed es)) (rev [128..<256])) \<and>
    distinct (map gex_index es') \<and> table_ok tbl' \<and>
    (\<forall>e\<in>set es'. 128 \<le> gex_index e \<and> gex_index e < 256 \<and> gex_index (tbl ! gex_index e) = 0 \<and> tbl' ! gex_index e = e) \<and>
    (\<forall>j. j \<notin> gex_index ` set es' \<longrightarrow> tbl' ! j = tbl ! j)"
proof (cases "es = []")
  case True
  then show ?thesis using ok t by (simp add: gasneti_amregister_client_def)
next
  case False
  note S = client_success [OF t False ok]
  let ?F = "left_over es tbl"
  have F: "?F = filter (\<lambda>j. gex_index (tbl ! j) = 0 \<and> j \<notin> gex_index ` set (fixed es)) (rev [128..<256])"
    unfolding left_over_def free_down_def filter_filter by (rule refl)
  have "length (fixed es) + length (open_slots es) = length es" using sum_length_filter_compl [of "\<lambda>e. gex_index e \<noteq> 0" es] by simp
  then have enough: "length (open_slots es) \<le> length ?F" using left_over_length [OF S(3)] S(4) by simp
  have df: "distinct (map gex_index (fixed es))" "e \<in> set (fixed es) \<Longrightarrow> gex_index e \<in> set (free_down 128 256 tbl)" for e
    using S(3) unfolding fits_def by auto
  have d: "distinct (map gex_index es')"
    unfolding S(5) by (rule assign_distinct [OF enough left_over_distinct df(1)]) (use left_over_mem in blast)
  have rng: "128 \<le> gex_index e \<and> gex_index e < 256 \<and> gex_index (tbl ! gex_index e) = 0" if "e \<in> set es'" for e
    using assign_mem [OF enough that [unfolded S(5)]] df(2) [of e] left_over_mem [of "gex_index e" es tbl] free_down_mem [of "gex_index e"] by blast
  let ?A = "assign (open_slots es) ?F"
  have sets: "set es' = set (fixed es) \<union> set ?A" unfolding S(5) by (rule assign_set [OF enough])
  have open_fixed: "fixed (open_slots es) = []" "open_slots (open_slots es) = open_slots es" by (auto simp: filter_empty_conv)
  have da: "distinct (map gex_index ?A)" by (rule assign_distinct [OF _ left_over_distinct]) (use enough open_fixed in auto)
  have ia: "gex_index e \<in> set ?F" if "e \<in> set ?A" for e using assign_mem [of "open_slots es" ?F e] that enough open_fixed by auto
  have len: "length tbl = 256" using t by (simp add: table_ok_def GASNETC_MAX_NUMHANDLERS_def)
  have at: "tbl' ! gex_index e = e" if "e \<in> set es'" for e
  proof (cases "e \<in> set ?A")
    case True
    then show ?thesis using am_put_all_at [OF True da, of "am_put_all (fixed es) tbl"] rng [OF that] len by (simp add: S(6))
  next
    case False
    then have e: "e \<in> set (fixed es)" using that sets by blast
    have "gex_index e \<notin> set (map gex_index ?A)"
    proof
      assume "gex_index e \<in> set (map gex_index ?A)"
      then obtain x where "x \<in> set ?A" "gex_index x = gex_index e" by auto
      then have "gex_index e \<in> set ?F" using ia by metis
      then show False using left_over_mem [of "gex_index e" es tbl] imageI [OF e, of gex_index] by blast
    qed
    then show ?thesis using am_put_all_other am_put_all_at [OF e df(1)] rng [OF that] len by (simp add: S(6))
  qed
  have other: "tbl' ! j = tbl ! j" if "j \<notin> gex_index ` set es'" for j
  proof -
    have n: "j \<notin> set (map gex_index ?A)" "j \<notin> set (map gex_index (fixed es))" using that unfolding sets by auto
    show ?thesis unfolding S(6) am_put_all_other [OF n(1)] am_put_all_other [OF n(2)] by (rule refl)
  qed
  have "table_ok tbl'"
    unfolding table_ok_def
  proof (intro conjI allI impI)
    show "length tbl' = GASNETC_MAX_NUMHANDLERS" using t by (simp add: S(6) table_ok_def)
    fix j
    assume "j < length tbl'"
    then have "j < length tbl" by (simp add: S(6))
    then show "gex_index (tbl' ! j) = 0 \<or> gex_index (tbl' ! j) = j" using t at other unfolding table_ok_def by (metis imageE)
  qed
  then show ?thesis using S(5) F d rng at other by simp
qed

lemma assign_nth:
  "i < length es \<Longrightarrow> \<exists>j. assign es js ! i = (es ! i)\<lparr>gex_index := j\<rparr> \<and> (gex_index (es ! i) \<noteq> 0 \<longrightarrow> j = gex_index (es ! i))"
proof (induction es js arbitrary: i rule: assign.induct)
  case (2 e es js)
  have same: "\<exists>j. x = x\<lparr>gex_index := j\<rparr> \<and> (gex_index x \<noteq> 0 \<longrightarrow> j = gex_index x)" for x :: gex_AM_Entry
    by (rule exI [of _ "gex_index x"]) simp
  show ?case
  proof (cases "gex_index e = 0 \<and> js = []")
    case True
    then show ?thesis using same by simp
  next
    case False
    then show ?thesis using 2 same [of e] by (cases i) (auto split: list.splits)
  qed
qed simp

section \<open>Properties\<close>

text \<open>
  C33. Registration of client handlers succeeds exactly when it can: no index is asked for twice, every
  index asked for is free and in the client's range, and the table has room for all entries.
\<close>

theorem am_register_iff:
  assumes t: "table_ok tbl"
  shows "(\<exists>es' tbl'. gasneti_amregister_client max_args es tbl = Some (GASNET_OK, es', tbl')) \<longleftrightarrow>
      es = [] \<or> length es \<le> 128 \<and> gasneti_am_validate max_args es \<and> distinct (map gex_index (fixed es)) \<and>
        (\<forall>e\<in>set es. gex_index e \<noteq> 0 \<longrightarrow> 128 \<le> gex_index e \<and> gex_index e < 256 \<and> gex_index (tbl ! gex_index e) = 0) \<and>
        length es \<le> card {j. 128 \<le> j \<and> j < 256 \<and> gex_index (tbl ! j) = 0}"
proof (cases "es = []")
  case True
  then show ?thesis by (simp add: gasneti_amregister_client_def)
next
  case False
  have fits: "fits 128 256 es tbl \<longleftrightarrow> distinct (map gex_index (fixed es)) \<and>
    (\<forall>e\<in>set es. gex_index e \<noteq> 0 \<longrightarrow> 128 \<le> gex_index e \<and> gex_index e < 256 \<and> gex_index (tbl ! gex_index e) = 0)"
    by (auto simp: fits_def free_down_mem)
  show ?thesis
  proof
    assume "\<exists>es' tbl'. gasneti_amregister_client max_args es tbl = Some (GASNET_OK, es', tbl')"
    then obtain es' tbl' where ok: "gasneti_amregister_client max_args es tbl = Some (GASNET_OK, es', tbl')" by blast
    show "es = [] \<or> length es \<le> 128 \<and> gasneti_am_validate max_args es \<and> distinct (map gex_index (fixed es)) \<and>
        (\<forall>e\<in>set es. gex_index e \<noteq> 0 \<longrightarrow> 128 \<le> gex_index e \<and> gex_index e < 256 \<and> gex_index (tbl ! gex_index e) = 0) \<and>
        length es \<le> card {j. 128 \<le> j \<and> j < 256 \<and> gex_index (tbl ! j) = 0}"
      using client_success(1-4) [OF t False ok] fits free_down_card by metis
  next
    assume "es = [] \<or> length es \<le> 128 \<and> gasneti_am_validate max_args es \<and> distinct (map gex_index (fixed es)) \<and>
        (\<forall>e\<in>set es. gex_index e \<noteq> 0 \<longrightarrow> 128 \<le> gex_index e \<and> gex_index e < 256 \<and> gex_index (tbl ! gex_index e) = 0) \<and>
        length es \<le> card {j. 128 \<le> j \<and> j < 256 \<and> gex_index (tbl ! j) = 0}"
    then show "\<exists>es' tbl'. gasneti_amregister_client max_args es tbl = Some (GASNET_OK, es', tbl')"
      using client_result(1) [OF t False] fits free_down_card False by auto
  qed
qed

text \<open>
  C34. What a registration leaves. Entries that asked for an index keep it; the others get the highest
  indices that are left, in the order of the input, so that equal tables get equal indices on every
  process. Every entry lies in the table at its own index, no two at the same; nothing else changes,
  and no handler registered before is touched.
\<close>

theorem am_register_result:
  assumes t: "table_ok tbl" and ok: "gasneti_amregister_client max_args es tbl = Some (GASNET_OK, es', tbl')"
  shows "es' = assign es (filter (\<lambda>j. gex_index (tbl ! j) = 0 \<and> j \<notin> gex_index ` set (fixed es)) (rev [128..<256])) \<and>
    distinct (map gex_index es') \<and> table_ok tbl' \<and>
    (\<forall>e\<in>set es'. 128 \<le> gex_index e \<and> gex_index e < 256 \<and> gex_index (tbl ! gex_index e) = 0 \<and> tbl' ! gex_index e = e) \<and>
    (\<forall>j. j \<notin> gex_index ` set es' \<longrightarrow> tbl' ! j = tbl ! j)"
  by (rule client_facts [OF assms])

text \<open>
  A handler table given in the first version's form gets its indices back and nothing else: the
  functions stay, indices asked for stay, and a registered handler is found at its index and may be
  called with any number of arguments, as any kind of message.
\<close>

theorem am_legacy_result:
  assumes t: "table_ok tbl" and ok: "gasneti_amregister_legacy max_args hs tbl = Some (GASNET_OK, hs', tbl')"
  shows "map snd hs' = map snd hs \<and> distinct (map fst hs') \<and>
    (\<forall>i<length hs. fst (hs ! i) \<noteq> 0 \<longrightarrow> fst (hs' ! i) = fst (hs ! i)) \<and>
    (\<forall>h\<in>set hs'. gex_fnptr (tbl' ! fst h) = snd h \<and> (\<forall>nargs cat isReq. gasneti_amtbl_check (tbl' ! fst h) nargs cat isReq))"
proof (cases "hs = []")
  case True
  then show ?thesis using ok by (simp add: gasneti_amregister_legacy_def)
next
  case False
  then obtain es' where client: "gasneti_amregister_client max_args (map legacy_entry hs) tbl = Some (GASNET_OK, es', tbl')"
    and hs': "hs' = map2 (\<lambda>h x. (gex_index x, snd h)) hs es'"
    using ok by (auto simp: gasneti_amregister_legacy_def split: if_splits option.splits)
  obtain js where R: "es' = assign (map legacy_entry hs) js" "distinct (map gex_index es')" "\<forall>e\<in>set es'. tbl' ! gex_index e = e"
    using client_facts [OF t client] by blast+
  have len: "length es' = length hs" using R(1) by (simp add: assign_length)
  have at: "\<exists>j. es' ! i = (legacy_entry (hs ! i))\<lparr>gex_index := j\<rparr> \<and> (fst (hs ! i) \<noteq> 0 \<longrightarrow> j = fst (hs ! i))" if "i < length hs" for i
    using assign_nth [of i "map legacy_entry hs" js] that R(1) by (simp add: legacy_entry_def)
  have "map fst hs' = map gex_index es'" using len by (auto simp: hs' intro: nth_equalityI)
  moreover have "map snd hs' = map snd hs" using len by (auto simp: hs' intro: nth_equalityI)
  moreover have "fst (hs' ! i) = fst (hs ! i)" if "i < length hs" "fst (hs ! i) \<noteq> 0" for i
    using at [OF that(1)] that len by (auto simp: hs')
  moreover have "gex_fnptr (tbl' ! fst h) = snd h \<and> gasneti_amtbl_check (tbl' ! fst h) nargs cat isReq" if m: "h \<in> set hs'" for h nargs cat isReq
  proof -
    obtain i where i: "i < length hs" "h = (gex_index (es' ! i), snd (hs ! i))" using m len by (auto simp: hs' in_set_conv_nth)
    then obtain j where j: "es' ! i = (legacy_entry (hs ! i))\<lparr>gex_index := j\<rparr>" using at by blast
    have "tbl' ! fst h = es' ! i" using R(3) i len by (simp add: nth_mem)
    then show ?thesis using i(2) j
      by (simp add: gasneti_amtbl_check_def legacy_entry_def GASNETI_FLAG_AM_ANY_def)
        (simp add: c_and_def GEX_FLAG_AM_SHORT_def GEX_FLAG_AM_MEDIUM_def GEX_FLAG_AM_LONG_def GEX_FLAG_AM_REQUEST_def GEX_FLAG_AM_REPLY_def)
  qed
  ultimately show ?thesis using R(2) by simp
qed

text \<open>
  Whatever comes of a registration, also when it fails half way, no index that was taken before
  changes its handler.
\<close>

theorem am_register_keeps:
  assumes r: "gasneti_amregister_client max_args es tbl = Some (rc, es', tbl')" and j: "gex_index (tbl ! j) \<noteq> 0"
  shows "tbl' ! j = tbl ! j"
proof -
  have loop: "gex_index (x ! j) \<noteq> 0 \<Longrightarrow> amregister_loop lo hi d xs x n = (rc, xs', x', k) \<Longrightarrow> x' ! j = x ! j" for lo hi d xs x n rc xs' x' k
  proof (induction lo hi d xs x n arbitrary: xs' k rule: amregister_loop.induct)
    case (2 lo hi d e es x n)
    show ?case
    proof (cases "(gex_index e = 0) \<noteq> d")
      case True
      then show ?thesis using 2 by (auto split: prod.splits)
    next
      case False
      show ?thesis
      proof (cases "if gex_index e \<noteq> 0 then Some (gex_index e) else free_index lo hi x")
        case None
        then show ?thesis using 2 False by auto
      next
        case (Some i)
        show ?thesis
        proof (cases "i < lo \<or> hi \<le> i \<or> gex_index (x ! i) \<noteq> 0")
          case True
          then show ?thesis using 2(4) False Some by auto
        next
          case ok: False
          have "i \<noteq> j" using ok 2(3) by auto
          then have put: "am_put (e\<lparr>gex_index := i\<rparr>) x ! j = x ! j" by (simp add: am_put_def)
          obtain xs2 k2 where "amregister_loop lo hi d es (am_put (e\<lparr>gex_index := i\<rparr>) x) (n + 1) = (rc, xs2, x', k2)"
            using 2(4) False Some ok by (auto simp: Let_def split: prod.splits)
          then show ?thesis using 2(2) [OF _ Some ok refl] False put 2(3) by simp
        qed
      qed
    qed
  qed simp
  have pass: "gasneti_amregister max_args lo hi d xs x = Some (rc', xs', x', k) \<Longrightarrow> gex_index (x ! j) \<noteq> 0 \<Longrightarrow> x' ! j = x ! j"
    for lo hi d xs x rc' xs' x' k
    using loop by (auto simp: gasneti_amregister_def split: if_splits)
  show ?thesis
  proof (cases "es = [] \<or> GASNETC_MAX_NUMHANDLERS - GASNETI_CLIENT_HANDLER_BASE < length es")
    case True
    then show ?thesis using r by (auto simp: gasneti_amregister_client_def split: if_splits)
  next
    case False
    obtain rc1 es1 tbl1 n1 where p1: "gasneti_amregister max_args GASNETI_CLIENT_HANDLER_BASE GASNETC_MAX_NUMHANDLERS False es tbl = Some (rc1, es1, tbl1, n1)"
      using r False by (auto simp: gasneti_amregister_client_def split: if_splits option.splits prod.splits)
    note k1 = pass [OF p1 j]
    show ?thesis
    proof (cases "rc1 = GASNET_OK")
      case True
      then obtain rc2 es2 n2 where "gasneti_amregister max_args GASNETI_CLIENT_HANDLER_BASE GASNETC_MAX_NUMHANDLERS True es1 tbl1 = Some (rc2, es2, tbl', n2)"
        using r False p1 by (auto simp: gasneti_amregister_client_def split: if_splits option.splits prod.splits)
      from pass [OF this] show ?thesis using k1 j by simp
    next
      case False
      then show ?thesis using r \<open>\<not> (es = [] \<or> _)\<close> p1 k1 by (simp add: gasneti_amregister_client_def)
    qed
  qed
qed

section \<open>Witnesses\<close>

definition demo_entry :: "nat \<Rightarrow> nat \<Rightarrow> gex_AM_Entry" where
  "demo_entry i f = \<lparr>gex_index = i, gex_fnptr = f, gex_flags = 0x0A, gex_nargs = 2, gex_cdata = 0, gex_name = 0\<rparr>"

definition demo_table :: "gex_AM_Entry list" where
  "demo_table = gasneti_amtbl_init 7"

lemma demo_table_ok: "table_ok demo_table"
  by (simp add: table_ok_def demo_table_def gasneti_amtbl_init_def)

definition demo_input :: "gex_AM_Entry list" where
  "demo_input = [demo_entry 0 11, demo_entry 255 12, demo_entry 0 13, demo_entry 130 14]"

lemma demo_register: "case gasneti_amregister_client 16 demo_input demo_table of
   Some (rc, es', tbl') \<Rightarrow> rc = GASNET_OK \<and> map gex_index es' = [254, 255, 253, 130] | None \<Rightarrow> False"
  by code_simp

lemma demo_result: "\<exists>es' tbl'. gasneti_amregister_client 16 demo_input demo_table = Some (GASNET_OK, es', tbl')"
  using demo_register by (auto split: option.splits)

lemma am_register_iff_witness: "length demo_input \<le> card {j. 128 \<le> j \<and> j < 256 \<and> gex_index (demo_table ! j) = 0}"
proof -
  have "demo_input \<noteq> []" by (simp add: demo_input_def)
  then show ?thesis using am_register_iff [OF demo_table_ok, of 16 demo_input] demo_result by blast
qed

lemma am_register_result_witness:
  "\<exists>es' tbl'. gasneti_amregister_client 16 demo_input demo_table = Some (GASNET_OK, es', tbl') \<and> distinct (map gex_index es') \<and> table_ok tbl'"
  using demo_result am_register_result [OF demo_table_ok] by blast

lemma am_legacy_result_witness:
  "\<exists>hs' tbl'. gasneti_amregister_legacy 16 [(0, 11), (200, 12)] demo_table = Some (GASNET_OK, hs', tbl') \<and> map snd hs' = [11, 12]"
proof -
  have "case gasneti_amregister_legacy 16 [(0, 11), (200, 12)] demo_table of Some (rc, hs', tbl') \<Rightarrow> rc = GASNET_OK | None \<Rightarrow> False"
    by code_simp
  then obtain hs' tbl' where r: "gasneti_amregister_legacy 16 [(0, 11), (200, 12)] demo_table = Some (GASNET_OK, hs', tbl')"
    by (auto split: option.splits)
  then show ?thesis using am_legacy_result [OF demo_table_ok r] by simp
qed

lemma am_register_keeps_witness:
  "\<exists>es tbl1 es' tbl2. gasneti_amregister_client 16 demo_input demo_table = Some (GASNET_OK, es, tbl1) \<and>
    gasneti_amregister_client 16 demo_input tbl1 = Some (GASNET_ERR_RESOURCE, es', tbl2) \<and> tbl2 ! 130 = tbl1 ! 130"
proof -
  have "case gasneti_amregister_client 16 demo_input demo_table of Some (rc, es, tbl1) \<Rightarrow> rc = GASNET_OK \<and> gex_index (tbl1 ! 130) \<noteq> 0 \<and>
     (case gasneti_amregister_client 16 demo_input tbl1 of Some (rc2, es', tbl2) \<Rightarrow> rc2 = GASNET_ERR_RESOURCE | None \<Rightarrow> False) | None \<Rightarrow> False"
    by code_simp
  then obtain es tbl1 es' tbl2 where r: "gasneti_amregister_client 16 demo_input demo_table = Some (GASNET_OK, es, tbl1)"
    "gex_index (tbl1 ! 130) \<noteq> 0" "gasneti_amregister_client 16 demo_input tbl1 = Some (GASNET_ERR_RESOURCE, es', tbl2)"
    by (auto split: option.splits)
  then show ?thesis using am_register_keeps [OF r(3,2)] by blast
qed

end
