(* ===== verification/Byte_Words.thy ===== *)
theory Byte_Words
  imports Gasnet_Prelude "HOL-Library.Monad_Syntax"
begin

text \<open>
  Words of eight bytes in memory, the least significant byte first: conversion to and from lists of
  bytes, operations that act on each byte, and a memory in which only some addresses are mapped.
\<close>

section \<open>Words and bytes\<close>

primrec word_of_bytes :: "u8 list \<Rightarrow> u64" where
  "word_of_bytes [] = 0"
| "word_of_bytes (b # bs) = ucast b OR push_bit 8 (word_of_bytes bs)"

definition bytes_of_word :: "u64 \<Rightarrow> u8 list" where
  "bytes_of_word w = map (\<lambda>i. ucast (drop_bit (8 * i) w)) [0..<8]"

lemma length_bytes_of_word [simp]: "length (bytes_of_word w) = 8"
  by (simp add: bytes_of_word_def)

lemma bit_word_of_bytes:
  "length bs \<le> 8 \<Longrightarrow> bit (word_of_bytes bs) n \<longleftrightarrow> n div 8 < length bs \<and> bit (bs ! (n div 8)) (n mod 8)"
proof (induction bs arbitrary: n)
  case (Cons b bs)
  show ?case
  proof (cases "n < 8")
    case True
    then show ?thesis using Cons by (simp add: bit_simps)
  next
    case False
    then obtain k where k: "n = k + 8" by (metis add.commute le_Suc_ex not_less)
    have n: "\<not> bit b n" using False bit_imp_le_length [of b n] by auto
    have IH: "bit (word_of_bytes bs) k \<longleftrightarrow> k div 8 < length bs \<and> bit (bs ! (k div 8)) (k mod 8)"
      using Cons by simp
    have "n div 8 = Suc (k div 8)" "n mod 8 = k mod 8" using k by simp_all
    moreover have "n < 64" if "k div 8 < length bs"
      using that Cons.prems k by simp
    ultimately show ?thesis using n k by (simp add: bit_or_iff bit_ucast_iff bit_push_bit_iff IH) blast
  qed
qed simp

lemma bit_bytes_of_word: "i < 8 \<Longrightarrow> j < 8 \<Longrightarrow> bit (bytes_of_word w ! i) j \<longleftrightarrow> bit w (8 * i + j)"
  by (simp add: bytes_of_word_def bit_simps)

lemma word_of_bytes_of_word [simp]: "word_of_bytes (bytes_of_word w) = w"
proof (rule bit_word_eqI)
  fix n
  assume "n < LENGTH(64)"
  then have "n div 8 < 8" by simp
  then show "bit (word_of_bytes (bytes_of_word w)) n = bit w n"
    by (simp only: bit_word_of_bytes length_bytes_of_word order_refl bit_bytes_of_word mod_less_divisor zero_less_numeral
        mult_div_mod_eq simp_thms)
qed

lemma bytes_of_word_of_bytes: "length bs = 8 \<Longrightarrow> bytes_of_word (word_of_bytes bs) = bs"
proof (rule nth_equalityI)
  fix i
  assume l: "length bs = 8" and "i < length (bytes_of_word (word_of_bytes bs))"
  then have i: "i < 8" by simp
  show "bytes_of_word (word_of_bytes bs) ! i = bs ! i"
  proof (rule bit_word_eqI)
    fix n
    assume "n < LENGTH(8)"
    then have n: "n < 8" by simp
    then have "(8 * i + n) div 8 = i" "(8 * i + n) mod 8 = n" by simp_all
    then show "bit (bytes_of_word (word_of_bytes bs) ! i) n = bit (bs ! i) n"
      using i l by (simp only: bit_bytes_of_word [OF i n] bit_word_of_bytes order_refl simp_thms)
  qed
qed simp

lemma word_eq_bytes:
  assumes l: "length bs = 8" and b: "\<And>i j. i < 8 \<Longrightarrow> j < 8 \<Longrightarrow> bit w (8 * i + j) \<longleftrightarrow> bit (bs ! i) j"
  shows "w = word_of_bytes bs"
proof -
  have "bytes_of_word w = bs"
  proof (rule nth_equalityI)
    fix i
    assume "i < length (bytes_of_word w)"
    then have i: "i < 8" by simp
    show "bytes_of_word w ! i = bs ! i"
      by (rule bit_word_eqI) (use b [OF i] i in \<open>simp add: bit_bytes_of_word\<close>)
  qed (simp add: l)
  then show ?thesis by (metis word_of_bytes_of_word)
qed

text \<open>Operations on each byte.\<close>

lemma word_and_bytes:
  "length as = 8 \<Longrightarrow> length bs = 8 \<Longrightarrow> word_of_bytes as AND word_of_bytes bs = word_of_bytes (map2 (AND) as bs)"
  by (rule word_eq_bytes) (simp_all add: bit_simps bit_word_of_bytes)

lemma word_or_bytes:
  "length as = 8 \<Longrightarrow> length bs = 8 \<Longrightarrow> word_of_bytes as OR word_of_bytes bs = word_of_bytes (map2 (OR) as bs)"
  by (rule word_eq_bytes) (simp_all add: bit_simps bit_word_of_bytes)

lemma bytes_cases8:
  assumes "length bs = 8"
  obtains a b c d e f g h where "bs = [a, b, c, d, e, f, g, h]"
  using assms by (auto simp: numeral_eq_Suc length_Suc_conv)

text \<open>The value of a word, and addition without a carry between bytes.\<close>

primrec le_val :: "nat list \<Rightarrow> nat" where
  "le_val [] = 0"
| "le_val (x # xs) = x + 256 * le_val xs"

lemma unat_byte_shift:
  assumes "unat w * 256 < 2 ^ 64"
  shows "unat (ucast (b :: u8) OR push_bit 8 (w :: u64)) = unat b + 256 * unat w"
proof -
  have "ucast b AND push_bit 8 w = (0 :: u64)"
  proof (rule bit_word_eqI)
    fix n
    have "bit b n \<Longrightarrow> n < 8" using bit_imp_le_length [of b n] by simp
    then show "bit (ucast b AND push_bit 8 w :: u64) n = bit (0 :: u64) n" by (auto simp: bit_simps)
  qed
  then have "ucast b OR push_bit 8 w = ucast b + push_bit 8 w" by (simp add: disjunctive_add_eq_or)
  moreover have "unat (push_bit 8 w) = unat w * 256"
    using assms by (simp add: push_bit_eq_mult unat_word_ariths)
  moreover have "unat (ucast b :: u64) = unat b"
  proof -
    have "unat b < 2 ^ 64" by (rule less_le_trans [OF unsigned_less [of b]]) simp
    then show ?thesis by (simp add: unsigned_ucast_eq take_bit_nat_eq_self)
  qed
  moreover have "unat b + unat w * 256 < 2 ^ 64"
  proof -
    have "unat b < 256" using unsigned_less [of b] by simp
    moreover have "unat w < 2 ^ 56" using assms by simp
    ultimately show ?thesis by simp
  qed
  ultimately show ?thesis by (simp add: unat_word_ariths)
qed

lemma le_val_bound: "\<forall>x\<in>set xs. x < 256 \<Longrightarrow> le_val xs < 256 ^ length xs"
proof (induction xs)
  case (Cons x xs)
  then have "x < 256" "le_val xs < 256 ^ length xs" by simp_all
  then show ?case by simp
qed simp

lemma unat_word_of_bytes: "length bs \<le> 8 \<Longrightarrow> unat (word_of_bytes bs) = le_val (map unat bs)"
proof (induction bs)
  case (Cons b bs)
  have "le_val (map unat bs) < 256 ^ length (map unat bs)"
    by (rule le_val_bound) (auto intro: unsigned_less [where ?'b = 8, simplified])
  also have "\<dots> \<le> 256 ^ 7" using Cons.prems by (intro power_increasing) auto
  finally have "unat (word_of_bytes bs) * 256 < 2 ^ 64" using Cons by simp
  from unat_byte_shift [OF this, of b] show ?case using Cons by simp
qed simp

lemma unat_byte: "unat (b :: u8) < 256"
  using unsigned_less [of b] by simp

lemma le_val_add: "length xs = length ys \<Longrightarrow> le_val (map2 (+) xs ys) = le_val xs + le_val ys"
  by (induction xs ys rule: list_induct2) simp_all

lemma word_add_bytes:
  assumes l: "length as = 8" "length bs = 8" and c: "\<And>i. i < 8 \<Longrightarrow> unat (as ! i) + unat (bs ! i) < 256"
  shows "word_of_bytes as + word_of_bytes bs = word_of_bytes (map2 (+) as bs)"
proof -
  have sum: "map unat (map2 (+) as bs) = map2 (+) (map unat as) (map unat bs)"
    using l c by (auto intro!: nth_equalityI simp: unat_word_ariths)
  have v: "le_val (map unat as) + le_val (map unat bs) = unat (word_of_bytes (map2 (+) as bs))"
    using l by (simp only: unat_word_of_bytes length_map length_zip min.idem order_refl sum le_val_add)
  have "unat (word_of_bytes (map2 (+) as bs)) < 2 ^ 64" by (rule order_less_le_trans [OF unsigned_less]) simp
  then have "unat (word_of_bytes as + word_of_bytes bs) = unat (word_of_bytes (map2 (+) as bs))"
    using l v by (simp add: unat_word_of_bytes unat_word_ariths)
  then show ?thesis by (simp add: unsigned_word_eqI)
qed

section \<open>Memory\<close>

type_synonym mapped_memory = "u64 \<Rightarrow> u8 option"

definition read_bytes :: "mapped_memory \<Rightarrow> u64 \<Rightarrow> nat \<Rightarrow> u8 list option" where
  "read_bytes m a n = those (map (\<lambda>i. m (a + of_nat i)) [0..<n])"

definition write_bytes :: "mapped_memory \<Rightarrow> u64 \<Rightarrow> u8 list \<Rightarrow> mapped_memory" where
  "write_bytes m a bs = (\<lambda>x. if unat (x - a) < length bs then Some (bs ! unat (x - a)) else m x)"

definition store8 :: "mapped_memory \<Rightarrow> u64 \<Rightarrow> u8 \<Rightarrow> mapped_memory option" where
  "store8 m a b = (if m a = None then None else Some (write_bytes m a [b]))"

text \<open>Words are read and written at aligned addresses only.\<close>

definition load64 :: "mapped_memory \<Rightarrow> u64 \<Rightarrow> u64 option" where
  "load64 m a = (if a AND 7 = 0 then map_option word_of_bytes (read_bytes m a 8) else None)"

definition store64 :: "mapped_memory \<Rightarrow> u64 \<Rightarrow> u64 \<Rightarrow> mapped_memory option" where
  "store64 m a w = (if a AND 7 = 0 \<and> read_bytes m a 8 \<noteq> None then Some (write_bytes m a (bytes_of_word w)) else None)"

definition holds :: "mapped_memory \<Rightarrow> u64 \<Rightarrow> u8 list \<Rightarrow> bool" where
  "holds m a bs \<longleftrightarrow> (\<forall>i<length bs. m (a + of_nat i) = Some (bs ! i))"

definition mapped :: "mapped_memory \<Rightarrow> u64 \<Rightarrow> nat \<Rightarrow> bool" where
  "mapped m a n \<longleftrightarrow> (\<forall>i<n. m (a + of_nat i) \<noteq> None)"

definition apart :: "u64 \<Rightarrow> u64 \<Rightarrow> nat \<Rightarrow> bool" where
  "apart d s n \<longleftrightarrow> (\<forall>i<n. \<forall>j<n. d + of_nat i \<noteq> s + of_nat j)"

text \<open>Memory is mapped in whole aligned words (in truth, in pages).\<close>

definition whole_words :: "mapped_memory \<Rightarrow> bool" where
  "whole_words m \<longleftrightarrow> (\<forall>a b. m a \<noteq> None \<and> a AND NOT 7 = b AND NOT 7 \<longrightarrow> m b \<noteq> None)"

lemma those_map_Some: "those (map f xs) = Some ys \<longleftrightarrow> map f xs = map Some ys"
  by (induction xs arbitrary: ys) (auto split: option.splits simp: Cons_eq_map_conv)

lemma read_bytes_holds: "read_bytes m a (length bs) = Some bs \<longleftrightarrow> holds m a bs"
proof -
  have "map Some bs = map (\<lambda>i. Some (bs ! i)) [0..<length bs]" by (simp add: map_nth flip: map_map [unfolded o_def])
  then show ?thesis unfolding read_bytes_def those_map_Some holds_def by (simp only: map_eq_conv) auto
qed

lemma read_bytes_Some: "read_bytes m a n = Some bs \<longleftrightarrow> length bs = n \<and> holds m a bs"
proof -
  have "length bs = n" if "read_bytes m a n = Some bs"
    using that unfolding read_bytes_def those_map_Some by (auto dest: arg_cong [where f = length])
  then show ?thesis using read_bytes_holds by blast
qed

lemma mapped_holds: "mapped m a n \<longleftrightarrow> (\<exists>bs. length bs = n \<and> holds m a bs)"
proof
  assume "mapped m a n"
  then have "length (map (\<lambda>i. the (m (a + of_nat i))) [0..<n]) = n \<and> holds m a (map (\<lambda>i. the (m (a + of_nat i))) [0..<n])"
    by (auto simp: mapped_def holds_def)
  then show "\<exists>bs. length bs = n \<and> holds m a bs" by blast
qed (auto simp: mapped_def holds_def)

lemma read_bytes_mapped: "read_bytes m a n \<noteq> None \<longleftrightarrow> mapped m a n"
  unfolding mapped_holds not_None_eq read_bytes_Some ..

lemma holds_append: "holds m a (xs @ ys) \<longleftrightarrow> holds m a xs \<and> holds m (a + of_nat (length xs)) ys"
proof
  assume h: "holds m a (xs @ ys)"
  have "m (a + of_nat i) = Some (xs ! i)" if "i < length xs" for i
    using h that by (auto simp: holds_def nth_append dest: spec [of _ i])
  moreover have "m (a + of_nat (length xs) + of_nat i) = Some (ys ! i)" if "i < length ys" for i
    using h that by (auto simp: holds_def nth_append add.assoc dest: spec [of _ "length xs + i"])
  ultimately show "holds m a xs \<and> holds m (a + of_nat (length xs)) ys" by (simp add: holds_def)
next
  assume h: "holds m a xs \<and> holds m (a + of_nat (length xs)) ys"
  have "m (a + of_nat i) = Some ((xs @ ys) ! i)" if i: "i < length (xs @ ys)" for i
  proof (cases "i < length xs")
    case False
    then obtain k where k: "i = length xs + k" "k < length ys" using i by (metis add_less_cancel_left le_Suc_ex length_append not_less)
    then show ?thesis using h by (auto simp: holds_def nth_append add.assoc)
  qed (use h in \<open>simp add: holds_def nth_append\<close>)
  then show "holds m a (xs @ ys)" by (simp add: holds_def)
qed

lemma mapped_add: "mapped m a (n + k) \<longleftrightarrow> mapped m a n \<and> mapped m (a + of_nat n) k"
proof -
  have "(\<forall>i<n + k. P i) \<longleftrightarrow> (\<forall>i<n. P i) \<and> (\<forall>i<k. P (n + i))" for P :: "nat \<Rightarrow> bool"
    by (metis add_less_cancel_left le_Suc_ex not_less trans_less_add1)
  then show ?thesis by (simp add: mapped_def add.assoc)
qed

lemma apart_sub: "apart d s n \<Longrightarrow> i + k \<le> n \<Longrightarrow> apart (d + of_nat i) (s + of_nat i) k"
  unfolding apart_def
  by (metis (no_types, opaque_lifting) add.assoc add_less_cancel_left of_nat_add order_less_le_trans)

lemma write_bytes_other: "(\<And>i. i < length bs \<Longrightarrow> x \<noteq> a + of_nat i) \<Longrightarrow> write_bytes m a bs x = m x"
proof -
  assume h: "\<And>i. i < length bs \<Longrightarrow> x \<noteq> a + of_nat i"
  have "x = a + of_nat (unat (x - a))" by simp
  then show ?thesis using h [of "unat (x - a)"] by (auto simp: write_bytes_def)
qed

lemma write_bytes_mapped: "m x \<noteq> None \<Longrightarrow> write_bytes m a bs x \<noteq> None"
  by (simp add: write_bytes_def)

lemma write_bytes_append:
  assumes "length xs + length ys \<le> 2 ^ 64"
  shows "write_bytes (write_bytes m a xs) (a + of_nat (length xs)) ys = write_bytes m a (xs @ ys)"
proof (rule ext)
  fix x
  let ?k = "unat (x - a)" and ?L = "length xs"
  have k: "?k < 2 ^ 64" using unsigned_less [of "x - a"] by simp
  have "unat (x - (a + of_nat ?L)) = (if ?L \<le> ?k then ?k - ?L else ?k + 2 ^ 64 - ?L)" if "?L < 2 ^ 64"
  proof -
    have o: "unat (of_nat ?L :: u64) = ?L" using that by (simp add: unat_of_nat)
    have "unat (x - a - of_nat ?L) = (if unat (of_nat ?L :: u64) \<le> ?k then ?k - unat (of_nat ?L :: u64) else ?k + 2 ^ 64 - unat (of_nat ?L :: u64))"
      by (simp add: unat_sub_if')
    then show ?thesis unfolding o by (simp add: diff_diff_eq)
  qed
  then show "write_bytes (write_bytes m a xs) (a + of_nat ?L) ys x = write_bytes m a (xs @ ys) x"
    using k assms by (cases "?L < 2 ^ 64") (auto simp: write_bytes_def nth_append)
qed

lemma holds_write_apart:
  assumes "holds m s bs" and "\<And>i j. i < length ws \<Longrightarrow> j < length bs \<Longrightarrow> d + of_nat i \<noteq> s + of_nat j"
  shows "holds (write_bytes m d ws) s bs"
  using assms by (simp add: holds_def) (metis write_bytes_other)

lemma mapped_write: "mapped m a n \<Longrightarrow> mapped (write_bytes m d ws) a n"
  by (simp add: mapped_def write_bytes_mapped)

lemma whole_words_write: "whole_words m \<Longrightarrow> mapped m d (length ws) \<Longrightarrow> whole_words (write_bytes m d ws)"
proof -
  assume w: "whole_words m" and d: "mapped m d (length ws)"
  have "write_bytes m d ws x \<noteq> None \<longleftrightarrow> m x \<noteq> None" for x
  proof (cases "\<exists>i<length ws. x = d + of_nat i")
    case True
    then show ?thesis using d write_bytes_mapped by (auto simp: mapped_def)
  next
    case False
    then show ?thesis by (metis write_bytes_other)
  qed
  then show ?thesis using w by (simp add: whole_words_def)
qed

end
