(* ===== verification/Zero_Bits.thy ===== *)
theory Zero_Bits
  imports Byte_Words
begin

text \<open>
  The two transforms of the zero counter in \<^verbatim>\<open>gasnet_tools.c\<close>: one marks the bytes of
  a word that are not zero, the other adds up the bytes of a sum of such words.
\<close>

section \<open>Bit tricks\<close>

definition gasneti_count0s_xform_limit :: nat where "gasneti_count0s_xform_limit = 255"

definition gasneti_count0s_xform1 :: "u64 \<Rightarrow> u64" where
  "gasneti_count0s_xform1 x = (let mask = 0x7f7f7f7f7f7f7f7f; tmp = x AND mask; tmp = tmp + mask; tmp = tmp OR x;
     tmp = tmp AND NOT mask in drop_bit 7 tmp)"

definition gasneti_count0s_xform2 :: "u64 \<Rightarrow> u64" where
  "gasneti_count0s_xform2 x = (let mask = 0x00ff00ff00ff00ff; x = (x AND mask) + (drop_bit 8 x AND mask);
     x = x + drop_bit 16 x; x = x + drop_bit 32 x in x AND 0x7ff)"

lemma bit_7: "bit (x :: u8) 7 \<longleftrightarrow> 128 \<le> unat x"
proof -
  have "bit x 7 \<longleftrightarrow> bit (unat x) 7" by (simp add: bit_unsigned_iff)
  also have "\<dots> \<longleftrightarrow> odd (unat x div 128)" by (simp add: bit_iff_odd)
  also have "\<dots> \<longleftrightarrow> 128 \<le> unat x" proof (cases "128 \<le> unat x")
    case True
    then have "unat x div 128 = 1" using unat_byte [of x] by (intro div_nat_eqI) simp_all
    then show ?thesis using True by simp
  qed simp
  finally show ?thesis .
qed

lemma and_0x80: "(x :: u8) AND 0x80 = (if bit x 7 then 0x80 else 0)"
proof (rule bit_word_eqI)
  fix n
  assume "n < LENGTH(8)"
  then have "bit (0x80 :: u8) n \<longleftrightarrow> n = 7" by (simp add: numeral_eq_Suc less_Suc_eq) auto
  then show "bit (x AND 0x80) n = bit (if bit x 7 then 0x80 else 0 :: u8) n" by (auto simp: bit_and_iff)
qed

lemma byte_trick: "(((b AND 0x7f) + 0x7f) OR b) AND 0x80 = (if b = 0 then 0 else 0x80 :: u8)"
proof -
  have m: "(0x7f :: u8) = mask 7" by (simp add: mask_eq_exp_minus_1)
  have k: "unat (b AND 0x7f) = unat b mod 128"
    by (simp only: m take_bit_eq_mask [symmetric]) (subst unsigned_take_bit_eq, simp_all only: take_bit_eq_mod, simp)
  have "unat ((b AND 0x7f) + 0x7f) = unat b mod 128 + 127"
    by (simp add: unat_word_ariths k)
  then have "bit ((b AND 0x7f) + 0x7f) 7 \<longleftrightarrow> unat b mod 128 \<noteq> 0" unfolding bit_7 by linarith
  moreover have "unat b mod 128 \<noteq> 0 \<or> 128 \<le> unat b \<longleftrightarrow> unat b \<noteq> 0"
    by (cases "unat b < 128") simp_all
  ultimately have "bit (((b AND 0x7f) + 0x7f) OR b) 7 \<longleftrightarrow> unat b \<noteq> 0"
    unfolding bit_or_iff bit_7 [of b] by blast
  then show ?thesis unfolding and_0x80 by (simp add: unat_eq_0)
qed

lemma mask_bytes: "(0x7f7f7f7f7f7f7f7f :: u64) = word_of_bytes (replicate 8 0x7f)" "NOT (0x7f7f7f7f7f7f7f7f :: u64) = word_of_bytes (replicate 8 0x80)"
  by code_simp+

lemma mask2_bytes: "(0x00ff00ff00ff00ff :: u64) = word_of_bytes [0xff, 0, 0xff, 0, 0xff, 0, 0xff, 0]"
  by code_simp

definition flag :: "u8 \<Rightarrow> u8" where
  "flag b = (if b = 0 then 0 else 1)"

definition nonzeros :: "u8 list \<Rightarrow> nat" where
  "nonzeros bs = length (filter (\<lambda>b. b \<noteq> 0) bs)"

lemma nonzeros_simps [simp]: "nonzeros [] = 0" "nonzeros (b # bs) = (if b = 0 then 0 else 1) + nonzeros bs"
  "nonzeros (xs @ ys) = nonzeros xs + nonzeros ys"
  by (simp_all add: nonzeros_def)

lemma word_drop_flags:
  assumes l: "length bs = 8" and b: "set bs \<subseteq> {0, 0x80 :: u8}"
  shows "drop_bit 7 (word_of_bytes bs) = word_of_bytes (map flag bs)"
proof (rule word_eq_bytes)
  fix i j :: nat
  assume i: "i < 8" and j: "j < 8"
  have x: "bit x n \<longleftrightarrow> n = 7 \<and> x \<noteq> 0" if "x \<in> set bs" "n < 8" for x n
  proof -
    have "x = 0 \<or> x = 0x80" using that b by blast
    moreover have "bit (0x80 :: u8) n \<longleftrightarrow> n = 7" using that(2) by (simp add: numeral_eq_Suc less_Suc_eq) auto
    ultimately show ?thesis by auto
  qed
  have f: "bit (flag (bs ! i)) j \<longleftrightarrow> j = 0 \<and> bs ! i \<noteq> 0" by (simp add: flag_def bit_1_iff)
  have "bit (drop_bit 7 (word_of_bytes bs)) (8 * i + j) \<longleftrightarrow>
      (8 * i + j + 7) div 8 < 8 \<and> bit (bs ! ((8 * i + j + 7) div 8)) ((8 * i + j + 7) mod 8)"
    using l by (simp only: bit_drop_bit_eq o_apply bit_word_of_bytes order_refl add.commute [of 7])
  also have "\<dots> \<longleftrightarrow> j = 0 \<and> bs ! i \<noteq> 0"
  proof (cases "j = 0")
    case True
    then have "(8 * i + j + 7) div 8 = i" "(8 * i + j + 7) mod 8 = 7" by simp_all
    then show ?thesis using i l x [of "bs ! i" 7] True by simp
  next
    case False
    then obtain k where k: "j = Suc k" by (cases j) auto
    then have "(8 * i + j + 7) div 8 = Suc i" "(8 * i + j + 7) mod 8 = k" using j by simp_all
    then show ?thesis using l x [of "bs ! Suc i" k] k j by auto
  qed
  also have "\<dots> \<longleftrightarrow> bit (map flag bs ! i) j" using i l f by simp
  finally show "bit (drop_bit 7 (word_of_bytes bs)) (8 * i + j) = bit (map flag bs ! i) j" .
qed (simp add: l)

lemma xform1_bytes:
  assumes "length bs = 8"
  shows "gasneti_count0s_xform1 (word_of_bytes bs) = word_of_bytes (map flag bs)"
proof -
  let ?f = "\<lambda>b :: u8. (((b AND 0x7f) + 0x7f) OR b) AND 0x80"
  have 1: "word_of_bytes bs AND 0x7f7f7f7f7f7f7f7f = word_of_bytes (map (\<lambda>b. b AND 0x7f) bs)"
    using assms by (simp add: mask_bytes word_and_bytes) (auto intro!: arg_cong [where f = word_of_bytes] nth_equalityI)
  have le: "unat (b AND 0x7f :: u8) \<le> 127" for b
    using word_and_le1 [of b "0x7f"] by (simp add: word_le_nat_alt)
  have 2: "word_of_bytes (map (\<lambda>b. b AND 0x7f) bs) + 0x7f7f7f7f7f7f7f7f = word_of_bytes (map (\<lambda>b. (b AND 0x7f) + 0x7f) bs)"
  proof -
    have "unat (bs ! i AND 0x7f) + unat (0x7f :: u8) < 256" for i using le [of "bs ! i"] by simp
    then show ?thesis using assms
      by (simp add: mask_bytes word_add_bytes) (auto intro!: arg_cong [where f = word_of_bytes] nth_equalityI)
  qed
  have 3: "word_of_bytes (map (\<lambda>b. (b AND 0x7f) + 0x7f) bs) OR word_of_bytes bs = word_of_bytes (map (\<lambda>b. ((b AND 0x7f) + 0x7f) OR b) bs)"
    using assms by (simp add: word_or_bytes) (auto intro!: arg_cong [where f = word_of_bytes] nth_equalityI)
  have 4: "word_of_bytes (map (\<lambda>b. ((b AND 0x7f) + 0x7f) OR b) bs) AND NOT 0x7f7f7f7f7f7f7f7f = word_of_bytes (map ?f bs)"
    unfolding mask_bytes(2) using assms by (simp add: word_and_bytes) (auto intro!: arg_cong [where f = word_of_bytes] nth_equalityI)
  have "drop_bit 7 (word_of_bytes (map ?f bs)) = word_of_bytes (map flag (map ?f bs))"
    by (rule word_drop_flags) (auto simp: assms byte_trick)
  also have "map flag (map ?f bs) = map flag bs" by (simp add: byte_trick flag_def)
  finally show ?thesis unfolding gasneti_count0s_xform1_def Let_def 1 2 3 4 .
qed

text \<open>The second transform adds up the bytes of a word.\<close>

lemma unat_add_small: "unat x + unat y < 2 ^ 64 \<Longrightarrow> unat (x + y :: u64) = unat x + unat y"
  by (simp add: unat_word_ariths)

lemma unat_drop_bit: "unat (drop_bit n (x :: u64)) = unat x div 2 ^ n"
proof -
  have "unat x < 2 ^ 64" using unsigned_less [of x] by simp
  then have "unat (drop_bit n x) = drop_bit n (unat x)" by (simp add: unsigned_drop_bit_eq take_bit_nat_eq_self)
  then show ?thesis by (simp only: drop_bit_eq_div)
qed

lemma fields_sum:
  fixes f0 f1 f2 f3 :: nat
  assumes "f0 \<le> 510" "f1 \<le> 510" "f2 \<le> 510" "f3 \<le> 510"
    and y: "unat y = f0 + 65536 * (f1 + 65536 * (f2 + 65536 * f3))"
  shows "(let x = y + drop_bit 16 y; x = x + drop_bit 32 x in x AND 0x7ff) = (of_nat (f0 + f1 + f2 + f3) :: u64)"
proof -
  have d16: "unat y div 65536 = f1 + 65536 * (f2 + 65536 * f3)" using y assms by simp
  have x1: "unat (y + drop_bit 16 y) = (f0 + f1) + 65536 * ((f1 + f2) + 65536 * ((f2 + f3) + 65536 * f3))"
    using assms by (subst unat_add_small) (simp_all add: unat_drop_bit d16 y)
  have d32: "unat (y + drop_bit 16 y) div 4294967296 = (f2 + f3) + 65536 * f3"
  proof -
    have "unat (y + drop_bit 16 y) = ((f0 + f1) + 65536 * (f1 + f2)) + 4294967296 * ((f2 + f3) + 65536 * f3)"
      by (simp add: x1 algebra_simps)
    then show ?thesis using assms by simp
  qed
  let ?z = "y + drop_bit 16 y + drop_bit 32 (y + drop_bit 16 y)"
  have z: "unat ?z = (f0 + f1 + f2 + f3) + 2048 * (32 * ((f1 + f2 + f3) + 65536 * ((f2 + f3) + 65536 * f3)))"
    using assms by (subst unat_add_small) (simp_all add: unat_drop_bit d32 x1)
  have "(0x7ff :: u64) = mask 11" by (simp add: mask_eq_exp_minus_1)
  then have "unat (?z AND 0x7ff) = unat ?z mod 2048" by (simp only: take_bit_eq_mask [symmetric]) (subst unsigned_take_bit_eq, simp_all only: take_bit_eq_mod, simp)
  also have "\<dots> = f0 + f1 + f2 + f3" unfolding z by (subst mod_mult_self2, rule mod_less) (use assms in simp)
  finally have "unat (?z AND 0x7ff) = f0 + f1 + f2 + f3" .
  then have "?z AND 0x7ff = of_nat (f0 + f1 + f2 + f3)" by (metis of_nat_unat ucast_id)
  then show ?thesis by (simp add: Let_def)
qed

lemma xform2_bytes:
  assumes "length cs = 8"
  shows "gasneti_count0s_xform2 (word_of_bytes cs) = of_nat (sum_list (map unat cs))"
proof -
  obtain a b c d e f g h where cs: "cs = [a, b, c, d, e, f, g, h]" using bytes_cases8 [OF assms] .
  have m: "x AND 0xff = x" for x :: u8
  proof -
    have "(0xff :: u8) = mask 8" by (simp add: mask_eq_exp_minus_1)
    then show ?thesis by (simp only: take_bit_eq_mask [symmetric]) (simp add: take_bit_word_eq_self)
  qed
  have even: "word_of_bytes cs AND 0x00ff00ff00ff00ff = word_of_bytes [a, 0, c, 0, e, 0, g, 0]"
    by (simp only: mask2_bytes) (simp add: word_and_bytes cs m del: word_of_bytes.simps)
  have shift: "drop_bit 8 (word_of_bytes cs) = word_of_bytes [b, c, d, e, f, g, h, 0]"
  proof (rule word_eq_bytes)
    fix i j :: nat
    assume i: "i < 8" and j: "j < 8"
    then have "(8 * i + j + 8) div 8 = Suc i" "(8 * i + j + 8) mod 8 = j" by simp_all
    then have "bit (drop_bit 8 (word_of_bytes cs)) (8 * i + j) \<longleftrightarrow> Suc i < 8 \<and> bit (cs ! Suc i) j"
      using assms by (simp only: bit_drop_bit_eq o_apply bit_word_of_bytes order_refl add.commute [of 8])
    also have "\<dots> \<longleftrightarrow> bit ([b, c, d, e, f, g, h, 0] ! i) j"
      using i by (auto simp: cs nth_Cons' less_Suc_eq numeral_eq_Suc)
    finally show "bit (drop_bit 8 (word_of_bytes cs)) (8 * i + j) = bit ([b, c, d, e, f, g, h, 0] ! i) j" .
  qed simp
  have odd: "drop_bit 8 (word_of_bytes cs) AND 0x00ff00ff00ff00ff = word_of_bytes [b, 0, d, 0, f, 0, h, 0]"
    by (simp only: shift mask2_bytes) (simp add: word_and_bytes m del: word_of_bytes.simps)
  let ?y = "word_of_bytes [a, 0, c, 0, e, 0, g, 0] + word_of_bytes [b, 0, d, 0, f, 0, h, 0]"
  have u: "unat x \<le> 255" for x :: u8 using unat_byte [of x] by simp
  have y: "unat ?y = (unat a + unat b) + 65536 * ((unat c + unat d) + 65536 * ((unat e + unat f) + 65536 * (unat g + unat h)))"
    using u [of a] u [of b] u [of c] u [of d] u [of e] u [of f] u [of g] u [of h]
    by (subst unat_add_small) (simp_all add: unat_word_of_bytes del: word_of_bytes.simps)
  have "gasneti_count0s_xform2 (word_of_bytes cs) = (let x = ?y + drop_bit 16 ?y; x = x + drop_bit 32 x in x AND 0x7ff)"
    by (simp only: gasneti_count0s_xform2_def Let_def even odd)
  also have "\<dots> = of_nat ((unat a + unat b) + (unat c + unat d) + (unat e + unat f) + (unat g + unat h))"
    by (rule fields_sum [OF _ _ _ _ y]) (use u [of a] u [of b] u [of c] u [of d] u [of e] u [of f] u [of g] u [of h] in simp_all)
  also have "\<dots> = of_nat (sum_list (map unat cs))" by (simp add: cs)
  finally show ?thesis .
qed

text \<open>Up to 255 words may be added before the second transform.\<close>

lemma xform1_sum:
  assumes "length ws \<le> gasneti_count0s_xform_limit"
  shows "\<exists>cs. length cs = 8 \<and> sum_list (map gasneti_count0s_xform1 ws) = word_of_bytes cs \<and>
    (\<forall>c\<in>set cs. unat c \<le> length ws) \<and> sum_list (map unat cs) = nonzeros (concat (map bytes_of_word ws))"
  using assms
proof (induction ws)
  case Nil
  show ?case by (rule exI [of _ "replicate 8 0"]) (simp add: numeral_eq_Suc)
next
  case (Cons w ws)
  then obtain cs where cs: "length cs = 8" "sum_list (map gasneti_count0s_xform1 ws) = word_of_bytes cs"
    "\<forall>c\<in>set cs. unat c \<le> length ws" "sum_list (map unat cs) = nonzeros (concat (map bytes_of_word ws))" by auto
  let ?bs = "bytes_of_word w"
  have w: "gasneti_count0s_xform1 w = word_of_bytes (map flag ?bs)"
    using xform1_bytes [of ?bs] by simp
  have small: "unat (flag b) \<le> 1" for b by (simp add: flag_def)
  have ws: "length ws < 255" using Cons.prems by (simp add: gasneti_count0s_xform_limit_def)
  have c: "unat (map flag ?bs ! i) + unat (cs ! i) \<le> Suc (length ws)" if "i < 8" for i
  proof -
    have "unat (cs ! i) \<le> length ws" using cs(1,3) that by simp
    then show ?thesis using small [of "?bs ! i"] that by simp
  qed
  let ?ds = "map2 (+) (map flag ?bs) cs"
  have "sum_list (map gasneti_count0s_xform1 (w # ws)) = word_of_bytes ?ds"
  proof -
    have "unat (map flag ?bs ! i) + unat (cs ! i) < 256" if "i < 8" for i using c [OF that] ws by linarith
    then show ?thesis using cs(1,2) w by (simp add: word_add_bytes)
  qed
  moreover have d: "map unat ?ds = map2 (+) (map unat (map flag ?bs)) (map unat cs)"
  proof (rule nth_equalityI)
    fix i
    assume "i < length (map unat ?ds)"
    then have i: "i < 8" using cs(1) by simp
    have "unat (map flag ?bs ! i) + unat (cs ! i) < 256" using c [OF i] ws by linarith
    then show "map unat ?ds ! i = map2 (+) (map unat (map flag ?bs)) (map unat cs) ! i"
      using i cs(1) by (simp add: unat_word_ariths)
  qed (simp add: cs(1))
  moreover have "\<forall>c\<in>set ?ds. unat c \<le> length (w # ws)"
  proof -
    have "map unat ?ds ! i \<le> Suc (length ws)" if "i < 8" for i
      using c [OF that] that cs(1) by (simp only: d) simp
    then have "\<forall>x\<in>set (map unat ?ds). x \<le> Suc (length ws)" using cs(1) by (auto simp: in_set_conv_nth)
    then show ?thesis by simp
  qed
  moreover have "sum_list (map unat ?ds) = nonzeros (concat (map bytes_of_word (w # ws)))"
  proof -
    have "sum_list (map2 (+) xs ys) = sum_list xs + sum_list ys" if "length xs = length ys" for xs ys :: "nat list"
      using that by (induction xs ys rule: list_induct2) simp_all
    moreover have "sum_list (map unat (map flag xs)) = nonzeros xs" for xs
      by (induction xs) (simp_all add: flag_def)
    ultimately show ?thesis unfolding d using cs(1,4) by simp
  qed
  ultimately show ?case using cs(1) by (intro exI [of _ ?ds]) simp
qed

lemma xform_words:
  assumes "length ws \<le> gasneti_count0s_xform_limit"
  shows "gasneti_count0s_xform2 (sum_list (map gasneti_count0s_xform1 ws)) = of_nat (nonzeros (concat (map bytes_of_word ws)))"
  using xform1_sum [OF assms] xform2_bytes by metis

end
