(* ===== verification/Zero_Count.thy ===== *)
theory Zero_Count
  imports Zero_Bits
begin

text \<open>
  Counting the zero bytes of a region, with or without a copy (\<^verbatim>\<open>gasnet_tools.c\<close>): the
  loops over words for each alignment, and the proof that they count and copy bytes. An access to an
  address that is not mapped, an unaligned access to a word and a failed assertion are \<open>None\<close>.
\<close>

section \<open>Loops over words\<close>

text \<open>The body of a loop takes a state, moves its pointers on and gives the word to be counted.\<close>

fun xform_loop :: "('s \<Rightarrow> (u64 \<times> 's) option) \<Rightarrow> nat \<Rightarrow> u64 \<Rightarrow> 's \<Rightarrow> (u64 \<times> 's) option" where
  "xform_loop body 0 partial st = Some (partial, st)"
| "xform_loop body (Suc n) partial st = do { (w, st') \<leftarrow> body st; xform_loop body n (partial + gasneti_count0s_xform1 w) st' }"

function count0s_rounds :: "('s \<Rightarrow> (u64 \<times> 's) option) \<Rightarrow> nat \<Rightarrow> u64 \<Rightarrow> 's \<Rightarrow> (u64 \<times> 's) option" where
  "count0s_rounds body words non_zeros st =
     (if gasneti_count0s_xform_limit < words
      then do { (partial, st') \<leftarrow> xform_loop body gasneti_count0s_xform_limit 0 st;
                count0s_rounds body (words - gasneti_count0s_xform_limit) (non_zeros + gasneti_count0s_xform2 partial) st' }
      else do { (partial, st') \<leftarrow> xform_loop body words 0 st; Some (non_zeros + gasneti_count0s_xform2 partial, st') })"
  by pat_completeness auto
termination
  by (relation "measure (\<lambda>(body, words, nz, st). words)") (auto simp: gasneti_count0s_xform_limit_def)

declare count0s_rounds.simps [simp del]

section \<open>Counting\<close>

definition GASNETI_ALIGNDOWN :: "u64 \<Rightarrow> u64 \<Rightarrow> u64" where "GASNETI_ALIGNDOWN p P = p AND NOT (P - 1)"
definition GASNETI_ALIGNUP :: "u64 \<Rightarrow> u64 \<Rightarrow> u64" where "GASNETI_ALIGNUP p P = GASNETI_ALIGNDOWN (p + (P - 1)) P"

definition SIZEOF_VOID_P :: nat where "SIZEOF_VOID_P = 8"
definition gasneti_count0s_word_shift :: nat where "gasneti_count0s_word_shift = 3"

definition nzs_body :: "mapped_memory \<Rightarrow> u64 \<Rightarrow> (u64 \<times> u64) option" where
  "nzs_body m p = do { w \<leftarrow> load64 m p; Some (w, p + 8) }"

definition gasneti_count0s_nzs_aligned_region :: "mapped_memory \<Rightarrow> u64 \<Rightarrow> nat \<Rightarrow> u64 option" where
  "gasneti_count0s_nzs_aligned_region m p words = do { (non_zeros, p') \<leftarrow> count0s_rounds (nzs_body m) words 0 p; Some non_zeros }"

text \<open>The loops over the bytes before and after the words, and over a short region.\<close>

fun zeros_plus :: "mapped_memory \<Rightarrow> u64 \<Rightarrow> nat \<Rightarrow> u64 \<Rightarrow> u64 option" where
  "zeros_plus m s8 0 zeros = Some zeros"
| "zeros_plus m s8 (Suc n) zeros = do { b \<leftarrow> m s8; zeros_plus m (s8 + 1) n (zeros + (if b = 0 then 1 else 0)) }"

fun zeros_minus :: "mapped_memory \<Rightarrow> u64 \<Rightarrow> nat \<Rightarrow> u64 \<Rightarrow> u64 option" where
  "zeros_minus m s8 0 zeros = Some zeros"
| "zeros_minus m s8 (Suc n) zeros = do { b \<leftarrow> m s8; zeros_minus m (s8 + 1) n (zeros - (if b \<noteq> 0 then 1 else 0)) }"

definition gasneti_count0s :: "mapped_memory \<Rightarrow> u64 \<Rightarrow> nat \<Rightarrow> u64 option" where
  "gasneti_count0s m src bytes =
     (if bytes < SIZEOF_VOID_P then zeros_plus m src bytes 0
      else let s = GASNETI_ALIGNUP src (of_nat SIZEOF_VOID_P); lead = unat (s - src); bytes1 = bytes - lead in do {
        zeros1 \<leftarrow> zeros_minus m src lead (of_nat bytes);
        let words = drop_bit gasneti_count0s_word_shift bytes1;
        non_zeros \<leftarrow> gasneti_count0s_nzs_aligned_region m s words;
        zeros_minus m (s + of_nat (SIZEOF_VOID_P * words)) (bytes1 AND (SIZEOF_VOID_P - 1)) (zeros1 - non_zeros) })"

section \<open>Counting while copying\<close>

fun copy_bytes_loop :: "mapped_memory \<Rightarrow> u64 \<Rightarrow> u64 \<Rightarrow> nat \<Rightarrow> u64 \<Rightarrow> (u64 \<times> mapped_memory) option" where
  "copy_bytes_loop m d s 0 non_zeros = Some (non_zeros, m)"
| "copy_bytes_loop m d s (Suc n) non_zeros = do { b \<leftarrow> m s; m' \<leftarrow> store8 m d b;
     copy_bytes_loop m' (d + 1) (s + 1) n (non_zeros + (if b \<noteq> 0 then 1 else 0)) }"

definition gasneti_count0s_copy_bytes :: "mapped_memory \<Rightarrow> u64 \<Rightarrow> u64 \<Rightarrow> nat \<Rightarrow> (u64 \<times> mapped_memory) option" where
  "gasneti_count0s_copy_bytes m dst src bytes = (if bytes < SIZEOF_VOID_P then copy_bytes_loop m dst src bytes 0 else None)"

definition copy_body :: "mapped_memory \<times> u64 \<times> u64 \<Rightarrow> (u64 \<times> mapped_memory \<times> u64 \<times> u64) option" where
  "copy_body st = (case st of (m, d, s) \<Rightarrow> do { w \<leftarrow> load64 m s; m' \<leftarrow> store64 m d w; Some (w, m', d + 8, s + 8) })"

definition gasneti_count0s_copy_dstsrc_aligned :: "mapped_memory \<Rightarrow> u64 \<Rightarrow> u64 \<Rightarrow> nat \<Rightarrow> (u64 \<times> mapped_memory) option" where
  "gasneti_count0s_copy_dstsrc_aligned m dst src words =
     (if dst AND of_nat (SIZEOF_VOID_P - 1) \<noteq> 0 \<or> src AND of_nat (SIZEOF_VOID_P - 1) \<noteq> 0 then None
      else do { (non_zeros, m', d, s) \<leftarrow> count0s_rounds copy_body words 0 (m, dst, src); Some (non_zeros, m') })"

definition GASNETI_MEMCPY0_MERGE :: "u64 \<Rightarrow> nat \<Rightarrow> u64 \<Rightarrow> nat \<Rightarrow> u64" where
  "GASNETI_MEMCPY0_MERGE w0 s0 w1 s1 = drop_bit s0 w0 OR push_bit s1 w1"

definition merge_body :: "nat \<Rightarrow> nat \<Rightarrow> mapped_memory \<times> u64 \<times> u64 \<times> u64 \<Rightarrow> (u64 \<times> mapped_memory \<times> u64 \<times> u64 \<times> u64) option" where
  "merge_body s0 s1 st = (case st of (m, d, s, w0) \<Rightarrow> do {
     w1 \<leftarrow> load64 m s;
     let w = GASNETI_MEMCPY0_MERGE w0 s0 w1 s1;
     m' \<leftarrow> store64 m d w;
     Some (w, m', d + 8, s + 8, w1) })"

definition gasneti_count0s_copy_dst_aligned :: "mapped_memory \<Rightarrow> u64 \<Rightarrow> u64 \<Rightarrow> nat \<Rightarrow> (u64 \<times> mapped_memory) option" where
  "gasneti_count0s_copy_dst_aligned m dst src words =
     (let s = GASNETI_ALIGNDOWN src (of_nat SIZEOF_VOID_P); s0 = push_bit 3 (unat (src AND of_nat (SIZEOF_VOID_P - 1)));
          s1 = SIZEOF_VOID_P * 8 - s0 in
      if dst AND of_nat (SIZEOF_VOID_P - 1) \<noteq> 0 \<or> src AND of_nat (SIZEOF_VOID_P - 1) = 0 then None
      else do { w0 \<leftarrow> load64 m s;
                (non_zeros, m', st) \<leftarrow> count0s_rounds (merge_body s0 s1) words 0 (m, dst, s + 8, w0);
                Some (non_zeros, m') })"

definition gasneti_count0s_copy :: "mapped_memory \<Rightarrow> u64 \<Rightarrow> u64 \<Rightarrow> nat \<Rightarrow> (u64 \<times> mapped_memory) option" where
  "gasneti_count0s_copy m dst src bytes =
     (if bytes < SIZEOF_VOID_P then do { (nz, m') \<leftarrow> gasneti_count0s_copy_bytes m dst src bytes; Some (of_nat bytes - nz, m') }
      else let off = unat (dst AND of_nat (SIZEOF_VOID_P - 1)); lead = (if off \<noteq> 0 then SIZEOF_VOID_P - off else 0) in do {
        (zeros1, m1) \<leftarrow> (if off \<noteq> 0 then do { (nz, m1) \<leftarrow> gasneti_count0s_copy_bytes m dst src lead; Some (of_nat bytes - nz, m1) }
                        else Some (of_nat bytes, m));
        let d = dst + of_nat lead;
        let s = src + of_nat lead;
        let remain = bytes - lead;
        let words = drop_bit gasneti_count0s_word_shift remain;
        (nz, m2) \<leftarrow> (if s AND of_nat (SIZEOF_VOID_P - 1) \<noteq> 0 then gasneti_count0s_copy_dst_aligned m1 d s words
                     else gasneti_count0s_copy_dstsrc_aligned m1 d s words);
        let zeros2 = zeros1 - nz;
        let copied = push_bit gasneti_count0s_word_shift words;
        (nz', m3) \<leftarrow> gasneti_count0s_copy_bytes m2 (d + of_nat copied) (s + of_nat copied) (remain AND (SIZEOF_VOID_P - 1));
        Some (zeros2 - nz', m3) })"

section \<open>What the loops read\<close>

fun run :: "('s \<Rightarrow> (u64 \<times> 's) option) \<Rightarrow> nat \<Rightarrow> 's \<Rightarrow> (u64 list \<times> 's) option" where
  "run body 0 st = Some ([], st)"
| "run body (Suc n) st = do { (w, st') \<leftarrow> body st; (ws, st'') \<leftarrow> run body n st'; Some (w # ws, st'') }"

abbreviation bytes_of_words :: "u64 list \<Rightarrow> u8 list" where
  "bytes_of_words ws \<equiv> concat (map bytes_of_word ws)"

lemma xform_loop_run:
  "run body n st = Some (ws, st') \<Longrightarrow> xform_loop body n partial st = Some (partial + sum_list (map gasneti_count0s_xform1 ws), st')"
proof (induction n arbitrary: partial st ws)
  case (Suc n)
  obtain w st1 where b: "body st = Some (w, st1)" using Suc.prems by (cases "body st") auto
  obtain ws1 where r: "run body n st1 = Some (ws1, st')" "ws = w # ws1"
    using Suc.prems b by (cases "run body n st1") auto
  show ?case using Suc.IH [OF r(1)] b r(2) by (simp add: add.assoc)
qed simp

lemma run_length: "run body n st = Some (ws, st') \<Longrightarrow> length ws = n"
  by (induction n arbitrary: st ws) (auto split: option.splits bind_splits)

lemma run_add:
  "run body (a + b) st = Some (ws, st') \<Longrightarrow>
   \<exists>xs st1 ys. run body a st = Some (xs, st1) \<and> run body b st1 = Some (ys, st') \<and> ws = xs @ ys"
proof (induction a arbitrary: st ws)
  case (Suc a)
  obtain w st1 where b: "body st = Some (w, st1)" using Suc.prems by (cases "body st") auto
  obtain ws1 where r: "run body (a + b) st1 = Some (ws1, st')" "ws = w # ws1"
    using Suc.prems b by (cases "run body (a + b) st1") auto
  from Suc.IH [OF r(1)] show ?case using b r(2) by auto
qed simp

text \<open>All loops over words count right, whatever their body copies.\<close>

lemma rounds_run:
  "run body words st = Some (ws, st') \<Longrightarrow>
   count0s_rounds body words non_zeros st = Some (non_zeros + of_nat (nonzeros (bytes_of_words ws)), st')"
proof (induction body words non_zeros st arbitrary: ws rule: count0s_rounds.induct)
  case (1 body words non_zeros st)
  let ?L = "gasneti_count0s_xform_limit"
  show ?case
  proof (cases "?L < words")
    case True
    then have "run body (?L + (words - ?L)) st = Some (ws, st')" using "1.prems" by simp
    from run_add [OF this] obtain xs st1 ys where r: "run body ?L st = Some (xs, st1)"
      "run body (words - ?L) st1 = Some (ys, st')" "ws = xs @ ys" by blast
    have loop: "xform_loop body ?L 0 st = Some (sum_list (map gasneti_count0s_xform1 xs), st1)"
      using xform_loop_run [OF r(1), of 0] by simp
    have "gasneti_count0s_xform2 (sum_list (map gasneti_count0s_xform1 xs)) = of_nat (nonzeros (bytes_of_words xs))"
      by (rule xform_words) (simp add: run_length [OF r(1)])
    then show ?thesis using True loop "1.IH" [OF True loop refl r(2)] r(3)
      by (simp add: count0s_rounds.simps [of body words])
  next
    case False
    have "gasneti_count0s_xform2 (sum_list (map gasneti_count0s_xform1 ws)) = of_nat (nonzeros (bytes_of_words ws))"
      by (rule xform_words) (use run_length [OF "1.prems"] False in simp)
    then show ?thesis using False xform_loop_run [OF "1.prems", of 0] by (simp add: count0s_rounds.simps [of body words])
  qed
qed

section \<open>Alignment\<close>

lemma and_7: "(a :: u64) AND 7 = take_bit 3 a"
proof -
  have "(7 :: u64) = mask 3" by (simp add: mask_eq_exp_minus_1)
  then show ?thesis by (simp only: take_bit_eq_mask)
qed

lemma unat_and_7_mod: "unat ((a :: u64) AND 7) = unat a mod 8"
  by (simp only: and_7) (subst unsigned_take_bit_eq, simp only: take_bit_eq_mod, simp)

lemma aligned_iff: "(a :: u64) AND 7 = 0 \<longleftrightarrow> unat a mod 8 = 0"
  by (metis unat_and_7_mod unat_eq_0)

lemma aligned_add: "(a :: u64) AND 7 = 0 \<Longrightarrow> (a + of_nat (8 * n)) AND 7 = 0"
proof -
  assume "a AND 7 = 0"
  then have a: "unat a mod 8 = 0" by (simp only: aligned_iff)
  have "unat (of_nat (8 * n) :: u64) = (8 * n) mod 2 ^ 64" by (simp only: unat_of_nat) simp
  then have "unat (a + of_nat (8 * n)) = (unat a + (8 * n) mod 2 ^ 64) mod 2 ^ 64" by (simp only: unat_word_ariths len_num1 len_bit0 len_of_finite_1_def) simp
  moreover have "(8 :: nat) dvd 2 ^ 64" by simp
  ultimately have "unat (a + of_nat (8 * n)) mod 8 = (unat a + 8 * n) mod 8"
    by (simp only: mod_mod_cancel mod_add_right_eq)
  then show ?thesis using a by (simp add: aligned_iff)
qed

lemma aligned_8: "(a :: u64) AND 7 = 0 \<Longrightarrow> (a + 8) AND 7 = 0"
  using aligned_add [of a 1] by simp

lemma split_word:
  assumes "length bs = 8 * Suc n"
  obtains xs ys where "bs = xs @ ys" "length xs = 8" "length ys = 8 * n"
  using assms by (intro that [of "take 8 bs" "drop 8 bs"]) simp_all

section \<open>Counting\<close>

lemma run_nzs:
  "holds m p bs \<Longrightarrow> length bs = 8 * n \<Longrightarrow> p AND 7 = 0 \<Longrightarrow>
   \<exists>ws st. run (nzs_body m) n p = Some (ws, st) \<and> bytes_of_words ws = bs"
proof (induction n arbitrary: p bs)
  case (Suc n)
  obtain xs ys where b: "bs = xs @ ys" "length xs = 8" "length ys = 8 * n" using split_word [OF Suc.prems(2)] .
  have h: "holds m p xs" "holds m (p + 8) ys" using Suc.prems(1) b by (simp_all add: holds_append)
  have "nzs_body m p = Some (word_of_bytes xs, p + 8)"
    using h(1) b(2) Suc.prems(3) read_bytes_holds [of m p xs] by (simp add: nzs_body_def load64_def)
  moreover obtain ws st where "run (nzs_body m) n (p + 8) = Some (ws, st)" "bytes_of_words ws = ys"
    using Suc.IH [OF h(2) b(3) aligned_8] Suc.prems(3) by blast
  ultimately show ?case using b by (simp add: bytes_of_word_of_bytes)
qed simp

lemma zeros_plus_count: "holds m a bs \<Longrightarrow> zeros_plus m a (length bs) z = Some (z + of_nat (count_list bs 0))"
proof (induction bs arbitrary: a z)
  case (Cons b bs)
  then have "m a = Some b" "holds m (a + 1) bs" using holds_append [of m a "[b]" bs] by (auto simp: holds_def dest: spec [of _ 0])
  then show ?case using Cons.IH by (simp add: algebra_simps)
qed simp

lemma zeros_minus_count: "holds m a bs \<Longrightarrow> zeros_minus m a (length bs) z = Some (z - of_nat (nonzeros bs))"
proof (induction bs arbitrary: a z)
  case (Cons b bs)
  then have "m a = Some b" "holds m (a + 1) bs" using holds_append [of m a "[b]" bs] by (auto simp: holds_def dest: spec [of _ 0])
  then show ?case using Cons.IH by (simp add: algebra_simps)
qed simp

lemma zeros_nonzeros: "count_list bs 0 + nonzeros bs = length bs"
  by (induction bs) simp_all

lemma length_minus_nonzeros: "(of_nat (length bs) :: u64) - of_nat (nonzeros bs) = of_nat (count_list bs 0)"
  by (simp flip: zeros_nonzeros)

text \<open>The three parts of a region.\<close>

lemma nat_and_7: "(n :: nat) AND 7 = n mod 8"
proof -
  have "(7 :: nat) = mask 3" by (simp add: mask_eq_exp_minus_1)
  then have "n AND 7 = take_bit 3 n" by (simp only: take_bit_eq_mask)
  also have "\<dots> = n mod 2 ^ 3" by (rule take_bit_eq_mod)
  finally show ?thesis by simp
qed

lemma nat_and_7_less: "(n :: nat) AND 7 < 8"
  by (simp only: nat_and_7)

lemma three_parts:
  assumes "lead \<le> length bs"
  obtains xs ys zs where "bs = xs @ ys @ zs" "length xs = lead" "length ys = 8 * (drop_bit 3 (length bs - lead))"
    "length zs = (length bs - lead) AND 7"
proof -
  let ?r = "length bs - lead"
  have w: "drop_bit 3 ?r = ?r div 8" by (simp add: drop_bit_eq_div)
  have t: "?r AND 7 = ?r mod 8" by (rule nat_and_7)
  have l: "length (take (8 * (?r div 8)) (drop lead bs)) = 8 * drop_bit 3 ?r" by (simp add: w)
  have z: "length (drop (8 * (?r div 8)) (drop lead bs)) = ?r AND 7" by (simp only: t length_drop minus_mult_div_eq_mod)
  show thesis
    by (rule that [of "take lead bs", OF _ _ l z]) (use assms in \<open>simp_all only: append_take_drop_id length_take min.absorb2\<close>)
qed

lemma and_not_7: "(a :: u64) AND NOT 7 = a - (a AND 7)"
proof -
  have "(a AND NOT 7) AND (a AND 7) = 0" by (rule bit_word_eqI) (auto simp: bit_simps)
  then have "(a AND NOT 7) + (a AND 7) = (a AND NOT 7) OR (a AND 7)" by (rule disjunctive_add_eq_or)
  also have "\<dots> = a" by (rule bit_word_eqI) (auto simp: bit_simps)
  finally show ?thesis by (metis add_diff_cancel_right')
qed

lemma and_not_7_aligned: "((a :: u64) AND NOT 7) AND 7 = 0"
  by (rule bit_word_eqI) (auto simp: bit_simps)

lemma unat_and_7: "unat ((a :: u64) AND 7) < 8"
  by (simp add: unat_and_7_mod)

lemma align_up: "unat (GASNETI_ALIGNUP a 8 - a) < 8" "a + of_nat (unat (GASNETI_ALIGNUP a 8 - a)) = GASNETI_ALIGNUP a 8"
  "GASNETI_ALIGNUP a 8 AND 7 = 0"
proof -
  have u: "GASNETI_ALIGNUP a 8 = (a + 7) AND NOT 7" by (simp add: GASNETI_ALIGNUP_def GASNETI_ALIGNDOWN_def)
  have d: "GASNETI_ALIGNUP a 8 - a = 7 - ((a + 7) AND 7)" unfolding u and_not_7 by (simp only: diff_diff_eq2 add_diff_cancel_left' algebra_simps)
  have "unat (7 - ((a + 7) AND 7)) \<le> unat (7 :: u64)"
    using word_and_le1 [of "a + 7" 7] by (simp add: unat_sub word_le_nat_alt)
  then show "unat (GASNETI_ALIGNUP a 8 - a) < 8" unfolding d by simp
  show "a + of_nat (unat (GASNETI_ALIGNUP a 8 - a)) = GASNETI_ALIGNUP a 8" by simp
  show "GASNETI_ALIGNUP a 8 AND 7 = 0" unfolding u by (rule and_not_7_aligned)
qed

lemma word_size_facts: "(of_nat 8 :: u64) = 8" "(8 :: nat) - 1 = 7" "(of_nat 7 :: u64) = 7"
  by simp_all

text \<open>
  C35. The word-wise count of zero bytes is the count of bytes, for every address and every length:
  it reads only bytes of the region, words only at aligned addresses, and no field of its sums
  overflows.
\<close>

theorem count0s_exact:
  assumes "read_bytes m src bytes = Some bs"
  shows "gasneti_count0s m src bytes = Some (of_nat (count_list bs 0))"
proof -
  have l: "length bs = bytes" and h: "holds m src bs" using assms by (simp_all add: read_bytes_Some)
  show ?thesis
  proof (cases "bytes < 8")
    case True
    then show ?thesis using zeros_plus_count [OF h, of 0] l by (simp add: gasneti_count0s_def SIZEOF_VOID_P_def)
  next
    case False
    let ?s = "GASNETI_ALIGNUP src 8" and ?lead = "unat (GASNETI_ALIGNUP src 8 - src)"
    let ?words = "drop_bit 3 (bytes - ?lead)"
    have lb: "?lead \<le> length bs" using align_up(1) [of src] False l by linarith
    obtain xs ys zs where b: "bs = xs @ ys @ zs" "length xs = ?lead" "length ys = 8 * ?words" "length zs = (bytes - ?lead) AND 7"
      using three_parts [OF lb, unfolded l] .
    have hs: "holds m src xs" "holds m ?s ys" "holds m (?s + of_nat (8 * ?words)) zs"
      using h b align_up(2) [of src] by (simp_all add: holds_append)
    obtain ws st where r: "run (nzs_body m) ?words ?s = Some (ws, st)" "bytes_of_words ws = ys"
      using run_nzs [OF hs(2) b(3) align_up(3)] by blast
    have region: "gasneti_count0s_nzs_aligned_region m ?s ?words = Some (of_nat (nonzeros ys))"
      using rounds_run [OF r(1), of 0] r(2) by (simp add: gasneti_count0s_nzs_aligned_region_def)
    have lead: "zeros_minus m src ?lead (of_nat bytes) = Some (of_nat bytes - of_nat (nonzeros xs))"
      using zeros_minus_count [OF hs(1)] b(2) by simp
    have tail: "zeros_minus m (?s + of_nat (8 * ?words)) ((bytes - ?lead) AND 7) z = Some (z - of_nat (nonzeros zs))" for z
      using zeros_minus_count [OF hs(3)] b(4) by simp
    have "of_nat bytes - of_nat (nonzeros xs) - of_nat (nonzeros ys) - of_nat (nonzeros zs) = (of_nat (count_list bs 0) :: u64)"
      unfolding length_minus_nonzeros [symmetric] l by (simp add: b(1))
    then show ?thesis using False
      by (simp only: gasneti_count0s_def SIZEOF_VOID_P_def gasneti_count0s_word_shift_def Let_def if_False lead region tail
          Option.bind.bind_lunit word_size_facts)
  qed
qed

section \<open>Copying\<close>

lemma write_bytes_Nil [simp]: "write_bytes m d [] = m"
  by (simp add: write_bytes_def fun_eq_iff)

text \<open>Writing the first part of the destination leaves the task for the rest.\<close>

lemma write_front:
  assumes h: "holds m s (xs @ ys)" and mp: "mapped m d (length xs + length ys)" and ap: "apart d s (length xs + length ys)"
  shows "holds (write_bytes m d xs) (s + of_nat (length xs)) ys"
    and "mapped (write_bytes m d xs) (d + of_nat (length xs)) (length ys)"
    and "apart (d + of_nat (length xs)) (s + of_nat (length xs)) (length ys)"
proof -
  have "d + of_nat i \<noteq> s + of_nat (length xs) + of_nat j" if "i < length xs" "j < length ys" for i j
  proof -
    have "d + of_nat i \<noteq> s + of_nat (length xs + j)" using ap that by (simp only: apart_def) auto
    then show ?thesis by (simp add: add.assoc)
  qed
  then show "holds (write_bytes m d xs) (s + of_nat (length xs)) ys"
    using h by (intro holds_write_apart) (simp_all add: holds_append)
  show "mapped (write_bytes m d xs) (d + of_nat (length xs)) (length ys)"
    using mp by (simp add: mapped_add mapped_write)
  show "apart (d + of_nat (length xs)) (s + of_nat (length xs)) (length ys)"
    using apart_sub [OF ap] by simp
qed

lemma store64_bytes: "mapped m d 8 \<Longrightarrow> d AND 7 = 0 \<Longrightarrow> length xs = 8 \<Longrightarrow> store64 m d (word_of_bytes xs) = Some (write_bytes m d xs)"
  using read_bytes_mapped [of m d 8] by (simp add: store64_def bytes_of_word_of_bytes)

lemma run_copy:
  "holds m s bs \<Longrightarrow> length bs = 8 * n \<Longrightarrow> mapped m d (length bs) \<Longrightarrow> apart d s (length bs) \<Longrightarrow> length bs \<le> 2 ^ 64 \<Longrightarrow>
   d AND 7 = 0 \<Longrightarrow> s AND 7 = 0 \<Longrightarrow>
   \<exists>ws st. run copy_body n (m, d, s) = Some (ws, write_bytes m d bs, st) \<and> bytes_of_words ws = bs"
proof (induction n arbitrary: m d s bs)
  case (Suc n)
  obtain xs ys where b: "bs = xs @ ys" "length xs = 8" "length ys = 8 * n" using split_word [OF Suc.prems(2)] .
  have len: "length bs = length xs + length ys" using b(1) by simp
  let ?m = "write_bytes m d xs"
  note f = write_front [OF Suc.prems(1) [unfolded b(1)] Suc.prems(3) [unfolded len] Suc.prems(4) [unfolded len], unfolded b(2) word_size_facts]
  have "mapped m d 8" using Suc.prems(3) len b(2) mapped_add [of m d 8] by simp
  then have st: "store64 m d (word_of_bytes xs) = Some ?m" using store64_bytes Suc.prems(6) b(2) by blast
  have "holds m s xs" using Suc.prems(1) b(1) by (simp add: holds_append)
  then have "load64 m s = Some (word_of_bytes xs)"
    using b(2) Suc.prems(7) read_bytes_holds [of m s xs] by (simp add: load64_def)
  then have body: "copy_body (m, d, s) = Some (word_of_bytes xs, ?m, d + 8, s + 8)" using st by (simp add: copy_body_def)
  have "length ys \<le> 2 ^ 64" using Suc.prems(5) len by simp
  from Suc.IH [OF f(1) b(3) f(2) f(3) this aligned_8 [OF Suc.prems(6)] aligned_8 [OF Suc.prems(7)]]
  obtain ws st where "run copy_body n (?m, d + 8, s + 8) = Some (ws, write_bytes ?m (d + 8) ys, st)" "bytes_of_words ws = ys" by blast
  moreover have "write_bytes ?m (d + 8) ys = write_bytes m d bs"
    using write_bytes_append [of xs ys m d] Suc.prems(5) b len by simp
  ultimately show ?case using body b by (simp add: bytes_of_word_of_bytes)
qed simp

lemma copy_bytes_correct:
  "holds m s bs \<Longrightarrow> mapped m d (length bs) \<Longrightarrow> apart d s (length bs) \<Longrightarrow> length bs \<le> 2 ^ 64 \<Longrightarrow>
   copy_bytes_loop m d s (length bs) nz = Some (nz + of_nat (nonzeros bs), write_bytes m d bs)"
proof (induction bs arbitrary: m d s nz)
  case (Cons b bs)
  have "store8 m d b = Some (write_bytes m d [b])" "m s = Some b"
    using Cons.prems(1,2) by (auto simp: store8_def mapped_def holds_def dest: spec [of _ 0])
  moreover have "copy_bytes_loop (write_bytes m d [b]) (d + 1) (s + 1) (length bs) nz' =
      Some (nz' + of_nat (nonzeros bs), write_bytes (write_bytes m d [b]) (d + 1) bs)" for nz'
    using Cons.IH write_front [of m s "[b]" bs d] Cons.prems by simp
  moreover have "write_bytes (write_bytes m d [b]) (d + 1) bs = write_bytes m d (b # bs)"
    using write_bytes_append [of "[b]" bs m d] Cons.prems(4) by simp
  ultimately show ?case by (simp add: algebra_simps)
qed simp

text \<open>Merging two neighbouring words gives the word between them.\<close>

lemma merge_bytes:
  assumes k: "0 < k" "k < 8"
  shows "GASNETI_MEMCPY0_MERGE w0 (8 * k) w1 (64 - 8 * k) = word_of_bytes (drop k (bytes_of_word w0) @ take k (bytes_of_word w1))"
proof (rule word_eq_bytes)
  fix i j :: nat
  assume i: "i < 8" and j: "j < 8"
  let ?bs = "drop k (bytes_of_word w0) @ take k (bytes_of_word w1)"
  have bit: "bit (GASNETI_MEMCPY0_MERGE w0 (8 * k) w1 (64 - 8 * k)) (8 * i + j) \<longleftrightarrow>
      bit w0 (8 * k + (8 * i + j)) \<or> 64 - 8 * k \<le> 8 * i + j \<and> bit w1 (8 * i + j - (64 - 8 * k))"
    using i j by (simp add: GASNETI_MEMCPY0_MERGE_def bit_or_iff bit_drop_bit_eq bit_push_bit_iff)
  show "bit (GASNETI_MEMCPY0_MERGE w0 (8 * k) w1 (64 - 8 * k)) (8 * i + j) = bit (?bs ! i) j"
  proof (cases "i < 8 - k")
    case True
    then have "?bs ! i = bytes_of_word w0 ! (k + i)" "k + i < 8" by (simp_all add: nth_append)
    moreover have "\<not> 64 - 8 * k \<le> 8 * i + j" using True j by linarith
    moreover have "8 * k + (8 * i + j) = 8 * (k + i) + j" by simp
    ultimately show ?thesis unfolding bit using j by (simp add: bit_bytes_of_word add.assoc)
  next
    case False
    then have b: "?bs ! i = bytes_of_word w1 ! (i - (8 - k))" "i - (8 - k) < 8" using i k by (simp_all add: nth_append)
    have "\<not> bit w0 (8 * k + (8 * i + j))" using False bit_imp_le_length [of w0 "8 * k + (8 * i + j)"] by auto
    moreover have "64 - 8 * k \<le> 8 * i + j" "8 * i + j - (64 - 8 * k) = 8 * (i - (8 - k)) + j" using False k by linarith+
    ultimately show ?thesis unfolding bit b(1) using bit_bytes_of_word [OF b(2) j, of w1] by simp
  qed
qed (use k in simp)

text \<open>A word is readable as soon as one of its bytes is mapped.\<close>

lemma word_of_mapped:
  assumes w: "whole_words m" and a: "a AND 7 = 0" and i: "i < 8" and m: "m (a + of_nat i) \<noteq> None"
  obtains v where "length v = 8" "holds m a v" "load64 m a = Some (word_of_bytes v)"
proof -
  have same: "(a + of_nat j) AND NOT 7 = a" if "j < 8" for j
  proof -
    have "unat (a + of_nat j) = unat a + j"
    proof -
      have "unat a mod 8 = 0" using a by (simp only: aligned_iff)
      moreover have "unat a < 2 ^ 64" using unsigned_less [of a] by simp
      ultimately have "unat a + j < 2 ^ 64" using that by (simp add: mod_eq_0_iff_dvd) presburger
      then show ?thesis using that by (subst unat_add_small) (simp_all add: unat_of_nat)
    qed
    then have "unat ((a + of_nat j) AND 7) = j"
      using that a by (simp only: unat_and_7_mod aligned_iff) presburger
    then have "(a + of_nat j) AND 7 = of_nat j" by (metis of_nat_unat ucast_id)
    then show ?thesis unfolding and_not_7 by simp
  qed
  have "mapped m a 8" unfolding mapped_def
  proof (intro allI impI)
    fix j :: nat
    assume "j < 8"
    then have "(a + of_nat i) AND NOT 7 = (a + of_nat j) AND NOT 7" using same i by simp
    then show "m (a + of_nat j) \<noteq> None" using w m unfolding whole_words_def by blast
  qed
  then obtain v where v: "length v = 8" "holds m a v" unfolding mapped_holds by blast
  then have "load64 m a = Some (word_of_bytes v)" using a read_bytes_holds [of m a v] by (simp add: load64_def)
  with v show thesis by (rule that)
qed

lemma holds_prefix: "holds m a v \<Longrightarrow> holds m a u \<Longrightarrow> length u \<le> length v \<Longrightarrow> take (length u) v = u"
  by (rule nth_equalityI) (auto simp: holds_def)

text \<open>The loop for a source that is not aligned: \<open>k\<close> bytes of the next word end the word being built.\<close>

lemma run_merge:
  assumes k: "0 < k" "k < 8"
  shows "whole_words m \<Longrightarrow> holds m src bs \<Longrightarrow> length bs = 8 * n \<Longrightarrow> mapped m d (length bs) \<Longrightarrow> apart d src (length bs) \<Longrightarrow>
    length bs \<le> 2 ^ 64 \<Longrightarrow> d AND 7 = 0 \<Longrightarrow> (src + of_nat (8 - k)) AND 7 = 0 \<Longrightarrow>
    (0 < n \<longrightarrow> drop k (bytes_of_word w0) = take (8 - k) bs) \<Longrightarrow>
    \<exists>ws st. run (merge_body (8 * k) (64 - 8 * k)) n (m, d, src + of_nat (8 - k), w0) = Some (ws, write_bytes m d bs, st) \<and>
      bytes_of_words ws = bs"
proof (induction n arbitrary: m d src bs w0)
  case (Suc n)
  obtain xs ys where b: "bs = xs @ ys" "length xs = 8" "length ys = 8 * n" using split_word [OF Suc.prems(3)] .
  have len: "length bs = length xs + length ys" using b(1) by simp
  let ?m = "write_bytes m d xs" and ?s = "src + of_nat (8 - k)"
  note f = write_front [OF Suc.prems(2) [unfolded b(1)] Suc.prems(4) [unfolded len] Suc.prems(5) [unfolded len], unfolded b(2) word_size_facts]
  have "mapped m d 8" using Suc.prems(4) len b(2) mapped_add [of m d 8] by simp
  then have store: "store64 m d (word_of_bytes xs) = Some ?m" using store64_bytes Suc.prems(7) b(2) by blast
  let ?x1 = "take (8 - k) xs" and ?x2 = "drop (8 - k) xs"
  have x: "xs = ?x1 @ ?x2" "length ?x1 = 8 - k" "length ?x2 = k" using b(2) k by simp_all
  have "of_nat (8 - k) + of_nat k = (8 :: u64)" using k by (simp flip: of_nat_add)
  then have sk: "?s + of_nat k = src + 8" by (simp add: add.assoc)
  have h: "holds m src xs" "holds m (src + 8) ys" using Suc.prems(2) b by (simp_all add: holds_append)
  have hx: "holds m ?s ?x2" using h(1) x holds_append [of m src ?x1 ?x2] by simp
  have "m (?s + of_nat 0) \<noteq> None" using hx x(3) k by (auto simp: holds_def dest: spec [of _ 0])
  from word_of_mapped [OF Suc.prems(1,8) _ this] obtain v where v: "length v = 8" "holds m ?s v" "load64 m ?s = Some (word_of_bytes v)"
    by auto
  have v1: "take k v = ?x2" using holds_prefix [OF v(2) hx] x(3) v(1) k by simp
  have hv: "holds m (src + 8) (drop k v)"
    using v(1,2) k sk holds_append [of m ?s "take k v" "drop k v"] by simp
  have nxt: "0 < n \<longrightarrow> drop k (bytes_of_word (word_of_bytes v)) = take (8 - k) ys"
    using holds_prefix [OF h(2) hv] b(3) v(1) by (auto simp: bytes_of_word_of_bytes)
  have "GASNETI_MEMCPY0_MERGE w0 (8 * k) (word_of_bytes v) (64 - 8 * k) = word_of_bytes (?x1 @ ?x2)"
    using merge_bytes [OF k, of w0 "word_of_bytes v"] Suc.prems(9) v1 v(1) b k by (simp add: bytes_of_word_of_bytes)
  then have body: "merge_body (8 * k) (64 - 8 * k) (m, d, ?s, w0) = Some (word_of_bytes xs, ?m, d + 8, src + 8 + of_nat (8 - k), word_of_bytes v)"
    using store v(3) by (simp add: merge_body_def ac_simps)
  have al: "src + 8 + of_nat (8 - k) AND 7 = 0" using aligned_8 [OF Suc.prems(8)] by (simp add: ac_simps)
  have "mapped m d (length xs)" using \<open>mapped m d 8\<close> b(2) by simp
  then have wm: "whole_words ?m" by (rule whole_words_write [OF Suc.prems(1)])
  have "length ys \<le> 2 ^ 64" using Suc.prems(6) len by simp
  from Suc.IH [OF wm f(1) b(3) f(2) f(3) this aligned_8 [OF Suc.prems(7)] al nxt]
  obtain ws st where "run (merge_body (8 * k) (64 - 8 * k)) n (?m, d + 8, src + 8 + of_nat (8 - k), word_of_bytes v) =
      Some (ws, write_bytes ?m (d + 8) ys, st)" "bytes_of_words ws = ys" by blast
  moreover have "write_bytes ?m (d + 8) ys = write_bytes m d bs"
    using write_bytes_append [of xs ys m d] Suc.prems(6) b len by simp
  ultimately show ?case using body b by (cases st) (simp add: bytes_of_word_of_bytes)
qed simp

lemma copy_dstsrc_correct:
  assumes "holds m s bs" "length bs = 8 * n" "mapped m d (length bs)" "apart d s (length bs)" "length bs \<le> 2 ^ 64"
    and "d AND 7 = 0" "s AND 7 = 0"
  shows "gasneti_count0s_copy_dstsrc_aligned m d s n = Some (of_nat (nonzeros bs), write_bytes m d bs)"
proof -
  obtain ws st where "run copy_body n (m, d, s) = Some (ws, write_bytes m d bs, st)" "bytes_of_words ws = bs"
    using run_copy [OF assms] by blast
  then have "count0s_rounds copy_body n 0 (m, d, s) = Some (of_nat (nonzeros bs), write_bytes m d bs, st)"
    using rounds_run [of copy_body n "(m, d, s)" ws _ 0] by simp
  then show ?thesis using assms(6,7)
    by (cases st) (simp add: gasneti_count0s_copy_dstsrc_aligned_def SIZEOF_VOID_P_def)
qed

lemma copy_dst_correct:
  assumes w: "whole_words m" and h: "holds m s bs" "length bs = 8 * n" "mapped m d (length bs)" "apart d s (length bs)" "length bs \<le> 2 ^ 64"
    and a: "d AND 7 = 0" "s AND 7 \<noteq> 0" and s: "m s \<noteq> None"
  shows "gasneti_count0s_copy_dst_aligned m d s n = Some (of_nat (nonzeros bs), write_bytes m d bs)"
proof -
  let ?k = "unat (s AND 7)" and ?base = "s AND NOT 7"
  have k: "0 < ?k" "?k < 8" using a(2) unat_and_7 [of s] by (simp_all add: unat_gt_0)
  have sb: "s = ?base + of_nat ?k" unfolding and_not_7 by simp
  have e: "of_nat (8 - ?k) + of_nat ?k = (8 :: u64)" using k by (simp only: of_nat_add [symmetric]) simp
  have "s + of_nat (8 - ?k) = (?base + of_nat ?k) + of_nat (8 - ?k)" by (rule arg_cong [OF sb, of "\<lambda>y. y + of_nat (8 - ?k)"])
  also have "\<dots> = ?base + (of_nat (8 - ?k) + of_nat ?k)" by (simp only: ac_simps)
  finally have s8: "?base + 8 = s + of_nat (8 - ?k)" unfolding e by (rule sym)
  have al: "?base AND 7 = 0" by (rule and_not_7_aligned)
  have "m (?base + of_nat ?k) \<noteq> None" using s sb by simp
  from word_of_mapped [OF w al k(2) this] obtain v where v: "length v = 8" "holds m ?base v" "load64 m ?base = Some (word_of_bytes v)" .
  have hv: "holds m s (drop ?k v)" using v(1,2) k(2) sb holds_append [of m ?base "take ?k v" "drop ?k v"] by simp
  have start: "0 < n \<longrightarrow> drop ?k (bytes_of_word (word_of_bytes v)) = take (8 - ?k) bs"
    using holds_prefix [OF h(1) hv] h(2) v(1) by (auto simp: bytes_of_word_of_bytes)
  have al8: "(s + of_nat (8 - ?k)) AND 7 = 0" using aligned_8 [OF al] s8 by simp
  obtain ws st where r: "run (merge_body (8 * ?k) (64 - 8 * ?k)) n (m, d, ?base + 8, word_of_bytes v) = Some (ws, write_bytes m d bs, st)"
    "bytes_of_words ws = bs"
    using run_merge [OF k w h a(1) al8 start] unfolding s8 by blast
  have "push_bit 3 ?k = 8 * ?k" by (simp add: push_bit_eq_mult)
  moreover have "count0s_rounds (merge_body (8 * ?k) (64 - 8 * ?k)) n 0 (m, d, ?base + 8, word_of_bytes v) =
      Some (of_nat (nonzeros bs), write_bytes m d bs, st)"
    using rounds_run [OF r(1), of 0] r(2) by simp
  ultimately show ?thesis using a v(3)
    by (simp add: gasneti_count0s_copy_dst_aligned_def SIZEOF_VOID_P_def GASNETI_ALIGNDOWN_def Let_def)
qed

text \<open>Copying the words, whatever the alignment of the source.\<close>

lemma copy_words_correct:
  assumes "whole_words m" "holds m s bs" "length bs = 8 * n" "mapped m d (length bs)" "apart d s (length bs)" "length bs \<le> 2 ^ 64"
    and "d AND 7 = 0" "m s \<noteq> None"
  shows "(if s AND 7 \<noteq> 0 then gasneti_count0s_copy_dst_aligned m d s n else gasneti_count0s_copy_dstsrc_aligned m d s n) =
    Some (of_nat (nonzeros bs), write_bytes m d bs)"
  using copy_dst_correct [OF assms(1-7) _ assms(8)] copy_dstsrc_correct [OF assms(2-7)] by simp

lemma lead_aligns:
  assumes "off = unat ((d :: u64) AND 7)" and "lead = (if off \<noteq> 0 then 8 - off else 0)"
  shows "lead < 8" and "(d + of_nat lead) AND 7 = 0"
proof -
  have off: "off < 8" unfolding assms(1) by (rule unat_and_7)
  then show "lead < 8" using assms(2) by simp
  have "d = (d AND NOT 7) + of_nat off" unfolding and_not_7 assms(1) by simp
  then have d: "d + of_nat lead = ((d AND NOT 7) + of_nat off) + of_nat lead" by (rule arg_cong [where f = "\<lambda>x. x + of_nat lead"])
  have "of_nat off + of_nat lead = (if off \<noteq> 0 then 8 else 0 :: u64)"
    using off unfolding of_nat_add [symmetric] assms(2) by simp
  then have "(d + of_nat lead) = (d AND NOT 7) + of_nat (8 * (if off \<noteq> 0 then 1 else 0))" unfolding d by (simp add: add.assoc)
  then show "(d + of_nat lead) AND 7 = 0" using aligned_add [OF and_not_7_aligned] by simp
qed

text \<open>
  C36. The word-wise copy copies every byte and returns the number of zero bytes, for every length and
  every alignment of source and destination: words are read and written at aligned addresses only,
  no byte outside of the destination is written, and only words with a byte of the source are read,
  so that no page beyond the source is touched.
\<close>

theorem count0s_copy_exact:
  assumes h: "holds m src bs" and mp: "mapped m dst (length bs)" and ap: "apart dst src (length bs)"
    and w: "whole_words m" and l: "length bs \<le> 2 ^ 64"
  shows "gasneti_count0s_copy m dst src (length bs) = Some (of_nat (count_list bs 0), write_bytes m dst bs)"
proof (cases "length bs < 8")
  case True
  then show ?thesis using copy_bytes_correct [OF h mp ap l, of 0]
    by (simp add: gasneti_count0s_copy_def gasneti_count0s_copy_bytes_def SIZEOF_VOID_P_def length_minus_nonzeros)
next
  case False
  define off where "off = unat (dst AND 7)"
  define lead where "lead = (if off \<noteq> 0 then 8 - off else 0)"
  define words where "words = drop_bit 3 (length bs - lead)"
  note lead = lead_aligns [OF off_def lead_def]
  have lb: "lead \<le> length bs" using lead(1) False by linarith
  obtain xs ys zs where b: "bs = xs @ ys @ zs" "length xs = lead" "length ys = 8 * words" "length zs = (length bs - lead) AND 7"
    using three_parts [OF lb] unfolding words_def .
  have rest: "0 < length ys + length zs" proof -
    have "length bs = length xs + (length ys + length zs)" using b(1) by simp
    then show ?thesis using b(2) lead(1) False by linarith
  qed
  let ?m1 = "write_bytes m dst xs" and ?d = "dst + of_nat lead" and ?s = "src + of_nat lead"
  let ?m2 = "write_bytes ?m1 ?d ys" and ?d2 = "dst + of_nat lead + of_nat (8 * words)" and ?s2 = "src + of_nat lead + of_nat (8 * words)"
  have len: "length bs = length xs + length (ys @ zs)" using b(1) by simp
  note f1 = write_front [OF h [unfolded b(1)] mp [unfolded len] ap [unfolded len], unfolded b(2)]
  note f2 = write_front [OF f1(1) f1(2) [unfolded length_append] f1(3) [unfolded length_append], unfolded b(3)]
  have small: "length xs \<le> 2 ^ 64" "length ys \<le> 2 ^ 64" "length zs \<le> 2 ^ 64" using l len by simp_all
  have first: "copy_bytes_loop m dst src lead 0 = Some (of_nat (nonzeros xs), ?m1)"
  proof -
    have "holds m src xs" using h unfolding b(1) holds_append by simp
    moreover have "mapped m dst (length xs)" using mp unfolding len mapped_add by simp
    moreover have "apart dst src (length xs)" using apart_sub [OF ap, of 0 "length xs"] unfolding len by simp
    ultimately show ?thesis using copy_bytes_correct [of m src xs dst 0] small(1) b(2) by simp
  qed
  have w1: "whole_words ?m1" using whole_words_write [OF w] mp b(1) by (simp add: mapped_add)
  have ms: "?m1 ?s \<noteq> None"
  proof -
    have "0 < length (ys @ zs)" using rest by simp
    then show ?thesis using f1(1) by (auto simp: holds_def dest: spec [of _ 0])
  qed
  have hy: "holds ?m1 ?s ys" "mapped ?m1 ?d (length ys)" "apart ?d ?s (length ys)"
    using f1 apart_sub [of ?d ?s _ 0 "length ys"] by (simp_all add: holds_append mapped_add)
  have middle: "(if ?s AND 7 \<noteq> 0 then gasneti_count0s_copy_dst_aligned ?m1 ?d ?s words else gasneti_count0s_copy_dstsrc_aligned ?m1 ?d ?s words) =
      Some (of_nat (nonzeros ys), ?m2)"
    by (rule copy_words_correct [OF w1 hy(1) b(3) hy(2,3) small(2) lead(2) ms])
  have tail: "copy_bytes_loop ?m2 ?d2 ?s2 ((length bs - lead) AND 7) 0 = Some (of_nat (nonzeros zs), write_bytes ?m2 ?d2 zs)"
    using copy_bytes_correct [OF f2 small(3), of 0] b(4) by simp
  have less: "(length bs - lead) AND 7 < 8" by (rule nat_and_7_less)
  have total: "length xs + (length ys + length zs) \<le> 2 ^ 64" using l unfolding b(1) by simp
  have mem: "write_bytes ?m2 ?d2 zs = write_bytes m dst bs"
  proof -
    have "write_bytes ?m1 ?d (ys @ zs) = write_bytes m dst bs"
      using write_bytes_append [of xs "ys @ zs" m dst] total b(2) unfolding b(1) by simp
    moreover have "write_bytes ?m2 ?d2 zs = write_bytes ?m1 ?d (ys @ zs)"
      using write_bytes_append [of ys zs ?m1 ?d] total b(3) by simp
    ultimately show ?thesis by simp
  qed
  have sum: "of_nat (length bs) - of_nat (nonzeros xs) - of_nat (nonzeros ys) - of_nat (nonzeros zs) = (of_nat (count_list bs 0) :: u64)"
    unfolding length_minus_nonzeros [symmetric] by (simp add: b(1))
  have shift: "push_bit 3 words = 8 * words" by (simp add: push_bit_eq_mult)
  have front: "(if off \<noteq> 0 then gasneti_count0s_copy_bytes m dst src lead \<bind> (\<lambda>(nz, m1). Some (of_nat (length bs) - nz, m1))
      else Some (of_nat (length bs), m)) = Some (of_nat (length bs) - of_nat (nonzeros xs), ?m1)"
  proof (cases "off = 0")
    case True
    then show ?thesis using lead_def b(2) by simp
  next
    case False
    then show ?thesis using first lead(1) by (simp add: gasneti_count0s_copy_bytes_def SIZEOF_VOID_P_def)
  qed
  have tail_copy: "gasneti_count0s_copy_bytes ?m2 ?d2 ?s2 ((length bs - lead) AND 7) = Some (of_nat (nonzeros zs), write_bytes m dst bs)"
    using tail less unfolding mem by (simp only: gasneti_count0s_copy_bytes_def SIZEOF_VOID_P_def if_True)
  show ?thesis using False
    by (simp only: gasneti_count0s_copy_def SIZEOF_VOID_P_def gasneti_count0s_word_shift_def word_size_facts Let_def if_False
        off_def [symmetric] lead_def [symmetric] words_def [symmetric] front Option.bind.bind_lunit prod.case shift middle tail_copy sum)
qed

text \<open>
  C37. The number of words that may be added up before the bytes of the sum are read is exactly the
  limit in the code: up to it every sum of transformed words gives the number of bytes that are not
  zero, and one word more may overflow.
\<close>

theorem xform_limit_exact:
  "(\<forall>ws. length ws \<le> n \<longrightarrow> gasneti_count0s_xform2 (sum_list (map gasneti_count0s_xform1 ws)) = of_nat (nonzeros (bytes_of_words ws)))
    \<longleftrightarrow> n \<le> gasneti_count0s_xform_limit"
proof
  assume all: "\<forall>ws. length ws \<le> n \<longrightarrow>
    gasneti_count0s_xform2 (sum_list (map gasneti_count0s_xform1 ws)) = of_nat (nonzeros (bytes_of_words ws))"
  show "n \<le> gasneti_count0s_xform_limit"
  proof (rule ccontr)
    assume "\<not> n \<le> gasneti_count0s_xform_limit"
    then have n: "length (replicate 256 (1 :: u64)) \<le> n" by (simp add: gasneti_count0s_xform_limit_def)
    have x: "gasneti_count0s_xform1 1 = 1" by code_simp
    have "sum_list (map gasneti_count0s_xform1 (replicate 256 1)) = 256"
      by (simp add: x sum_list_replicate)
    moreover have "gasneti_count0s_xform2 256 = 1" by code_simp
    moreover have "nonzeros (bytes_of_words (replicate k 1)) = k" for k
    proof -
      have "nonzeros (bytes_of_word 1) = 1" by code_simp
      then show ?thesis by (induction k) simp_all
    qed
    ultimately show False using all [THEN spec, of "replicate 256 1"] n by simp
  qed
qed (use xform_words in auto)

section \<open>Witnesses\<close>

text \<open>Every address holds its own low byte; only the bytes at multiples of 256 are zero.\<close>

definition demo_memory :: mapped_memory where
  "demo_memory a = Some (ucast a)"

definition demo_bytes :: "u8 list" where
  "demo_bytes = [250, 251, 252, 253, 254, 255, 0, 1, 2, 3, 4, 5, 6, 7, 8, 9, 10, 11, 12]"

lemma demo_read: "read_bytes demo_memory 250 19 = Some demo_bytes"
  by code_simp

lemma count0s_exact_witness: "gasneti_count0s demo_memory 250 19 = Some 1"
proof -
  have "count_list demo_bytes 0 = 1" by (simp add: demo_bytes_def)
  then show ?thesis using count0s_exact [OF demo_read] by simp
qed

lemma xform_limit_exact_witness:
  "gasneti_count0s_xform2 (sum_list (map gasneti_count0s_xform1 [1, 0, 0x0100ff])) = of_nat (nonzeros (bytes_of_words [1, 0, 0x0100ff]))"
proof -
  have "length [1, 0, 0x0100ff :: u64] \<le> gasneti_count0s_xform_limit" by (simp add: gasneti_count0s_xform_limit_def)
  then show ?thesis using xform_limit_exact [of gasneti_count0s_xform_limit] by blast
qed

lemma count0s_copy_exact_witness:
  "gasneti_count0s_copy demo_memory 203 250 19 = Some (1, write_bytes demo_memory 203 demo_bytes)"
proof -
  have len: "length demo_bytes = 19" by (simp add: demo_bytes_def)
  have "holds demo_memory 250 demo_bytes" using demo_read len by (simp add: read_bytes_Some)
  moreover have "mapped demo_memory 203 (length demo_bytes)" by (simp add: mapped_def demo_memory_def)
  moreover have "apart 203 250 19"
    unfolding apart_def
  proof (intro allI impI)
    fix i j :: nat
    assume i: "i < 19" and j: "j < 19"
    have "unat (203 + of_nat i :: u64) = 203 + i" using i by (subst unat_add_small) (simp_all add: unat_of_nat)
    moreover have "unat (250 + of_nat j :: u64) = 250 + j" using j by (subst unat_add_small) (simp_all add: unat_of_nat)
    moreover have "203 + i \<noteq> 250 + j" using i by simp
    ultimately show "(203 :: u64) + of_nat i \<noteq> 250 + of_nat j" by metis
  qed
  moreover have "whole_words demo_memory" by (simp add: whole_words_def demo_memory_def)
  moreover have "count_list demo_bytes 0 = 1" by (simp add: demo_bytes_def)
  ultimately show ?thesis using count0s_copy_exact [of demo_memory 250 demo_bytes 203] len by simp
qed

end
