(* ===== verification/Node_Map.thy ===== *)
theory Node_Map
  imports Gasnet_Prelude "HOL-Library.List_Lexorder"
begin

text \<open>
  Which processes share a host (\<^verbatim>\<open>gasnet_internal.c\<close>): the node map built from a vector of
  identifiers, by sorting or in one pass. Identifiers are runs of \<open>sz\<close> bytes, \<open>stride\<close> bytes apart; the
  map has one entry for each rank, the lowest rank on the same host.
\<close>

section \<open>Identifiers\<close>

definition bytes_at :: "u8 list \<Rightarrow> nat \<Rightarrow> nat \<Rightarrow> u8 list" where
  "bytes_at ids p sz = take sz (drop p ids)"

fun memcmp :: "u8 list \<Rightarrow> u8 list \<Rightarrow> int" where
  "memcmp (a # as) (b # bs) = (if a < b then - 1 else if b < a then 1 else memcmp as bs)"
| "memcmp _ _ = 0"

section \<open>In one pass\<close>

record linear_state =
  lin_map :: "nat list"
  lin_prev :: nat
  lin_prev_p :: nat
  lin_base :: nat
  lin_base_p :: nat

definition linear_step :: "u8 list \<Rightarrow> nat \<Rightarrow> nat \<Rightarrow> nat \<Rightarrow> linear_state \<Rightarrow> linear_state" where
  "linear_step ids sz stride i st =
     (let p = i * stride; same = (\<lambda>q. memcmp (bytes_at ids p sz) (bytes_at ids q sz) = 0) in
      if same (lin_prev_p st)
      then st\<lparr>lin_map := (lin_map st)[i := lin_map st ! lin_prev st], lin_prev := lin_prev st + 1, lin_prev_p := lin_prev_p st + stride\<rparr>
      else let st1 = st\<lparr>lin_map := (lin_map st)[i := i]\<rparr>;
               st2 = (if same 0 then st1\<lparr>lin_prev := 0, lin_prev_p := 0\<rparr>
                      else if same (lin_base_p st1) then st1\<lparr>lin_prev := lin_base st1, lin_prev_p := lin_base_p st1\<rparr>
                      else if same (lin_prev_p st1 + stride) then st1\<lparr>lin_prev := lin_prev st1 + 1, lin_prev_p := lin_prev_p st1 + stride\<rparr>
                      else st1\<lparr>lin_prev := i, lin_base := i, lin_prev_p := p, lin_base_p := p\<rparr>)
           in st2\<lparr>lin_map := (lin_map st2)[i := lin_map st2 ! lin_prev st2]\<rparr>)"

definition gasneti_nodemap_helper_linear :: "u8 list \<Rightarrow> nat \<Rightarrow> nat \<Rightarrow> nat list \<Rightarrow> nat list" where
  "gasneti_nodemap_helper_linear ids sz stride nodemap = lin_map (fold (linear_step ids sz stride) [1..<length nodemap]
     \<lparr>lin_map = nodemap[0 := 0], lin_prev = 0, lin_prev_p = 0, lin_base = 0, lin_base_p = 0\<rparr>)"

section \<open>By sorting\<close>

definition gasneti_nodemap_sort_fn :: "u8 list \<Rightarrow> nat \<Rightarrow> nat \<Rightarrow> nat \<Rightarrow> nat \<Rightarrow> int" where
  "gasneti_nodemap_sort_fn ids sz stride key1 key2 =
     (let retval = memcmp (bytes_at ids (key1 * stride) sz) (bytes_at ids (key2 * stride) sz) in
      if retval = 0 then (if key1 < key2 then - 1 else 1) else retval)"

text \<open>The sorting function of the C library, for a comparison function without equal elements.\<close>

fun qsort_insert :: "(nat \<Rightarrow> nat \<Rightarrow> int) \<Rightarrow> nat \<Rightarrow> nat list \<Rightarrow> nat list" where
  "qsort_insert compar x [] = [x]"
| "qsort_insert compar x (y # ys) = (if compar x y < 0 then x # y # ys else y # qsort_insert compar x ys)"

definition qsort :: "(nat \<Rightarrow> nat \<Rightarrow> int) \<Rightarrow> nat list \<Rightarrow> nat list" where
  "qsort compar xs = foldr (qsort_insert compar) xs []"

fun qsort_scan :: "u8 list \<Rightarrow> nat \<Rightarrow> nat \<Rightarrow> nat list \<Rightarrow> nat \<Rightarrow> nat \<Rightarrow> nat list \<Rightarrow> nat list" where
  "qsort_scan ids sz stride [] prev prev_id nodemap = nodemap"
| "qsort_scan ids sz stride (node # work) prev prev_id nodemap =
     (let tmp_id = node * stride;
          prev' = (if memcmp (bytes_at ids tmp_id sz) (bytes_at ids prev_id sz) \<noteq> 0 then node else prev) in
      qsort_scan ids sz stride work prev' tmp_id (nodemap[node := prev']))"

definition gasneti_nodemap_helper_qsort :: "u8 list \<Rightarrow> nat \<Rightarrow> nat \<Rightarrow> nat list \<Rightarrow> nat list" where
  "gasneti_nodemap_helper_qsort ids sz stride nodemap =
     (let work = qsort (gasneti_nodemap_sort_fn ids sz stride) [0..<length nodemap]; prev = work ! 0 in
      qsort_scan ids sz stride (drop 1 work) prev (prev * stride) (nodemap[prev := prev]))"

definition gasneti_nodemap_helper :: "bool \<Rightarrow> u8 list \<Rightarrow> nat \<Rightarrow> nat \<Rightarrow> nat list \<Rightarrow> nat list option" where
  "gasneti_nodemap_helper nodemap_exact ids sz stride nodemap =
     (if sz = 0 \<or> stride < sz then None
      else Some (if nodemap_exact then gasneti_nodemap_helper_qsort ids sz stride nodemap
                 else gasneti_nodemap_helper_linear ids sz stride nodemap))"

section \<open>Comparison of identifiers\<close>

lemma memcmp_less: "length as = length bs \<Longrightarrow> memcmp as bs < 0 \<longleftrightarrow> as < bs"
  by (induction as bs rule: list_induct2) auto

lemma memcmp_eq: "length as = length bs \<Longrightarrow> memcmp as bs = 0 \<longleftrightarrow> as = bs"
  by (induction as bs rule: list_induct2) auto

text \<open>The vector holds an identifier for each rank.\<close>

definition ids_ok :: "u8 list \<Rightarrow> nat \<Rightarrow> nat \<Rightarrow> nat \<Rightarrow> bool" where
  "ids_ok ids sz stride n \<longleftrightarrow> 0 < n \<and> 0 < sz \<and> sz \<le> stride \<and> (n - 1) * stride + sz \<le> length ids"

definition node_id :: "u8 list \<Rightarrow> nat \<Rightarrow> nat \<Rightarrow> nat \<Rightarrow> u8 list" where
  "node_id ids sz stride i = bytes_at ids (i * stride) sz"

lemma length_node_id: "ids_ok ids sz stride n \<Longrightarrow> i < n \<Longrightarrow> length (node_id ids sz stride i) = sz"
proof -
  assume ok: "ids_ok ids sz stride n" and i: "i < n"
  have "i * stride \<le> (n - 1) * stride" using i by (intro mult_le_mono1) simp
  then have "i * stride + sz \<le> length ids" using ok unfolding ids_ok_def by linarith
  then show ?thesis by (simp add: node_id_def bytes_at_def)
qed

lemma same_id: "ids_ok ids sz stride n \<Longrightarrow> i < n \<Longrightarrow> j < n \<Longrightarrow>
    memcmp (bytes_at ids (i * stride) sz) (bytes_at ids (j * stride) sz) = 0 \<longleftrightarrow> node_id ids sz stride i = node_id ids sz stride j"
  using length_node_id [of ids sz stride n] memcmp_eq [of "node_id ids sz stride i" "node_id ids sz stride j"] by (simp add: node_id_def)

section \<open>The map by sorting\<close>

definition is_root :: "u8 list \<Rightarrow> nat \<Rightarrow> nat \<Rightarrow> nat \<Rightarrow> nat \<Rightarrow> nat \<Rightarrow> bool" where
  "is_root ids sz stride n v y \<longleftrightarrow> v < n \<and> node_id ids sz stride v = node_id ids sz stride y \<and>
     (\<forall>j<n. node_id ids sz stride j = node_id ids sz stride y \<longrightarrow> v \<le> j)"

lemma is_root_unique: "is_root ids sz stride n v y \<Longrightarrow> is_root ids sz stride n w y \<Longrightarrow> v = w"
  by (auto simp: is_root_def intro: order_antisym)

definition before :: "u8 list \<Rightarrow> nat \<Rightarrow> nat \<Rightarrow> nat \<Rightarrow> nat \<Rightarrow> bool" where
  "before ids sz stride x y \<longleftrightarrow> node_id ids sz stride x < node_id ids sz stride y \<or>
     node_id ids sz stride x = node_id ids sz stride y \<and> x < y"

lemma sort_fn_less:
  assumes "ids_ok ids sz stride n" "x < n" "y < n"
  shows "gasneti_nodemap_sort_fn ids sz stride x y < 0 \<longleftrightarrow> before ids sz stride x y"
proof -
  have "length (node_id ids sz stride x) = length (node_id ids sz stride y)" using length_node_id assms by metis
  then show ?thesis
    using memcmp_less [of "node_id ids sz stride x" "node_id ids sz stride y"] memcmp_eq [of "node_id ids sz stride x" "node_id ids sz stride y"]
    by (auto simp: gasneti_nodemap_sort_fn_def before_def Let_def node_id_def)
qed

lemma before_total: "x \<noteq> y \<Longrightarrow> \<not> before ids sz stride x y \<Longrightarrow> before ids sz stride y x"
  by (auto simp: before_def)

lemma before_trans: "before ids sz stride x y \<Longrightarrow> before ids sz stride y z \<Longrightarrow> before ids sz stride x z"
  by (auto simp: before_def)

lemma qsort_insert_sorted:
  assumes ok: "ids_ok ids sz stride n"
  shows "sorted_wrt (before ids sz stride) ys \<Longrightarrow> set ys \<subseteq> {..<n} \<Longrightarrow> x < n \<Longrightarrow> x \<notin> set ys \<Longrightarrow>
    sorted_wrt (before ids sz stride) (qsort_insert (gasneti_nodemap_sort_fn ids sz stride) x ys) \<and>
    set (qsort_insert (gasneti_nodemap_sort_fn ids sz stride) x ys) = insert x (set ys)"
proof (induction ys)
  case (Cons y ys)
  then have c: "gasneti_nodemap_sort_fn ids sz stride x y < 0 \<longleftrightarrow> before ids sz stride x y"
    using sort_fn_less [OF ok] by simp
  show ?case
  proof (cases "before ids sz stride x y")
    case True
    then show ?thesis using Cons.prems c by (auto intro: before_trans)
  next
    case False
    then have "before ids sz stride y x" using Cons.prems(4) before_total by auto
    then show ?thesis using Cons c False by auto
  qed
qed simp

lemma qsort_sorted:
  assumes ok: "ids_ok ids sz stride n"
  shows "distinct xs \<Longrightarrow> set xs \<subseteq> {..<n} \<Longrightarrow>
    sorted_wrt (before ids sz stride) (qsort (gasneti_nodemap_sort_fn ids sz stride) xs) \<and>
    set (qsort (gasneti_nodemap_sort_fn ids sz stride) xs) = set xs"
proof (induction xs)
  case (Cons x xs)
  then show ?case using qsort_insert_sorted [OF ok, of "qsort (gasneti_nodemap_sort_fn ids sz stride) xs" x] by (simp add: qsort_def)
qed (simp add: qsort_def)

lemma qsort_scan_roots:
  assumes ok: "ids_ok ids sz stride n"
  shows "sorted_wrt (before ids sz stride) (pre @ lst # work) \<Longrightarrow> set (pre @ lst # work) = {..<n} \<Longrightarrow> length nodemap = n \<Longrightarrow>
    is_root ids sz stride n prev lst \<Longrightarrow> (\<forall>y\<in>set (pre @ [lst]). is_root ids sz stride n (nodemap ! y) y) \<Longrightarrow>
    length (qsort_scan ids sz stride work prev (lst * stride) nodemap) = n \<and>
    (\<forall>y<n. is_root ids sz stride n (qsort_scan ids sz stride work prev (lst * stride) nodemap ! y) y)"
proof (induction work arbitrary: pre lst prev nodemap)
  case Nil
  then show ?case by auto
next
  case (Cons node work)
  have lt: "lst < n" "node < n" using Cons.prems(2) by auto
  let ?same = "node_id ids sz stride node = node_id ids sz stride lst"
  let ?prev = "if ?same then prev else node"
  have root: "is_root ids sz stride n ?prev node"
  proof (cases ?same)
    case True
    then show ?thesis using Cons.prems(4) by (simp add: is_root_def)
  next
    case False
    then have less: "node_id ids sz stride lst < node_id ids sz stride node"
      using Cons.prems(1) by (auto simp: sorted_wrt_append before_def)
    have "node \<le> j" if j: "j < n" "node_id ids sz stride j = node_id ids sz stride node" for j
    proof -
      have "j \<in> set pre \<or> j = lst \<or> j = node \<or> j \<in> set work" using j(1) Cons.prems(2) by auto
      moreover have "j \<notin> set pre"
      proof
        assume "j \<in> set pre"
        then have "before ids sz stride j lst" using Cons.prems(1) by (auto simp: sorted_wrt_append)
        then show False using less j(2) by (auto simp: before_def)
      qed
      moreover have "j \<noteq> lst" using less j(2) by auto
      moreover have "node < j" if "j \<in> set work"
      proof -
        have "before ids sz stride node j" using that Cons.prems(1) by (auto simp: sorted_wrt_append)
        then show ?thesis using j(2) by (auto simp: before_def)
      qed
      ultimately show ?thesis by auto
    qed
    then show ?thesis using False lt by (simp add: is_root_def)
  qed
  have scan: "qsort_scan ids sz stride (node # work) prev (lst * stride) nodemap =
      qsort_scan ids sz stride work ?prev (node * stride) (nodemap[node := ?prev])"
    using same_id [OF ok lt(2,1)] by (simp add: Let_def)
  have "\<forall>y\<in>set ((pre @ [lst]) @ [node]). is_root ids sz stride n (nodemap[node := ?prev] ! y) y"
  proof
    fix y
    assume y: "y \<in> set ((pre @ [lst]) @ [node])"
    show "is_root ids sz stride n (nodemap[node := ?prev] ! y) y"
    proof (cases "y = node")
      case True
      then show ?thesis using root lt Cons.prems(3) by simp
    next
      case False
      then show ?thesis using y Cons.prems(5) by auto
    qed
  qed
  then show ?case unfolding scan
    using Cons.IH [of "pre @ [lst]" node "nodemap[node := ?prev]" ?prev] Cons.prems(1,2,3) root by simp
qed

lemma sorted_roots:
  assumes ok: "ids_ok ids sz stride (length nodemap)" and y: "y < length nodemap"
  shows "is_root ids sz stride (length nodemap) (gasneti_nodemap_helper_qsort ids sz stride nodemap ! y) y"
proof -
  let ?n = "length nodemap"
  let ?work = "qsort (gasneti_nodemap_sort_fn ids sz stride) [0..<?n]"
  have w: "sorted_wrt (before ids sz stride) ?work" "set ?work = {..<?n}"
    using qsort_sorted [OF ok, of "[0..<?n]"] by (simp_all add: atLeast0LessThan)
  then obtain lst rest where l: "?work = lst # rest" using y by (cases ?work) auto
  have "is_root ids sz stride ?n lst lst"
    using w unfolding l by (auto simp: is_root_def before_def)
      (metis insertE lessThan_iff less_imp_le order_less_irrefl order_refl)
  moreover have "lst < ?n" using w(2) l by auto
  ultimately show ?thesis using qsort_scan_roots [OF ok, of "[]" lst rest "nodemap[lst := lst]" lst] w y
    unfolding l by (simp add: gasneti_nodemap_helper_qsort_def l Let_def)
qed

text \<open>
  C38. The map built by sorting is exact for every layout of processes: the entry of each rank is the
  lowest rank with the same identifier.
\<close>

theorem nodemap_sorted_exact:
  assumes ok: "ids_ok ids sz stride (length nodemap)" and y: "y < length nodemap"
  shows "gasneti_nodemap_helper_qsort ids sz stride nodemap ! y =
    (LEAST j. j < length nodemap \<and> node_id ids sz stride j = node_id ids sz stride y)"
  using sorted_roots [OF assms] y by (auto simp: is_root_def intro!: Least_equality [symmetric])

lemma qsort_scan_length: "length (qsort_scan ids sz stride work prev prev_id nodemap) = length nodemap"
  by (induction work arbitrary: prev prev_id nodemap) (simp_all add: Let_def)

lemma qsort_length: "length (gasneti_nodemap_helper_qsort ids sz stride nodemap) = length nodemap"
  by (simp add: gasneti_nodemap_helper_qsort_def Let_def qsort_scan_length)

section \<open>The map in one pass\<close>

abbreviation map_ok :: "u8 list \<Rightarrow> nat \<Rightarrow> nat \<Rightarrow> nat list \<Rightarrow> nat \<Rightarrow> bool" where
  "map_ok ids sz stride m j \<equiv> m ! j \<le> j \<and> node_id ids sz stride (m ! j) = node_id ids sz stride j \<and> m ! (m ! j) = m ! j"

definition linear_inv :: "u8 list \<Rightarrow> nat \<Rightarrow> nat \<Rightarrow> nat \<Rightarrow> nat \<Rightarrow> linear_state \<Rightarrow> bool" where
  "linear_inv ids sz stride n i st \<longleftrightarrow> length (lin_map st) = n \<and> lin_prev st < i \<and> lin_base st < i \<and>
     lin_prev_p st = lin_prev st * stride \<and> lin_base_p st = lin_base st * stride \<and>
     (\<forall>j<i. map_ok ids sz stride (lin_map st) j)"

text \<open>The rank whose entry is copied: its identifier is the same, and it is at most the new rank.\<close>

definition linear_source :: "u8 list \<Rightarrow> nat \<Rightarrow> nat \<Rightarrow> nat \<Rightarrow> linear_state \<Rightarrow> nat" where
  "linear_source ids sz stride i st =
     (let same = (\<lambda>q. node_id ids sz stride i = node_id ids sz stride q) in
      if same (lin_prev st) then lin_prev st else if same 0 then 0 else if same (lin_base st) then lin_base st
      else if same (lin_prev st + 1) then lin_prev st + 1 else i)"

lemma linear_step_source:
  assumes ok: "ids_ok ids sz stride n" and inv: "linear_inv ids sz stride n i st" and i: "i < n"
  defines "q \<equiv> linear_source ids sz stride i st"
  shows "q \<le> i" "node_id ids sz stride q = node_id ids sz stride i"
    "lin_map (linear_step ids sz stride i st) = (lin_map st)[i := if q = i then i else lin_map st ! q]"
    "lin_prev (linear_step ids sz stride i st) = (if node_id ids sz stride i = node_id ids sz stride (lin_prev st) then lin_prev st + 1 else q)"
    "lin_prev_p (linear_step ids sz stride i st) = lin_prev (linear_step ids sz stride i st) * stride"
    "lin_base (linear_step ids sz stride i st) \<in> {lin_base st, i}"
    "lin_base_p (linear_step ids sz stride i st) = lin_base (linear_step ids sz stride i st) * stride"
proof -
  have b: "lin_prev st < i" "lin_base st < i" "lin_prev_p st = lin_prev st * stride" "lin_base_p st = lin_base st * stride"
    "length (lin_map st) = n" "0 < n"
    using inv i by (auto simp: linear_inv_def)
  have same: "memcmp (bytes_at ids (i * stride) sz) (bytes_at ids (r * stride) sz) = 0 \<longleftrightarrow> node_id ids sz stride i = node_id ids sz stride r"
    if "r < n" for r using same_id [OF ok i that] .
  have same0: "memcmp (bytes_at ids (i * stride) sz) (bytes_at ids 0 sz) = 0 \<longleftrightarrow> node_id ids sz stride i = node_id ids sz stride 0"
    using same [of 0] b(6) by simp
  have same1: "memcmp (bytes_at ids (i * stride) sz) (bytes_at ids (lin_prev st * stride + stride) sz) = 0 \<longleftrightarrow>
      node_id ids sz stride i = node_id ids sz stride (lin_prev st + 1)"
    using same [of "lin_prev st + 1"] b(1) i by (simp add: add.commute)
  have sp: "memcmp (bytes_at ids (i * stride) sz) (bytes_at ids (lin_prev st * stride) sz) = 0 \<longleftrightarrow> node_id ids sz stride i = node_id ids sz stride (lin_prev st)"
    "memcmp (bytes_at ids (i * stride) sz) (bytes_at ids (lin_base st * stride) sz) = 0 \<longleftrightarrow> node_id ids sz stride i = node_id ids sz stride (lin_base st)"
    using same b i by simp_all
  show "q \<le> i" "node_id ids sz stride q = node_id ids sz stride i" using b by (auto simp: q_def linear_source_def Let_def)
  let ?A = "node_id ids sz stride i = node_id ids sz stride (lin_prev st)" and ?B = "node_id ids sz stride i = node_id ids sz stride 0"
    and ?C = "node_id ids sz stride i = node_id ids sz stride (lin_base st)" and ?D = "node_id ids sz stride i = node_id ids sz stride (lin_prev st + 1)"
  note d = linear_step_def linear_source_def q_def Let_def b(3,4,5) same0 same1 sp i
  have "lin_map (linear_step ids sz stride i st) = (lin_map st)[i := if q = i then i else lin_map st ! q] \<and>
      lin_prev (linear_step ids sz stride i st) = (if ?A then lin_prev st + 1 else q) \<and>
      lin_prev_p (linear_step ids sz stride i st) = lin_prev (linear_step ids sz stride i st) * stride \<and>
      lin_base (linear_step ids sz stride i st) \<in> {lin_base st, i} \<and>
      lin_base_p (linear_step ids sz stride i st) = lin_base (linear_step ids sz stride i st) * stride"
  proof (cases ?A)
    case True
    then have "\<not> lin_prev st = i" using b(1) by simp
    then show ?thesis using True by (simp add: d)
  next
    case A: False
    show ?thesis
    proof (cases ?B)
      case True
      then show ?thesis using A b(1) by (simp add: d)
    next
      case B: False
      show ?thesis
      proof (cases ?C)
        case True
        then show ?thesis using A B b(2) by (simp add: d)
      next
        case C: False
        show ?thesis
        proof (cases ?D)
          case True
          then show ?thesis using A B C by (auto simp: d nth_list_update)
        next
          case False
          then show ?thesis using A B C by (simp add: d)
        qed
      qed
    qed
  qed
  then show "lin_map (linear_step ids sz stride i st) = (lin_map st)[i := if q = i then i else lin_map st ! q]"
    "lin_prev (linear_step ids sz stride i st) = (if ?A then lin_prev st + 1 else q)"
    "lin_prev_p (linear_step ids sz stride i st) = lin_prev (linear_step ids sz stride i st) * stride"
    "lin_base (linear_step ids sz stride i st) \<in> {lin_base st, i}"
    "lin_base_p (linear_step ids sz stride i st) = lin_base (linear_step ids sz stride i st) * stride"
    by blast+
qed

lemma linear_step_inv:
  assumes ok: "ids_ok ids sz stride n" and inv: "linear_inv ids sz stride n i st" and i: "i < n"
  shows "linear_inv ids sz stride n (Suc i) (linear_step ids sz stride i st)"
proof -
  let ?q = "linear_source ids sz stride i st" and ?st = "linear_step ids sz stride i st"
  note src = linear_step_source [OF ok inv i]
  have b: "lin_prev st < i" "lin_base st < i" "length (lin_map st) = n" "\<forall>j<i. map_ok ids sz stride (lin_map st) j"
    using inv by (auto simp: linear_inv_def)
  have "map_ok ids sz stride (lin_map ?st) j" if "j < Suc i" for j
  proof (cases "j = i")
    case True
    show ?thesis
    proof (cases "?q = i")
      case True
      then show ?thesis using \<open>j = i\<close> src(3) b(3) i by simp
    next
      case False
      then have q: "map_ok ids sz stride (lin_map st) ?q" "?q < i" using src(1) b(4) by auto
      then show ?thesis using \<open>j = i\<close> src(2,3) b(3) i False by auto
    qed
  next
    case False
    then have j: "j < i" using that by simp
    then have "map_ok ids sz stride (lin_map st) j" using b(4) by blast
    then show ?thesis using src(3) j by auto
  qed
  then show ?thesis using src(1,4-7) b unfolding linear_inv_def by (auto simp: src(3))
qed

lemma linear_fold:
  assumes "\<And>i st. i < n \<Longrightarrow> P i st \<Longrightarrow> P (Suc i) (linear_step ids sz stride i st)" and "0 < n" and "P 1 st"
  shows "P n (fold (linear_step ids sz stride) [1..<n] st)"
proof -
  have "k < n \<Longrightarrow> P (Suc k) (fold (linear_step ids sz stride) [1..<Suc k] st)" for k
  proof (induction k)
    case (Suc k)
    then have "P (Suc k) (fold (linear_step ids sz stride) [1..<Suc k] st)" by simp
    from assms(1) [OF Suc.prems this] show ?case by simp
  qed (use assms(3) in simp)
  from this [of "n - 1"] show ?thesis using assms(2) by simp
qed

lemma linear_start:
  assumes "ids_ok ids sz stride (length nodemap)"
  shows "linear_inv ids sz stride (length nodemap) 1 \<lparr>lin_map = nodemap[0 := 0], lin_prev = 0, lin_prev_p = 0, lin_base = 0, lin_base_p = 0\<rparr>"
  using assms by (simp add: linear_inv_def ids_ok_def)

lemma linear_final:
  assumes ok: "ids_ok ids sz stride (length nodemap)"
  shows "linear_inv ids sz stride (length nodemap) (length nodemap) (fold (linear_step ids sz stride) [1..<length nodemap]
      \<lparr>lin_map = nodemap[0 := 0], lin_prev = 0, lin_prev_p = 0, lin_base = 0, lin_base_p = 0\<rparr>)"
  by (rule linear_fold [where P = "linear_inv ids sz stride (length nodemap)"])
    (use linear_step_inv [OF ok] linear_start [OF ok] ok in \<open>auto simp: ids_ok_def\<close>)

lemma linear_length: "ids_ok ids sz stride (length nodemap) \<Longrightarrow> length (gasneti_nodemap_helper_linear ids sz stride nodemap) = length nodemap"
  using linear_final by (simp add: linear_inv_def gasneti_nodemap_helper_linear_def)

lemma linear_safe:
  assumes ok: "ids_ok ids sz stride (length nodemap)" and j: "j < length nodemap"
  shows "map_ok ids sz stride (gasneti_nodemap_helper_linear ids sz stride nodemap) j"
  using linear_final [OF ok] j by (simp add: linear_inv_def gasneti_nodemap_helper_linear_def)

text \<open>
  The map built in one pass is safe for every layout: an entry is a lower rank with the same
  identifier, or the rank itself, and it is the entry of that rank as well, so that ranks with
  different identifiers are never put together.
\<close>

theorem nodemap_linear_safe:
  assumes "ids_ok ids sz stride (length nodemap)" and "j < length nodemap"
  shows "gasneti_nodemap_helper_linear ids sz stride nodemap ! j \<le> j \<and>
    node_id ids sz stride (gasneti_nodemap_helper_linear ids sz stride nodemap ! j) = node_id ids sz stride j"
  using linear_safe [OF assms] by blast

text \<open>
  For layouts that fill one host after the other, the pass and the sort give the same map.
\<close>

theorem nodemap_linear_blocks:
  assumes ok: "ids_ok ids sz stride (length nodemap)"
    and blocks: "\<And>i j k. i < j \<Longrightarrow> j < k \<Longrightarrow> k < length nodemap \<Longrightarrow> node_id ids sz stride i = node_id ids sz stride k \<Longrightarrow>
      node_id ids sz stride j = node_id ids sz stride k"
  shows "gasneti_nodemap_helper_linear ids sz stride nodemap = gasneti_nodemap_helper_qsort ids sz stride nodemap"
proof -
  let ?n = "length nodemap"
  let ?I = "\<lambda>i st. linear_inv ids sz stride ?n i st \<and> lin_prev st = i - 1 \<and> (\<forall>j<i. is_root ids sz stride ?n (lin_map st ! j) j)"
  have step: "?I (Suc i) (linear_step ids sz stride i st)" if i: "i < ?n" and I: "?I i st" for i st
  proof -
    have inv: "linear_inv ids sz stride ?n i st" using I by simp
    have p: "lin_prev st < i" "lin_base st < i" "length (lin_map st) = ?n" using inv by (auto simp: linear_inv_def)
    have prev: "lin_prev st = i - 1" using I by simp
    have roots: "\<forall>j<i. is_root ids sz stride ?n (lin_map st ! j) j" using I by simp
    note src = linear_step_source [OF ok inv i]
    let ?q = "linear_source ids sz stride i st"
    have earlier: "node_id ids sz stride r \<noteq> node_id ids sz stride i" if "r < i" "node_id ids sz stride i \<noteq> node_id ids sz stride (i - 1)" for r
    proof (cases "r = i - 1")
      case False
      then have "r < i - 1" "i - 1 < i" using that(1) by linarith+
      then show ?thesis using blocks [of r "i - 1" i] that(2) i by auto
    qed (use that in auto)
    have q: "?q = (if node_id ids sz stride i = node_id ids sz stride (i - 1) then i - 1 else i)"
    proof (cases "node_id ids sz stride i = node_id ids sz stride (i - 1)")
      case True
      then show ?thesis by (simp add: linear_source_def prev)
    next
      case False
      have "node_id ids sz stride i \<noteq> node_id ids sz stride 0" "node_id ids sz stride i \<noteq> node_id ids sz stride (lin_base st)"
        using earlier [OF _ False, of 0] earlier [OF p(2) False] p(1) by auto
      then show ?thesis using False p(1) by (simp add: linear_source_def prev Let_def)
    qed
    have root: "is_root ids sz stride ?n (if ?q = i then i else lin_map st ! ?q) i"
    proof (cases "node_id ids sz stride i = node_id ids sz stride (i - 1)")
      case True
      then have "?q = i - 1" unfolding q by simp
      moreover have "is_root ids sz stride ?n (lin_map st ! (i - 1)) (i - 1)" using roots p(1) by simp
      then have "is_root ids sz stride ?n (lin_map st ! (i - 1)) i" by (simp add: is_root_def True)
      moreover have "i - 1 \<noteq> i" using p(1) by linarith
      ultimately show ?thesis by (simp only: if_False)
    next
      case False
      have "\<not> r < i" if "node_id ids sz stride r = node_id ids sz stride i" for r
        using earlier [OF _ False] that by auto
      then show ?thesis using q False i by (auto simp: is_root_def not_less)
    qed
    have "is_root ids sz stride ?n (lin_map (linear_step ids sz stride i st) ! j) j" if "j < Suc i" for j
      using that root roots p(3) i by (cases "j = i") (simp_all add: src(3))
    moreover have "lin_prev (linear_step ids sz stride i st) = i" unfolding src(4) q unfolding prev using p(1) by auto
    ultimately show ?thesis using linear_step_inv [OF ok inv i] by simp
  qed
  let ?st = "\<lparr>lin_map = nodemap[0 := 0], lin_prev = 0, lin_prev_p = 0, lin_base = 0, lin_base_p = 0\<rparr>"
  have n: "0 < ?n" using ok by (simp add: ids_ok_def)
  have "is_root ids sz stride ?n (nodemap[0 := 0] ! 0) 0" using n by (simp add: is_root_def)
  then have start: "?I 1 ?st" using linear_start [OF ok] by simp
  have fin: "?I ?n (fold (linear_step ids sz stride) [1..<?n] ?st)" by (rule linear_fold [where P = ?I, OF step n start])
  show ?thesis
  proof (rule nth_equalityI)
    show len: "length (gasneti_nodemap_helper_linear ids sz stride nodemap) = length (gasneti_nodemap_helper_qsort ids sz stride nodemap)"
      using fin by (simp add: gasneti_nodemap_helper_linear_def linear_inv_def qsort_length)
    fix y
    assume "y < length (gasneti_nodemap_helper_linear ids sz stride nodemap)"
    then have y: "y < ?n" using len by (simp add: qsort_length)
    then have "is_root ids sz stride ?n (gasneti_nodemap_helper_linear ids sz stride nodemap ! y) y"
      using fin by (simp add: gasneti_nodemap_helper_linear_def)
    then show "gasneti_nodemap_helper_linear ids sz stride nodemap ! y = gasneti_nodemap_helper_qsort ids sz stride nodemap ! y"
      by (rule is_root_unique) (rule sorted_roots [OF ok y])
  qed
qed

definition demo_ids :: "u8 list" where
  "demo_ids = [5, 0, 7, 0, 5, 0, 5, 0, 7, 0, 5, 0]"

definition demo_map :: "nat list" where
  "demo_map = [0, 1, 0, 0, 1, 0]"

lemma demo_ids_ok: "ids_ok demo_ids 1 2 (length (replicate 6 (0 :: nat)))"
  by (simp add: ids_ok_def demo_ids_def)

lemma demo_exact: "gasneti_nodemap_helper_qsort demo_ids 1 2 (replicate 6 0) = demo_map"
  by code_simp

lemma nodemap_sorted_exact_witness:
  "demo_map ! 4 = (LEAST j. j < 6 \<and> node_id demo_ids 1 2 j = node_id demo_ids 1 2 4)"
  using nodemap_sorted_exact [OF demo_ids_ok, of 4] unfolding demo_exact by simp

end
