(* ===== verification/Node_Parse.thy ===== *)
theory Node_Parse
  imports Node_Map
begin

text \<open>
  The tables derived from the node map (\<open>gasneti_nodemapParse\<close>): hosts are split into supernodes of at
  most \<open>limit\<close> processes, and both are numbered. The build is the one with shared memory (\<open>GASNET_PSHM\<close>).
  A failed assertion or a fatal error is \<open>None\<close>; freed memory and tracing are left out.
\<close>

section \<open>The code\<close>

record node_slot =
  width :: nat
  h_lead :: nat
  sn_lead :: nat
  slot_host :: nat
  slot_supernode :: nat

text \<open>The array \<open>nodes\<close> of a group is a position in the array of all local nodes.\<close>

record nodegrp =
  nodes_pos :: "nat option"
  node_count :: nat
  node_rank :: nat
  grp_count :: nat
  grp_rank :: nat

definition no_group :: nodegrp where
  "no_group = \<lparr>nodes_pos = None, node_count = 0, node_rank = 4294967295, grp_count = 0, grp_rank = 4294967295\<rparr>"

record parse_state =
  slots :: "node_slot list"
  nodemap :: "nat list"
  info_host :: "nat list"
  info_supernode :: "nat list"
  myhost :: nodegrp
  mysupernode :: nodegrp

definition GASNETI_PSHM_MAX_NODES :: nat where "GASNETI_PSHM_MAX_NODES = 255"

text \<open>The limit from the environment, a signed number assigned to an unsigned rank; \<open>smp\<close> tells the
  conduit in which all processes share memory.\<close>

definition supernode_limit :: "bool \<Rightarrow> nat \<Rightarrow> int \<Rightarrow> nat option" where
  "supernode_limit smp nodes supernode_maxsize =
     (let limit = (word_of_int supernode_maxsize :: u32) in
      if smp then Some nodes
      else if limit \<le> 0 then Some GASNETI_PSHM_MAX_NODES
      else if GASNETI_PSHM_MAX_NODES < unat limit then None
      else Some (unat limit))"

definition set_slot :: "nat \<Rightarrow> (node_slot \<Rightarrow> node_slot) \<Rightarrow> parse_state \<Rightarrow> parse_state" where
  "set_slot k f st = st\<lparr>slots := (slots st)[k := f (slots st ! k)]\<rparr>"

definition parse_count :: "nat \<Rightarrow> nat \<Rightarrow> nat \<Rightarrow> nat \<Rightarrow> parse_state \<Rightarrow> parse_state" where
  "parse_count limit mynode i n st0 =
     (let w = width (slots st0 ! n);
          st1 = set_slot n (\<lambda>s. s\<lparr>width := w + 1\<rparr>) st0;
          lrank = w mod limit;
          st2 = (if w = 0 then (set_slot n (\<lambda>s. s\<lparr>slot_host := grp_count (myhost st1)\<rparr>) st1)
                   \<lparr>myhost := (myhost st1)\<lparr>grp_count := grp_count (myhost st1) + 1\<rparr>\<rparr> else st1);
          st3 = (if lrank = 0 then (set_slot n (\<lambda>s. s\<lparr>sn_lead := i, slot_supernode := grp_count (mysupernode st2)\<rparr>) st2)
                   \<lparr>mysupernode := (mysupernode st2)\<lparr>grp_count := grp_count (mysupernode st2) + 1\<rparr>\<rparr> else st2)
      in if i = mynode then st3\<lparr>mysupernode := (mysupernode st3)\<lparr>node_rank := lrank\<rparr>, myhost := (myhost st3)\<lparr>node_rank := w\<rparr>\<rparr> else st3)"

definition parse_step :: "nat \<Rightarrow> nat \<Rightarrow> nat \<Rightarrow> parse_state \<Rightarrow> parse_state" where
  "parse_step limit mynode i st0 =
     (let n = nodemap st0 ! i;
          st = set_slot i (\<lambda>s. s\<lparr>h_lead := n\<rparr>) (parse_count limit mynode i n st0)
      in st\<lparr>nodemap := (nodemap st)[i := sn_lead (slots st ! n)],
            info_supernode := (info_supernode st)[i := slot_supernode (slots st ! n)],
            info_host := (info_host st)[i := slot_host (slots st ! n)]\<rparr>)"

function members_pass :: "node_slot list \<Rightarrow> nat \<Rightarrow> nat \<Rightarrow> nat \<Rightarrow> nat \<Rightarrow> nat \<Rightarrow> nat list \<Rightarrow> nat option \<Rightarrow> (nat list \<times> nat option) option" where
  "members_pass s initial final count i j nodes sn_nodes =
     (if j < count
      then if i < length s
           then if h_lead (s ! i) = initial
                then members_pass s initial final count (i + 1) (j + 1) (nodes @ [i]) (if i = final then Some j else sn_nodes)
                else members_pass s initial final count (i + 1) j nodes sn_nodes
           else None
      else Some (nodes, sn_nodes))"
  by pat_completeness auto
termination
  by (relation "measure (\<lambda>(s, initial, final, count, i, j, nodes, sn). length s - i)") auto

declare members_pass.simps [simp del]

definition parse_start :: "nat list \<Rightarrow> parse_state" where
  "parse_start nm = \<lparr>slots = replicate (length nm) \<lparr>width = 0, h_lead = 0, sn_lead = 0, slot_host = 0, slot_supernode = 0\<rparr>,
     nodemap = nm, info_host = replicate (length nm) 0, info_supernode = replicate (length nm) 0, myhost = no_group, mysupernode = no_group\<rparr>"

definition gasneti_nodemapParse :: "nat \<Rightarrow> nat \<Rightarrow> nat list \<Rightarrow> (parse_state \<times> nat list) option" where
  "gasneti_nodemapParse limit mynode nm =
     (if nm = [] \<or> nm ! 0 \<noteq> 0 \<or> mynode < nm ! mynode then None
      else let initial = nm ! mynode;
               st = fold (parse_step limit mynode) [0..<length nm] (parse_start nm);
               final = nodemap st ! mynode;
               s = slots st ! initial;
               sn = (mysupernode st)\<lparr>node_count := (if final = sn_lead s then (width s - 1) mod limit + 1 else limit),
                      grp_rank := info_supernode st ! mynode\<rparr>;
               h = (myhost st)\<lparr>node_count := width s, grp_rank := info_host st ! mynode\<rparr>
           in if node_count h < node_count sn then None
              else case members_pass (slots st) initial final (node_count h) initial 0 [] None of
                None \<Rightarrow> None
              | Some (nodes, sn_nodes) \<Rightarrow>
                  if sn_nodes = None then None
                  else Some (st\<lparr>myhost := h\<lparr>nodes_pos := Some 0\<rparr>, mysupernode := sn\<lparr>nodes_pos := sn_nodes\<rparr>\<rparr>, nodes))"

section \<open>Positions in a filtered range\<close>

lemma filter_upt_split: "i \<le> n \<Longrightarrow> filter P [0..<n] = filter P [0..<i] @ filter P [i..<n]"
  by (metis filter_append le0 le_add_diff_inverse upt_add_eq_append)

lemma filter_upt_nth:
  assumes "j < n" "P j"
  shows "filter P [0..<n] ! length (filter P [0..<j]) = j" "length (filter P [0..<j]) < length (filter P [0..<n])"
proof -
  have "filter P [0..<n] = filter P [0..<j] @ j # filter P [Suc j..<n]"
    using assms filter_upt_split [of j n P] by (simp add: upt_conv_Cons)
  then show "filter P [0..<n] ! length (filter P [0..<j]) = j" "length (filter P [0..<j]) < length (filter P [0..<n])"
    by simp_all
qed

lemma filter_upt_index:
  assumes k: "k < length (filter P [0..<n])"
  shows "length (filter P [0..<filter P [0..<n] ! k]) = k"
proof -
  let ?j = "filter P [0..<n] ! k"
  have "?j \<in> set (filter P [0..<n])" using k by (rule nth_mem)
  then have j: "?j < n" "P ?j" by auto
  then have "filter P [0..<n] ! length (filter P [0..<?j]) = ?j" "length (filter P [0..<?j]) < length (filter P [0..<n])"
    by (rule filter_upt_nth)+
  moreover have "distinct (filter P [0..<n])" by simp
  ultimately show ?thesis using k by (simp only: nth_eq_iff_index_eq)
qed

lemma filter_upt_prefix: "i \<le> n \<Longrightarrow> k < length (filter P [0..<i]) \<Longrightarrow> filter P [0..<n] ! k = filter P [0..<i] ! k"
  by (simp add: filter_upt_split [of i n P] nth_append)

lemma filter_upt_mono: "i < j \<Longrightarrow> P i \<Longrightarrow> length (filter P [0..<i]) < length (filter P [0..<j])"
  by (rule filter_upt_nth(2))

section \<open>Hosts and their parts\<close>

definition good_map :: "nat list \<Rightarrow> bool" where
  "good_map nm \<longleftrightarrow> nm \<noteq> [] \<and> (\<forall>j<length nm. nm ! j \<le> j \<and> nm ! (nm ! j) = nm ! j)"

definition host_members :: "nat list \<Rightarrow> nat \<Rightarrow> nat \<Rightarrow> nat list" where
  "host_members nm l i = filter (\<lambda>k. nm ! k = l) [0..<i]"

definition rank_on_host :: "nat list \<Rightarrow> nat \<Rightarrow> nat" where
  "rank_on_host nm i = length (host_members nm (nm ! i) i)"

definition lead_of :: "nat list \<Rightarrow> nat \<Rightarrow> nat \<Rightarrow> nat" where
  "lead_of nm limit i = host_members nm (nm ! i) (Suc i) ! (rank_on_host nm i div limit * limit)"

abbreviation starts_part :: "nat list \<Rightarrow> nat \<Rightarrow> nat \<Rightarrow> bool" where
  "starts_part nm limit i \<equiv> rank_on_host nm i mod limit = 0"

definition parts_before :: "nat list \<Rightarrow> nat \<Rightarrow> nat \<Rightarrow> nat" where
  "parts_before nm limit i = length (filter (starts_part nm limit) [0..<i])"

definition hosts_before :: "nat list \<Rightarrow> nat \<Rightarrow> nat" where
  "hosts_before nm i = length (filter (\<lambda>k. nm ! k = k) [0..<i])"

text \<open>What the first pass has computed when it has seen the ranks below \<open>i\<close>.\<close>

definition slot_inv :: "nat list \<Rightarrow> nat \<Rightarrow> nat \<Rightarrow> nat \<Rightarrow> node_slot \<Rightarrow> bool" where
  "slot_inv nm limit i l s \<longleftrightarrow> width s = length (host_members nm l i) \<and>
     (0 < width s \<longrightarrow> sn_lead s = host_members nm l i ! ((width s - 1) div limit * limit) \<and>
        slot_supernode s = parts_before nm limit (sn_lead s) \<and> slot_host s = hosts_before nm l)"

definition entry_inv :: "nat list \<Rightarrow> nat \<Rightarrow> parse_state \<Rightarrow> nat \<Rightarrow> bool" where
  "entry_inv nm limit st j \<longleftrightarrow> nodemap st ! j = lead_of nm limit j \<and> h_lead (slots st ! j) = nm ! j \<and>
     info_supernode st ! j = parts_before nm limit (lead_of nm limit j) \<and> info_host st ! j = hosts_before nm (nm ! j)"

definition pass_inv :: "nat list \<Rightarrow> nat \<Rightarrow> nat \<Rightarrow> nat \<Rightarrow> parse_state \<Rightarrow> bool" where
  "pass_inv nm limit me i st \<longleftrightarrow>
     length (slots st) = length nm \<and> length (nodemap st) = length nm \<and>
     length (info_host st) = length nm \<and> length (info_supernode st) = length nm \<and>
     (\<forall>j<i. entry_inv nm limit st j) \<and> (\<forall>j<length nm. i \<le> j \<longrightarrow> nodemap st ! j = nm ! j) \<and>
     (\<forall>l<length nm. nm ! l = l \<longrightarrow> slot_inv nm limit i l (slots st ! l)) \<and>
     grp_count (myhost st) = hosts_before nm i \<and> grp_count (mysupernode st) = parts_before nm limit i \<and>
     (me < i \<longrightarrow> node_rank (mysupernode st) = rank_on_host nm me mod limit \<and> node_rank (myhost st) = rank_on_host nm me)"

lemma host_members_Suc: "host_members nm l (Suc i) = host_members nm l i @ (if nm ! i = l then [i] else [])"
  by (simp add: host_members_def)

lemma hosts_before_Suc: "hosts_before nm (Suc i) = hosts_before nm i + (if nm ! i = i then 1 else 0)"
  by (simp add: hosts_before_def)

lemma parts_before_Suc: "parts_before nm limit (Suc i) = parts_before nm limit i + (if starts_part nm limit i then 1 else 0)"
  by (simp add: parts_before_def)

text \<open>The first rank of a host is its leader.\<close>

lemma first_is_leader:
  assumes g: "good_map nm" and i: "i < length nm"
  shows "host_members nm (nm ! i) i = [] \<longleftrightarrow> nm ! i = i"
proof
  assume e: "host_members nm (nm ! i) i = []"
  show "nm ! i = i"
  proof (rule ccontr)
    assume "nm ! i \<noteq> i"
    then have "nm ! i < i" "nm ! (nm ! i) = nm ! i" using g i by (auto simp: good_map_def le_neq_implies_less)
    then have "nm ! i \<in> set (host_members nm (nm ! i) i)" by (simp add: host_members_def)
    then show False using e by simp
  qed
next
  assume e: "nm ! i = i"
  have "nm ! k \<noteq> i" if "k < i" for k
  proof -
    have "nm ! k \<le> k" using g i that by (auto simp: good_map_def)
    then show ?thesis using that by simp
  qed
  then show "host_members nm (nm ! i) i = []" by (simp add: host_members_def e filter_empty_conv)
qed

lemma div_mod_pred: "0 < w \<Longrightarrow> w mod limit \<noteq> 0 \<Longrightarrow> (w - 1) div limit = w div (limit :: nat)"
  by (metis Suc_pred' div_Suc)

text \<open>The slot of the host of \<open>i\<close> after the pass has seen \<open>i\<close>.\<close>

definition next_slot :: "nat \<Rightarrow> nat \<Rightarrow> nat \<Rightarrow> nat \<Rightarrow> node_slot \<Rightarrow> node_slot" where
  "next_slot limit i hosts parts s =
     (let s1 = s\<lparr>width := width s + 1\<rparr>;
          s2 = (if width s = 0 then s1\<lparr>slot_host := hosts\<rparr> else s1)
      in if width s mod limit = 0 then s2\<lparr>sn_lead := i, slot_supernode := parts\<rparr> else s2)"

lemma next_slot_inv:
  assumes g: "good_map nm" and i: "i < length nm" and lim: "0 < limit" and inv: "slot_inv nm limit i (nm ! i) s"
  shows "slot_inv nm limit (Suc i) (nm ! i) (next_slot limit i (hosts_before nm i) (parts_before nm limit i) s)"
    and "sn_lead (next_slot limit i (hosts_before nm i) (parts_before nm limit i) s) = lead_of nm limit i"
proof -
  let ?w = "width s" and ?s = "next_slot limit i (hosts_before nm i) (parts_before nm limit i) s" and ?M = "host_members nm (nm ! i) i"
  have w: "?w = length ?M" "?w = rank_on_host nm i" using inv by (simp_all add: slot_inv_def rank_on_host_def)
  have M: "host_members nm (nm ! i) (Suc i) = ?M @ [i]" by (simp add: host_members_Suc)
  have width: "width ?s = ?w + 1" by (simp add: next_slot_def Let_def)
  have host: "slot_host ?s = hosts_before nm (nm ! i)"
  proof (cases "?w = 0")
    case True
    then have "nm ! i = i" using first_is_leader [OF g i] w(1) by simp
    then show ?thesis using True by (simp add: next_slot_def Let_def)
  next
    case False
    then show ?thesis using inv by (simp add: next_slot_def Let_def slot_inv_def)
  qed
  have lead: "sn_lead ?s = (?M @ [i]) ! (?w div limit * limit) \<and> slot_supernode ?s = parts_before nm limit (sn_lead ?s)"
  proof (cases "?w mod limit = 0")
    case True
    then have "?w div limit * limit = ?w" by (simp add: minus_mod_eq_div_mult [symmetric])
    then show ?thesis using True w(1) by (simp add: next_slot_def Let_def)
  next
    case False
    then have p: "0 < ?w" by (cases "?w = 0") auto
    then have "sn_lead s = ?M ! (?w div limit * limit)" "slot_supernode s = parts_before nm limit (sn_lead s)"
      using inv div_mod_pred [OF p False] by (simp_all add: slot_inv_def)
    moreover have "?w div limit * limit < ?w"
    proof -
      have "?w = ?w div limit * limit + ?w mod limit" by simp
      then show ?thesis using False by linarith
    qed
    ultimately show ?thesis using False w(1) p by (simp add: next_slot_def Let_def nth_append)
  qed
  show "slot_inv nm limit (Suc i) (nm ! i) ?s"
    using width host lead by (simp add: slot_inv_def M w(1))
  show "sn_lead ?s = lead_of nm limit i" using lead by (simp add: lead_of_def M w(2))
qed

lemma slot_inv_h_lead [simp]: "slot_inv nm limit i l (s\<lparr>h_lead := x\<rparr>) \<longleftrightarrow> slot_inv nm limit i l s"
  by (simp add: slot_inv_def)

lemma parse_step_parts:
  assumes n: "n = nodemap st ! i" and l: "n < length (slots st)" "i < length (slots st)"
    and new_def: "new = next_slot limit i (grp_count (myhost st)) (grp_count (mysupernode st)) (slots st ! n)"
    and sl_def: "sl = (slots st)[n := new]"
  shows "slots (parse_step limit me i st) = sl[i := (sl ! i)\<lparr>h_lead := n\<rparr>]"
    and "nodemap (parse_step limit me i st) = (nodemap st)[i := sn_lead new]"
    and "info_supernode (parse_step limit me i st) = (info_supernode st)[i := slot_supernode new]"
    and "info_host (parse_step limit me i st) = (info_host st)[i := slot_host new]"
    and "grp_count (myhost (parse_step limit me i st)) = grp_count (myhost st) + (if width (slots st ! n) = 0 then 1 else 0)"
    and "grp_count (mysupernode (parse_step limit me i st)) = grp_count (mysupernode st) + (if width (slots st ! n) mod limit = 0 then 1 else 0)"
    and "node_rank (mysupernode (parse_step limit me i st)) = (if i = me then width (slots st ! n) mod limit else node_rank (mysupernode st))"
    and "node_rank (myhost (parse_step limit me i st)) = (if i = me then width (slots st ! n) else node_rank (myhost st))"
proof -
  let ?c = "parse_count limit me i n st"
  have c: "nodemap ?c = nodemap st" "info_supernode ?c = info_supernode st" "info_host ?c = info_host st"
    by (simp_all add: parse_count_def set_slot_def Let_def)
  have s: "slots (parse_step limit me i st) = sl[i := (sl ! i)\<lparr>h_lead := n\<rparr>]"
  proof -
    have "slots ?c = sl" using l by (simp add: parse_count_def set_slot_def Let_def sl_def new_def next_slot_def)
    then show ?thesis by (simp add: parse_step_def Let_def n [symmetric] set_slot_def)
  qed
  have at: "slots (parse_step limit me i st) ! n = new \<or> slots (parse_step limit me i st) ! n = new\<lparr>h_lead := n\<rparr>"
    unfolding s using l by (cases "i = n") (simp_all add: sl_def)
  show "slots (parse_step limit me i st) = sl[i := (sl ! i)\<lparr>h_lead := n\<rparr>]" by (rule s)
  have "nodemap (parse_step limit me i st) = (nodemap st)[i := sn_lead (slots (parse_step limit me i st) ! n)]"
    "info_supernode (parse_step limit me i st) = (info_supernode st)[i := slot_supernode (slots (parse_step limit me i st) ! n)]"
    "info_host (parse_step limit me i st) = (info_host st)[i := slot_host (slots (parse_step limit me i st) ! n)]"
    by (simp_all add: parse_step_def Let_def n [symmetric] set_slot_def c)
  then show "nodemap (parse_step limit me i st) = (nodemap st)[i := sn_lead new]"
    "info_supernode (parse_step limit me i st) = (info_supernode st)[i := slot_supernode new]"
    "info_host (parse_step limit me i st) = (info_host st)[i := slot_host new]"
    using at by auto
  have "grp_count (myhost (parse_step limit me i st)) = grp_count (myhost ?c)" "grp_count (mysupernode (parse_step limit me i st)) = grp_count (mysupernode ?c)"
    "node_rank (mysupernode (parse_step limit me i st)) = node_rank (mysupernode ?c)" "node_rank (myhost (parse_step limit me i st)) = node_rank (myhost ?c)"
    by (simp_all add: parse_step_def Let_def n [symmetric] set_slot_def)
  then show "grp_count (myhost (parse_step limit me i st)) = grp_count (myhost st) + (if width (slots st ! n) = 0 then 1 else 0)"
    "grp_count (mysupernode (parse_step limit me i st)) = grp_count (mysupernode st) + (if width (slots st ! n) mod limit = 0 then 1 else 0)"
    "node_rank (mysupernode (parse_step limit me i st)) = (if i = me then width (slots st ! n) mod limit else node_rank (mysupernode st))"
    "node_rank (myhost (parse_step limit me i st)) = (if i = me then width (slots st ! n) else node_rank (myhost st))"
    by (simp_all add: parse_count_def Let_def set_slot_def)
qed

lemma parse_step_inv:
  assumes g: "good_map nm" and i: "i < length nm" and lim: "0 < limit" and inv: "pass_inv nm limit me i st"
  shows "pass_inv nm limit me (Suc i) (parse_step limit me i st)"
proof -
  let ?n = "nm ! i" and ?st = "parse_step limit me i st"
  have len: "length (slots st) = length nm" "length (nodemap st) = length nm" "length (info_host st) = length nm" "length (info_supernode st) = length nm"
    and ent: "\<forall>j<i. entry_inv nm limit st j" and later: "\<forall>j<length nm. i \<le> j \<longrightarrow> nodemap st ! j = nm ! j"
    and sl: "\<forall>l<length nm. nm ! l = l \<longrightarrow> slot_inv nm limit i l (slots st ! l)"
    and cnt: "grp_count (myhost st) = hosts_before nm i" "grp_count (mysupernode st) = parts_before nm limit i"
    and rk: "me < i \<longrightarrow> node_rank (mysupernode st) = rank_on_host nm me mod limit \<and> node_rank (myhost st) = rank_on_host nm me"
    using inv unfolding pass_inv_def by blast+
  have n: "?n = nodemap st ! i" using later i by simp
  have nn: "?n < length nm" "nm ! ?n = ?n" "?n \<le> i" using g i by (auto simp: good_map_def)
  have old: "slot_inv nm limit i ?n (slots st ! ?n)" using sl nn by blast
  then have w: "width (slots st ! ?n) = rank_on_host nm i" by (simp add: slot_inv_def rank_on_host_def)
  define new where "new = next_slot limit i (grp_count (myhost st)) (grp_count (mysupernode st)) (slots st ! ?n)"
  note P = parse_step_parts [OF n, unfolded len(1), OF nn(1) i new_def refl, of me]
  have new: "slot_inv nm limit (Suc i) ?n new" "sn_lead new = lead_of nm limit i"
    using next_slot_inv [OF g i lim old] unfolding new_def cnt by simp_all
  have pos: "0 < width new" using new(1) by (simp add: slot_inv_def host_members_Suc)
  have supernode: "slot_supernode new = parts_before nm limit (lead_of nm limit i)" "slot_host new = hosts_before nm ?n"
    using new pos by (simp_all add: slot_inv_def)
  have entries: "entry_inv nm limit ?st j" if "j < Suc i" for j
  proof (cases "j = i")
    case True
    then show ?thesis using i len new(2) supernode by (simp add: entry_inv_def P(1-4))
  next
    case False
    then have j: "j < i" "entry_inv nm limit st j" using that ent by auto
    have "h_lead (slots ?st ! j) = h_lead (slots st ! j)"
      using j(1) False nn(1) len(1) by (cases "j = ?n") (simp_all add: P(1) new_def next_slot_def Let_def)
    then show ?thesis using j False by (simp add: entry_inv_def P(2-4))
  qed
  have slots: "slot_inv nm limit (Suc i) l (slots ?st ! l)" if l: "l < length nm" "nm ! l = l" for l
  proof (cases "l = ?n")
    case True
    then show ?thesis using new(1) len(1) l nn by (cases "l = i") (simp_all add: P(1))
  next
    case False
    then have "slot_inv nm limit (Suc i) l (slots st ! l)" using sl l by (simp add: slot_inv_def host_members_Suc)
    then show ?thesis using False l len(1) by (cases "l = i") (simp_all add: P(1))
  qed
  have first: "rank_on_host nm i = 0 \<longleftrightarrow> ?n = i" using first_is_leader [OF g i] by (simp add: rank_on_host_def)
  have "grp_count (myhost ?st) = hosts_before nm (Suc i)" unfolding P(5) by (simp add: cnt w first hosts_before_Suc)
  moreover have "grp_count (mysupernode ?st) = parts_before nm limit (Suc i)" unfolding P(6) by (simp add: cnt w parts_before_Suc)
  moreover have "node_rank (mysupernode ?st) = rank_on_host nm me mod limit \<and> node_rank (myhost ?st) = rank_on_host nm me" if "me < Suc i"
    unfolding P(7,8) using that rk w by (cases "i = me") simp_all
  moreover have "nodemap ?st ! j = nm ! j" if "j < length nm" "Suc i \<le> j" for j unfolding P(2) using that later by simp
  moreover have "length (slots ?st) = length nm" "length (nodemap ?st) = length nm" "length (info_host ?st) = length nm" "length (info_supernode ?st) = length nm"
    unfolding P(1-4) using len by simp_all
  ultimately show ?thesis unfolding pass_inv_def using entries slots by blast
qed

lemma pass_all:
  assumes g: "good_map nm" and lim: "0 < limit"
  shows "pass_inv nm limit me (length nm) (fold (parse_step limit me) [0..<length nm] (parse_start nm))"
proof -
  have "k \<le> length nm \<Longrightarrow> pass_inv nm limit me k (fold (parse_step limit me) [0..<k] (parse_start nm))" for k
  proof (induction k)
    case 0
    show ?case
      by (simp add: pass_inv_def parse_start_def slot_inv_def host_members_def hosts_before_def parts_before_def no_group_def)
  next
    case (Suc k)
    then show ?case using parse_step_inv [OF g _ lim, of k me] by simp
  qed
  then show ?thesis by simp
qed

section \<open>Parts of a host\<close>

text \<open>The members of a host, counted, and the leaders of its parts.\<close>

lemma member_rank:
  assumes "k < length (host_members nm l (length nm))"
  shows "nm ! (host_members nm l (length nm) ! k) = l" "host_members nm l (length nm) ! k < length nm"
    "rank_on_host nm (host_members nm l (length nm) ! k) = k"
proof -
  have "host_members nm l (length nm) ! k \<in> set (host_members nm l (length nm))" using assms by (rule nth_mem)
  then show l: "nm ! (host_members nm l (length nm) ! k) = l" and "host_members nm l (length nm) ! k < length nm"
    by (auto simp: host_members_def)
  show "rank_on_host nm (host_members nm l (length nm) ! k) = k"
    unfolding rank_on_host_def l using assms unfolding host_members_def by (rule filter_upt_index)
qed

lemma rank_member:
  assumes "j < length nm"
  shows "host_members nm (nm ! j) (length nm) ! rank_on_host nm j = j" "rank_on_host nm j < length (host_members nm (nm ! j) (length nm))"
  using filter_upt_nth [of j "length nm" "\<lambda>k. nm ! k = nm ! j"] assms by (simp_all add: host_members_def rank_on_host_def)

lemma div_mult_le_self: "k div n * n \<le> (k :: nat)"
  by (simp add: minus_mod_eq_div_mult [symmetric])

lemma lead_of_nth:
  assumes j: "j < length nm"
  shows "lead_of nm limit j = host_members nm (nm ! j) (length nm) ! (rank_on_host nm j div limit * limit)"
proof -
  have "rank_on_host nm j div limit * limit < length (host_members nm (nm ! j) (Suc j))"
    using div_mult_le_self [of "rank_on_host nm j" limit] by (simp add: host_members_Suc rank_on_host_def less_Suc_eq_le)
  then show ?thesis unfolding lead_of_def host_members_def using j by (intro filter_upt_prefix [symmetric]) simp_all
qed

lemma lead_of_facts:
  assumes j: "j < length nm" and lim: "0 < limit"
  shows "lead_of nm limit j < length nm" "nm ! lead_of nm limit j = nm ! j" "rank_on_host nm (lead_of nm limit j) = rank_on_host nm j div limit * limit"
    "lead_of nm limit j \<le> j" "lead_of nm limit (lead_of nm limit j) = lead_of nm limit j"
proof -
  let ?M = "host_members nm (nm ! j) (length nm)" and ?k = "rank_on_host nm j div limit * limit"
  have k: "?k < length ?M" using rank_member(2) [OF j] div_mult_le_self [of "rank_on_host nm j" limit] by linarith
  note L = lead_of_nth [OF j, of limit]
  show l: "lead_of nm limit j < length nm" "nm ! lead_of nm limit j = nm ! j" "rank_on_host nm (lead_of nm limit j) = ?k"
    unfolding L by (rule member_rank [OF k])+
  have "lead_of nm limit j \<in> set (host_members nm (nm ! j) (Suc j))"
    unfolding lead_of_def using div_mult_le_self [of "rank_on_host nm j" limit]
    by (intro nth_mem) (simp add: host_members_Suc rank_on_host_def less_Suc_eq_le)
  then show "lead_of nm limit j \<le> j" by (auto simp: host_members_def)
  show "lead_of nm limit (lead_of nm limit j) = lead_of nm limit j"
    unfolding lead_of_nth [OF l(1)] l(2,3) using lim by (simp add: L)
qed

lemma same_part:
  assumes "i < length nm" "j < length nm" and lim: "0 < limit"
  shows "lead_of nm limit i = lead_of nm limit j \<longleftrightarrow> nm ! i = nm ! j \<and> rank_on_host nm i div limit = rank_on_host nm j div limit"
proof
  assume e: "lead_of nm limit i = lead_of nm limit j"
  then have "nm ! i = nm ! j" using lead_of_facts(2) assms by metis
  moreover have "rank_on_host nm i div limit * limit = rank_on_host nm j div limit * limit" using lead_of_facts(3) assms e by metis
  ultimately show "nm ! i = nm ! j \<and> rank_on_host nm i div limit = rank_on_host nm j div limit" using lim by simp
next
  assume "nm ! i = nm ! j \<and> rank_on_host nm i div limit = rank_on_host nm j div limit"
  then show "lead_of nm limit i = lead_of nm limit j" using assms by (simp add: lead_of_nth)
qed

lemma lead_not_below_host:
  assumes "good_map nm" "j < length nm" "0 < limit"
  shows "\<not> lead_of nm limit j < nm ! j"
proof -
  have "nm ! lead_of nm limit j \<le> lead_of nm limit j" using assms(1) lead_of_facts(1) [OF assms(2,3)] by (simp add: good_map_def)
  then show ?thesis using lead_of_facts(2) [OF assms(2,3)] by simp
qed

lemma filter_between: "filter (\<lambda>k. a \<le> k \<and> k < b) [0..<n] = [a..<min n b]"
  by (induction n) (auto simp: min_def not_le less_Suc_eq_le)

lemma part_members:
  assumes me: "me < length nm" and lim: "0 < limit"
  defines "M \<equiv> host_members nm (nm ! me) (length nm)" and "q \<equiv> rank_on_host nm me div limit"
  shows "filter (\<lambda>j. lead_of nm limit j = lead_of nm limit me) [0..<length nm] = take limit (drop (q * limit) M)"
proof -
  have "filter (\<lambda>j. lead_of nm limit j = lead_of nm limit me) [0..<length nm] = filter (\<lambda>j. rank_on_host nm j div limit = q) M"
    unfolding M_def host_members_def filter_filter q_def using same_part [OF _ me lim] by (intro filter_cong) auto
  also have "\<dots> = filter (\<lambda>j. rank_on_host nm j div limit = q) (map (\<lambda>k. M ! k) [0..<length M])" by (simp add: map_nth)
  also have "\<dots> = map (\<lambda>k. M ! k) (filter (\<lambda>k. rank_on_host nm (M ! k) div limit = q) [0..<length M])" by (simp add: filter_map o_def)
  also have "filter (\<lambda>k. rank_on_host nm (M ! k) div limit = q) [0..<length M] = filter (\<lambda>k. q * limit \<le> k \<and> k < q * limit + limit) [0..<length M]"
  proof (rule filter_cong [OF refl])
    fix k
    assume "k \<in> set [0..<length M]"
    then have "rank_on_host nm (M ! k) = k" unfolding M_def by (intro member_rank(3)) simp
    moreover have "k div limit = q \<longleftrightarrow> q * limit \<le> k \<and> k < q * limit + limit"
      using lim by (metis add.commute div_nat_eqI dividend_less_div_times div_mult_le_self mult.commute mult_Suc)
    ultimately show "rank_on_host nm (M ! k) div limit = q \<longleftrightarrow> q * limit \<le> k \<and> k < q * limit + limit" by simp
  qed
  also have "map (\<lambda>k. M ! k) (filter (\<lambda>k. q * limit \<le> k \<and> k < q * limit + limit) [0..<length M]) = take limit (drop (q * limit) M)"
    proof (rule nth_equalityI)
    show len: "length (map (\<lambda>k. M ! k) (filter (\<lambda>k. q * limit \<le> k \<and> k < q * limit + limit) [0..<length M])) = length (take limit (drop (q * limit) M))"
      unfolding filter_between by simp
    fix i
    assume "i < length (map (\<lambda>k. M ! k) (filter (\<lambda>k. q * limit \<le> k \<and> k < q * limit + limit) [0..<length M]))"
    then have "i < length M - q * limit" "i < limit" unfolding len by simp_all
    then show "map (\<lambda>k. M ! k) (filter (\<lambda>k. q * limit \<le> k \<and> k < q * limit + limit) [0..<length M]) ! i = take limit (drop (q * limit) M) ! i"
      unfolding filter_between by simp
  qed
  finally show ?thesis .
qed

section \<open>The second pass\<close>

lemma members_pass_all:
  assumes s: "length s = length nm" "\<forall>j<length nm. h_lead (s ! j) = nm ! j" and f: "final < length nm" "nm ! final = l"
  shows "i \<le> length nm \<Longrightarrow>
    members_pass s l final (length (host_members nm l (length nm))) i (length (host_members nm l i)) (host_members nm l i)
      (if final < i then Some (rank_on_host nm final) else None) =
    Some (host_members nm l (length nm), Some (rank_on_host nm final))"
proof (induction "length nm - i" arbitrary: i rule: less_induct)
  case less
  let ?M = "host_members nm l (length nm)" and ?m = "host_members nm l i"
  have split: "?M = ?m @ filter (\<lambda>k. nm ! k = l) [i..<length nm]"
    unfolding host_members_def by (rule filter_upt_split) (rule less.prems)
  show ?case
  proof (cases "length ?m < length ?M")
    case True
    then have i: "i < length nm" using less.prems by (cases "i = length nm") auto
    have IH: "members_pass s l final (length ?M) (Suc i) (length (host_members nm l (Suc i))) (host_members nm l (Suc i))
        (if final < Suc i then Some (rank_on_host nm final) else None) = Some (?M, Some (rank_on_host nm final))"
      using less.hyps [of "Suc i"] i by simp
    show ?thesis
    proof (cases "nm ! i = l")
      case eq: True
      have "(if i = final then Some (length ?m) else if final < i then Some (rank_on_host nm final) else None) =
          (if final < Suc i then Some (rank_on_host nm final) else None)"
        using f(2) by (auto simp: rank_on_host_def)
      then show ?thesis using True i eq s IH by (subst members_pass.simps) (simp add: host_members_Suc)
    next
      case False
      then have "final \<noteq> i" using f(2) by auto
      then have "(if final < Suc i then Some (rank_on_host nm final) else None) = (if final < i then Some (rank_on_host nm final) else None)"
        by (simp add: less_Suc_eq)
      then show ?thesis using True i False s IH by (subst members_pass.simps) (simp add: host_members_Suc)
    qed
  next
    case False
    then have m: "?m = ?M" using split by simp
    have "final \<in> set ?M" using f by (simp add: host_members_def)
    then have "final < i" unfolding m [symmetric] by (auto simp: host_members_def)
    then show ?thesis using False m by (subst members_pass.simps) simp
  qed
qed

section \<open>The result\<close>

lemma take_length_take: "take (length (take n xs)) xs = take n xs"
  by (cases "n \<le> length xs") simp_all

lemma set_nth_image: "length xs = n \<Longrightarrow> (\<And>j. j < n \<Longrightarrow> xs ! j = f j) \<Longrightarrow> set xs = f ` {..<n}"
  by (force simp: set_conv_nth image_iff)

definition parse_result :: "nat list \<Rightarrow> nat \<Rightarrow> nat \<Rightarrow> parse_state \<Rightarrow> bool" where
  "parse_result nm limit me st \<longleftrightarrow>
     length (nodemap st) = length nm \<and> length (info_host st) = length nm \<and> length (info_supernode st) = length nm \<and>
     (\<forall>j<length nm. nodemap st ! j = lead_of nm limit j \<and> info_host st ! j = hosts_before nm (nm ! j) \<and>
        info_supernode st ! j = parts_before nm limit (lead_of nm limit j)) \<and>
     myhost st = \<lparr>nodes_pos = Some 0, node_count = length (host_members nm (nm ! me) (length nm)), node_rank = rank_on_host nm me,
        grp_count = hosts_before nm (length nm), grp_rank = info_host st ! me\<rparr> \<and>
     mysupernode st = \<lparr>nodes_pos = Some (rank_on_host nm me div limit * limit),
        node_count = length (take limit (drop (rank_on_host nm me div limit * limit) (host_members nm (nm ! me) (length nm)))),
        node_rank = rank_on_host nm me mod limit, grp_count = parts_before nm limit (length nm), grp_rank = info_supernode st ! me\<rparr>"

text \<open>The count of my part: the last part of a host may be short.\<close>

lemma part_count:
  fixes M :: "nat list"
  assumes lim: "0 < limit" and k: "k < W" and W: "length M = W"
  shows "length (take limit (drop (k div limit * limit) M)) = (if k div limit = (W - 1) div limit then (W - 1) mod limit + 1 else limit)"
proof (cases "k div limit = (W - 1) div limit")
  case True
  have "(W - 1) div limit * limit + (W - 1) mod limit = W - 1" by simp
  then have "W - (W - 1) div limit * limit = (W - 1) mod limit + 1" using k by linarith
  moreover have "(W - 1) mod limit < limit" using lim by simp
  ultimately show ?thesis using True W by (simp only: length_take length_drop if_True) simp
next
  case False
  have "k div limit \<le> (W - 1) div limit" using k by (intro div_le_mono) simp
  then have "Suc (k div limit) * limit \<le> (W - 1) div limit * limit" using False by (intro mult_le_mono1) simp
  moreover have "Suc (k div limit) * limit = k div limit * limit + limit" by simp
  ultimately have "k div limit * limit + limit \<le> W - 1" using div_mult_le_self [of "W - 1" limit] by linarith
  then show ?thesis using False k W by (simp add: min_def) linarith
qed

lemma parse_correct:
  assumes g: "good_map nm" and me: "me < length nm" and lim: "0 < limit"
  shows "\<exists>st. gasneti_nodemapParse limit me nm = Some (st, host_members nm (nm ! me) (length nm)) \<and> parse_result nm limit me st"
proof -
  define st where "st = fold (parse_step limit me) [0..<length nm] (parse_start nm)"
  let ?l = "nm ! me" and ?M = "host_members nm (nm ! me) (length nm)" and ?r = "rank_on_host nm me"
  let ?W = "length ?M" and ?pos = "rank_on_host nm me div limit * limit"
  have I: "pass_inv nm limit me (length nm) st" unfolding st_def by (rule pass_all [OF g lim])
  have l: "?l < length nm" "nm ! ?l = ?l" "?l \<le> me" using g me by (auto simp: good_map_def)
  have r: "?r < ?W" by (rule rank_member(2) [OF me])
  have slot: "slot_inv nm limit (length nm) ?l (slots st ! ?l)" using I l by (simp add: pass_inv_def)
  then have w: "width (slots st ! ?l) = ?W" by (simp add: slot_inv_def)
  then have sl: "sn_lead (slots st ! ?l) = ?M ! ((?W - 1) div limit * limit)"
    using slot r unfolding slot_inv_def by (simp only: w)
  have ent: "\<forall>j<length nm. entry_inv nm limit st j" using I by (simp add: pass_inv_def)
  have final: "nodemap st ! me = lead_of nm limit me" using ent me by (simp add: entry_inv_def)
  note L = lead_of_facts [OF me lim]
  have last_part: "lead_of nm limit me = ?M ! ((?W - 1) div limit * limit) \<longleftrightarrow> ?r div limit = (?W - 1) div limit"
  proof -
    have "?pos < ?W" "(?W - 1) div limit * limit < ?W"
      using div_mult_le_self [of ?r limit] div_mult_le_self [of "?W - 1" limit] r by linarith+
    moreover have "distinct ?M" by (simp add: host_members_def)
    ultimately show ?thesis unfolding lead_of_nth [OF me] using lim by (simp add: nth_eq_iff_index_eq)
  qed
  have count: "(if nodemap st ! me = sn_lead (slots st ! ?l) then (width (slots st ! ?l) - 1) mod limit + 1 else limit) = length (take limit (drop ?pos ?M))"
    unfolding final sl w last_part using part_count [OF lim r refl] by simp
  have start: "host_members nm ?l ?l = []" using first_is_leader [OF g l(1)] l(2) by simp
  have pass: "members_pass (slots st) ?l (lead_of nm limit me) ?W ?l 0 [] None = Some (?M, Some ?pos)"
    using members_pass_all [of "slots st" nm "lead_of nm limit me" ?l ?l] I ent L(1-3) start l(1)
    by (simp add: pass_inv_def entry_inv_def not_less [symmetric] lead_not_below_host [OF g me lim])
  have guard: "\<not> (nm = [] \<or> nm ! 0 \<noteq> 0 \<or> me < ?l)" using g l(3) by (auto simp: good_map_def)
  have small: "\<not> ?W < length (take limit (drop ?pos ?M))" by (simp only: length_take length_drop)
  let ?out = "st\<lparr>myhost := (myhost st)\<lparr>node_count := ?W, grp_rank := info_host st ! me, nodes_pos := Some 0\<rparr>,
      mysupernode := (mysupernode st)\<lparr>node_count := length (take limit (drop ?pos ?M)), grp_rank := info_supernode st ! me, nodes_pos := Some ?pos\<rparr>\<rparr>"
  have "gasneti_nodemapParse limit me nm = Some (?out, ?M)"
    unfolding gasneti_nodemapParse_def Let_def st_def [symmetric] using guard small pass by (simp add: count [unfolded final] final w)
  moreover have "parse_result nm limit me ?out"
    using I me ent unfolding parse_result_def pass_inv_def entry_inv_def by simp
  ultimately show ?thesis by blast
qed

text \<open>
  C39. The group of a process. For a sound node map the tables are built without a failed assertion.
  The array of local nodes lists the ranks of my host in ascending order, and I am in it at my rank;
  my supernode is a run of that array, it has at most \<open>limit\<close> members, exactly those with the same
  entry in the new node map, and I am in it at my rank.
\<close>

theorem nodemap_groups:
  assumes g: "good_map nm" and me: "me < length nm" and lim: "0 < limit"
  shows "\<exists>st nodes pos. gasneti_nodemapParse limit me nm = Some (st, nodes) \<and> nodes_pos (mysupernode st) = Some pos \<and>
    nodes = filter (\<lambda>j. nm ! j = nm ! me) [0..<length nm] \<and>
    node_count (myhost st) = length nodes \<and> nodes ! node_rank (myhost st) = me \<and>
    take (node_count (mysupernode st)) (drop pos nodes) = filter (\<lambda>j. nodemap st ! j = nodemap st ! me) [0..<length nm] \<and>
    node_count (mysupernode st) = length (filter (\<lambda>j. nodemap st ! j = nodemap st ! me) [0..<length nm]) \<and>
    node_count (mysupernode st) \<le> limit \<and> nodes ! (pos + node_rank (mysupernode st)) = me"
proof -
  let ?M = "host_members nm (nm ! me) (length nm)" and ?pos = "rank_on_host nm me div limit * limit"
  obtain st where st: "gasneti_nodemapParse limit me nm = Some (st, ?M)" "parse_result nm limit me st"
    using parse_correct [OF g me lim] by blast
  have map: "\<forall>j<length nm. nodemap st ! j = lead_of nm limit j" using st(2) by (simp add: parse_result_def)
  have "filter (\<lambda>j. nodemap st ! j = nodemap st ! me) [0..<length nm] = filter (\<lambda>j. lead_of nm limit j = lead_of nm limit me) [0..<length nm]"
    using map me by (intro filter_cong) auto
  then have part: "filter (\<lambda>j. nodemap st ! j = nodemap st ! me) [0..<length nm] = take limit (drop ?pos ?M)"
    using part_members [OF me lim] by simp
  have cnt: "node_count (mysupernode st) = length (take limit (drop ?pos ?M))" "nodes_pos (mysupernode st) = Some ?pos"
    "node_rank (mysupernode st) = rank_on_host nm me mod limit" "node_count (myhost st) = length ?M" "node_rank (myhost st) = rank_on_host nm me"
    using st(2) by (simp_all add: parse_result_def)
  have "?pos + rank_on_host nm me mod limit = rank_on_host nm me" by simp
  then have "?M ! (?pos + node_rank (mysupernode st)) = me" unfolding cnt(3) using rank_member(1) [OF me] by simp
  moreover have "take (node_count (mysupernode st)) (drop ?pos ?M) = take limit (drop ?pos ?M)" unfolding cnt(1) by (rule take_length_take)
  moreover have "node_count (mysupernode st) \<le> limit" unfolding cnt(1) by simp
  moreover have "?M ! node_rank (myhost st) = me" unfolding cnt(5) by (rule rank_member(1) [OF me])
  moreover have "node_count (mysupernode st) = length (filter (\<lambda>j. nodemap st ! j = nodemap st ! me) [0..<length nm])"
    unfolding part by (rule cnt(1))
  moreover have "?M = filter (\<lambda>j. nm ! j = nm ! me) [0..<length nm]" by (rule host_members_def)
  ultimately show ?thesis using st(1) cnt(2,4) part by metis
qed

text \<open>
  C40. The tables that all processes share. The new node map refines the old one: its entries are
  the lowest ranks of their supernodes, and never cross hosts. Hosts and supernodes are numbered from
  zero without a gap, two processes have the same number exactly when they are in the same group,
  and my own numbers are those of the table.
\<close>

theorem nodemap_tables:
  assumes g: "good_map nm" and me: "me < length nm" and lim: "0 < limit"
    and r: "gasneti_nodemapParse limit me nm = Some (st, nodes)"
  shows "(\<forall>i<length nm. nodemap st ! i \<le> i \<and> nm ! (nodemap st ! i) = nm ! i \<and> nodemap st ! (nodemap st ! i) = nodemap st ! i) \<and>
    (\<forall>i<length nm. \<forall>j<length nm. (info_supernode st ! i = info_supernode st ! j \<longleftrightarrow> nodemap st ! i = nodemap st ! j) \<and>
       (info_host st ! i = info_host st ! j \<longleftrightarrow> nm ! i = nm ! j)) \<and>
    set (info_supernode st) = {..<grp_count (mysupernode st)} \<and> set (info_host st) = {..<grp_count (myhost st)} \<and>
    grp_rank (mysupernode st) = info_supernode st ! me \<and> grp_rank (myhost st) = info_host st ! me"
proof -
  have R: "parse_result nm limit me st" using parse_correct [OF g me lim] r by auto
  let ?n = "length nm"
  have map: "nodemap st ! j = lead_of nm limit j" "info_host st ! j = hosts_before nm (nm ! j)"
    "info_supernode st ! j = parts_before nm limit (lead_of nm limit j)" if "j < ?n" for j
    using R that by (simp_all add: parse_result_def)
  have len: "length (info_host st) = ?n" "length (info_supernode st) = ?n" using R by (simp_all add: parse_result_def)
  have lead: "starts_part nm limit (lead_of nm limit j)" "lead_of nm limit j < ?n" if "j < ?n" for j
    using lead_of_facts(1,3) [OF that lim] by simp_all
  have own: "lead_of nm limit j = j" if "j < ?n" "starts_part nm limit j" for j
  proof -
    have "rank_on_host nm j div limit * limit = rank_on_host nm j" using that(2) by (simp add: minus_mod_eq_div_mult [symmetric])
    then show ?thesis using lead_of_nth [OF that(1), of limit] rank_member(1) [OF that(1)] by simp
  qed
  have root: "nm ! (nm ! j) = nm ! j" "nm ! j < ?n" if "j < ?n" for j using g that by (auto simp: good_map_def)
  have numbers: "(info_supernode st ! i = info_supernode st ! j \<longleftrightarrow> nodemap st ! i = nodemap st ! j) \<and>
       (info_host st ! i = info_host st ! j \<longleftrightarrow> nm ! i = nm ! j)" if "i < ?n" "j < ?n" for i j
  proof
    have "length (filter P [0..<a]) = length (filter P [0..<b]) \<longleftrightarrow> a = b" if "P a" "P b" for P a b
      using filter_upt_mono [of a b P] filter_upt_mono [of b a P] that by (cases a b rule: linorder_cases) auto
    from this [of "starts_part nm limit"] this [of "\<lambda>k. nm ! k = k"]
    show "info_supernode st ! i = info_supernode st ! j \<longleftrightarrow> nodemap st ! i = nodemap st ! j"
      "info_host st ! i = info_host st ! j \<longleftrightarrow> nm ! i = nm ! j"
      using that lead root by (simp_all add: map parts_before_def hosts_before_def)
  qed
  have onto: "(\<lambda>j. length (filter P [0..<f j])) ` {..<?n} = {..<length (filter P [0..<?n])}"
    if f: "\<And>j. j < ?n \<Longrightarrow> P (f j) \<and> f j < ?n" "\<And>j. j < ?n \<Longrightarrow> P j \<Longrightarrow> f j = j" for P f
  proof (intro equalityI subsetI)
    fix x
    assume "x \<in> (\<lambda>j. length (filter P [0..<f j])) ` {..<?n}"
    then show "x \<in> {..<length (filter P [0..<?n])}" using f(1) filter_upt_nth(2) by auto
  next
    fix x
    assume "x \<in> {..<length (filter P [0..<?n])}"
    then have x: "x < length (filter P [0..<?n])" by simp
    let ?j = "filter P [0..<?n] ! x"
    have "?j \<in> set (filter P [0..<?n])" using x by (rule nth_mem)
    then have "?j < ?n" "P ?j" by auto
    then show "x \<in> (\<lambda>j. length (filter P [0..<f j])) ` {..<?n}" using filter_upt_index [OF x] f(2) by (intro image_eqI [of _ _ ?j]) auto
  qed
  have "set (info_supernode st) = (\<lambda>j. parts_before nm limit (lead_of nm limit j)) ` {..<?n}"
    by (rule set_nth_image [OF len(2) map(3)])
  also have "\<dots> = {..<parts_before nm limit ?n}" unfolding parts_before_def by (rule onto) (use lead own in auto)
  finally have sn: "set (info_supernode st) = {..<parts_before nm limit ?n}" .
  have "set (info_host st) = (\<lambda>j. hosts_before nm (nm ! j)) ` {..<?n}"
    by (rule set_nth_image [OF len(1) map(2)])
  also have "\<dots> = {..<hosts_before nm ?n}" unfolding hosts_before_def by (rule onto) (use root in auto)
  finally have h: "set (info_host st) = {..<hosts_before nm ?n}" .
  have "\<forall>i<?n. nodemap st ! i \<le> i \<and> nm ! (nodemap st ! i) = nm ! i \<and> nodemap st ! (nodemap st ! i) = nodemap st ! i"
    using lead_of_facts [OF _ lim] by (simp add: map)
  then show ?thesis using numbers sn h R by (simp add: parse_result_def)
qed

section \<open>From identifiers to groups\<close>

lemma exact_good_map:
  assumes "ids_ok ids sz stride (length nm)"
  shows "good_map (gasneti_nodemap_helper_qsort ids sz stride nm)"
  unfolding good_map_def
proof (intro conjI allI impI)
  let ?m = "gasneti_nodemap_helper_qsort ids sz stride nm"
  have n: "length ?m = length nm" by (rule qsort_length)
  then show "?m \<noteq> []" using assms by (auto simp: ids_ok_def)
  fix j
  assume "j < length ?m"
  then have j: "j < length nm" by (simp add: n)
  have r: "is_root ids sz stride (length nm) (?m ! j) j" by (rule sorted_roots [OF assms j])
  then show "?m ! j \<le> j" using j by (simp add: is_root_def)
  have "?m ! j < length nm" using r by (simp add: is_root_def)
  from sorted_roots [OF assms this] show "?m ! (?m ! j) = ?m ! j"
    using r by (intro is_root_unique [of ids sz stride "length nm" _ "?m ! j"]) (auto simp: is_root_def)
qed

lemma linear_good_map:
  assumes "ids_ok ids sz stride (length nm)"
  shows "good_map (gasneti_nodemap_helper_linear ids sz stride nm)"
proof -
  have "length (gasneti_nodemap_helper_linear ids sz stride nm) = length nm" by (rule linear_length [OF assms])
  then show ?thesis using linear_safe [OF assms] assms by (auto simp: good_map_def ids_ok_def)
qed

text \<open>
  With either helper the tables can be built; with the exact one the processes of my host are those
  with my identifier.
\<close>

theorem nodemap_neighbors:
  assumes ok: "ids_ok ids sz stride (length nm)" and me: "me < length nm" and lim: "0 < limit"
  shows "\<exists>m st nodes. gasneti_nodemap_helper nodemap_exact ids sz stride nm = Some m \<and> gasneti_nodemapParse limit me m = Some (st, nodes) \<and>
    (nodemap_exact \<longrightarrow> nodes = filter (\<lambda>j. node_id ids sz stride j = node_id ids sz stride me) [0..<length nm])"
proof -
  let ?m = "if nodemap_exact then gasneti_nodemap_helper_qsort ids sz stride nm else gasneti_nodemap_helper_linear ids sz stride nm"
  have h: "gasneti_nodemap_helper nodemap_exact ids sz stride nm = Some ?m"
    using ok by (simp add: gasneti_nodemap_helper_def ids_ok_def)
  have g: "good_map ?m" using exact_good_map [OF ok] linear_good_map [OF ok] by simp
  have n: "length ?m = length nm" using linear_length [OF ok] by (simp add: qsort_length)
  then obtain st where st: "gasneti_nodemapParse limit me ?m = Some (st, host_members ?m (?m ! me) (length ?m))"
    using parse_correct [OF g _ lim, of me] me by auto
  have "host_members ?m (?m ! me) (length ?m) = filter (\<lambda>j. node_id ids sz stride j = node_id ids sz stride me) [0..<length nm]" if nodemap_exact
    unfolding host_members_def n
  proof (rule filter_cong [OF refl])
    fix j
    assume "j \<in> set [0..<length nm]"
    then have j: "j < length nm" by simp
    have "is_root ids sz stride (length nm) (?m ! j) j" "is_root ids sz stride (length nm) (?m ! me) me"
      using sorted_roots [OF ok] j me that by simp_all
    then show "?m ! j = ?m ! me \<longleftrightarrow> node_id ids sz stride j = node_id ids sz stride me"
      using is_root_unique [of ids sz stride "length nm"] by (auto simp: is_root_def)
  qed
  then show ?thesis using h st by blast
qed

text \<open>
  A negative limit in the environment is a fatal error: the comment in the code says that it means
  no limit, but the number is assigned to an unsigned rank before it is compared with zero.
\<close>

theorem supernode_limit_negative:
  assumes "- (2 ^ 31) \<le> x" and "x < 0"
  shows "supernode_limit False nodes x = None"
proof -
  have "(word_of_int x :: u32) \<noteq> 0" and u: "uint (word_of_int x :: u32) = x + 2 ^ 32"
  proof -
    have "x mod 2 ^ 32 = x + 2 ^ 32" using assms by (intro int_mod_pos_eq [of _ _ "- 1"]) simp_all
    then show u: "uint (word_of_int x :: u32) = x + 2 ^ 32" by (simp add: uint_word_of_int)
    then show "(word_of_int x :: u32) \<noteq> 0" using assms by auto
  qed
  moreover have "unat (word_of_int x :: u32) = nat (x + 2 ^ 32)" using u by (simp add: unat_eq_nat_uint)
  ultimately show ?thesis using assms by (simp add: supernode_limit_def Let_def GASNETI_PSHM_MAX_NODES_def)
qed

lemma supernode_limit_positive: "0 < nodes \<Longrightarrow> supernode_limit smp nodes x = Some limit \<Longrightarrow> 0 < limit"
  by (auto simp: supernode_limit_def Let_def GASNETI_PSHM_MAX_NODES_def unat_gt_0 split: if_splits)

section \<open>Witnesses\<close>

text \<open>Six processes on two hosts, with identifiers of one byte, two bytes apart.\<close>

lemma demo_map_good: "good_map demo_map"
  by (simp add: good_map_def demo_map_def less_Suc_eq numeral_eq_Suc)

lemma nodemap_groups_witness:
  "\<exists>st nodes. gasneti_nodemapParse 2 3 demo_map = Some (st, nodes) \<and> nodes = [0, 2, 3, 5] \<and> node_count (mysupernode st) \<le> 2"
proof -
  have "filter (\<lambda>j. demo_map ! j = demo_map ! 3) [0..<length demo_map] = [0, 2, 3, 5]" by code_simp
  then show ?thesis using nodemap_groups [OF demo_map_good, of 3 2] by (auto simp: demo_map_def)
qed

lemma nodemap_tables_witness:
  "\<exists>st nodes. gasneti_nodemapParse 2 3 demo_map = Some (st, nodes) \<and> set (info_supernode st) = {..<grp_count (mysupernode st)}"
proof -
  have me: "3 < length demo_map" by (simp add: demo_map_def)
  obtain st nodes where r: "gasneti_nodemapParse 2 3 demo_map = Some (st, nodes)"
    using parse_correct [OF demo_map_good me, of 2] by auto
  then show ?thesis using nodemap_tables [OF demo_map_good me _ r] by simp
qed

end
