(* ===== verification/Spec2Isabelle.thy ===== *)
theory Spec2Isabelle
  imports Amd_Properties Amc_Properties Rmd_Properties Pshm_Properties Hashtable Firehose_Hash
    Tree_Cache Scratch_Properties Dissemination Vector_Properties Event_Properties Am_Table
    Zero_Count Node_Parse
begin

text \<open>
  A verification library of the protocol core of GASNet-EX: the barriers and the data structures
  of the collectives under \<^verbatim>\<open>src/extended-ref\<close>, the vector transfers, the events of
  non-blocking operations, the tables of message handlers, the node map, the counting of zero bytes and the hash table of firehose. Every definition is a translation of C code into HOL; names follow the
  code.

  \<^bold>\<open>The parts and how they interact.\<close> A team (\<open>gasnete_coll_team_t\<close>) holds the state of its
  barrier, its peer lists, its caches of tree geometries and dissemination orders, and its scratch
  allocator; teams are found by number through a hash table. A collective asks the caches for a
  tree or an order, asks the scratch allocator for space at its peers, and moves data along the
  tree. Barriers run beside that. Vector transfers are independent of teams: they
  turn two lists of memory ranges into packets and remote accesses. Firehose (registration of
  memory) finds its records by its own hash table. Non-blocking operations and their events belong
  to threads; any thread or handler may finish and test them.

  \<^bold>\<open>Theories and code.\<close>
  \<^item> \<open>Gasnet_Prelude\<close>: machine types, C truth of bit tests, loops that double, distances modulo \<open>N\<close>.
  \<^item> \<open>Barrier_Match\<close>, \<open>Team_Base\<close>: the names of a barrier (flags and value), their matching rule and the
    return codes, as every barrier of \<^verbatim>\<open>gasnet_extended_refbarrier.c\<close> writes them; the fields
    of a team that barriers use, the split-phase state and the peer lists.
  \<^item> \<open>Barrier_Spec\<close>, \<open>Barrier_History\<close>: the contract of a split-phase named barrier as an abstract
    machine, the locale \<open>split_barrier\<close> of its implementations, the locale \<open>settling\<close> of systems whose
    internal steps run out, and the history (how often each rank notified, with which name) that
    the systems keep beside the state of the code.
  \<^item> \<open>Amd_Barrier\<close>, \<open>Amc_Barrier\<close>, \<open>Rmd_Barrier\<close>, \<open>Pshm_Barrier\<close>: the operations of the four barriers, one
    definition per function (notify, kick, request handlers, wait, try, result, init). For each \<open>X\<close>,
    \<open>X_System\<close> puts all ranks and the network (or the shared memory) together as a step relation,
    \<open>X_Safety\<close> (with \<open>Amd_Progress\<close> and \<open>Pshm_Facts\<close>) proves its invariant, \<open>X_Refinement\<close> that it
    implements the abstract barrier, and \<open>X_Properties\<close> what callers rely on: synchronisation,
    the code that a wait returns, no failed assertion, completion.
  \<^item> \<open>Dictionary\<close>, \<open>Hashtable\<close>, \<open>Firehose_Hash\<close>: the contract of a dictionary as a locale; the hash table
    of \<^verbatim>\<open>coll/gasnet_hashtable.c\<close> and the intrusive one of
    \<^verbatim>\<open>other/firehose/firehose_hash.c\<close>, both interpretations of it.
  \<^item> \<open>Trees\<close>, \<open>Tree_Geometry\<close>: the tree builders of \<^verbatim>\<open>coll/gasnet_trees.c\<close> and the local view
    of a rank; \<open>Linked_List\<close>, \<open>Tree_Cache\<close>: doubly linked lists in memory and the cache of geometries.
  \<^item> \<open>Dissemination\<close>: dissemination orders and their cache, from the same file.
  \<^item> \<open>Scratch\<close>, \<open>Scratch_Inv\<close>, \<open>Scratch_Safety\<close>, \<open>Scratch_Properties\<close>: the scratch allocator of
    \<^verbatim>\<open>coll/gasnet_scratch.c\<close>, one rank as a step relation, its invariant and promises.
  \<^item> \<open>Vlide\<close>, \<open>Memvec\<close>, \<open>Vector_Indiv\<close>: the address encoding of \<^verbatim>\<open>vis/gasnet_vlide.h\<close>, lists of
    memory ranges and the simple algorithms of \<^verbatim>\<open>vis/gasnet_vector.c\<close>; a memory is a function from
    64-bit addresses to bytes. \<open>Vector_Pipeline\<close>: the pass of the incremental pipeline
    (\<open>gasneti_AMpipeline_incremental\<close>, each part of its loop a definition) and its handlers.
    \<open>Vector_Inv\<close>, \<open>Vector_Pass\<close>, \<open>Vector_Step\<close>, \<open>Vector_Round\<close>: what its packets mean and its invariant;
    \<open>Vector_Properties\<close>: every algorithm is the copy \<open>vec_copy\<close>, in any order of delivery, and the pass
    fails no assertion.
  \<^item> \<open>Event_Ops\<close>, \<open>Event_System\<close>: the objects behind non-blocking operations, their event bytes,
    counters and lists (\<^verbatim>\<open>gasnet_event.c\<close>, \<^verbatim>\<open>gasnet_event_internal.h\<close>), and all
    threads and handlers together as a system of atomic steps. \<open>Event_Inv\<close>, \<open>Event_Lists\<close>, \<open>Event_Steps\<close>: its
    invariant; \<open>Event_Runs\<close>: the functions as sequences of steps, and concrete runs;
    \<open>Event_Properties\<close>: no assertion fails, tests are exact, objects have one user.
  \<^item> \<open>Am_Table\<close>: the tables of message handlers of \<^verbatim>\<open>gasnet_am.c\<close> and their registration.
  \<^item> \<open>Byte_Words\<close>, \<open>Zero_Bits\<close>, \<open>Zero_Count\<close>: words as bytes and a partly mapped memory; the word-wise counting and
    copying of zero bytes of \<^verbatim>\<open>gasnet_tools.c\<close>, equal to the loops over bytes.
  \<^item> \<open>Node_Map\<close>, \<open>Node_Parse\<close>: which processes share a host and shared memory (\<^verbatim>\<open>gasnet_internal.c\<close>): the
    map built by sorting or in one pass, and the groups, ranks and numbers derived from it.
  \<^item> This theory: properties that span components.

  \<^bold>\<open>State and effects.\<close> A struct is a record, updated states are returned, a failed assertion or fatal
  error is \<open>Inl\<close> or \<open>None\<close>, sent messages are part of the result of an operation. Machine words keep
  their width where the code computes with their bits (flags, values, phases, packed words, hash
  keys, signal counters, encoded addresses); ranks, counts and sizes are natural numbers.

  \<^bold>\<open>Bounds and termination.\<close> No fuel is used. Loops are structural recursions or recursions
  with a termination proof, but for the loops that may run forever: those are partial functions
  into an option (search in a linked list, number of phases, stripping of zeros), and that they
  return is proved for the inputs that the code gives them. Properties on reachable
  states hold for every number of ranks; witnesses run schedules of two or four ranks.

  \<^bold>\<open>Assumptions.\<close> Events are modelled with debugging assertions on; less than \<open>2^31 - 1\<close> operations of a
  category are outstanding, and no handler rests between the two steps that finish an operation while
  \<open>2^32\<close> operations start. Networks deliver each message once, in any order. The vector pipeline is
  proved for remote addresses below \<open>2^55\<close>, requests of at least 11 bytes and gets below \<open>2^31\<close> bytes; its
  replies are unpacked after the pass, with the saved ranges it left. Puts of the RDMA barrier may be
  written in pieces, in any order and repeatedly, but not after the barrier two later has begun (the
  code's own comment). Locks and memory fences are not modelled: an operation that the code runs
  under a lock is one step, and the shared-memory barrier reads the words of its children at
  different times. The build is the one without debugging output, on 64-bit little-endian machines.

  \<^bold>\<open>Not modelled.\<close> Conduits, transports and spawners drive libraries outside of this repository.
  The rest of the tools, tracing, memory mapping and diagnostics code is an interface to the operating system. The algorithms of
  the collectives, the autotuner, strided and indexed transfers, remote atomics and the firehose managers are not modelled yet;
  the hierarchical barrier (shared memory below another barrier) and the tracing of barriers are left
  out of the barrier theories.
\<close>

section \<open>Across the barriers\<close>

text \<open>
  C22. The four barriers are interchangeable: if the ranks gave the same names, a completed wait with
  the same arguments returns the same code whether the team uses the dissemination barrier over
  active messages, the centralised one, the one over puts or the one in shared memory.
\<close>

theorem barriers_interchangeable:
  assumes "1 < N" and "r < N" and "\<And>q. q < N \<Longrightarrow> w q = outcome_of (ballots a (notified a r) q)"
    and "\<And>q. q < N \<Longrightarrow> w q = outcome_of (cballots c (cnotified c r) q)"
    and "\<And>q. q < N \<Longrightarrow> w q = outcome_of (ballots m (notified m r) q)"
    and "\<And>q. q < N \<Longrightarrow> w q = outcome_of (ballots p (notified p r) q)"
    and "reach (amd_init N) (amd_step N) a" and "waiting a r = Some (flags, idv)" and "amd_complete (node a r)"
    and "reach (amc_init N) (amc_step N) c" and "cwaiting c r = Some (flags, idv)" and "amc_complete (cnode c r)"
    and "reach (rmd_init N) (rmd_step N) m" and "waiting m r = Some (flags, idv)" and "rmd_complete (rnode m r)"
    and "reach (pshm_init env N) (pshm_step env N) p" and "waiting p r = Some (flags, idv)"
    and "pshm_done (barrier_data (pteam p r)) (shm p)"
  shows "\<exists>rc. fst (gasnete_amdbarrier_wait_end (node a r) idv flags) = rc \<and>
     fst (gasnete_amcbarrier_wait_end (cnode c r) idv flags) = rc \<and>
     gasnete_rmdbarrier_wait_end (rnode m r) idv flags = rc \<and>
     gasnete_pshmbarrier_wait_end idv flags (shm p) = rc_code rc"
proof -
  let ?rc = "outcome_verdict (consensus w N) (flags, idv)"
  have "consensus w N = consensus (\<lambda>q. outcome_of (ballots a (notified a r) q)) N"
    "consensus w N = consensus (\<lambda>q. outcome_of (cballots c (cnotified c r) q)) N"
    "consensus w N = consensus (\<lambda>q. outcome_of (ballots m (notified m r) q)) N"
    "consensus w N = consensus (\<lambda>q. outcome_of (ballots p (notified p r) q)) N"
    using assms(3-6) by (auto intro: consensus_cong)
  note w = this
  have "fst (gasnete_amdbarrier_wait_end (node a r) idv flags) = ?rc" unfolding w(1)
    by (rule amd_wait_code [THEN conjunct1, OF assms(7,1,2,8,9)]) (rule surjective_pairing)
  moreover have "fst (gasnete_amcbarrier_wait_end (cnode c r) idv flags) = ?rc" unfolding w(2)
    by (rule amc_wait_code [OF assms(10,1,2,11,12)])
  moreover have "gasnete_rmdbarrier_wait_end (rnode m r) idv flags = ?rc" unfolding w(3)
    by (rule rmd_wait_code [THEN conjunct1, OF assms(13,1,2,14,15)])
  moreover have "gasnete_pshmbarrier_wait_end idv flags (shm p) = rc_code ?rc" unfolding w(4)
    using assms(1) by (intro pshm_wait_code [OF assms(16) _ assms(2,17,18)]) simp
  ultimately show ?thesis by blast
qed

text \<open>Two ranks with the name 7 in each barrier; rank 0 waits.\<close>

definition central_demo :: "amc_action list" where
  "central_demo = [CNotify 0 7 0, CNotify 1 7 0, CDeliver (0, AmcNotify 0 1 7 0),
     CDeliver (1, AmcNotify 0 1 7 0), CKick 0, CDeliver (0, AmcDone 0 1 0 7), CWaitBegin 0 (0, 7)]"

definition shared_demo :: "pshm_action list" where
  "shared_demo = [PNotify 1 [] 7 0, PNotify 0 [] 7 0, PKick 0 [], PWaitBegin 0 (0, 7)]"

lemma central_demo_runs:
  "case amc_exec 2 central_demo (amc_init 2) of None \<Rightarrow> False
   | Some s \<Rightarrow> cwaiting s 0 = Some (0, 7) \<and> amc_complete (cnode s 0) \<and>
       cnotified s 0 = 1 \<and> cballots s 1 0 = (0, 7) \<and> cballots s 1 1 = (0, 7)"
  by code_simp

lemma shared_demo_runs:
  "case pshm_exec 2 shared_demo (pshm_init 2 2) of None \<Rightarrow> False
   | Some s \<Rightarrow> waiting s 0 = Some (0, 7) \<and> pshm_done (prv s 0) (shm s) \<and>
       notified s 0 = 1 \<and> ballots s 1 0 = (0, 7) \<and> ballots s 1 1 = (0, 7)"
  by code_simp

theorem barriers_interchangeable_witness:
  "case (amd_exec 2 demo_wait (amd_init 2), amc_exec 2 central_demo (amc_init 2),
         rmd_exec 2 rdemo_wait (rmd_init 2), pshm_exec 2 shared_demo (pshm_init 2 2)) of
     (Some a, Some c, Some m, Some p) \<Rightarrow>
       fst (gasnete_amdbarrier_wait_end (node a 0) 7 0) = fst (gasnete_amcbarrier_wait_end (cnode c 0) 7 0) \<and>
       gasnete_rmdbarrier_wait_end (rnode m 0) 7 0 = fst (gasnete_amdbarrier_wait_end (node a 0) 7 0)
   | _ \<Rightarrow> False"
proof -
  obtain a where a: "amd_exec 2 demo_wait (amd_init 2) = Some a" "waiting a 0 = Some (0, 7)" "amd_complete (node a 0)"
    "notified a 0 = 1" "ballots a 1 0 = (0, 7)" "ballots a 1 1 = (0, 7)" using demo_wait_runs by (auto split: option.splits)
  obtain c where c: "amc_exec 2 central_demo (amc_init 2) = Some c" "cwaiting c 0 = Some (0, 7)" "amc_complete (cnode c 0)"
    "cnotified c 0 = 1" "cballots c 1 0 = (0, 7)" "cballots c 1 1 = (0, 7)" using central_demo_runs by (auto split: option.splits)
  obtain m where m: "rmd_exec 2 rdemo_wait (rmd_init 2) = Some m" "waiting m 0 = Some (0, 7)" "rmd_complete (rnode m 0)"
    "notified m 0 = 1" "ballots m 1 0 = (0, 7)" "ballots m 1 1 = (0, 7)" using rdemo_wait_runs by (auto split: option.splits)
  obtain p where p: "pshm_exec 2 shared_demo (pshm_init 2 2) = Some p" "waiting p 0 = Some (0, 7)"
    "pshm_done (prv p 0) (shm p)" "notified p 0 = 1" "ballots p 1 0 = (0, 7)" "ballots p 1 1 = (0, 7)"
    using shared_demo_runs by (auto split: option.splits)
  have two: "q = 0 \<or> q = 1" if "q < 2" for q :: nat using that by auto
  have "outcome_of (0, 7) = outcome_of (ballots a (notified a 0) q)" "outcome_of (0, 7) = outcome_of (cballots c (cnotified c 0) q)"
    "outcome_of (0, 7) = outcome_of (ballots m (notified m 0) q)" "outcome_of (0, 7) = outcome_of (ballots p (notified p 0) q)"
    if "q < 2" for q using two [OF that] a c m p by auto
  from barriers_interchangeable [OF _ _ this amd_exec_init [OF a(1)] a(2,3) amc_exec_init [OF c(1)] c(2,3)
      rmd_exec_init [OF m(1)] m(2,3) pshm_exec_init [OF p(1)] p(2,3)]
  show ?thesis by (simp add: a(1) c(1) m(1) p(1))
qed

end
